(* ===== verification/Common_Prelude.thy ===== *)
theory Common_Prelude
  imports Main "HOL-Library.Word" "HOL-Library.Monad_Syntax"
begin

unbundle bit_operations_syntax

text \<open>
  Shared vocabulary of the development: undefined behaviour as \<open>None\<close>, a total-correctness
  predicate on such results, the byte-addressed memory the C code loads from and stores to, and
  the little-endian conversion between words and bytes.

  A C function that may run into undefined behaviour (an access outside every object, a call
  through a null function pointer, a shift by the full width) or that may not return is modelled
  by a function into \<open>option\<close>: \<open>None\<close> stands for these outcomes, \<open>Some x\<close> for a return with
  result and final state \<open>x\<close>. That a routine never gets there is then a theorem.
\<close>

named_theorems run_simps \<open>unfolding rules for total correctness\<close>
named_theorems frame_intros \<open>composition of memory effects\<close>

subsection \<open>Total correctness of an option-valued computation\<close>

definition run :: "'a option \<Rightarrow> ('a \<Rightarrow> bool) \<Rightarrow> bool" where
  "run r P \<longleftrightarrow> (case r of None \<Rightarrow> False | Some x \<Rightarrow> P x)"

lemma run_Some [simp, run_simps]: "run (Some x) P \<longleftrightarrow> P x"
  by (simp add: run_def)

lemma run_None [simp, run_simps]: "\<not> run None P"
  by (simp add: run_def)

lemma run_bind [run_simps]: "run (r \<bind> f) P \<longleftrightarrow> run r (\<lambda>x. run (f x) P)"
  by (cases r) simp_all

lemma run_if [run_simps]: "run (if b then r else r') P \<longleftrightarrow> (if b then run r P else run r' P)"
  by simp

lemma run_case_prod [run_simps]:
  "run (case p of (a, b) \<Rightarrow> f a b) P \<longleftrightarrow> (case p of (a, b) \<Rightarrow> run (f a b) P)"
  by (simp split: prod.split)

lemma run_case_option [run_simps]:
  "run (case r of None \<Rightarrow> x | Some v \<Rightarrow> f v) P \<longleftrightarrow>
     (case r of None \<Rightarrow> run x P | Some v \<Rightarrow> run (f v) P)"
  by (simp split: option.split)

lemma run_Let [run_simps]: "run (let x = t in f x) P \<longleftrightarrow> (let x = t in run (f x) P)"
  by simp

lemma run_iff_ex: "run r P \<longleftrightarrow> (\<exists>x. r = Some x \<and> P x)"
  by (cases r) simp_all

lemma runI: "r = Some x \<Longrightarrow> P x \<Longrightarrow> run r P"
  by simp

lemma runE: "run r P \<Longrightarrow> (\<And>x. r = Some x \<Longrightarrow> P x \<Longrightarrow> Q) \<Longrightarrow> Q"
  by (auto simp: run_iff_ex)

lemma run_mono: "run r P \<Longrightarrow> (\<And>x. P x \<Longrightarrow> Q x) \<Longrightarrow> run r Q"
  by (cases r) auto

lemma run_mono2: "run r P \<Longrightarrow> (\<And>x y. P (x, y) \<Longrightarrow> Q (x, y)) \<Longrightarrow> run r Q"
  by (cases r) auto

lemma run_mono3: "run r P \<Longrightarrow> (\<And>x y z. P (x, y, z) \<Longrightarrow> Q (x, y, z)) \<Longrightarrow> run r Q"
  by (cases r) auto

lemma run_conj: "run r P \<Longrightarrow> run r Q \<Longrightarrow> run r (\<lambda>x. P x \<and> Q x)"
  by (cases r) auto

subsection \<open>Memory\<close>

text \<open>
  Addresses are integers, so that pointer arithmetic with negative offsets is ordinary addition;
  address 0 is the null pointer. A memory maps the addresses of live objects to bytes; a load or
  store elsewhere is undefined.
\<close>

type_synonym byte = "8 word"
type_synonym addr = int
type_synonym mem = "int \<rightharpoonup> 8 word"

fun load_bytes :: "mem \<Rightarrow> addr \<Rightarrow> nat \<Rightarrow> byte list option" where
  "load_bytes m p 0 = Some []"
| "load_bytes m p (Suc n) = do {
     b \<leftarrow> m p;
     bs \<leftarrow> load_bytes m (p + 1) n;
     Some (b # bs)
   }"

fun store_bytes :: "mem \<Rightarrow> addr \<Rightarrow> byte list \<Rightarrow> mem option" where
  "store_bytes m p [] = Some m"
| "store_bytes m p (b # bs) =
     (if m p = None then None else store_bytes (m(p \<mapsto> b)) (p + 1) bs)"

definition region :: "addr \<Rightarrow> nat \<Rightarrow> addr set" where
  "region p n = {p ..< p + int n}"

definition mapped :: "mem \<Rightarrow> addr \<Rightarrow> nat \<Rightarrow> bool" where
  "mapped m p n \<longleftrightarrow> region p n \<subseteq> dom m"

text \<open>A memory change confined to a set of addresses; objects are neither created nor destroyed.\<close>

definition frame :: "addr set \<Rightarrow> mem \<Rightarrow> mem \<Rightarrow> bool" where
  "frame R m m' \<longleftrightarrow> dom m' = dom m \<and> (\<forall>a. a \<notin> R \<longrightarrow> m' a = m a)"

lemma region_0 [simp]: "region p 0 = {}"
  by (simp add: region_def)

lemma region_Suc: "region p (Suc n) = insert p (region (p + 1) n)"
  by (auto simp: region_def)

lemma region_subset: "p \<le> q \<Longrightarrow> q + int k \<le> p + int n \<Longrightarrow> region q k \<subseteq> region p n"
  by (auto simp: region_def)

lemma region_mono: "k \<le> n \<Longrightarrow> region p k \<subseteq> region p n"
  by (auto simp: region_def)

lemma region_after: "k + 4 \<le> n \<Longrightarrow> region (p + 4) k \<subseteq> region p n"
  by (auto simp: region_def)

lemma region_byte: "Suc k \<le> n \<Longrightarrow> region (p + int k) 1 \<subseteq> region p n"
  by (auto simp: region_def)

lemma mapped_sub: "mapped m p n \<Longrightarrow> p \<le> q \<Longrightarrow> q + int k \<le> p + int n \<Longrightarrow> mapped m q k"
  using region_subset [of p q k n] by (auto simp: mapped_def)

lemma mapped_0 [simp]: "mapped m p 0"
  by (simp add: mapped_def)

lemma mapped_Suc: "mapped m p (Suc n) \<longleftrightarrow> (\<exists>b. m p = Some b) \<and> mapped m (p + 1) n"
  by (auto simp: mapped_def region_Suc)

lemma frame_refl [simp, frame_intros]: "frame R m m"
  by (simp add: frame_def)

lemma frame_trans: "frame R m m' \<Longrightarrow> frame R m' m'' \<Longrightarrow> frame R m m''"
  by (auto simp: frame_def)

lemma frame_mono: "frame R m m' \<Longrightarrow> R \<subseteq> S \<Longrightarrow> frame S m m'"
  by (auto simp: frame_def)

lemma frame_Un1: "frame R m m' \<Longrightarrow> frame (R \<union> S) m m'"
  by (rule frame_mono) auto

lemma frame_Un2: "frame S m m' \<Longrightarrow> frame (R \<union> S) m m'"
  by (rule frame_mono) auto

lemma frame_trans_sub: "frame (R \<union> T) m m' \<Longrightarrow> frame S m' m'' \<Longrightarrow> S \<subseteq> R \<union> T \<Longrightarrow> frame (R \<union> T) m m''"
  by (auto simp: frame_def)

lemma frame_dom: "frame R m m' \<Longrightarrow> dom m' = dom m"
  by (simp add: frame_def)

lemma frame_mapped [simp]: "frame R m m' \<Longrightarrow> mapped m' p n = mapped m p n"
  by (simp add: frame_def mapped_def)

lemma frame_outside: "frame R m m' \<Longrightarrow> a \<notin> R \<Longrightarrow> m' a = m a"
  by (simp add: frame_def)

lemma load_bytes_length: "load_bytes m p n = Some bs \<Longrightarrow> length bs = n"
  by (induction n arbitrary: p bs) (auto simp: bind_eq_Some_conv)

lemma load_bytes_mapped: "mapped m p n \<Longrightarrow> \<exists>bs. load_bytes m p n = Some bs \<and> length bs = n"
proof (induction n arbitrary: p)
  case (Suc n)
  then obtain b where b: "m p = Some b" and "mapped m (p + 1) n"
    by (auto simp: mapped_Suc)
  from Suc.IH [OF this(2)] b show ?case by auto
qed simp

lemma load_bytes_cong:
  "(\<And>a. a \<in> region p n \<Longrightarrow> m' a = m a) \<Longrightarrow> load_bytes m' p n = load_bytes m p n"
proof (induction n arbitrary: p)
  case (Suc n)
  have "load_bytes m' (p + 1) n = load_bytes m (p + 1) n"
    by (rule Suc.IH) (simp add: Suc.prems region_Suc)
  moreover have "m' p = m p"
    by (simp add: Suc.prems region_Suc)
  ultimately show ?case by simp
qed simp

lemma load_bytes_frame:
  "frame R m m' \<Longrightarrow> region p n \<inter> R = {} \<Longrightarrow> load_bytes m' p n = load_bytes m p n"
  by (rule load_bytes_cong) (auto simp: frame_def)

lemma store_bytes_effect:
  "mapped m p (length bs) \<Longrightarrow> \<exists>m'. store_bytes m p bs = Some m' \<and>
     frame (region p (length bs)) m m' \<and> load_bytes m' p (length bs) = Some bs"
proof (induction bs arbitrary: m p)
  case Nil
  then show ?case by simp
next
  case (Cons b bs)
  then obtain c where c: "m p = Some c" and mp: "mapped m (p + 1) (length bs)"
    by (auto simp: mapped_Suc)
  have "mapped (m(p \<mapsto> b)) (p + 1) (length bs)"
    using mp by (auto simp: mapped_def)
  from Cons.IH [OF this] obtain m' where
    m': "store_bytes (m(p \<mapsto> b)) (p + 1) bs = Some m'"
    "frame (region (p + 1) (length bs)) (m(p \<mapsto> b)) m'"
    "load_bytes m' (p + 1) (length bs) = Some bs"
    by blast
  have "m' p = Some b"
    using m'(2) by (auto simp: frame_def region_def)
  moreover have "frame (region p (Suc (length bs))) m m'"
    using m'(2) c by (auto simp: frame_def region_Suc)
  ultimately show ?case
    using m' c by simp
qed

lemma run_store_bytes:
  "mapped m p (length bs) \<Longrightarrow> region p (length bs) \<subseteq> R \<Longrightarrow>
     (\<And>m'. frame R m m' \<Longrightarrow> load_bytes m' p (length bs) = Some bs \<Longrightarrow> P m') \<Longrightarrow>
     run (store_bytes m p bs) P"
  using store_bytes_effect [of m p bs] frame_mono by fastforce

lemma run_load_bytes:
  "mapped m p n \<Longrightarrow> (\<And>bs. load_bytes m p n = Some bs \<Longrightarrow> length bs = n \<Longrightarrow> P bs) \<Longrightarrow>
     run (load_bytes m p n) P"
  using load_bytes_mapped [of m p n] by auto

subsection \<open>Words as little-endian bytes\<close>

lemma unat32_less: "unat (w :: 32 word) < 2 ^ 32"
  using unsigned_less [of w] by simp

lemma unat_ucast_32_64 [simp]: "unat (ucast (w :: 32 word) :: 64 word) = unat w"
  using unat32_less [of w] by (simp add: unsigned_ucast_eq take_bit_nat_eq_self)

lemma unat64_less: "unat (w :: 64 word) < 2 ^ 64"
  using unsigned_less [of w] by simp

fun bytes_of_word :: "nat \<Rightarrow> 'a::len word \<Rightarrow> byte list" where
  "bytes_of_word 0 w = []"
| "bytes_of_word (Suc n) w = ucast w # bytes_of_word n (drop_bit 8 w)"

fun word_of_bytes :: "byte list \<Rightarrow> 'a::len word" where
  "word_of_bytes [] = 0"
| "word_of_bytes (b # bs) = ucast b OR push_bit 8 (word_of_bytes bs)"

lemma length_bytes_of_word [simp]: "length (bytes_of_word n w) = n"
  by (induction n arbitrary: w) simp_all

lemma word_of_bytes_of_word:
  "word_of_bytes (bytes_of_word n w) = take_bit (8 * n) (w :: 'a::len word)"
proof (induction n arbitrary: w)
  case (Suc n)
  have "bit (word_of_bytes (bytes_of_word (Suc n) w) :: 'a word) i \<longleftrightarrow>
        bit (take_bit (8 * Suc n) w) i" if "i < LENGTH('a)" for i
    using that Suc [of "drop_bit 8 w"]
    by (auto simp: bit_simps not_less)
  then show ?case
    by (rule bit_word_eqI)
qed simp

lemma word_of_bytes_inverse:
  "LENGTH('a) \<le> 8 * n \<Longrightarrow> word_of_bytes (bytes_of_word n w) = (w :: 'a::len word)"
  by (simp add: word_of_bytes_of_word take_bit_word_eq_self)

text \<open>Typed accesses at the widths the code uses.\<close>

definition load8 :: "mem \<Rightarrow> addr \<Rightarrow> 8 word option" where
  "load8 m p = map_option word_of_bytes (load_bytes m p 1)"

definition load16 :: "mem \<Rightarrow> addr \<Rightarrow> 16 word option" where
  "load16 m p = map_option word_of_bytes (load_bytes m p 2)"

definition load32 :: "mem \<Rightarrow> addr \<Rightarrow> 32 word option" where
  "load32 m p = map_option word_of_bytes (load_bytes m p 4)"

definition load64 :: "mem \<Rightarrow> addr \<Rightarrow> 64 word option" where
  "load64 m p = map_option word_of_bytes (load_bytes m p 8)"

definition store8 :: "mem \<Rightarrow> addr \<Rightarrow> 8 word \<Rightarrow> mem option" where
  "store8 m p v = store_bytes m p (bytes_of_word 1 v)"

definition store16 :: "mem \<Rightarrow> addr \<Rightarrow> 16 word \<Rightarrow> mem option" where
  "store16 m p v = store_bytes m p (bytes_of_word 2 v)"

definition store32 :: "mem \<Rightarrow> addr \<Rightarrow> 32 word \<Rightarrow> mem option" where
  "store32 m p v = store_bytes m p (bytes_of_word 4 v)"

definition store64 :: "mem \<Rightarrow> addr \<Rightarrow> 64 word \<Rightarrow> mem option" where
  "store64 m p v = store_bytes m p (bytes_of_word 8 v)"

lemmas load_defs = load8_def load16_def load32_def load64_def
lemmas store_defs = store8_def store16_def store32_def store64_def

lemma run_map_option [run_simps]: "run (map_option f r) P \<longleftrightarrow> run r (\<lambda>x. P (f x))"
  by (cases r) simp_all

lemma run_loads:
  "mapped m p 1 \<Longrightarrow> (\<And>v. P8 v) \<Longrightarrow> run (load8 m p) P8"
  "mapped m p 2 \<Longrightarrow> (\<And>v. P16 v) \<Longrightarrow> run (load16 m p) P16"
  "mapped m p 4 \<Longrightarrow> (\<And>v. P32 v) \<Longrightarrow> run (load32 m p) P32"
  "mapped m p 8 \<Longrightarrow> (\<And>v. P64 v) \<Longrightarrow> run (load64 m p) P64"
  unfolding load_defs run_map_option by (rule run_load_bytes, simp_all)+

lemma run_stores:
  "mapped m p 1 \<Longrightarrow> region p 1 \<subseteq> R \<Longrightarrow> (\<And>m'. frame R m m' \<Longrightarrow> Q m') \<Longrightarrow> run (store8 m p v8) Q"
  "mapped m p 2 \<Longrightarrow> region p 2 \<subseteq> R \<Longrightarrow> (\<And>m'. frame R m m' \<Longrightarrow> Q m') \<Longrightarrow> run (store16 m p v16) Q"
  "mapped m p 4 \<Longrightarrow> region p 4 \<subseteq> R \<Longrightarrow> (\<And>m'. frame R m m' \<Longrightarrow> Q m') \<Longrightarrow> run (store32 m p v32) Q"
  "mapped m p 8 \<Longrightarrow> region p 8 \<subseteq> R \<Longrightarrow> (\<And>m'. frame R m m' \<Longrightarrow> Q m') \<Longrightarrow> run (store64 m p v64) Q"
  unfolding store_defs by (rule run_store_bytes [where R = R], simp_all)+

subsection \<open>Groups of seven bits\<close>

lemma and_7F: "x AND 0x7F = take_bit 7 (x :: 'a::len word)"
  by (simp add: take_bit_eq_mask mask_eq_exp_minus_1)

lemma word_80: "(0x80 :: 'a::len word) = push_bit 7 1"
  by (simp add: push_bit_eq_mult)

lemma top_bit: "b AND 0x80 = 0 \<longleftrightarrow> \<not> bit b 7" for b :: "'a::len word"
proof -
  have "bit (b AND 0x80) n \<longleftrightarrow> n = 7 \<and> bit b 7" for n
    by (cases "n = 7"; cases "n < 7")
      (auto simp: word_80 bit_simps simp del: push_bit_of_1 dest: bit_imp_le_length)
  then show ?thesis using bit_eqI [of "b AND 0x80" 0] by (metis bit_0_eq bot_apply bot_bool_def)
qed

lemma drop_zero_bit: "drop_bit n v = 0 \<Longrightarrow> bit v i \<Longrightarrow> i < n"
  by (metis bit_0_eq bit_drop_bit_eq bot_apply bot_bool_def comp_apply le_add_diff_inverse not_less)

lemma cont_byte:
  "bit (ucast (take_bit 7 v) OR 0x80 :: byte) 7"
  "(ucast (take_bit 7 v) OR 0x80 :: byte) AND 0x7F = ucast (take_bit 7 (v :: 64 word))"
  by (auto simp: word_80 and_7F bit_simps intro!: bit_word_eqI simp del: push_bit_of_1)

lemma last_byte:
  assumes "drop_bit 7 v = 0"
  shows "\<not> bit (ucast (v :: 64 word) :: byte) 7" and "(ucast v :: byte) AND 0x7F = ucast v"
  by (auto dest: drop_zero_bit [OF assms] simp: and_7F bit_simps intro!: bit_word_eqI)

lemma unat_drop7: "unat (drop_bit 7 (v :: 64 word)) = unat v div 128"
  by (simp add: drop_bit_eq_div unat_div_distrib)

text \<open>The rest of a value still fits after seven bits are taken off.\<close>

lemma drop7_fits:
  assumes "unat (v :: 64 word) < 2 ^ k" and "drop_bit 7 v \<noteq> 0"
  shows "unat (drop_bit 7 v) < 2 ^ (k - 7)" and "7 < k"
proof -
  have "unat v div 128 \<noteq> 0" using assms(2) unat_drop7 [of v] by (metis unat_eq_zero)
  then have "2 ^ 7 \<le> unat v" by (simp add: div_eq_0_iff)
  with assms(1) have "(2::nat) ^ 7 < 2 ^ k" by linarith
  then show "7 < k" by (simp only: power_strict_increasing_iff)
  then have "(2::nat) ^ k = 2 ^ (k - 7) * 128"
    using power_add [of "2::nat" "k - 7" 7] by simp
  with assms(1) show "unat (drop_bit 7 v) < 2 ^ (k - 7)"
    by (simp add: unat_drop7 less_mult_imp_div_less)
qed

lemma join_groups:
  "push_bit n (take_bit 7 v) OR push_bit (n + 7) (drop_bit 7 v) = push_bit n (v :: 'a::len word)"
  by (auto simp: bit_simps intro!: bit_word_eqI)

end
