(* ===== verification/Pb_Types.thy ===== *)
theory Pb_Types
  imports Common_Prelude
begin

text \<open>
  The data model of nanopb (\<open>pb.h\<close>, with the stream structs of \<open>pb_encode.h\<close> and
  \<open>pb_decode.h\<close>), for the configuration the project builds: \<open>PB_FIELD_32BIT\<close> and
  \<open>PB_NO_PACKED_STRUCTS\<close> set, \<open>PB_ENABLE_MALLOC\<close>, \<open>PB_BUFFER_ONLY\<close>, \<open>PB_NO_ERRMSG\<close> and
  \<open>PB_OLD_CALLBACK_STYLE\<close> unset, on a little-endian platform with 64-bit pointers and \<open>size_t\<close>.
  The macros that build field descriptors are functions of the offsets and sizes the compiler
  computes.
\<close>

type_synonym pb_type_t = "8 word"
type_synonym pb_size_t = "32 word"
type_synonym pb_ssize_t = "32 word"
type_synonym size_t = "64 word"

abbreviation PB_SIZE_MAX :: pb_size_t where
  "PB_SIZE_MAX \<equiv> - 1"

abbreviation PB_MAX_REQUIRED_FIELDS :: "32 word" where
  "PB_MAX_REQUIRED_FIELDS \<equiv> 64"

subsection \<open>Field types\<close>

text \<open>The low four bits of a type give the data type, the next two the repetition rule, the top
  two the allocation.\<close>

definition PB_LTYPE_VARINT :: pb_type_t where "PB_LTYPE_VARINT = 0x00"
definition PB_LTYPE_UVARINT :: pb_type_t where "PB_LTYPE_UVARINT = 0x01"
definition PB_LTYPE_SVARINT :: pb_type_t where "PB_LTYPE_SVARINT = 0x02"
definition PB_LTYPE_FIXED32 :: pb_type_t where "PB_LTYPE_FIXED32 = 0x03"
definition PB_LTYPE_FIXED64 :: pb_type_t where "PB_LTYPE_FIXED64 = 0x04"
definition PB_LTYPE_LAST_PACKABLE :: pb_type_t where "PB_LTYPE_LAST_PACKABLE = 0x04"
definition PB_LTYPE_BYTES :: pb_type_t where "PB_LTYPE_BYTES = 0x05"
definition PB_LTYPE_STRING :: pb_type_t where "PB_LTYPE_STRING = 0x06"
definition PB_LTYPE_SUBMESSAGE :: pb_type_t where "PB_LTYPE_SUBMESSAGE = 0x07"
definition PB_LTYPE_EXTENSION :: pb_type_t where "PB_LTYPE_EXTENSION = 0x08"
definition PB_LTYPE_FIXED_LENGTH_BYTES :: pb_type_t where "PB_LTYPE_FIXED_LENGTH_BYTES = 0x09"
definition PB_LTYPES_COUNT :: pb_type_t where "PB_LTYPES_COUNT = 0x0A"

definition PB_HTYPE_REQUIRED :: pb_type_t where "PB_HTYPE_REQUIRED = 0x00"
definition PB_HTYPE_OPTIONAL :: pb_type_t where "PB_HTYPE_OPTIONAL = 0x10"
definition PB_HTYPE_REPEATED :: pb_type_t where "PB_HTYPE_REPEATED = 0x20"
definition PB_HTYPE_ONEOF :: pb_type_t where "PB_HTYPE_ONEOF = 0x30"

definition PB_ATYPE_STATIC :: pb_type_t where "PB_ATYPE_STATIC = 0x00"
definition PB_ATYPE_POINTER :: pb_type_t where "PB_ATYPE_POINTER = 0x80"
definition PB_ATYPE_CALLBACK :: pb_type_t where "PB_ATYPE_CALLBACK = 0x40"

definition PB_ATYPE :: "pb_type_t \<Rightarrow> pb_type_t" where "PB_ATYPE x = x AND 0xC0"
definition PB_HTYPE :: "pb_type_t \<Rightarrow> pb_type_t" where "PB_HTYPE x = x AND 0x30"
definition PB_LTYPE :: "pb_type_t \<Rightarrow> pb_type_t" where "PB_LTYPE x = x AND 0x0F"

lemmas ltype_defs = PB_LTYPE_VARINT_def PB_LTYPE_UVARINT_def PB_LTYPE_SVARINT_def
  PB_LTYPE_FIXED32_def PB_LTYPE_FIXED64_def PB_LTYPE_LAST_PACKABLE_def PB_LTYPE_BYTES_def
  PB_LTYPE_STRING_def PB_LTYPE_SUBMESSAGE_def PB_LTYPE_EXTENSION_def
  PB_LTYPE_FIXED_LENGTH_BYTES_def PB_LTYPES_COUNT_def

lemmas htype_defs = PB_HTYPE_REQUIRED_def PB_HTYPE_OPTIONAL_def PB_HTYPE_REPEATED_def
  PB_HTYPE_ONEOF_def

lemmas atype_defs = PB_ATYPE_STATIC_def PB_ATYPE_POINTER_def PB_ATYPE_CALLBACK_def

lemmas pb_type_defs = ltype_defs htype_defs atype_defs PB_ATYPE_def PB_HTYPE_def PB_LTYPE_def

lemma less_8_cases: "n < 8 \<Longrightarrow> n = 0 \<or> n = 1 \<or> n = 2 \<or> n = 3 \<or> n = 4 \<or> n = 5 \<or> n = 6 \<or> n = (7::nat)"
  by auto

lemma htype_cases:
  "PB_HTYPE x = PB_HTYPE_REQUIRED \<or> PB_HTYPE x = PB_HTYPE_OPTIONAL \<or>
   PB_HTYPE x = PB_HTYPE_REPEATED \<or> PB_HTYPE x = PB_HTYPE_ONEOF"
proof -
  have "x AND 0x30 = push_bit 4 (of_bool (bit x 4)) OR push_bit 5 (of_bool (bit x 5))"
  proof (rule bit_word_eqI)
    fix n assume "n < LENGTH(8)"
    then have "n < 8" by simp
    from less_8_cases [OF this]
    show "bit (x AND 0x30) n = bit (push_bit 4 (of_bool (bit x 4)) OR push_bit 5 (of_bool (bit x 5)) :: 8 word) n"
      by (elim disjE) (simp_all add: bit_simps)
  qed
  then show ?thesis
    by (cases "bit x 4"; cases "bit x 5") (simp_all add: htype_defs PB_HTYPE_def)
qed

subsection \<open>Wire types\<close>

text \<open>A C enum; the decoder casts any three-bit value to it.\<close>

type_synonym pb_wire_type_t = "32 word"

definition PB_WT_VARINT :: pb_wire_type_t where "PB_WT_VARINT = 0"
definition PB_WT_64BIT :: pb_wire_type_t where "PB_WT_64BIT = 1"
definition PB_WT_STRING :: pb_wire_type_t where "PB_WT_STRING = 2"
definition PB_WT_32BIT :: pb_wire_type_t where "PB_WT_32BIT = 5"

lemmas wt_defs = PB_WT_VARINT_def PB_WT_64BIT_def PB_WT_STRING_def PB_WT_32BIT_def

subsection \<open>Field descriptors\<close>

text \<open>
  The untyped \<open>ptr\<close> of a descriptor is null, the address of a constant descriptor array (named
  by a number, so that message types may refer to themselves), or the address of a default value.
\<close>

datatype pb_ptr = PtrNull | PtrFields nat | PtrData "byte list"

record pb_field_t =
  pf_tag :: pb_size_t
  pf_type :: pb_type_t
  pf_data_offset :: pb_size_t
  pf_size_offset :: pb_ssize_t
  pf_data_size :: pb_size_t
  pf_array_size :: pb_size_t
  pf_ptr :: pb_ptr

text \<open>\<open>PB_LAST_FIELD\<close>: the terminator of a descriptor array.\<close>

definition PB_LAST_FIELD :: pb_field_t where
  "PB_LAST_FIELD = \<lparr>pf_tag = 0, pf_type = 0, pf_data_offset = 0, pf_size_offset = 0,
     pf_data_size = 0, pf_array_size = 0, pf_ptr = PtrNull\<rparr>"

subsection \<open>Streams\<close>

text \<open>
  The pair of fields \<open>callback\<close> and \<open>state\<close> of a stream is one value. An input stream made by
  \<open>pb_istream_from_buffer\<close> holds the bytes from its read position to the end of the buffer
  object; an output stream made by \<open>pb_ostream_from_buffer\<close> holds the bytes written so far and
  the number of bytes the buffer object still has room for. A stream with the user's own callback
  holds the user's state; an output stream with a null callback only counts.
\<close>

datatype 's istate = Buf_read "byte list" | User_read 's

datatype 's ostate = Null_write | Buf_write "byte list" nat | User_write 's

record 's pb_istream_t =
  istate :: "'s istate"
  bytes_left :: size_t
  ierrmsg :: "string option"

record 's pb_ostream_t =
  ostate :: "'s ostate"
  max_size :: size_t
  bytes_written :: size_t
  oerrmsg :: "string option"

text \<open>\<open>PB_SET_ERROR\<close> keeps the first message.\<close>

definition PB_SET_ERROR :: "'s pb_istream_t \<Rightarrow> string \<Rightarrow> 's pb_istream_t" where
  "PB_SET_ERROR s msg =
     s\<lparr>ierrmsg := (case ierrmsg s of Some e \<Rightarrow> Some e | None \<Rightarrow> Some msg)\<rparr>"

definition PB_SET_ERROR_O :: "'s pb_ostream_t \<Rightarrow> string \<Rightarrow> 's pb_ostream_t" where
  "PB_SET_ERROR_O s msg =
     s\<lparr>oerrmsg := (case oerrmsg s of Some e \<Rightarrow> Some e | None \<Rightarrow> Some msg)\<rparr>"

definition PB_GET_ERROR :: "string option \<Rightarrow> string" where
  "PB_GET_ERROR e = (case e of Some msg \<Rightarrow> msg | None \<Rightarrow> ''(none)'')"

lemma PB_SET_ERROR_sel [simp]:
  "istate (PB_SET_ERROR s msg) = istate s" "bytes_left (PB_SET_ERROR s msg) = bytes_left s"
  by (simp_all add: PB_SET_ERROR_def)

lemma PB_SET_ERROR_O_sel [simp]:
  "ostate (PB_SET_ERROR_O s msg) = ostate s" "max_size (PB_SET_ERROR_O s msg) = max_size s"
  "bytes_written (PB_SET_ERROR_O s msg) = bytes_written s"
  by (simp_all add: PB_SET_ERROR_O_def)

subsection \<open>What the program around the library supplies\<close>

text \<open>
  \<open>pb_extension_type_t\<close>: the handlers are numbers of user functions, \<open>arg\<close> is a descriptor for
  the default handlers.
\<close>

record pb_extension_type_t =
  ext_decode :: "nat option"
  ext_encode :: "nat option"
  ext_arg :: "pb_field_t option"

text \<open>
  The environment of a run: the constant descriptor arrays, the extension types by address, and
  the user's functions. A stream callback sees its own state and the number of bytes wanted (or
  the bytes to write) and returns success, the bytes it stored and its new state. A field
  callback is named by the function pointer of the \<open>pb_callback_t\<close>; it gets the stream, the
  descriptor, the address of \<open>arg\<close> and the memory, all of which it may change.
\<close>

record ('i, 'o) pb_env =
  descs :: "nat \<Rightarrow> pb_field_t list"
  ext_types :: "64 word \<Rightarrow> pb_extension_type_t option"
  user_read :: "'i \<Rightarrow> nat \<Rightarrow> bool \<times> byte list \<times> 'i"
  user_write :: "'o \<Rightarrow> byte list \<Rightarrow> bool \<times> 'o"
  user_decode :: "64 word \<Rightarrow> 'i pb_istream_t \<Rightarrow> pb_field_t \<Rightarrow> addr \<Rightarrow> mem \<Rightarrow>
    (bool \<times> 'i pb_istream_t \<times> mem) option"
  user_encode :: "64 word \<Rightarrow> 'o pb_ostream_t \<Rightarrow> pb_field_t \<Rightarrow> addr \<Rightarrow> mem \<Rightarrow>
    (bool \<times> 'o pb_ostream_t \<times> mem) option"
  user_ext_decode :: "nat \<Rightarrow> 'i pb_istream_t \<Rightarrow> addr \<Rightarrow> 32 word \<Rightarrow> pb_wire_type_t \<Rightarrow> mem \<Rightarrow>
    (bool \<times> 'i pb_istream_t \<times> mem) option"
  user_ext_encode :: "nat \<Rightarrow> 'o pb_ostream_t \<Rightarrow> addr \<Rightarrow> mem \<Rightarrow>
    (bool \<times> 'o pb_ostream_t \<times> mem) option"

text \<open>Offsets of the members of \<open>pb_extension_t\<close>, \<open>pb_callback_t\<close> and \<open>pb_bytes_array_t\<close>.\<close>

definition ext_type_off :: int where "ext_type_off = 0"
definition ext_dest_off :: int where "ext_dest_off = 8"
definition ext_next_off :: int where "ext_next_off = 16"
definition ext_found_off :: int where "ext_found_off = 24"
definition cb_funcs_off :: int where "cb_funcs_off = 0"
definition cb_arg_off :: int where "cb_arg_off = 8"
definition bytes_size_off :: int where "bytes_size_off = 0"
definition bytes_bytes_off :: int where "bytes_bytes_off = 4"

lemmas struct_off_defs = ext_type_off_def ext_dest_off_def ext_next_off_def ext_found_off_def
  cb_funcs_off_def cb_arg_off_def bytes_size_off_def bytes_bytes_off_def

definition PB_BYTES_ARRAY_T_ALLOCSIZE :: "pb_size_t \<Rightarrow> size_t" where
  "PB_BYTES_ARRAY_T_ALLOCSIZE n = ucast n + 4"

text \<open>A pointer read from memory.\<close>

definition load_ptr :: "mem \<Rightarrow> addr \<Rightarrow> addr option" where
  "load_ptr m p = map_option uint (load64 m p)"

lemma run_load_ptr: "mapped m p 8 \<Longrightarrow> (\<And>v. P v) \<Longrightarrow> run (load_ptr m p) P"
  by (simp add: load_ptr_def run_map_option run_loads)

end
