(* ===== verification/Pb_Istream.thy ===== *)
theory Pb_Istream
  imports Pb_Types
begin

text \<open>
  Input streams and the primitive decoders of \<open>pb_decode.c\<close>: reading and skipping bytes, varints,
  tags, fixed-width values, and the substreams that limit a nested value to its length.

  A routine with an out-parameter returns \<open>None\<close> in place of the value when the C function
  returns false; the stream is returned in both cases, since the C code leaves it changed.
\<close>

subsection \<open>Reading bytes\<close>

text \<open>\<open>buf_read\<close>: the bytes copied and the advanced position; beyond the buffer object it is
  undefined.\<close>

definition buf_read :: "byte list \<Rightarrow> size_t \<Rightarrow> (byte list \<times> byte list) option" where
  "buf_read src count =
     (if unat count \<le> length src then Some (take (unat count) src, drop (unat count) src) else None)"

text \<open>\<open>stream->callback(stream, buf, count)\<close>: a user callback that reports success fills the
  buffer, and never stores more than \<open>count\<close> bytes.\<close>

definition call_read ::
    "('i, 'o) pb_env \<Rightarrow> 'i istate \<Rightarrow> size_t \<Rightarrow> (bool \<times> byte list \<times> 'i istate) option" where
  "call_read env st count = (case st of
     Buf_read src \<Rightarrow> map_option (\<lambda>(got, src'). (True, got, Buf_read src')) (buf_read src count)
   | User_read u \<Rightarrow>
       (let (ok, got, u') = user_read env u (unat count)
        in if (if ok then length got = unat count else length got \<le> unat count)
           then Some (ok, got, User_read u') else None))"

text \<open>\<open>pb_read\<close> with a buffer: success, the bytes stored, the stream.\<close>

definition pb_read ::
    "('i, 'o) pb_env \<Rightarrow> 'i pb_istream_t \<Rightarrow> size_t \<Rightarrow>
     (bool \<times> byte list \<times> 'i pb_istream_t) option" where
  "pb_read env s count =
     (if bytes_left s < count then Some (False, [], PB_SET_ERROR s ''end-of-stream'')
      else do {
        (ok, got, st) \<leftarrow> call_read env (istate s) count;
        let s' = s\<lparr>istate := st\<rparr>;
        if \<not> ok then Some (False, got, PB_SET_ERROR s' ''io error'')
        else Some (True, got, s'\<lparr>bytes_left := bytes_left s' - count\<rparr>)
      })"

text \<open>\<open>pb_read\<close> with a null buffer: a memory stream just advances, another stream is read in
  pieces of 16 bytes.\<close>

function (sequential) pb_read_pieces ::
    "('i, 'o) pb_env \<Rightarrow> 'i pb_istream_t \<Rightarrow> size_t \<Rightarrow> (bool \<times> 'i pb_istream_t) option" where
  "pb_read_pieces env s count =
     (if 16 < count then do {
        (ok, _, s') \<leftarrow> pb_read env s 16;
        if \<not> ok then Some (False, s') else pb_read_pieces env s' (count - 16)
      }
      else do {
        (ok, _, s') \<leftarrow> pb_read env s count;
        Some (ok, s')
      })"
  by pat_completeness auto
termination
  by (relation "measure (\<lambda>(_, _, count). unat count)")
    (auto simp: word_less_nat_alt unat_sub_if_size)

definition pb_read_null ::
    "('i, 'o) pb_env \<Rightarrow> 'i pb_istream_t \<Rightarrow> size_t \<Rightarrow> (bool \<times> 'i pb_istream_t) option" where
  "pb_read_null env s count = (case istate s of
     Buf_read _ \<Rightarrow> do { (ok, _, s') \<leftarrow> pb_read env s count; Some (ok, s') }
   | User_read _ \<Rightarrow> pb_read_pieces env s count)"

definition pb_readbyte ::
    "('i, 'o) pb_env \<Rightarrow> 'i pb_istream_t \<Rightarrow> (byte option \<times> 'i pb_istream_t) option" where
  "pb_readbyte env s =
     (if bytes_left s = 0 then Some (None, PB_SET_ERROR s ''end-of-stream'')
      else do {
        (ok, got, st) \<leftarrow> call_read env (istate s) 1;
        let s' = s\<lparr>istate := st\<rparr>;
        if \<not> ok then Some (None, PB_SET_ERROR s' ''io error'')
        else Some (Some (hd got), s'\<lparr>bytes_left := bytes_left s' - 1\<rparr>)
      })"

definition pb_istream_from_buffer :: "byte list \<Rightarrow> size_t \<Rightarrow> 'i pb_istream_t" where
  "pb_istream_from_buffer buf bufsize =
     \<lparr>istate = Buf_read buf, bytes_left = bufsize, ierrmsg = None\<rparr>"

subsection \<open>Varints and tags\<close>

text \<open>The multibyte loop of \<open>pb_decode_varint32\<close>; \<open>bitpos\<close> never exceeds 35, so the
  \<open>uint_fast8_t\<close> does not wrap.\<close>

function (sequential) pb_decode_varint32_loop ::
    "('i, 'o) pb_env \<Rightarrow> 'i pb_istream_t \<Rightarrow> nat \<Rightarrow> 32 word \<Rightarrow>
     (32 word option \<times> 'i pb_istream_t) option" where
  "pb_decode_varint32_loop env s bitpos result =
     (if 32 \<le> bitpos then Some (None, PB_SET_ERROR s ''varint overflow'')
      else do {
        (r, s') \<leftarrow> pb_readbyte env s;
        case r of
          None \<Rightarrow> Some (None, s')
        | Some b \<Rightarrow>
            let result' = result OR push_bit bitpos (ucast (b AND 0x7F))
            in if b AND 0x80 \<noteq> 0 then pb_decode_varint32_loop env s' (bitpos + 7) result'
               else Some (Some result', s')
      })"
  by pat_completeness auto
termination
  by (relation "measure (\<lambda>(_, _, bitpos, _). 32 - bitpos)") auto

definition pb_decode_varint32 ::
    "('i, 'o) pb_env \<Rightarrow> 'i pb_istream_t \<Rightarrow> (32 word option \<times> 'i pb_istream_t) option" where
  "pb_decode_varint32 env s = do {
     (r, s') \<leftarrow> pb_readbyte env s;
     case r of
       None \<Rightarrow> Some (None, s')
     | Some b \<Rightarrow>
         if b AND 0x80 = 0 then Some (Some (ucast b), s')
         else pb_decode_varint32_loop env s' 7 (ucast (b AND 0x7F))
   }"

text \<open>\<open>bitpos\<close> never exceeds 70.\<close>

function (sequential) pb_decode_varint_loop ::
    "('i, 'o) pb_env \<Rightarrow> 'i pb_istream_t \<Rightarrow> nat \<Rightarrow> 64 word \<Rightarrow>
     (64 word option \<times> 'i pb_istream_t) option" where
  "pb_decode_varint_loop env s bitpos result =
     (if 64 \<le> bitpos then Some (None, PB_SET_ERROR s ''varint overflow'')
      else do {
        (r, s') \<leftarrow> pb_readbyte env s;
        case r of
          None \<Rightarrow> Some (None, s')
        | Some b \<Rightarrow>
            let result' = result OR push_bit bitpos (ucast (b AND 0x7F))
            in if b AND 0x80 \<noteq> 0 then pb_decode_varint_loop env s' (bitpos + 7) result'
               else Some (Some result', s')
      })"
  by pat_completeness auto
termination
  by (relation "measure (\<lambda>(_, _, bitpos, _). 64 - bitpos)") auto

definition pb_decode_varint ::
    "('i, 'o) pb_env \<Rightarrow> 'i pb_istream_t \<Rightarrow> (64 word option \<times> 'i pb_istream_t) option" where
  "pb_decode_varint env s = pb_decode_varint_loop env s 0 0"

lemma pb_read_ok:
  "pb_read env s count = Some (True, got, s') \<Longrightarrow>
     count \<le> bytes_left s \<and> bytes_left s' = bytes_left s - count"
  by (auto simp: pb_read_def bind_eq_Some_conv Let_def split: if_splits)

function (sequential) pb_skip_varint ::
    "('i, 'o) pb_env \<Rightarrow> 'i pb_istream_t \<Rightarrow> (bool \<times> 'i pb_istream_t) option" where
  "pb_skip_varint env s = do {
     (ok, got, s') \<leftarrow> pb_read env s 1;
     if \<not> ok then Some (False, s')
     else if hd got AND 0x80 \<noteq> 0 then pb_skip_varint env s' else Some (True, s')
   }"
  by pat_completeness auto
termination
proof (relation "measure (\<lambda>(_, s). unat (bytes_left s))", goal_cases)
  case (2 env s r ok q got s')
  then have "1 \<le> bytes_left s" "bytes_left s' = bytes_left s - 1"
    using pb_read_ok [of env s 1 got s'] by auto
  then show ?case
    by (simp add: word_le_nat_alt unat_sub_if_size)
qed simp

declare pb_read_pieces.simps [simp del] pb_decode_varint32_loop.simps [simp del]
  pb_decode_varint_loop.simps [simp del] pb_skip_varint.simps [simp del]

definition pb_skip_string ::
    "('i, 'o) pb_env \<Rightarrow> 'i pb_istream_t \<Rightarrow> (bool \<times> 'i pb_istream_t) option" where
  "pb_skip_string env s = do {
     (r, s') \<leftarrow> pb_decode_varint32 env s;
     case r of None \<Rightarrow> Some (False, s') | Some n \<Rightarrow> pb_read_null env s' (ucast n)
   }"

text \<open>The result of \<open>pb_decode_tag\<close> and its out-parameters.\<close>

record tag_result =
  tr_ok :: bool
  tr_wire_type :: pb_wire_type_t
  tr_tag :: "32 word"
  tr_eof :: bool

definition pb_decode_tag ::
    "('i, 'o) pb_env \<Rightarrow> 'i pb_istream_t \<Rightarrow> (tag_result \<times> 'i pb_istream_t) option" where
  "pb_decode_tag env s = do {
     (r, s') \<leftarrow> pb_decode_varint32 env s;
     Some (case r of
       None \<Rightarrow> (\<lparr>tr_ok = False, tr_wire_type = 0, tr_tag = 0, tr_eof = (bytes_left s' = 0)\<rparr>, s')
     | Some temp \<Rightarrow>
         (if temp = 0 then (\<lparr>tr_ok = False, tr_wire_type = 0, tr_tag = 0, tr_eof = True\<rparr>, s')
          else (\<lparr>tr_ok = True, tr_wire_type = temp AND 7, tr_tag = drop_bit 3 temp,
                 tr_eof = False\<rparr>, s')))
   }"

definition pb_skip_field ::
    "('i, 'o) pb_env \<Rightarrow> 'i pb_istream_t \<Rightarrow> pb_wire_type_t \<Rightarrow> (bool \<times> 'i pb_istream_t) option" where
  "pb_skip_field env s wire_type =
     (if wire_type = PB_WT_VARINT then pb_skip_varint env s
      else if wire_type = PB_WT_64BIT then pb_read_null env s 8
      else if wire_type = PB_WT_STRING then pb_skip_string env s
      else if wire_type = PB_WT_32BIT then pb_read_null env s 4
      else Some (False, PB_SET_ERROR s ''invalid wire_type''))"

text \<open>\<open>read_raw_value\<close>: the varint case as a loop over the number of bytes so far.\<close>

function (sequential) read_raw_varint ::
    "('i, 'o) pb_env \<Rightarrow> 'i pb_istream_t \<Rightarrow> nat \<Rightarrow> byte list \<Rightarrow>
     (bool \<times> byte list \<times> 'i pb_istream_t) option" where
  "read_raw_varint env s limit buf =
     (if limit < length buf + 1 then Some (False, buf, s)
      else do {
        (ok, got, s') \<leftarrow> pb_read env s 1;
        if \<not> ok then Some (False, buf, s')
        else if hd got AND 0x80 \<noteq> 0 then read_raw_varint env s' limit (buf @ [hd got])
        else Some (True, buf @ [hd got], s')
      })"
  by pat_completeness auto
termination
  by (relation "measure (\<lambda>(_, _, limit, buf). limit - length buf)") auto

declare read_raw_varint.simps [simp del]

definition read_raw_value ::
    "('i, 'o) pb_env \<Rightarrow> 'i pb_istream_t \<Rightarrow> pb_wire_type_t \<Rightarrow> nat \<Rightarrow>
     (bool \<times> byte list \<times> 'i pb_istream_t) option" where
  "read_raw_value env s wire_type limit =
     (if wire_type = PB_WT_VARINT then read_raw_varint env s limit []
      else if wire_type = PB_WT_64BIT then pb_read env s 8
      else if wire_type = PB_WT_32BIT then pb_read env s 4
      else Some (False, [], PB_SET_ERROR s ''invalid wire_type''))"

subsection \<open>Substreams\<close>

text \<open>The parent stream and, on success, the substream.\<close>

definition pb_make_string_substream ::
    "('i, 'o) pb_env \<Rightarrow> 'i pb_istream_t \<Rightarrow>
     ('i pb_istream_t option \<times> 'i pb_istream_t) option" where
  "pb_make_string_substream env s = do {
     (r, s') \<leftarrow> pb_decode_varint32 env s;
     Some (case r of
       None \<Rightarrow> (None, s')
     | Some n \<Rightarrow>
         (if bytes_left s' < ucast n then (None, PB_SET_ERROR s' ''parent stream too short'')
          else (Some (s'\<lparr>bytes_left := ucast n\<rparr>),
                s'\<lparr>bytes_left := bytes_left s' - ucast n\<rparr>)))
   }"

definition pb_close_string_substream ::
    "('i, 'o) pb_env \<Rightarrow> 'i pb_istream_t \<Rightarrow> 'i pb_istream_t \<Rightarrow> (bool \<times> 'i pb_istream_t) option" where
  "pb_close_string_substream env s sub = do {
     (ok, sub') \<leftarrow> (if bytes_left sub \<noteq> 0 then pb_read_null env sub (bytes_left sub)
                    else Some (True, sub));
     if \<not> ok then Some (False, s)
     else Some (True, s\<lparr>istate := istate sub', ierrmsg := ierrmsg sub'\<rparr>)
   }"

subsection \<open>Zig-zag and fixed-width values\<close>

definition pb_decode_svarint ::
    "('i, 'o) pb_env \<Rightarrow> 'i pb_istream_t \<Rightarrow> (64 word option \<times> 'i pb_istream_t) option" where
  "pb_decode_svarint env s = do {
     (r, s') \<leftarrow> pb_decode_varint env s;
     Some (case r of
       None \<Rightarrow> (None, s')
     | Some value \<Rightarrow>
         (Some (if value AND 1 \<noteq> 0 then NOT (drop_bit 1 value) else drop_bit 1 value), s'))
   }"

definition pb_decode_fixed32 ::
    "('i, 'o) pb_env \<Rightarrow> 'i pb_istream_t \<Rightarrow> (32 word option \<times> 'i pb_istream_t) option" where
  "pb_decode_fixed32 env s = do {
     (ok, bytes, s') \<leftarrow> pb_read env s 4;
     if \<not> ok then Some (None, s')
     else Some (Some (push_bit 0 (ucast (bytes ! 0)) OR push_bit 8 (ucast (bytes ! 1)) OR
                      push_bit 16 (ucast (bytes ! 2)) OR push_bit 24 (ucast (bytes ! 3))), s')
   }"

definition pb_decode_fixed64 ::
    "('i, 'o) pb_env \<Rightarrow> 'i pb_istream_t \<Rightarrow> (64 word option \<times> 'i pb_istream_t) option" where
  "pb_decode_fixed64 env s = do {
     (ok, bytes, s') \<leftarrow> pb_read env s 8;
     if \<not> ok then Some (None, s')
     else Some (Some (push_bit 0 (ucast (bytes ! 0)) OR push_bit 8 (ucast (bytes ! 1)) OR
                      push_bit 16 (ucast (bytes ! 2)) OR push_bit 24 (ucast (bytes ! 3)) OR
                      push_bit 32 (ucast (bytes ! 4)) OR push_bit 40 (ucast (bytes ! 5)) OR
                      push_bit 48 (ucast (bytes ! 6)) OR push_bit 56 (ucast (bytes ! 7))), s')
   }"

subsection \<open>Every primitive stays inside the buffer\<close>

text \<open>
  \<open>ivalid\<close>: a memory stream never promises more bytes than its buffer object has left.
  \<open>iadv s s'\<close>: the stream gave up bytes and, for a memory stream, lost no more bytes of the
  buffer than it gave up; a stream that fails inside a nested value may have given up more.
\<close>

definition ivalid :: "'i pb_istream_t \<Rightarrow> bool" where
  "ivalid s \<longleftrightarrow> (case istate s of
     Buf_read bs \<Rightarrow> unat (bytes_left s) \<le> length bs | User_read _ \<Rightarrow> True)"

definition istate_adv :: "'i istate \<Rightarrow> nat \<Rightarrow> 'i istate \<Rightarrow> nat \<Rightarrow> bool" where
  "istate_adv st l st' l' \<longleftrightarrow> (case (st, st') of
     (Buf_read bs, Buf_read bs') \<Rightarrow> length bs + l' \<le> length bs' + l
   | (User_read _, User_read _) \<Rightarrow> True
   | _ \<Rightarrow> False)"

definition iadv :: "'i pb_istream_t \<Rightarrow> 'i pb_istream_t \<Rightarrow> bool" where
  "iadv s s' \<longleftrightarrow> unat (bytes_left s') \<le> unat (bytes_left s) \<and>
     istate_adv (istate s) (unat (bytes_left s)) (istate s') (unat (bytes_left s'))"

text \<open>What the documentation of \<open>pb_istream_t\<close> asks of a user's read callback.\<close>

definition reads_ok :: "('i, 'o) pb_env \<Rightarrow> bool" where
  "reads_ok env \<longleftrightarrow> (\<forall>u n. case user_read env u n of
     (ok, got, u') \<Rightarrow> if ok then length got = n else length got \<le> n)"

lemma istate_adv_refl [simp]: "istate_adv st l st l"
  by (simp add: istate_adv_def split: istate.splits)

lemma istate_adv_trans:
  "istate_adv st l st' l' \<Longrightarrow> istate_adv st' l' st'' l'' \<Longrightarrow> istate_adv st l st'' l''"
  by (auto simp: istate_adv_def split: istate.splits)

lemma iadv_refl [simp]: "iadv s s"
  by (simp add: iadv_def)

lemma iadv_trans [trans]: "iadv s s' \<Longrightarrow> iadv s' s'' \<Longrightarrow> iadv s s''"
  by (auto simp: iadv_def intro: istate_adv_trans)

lemma iadv_valid: "iadv s s' \<Longrightarrow> ivalid s \<Longrightarrow> ivalid s'"
  by (auto simp: iadv_def ivalid_def istate_adv_def split: istate.splits)

lemma iadv_left: "iadv s s' \<Longrightarrow> unat (bytes_left s') \<le> unat (bytes_left s)"
  by (simp add: iadv_def)

lemma iadv_error [simp]:
  "iadv s (PB_SET_ERROR s' msg) \<longleftrightarrow> iadv s s'" "iadv (PB_SET_ERROR s msg) s' \<longleftrightarrow> iadv s s'"
  "ivalid (PB_SET_ERROR s msg) \<longleftrightarrow> ivalid s"
  by (simp_all add: iadv_def ivalid_def split: istate.splits)

lemma run_call_read:
  assumes "reads_ok env" and "\<And>bs. st = Buf_read bs \<Longrightarrow> unat count \<le> length bs"
  shows "run (call_read env st count) (\<lambda>(ok, got, st').
     length got \<le> unat count \<and> (ok \<longrightarrow> length got = unat count) \<and>
     (case (st, st') of (Buf_read bs, Buf_read bs') \<Rightarrow> ok \<and> length bs = length bs' + unat count
      | (User_read _, User_read _) \<Rightarrow> True | _ \<Rightarrow> False))"
proof (cases st)
  case (Buf_read bs)
  then show ?thesis using assms(2) by (simp add: call_read_def buf_read_def)
next
  case (User_read u)
  obtain ok got u' where "user_read env u (unat count) = (ok, got, u')"
    by (metis prod_cases3)
  moreover from this assms(1) have "if ok then length got = unat count else length got \<le> unat count"
    by (auto simp: reads_ok_def dest: spec2 [where x = u and y = "unat count"])
  ultimately show ?thesis using User_read by (auto simp: call_read_def split: if_splits)
qed

lemma run_pb_read:
  assumes "reads_ok env" and "ivalid s"
  shows "run (pb_read env s count) (\<lambda>(ok, got, s'). iadv s s' \<and> length got \<le> unat count \<and>
     (ok \<longrightarrow> length got = unat count \<and> unat (bytes_left s') + unat count = unat (bytes_left s)))"
proof (cases "bytes_left s < count")
  case True
  then show ?thesis by (simp add: pb_read_def)
next
  case False
  then have le: "unat count \<le> unat (bytes_left s)" by (simp add: word_le_nat_alt not_less)
  then have sub: "unat (bytes_left s - count) + unat count = unat (bytes_left s)"
    by (simp add: unat_sub_if_size)
  have "run (call_read env (istate s) count) (\<lambda>(ok, got, st').
     length got \<le> unat count \<and> (ok \<longrightarrow> length got = unat count) \<and>
     (case (istate s, st') of (Buf_read bs, Buf_read bs') \<Rightarrow> ok \<and> length bs = length bs' + unat count
      | (User_read _, User_read _) \<Rightarrow> True | _ \<Rightarrow> False))"
    using assms le by (intro run_call_read) (auto simp: ivalid_def)
  then show ?thesis
    using False le sub unfolding pb_read_def run_if run_bind
    by (auto elim!: run_mono3 simp: Let_def iadv_def istate_adv_def split: istate.splits)
qed

text \<open>The common postcondition: the stream advanced, and by at least one byte on success.\<close>

abbreviation progress :: "'i pb_istream_t \<Rightarrow> bool \<Rightarrow> 'i pb_istream_t \<Rightarrow> bool" where
  "progress s ok s' \<equiv> iadv s s' \<and> (ok \<longrightarrow> unat (bytes_left s') < unat (bytes_left s))"

lemma run_pb_readbyte:
  assumes "reads_ok env" and "ivalid s"
  shows "run (pb_readbyte env s) (\<lambda>(r, s'). progress s (r \<noteq> None) s')"
proof (cases "bytes_left s = 0")
  case True
  then show ?thesis by (simp add: pb_readbyte_def)
next
  case False
  then have le: "1 \<le> unat (bytes_left s)" by (simp add: Suc_leI unat_gt_0)
  then have sub: "unat (bytes_left s - 1) + 1 = unat (bytes_left s)"
    by (simp add: unat_sub_if_size)
  have "run (call_read env (istate s) 1) (\<lambda>(ok, got, st').
     length got \<le> unat (1::size_t) \<and> (ok \<longrightarrow> length got = unat (1::size_t)) \<and>
     (case (istate s, st') of (Buf_read bs, Buf_read bs') \<Rightarrow> ok \<and> length bs = length bs' + unat (1::size_t)
      | (User_read _, User_read _) \<Rightarrow> True | _ \<Rightarrow> False))"
    using assms le by (intro run_call_read) (auto simp: ivalid_def)
  then show ?thesis
    using False sub unfolding pb_readbyte_def run_if run_bind
    by (auto elim!: run_mono3 simp: Let_def iadv_def istate_adv_def split: istate.splits)
qed

lemma progress_trans:
  "progress s ok s' \<Longrightarrow> iadv s' s'' \<Longrightarrow> progress s ok s''"
  by (auto intro: iadv_trans dest: iadv_left)

lemma run_adv_trans:
  "run r (\<lambda>(x, s''). iadv s' s'') \<Longrightarrow> iadv s s' \<Longrightarrow> run r (\<lambda>(x, s''). iadv s s'')"
  by (erule run_mono2) (auto intro: iadv_trans)

lemma run_varint32_loop:
  assumes "reads_ok env" and "ivalid s"
  shows "run (pb_decode_varint32_loop env s bitpos result) (\<lambda>(r, s'). iadv s s')"
  using assms(2)
proof (induction "32 - bitpos" arbitrary: s bitpos result rule: less_induct)
  case less
  from run_pb_readbyte [OF assms(1) less.prems] obtain r s' where
    r: "pb_readbyte env s = Some (r, s')" and adv: "iadv s s'"
    by (auto elim: runE)
  have IH: "run (pb_decode_varint32_loop env s' (bitpos + 7) res) (\<lambda>(r, s'). iadv s s')"
    if "bitpos < 32" for res
    by (rule run_adv_trans [OF less.hyps adv]) (use that iadv_valid [OF adv less.prems] in auto)
  show ?case
    using IH r adv by (subst pb_decode_varint32_loop.simps)
      (auto simp: run_simps Let_def split: option.splits)
qed

lemma run_pb_decode_varint32:
  assumes "reads_ok env" and "ivalid s"
  shows "run (pb_decode_varint32 env s) (\<lambda>(r, s'). progress s (r \<noteq> None) s')"
proof -
  from run_pb_readbyte [OF assms] obtain r s' where
    r: "pb_readbyte env s = Some (r, s')" and adv: "progress s (r \<noteq> None) s'"
    by (auto elim: runE)
  then have v: "ivalid s'" using iadv_valid assms(2) by blast
  have "run (pb_decode_varint32_loop env s' 7 w) (\<lambda>(r', s'). progress s (r' \<noteq> None) s')"
    if "r \<noteq> None" for w
    by (rule run_mono2 [OF run_varint32_loop [OF assms(1) v]])
      (use adv that in \<open>auto intro: iadv_trans dest: iadv_left\<close>)
  with r adv show ?thesis
    by (auto simp: pb_decode_varint32_def run_simps split: option.splits)
qed

lemma run_varint_loop:
  assumes "reads_ok env" and "ivalid s"
  shows "run (pb_decode_varint_loop env s bitpos result)
     (\<lambda>(r, s'). progress s (r \<noteq> None) s')"
  using assms(2)
proof (induction "64 - bitpos" arbitrary: s bitpos result rule: less_induct)
  case less
  from run_pb_readbyte [OF assms(1) less.prems] obtain r s' where
    r: "pb_readbyte env s = Some (r, s')" and adv: "progress s (r \<noteq> None) s'"
    by (auto elim: runE)
  then have v: "ivalid s'" using iadv_valid less.prems by blast
  have IH: "run (pb_decode_varint_loop env s' (bitpos + 7) res)
      (\<lambda>(r', s'). progress s (r' \<noteq> None) s')" if "bitpos < 64" "r \<noteq> None" for res
    by (rule run_mono2 [OF less.hyps [OF _ v]])
      (use that adv in \<open>auto intro: iadv_trans dest: iadv_left\<close>)
  show ?case
    using IH r adv by (subst pb_decode_varint_loop.simps)
      (auto simp: run_simps Let_def split: option.splits)
qed

lemma run_pb_decode_varint:
  "reads_ok env \<Longrightarrow> ivalid s \<Longrightarrow>
     run (pb_decode_varint env s) (\<lambda>(r, s'). progress s (r \<noteq> None) s')"
  unfolding pb_decode_varint_def by (rule run_varint_loop)

lemma run_pb_decode_svarint:
  "reads_ok env \<Longrightarrow> ivalid s \<Longrightarrow>
     run (pb_decode_svarint env s) (\<lambda>(r, s'). progress s (r \<noteq> None) s')"
  unfolding pb_decode_svarint_def run_bind
  by (rule run_mono2 [OF run_pb_decode_varint]) (auto split: option.splits)

lemma run_pb_decode_fixed32:
  "reads_ok env \<Longrightarrow> ivalid s \<Longrightarrow>
     run (pb_decode_fixed32 env s) (\<lambda>(r, s'). progress s (r \<noteq> None) s')"
  unfolding pb_decode_fixed32_def run_bind
  by (rule run_mono3 [OF run_pb_read]) (auto simp: run_simps)

lemma run_pb_decode_fixed64:
  "reads_ok env \<Longrightarrow> ivalid s \<Longrightarrow>
     run (pb_decode_fixed64 env s) (\<lambda>(r, s'). progress s (r \<noteq> None) s')"
  unfolding pb_decode_fixed64_def run_bind
  by (rule run_mono3 [OF run_pb_read]) (auto simp: run_simps)

lemma run_pb_read_pieces:
  assumes "reads_ok env" and "ivalid s"
  shows "run (pb_read_pieces env s count) (\<lambda>(ok, s'). iadv s s' \<and>
     (ok \<longrightarrow> unat (bytes_left s') + unat count = unat (bytes_left s)))"
  using assms(2)
proof (induction "unat count" arbitrary: s count rule: less_induct)
  case less
  show ?case
  proof (cases "16 < count")
    case True
    then have c: "unat (count - 16) + 16 = unat count"
      by (simp add: word_less_nat_alt unat_sub_if_size)
    obtain ok got s' where r: "pb_read env s 16 = Some (ok, got, s')" and adv: "iadv s s'"
      and ok: "ok \<Longrightarrow> unat (bytes_left s') + 16 = unat (bytes_left s)"
      using run_pb_read [OF assms(1) less.prems, of 16] by (auto elim!: runE)
    have "run (pb_read_pieces env s' (count - 16)) (\<lambda>(ok', s''). iadv s s'' \<and>
       (ok' \<longrightarrow> unat (bytes_left s'') + unat count = unat (bytes_left s)))" if ok
      by (rule run_mono2 [OF less.hyps])
        (use c ok that iadv_valid [OF adv less.prems] in \<open>auto intro: iadv_trans [OF adv]\<close>)
    with True r adv show ?thesis
      by (subst pb_read_pieces.simps) (auto simp: run_simps)
  next
    case False
    then show ?thesis
      using run_pb_read [OF assms(1) less.prems, of count]
      by (subst pb_read_pieces.simps) (auto simp: run_simps elim!: run_mono3)
  qed
qed

lemma run_pb_read_null:
  assumes "reads_ok env" and "ivalid s"
  shows "run (pb_read_null env s count) (\<lambda>(ok, s'). iadv s s' \<and>
     (ok \<longrightarrow> unat (bytes_left s') + unat count = unat (bytes_left s)))"
  using run_pb_read_pieces [OF assms, of count] run_pb_read [OF assms, of count]
  by (auto simp: pb_read_null_def run_simps split: istate.splits elim!: run_mono3)

lemma run_pb_skip_varint:
  assumes "reads_ok env" and "ivalid s"
  shows "run (pb_skip_varint env s) (\<lambda>(ok, s'). iadv s s')"
  using assms(2)
proof (induction "unat (bytes_left s)" arbitrary: s rule: less_induct)
  case less
  obtain ok got s' where r: "pb_read env s 1 = Some (ok, got, s')" and adv: "iadv s s'"
    and ok: "ok \<Longrightarrow> unat (bytes_left s') < unat (bytes_left s)"
    using run_pb_read [OF assms(1) less.prems, of 1] by (auto elim!: runE)
  have "run (pb_skip_varint env s') (\<lambda>(ok, s''). iadv s s'')" if ok
    by (rule run_adv_trans [OF less.hyps adv]) (use ok that iadv_valid [OF adv less.prems] in auto)
  with r adv show ?case
    by (subst pb_skip_varint.simps) (auto simp: run_simps)
qed

lemma run_pb_skip_string:
  assumes "reads_ok env" and "ivalid s"
  shows "run (pb_skip_string env s) (\<lambda>(ok, s'). iadv s s')"
proof -
  obtain r s' where r: "pb_decode_varint32 env s = Some (r, s')" and adv: "iadv s s'"
    using run_pb_decode_varint32 [OF assms] by (auto elim!: runE)
  have "run (pb_read_null env s' n) (\<lambda>(ok, s''). iadv s s'')" for n
    by (rule run_mono2 [OF run_pb_read_null [OF assms(1) iadv_valid [OF adv assms(2)]]])
      (auto intro: iadv_trans [OF adv])
  with r adv show ?thesis
    by (auto simp: pb_skip_string_def split: option.splits)
qed

lemma run_pb_skip_field:
  assumes "reads_ok env" and "ivalid s"
  shows "run (pb_skip_field env s wt) (\<lambda>(ok, s'). iadv s s')"
  using run_pb_skip_varint [OF assms] run_pb_skip_string [OF assms]
    run_pb_read_null [OF assms, of 8] run_pb_read_null [OF assms, of 4]
  by (auto simp: pb_skip_field_def elim!: run_mono2)

lemma run_pb_decode_tag:
  assumes "reads_ok env" and "ivalid s"
  shows "run (pb_decode_tag env s) (\<lambda>(t, s'). progress s (tr_ok t) s')"
  unfolding pb_decode_tag_def run_bind
  by (rule run_mono2 [OF run_pb_decode_varint32 [OF assms]]) (auto split: option.splits)

lemma run_read_raw_varint:
  assumes "reads_ok env" and "ivalid s"
  shows "run (read_raw_varint env s limit buf)
     (\<lambda>(ok, buf', s'). iadv s s' \<and> (ok \<longrightarrow> length buf' \<le> limit))"
  using assms(2)
proof (induction "limit - length buf" arbitrary: s buf rule: less_induct)
  case less
  obtain ok got s' where r: "pb_read env s 1 = Some (ok, got, s')" and adv: "iadv s s'"
    using run_pb_read [OF assms(1) less.prems, of 1] by (auto elim!: runE)
  have "run (read_raw_varint env s' limit (buf @ [b]))
     (\<lambda>(ok, buf', s''). iadv s s'' \<and> (ok \<longrightarrow> length buf' \<le> limit))" if "length buf < limit" for b
    by (rule run_mono3 [OF less.hyps])
      (use that iadv_valid [OF adv less.prems] in \<open>auto intro: iadv_trans [OF adv]\<close>)
  with r adv show ?case
    by (subst read_raw_varint.simps) (auto simp: run_simps)
qed

lemma run_read_raw_value:
  assumes "reads_ok env" and "ivalid s" and "8 \<le> limit"
  shows "run (read_raw_value env s wt limit)
     (\<lambda>(ok, buf', s'). iadv s s' \<and> (ok \<longrightarrow> length buf' \<le> limit))"
  using run_read_raw_varint [OF assms(1,2), of limit "[]"] assms(3)
    run_pb_read [OF assms(1,2), of 8] run_pb_read [OF assms(1,2), of 4]
  by (auto simp: read_raw_value_def elim!: run_mono3)

text \<open>A substream and its parent share the buffer; closing the substream hands the position back.\<close>

definition sub_of :: "'i pb_istream_t \<Rightarrow> 'i pb_istream_t \<Rightarrow> 'i pb_istream_t \<Rightarrow> bool" where
  "sub_of s sub s' \<longleftrightarrow> istate sub = istate s' \<and>
     unat (bytes_left s') + unat (bytes_left sub) < unat (bytes_left s) \<and>
     istate_adv (istate s) (unat (bytes_left s))
       (istate s') (unat (bytes_left s') + unat (bytes_left sub))"

lemma run_pb_make_string_substream:
  assumes "reads_ok env" and "ivalid s"
  shows "run (pb_make_string_substream env s) (\<lambda>(r, s'). iadv s s' \<and>
     (case r of None \<Rightarrow> True | Some sub \<Rightarrow> ivalid sub \<and> sub_of s sub s'))"
proof -
  obtain r s' where r: "pb_decode_varint32 env s = Some (r, s')" and adv: "iadv s s'"
    and less: "r \<noteq> None \<Longrightarrow> unat (bytes_left s') < unat (bytes_left s)"
    using run_pb_decode_varint32 [OF assms] by (auto elim!: runE)
  have v: "ivalid s'" using iadv_valid [OF adv assms(2)] .
  have "unat (bytes_left s' - ucast n) + unat (ucast n :: size_t) = unat (bytes_left s')"
    if "\<not> bytes_left s' < ucast n" for n :: "32 word"
    using that by (simp add: word_less_nat_alt unat_sub_if_size)
  with r less adv v show ?thesis
    by (fastforce simp: pb_make_string_substream_def iadv_def sub_of_def ivalid_def istate_adv_def
        word_less_nat_alt split: option.splits istate.splits)
qed

lemma run_pb_close_string_substream:
  assumes "reads_ok env" and "sub_of s sub s'" and "iadv sub sub'" and "ivalid sub"
  shows "run (pb_close_string_substream env s' sub')
     (\<lambda>(ok, s''). iadv s s'' \<and> unat (bytes_left s'') < unat (bytes_left s))"
proof -
  let ?close = "if bytes_left sub' \<noteq> 0 then pb_read_null env sub' (bytes_left sub') else Some (True, sub')"
  have "run ?close (\<lambda>(ok, t). iadv sub' t)"
    using run_pb_read_null [OF assms(1) iadv_valid [OF assms(3,4)], of "bytes_left sub'"]
    by (auto elim!: run_mono2)
  then obtain ok t where t: "?close = Some (ok, t)" and "iadv sub' t"
    by (auto elim!: runE)
  then have "iadv sub t" using assms(3) iadv_trans by blast
  with assms(2) t show ?thesis
    by (auto simp: pb_close_string_substream_def sub_of_def iadv_def istate_adv_def
        split: istate.splits)
qed

end
