(* ===== verification/Pb_Iter.thy ===== *)
theory Pb_Iter
  imports Pb_Types
begin

text \<open>
  The field iterator of \<open>pb_common.c\<close>. An iterator walks a descriptor array and keeps, for the
  field it stands at, the addresses of the field's data and of its count or presence flag, and
  the number of required fields before it. The lemmas relate every reachable iterator to a closed
  form of these offsets and show that a walk visits each field once and that a search is complete.
\<close>

record pb_field_iter_t =
  it_start :: "pb_field_t list"
  it_pos :: nat
  it_required_field_index :: "32 word"
  it_dest_struct :: addr
  it_pData :: addr
  it_pSize :: addr

text \<open>\<open>iter->pos\<close> dereferenced; past the end of the array this is undefined.\<close>

definition iter_field :: "pb_field_iter_t \<Rightarrow> pb_field_t option" where
  "iter_field it =
     (if it_pos it < length (it_start it) then Some (it_start it ! it_pos it) else None)"

definition pb_field_iter_begin ::
    "pb_field_t list \<Rightarrow> addr \<Rightarrow> (bool \<times> pb_field_iter_t) option" where
  "pb_field_iter_begin fs dest_struct = (case fs of
     [] \<Rightarrow> None
   | f # _ \<Rightarrow>
       let pData = dest_struct + uint (pf_data_offset f);
           pSize = pData + sint (pf_size_offset f)
       in Some (pf_tag f \<noteq> 0,
            \<lparr>it_start = fs, it_pos = 0, it_required_field_index = 0,
             it_dest_struct = dest_struct, it_pData = pData, it_pSize = pSize\<rparr>))"

text \<open>The size the previous field occupies in the struct, as \<open>pb_field_iter_next\<close> computes it.\<close>

definition prev_field_size :: "pb_field_t \<Rightarrow> size_t" where
  "prev_field_size f =
     (if PB_ATYPE (pf_type f) = PB_ATYPE_STATIC \<and> PB_HTYPE (pf_type f) = PB_HTYPE_REPEATED
      then ucast (pf_data_size f) * ucast (pf_array_size f)
      else if PB_ATYPE (pf_type f) = PB_ATYPE_POINTER then 8
      else ucast (pf_data_size f))"

definition same_union :: "pb_field_t \<Rightarrow> pb_field_t \<Rightarrow> bool" where
  "same_union prev f \<longleftrightarrow> PB_HTYPE (pf_type prev) = PB_HTYPE_ONEOF \<and>
     PB_HTYPE (pf_type f) = PB_HTYPE_ONEOF \<and> pf_data_offset f = PB_SIZE_MAX"

definition pb_field_iter_next :: "pb_field_iter_t \<Rightarrow> (bool \<times> pb_field_iter_t) option" where
  "pb_field_iter_next it = do {
     prev \<leftarrow> iter_field it;
     if pf_tag prev = 0 then Some (False, it)
     else do {
       let it' = it\<lparr>it_pos := it_pos it + 1\<rparr>;
       f \<leftarrow> iter_field it';
       if pf_tag f = 0 then do {
         (_, it'') \<leftarrow> pb_field_iter_begin (it_start it) (it_dest_struct it);
         Some (False, it'')
       }
       else if same_union prev f then Some (True, it')
       else
         let req = (if PB_HTYPE (pf_type prev) = PB_HTYPE_REQUIRED
                    then it_required_field_index it + 1 else it_required_field_index it);
             pData = it_pData it + uint (prev_field_size prev) + uint (pf_data_offset f);
             pSize = pData + sint (pf_size_offset f)
         in Some (True, it'\<lparr>it_required_field_index := req, it_pData := pData, it_pSize := pSize\<rparr>)
     }
   }"

text \<open>
  The search loop of \<open>pb_field_iter_find\<close> and \<open>find_extension_field\<close>: step until the field
  satisfies a test or the iterator is back where it started.
\<close>

partial_function (option) iter_scan ::
    "(pb_field_t \<Rightarrow> bool) \<Rightarrow> nat \<Rightarrow> pb_field_iter_t \<Rightarrow> (bool \<times> pb_field_iter_t) option" where
  "iter_scan p start it = do {
     f \<leftarrow> iter_field it;
     if p f then Some (True, it)
     else do {
       (_, it') \<leftarrow> pb_field_iter_next it;
       if it_pos it' \<noteq> start then iter_scan p start it' else Some (False, it')
     }
   }"

definition tag_matches :: "32 word \<Rightarrow> pb_field_t \<Rightarrow> bool" where
  "tag_matches tag f \<longleftrightarrow> pf_tag f = tag \<and> PB_LTYPE (pf_type f) \<noteq> PB_LTYPE_EXTENSION"

definition pb_field_iter_find ::
    "pb_field_iter_t \<Rightarrow> 32 word \<Rightarrow> (bool \<times> pb_field_iter_t) option" where
  "pb_field_iter_find it tag = iter_scan (tag_matches tag) (it_pos it) it"

text \<open>
  The loop \<open>do body while (pb_field_iter_next(&iter))\<close> of the encoder, the initialiser and the
  proto3 check: it stops with false as soon as the body does.
\<close>

partial_function (option) iter_each ::
    "(pb_field_iter_t \<Rightarrow> 's \<Rightarrow> (bool \<times> 's) option) \<Rightarrow> pb_field_iter_t \<Rightarrow> 's \<Rightarrow> (bool \<times> 's) option"
  where
  "iter_each body it st = do {
     (ok, st') \<leftarrow> body it st;
     if \<not> ok then Some (False, st')
     else do {
       (more, it') \<leftarrow> pb_field_iter_next it;
       if more then iter_each body it' st' else Some (True, st')
     }
   }"

subsection \<open>The closed form of an iterator\<close>

text \<open>A descriptor array: field descriptors with non-zero tags, then the terminator.\<close>

definition wf_array :: "pb_field_t list \<Rightarrow> bool" where
  "wf_array fs \<longleftrightarrow> fs \<noteq> [] \<and> pf_tag (last fs) = 0 \<and> list_all (\<lambda>f. pf_tag f \<noteq> 0) (butlast fs)"

abbreviation nfields :: "pb_field_t list \<Rightarrow> nat" where
  "nfields fs \<equiv> length fs - 1"

fun data_off :: "pb_field_t list \<Rightarrow> nat \<Rightarrow> int" where
  "data_off fs 0 = uint (pf_data_offset (fs ! 0))"
| "data_off fs (Suc i) =
     (if same_union (fs ! i) (fs ! Suc i) then data_off fs i
      else data_off fs i + uint (prev_field_size (fs ! i)) + uint (pf_data_offset (fs ! Suc i)))"

fun size_off :: "pb_field_t list \<Rightarrow> nat \<Rightarrow> int" where
  "size_off fs 0 = data_off fs 0 + sint (pf_size_offset (fs ! 0))"
| "size_off fs (Suc i) =
     (if same_union (fs ! i) (fs ! Suc i) then size_off fs i
      else data_off fs (Suc i) + sint (pf_size_offset (fs ! Suc i)))"

definition is_required :: "pb_field_t \<Rightarrow> bool" where
  "is_required f \<longleftrightarrow> PB_HTYPE (pf_type f) = PB_HTYPE_REQUIRED"

definition req_index :: "pb_field_t list \<Rightarrow> nat \<Rightarrow> nat" where
  "req_index fs i = length (filter is_required (take i fs))"

definition iter_of :: "pb_field_t list \<Rightarrow> addr \<Rightarrow> nat \<Rightarrow> pb_field_iter_t" where
  "iter_of fs dest i =
     \<lparr>it_start = fs, it_pos = i, it_required_field_index = of_nat (req_index fs i),
      it_dest_struct = dest, it_pData = dest + data_off fs i, it_pSize = dest + size_off fs i\<rparr>"

lemma iter_of_sel [simp]:
  "it_start (iter_of fs dest i) = fs" "it_pos (iter_of fs dest i) = i"
  "it_required_field_index (iter_of fs dest i) = of_nat (req_index fs i)"
  "it_dest_struct (iter_of fs dest i) = dest"
  "it_pData (iter_of fs dest i) = dest + data_off fs i"
  "it_pSize (iter_of fs dest i) = dest + size_off fs i"
  by (simp_all add: iter_of_def)

lemma iter_field_of [simp]:
  "i < length fs \<Longrightarrow> iter_field (iter_of fs dest i) = Some (fs ! i)"
  by (simp add: iter_field_def)

lemma wf_array_nonempty: "wf_array fs \<Longrightarrow> 0 < length fs"
  by (simp add: wf_array_def)

lemma wf_array_tag:
  assumes "wf_array fs" and "i < length fs"
  shows "pf_tag (fs ! i) = 0 \<longleftrightarrow> i = nfields fs"
proof (cases "i = nfields fs")
  case True
  moreover have "pf_tag (last fs) = 0" using assms(1) by (simp add: wf_array_def)
  moreover have "last fs = fs ! nfields fs"
    using assms(1) by (simp add: wf_array_def last_conv_nth)
  ultimately show ?thesis by simp
next
  case False
  with assms have "i < length (butlast fs)" by simp
  with assms have "pf_tag (butlast fs ! i) \<noteq> 0"
    by (simp add: wf_array_def list_all_length)
  with False \<open>i < length (butlast fs)\<close> show ?thesis by (simp add: nth_butlast)
qed

lemma iter_begin_of:
  "wf_array fs \<Longrightarrow>
     pb_field_iter_begin fs dest = Some (0 < nfields fs, iter_of fs dest 0)"
  using wf_array_tag [of fs 0]
  by (auto simp: pb_field_iter_begin_def iter_of_def req_index_def Let_def wf_array_def
      split: list.splits)

lemma req_index_Suc:
  "i < length fs \<Longrightarrow> req_index fs (Suc i) = (if is_required (fs ! i) then Suc (req_index fs i) else req_index fs i)"
  by (simp add: req_index_def take_Suc_conv_app_nth)

lemma same_union_not_required: "same_union f g \<Longrightarrow> \<not> is_required f"
  by (simp add: same_union_def is_required_def htype_defs)

lemma iter_next_of:
  assumes "wf_array fs" and "i < nfields fs"
  shows "pb_field_iter_next (iter_of fs dest i) =
    Some (Suc i < nfields fs, iter_of fs dest (if Suc i < nfields fs then Suc i else 0))"
proof -
  have i: "i < length fs" "Suc i < length fs" using assms(2) by auto
  have t: "pf_tag (fs ! i) \<noteq> 0" using wf_array_tag [OF assms(1) i(1)] assms(2) by simp
  have f: "iter_field (iter_of fs dest i\<lparr>it_pos := Suc i\<rparr>) = Some (fs ! Suc i)"
    using i(2) by (simp add: iter_field_def)
  show ?thesis
  proof (cases "Suc i < nfields fs")
    case True
    then have "pf_tag (fs ! Suc i) \<noteq> 0" using wf_array_tag [OF assms(1) i(2)] by simp
    with True t i show ?thesis
      by (simp add: pb_field_iter_next_def iter_field_def Let_def iter_of_def req_index_Suc
          same_union_not_required algebra_simps flip: is_required_def)
  next
    case False
    with assms(2) have "Suc i = nfields fs" by simp
    then have "pf_tag (fs ! Suc i) = 0" using wf_array_tag [OF assms(1) i(2)] by simp
    with False t f i show ?thesis
      by (simp add: pb_field_iter_next_def Let_def iter_begin_of [OF assms(1)])
  qed
qed

lemma iter_next_terminator:
  assumes "wf_array fs" and "nfields fs = 0"
  shows "pb_field_iter_next (iter_of fs dest 0) = Some (False, iter_of fs dest 0)"
  using assms wf_array_tag [of fs 0] wf_array_nonempty [of fs]
  by (simp add: pb_field_iter_next_def)

subsection \<open>Completeness of a search\<close>

lemma Suc_mod_cyclic:
  "0 < n \<Longrightarrow> Suc x mod n = (if Suc (x mod n) < n then Suc (x mod n) else 0)"
  using mod_less_divisor [of n x] by (auto simp: mod_Suc simp del: mod_less_divisor)

lemma mod_cyclic_back:
  "s < n \<Longrightarrow> 1 \<le> k \<Longrightarrow> k \<le> n \<Longrightarrow>
     (s + n - k) mod n = (if k \<le> s then s - k else s + n - (k::nat))"
  by (auto simp: mod_if)

lemma iter_scan_step:
  assumes "wf_array fs" and "i < nfields fs"
  shows "iter_scan p s (iter_of fs dest i) =
    (if p (fs ! i) then Some (True, iter_of fs dest i)
     else if (if Suc i < nfields fs then Suc i else 0) \<noteq> s
     then iter_scan p s (iter_of fs dest (if Suc i < nfields fs then Suc i else 0))
     else Some (False, iter_of fs dest (if Suc i < nfields fs then Suc i else 0)))"
proof -
  have "i < length fs" using assms(2) by simp
  then show ?thesis
    by (subst iter_scan.simps) (simp add: iter_next_of [OF assms])
qed

text \<open>\<open>k\<close> steps before the scan is back at \<open>s\<close>; the fields of these steps have been or will be
  tested.\<close>

lemma iter_scan_from:
  assumes "wf_array fs" and "s < nfields fs" and "1 \<le> k" and "k \<le> nfields fs"
  defines "at \<equiv> \<lambda>j. (s + nfields fs - j) mod nfields fs"
  shows "\<exists>b j. iter_scan p s (iter_of fs dest (at k)) = Some (b, iter_of fs dest j) \<and>
     j < nfields fs \<and> (if b then p (fs ! j)
     else j = s \<and> (\<forall>i. 1 \<le> i \<and> i \<le> k \<longrightarrow> \<not> p (fs ! at i)))"
  using assms(3,4)
proof (induction k)
  case 0
  then show ?case by simp
next
  case (Suc k)
  let ?n = "nfields fs"
  have "0 < ?n" using assms(2) by simp
  then have n: "at (Suc k) < ?n" by (simp add: at_def)
  then have l: "at (Suc k) < length fs" by simp
  have at_next: "(if Suc (at (Suc k)) < ?n then Suc (at (Suc k)) else 0) = at k"
  proof -
    have "s + ?n - k = Suc (s + ?n - Suc k)" using Suc.prems by linarith
    then have "at k = (Suc (s + ?n - Suc k)) mod ?n" unfolding at_def by metis
    also have "\<dots> = (if Suc (at (Suc k)) < ?n then Suc (at (Suc k)) else 0)"
      using \<open>0 < ?n\<close> unfolding at_def by (rule Suc_mod_cyclic)
    finally show ?thesis by simp
  qed
  note step = iter_scan_step [OF assms(1) n, of p s dest, unfolded at_next]
  show ?case
  proof (cases "p (fs ! at (Suc k))")
    case True
    with step n show ?thesis by auto
  next
    case False
    note np = False
    show ?thesis
    proof (cases "k = 0")
      case True
      have at0: "at 0 = s" unfolding at_def using assms(2) by (metis diff_zero mod_add_self2 mod_less)
      have "\<not> p (fs ! at i)" if "1 \<le> i \<and> i \<le> Suc k" for i
        using np that True by (metis One_nat_def le_antisym)
      with step np at0 True assms(2) show ?thesis by auto
    next
      case k: False
      have "at k = (if k \<le> s then s - k else s + ?n - k)"
        unfolding at_def by (rule mod_cyclic_back) (use assms(2) Suc.prems k in linarith)+
      then have "at k \<noteq> s" using k Suc.prems by (auto split: if_splits)
      with step np have eq: "iter_scan p s (iter_of fs dest (at (Suc k))) =
          iter_scan p s (iter_of fs dest (at k))" by simp
      have "1 \<le> k" "k \<le> ?n" using k Suc.prems by auto
      from Suc.IH [OF this] obtain b j where
        "iter_scan p s (iter_of fs dest (at k)) = Some (b, iter_of fs dest j)" "j < ?n"
        "if b then p (fs ! j) else j = s \<and> (\<forall>i. 1 \<le> i \<and> i \<le> k \<longrightarrow> \<not> p (fs ! at i))"
        by blast
      with eq np show ?thesis by (cases b) (auto simp: le_Suc_eq)
    qed
  qed
qed

text \<open>A scan started anywhere finds a field with the property if the message type has one, and
  otherwise returns to where it started.\<close>

lemma iter_scan_complete:
  assumes "wf_array fs" and "s < nfields fs"
  shows "\<exists>b j. iter_scan p s (iter_of fs dest s) = Some (b, iter_of fs dest j) \<and> j < nfields fs \<and>
     (if b then p (fs ! j) else j = s \<and> (\<forall>i < nfields fs. \<not> p (fs ! i)))"
proof -
  let ?n = "nfields fs"
  have at_n: "(s + ?n - ?n) mod ?n = s" using assms(2) by simp
  have cover: "\<exists>i. 1 \<le> i \<and> i \<le> ?n \<and> (s + ?n - i) mod ?n = j" if "j < ?n" for j
  proof (cases "j < s")
    case True
    then have "s + ?n - (s - j) = j + ?n" by linarith
    then have "(s + ?n - (s - j)) mod ?n = j" using that by (metis mod_add_self2 mod_less)
    moreover have "1 \<le> s - j" "s - j \<le> ?n" using True assms(2) by auto
    ultimately show ?thesis by blast
  next
    case False
    then have "(s + ?n - (s + ?n - j)) mod ?n = j" using that by simp
    moreover have "1 \<le> s + ?n - j" "s + ?n - j \<le> ?n" using that False by auto
    ultimately show ?thesis by blast
  qed
  from iter_scan_from [OF assms, of ?n p dest] assms(2) obtain b j where
    "iter_scan p s (iter_of fs dest s) = Some (b, iter_of fs dest j)" "j < ?n"
    "if b then p (fs ! j) else j = s \<and> (\<forall>i. 1 \<le> i \<and> i \<le> ?n \<longrightarrow> \<not> p (fs ! ((s + ?n - i) mod ?n)))"
    unfolding at_n by (auto simp: Suc_leI)
  then show ?thesis
    using cover by (metis (full_types))
qed

lemma iter_scan_empty:
  assumes "wf_array fs" and "nfields fs = 0"
  shows "iter_scan p 0 (iter_of fs dest 0) = Some (p (fs ! 0), iter_of fs dest 0)"
  using assms wf_array_nonempty [of fs]
  by (subst iter_scan.simps) (simp add: iter_next_terminator)

lemma iter_each_step:
  assumes "wf_array fs" and "i < nfields fs"
  shows "iter_each body (iter_of fs dest i) st = do {
     (ok, st') \<leftarrow> body (iter_of fs dest i) st;
     if \<not> ok then Some (False, st')
     else if Suc i < nfields fs then iter_each body (iter_of fs dest (Suc i)) st'
     else Some (True, st')
   }"
  by (subst iter_each.simps) (auto simp: iter_next_of [OF assms] intro!: Option.bind_cong)

text \<open>The loop over all fields, as a recursion over their indices.\<close>

fun each_from ::
    "(pb_field_iter_t \<Rightarrow> 's \<Rightarrow> (bool \<times> 's) option) \<Rightarrow> pb_field_t list \<Rightarrow> addr \<Rightarrow> nat list \<Rightarrow> 's \<Rightarrow>
     (bool \<times> 's) option" where
  "each_from body fs dest [] st = Some (True, st)"
| "each_from body fs dest (i # is) st = do {
     (ok, st') \<leftarrow> body (iter_of fs dest i) st;
     if \<not> ok then Some (False, st') else each_from body fs dest is st'
   }"

lemma iter_each_indices:
  assumes "wf_array fs" and "i < nfields fs"
  shows "iter_each body (iter_of fs dest i) st = each_from body fs dest [i..<nfields fs] st"
  using assms(2)
proof (induction "nfields fs - i" arbitrary: i st)
  case 0
  then show ?case by simp
next
  case (Suc k)
  have "[i..<nfields fs] = i # [Suc i..<nfields fs]" using Suc.prems by (simp add: upt_rec)
  moreover have "iter_each body (iter_of fs dest (Suc i)) st' =
      each_from body fs dest [Suc i..<nfields fs] st'" if "Suc i < nfields fs" for st'
    using Suc.hyps that by simp
  ultimately show ?case
    using iter_each_step [OF assms(1) Suc.prems, of body dest st] Suc.prems
    by (auto intro!: Option.bind_cong)
qed

text \<open>An invariant kept by the body at every field is kept by the loop, which returns.\<close>

lemma each_from_run:
  assumes "\<And>i st. i \<in> set is \<Longrightarrow> I st \<Longrightarrow> run (body (iter_of fs dest i) st) (\<lambda>(ok, st'). I st')"
    and "I st"
  shows "run (each_from body fs dest is st) (\<lambda>(ok, st'). I st')"
  using assms
proof (induction "is" arbitrary: st)
  case (Cons i "is")
  have "run (body (iter_of fs dest i) st) (\<lambda>(ok, st'). I st')"
    using Cons.prems by simp
  then show ?case
    unfolding each_from.simps run_bind
    by (rule run_mono2) (auto simp: run_simps intro!: Cons.IH Cons.prems(1))
qed simp

end
