(* ===== verification/Pb_Decode.thy ===== *)
theory Pb_Decode
  imports Pb_Istream Pb_Iter
begin

text \<open>
  The message decoder of \<open>pb_decode.c\<close>: the field decoders, the handling of static, pointer,
  callback and extension fields, the initialisation of a message to its defaults and the loop
  over the fields of the wire. Decoders return the C return value, the stream and the memory.

  The C functions call each other recursively, once for each level of nested messages. The
  recursion is cut by a number of levels: at level 0 the outcome is \<open>None\<close>, as for a C stack
  that is exhausted. The routines in between take the two recursive calls, decoding without
  initialisation (\<open>ni\<close>) and setting to defaults (\<open>sd\<close>), as arguments.
\<close>

type_synonym ('i, 'o) decoder =
  "('i, 'o) pb_env \<Rightarrow> 'i pb_istream_t \<Rightarrow> pb_field_t \<Rightarrow> addr \<Rightarrow> mem \<Rightarrow>
   (bool \<times> 'i pb_istream_t \<times> mem) option"

type_synonym 'i noinit =
  "'i pb_istream_t \<Rightarrow> pb_field_t list \<Rightarrow> addr \<Rightarrow> mem \<Rightarrow> (bool \<times> 'i pb_istream_t \<times> mem) option"

type_synonym set_defaults = "pb_field_t list \<Rightarrow> addr \<Rightarrow> mem \<Rightarrow> mem option"

subsection \<open>Field decoders\<close>

text \<open>
  The stores of \<open>pb_dec_varint\<close> and \<open>pb_dec_svarint\<close> at the width of the field. The result is
  the value read back at 64 bits (\<open>clamped\<close>), or \<open>None\<close> for an invalid width.
\<close>

definition store_signed ::
    "mem \<Rightarrow> addr \<Rightarrow> pb_size_t \<Rightarrow> 64 word \<Rightarrow> (64 word option \<times> mem) option" where
  "store_signed m dest data_size svalue =
     (if data_size = 8 then do { m' \<leftarrow> store64 m dest svalue; Some (Some svalue, m') }
      else if data_size = 4 then do {
        m' \<leftarrow> store32 m dest (ucast svalue); Some (Some (scast (ucast svalue :: 32 word)), m') }
      else if data_size = 2 then do {
        m' \<leftarrow> store16 m dest (ucast svalue); Some (Some (scast (ucast svalue :: 16 word)), m') }
      else if data_size = 1 then do {
        m' \<leftarrow> store8 m dest (ucast svalue); Some (Some (scast (ucast svalue :: 8 word)), m') }
      else Some (None, m))"

definition store_unsigned ::
    "mem \<Rightarrow> addr \<Rightarrow> pb_size_t \<Rightarrow> 64 word \<Rightarrow> (64 word option \<times> mem) option" where
  "store_unsigned m dest data_size value =
     (if data_size = 8 then do { m' \<leftarrow> store64 m dest value; Some (Some value, m') }
      else if data_size = 4 then do {
        m' \<leftarrow> store32 m dest (ucast value); Some (Some (ucast (ucast value :: 32 word)), m') }
      else if data_size = 2 then do {
        m' \<leftarrow> store16 m dest (ucast value); Some (Some (ucast (ucast value :: 16 word)), m') }
      else if data_size = 1 then do {
        m' \<leftarrow> store8 m dest (ucast value); Some (Some (ucast (ucast value :: 8 word)), m') }
      else Some (None, m))"

text \<open>The common ending: \<open>invalid data_size\<close>, \<open>integer too large\<close>, or success.\<close>

definition check_clamped ::
    "'i pb_istream_t \<Rightarrow> 64 word \<Rightarrow> 64 word option \<times> mem \<Rightarrow> bool \<times> 'i pb_istream_t \<times> mem" where
  "check_clamped s value r = (case r of
     (None, m) \<Rightarrow> (False, PB_SET_ERROR s ''invalid data_size'', m)
   | (Some clamped, m) \<Rightarrow>
       (if clamped \<noteq> value then (False, PB_SET_ERROR s ''integer too large'', m) else (True, s, m)))"

definition pb_dec_varint :: "('i, 'o) decoder" where
  "pb_dec_varint env s field dest m = do {
     (r, s') \<leftarrow> pb_decode_varint env s;
     case r of
       None \<Rightarrow> Some (False, s', m)
     | Some value \<Rightarrow> do {
         let svalue = (if pf_data_size field = 8 then value else scast (ucast value :: 32 word));
         res \<leftarrow> store_signed m dest (pf_data_size field) svalue;
         Some (check_clamped s' svalue res)
       }
   }"

definition pb_dec_uvarint :: "('i, 'o) decoder" where
  "pb_dec_uvarint env s field dest m = do {
     (r, s') \<leftarrow> pb_decode_varint env s;
     case r of
       None \<Rightarrow> Some (False, s', m)
     | Some value \<Rightarrow> do {
         res \<leftarrow> store_unsigned m dest (pf_data_size field) value;
         Some (check_clamped s' value res)
       }
   }"

definition pb_dec_svarint :: "('i, 'o) decoder" where
  "pb_dec_svarint env s field dest m = do {
     (r, s') \<leftarrow> pb_decode_svarint env s;
     case r of
       None \<Rightarrow> Some (False, s', m)
     | Some value \<Rightarrow> do {
         res \<leftarrow> store_signed m dest (pf_data_size field) value;
         Some (check_clamped s' value res)
       }
   }"

definition pb_dec_fixed32 :: "('i, 'o) decoder" where
  "pb_dec_fixed32 env s field dest m = do {
     (r, s') \<leftarrow> pb_decode_fixed32 env s;
     case r of
       None \<Rightarrow> Some (False, s', m)
     | Some v \<Rightarrow> do { m' \<leftarrow> store32 m dest v; Some (True, s', m') }
   }"

definition pb_dec_fixed64 :: "('i, 'o) decoder" where
  "pb_dec_fixed64 env s field dest m = do {
     (r, s') \<leftarrow> pb_decode_fixed64 env s;
     case r of
       None \<Rightarrow> Some (False, s', m)
     | Some v \<Rightarrow> do { m' \<leftarrow> store64 m dest v; Some (True, s', m') }
   }"

text \<open>\<open>pb_read\<close> into the object at \<open>dest\<close>: what the callback stored is stored also when it
  failed.\<close>

definition pb_read_to :: "('i, 'o) pb_env \<Rightarrow> 'i pb_istream_t \<Rightarrow> addr \<Rightarrow> size_t \<Rightarrow> mem \<Rightarrow>
    (bool \<times> 'i pb_istream_t \<times> mem) option" where
  "pb_read_to env s dest count m = do {
     (ok, got, s') \<leftarrow> pb_read env s count;
     m' \<leftarrow> store_bytes m dest got;
     Some (ok, s', m')
   }"

definition pb_dec_bytes :: "('i, 'o) decoder" where
  "pb_dec_bytes env s field dest m = do {
     (r, s') \<leftarrow> pb_decode_varint32 env s;
     case r of
       None \<Rightarrow> Some (False, s', m)
     | Some n \<Rightarrow>
         if PB_SIZE_MAX < n then Some (False, PB_SET_ERROR s' ''bytes overflow'', m)
         else let alloc_size = PB_BYTES_ARRAY_T_ALLOCSIZE n in
         if alloc_size < ucast n then Some (False, PB_SET_ERROR s' ''size too large'', m)
         else if PB_ATYPE (pf_type field) = PB_ATYPE_POINTER
         then Some (False, PB_SET_ERROR s' ''no malloc support'', m)
         else if ucast (pf_data_size field) < alloc_size
         then Some (False, PB_SET_ERROR s' ''bytes overflow'', m)
         else do {
           m' \<leftarrow> store32 m (dest + bytes_size_off) n;
           pb_read_to env s' (dest + bytes_bytes_off) (ucast n) m'
         }
   }"

text \<open>\<open>alloc_size = size + 1\<close> is added at 32 bits.\<close>

definition pb_dec_string :: "('i, 'o) decoder" where
  "pb_dec_string env s field dest m = do {
     (r, s') \<leftarrow> pb_decode_varint32 env s;
     case r of
       None \<Rightarrow> Some (False, s', m)
     | Some n \<Rightarrow>
         let alloc_size = (ucast (n + 1) :: size_t) in
         if alloc_size < ucast n then Some (False, PB_SET_ERROR s' ''size too large'', m)
         else if PB_ATYPE (pf_type field) = PB_ATYPE_POINTER
         then Some (False, PB_SET_ERROR s' ''no malloc support'', m)
         else if ucast (pf_data_size field) < alloc_size
         then Some (False, PB_SET_ERROR s' ''string overflow'', m)
         else do {
           (status, s'', m') \<leftarrow> pb_read_to env s' dest (ucast n) m;
           m'' \<leftarrow> store8 m' (dest + uint n) 0;
           Some (status, s'', m'')
         }
   }"

definition pb_dec_fixed_length_bytes :: "('i, 'o) decoder" where
  "pb_dec_fixed_length_bytes env s field dest m = do {
     (r, s') \<leftarrow> pb_decode_varint32 env s;
     case r of
       None \<Rightarrow> Some (False, s', m)
     | Some n \<Rightarrow>
         if PB_SIZE_MAX < n then Some (False, PB_SET_ERROR s' ''bytes overflow'', m)
         else if n = 0 then do {
           m' \<leftarrow> store_bytes m dest (replicate (unat (pf_data_size field)) 0);
           Some (True, s', m')
         }
         else if n \<noteq> pf_data_size field
         then Some (False, PB_SET_ERROR s' ''incorrect fixed length bytes size'', m)
         else pb_read_to env s' dest (ucast (pf_data_size field)) m
   }"

text \<open>\<open>(const pb_field_t*)ptr\<close>: undefined when the pointer is no descriptor array.\<close>

definition ptr_fields :: "('i, 'o) pb_env \<Rightarrow> pb_ptr \<Rightarrow> pb_field_t list option" where
  "ptr_fields env p = (case p of PtrFields i \<Rightarrow> Some (descs env i) | _ \<Rightarrow> None)"

definition pb_dec_submessage :: "'i noinit \<Rightarrow> set_defaults \<Rightarrow> ('i, 'o) decoder" where
  "pb_dec_submessage ni sd env s field dest m = do {
     (r, s') \<leftarrow> pb_make_string_substream env s;
     case r of
       None \<Rightarrow> Some (False, s', m)
     | Some sub \<Rightarrow>
         if pf_ptr field = PtrNull
         then Some (False, PB_SET_ERROR s' ''invalid field descriptor'', m)
         else do {
           fs \<leftarrow> ptr_fields env (pf_ptr field);
           m' \<leftarrow> (if PB_HTYPE (pf_type field) = PB_HTYPE_REPEATED then sd fs dest m else Some m);
           (status, sub', m'') \<leftarrow> ni sub fs dest m';
           (ok, s'') \<leftarrow> pb_close_string_substream env s' sub';
           Some (ok \<and> status, s'', m'')
         }
   }"

text \<open>\<open>PB_DECODERS[ltype]\<close>: a call through the null entry or beyond the table is undefined.\<close>

definition PB_DECODERS :: "'i noinit \<Rightarrow> set_defaults \<Rightarrow> pb_type_t \<Rightarrow> ('i, 'o) decoder" where
  "PB_DECODERS ni sd ltype =
     (if ltype = PB_LTYPE_VARINT then pb_dec_varint
      else if ltype = PB_LTYPE_UVARINT then pb_dec_uvarint
      else if ltype = PB_LTYPE_SVARINT then pb_dec_svarint
      else if ltype = PB_LTYPE_FIXED32 then pb_dec_fixed32
      else if ltype = PB_LTYPE_FIXED64 then pb_dec_fixed64
      else if ltype = PB_LTYPE_BYTES then pb_dec_bytes
      else if ltype = PB_LTYPE_STRING then pb_dec_string
      else if ltype = PB_LTYPE_SUBMESSAGE then pb_dec_submessage ni sd
      else if ltype = PB_LTYPE_FIXED_LENGTH_BYTES then pb_dec_fixed_length_bytes
      else (\<lambda>_ _ _ _ _. None))"

subsection \<open>A single field\<close>

text \<open>The loop over a packed array of a static field.\<close>

partial_function (option) packed_loop ::
    "('i, 'o) decoder \<Rightarrow> ('i, 'o) pb_env \<Rightarrow> pb_field_t \<Rightarrow> addr \<Rightarrow> addr \<Rightarrow> 'i pb_istream_t \<Rightarrow> mem \<Rightarrow>
     (bool \<times> 'i pb_istream_t \<times> mem) option" where
  "packed_loop func env f pData pSize sub m = do {
     n \<leftarrow> load32 m pSize;
     if 0 < bytes_left sub \<and> n < pf_array_size f then do {
       (ok, sub', m') \<leftarrow> func env sub f (pData + uint (pf_data_size f * n)) m;
       if \<not> ok then Some (False, sub', m')
       else do {
         n' \<leftarrow> load32 m' pSize;
         m'' \<leftarrow> store32 m' pSize (n' + 1);
         packed_loop func env f pData pSize sub' m''
       }
     }
     else Some (True, sub, m)
   }"

definition decode_static_field :: "'i noinit \<Rightarrow> set_defaults \<Rightarrow> ('i, 'o) pb_env \<Rightarrow>
    'i pb_istream_t \<Rightarrow> pb_wire_type_t \<Rightarrow> pb_field_iter_t \<Rightarrow> mem \<Rightarrow>
    (bool \<times> 'i pb_istream_t \<times> mem) option" where
  "decode_static_field ni sd env s wire_type it m = do {
     f \<leftarrow> iter_field it;
     let ty = pf_type f;
     let func = PB_DECODERS ni sd (PB_LTYPE ty);
     if PB_HTYPE ty = PB_HTYPE_REQUIRED then func env s f (it_pData it) m
     else if PB_HTYPE ty = PB_HTYPE_OPTIONAL then do {
       m' \<leftarrow> (if it_pSize it \<noteq> it_pData it then store8 m (it_pSize it) 1 else Some m);
       func env s f (it_pData it) m'
     }
     else if PB_HTYPE ty = PB_HTYPE_REPEATED then
       (if wire_type = PB_WT_STRING \<and> PB_LTYPE ty \<le> PB_LTYPE_LAST_PACKABLE then do {
          (r, s') \<leftarrow> pb_make_string_substream env s;
          case r of
            None \<Rightarrow> Some (False, s', m)
          | Some sub \<Rightarrow> do {
              (status, sub', m') \<leftarrow> packed_loop func env f (it_pData it) (it_pSize it) sub m;
              if bytes_left sub' \<noteq> 0 then Some (False, PB_SET_ERROR s' ''array overflow'', m')
              else do {
                (ok, s'') \<leftarrow> pb_close_string_substream env s' sub';
                Some (ok \<and> status, s'', m')
              }
            }
        }
        else do {
          n \<leftarrow> load32 m (it_pSize it);
          let pItem = it_pData it + uint (pf_data_size f * n);
          if pf_array_size f \<le> n then Some (False, PB_SET_ERROR s ''array overflow'', m)
          else do {
            m' \<leftarrow> store32 m (it_pSize it) (n + 1);
            func env s f pItem m'
          }
        })
     else if PB_HTYPE ty = PB_HTYPE_ONEOF then do {
       m' \<leftarrow> store32 m (it_pSize it) (pf_tag f);
       m'' \<leftarrow> (if PB_LTYPE ty = PB_LTYPE_SUBMESSAGE then do {
                 m1 \<leftarrow> store_bytes m' (it_pData it) (replicate (unat (pf_data_size f)) 0);
                 fs \<leftarrow> ptr_fields env (pf_ptr f);
                 sd fs (it_pData it) m1
               } else Some m');
       func env s f (it_pData it) m''
     }
     else Some (False, PB_SET_ERROR s ''invalid field type'', m)
   }"

text \<open>\<open>decode_pointer_field\<close> without \<open>PB_ENABLE_MALLOC\<close>.\<close>

definition decode_pointer_field :: "'i pb_istream_t \<Rightarrow> mem \<Rightarrow>
    (bool \<times> 'i pb_istream_t \<times> mem) option" where
  "decode_pointer_field s m = Some (False, PB_SET_ERROR s ''no malloc support'', m)"

text \<open>The loop that calls the user until the substream is used up; a callback that succeeds
  without reading makes it run forever.\<close>

partial_function (option) callback_loop ::
    "('i, 'o) pb_env \<Rightarrow> 64 word \<Rightarrow> pb_field_t \<Rightarrow> addr \<Rightarrow> 'i pb_istream_t \<Rightarrow> mem \<Rightarrow>
     (bool \<times> 'i pb_istream_t \<times> mem) option" where
  "callback_loop env fn f arg sub m = do {
     (ok, sub', m') \<leftarrow> user_decode env fn sub f arg m;
     if \<not> ok then Some (False, sub', m')
     else if bytes_left sub' \<noteq> 0 then callback_loop env fn f arg sub' m'
     else Some (True, sub', m')
   }"

definition decode_callback_field :: "('i, 'o) pb_env \<Rightarrow> 'i pb_istream_t \<Rightarrow> pb_wire_type_t \<Rightarrow>
    pb_field_iter_t \<Rightarrow> mem \<Rightarrow> (bool \<times> 'i pb_istream_t \<times> mem) option" where
  "decode_callback_field env s wire_type it m = do {
     f \<leftarrow> iter_field it;
     let arg = it_pData it + cb_arg_off;
     fn \<leftarrow> load64 m (it_pData it + cb_funcs_off);
     if fn = 0 then do { (ok, s') \<leftarrow> pb_skip_field env s wire_type; Some (ok, s', m) }
     else if wire_type = PB_WT_STRING then do {
       (r, s') \<leftarrow> pb_make_string_substream env s;
       case r of
         None \<Rightarrow> Some (False, s', m)
       | Some sub \<Rightarrow> do {
           (ok, sub', m') \<leftarrow> callback_loop env fn f arg sub m;
           if \<not> ok then Some (False, PB_SET_ERROR s' ''callback failed'', m')
           else do {
             (ok', s'') \<leftarrow> pb_close_string_substream env s' sub';
             Some (ok', s'', m')
           }
         }
     }
     else do {
       (ok, buf, s') \<leftarrow> read_raw_value env s wire_type 10;
       if \<not> ok then Some (False, s', m)
       else do {
         (ok', _, m') \<leftarrow> user_decode env fn
            (pb_istream_from_buffer buf (of_nat (length buf))) f arg m;
         Some (ok', s', m')
       }
     }
   }"

definition decode_field :: "'i noinit \<Rightarrow> set_defaults \<Rightarrow> ('i, 'o) pb_env \<Rightarrow>
    'i pb_istream_t \<Rightarrow> pb_wire_type_t \<Rightarrow> pb_field_iter_t \<Rightarrow> mem \<Rightarrow>
    (bool \<times> 'i pb_istream_t \<times> mem) option" where
  "decode_field ni sd env s wire_type it m = do {
     f \<leftarrow> iter_field it;
     let aty = PB_ATYPE (pf_type f);
     if aty = PB_ATYPE_STATIC then decode_static_field ni sd env s wire_type it m
     else if aty = PB_ATYPE_POINTER then decode_pointer_field s m
     else if aty = PB_ATYPE_CALLBACK then decode_callback_field env s wire_type it m
     else Some (False, PB_SET_ERROR s ''invalid field type'', m)
   }"

subsection \<open>Extensions\<close>

text \<open>\<open>extension->type\<close>, and its \<open>arg\<close> read as a field descriptor.\<close>

definition ext_type_of ::
    "('i, 'o) pb_env \<Rightarrow> addr \<Rightarrow> mem \<Rightarrow> pb_extension_type_t option" where
  "ext_type_of env ext m = do { p \<leftarrow> load64 m (ext + ext_type_off); ext_types env p }"

definition iter_from_extension ::
    "('i, 'o) pb_env \<Rightarrow> addr \<Rightarrow> mem \<Rightarrow> pb_field_iter_t option" where
  "iter_from_extension env ext m = do {
     ty \<leftarrow> ext_type_of env ext m;
     field \<leftarrow> ext_arg ty;
     dest \<leftarrow> load_ptr m (ext + ext_dest_off);
     (_, it) \<leftarrow> pb_field_iter_begin [field] dest;
     let it' = it\<lparr>it_pData := dest, it_pSize := ext + ext_found_off\<rparr>;
     Some (if PB_ATYPE (pf_type field) = PB_ATYPE_POINTER
           then it'\<lparr>it_pData := ext + ext_dest_off\<rparr> else it')
   }"

definition default_extension_decoder :: "'i noinit \<Rightarrow> set_defaults \<Rightarrow> ('i, 'o) pb_env \<Rightarrow>
    'i pb_istream_t \<Rightarrow> addr \<Rightarrow> 32 word \<Rightarrow> pb_wire_type_t \<Rightarrow> mem \<Rightarrow>
    (bool \<times> 'i pb_istream_t \<times> mem) option" where
  "default_extension_decoder ni sd env s ext tag wire_type m = do {
     ty \<leftarrow> ext_type_of env ext m;
     field \<leftarrow> ext_arg ty;
     if pf_tag field \<noteq> tag then Some (True, s, m)
     else do {
       it \<leftarrow> iter_from_extension env ext m;
       m' \<leftarrow> store8 m (ext + ext_found_off) 1;
       decode_field ni sd env s wire_type it m'
     }
   }"

partial_function (option) decode_extension_loop :: "'i noinit \<Rightarrow> set_defaults \<Rightarrow>
    ('i, 'o) pb_env \<Rightarrow> size_t \<Rightarrow> 32 word \<Rightarrow> pb_wire_type_t \<Rightarrow> addr \<Rightarrow> 'i pb_istream_t \<Rightarrow> mem \<Rightarrow>
    (bool \<times> 'i pb_istream_t \<times> mem) option" where
  "decode_extension_loop ni sd env pos tag wire_type ext s m =
     (if ext \<noteq> 0 \<and> pos = bytes_left s then do {
        ty \<leftarrow> ext_type_of env ext m;
        (status, s', m') \<leftarrow> (case ext_decode ty of
            Some fn \<Rightarrow> user_ext_decode env fn s ext tag wire_type m
          | None \<Rightarrow> default_extension_decoder ni sd env s ext tag wire_type m);
        if \<not> status then Some (False, s', m')
        else do {
          nxt \<leftarrow> load_ptr m' (ext + ext_next_off);
          decode_extension_loop ni sd env pos tag wire_type nxt s' m'
        }
      }
      else Some (True, s, m))"

definition decode_extension :: "'i noinit \<Rightarrow> set_defaults \<Rightarrow> ('i, 'o) pb_env \<Rightarrow>
    'i pb_istream_t \<Rightarrow> 32 word \<Rightarrow> pb_wire_type_t \<Rightarrow> pb_field_iter_t \<Rightarrow> mem \<Rightarrow>
    (bool \<times> 'i pb_istream_t \<times> mem) option" where
  "decode_extension ni sd env s tag wire_type it m = do {
     ext \<leftarrow> load_ptr m (it_pData it);
     decode_extension_loop ni sd env (bytes_left s) tag wire_type ext s m
   }"

definition is_extension :: "pb_field_t \<Rightarrow> bool" where
  "is_extension f \<longleftrightarrow> PB_LTYPE (pf_type f) = PB_LTYPE_EXTENSION"

definition find_extension_field :: "pb_field_iter_t \<Rightarrow> (bool \<times> pb_field_iter_t) option" where
  "find_extension_field it = iter_scan is_extension (it_pos it) it"

subsection \<open>Default values\<close>

partial_function (option) ext_defaults_loop ::
    "(pb_field_iter_t \<Rightarrow> mem \<Rightarrow> mem option) \<Rightarrow> ('i, 'o) pb_env \<Rightarrow> addr \<Rightarrow> mem \<Rightarrow> mem option" where
  "ext_defaults_loop fld env ext m =
     (if ext = 0 then Some m
      else do {
        m1 \<leftarrow> store8 m (ext + ext_found_off) 0;
        it \<leftarrow> iter_from_extension env ext m1;
        m2 \<leftarrow> fld it m1;
        nxt \<leftarrow> load_ptr m2 (ext + ext_next_off);
        ext_defaults_loop fld env nxt m2
      })"

text \<open>\<open>pb_message_set_to_defaults\<close>, given the routine for one field.\<close>

definition message_defaults :: "(pb_field_iter_t \<Rightarrow> mem \<Rightarrow> mem option) \<Rightarrow> set_defaults" where
  "message_defaults fld fs dest m = do {
     (nonempty, it) \<leftarrow> pb_field_iter_begin fs dest;
     if \<not> nonempty then Some m
     else do {
       (_, m') \<leftarrow> iter_each (\<lambda>it m. map_option (Pair True) (fld it m)) it m;
       Some m'
     }
   }"

text \<open>The initial value of a static field: the message defaults, the default value, or zeros.\<close>

definition init_data :: "set_defaults \<Rightarrow> ('i, 'o) pb_env \<Rightarrow> pb_field_t \<Rightarrow> addr \<Rightarrow> mem \<Rightarrow> mem option" where
  "init_data sd env f pData m =
     (if PB_LTYPE (pf_type f) = PB_LTYPE_SUBMESSAGE then do {
        fs \<leftarrow> ptr_fields env (pf_ptr f); sd fs pData m }
      else case pf_ptr f of
        PtrNull \<Rightarrow> store_bytes m pData (replicate (unat (pf_data_size f)) 0)
      | PtrData bs \<Rightarrow>
          if unat (pf_data_size f) \<le> length bs
          then store_bytes m pData (take (unat (pf_data_size f)) bs) else None
      | PtrFields _ \<Rightarrow> None)"

definition field_default :: "(pb_field_iter_t \<Rightarrow> mem \<Rightarrow> mem option) \<Rightarrow> ('i, 'o) pb_env \<Rightarrow>
    pb_field_iter_t \<Rightarrow> mem \<Rightarrow> mem option" where
  "field_default fld env it m = do {
     f \<leftarrow> iter_field it;
     let ty = pf_type f;
     if PB_LTYPE ty = PB_LTYPE_EXTENSION then do {
       ext \<leftarrow> load_ptr m (it_pData it);
       ext_defaults_loop fld env ext m
     }
     else if PB_ATYPE ty = PB_ATYPE_STATIC then
       (if PB_HTYPE ty = PB_HTYPE_OPTIONAL \<and> it_pSize it \<noteq> it_pData it then do {
          m' \<leftarrow> store8 m (it_pSize it) 0;
          init_data (message_defaults fld) env f (it_pData it) m'
        }
        else if PB_HTYPE ty = PB_HTYPE_REPEATED \<or> PB_HTYPE ty = PB_HTYPE_ONEOF
        then store32 m (it_pSize it) 0
        else init_data (message_defaults fld) env f (it_pData it) m)
     else if PB_ATYPE ty = PB_ATYPE_POINTER then do {
       m' \<leftarrow> store64 m (it_pData it) 0;
       if PB_HTYPE ty = PB_HTYPE_REPEATED \<or> PB_HTYPE ty = PB_HTYPE_ONEOF
       then store32 m' (it_pSize it) 0 else Some m'
     }
     else Some m
   }"

primrec pb_field_set_to_default ::
    "nat \<Rightarrow> ('i, 'o) pb_env \<Rightarrow> pb_field_iter_t \<Rightarrow> mem \<Rightarrow> mem option" where
  "pb_field_set_to_default 0 env = (\<lambda>it m. None)"
| "pb_field_set_to_default (Suc d) env = field_default (pb_field_set_to_default d env) env"

definition pb_message_set_to_defaults :: "nat \<Rightarrow> ('i, 'o) pb_env \<Rightarrow> set_defaults" where
  "pb_message_set_to_defaults d env = message_defaults (pb_field_set_to_default d env)"

subsection \<open>A whole message\<close>

text \<open>\<open>fields_seen\<close> has \<open>(PB_MAX_REQUIRED_FIELDS + 31) / 32\<close> words; an access beyond is
  undefined.\<close>

definition mark_seen :: "32 word list \<Rightarrow> 32 word \<Rightarrow> 32 word list option" where
  "mark_seen seen idx =
     (let w = unat (drop_bit 5 idx)
      in if w < length seen
         then Some (seen[w := seen ! w OR push_bit (unat (idx AND 31)) 1]) else None)"

record 'i dec_state =
  ds_stream :: "'i pb_istream_t"
  ds_iter :: pb_field_iter_t
  ds_mem :: mem
  ds_seen :: "32 word list"
  ds_ext_start :: "32 word"

text \<open>One turn of the loop \<open>while (stream->bytes_left)\<close>: \<open>Some False\<close> to return false,
  \<open>Some True\<close> to leave the loop, \<open>None\<close> to go on.\<close>

definition handle_unknown :: "'i noinit \<Rightarrow> set_defaults \<Rightarrow> ('i, 'o) pb_env \<Rightarrow> 32 word \<Rightarrow>
    pb_wire_type_t \<Rightarrow> 'i dec_state \<Rightarrow> (bool option \<times> 'i dec_state) option" where
  "handle_unknown ni sd env tag wire_type st = do {
     (handled, st') \<leftarrow>
       (if ds_ext_start st \<le> tag then do {
          (found, it) \<leftarrow> find_extension_field (ds_iter st);
          start \<leftarrow> (if \<not> found then Some (- 1) else map_option pf_tag (iter_field it));
          let st1 = st\<lparr>ds_iter := it, ds_ext_start := start\<rparr>;
          if start \<le> tag then do {
            (ok, s', m') \<leftarrow> decode_extension ni sd env (ds_stream st1) tag wire_type it (ds_mem st1);
            let st2 = st1\<lparr>ds_stream := s', ds_mem := m'\<rparr>;
            Some (if \<not> ok then Some (Some False)
                  else if bytes_left (ds_stream st1) \<noteq> bytes_left s' then Some None else None, st2)
          }
          else Some (None, st1)
        }
        else Some (None, st));
     case handled of
       Some r \<Rightarrow> Some (r, st')
     | None \<Rightarrow> do {
         (ok, s') \<leftarrow> pb_skip_field env (ds_stream st') wire_type;
         Some (if ok then None else Some False, st'\<lparr>ds_stream := s'\<rparr>)
       }
   }"

definition decode_step :: "'i noinit \<Rightarrow> set_defaults \<Rightarrow> ('i, 'o) pb_env \<Rightarrow>
    'i dec_state \<Rightarrow> (bool option \<times> 'i dec_state) option" where
  "decode_step ni sd env st = do {
     (t, s) \<leftarrow> pb_decode_tag env (ds_stream st);
     let st1 = st\<lparr>ds_stream := s\<rparr>;
     if \<not> tr_ok t then Some (Some (tr_eof t), st1)
     else do {
       (found, it) \<leftarrow> pb_field_iter_find (ds_iter st1) (tr_tag t);
       let st2 = st1\<lparr>ds_iter := it\<rparr>;
       if \<not> found then handle_unknown ni sd env (tr_tag t) (tr_wire_type t) st2
       else do {
         f \<leftarrow> iter_field it;
         seen \<leftarrow> (if PB_HTYPE (pf_type f) = PB_HTYPE_REQUIRED \<and>
                     it_required_field_index it < PB_MAX_REQUIRED_FIELDS
                  then mark_seen (ds_seen st2) (it_required_field_index it)
                  else Some (ds_seen st2));
         (ok, s', m') \<leftarrow> decode_field ni sd env (ds_stream st2) (tr_wire_type t) it (ds_mem st2);
         Some (if ok then None else Some False,
               st2\<lparr>ds_stream := s', ds_mem := m', ds_seen := seen\<rparr>)
       }
     }
   }"

partial_function (option) decode_loop :: "'i noinit \<Rightarrow> set_defaults \<Rightarrow> ('i, 'o) pb_env \<Rightarrow>
    'i dec_state \<Rightarrow> (bool \<times> 'i dec_state) option" where
  "decode_loop ni sd env st =
     (if bytes_left (ds_stream st) = 0 then Some (True, st)
      else do {
        (r, st') \<leftarrow> decode_step ni sd env st;
        case r of Some b \<Rightarrow> Some (b, st') | None \<Rightarrow> decode_loop ni sd env st'
      })"

text \<open>Counting the required fields by seeking to the end of the array.\<close>

partial_function (option) req_count_loop ::
    "pb_field_iter_t \<Rightarrow> (32 word \<times> pb_type_t \<times> pb_field_iter_t) option" where
  "req_count_loop it = do {
     f \<leftarrow> iter_field it;
     (more, it') \<leftarrow> pb_field_iter_next it;
     if more then req_count_loop it'
     else Some (it_required_field_index it, pf_type f, it')
   }"

text \<open>The check of the bit set: whole words, then the remaining bits. A shift of a 32-bit value
  by 32 is undefined.\<close>

fun whole_words :: "32 word list \<Rightarrow> nat list \<Rightarrow> bool option" where
  "whole_words seen [] = Some True"
| "whole_words seen (i # is) =
     (if length seen \<le> i then None
      else if seen ! i \<noteq> - 1 then Some False else whole_words seen is)"

definition check_seen :: "32 word list \<Rightarrow> 32 word \<Rightarrow> bool option" where
  "check_seen seen req_field_count =
     (if req_field_count = 0 then Some True
      else do {
        let w = unat (drop_bit 5 req_field_count);
        let sh = 32 - unat (req_field_count AND 31);
        ok \<leftarrow> whole_words seen [0..<w];
        if \<not> ok then Some False
        else if length seen \<le> w \<or> 32 \<le> sh then None
        else Some (seen ! w = drop_bit sh (- 1))
      })"

definition noinit_body :: "'i noinit \<Rightarrow> set_defaults \<Rightarrow> ('i, 'o) pb_env \<Rightarrow> 'i noinit" where
  "noinit_body ni sd env s fs dest m = do {
     (_, it) \<leftarrow> pb_field_iter_begin fs dest;
     (ok, st) \<leftarrow> decode_loop ni sd env
       \<lparr>ds_stream = s, ds_iter = it, ds_mem = m, ds_seen = [0, 0], ds_ext_start = 0\<rparr>;
     if \<not> ok then Some (False, ds_stream st, ds_mem st)
     else do {
       (n, last_type, it') \<leftarrow> req_count_loop (ds_iter st);
       f \<leftarrow> iter_field it';
       let req_field_count =
         (if PB_HTYPE last_type = PB_HTYPE_REQUIRED \<and> pf_tag f \<noteq> 0 then n + 1 else n);
       all_seen \<leftarrow> check_seen (ds_seen st) req_field_count;
       Some (if all_seen then (True, ds_stream st, ds_mem st)
             else (False, PB_SET_ERROR (ds_stream st) ''missing required field'', ds_mem st))
     }
   }"

primrec pb_decode_noinit :: "nat \<Rightarrow> ('i, 'o) pb_env \<Rightarrow> 'i noinit" where
  "pb_decode_noinit 0 env = (\<lambda>s fs dest m. None)"
| "pb_decode_noinit (Suc d) env =
     noinit_body (pb_decode_noinit d env) (pb_message_set_to_defaults d env) env"

definition pb_decode :: "nat \<Rightarrow> ('i, 'o) pb_env \<Rightarrow> 'i noinit" where
  "pb_decode d env s fs dest m = do {
     m' \<leftarrow> pb_message_set_to_defaults d env fs dest m;
     pb_decode_noinit d env s fs dest m'
   }"

definition pb_decode_delimited :: "nat \<Rightarrow> ('i, 'o) pb_env \<Rightarrow> 'i noinit" where
  "pb_decode_delimited d env s fs dest m = do {
     (r, s') \<leftarrow> pb_make_string_substream env s;
     case r of
       None \<Rightarrow> Some (False, s', m)
     | Some sub \<Rightarrow> do {
         (status, sub', m') \<leftarrow> pb_decode d env sub fs dest m;
         (ok, s'') \<leftarrow> pb_close_string_substream env s' sub';
         Some (ok \<and> status, s'', m')
       }
   }"

end
