(* ===== verification/Pb_Example.thy ===== *)
theory Pb_Example
  imports Pb_Types
begin

text \<open>
  A small message type, an environment and a memory at which the theorems about nanopb are
  instantiated:

    \<^verbatim>\<open>struct Point  { uint32_t x; };\<close>

    \<^verbatim>\<open>struct Person { int32_t id; bool has_name; char name[8]; pb_size_t vals_count;
       uint32_t vals[4]; bool has_pos; Point pos; };\<close>

  The struct has 44 bytes: \<open>id\<close> at 0, \<open>has_name\<close> at 4, \<open>name\<close> at 5, \<open>vals_count\<close> at 16,
  \<open>vals\<close> at 20, \<open>has_pos\<close> at 36, \<open>pos\<close> at 40.
\<close>

definition Point_fields :: "pb_field_t list" where
  "Point_fields =
     [\<lparr>pf_tag = 1, pf_type = PB_ATYPE_STATIC OR PB_HTYPE_REQUIRED OR PB_LTYPE_FIXED32,
       pf_data_offset = 0, pf_size_offset = 0, pf_data_size = 4, pf_array_size = 0, pf_ptr = PtrNull\<rparr>,
      PB_LAST_FIELD]"

definition Person_fields :: "pb_field_t list" where
  "Person_fields =
     [\<lparr>pf_tag = 1, pf_type = PB_ATYPE_STATIC OR PB_HTYPE_REQUIRED OR PB_LTYPE_VARINT,
       pf_data_offset = 0, pf_size_offset = 0, pf_data_size = 4, pf_array_size = 0, pf_ptr = PtrNull\<rparr>,
      \<lparr>pf_tag = 2, pf_type = PB_ATYPE_STATIC OR PB_HTYPE_OPTIONAL OR PB_LTYPE_STRING,
       pf_data_offset = 1, pf_size_offset = - 1, pf_data_size = 8, pf_array_size = 0, pf_ptr = PtrNull\<rparr>,
      \<lparr>pf_tag = 3, pf_type = PB_ATYPE_STATIC OR PB_HTYPE_REPEATED OR PB_LTYPE_UVARINT,
       pf_data_offset = 7, pf_size_offset = - 4, pf_data_size = 4, pf_array_size = 4, pf_ptr = PtrNull\<rparr>,
      \<lparr>pf_tag = 4, pf_type = PB_ATYPE_STATIC OR PB_HTYPE_OPTIONAL OR PB_LTYPE_SUBMESSAGE,
       pf_data_offset = 4, pf_size_offset = - 4, pf_data_size = 4, pf_array_size = 0, pf_ptr = PtrFields 1\<rparr>,
      PB_LAST_FIELD]"

definition demo_env :: "(unit, unit) pb_env" where
  "demo_env = \<lparr>descs = (\<lambda>i. if i = 1 then Point_fields else [PB_LAST_FIELD]),
     ext_types = (\<lambda>_. None), user_read = (\<lambda>u n. (False, [], u)), user_write = (\<lambda>u bs. (False, u)),
     user_decode = (\<lambda>fn s f arg m. Some (False, s, m)),
     user_encode = (\<lambda>fn s f arg m. Some (False, s, m)),
     user_ext_decode = (\<lambda>fn s ext tag wt m. Some (False, s, m)),
     user_ext_encode = (\<lambda>fn s ext m. Some (False, s, m))\<rparr>"

text \<open>A struct of 44 bytes at address 1000, all of them zero.\<close>

definition demo_mem :: mem where
  "demo_mem = (\<lambda>a. if 1000 \<le> a \<and> a < 1044 then Some 0 else None)"

lemma demo_mem_mapped: "mapped demo_mem 1000 44"
  by (auto simp: mapped_def region_def demo_mem_def)

text \<open>The struct with \<open>id = 150\<close>, \<open>name = "ab"\<close>, \<open>vals = {1, 300}\<close>, \<open>pos.x = 7\<close>.\<close>

definition person_bytes :: "byte list" where
  "person_bytes =
     [0x96, 0, 0, 0, 1, 0x61, 0x62, 0, 0, 0, 0, 0, 0, 0, 0, 0, 2, 0, 0, 0,
      1, 0, 0, 0, 0x2C, 1, 0, 0, 0, 0, 0, 0, 0, 0, 0, 0, 1, 0, 0, 0, 7, 0, 0, 0]"

definition demo_person :: mem where
  "demo_person = (\<lambda>a. if 1000 \<le> a \<and> a < 1044 then Some (person_bytes ! nat (a - 1000)) else None)"

text \<open>Its encoding.\<close>

definition person_encoding :: "byte list" where
  "person_encoding =
     [0x08, 0x96, 0x01, 0x12, 0x02, 0x61, 0x62, 0x1A, 0x03, 0x01, 0xAC, 0x02,
      0x22, 0x05, 0x0D, 0x07, 0x00, 0x00, 0x00]"

lemma length_person_encoding [simp]: "length person_encoding = 19"
  by (simp add: person_encoding_def)

end
