(* ===== verification/Pb_Decode_Safe.thy ===== *)
theory Pb_Decode_Safe
  imports Pb_Decode Pb_Example
begin

text \<open>
  Memory safety of the decoder. For a descriptor whose fields lie inside the struct it describes
  (\<open>wf_msg\<close>), decoding any input whatsoever returns, reads the input buffer only inside its
  bounds and changes memory only inside the struct (and where the user's callbacks write). The
  contract of a field decoder and the contract of the decoder for nested messages are locales;
  the field decoders and, level by level, the message decoder are their instances.
\<close>

subsection \<open>Well-formed descriptors\<close>

definition inside :: "nat \<Rightarrow> int \<Rightarrow> nat \<Rightarrow> bool" where
  "inside n off k \<longleftrightarrow> 0 \<le> off \<and> off + int k \<le> int n"

text \<open>What a decoder needs of the descriptor of a static field: it may store the whole value.\<close>

definition fits32 :: "pb_field_t \<Rightarrow> bool" where "fits32 f \<longleftrightarrow> 4 \<le> unat (pf_data_size f)"
definition fits64 :: "pb_field_t \<Rightarrow> bool" where "fits64 f \<longleftrightarrow> 8 \<le> unat (pf_data_size f)"

definition sub_ok :: "(nat \<Rightarrow> pb_field_t list \<Rightarrow> bool) \<Rightarrow> ('i, 'o) pb_env \<Rightarrow> pb_field_t \<Rightarrow> bool" where
  "sub_ok wfm env f \<longleftrightarrow> (case pf_ptr f of
     PtrFields i \<Rightarrow> wfm (unat (pf_data_size f)) (descs env i) | _ \<Rightarrow> False)"

definition ltype_ok :: "(nat \<Rightarrow> pb_field_t list \<Rightarrow> bool) \<Rightarrow> ('i, 'o) pb_env \<Rightarrow> pb_field_t \<Rightarrow> bool" where
  "ltype_ok wfm env f \<longleftrightarrow> (let lt = PB_LTYPE (pf_type f) in
     lt < PB_LTYPES_COUNT \<and> lt \<noteq> PB_LTYPE_EXTENSION \<and>
     (lt = PB_LTYPE_FIXED32 \<longrightarrow> fits32 f) \<and> (lt = PB_LTYPE_FIXED64 \<longrightarrow> fits64 f) \<and>
     (lt = PB_LTYPE_SUBMESSAGE \<longrightarrow> sub_ok wfm env f))"

definition default_ok :: "pb_field_t \<Rightarrow> bool" where
  "default_ok f \<longleftrightarrow> PB_LTYPE (pf_type f) = PB_LTYPE_SUBMESSAGE \<or> (case pf_ptr f of
     PtrNull \<Rightarrow> True | PtrData bs \<Rightarrow> unat (pf_data_size f) \<le> length bs | PtrFields _ \<Rightarrow> False)"

text \<open>The field with its data at \<open>doff\<close> and its count or flag at \<open>soff\<close> lies in a struct of
  \<open>n\<close> bytes.\<close>

definition field_ok :: "(nat \<Rightarrow> pb_field_t list \<Rightarrow> bool) \<Rightarrow> ('i, 'o) pb_env \<Rightarrow> nat \<Rightarrow>
    pb_field_t \<Rightarrow> int \<Rightarrow> int \<Rightarrow> bool" where
  "field_ok wfm env n f doff soff \<longleftrightarrow>
     (let aty = PB_ATYPE (pf_type f); hty = PB_HTYPE (pf_type f); ds = unat (pf_data_size f) in
      \<not> is_extension f \<and>
      (aty = PB_ATYPE_STATIC \<longrightarrow> ltype_ok wfm env f \<and>
         (hty = PB_HTYPE_REQUIRED \<longrightarrow> inside n doff ds \<and> default_ok f) \<and>
         (hty = PB_HTYPE_OPTIONAL \<longrightarrow> inside n doff ds \<and> default_ok f \<and>
            (soff \<noteq> doff \<longrightarrow> inside n soff 1)) \<and>
         (hty = PB_HTYPE_REPEATED \<longrightarrow> inside n doff (ds * unat (pf_array_size f)) \<and>
            ds * unat (pf_array_size f) < 2 ^ 32 \<and> inside n soff 4) \<and>
         (hty = PB_HTYPE_ONEOF \<longrightarrow> inside n doff ds \<and> inside n soff 4)) \<and>
      (aty = PB_ATYPE_POINTER \<longrightarrow> inside n doff 8 \<and>
         (hty = PB_HTYPE_REPEATED \<or> hty = PB_HTYPE_ONEOF \<longrightarrow> inside n soff 4)) \<and>
      (aty = PB_ATYPE_CALLBACK \<longrightarrow> inside n doff 16))"

text \<open>The number of required fields the presence check can handle without leaving
  \<open>fields_seen\<close> or shifting by 32.\<close>

definition req_count_ok :: "pb_field_t list \<Rightarrow> bool" where
  "req_count_ok fs \<longleftrightarrow> req_index fs (nfields fs) < 64 \<and> req_index fs (nfields fs) \<noteq> 32"

primrec wf_msg :: "nat \<Rightarrow> ('i, 'o) pb_env \<Rightarrow> nat \<Rightarrow> pb_field_t list \<Rightarrow> bool" where
  "wf_msg 0 env n fs \<longleftrightarrow> False"
| "wf_msg (Suc d) env n fs \<longleftrightarrow> wf_array fs \<and> last fs = PB_LAST_FIELD \<and> req_count_ok fs \<and>
     list_all (\<lambda>i. field_ok (wf_msg d env) env n (fs ! i) (data_off fs i) (size_off fs i))
       [0..<nfields fs]"

subsection \<open>The contract of the user's callbacks\<close>

text \<open>
  A field callback reads its stream only through the library, uses up some of it when it
  succeeds, and writes only to its \<open>arg\<close> and to memory \<open>U\<close> of its own.
\<close>

definition user_ok :: "('i, 'o) pb_env \<Rightarrow> addr set \<Rightarrow> bool" where
  "user_ok env U \<longleftrightarrow> reads_ok env \<and>
     (\<forall>fn s f arg m. fn \<noteq> 0 \<longrightarrow> ivalid s \<longrightarrow> mapped m arg 8 \<longrightarrow>
        run (user_decode env fn s f arg m) (\<lambda>(ok, s', m').
          iadv s s' \<and> (ok \<longrightarrow> bytes_left s' = 0 \<or> unat (bytes_left s') < unat (bytes_left s)) \<and>
          frame (region arg 8 \<union> U) m m'))"

lemma user_ok_reads: "user_ok env U \<Longrightarrow> reads_ok env"
  by (simp add: user_ok_def)

subsection \<open>The contract of a field decoder\<close>

locale safe_decoder =
  fixes env :: "('i, 'o) pb_env" and U :: "addr set" and func :: "('i, 'o) decoder"
    and fits :: "pb_field_t \<Rightarrow> bool"
  assumes safe: "user_ok env U \<Longrightarrow> ivalid s \<Longrightarrow> fits f \<Longrightarrow>
    mapped m dest (unat (pf_data_size f)) \<Longrightarrow>
    run (func env s f dest m) (\<lambda>(ok, s', m'). progress s ok s' \<and>
      frame (region dest (unat (pf_data_size f)) \<union> U) m m')"
begin

text \<open>The array entry with index \<open>n\<close>: the product at 32 bits does not wrap inside the array.\<close>

lemma entry_region:
  fixes n :: pb_size_t
  assumes "n < pf_array_size f" and "unat (pf_data_size f) * unat (pf_array_size f) < 2 ^ 32"
  shows "region (pData + uint (pf_data_size f * n)) (unat (pf_data_size f)) \<subseteq>
    region pData (unat (pf_data_size f) * unat (pf_array_size f))"
proof (rule region_subset)
  have "Suc (unat n) \<le> unat (pf_array_size f)"
    using assms(1) by (simp add: word_less_nat_alt)
  then have le: "unat (pf_data_size f) * Suc (unat n) \<le> unat (pf_data_size f) * unat (pf_array_size f)"
    by (rule mult_le_mono2)
  then have "unat (pf_data_size f) * unat n < 2 ^ 32"
    using assms(2) by (simp add: algebra_simps)
  then have "unat (pf_data_size f * n) = unat (pf_data_size f) * unat n"
    by (simp add: unat_word_ariths)
  with le have "int (unat (pf_data_size f * n) + unat (pf_data_size f)) \<le>
      int (unat (pf_data_size f) * unat (pf_array_size f))"
    by (simp only: of_nat_le_iff) simp
  then show "pData + uint (pf_data_size f * n) + int (unat (pf_data_size f)) \<le>
      pData + int (unat (pf_data_size f) * unat (pf_array_size f))"
    unfolding uint_nat of_nat_add by linarith
qed simp

lemma packed_loop_safe:
  assumes u: "user_ok env U" and "ivalid sub" and "fits f" and "mapped m pSize 4"
    and "mapped m pData (unat (pf_data_size f) * unat (pf_array_size f))"
    and lt: "unat (pf_data_size f) * unat (pf_array_size f) < 2 ^ 32"
  shows "run (packed_loop func env f pData pSize sub m) (\<lambda>(ok, sub', m'). iadv sub sub' \<and>
    frame (region pData (unat (pf_data_size f) * unat (pf_array_size f)) \<union> region pSize 4 \<union> U) m m')"
  using assms(2,4,5)
proof (induction "unat (bytes_left sub)" arbitrary: sub m rule: less_induct)
  case less
  let ?R = "region pData (unat (pf_data_size f) * unat (pf_array_size f)) \<union> region pSize 4 \<union> U"
  obtain n where n: "load32 m pSize = Some n"
    using run_loads(3) [OF less.prems(2), of "\<lambda>_. True"] by (auto elim: runE)
  show ?case
  proof (cases "0 < bytes_left sub \<and> n < pf_array_size f")
    case False
    with n show ?thesis by (subst packed_loop.simps) auto
  next
    case True
    let ?p = "pData + uint (pf_data_size f * n)"
    have e: "region ?p (unat (pf_data_size f)) \<subseteq>
        region pData (unat (pf_data_size f) * unat (pf_array_size f))"
      using entry_region [OF _ lt] True by blast
    then have mp: "mapped m ?p (unat (pf_data_size f))"
      using less.prems(3) by (auto simp: mapped_def)
    have sub: "region ?p (unat (pf_data_size f)) \<union> U \<subseteq> ?R"
      using e by auto
    obtain ok sub' m' where c: "func env sub f ?p m = Some (ok, sub', m')"
      and adv: "progress sub ok sub'" and fr: "frame ?R m m'"
      using safe [OF u less.prems(1) assms(3) mp] frame_mono [OF _ sub] by (auto elim!: runE)
    obtain n' where n': "load32 m' pSize = Some n'"
      using run_loads(3) [of m' pSize "\<lambda>_. True"] less.prems(2) fr by (auto elim: runE)
    obtain m'' where m'': "store32 m' pSize (n' + 1) = Some m''" and "frame ?R m' m''"
      using run_stores(3) [of m' pSize ?R "frame ?R m'" "n' + 1"] less.prems(2) fr
      by (auto elim!: runE)
    then have fr2: "frame ?R m m''" using fr frame_trans by blast
    have "run (packed_loop func env f pData pSize sub' m'')
        (\<lambda>(ok, sub', m'). iadv sub sub' \<and> frame ?R m m')" if ok
      by (rule run_mono3 [OF less.hyps])
        (use that adv fr2 less.prems iadv_valid in \<open>auto intro: iadv_trans frame_trans\<close>)
    with n True c n' m'' adv fr show ?thesis
      by (subst packed_loop.simps) (auto simp: run_simps)
  qed
qed

end

subsection \<open>The field decoders keep the contract\<close>

lemma run_store_signed:
  assumes "mapped m dest (unat ds)"
  shows "run (store_signed m dest ds v) (\<lambda>(r, m'). frame (region dest (unat ds)) m m')"
  using assms by (auto simp: store_signed_def run_simps intro!: run_stores)

lemma run_store_unsigned:
  assumes "mapped m dest (unat ds)"
  shows "run (store_unsigned m dest ds v) (\<lambda>(r, m'). frame (region dest (unat ds)) m m')"
  using assms by (auto simp: store_unsigned_def run_simps intro!: run_stores)

lemma check_clamped_safe:
  assumes "run r (\<lambda>(c, m'). frame (region dest n) m m')"
    and "iadv s s'" and "unat (bytes_left s') < unat (bytes_left s)"
  shows "run (r \<bind> (\<lambda>res. Some (check_clamped s' v res)))
    (\<lambda>(ok, s'', m'). progress s ok s'' \<and> frame (region dest n \<union> U) m m')"
  unfolding run_bind run_Some
  by (rule run_mono2 [OF assms(1)])
    (use assms(2,3) in \<open>auto simp: check_clamped_def split: option.splits elim: frame_mono\<close>)

lemma pb_dec_varint_safe:
  assumes *: "user_ok env U" "ivalid s" "mapped m dest (unat (pf_data_size f))"
  shows "run (pb_dec_varint env s f dest m) (\<lambda>(ok, s', m'). progress s ok s' \<and>
    frame (region dest (unat (pf_data_size f)) \<union> U) m m')"
proof -
  obtain r s' where "pb_decode_varint env s = Some (r, s')" "progress s (r \<noteq> None) s'"
    using run_pb_decode_varint [OF user_ok_reads [OF *(1)] *(2)] by (auto elim!: runE)
  then show ?thesis
    using check_clamped_safe [OF run_store_signed [OF *(3)], of s s']
    by (cases r) (simp_all add: pb_dec_varint_def Let_def split del: if_split)
qed

interpretation varint: safe_decoder env U pb_dec_varint "\<lambda>_. True" for env U
  by unfold_locales (rule pb_dec_varint_safe)

lemma pb_dec_uvarint_safe:
  assumes *: "user_ok env U" "ivalid s" "mapped m dest (unat (pf_data_size f))"
  shows "run (pb_dec_uvarint env s f dest m) (\<lambda>(ok, s', m'). progress s ok s' \<and>
    frame (region dest (unat (pf_data_size f)) \<union> U) m m')"
proof -
  obtain r s' where "pb_decode_varint env s = Some (r, s')" "progress s (r \<noteq> None) s'"
    using run_pb_decode_varint [OF user_ok_reads [OF *(1)] *(2)] by (auto elim!: runE)
  then show ?thesis
    using check_clamped_safe [OF run_store_unsigned [OF *(3)], of s s']
    by (cases r) (simp_all add: pb_dec_uvarint_def Let_def split del: if_split)
qed

interpretation uvarint: safe_decoder env U pb_dec_uvarint "\<lambda>_. True" for env U
  by unfold_locales (rule pb_dec_uvarint_safe)

lemma pb_dec_svarint_safe:
  assumes *: "user_ok env U" "ivalid s" "mapped m dest (unat (pf_data_size f))"
  shows "run (pb_dec_svarint env s f dest m) (\<lambda>(ok, s', m'). progress s ok s' \<and>
    frame (region dest (unat (pf_data_size f)) \<union> U) m m')"
proof -
  obtain r s' where "pb_decode_svarint env s = Some (r, s')" "progress s (r \<noteq> None) s'"
    using run_pb_decode_svarint [OF user_ok_reads [OF *(1)] *(2)] by (auto elim!: runE)
  then show ?thesis
    using check_clamped_safe [OF run_store_signed [OF *(3)], of s s']
    by (cases r) (simp_all add: pb_dec_svarint_def Let_def split del: if_split)
qed

interpretation svarint: safe_decoder env U pb_dec_svarint "\<lambda>_. True" for env U
  by unfold_locales (rule pb_dec_svarint_safe)

lemma pb_dec_fixed32_safe:
  assumes *: "user_ok env U" "ivalid s" "fits32 f" "mapped m dest (unat (pf_data_size f))"
  shows "run (pb_dec_fixed32 env s f dest m) (\<lambda>(ok, s', m'). progress s ok s' \<and>
    frame (region dest (unat (pf_data_size f)) \<union> U) m m')"
proof -
  from * have "mapped m dest 4" "region dest 4 \<subseteq> region dest (unat (pf_data_size f)) \<union> U"
    using mapped_sub [of m dest _ dest 4] region_subset [of dest dest 4]
    by (auto simp: fits32_def)
  then show ?thesis
    unfolding pb_dec_fixed32_def run_bind
    by (intro run_mono2 [OF run_pb_decode_fixed32 [OF user_ok_reads [OF *(1)] *(2)]])
      (auto simp: run_simps split: option.splits intro!: run_stores elim: frame_mono)
qed

interpretation fixed32: safe_decoder env U pb_dec_fixed32 "fits32" for env U
  by unfold_locales (rule pb_dec_fixed32_safe)

lemma pb_dec_fixed64_safe:
  assumes *: "user_ok env U" "ivalid s" "fits64 f" "mapped m dest (unat (pf_data_size f))"
  shows "run (pb_dec_fixed64 env s f dest m) (\<lambda>(ok, s', m'). progress s ok s' \<and>
    frame (region dest (unat (pf_data_size f)) \<union> U) m m')"
proof -
  from * have "mapped m dest 8" "region dest 8 \<subseteq> region dest (unat (pf_data_size f)) \<union> U"
    using mapped_sub [of m dest _ dest 8] region_subset [of dest dest 8]
    by (auto simp: fits64_def)
  then show ?thesis
    unfolding pb_dec_fixed64_def run_bind
    by (intro run_mono2 [OF run_pb_decode_fixed64 [OF user_ok_reads [OF *(1)] *(2)]])
      (auto simp: run_simps split: option.splits intro!: run_stores elim: frame_mono)
qed

interpretation fixed64: safe_decoder env U pb_dec_fixed64 "fits64" for env U
  by unfold_locales (rule pb_dec_fixed64_safe)

lemma run_pb_read_to:
  assumes "reads_ok env" and "ivalid s" and "mapped m dest (unat count)"
    and "region dest (unat count) \<subseteq> R"
  shows "run (pb_read_to env s dest count m) (\<lambda>(ok, s', m'). iadv s s' \<and> frame R m m')"
proof -
  obtain ok got s' where r: "pb_read env s count = Some (ok, got, s')" and adv: "iadv s s'"
    and len: "length got \<le> unat count"
    using run_pb_read [OF assms(1,2), of count] by (auto elim!: runE)
  have "region dest (length got) \<subseteq> region dest (unat count)"
    using len by (rule region_mono)
  then have "mapped m dest (length got)" "region dest (length got) \<subseteq> R"
    using assms(3,4) by (auto simp: mapped_def)
  with r adv show ?thesis
    by (auto simp: pb_read_to_def run_simps intro!: run_store_bytes elim: frame_mono)
qed

lemma pb_dec_bytes_safe:
  assumes *: "user_ok env U" "ivalid s" "mapped m dest (unat (pf_data_size f))"
  shows "run (pb_dec_bytes env s f dest m) (\<lambda>(ok, s', m'). progress s ok s' \<and>
    frame (region dest (unat (pf_data_size f)) \<union> U) m m')"
proof -
  let ?R = "region dest (unat (pf_data_size f)) \<union> U"
  obtain r s' where r: "pb_decode_varint32 env s = Some (r, s')" and adv: "progress s (r \<noteq> None) s'"
    using run_pb_decode_varint32 [OF user_ok_reads [OF *(1)] *(2)] by (auto elim!: runE)
  then have v: "ivalid s'" using iadv_valid *(2) by blast
  have body: "run (store32 m (dest + bytes_size_off) n \<bind>
      (\<lambda>m'. pb_read_to env s' (dest + bytes_bytes_off) (ucast n) m'))
      (\<lambda>(ok, s'', m'). iadv s' s'' \<and> frame ?R m m')"
    if "\<not> ucast (pf_data_size f) < PB_BYTES_ARRAY_T_ALLOCSIZE n" for n
  proof -
    have "unat n + 4 \<le> unat (pf_data_size f)"
    proof -
      have "unat n < 2 ^ 32" by (rule unat32_less)
      then have "unat (PB_BYTES_ARRAY_T_ALLOCSIZE n) = unat n + 4"
        by (simp add: PB_BYTES_ARRAY_T_ALLOCSIZE_def unat_word_ariths)
      with that show ?thesis by (simp add: word_less_nat_alt)
    qed
    then have "region dest 4 \<subseteq> region dest (unat (pf_data_size f))"
      and "region (dest + 4) (unat n) \<subseteq> region dest (unat (pf_data_size f))"
      by (simp_all add: region_mono region_after)
    then have m4: "mapped m dest 4" and mn: "mapped m (dest + 4) (unat n)"
      and r4: "region dest 4 \<subseteq> ?R" and rn: "region (dest + 4) (unat n) \<subseteq> ?R"
      using *(3) by (auto simp: mapped_def)
    show ?thesis
      unfolding run_bind struct_off_defs add_0_right
      by (rule run_stores(3) [OF m4 r4])
        (use mn rn in \<open>auto intro!: run_mono3 [OF run_pb_read_to [OF user_ok_reads [OF *(1)] v, where R = ?R]]
          intro: frame_trans\<close>)
  qed
  have "run (store32 m (dest + bytes_size_off) n \<bind>
      (\<lambda>m'. pb_read_to env s' (dest + bytes_bytes_off) (ucast n) m'))
      (\<lambda>(ok, s'', m'). progress s ok s'' \<and> frame ?R m m')"
    if "\<not> ucast (pf_data_size f) < PB_BYTES_ARRAY_T_ALLOCSIZE n" "r \<noteq> None" for n
    by (rule run_mono3 [OF body [OF that(1)]])
      (use adv that(2) in \<open>auto intro: iadv_trans dest: iadv_left\<close>)
  with r adv show ?thesis
    by (auto simp: pb_dec_bytes_def Let_def split: option.splits)
qed

interpretation bytes: safe_decoder env U pb_dec_bytes "\<lambda>_. True" for env U
  by unfold_locales (rule pb_dec_bytes_safe)

lemma pb_dec_string_safe:
  assumes *: "user_ok env U" "ivalid s" "mapped m dest (unat (pf_data_size f))"
  shows "run (pb_dec_string env s f dest m) (\<lambda>(ok, s', m'). progress s ok s' \<and>
    frame (region dest (unat (pf_data_size f)) \<union> U) m m')"
proof -
  let ?R = "region dest (unat (pf_data_size f)) \<union> U"
  obtain r s' where r: "pb_decode_varint32 env s = Some (r, s')" and adv: "progress s (r \<noteq> None) s'"
    using run_pb_decode_varint32 [OF user_ok_reads [OF *(1)] *(2)] by (auto elim!: runE)
  then have v: "ivalid s'" using iadv_valid *(2) by blast
  have body: "run (pb_read_to env s' dest (ucast n) m \<bind>
      (\<lambda>(status, s'', m'). store8 m' (dest + uint n) 0 \<bind> (\<lambda>m''. Some (status, s'', m''))))
      (\<lambda>(ok, s'', m'). iadv s' s'' \<and> frame ?R m m')"
    if "\<not> ucast (n + 1) < (ucast n :: size_t)" "\<not> ucast (pf_data_size f) < (ucast (n + 1) :: size_t)"
    for n :: "32 word"
  proof -
    have "unat (n + 1) = unat n + 1"
    proof (rule ccontr)
      assume "unat (n + 1) \<noteq> unat n + 1"
      then have "n + 1 = 0" by (metis Suc_eq_plus1 unatSuc add.commute)
      then have "n = - 1" by (simp add: eq_neg_iff_add_eq_0)
      with that(1) show False by (simp add: word_less_nat_alt unsigned_eq_0_iff)
    qed
    with that(2) have le: "Suc (unat n) \<le> unat (pf_data_size f)"
      by (simp add: word_less_nat_alt)
    have "region (dest + uint n) 1 \<subseteq> region dest (unat (pf_data_size f))"
      unfolding uint_nat by (rule region_byte [OF le])
    with region_mono [OF Suc_leD [OF le], of dest] have mn: "mapped m dest (unat n)" and m1: "mapped m (dest + uint n) 1"
      and rn: "region dest (unat n) \<subseteq> ?R" and r1: "region (dest + uint n) 1 \<subseteq> ?R"
      using *(3) by (auto simp: mapped_def)
    show ?thesis
      unfolding run_bind
      by (rule run_mono3 [OF run_pb_read_to [OF user_ok_reads [OF *(1)] v, where R = ?R]])
        (use mn rn m1 r1 in \<open>auto simp: run_simps intro!: run_stores(1) [where R = ?R] intro: frame_trans\<close>)
  qed
  have "run (pb_read_to env s' dest (ucast n) m \<bind>
      (\<lambda>(status, s'', m'). store8 m' (dest + uint n) 0 \<bind> (\<lambda>m''. Some (status, s'', m''))))
      (\<lambda>(ok, s'', m'). progress s ok s'' \<and> frame ?R m m')"
    if "\<not> ucast (n + 1) < (ucast n :: size_t)" "\<not> ucast (pf_data_size f) < (ucast (n + 1) :: size_t)"
      "r \<noteq> None" for n :: "32 word"
    by (rule run_mono3 [OF body [OF that(1,2)]])
      (use adv that(3) in \<open>auto intro: iadv_trans dest: iadv_left\<close>)
  with r adv show ?thesis
    by (auto simp: pb_dec_string_def Let_def split: option.splits)
qed

interpretation str: safe_decoder env U pb_dec_string "\<lambda>_. True" for env U
  by unfold_locales (rule pb_dec_string_safe)

lemma pb_dec_fixed_length_bytes_safe:
  assumes *: "user_ok env U" "ivalid s" "mapped m dest (unat (pf_data_size f))"
  shows "run (pb_dec_fixed_length_bytes env s f dest m) (\<lambda>(ok, s', m'). progress s ok s' \<and>
    frame (region dest (unat (pf_data_size f)) \<union> U) m m')"
proof -
  let ?R = "region dest (unat (pf_data_size f)) \<union> U"
  obtain r s' where r: "pb_decode_varint32 env s = Some (r, s')" and adv: "progress s (r \<noteq> None) s'"
    using run_pb_decode_varint32 [OF user_ok_reads [OF *(1)] *(2)] by (auto elim!: runE)
  then have v: "ivalid s'" using iadv_valid *(2) by blast
  have "run (pb_read_to env s' dest (ucast (pf_data_size f)) m)
      (\<lambda>(ok, s'', m'). progress s ok s'' \<and> frame ?R m m')" if "r \<noteq> None"
    by (rule run_mono3 [OF run_pb_read_to [OF user_ok_reads [OF *(1)] v, where R = ?R]])
      (use * adv that in \<open>auto intro: iadv_trans dest: iadv_left\<close>)
  with r adv *(3) show ?thesis
    by (auto simp: pb_dec_fixed_length_bytes_def run_simps split: option.splits
        intro!: run_store_bytes [where R = ?R])
qed

interpretation fixed_bytes: safe_decoder env U pb_dec_fixed_length_bytes "\<lambda>_. True" for env U
  by unfold_locales (rule pb_dec_fixed_length_bytes_safe)


subsection \<open>The contract of the decoder for nested messages\<close>

lemma inside_region: "inside n off k \<Longrightarrow> region (dest + off) k \<subseteq> region dest n"
  by (rule region_subset) (auto simp: inside_def)

lemma inside_mapped: "inside n off k \<Longrightarrow> mapped m dest n \<Longrightarrow> mapped m (dest + off) k"
  using inside_region [of n off k dest] by (auto simp: mapped_def)

lemma ltype_cases:
  assumes "lt < PB_LTYPES_COUNT" and "lt \<noteq> PB_LTYPE_EXTENSION"
  shows "lt = PB_LTYPE_VARINT \<or> lt = PB_LTYPE_UVARINT \<or> lt = PB_LTYPE_SVARINT \<or>
    lt = PB_LTYPE_FIXED32 \<or> lt = PB_LTYPE_FIXED64 \<or> lt = PB_LTYPE_BYTES \<or>
    lt = PB_LTYPE_STRING \<or> lt = PB_LTYPE_SUBMESSAGE \<or> lt = PB_LTYPE_FIXED_LENGTH_BYTES"
proof -
  have "unat lt < 10" using assms(1) by (simp add: ltype_defs word_less_nat_alt)
  then have "lt \<in> {0, 1, 2, 3, 4, 5, 6, 7, 8, 9}"
    unfolding insert_iff empty_iff word_unat_eq_iff by auto
  with assms(2) show ?thesis by (auto simp: ltype_defs)
qed

locale nested_decoder =
  fixes env :: "('i, 'o) pb_env" and U :: "addr set" and ni :: "'i noinit" and sd :: set_defaults
    and wfm :: "nat \<Rightarrow> pb_field_t list \<Rightarrow> bool"
  assumes ni_safe: "user_ok env U \<Longrightarrow> ivalid s \<Longrightarrow> wfm n fs \<Longrightarrow> mapped m dest n \<Longrightarrow>
      run (ni s fs dest m) (\<lambda>(ok, s', m'). iadv s s' \<and> frame (region dest n \<union> U) m m')"
    and sd_safe: "wfm n fs \<Longrightarrow> mapped m dest n \<Longrightarrow>
      run (sd fs dest m) (\<lambda>m'. frame (region dest n) m m')"
begin

lemma submessage_safe:
  assumes u: "user_ok env U" and v: "ivalid s" and f: "sub_ok wfm env f"
    and mp: "mapped m dest (unat (pf_data_size f))"
  shows "run (pb_dec_submessage ni sd env s f dest m) (\<lambda>(ok, s', m'). progress s ok s' \<and>
    frame (region dest (unat (pf_data_size f)) \<union> U) m m')"
proof -
  let ?R = "region dest (unat (pf_data_size f)) \<union> U"
  from f obtain i where i: "pf_ptr f = PtrFields i"
    and w: "wfm (unat (pf_data_size f)) (descs env i)"
    by (auto simp: sub_ok_def split: pb_ptr.splits)
  obtain r s' where r: "pb_make_string_substream env s = Some (r, s')" and adv: "iadv s s'"
    and sub: "\<And>sub. r = Some sub \<Longrightarrow> ivalid sub \<and> sub_of s sub s'"
    using run_pb_make_string_substream [OF user_ok_reads [OF u] v]
    by (auto elim!: runE split: option.splits)
  obtain m' where m': "(if PB_HTYPE (pf_type f) = PB_HTYPE_REPEATED
      then sd (descs env i) dest m else Some m) = Some m'" and fr: "frame ?R m m'"
    using sd_safe [OF w mp]
    by (cases "PB_HTYPE (pf_type f) = PB_HTYPE_REPEATED") (auto elim!: runE intro: frame_Un1)
  show ?thesis
  proof (cases r)
    case None
    with r adv show ?thesis by (simp add: pb_dec_submessage_def)
  next
    case (Some t)
    obtain st t' m'' where d: "ni t (descs env i) dest m' = Some (st, t', m'')"
      and t': "iadv t t'" and fr': "frame ?R m' m''"
      using ni_safe [OF u _ w, of t m' dest] sub [OF Some] fr mp by (auto elim!: runE)
    have "run (pb_close_string_substream env s' t')
        (\<lambda>(ok, s''). iadv s s'' \<and> unat (bytes_left s'') < unat (bytes_left s))"
      using run_pb_close_string_substream [OF user_ok_reads [OF u] _ t'] sub [OF Some] by blast
    with r Some i m' d frame_trans [OF fr fr'] show ?thesis
      by (auto simp: pb_dec_submessage_def ptr_fields_def run_simps elim!: run_mono2)
  qed
qed

end

sublocale nested_decoder \<subseteq> submessage: safe_decoder env U "pb_dec_submessage ni sd" "sub_ok wfm env"
  by unfold_locales (rule submessage_safe)

context nested_decoder
begin

lemma table_safe:
  assumes "user_ok env U" and "ivalid s" and "ltype_ok wfm env f" and "PB_LTYPE (pf_type f) = lt"
    and "mapped m dest (unat (pf_data_size f))"
  shows "run (PB_DECODERS ni sd lt env s f dest m) (\<lambda>(ok, s', m'). progress s ok s' \<and>
    frame (region dest (unat (pf_data_size f)) \<union> U) m m')"
proof -
  note s = varint.safe uvarint.safe svarint.safe fixed32.safe fixed64.safe bytes.safe str.safe
    fixed_bytes.safe submessage.safe
  note s = s [OF assms(1,2) _ assms(5)]
  from assms(3,4) have lt: "lt < PB_LTYPES_COUNT" "lt \<noteq> PB_LTYPE_EXTENSION"
    and "lt = PB_LTYPE_FIXED32 \<Longrightarrow> fits32 f" "lt = PB_LTYPE_FIXED64 \<Longrightarrow> fits64 f"
      "lt = PB_LTYPE_SUBMESSAGE \<Longrightarrow> sub_ok wfm env f"
    by (auto simp: ltype_ok_def Let_def)
  then show ?thesis
    using ltype_cases [OF lt] s by (elim disjE) (simp_all add: PB_DECODERS_def ltype_defs)
qed

end

sublocale nested_decoder \<subseteq> table: safe_decoder env U "PB_DECODERS ni sd lt"
  "\<lambda>f. ltype_ok wfm env f \<and> PB_LTYPE (pf_type f) = lt" for lt
  by unfold_locales (rule table_safe, simp_all)


subsection \<open>Fields of a struct\<close>

context nested_decoder
begin

lemma call_safe:
  assumes u: "user_ok env U" and v: "ivalid s" and lt: "ltype_ok wfm env f"
    and sub: "region p (unat (pf_data_size f)) \<subseteq> region dest n" and mp: "mapped m dest n"
    and fr: "frame (region dest n \<union> U) m m'"
  shows "run (PB_DECODERS ni sd (PB_LTYPE (pf_type f)) env s f p m')
    (\<lambda>(ok, s', m''). iadv s s' \<and> frame (region dest n \<union> U) m m'')"
proof -
  have "mapped m' p (unat (pf_data_size f))"
    using sub mp fr by (auto simp: mapped_def frame_def)
  from table_safe [OF u v lt refl this] show ?thesis
    by (rule run_mono3) (use sub fr in \<open>auto intro: frame_trans elim!: frame_mono\<close>)
qed

lemma repeated_safe:
  assumes u: "user_ok env U" and v: "ivalid s" and lt: "ltype_ok wfm env f"
    and data: "inside n doff (unat (pf_data_size f) * unat (pf_array_size f))"
    and wrap: "unat (pf_data_size f) * unat (pf_array_size f) < 2 ^ 32"
    and cnt: "inside n soff 4" and mp: "mapped m dest n"
    and it: "iter_field it = Some f" "it_pData it = dest + doff" "it_pSize it = dest + soff"
    and h: "PB_HTYPE (pf_type f) = PB_HTYPE_REPEATED"
  shows "run (decode_static_field ni sd env s wt it m)
    (\<lambda>(ok, s', m'). iadv s s' \<and> frame (region dest n \<union> U) m m')"
proof (cases "wt = PB_WT_STRING \<and> PB_LTYPE (pf_type f) \<le> PB_LTYPE_LAST_PACKABLE")
  case True
  let ?func = "PB_DECODERS ni sd (PB_LTYPE (pf_type f))"
  obtain r s' where r: "pb_make_string_substream env s = Some (r, s')" and adv: "iadv s s'"
    and sub: "\<And>sub. r = Some sub \<Longrightarrow> ivalid sub \<and> sub_of s sub s'"
    using run_pb_make_string_substream [OF user_ok_reads [OF u] v]
    by (auto elim!: runE split: option.splits)
  have loop: "run (packed_loop ?func env f (dest + doff) (dest + soff) t m)
      (\<lambda>(ok, t', m'). iadv t t' \<and> frame (region dest n \<union> U) m m')" if "r = Some t" for t
    by (rule run_mono3 [OF table.packed_loop_safe])
      (use that u lt sub inside_mapped [OF data mp] inside_mapped [OF cnt mp] wrap
        inside_region [OF data, of dest] inside_region [OF cnt, of dest]
        in \<open>auto elim!: frame_mono\<close>)
  have "run (pb_close_string_substream env s' t') (\<lambda>(ok, s''). iadv s s'')"
    if "r = Some t" "iadv t t'" for t t'
    by (rule run_mono2 [OF run_pb_close_string_substream [OF user_ok_reads [OF u] _ that(2)]])
      (use sub [OF that(1)] in auto)
  with r True it h adv loop show ?thesis
    by (auto simp: decode_static_field_def htype_defs run_simps Let_def split: option.splits
        elim!: run_mono3 run_mono2 runE)
next
  case False
  obtain k where k: "load32 m (dest + soff) = Some k"
    using run_loads(3) [OF inside_mapped [OF cnt mp], of "\<lambda>_. True"] by (auto elim: runE)
  have "run (store32 m (dest + soff) (k + 1) \<bind>
      (\<lambda>m'. PB_DECODERS ni sd (PB_LTYPE (pf_type f)) env s f
         (dest + doff + uint (pf_data_size f * k)) m'))
      (\<lambda>(ok, s', m'). iadv s s' \<and> frame (region dest n \<union> U) m m')" if "k < pf_array_size f"
    unfolding run_bind
    by (rule run_stores(3) [OF inside_mapped [OF cnt mp], where R = "region dest n \<union> U"])
      (use inside_region [OF cnt, of dest] inside_region [OF data, of dest] mp
          table.entry_region [OF that wrap, of "dest + doff"]
        in \<open>auto intro!: call_safe [OF u v lt]\<close>)
  with False k it h show ?thesis
    by (auto simp: decode_static_field_def htype_defs Let_def not_le)
qed

lemma oneof_safe:
  assumes u: "user_ok env U" and v: "ivalid s" and lt: "ltype_ok wfm env f"
    and data: "inside n doff (unat (pf_data_size f))" and cnt: "inside n soff 4"
    and mp: "mapped m dest n"
    and it: "iter_field it = Some f" "it_pData it = dest + doff" "it_pSize it = dest + soff"
    and h: "PB_HTYPE (pf_type f) = PB_HTYPE_ONEOF"
  shows "run (decode_static_field ni sd env s wt it m)
    (\<lambda>(ok, s', m'). iadv s s' \<and> frame (region dest n \<union> U) m m')"
proof -
  let ?R = "region dest n \<union> U" and ?zeros = "replicate (unat (pf_data_size f)) (0 :: byte)"
  obtain m1 where m1: "store32 m (dest + soff) (pf_tag f) = Some m1" and fr1: "frame ?R m m1"
    using run_stores(3) [OF inside_mapped [OF cnt mp], of ?R "frame ?R m"]
      inside_region [OF cnt, of dest] by (auto elim!: runE)
  have "mapped m1 (dest + doff) (unat (pf_data_size f))"
    using inside_mapped [OF data, of m1 dest] fr1 mp by simp
  from store_bytes_effect [of m1 "dest + doff" ?zeros] this obtain m2 where
    m2: "store_bytes m1 (dest + doff) ?zeros = Some m2"
    and "frame (region (dest + doff) (unat (pf_data_size f))) m1 m2" by auto
  then have fr2: "frame ?R m m2"
    using fr1 inside_region [OF data, of dest] by (auto intro: frame_trans elim!: frame_mono)
  have sub: "\<exists>i m3. pf_ptr f = PtrFields i \<and> sd (descs env i) (dest + doff) m2 = Some m3 \<and>
      frame ?R m m3" if s: "PB_LTYPE (pf_type f) = PB_LTYPE_SUBMESSAGE"
  proof -
    obtain i where i: "pf_ptr f = PtrFields i" "wfm (unat (pf_data_size f)) (descs env i)"
      using lt s by (auto simp: ltype_ok_def Let_def sub_ok_def split: pb_ptr.splits)
    have "mapped m2 (dest + doff) (unat (pf_data_size f))"
      using inside_mapped [OF data, of m2 dest] fr2 mp by simp
    from sd_safe [OF i(2) this] i(1) fr2 show ?thesis
      using inside_region [OF data, of dest] by (auto elim!: runE intro: frame_trans_sub)
  qed
  have call: "run (PB_DECODERS ni sd (PB_LTYPE (pf_type f)) env s f (dest + doff) m')
      (\<lambda>(ok, s', m''). iadv s s' \<and> frame ?R m m'')" if "frame ?R m m'" for m'
    using call_safe [OF u v lt inside_region [OF data] mp that] .
  show ?thesis
  proof (cases "PB_LTYPE (pf_type f) = PB_LTYPE_SUBMESSAGE")
    case True
    from sub [OF this] obtain i m3 where "pf_ptr f = PtrFields i"
      "sd (descs env i) (dest + doff) m2 = Some m3" "frame ?R m m3" by blast
    with True m1 m2 it h call show ?thesis
      by (simp add: decode_static_field_def htype_defs Let_def ptr_fields_def)
  next
    case False
    with m1 it h call [OF fr1] show ?thesis
      by (simp add: decode_static_field_def htype_defs Let_def)
  qed
qed

lemma static_safe:
  assumes u: "user_ok env U" and v: "ivalid s" and f: "field_ok wfm env n f doff soff"
    and mp: "mapped m dest n"
    and it: "iter_field it = Some f" "it_pData it = dest + doff" "it_pSize it = dest + soff"
    and a: "PB_ATYPE (pf_type f) = PB_ATYPE_STATIC"
  shows "run (decode_static_field ni sd env s wt it m)
    (\<lambda>(ok, s', m'). iadv s s' \<and> frame (region dest n \<union> U) m m')"
proof -
  have lt: "ltype_ok wfm env f" using f a by (simp add: field_ok_def Let_def)
  consider (req) "PB_HTYPE (pf_type f) = PB_HTYPE_REQUIRED"
    | (opt) "PB_HTYPE (pf_type f) = PB_HTYPE_OPTIONAL"
    | (rep) "PB_HTYPE (pf_type f) = PB_HTYPE_REPEATED"
    | (one) "PB_HTYPE (pf_type f) = PB_HTYPE_ONEOF"
    using htype_cases by blast
  then show ?thesis
  proof cases
    case req
    then have "inside n doff (unat (pf_data_size f))" using f a by (simp add: field_ok_def Let_def)
    from call_safe [OF u v lt inside_region [OF this] mp frame_refl] it req show ?thesis
      by (simp add: decode_static_field_def Let_def)
  next
    case opt
    then have d: "inside n doff (unat (pf_data_size f))" and c: "soff \<noteq> doff \<longrightarrow> inside n soff 1"
      using f a by (simp_all add: field_ok_def Let_def htype_defs)
    have "run (if it_pSize it \<noteq> it_pData it then store8 m (it_pSize it) 1 else Some m)
        (frame (region dest n \<union> U) m)"
      using c it inside_mapped [of n soff 1 m dest] inside_region [of n soff 1 dest] mp
      by (auto intro!: run_stores(1) [where R = "region dest n \<union> U"])
    with call_safe [OF u v lt inside_region [OF d] mp] it opt show ?thesis
      by (auto simp: decode_static_field_def Let_def htype_defs run_bind elim!: run_mono)
  next
    case rep
    then show ?thesis
      using f a by (intro repeated_safe [OF u v lt _ _ _ mp it rep])
        (simp_all add: field_ok_def Let_def htype_defs)
  next
    case one
    then show ?thesis
      using f a by (intro oneof_safe [OF u v lt _ _ mp it one])
        (simp_all add: field_ok_def Let_def htype_defs)
  qed
qed

end


subsection \<open>Callback fields\<close>

lemma callback_loop_safe:
  assumes u: "user_ok env U" and fn: "fn \<noteq> 0" and "ivalid sub" and "mapped m arg 8"
  shows "run (callback_loop env fn f arg sub m)
    (\<lambda>(ok, sub', m'). iadv sub sub' \<and> frame (region arg 8 \<union> U) m m')"
  using assms(3,4)
proof (induction "unat (bytes_left sub)" arbitrary: sub m rule: less_induct)
  case less
  obtain ok sub' m' where c: "user_decode env fn sub f arg m = Some (ok, sub', m')"
    and adv: "iadv sub sub'" and fr: "frame (region arg 8 \<union> U) m m'"
    and ok: "ok \<Longrightarrow> bytes_left sub' = 0 \<or> unat (bytes_left sub') < unat (bytes_left sub)"
    using u fn less.prems unfolding user_ok_def by (blast elim: runE)
  have "run (callback_loop env fn f arg sub' m')
      (\<lambda>(ok, sub', m'). iadv sub sub' \<and> frame (region arg 8 \<union> U) m m')"
    if ok "bytes_left sub' \<noteq> 0"
    by (rule run_mono3 [OF less.hyps])
      (use that ok adv fr less.prems iadv_valid in \<open>auto intro: iadv_trans frame_trans\<close>)
  with c adv fr show ?case
    by (subst callback_loop.simps) (auto simp: run_simps)
qed

lemma callback_field_safe:
  assumes u: "user_ok env U" and v: "ivalid s" and d: "inside n doff 16" and mp: "mapped m dest n"
    and it: "iter_field it = Some f" "it_pData it = dest + doff"
  shows "run (decode_callback_field env s wt it m)
    (\<lambda>(ok, s', m'). iadv s s' \<and> frame (region dest n \<union> U) m m')"
proof -
  let ?arg = "dest + doff + 8" and ?R = "region dest n \<union> U"
  note rd = user_ok_reads [OF u]
  have d8: "inside n doff 8" and a8: "inside n (doff + 8) 8" using d by (auto simp: inside_def)
  have arg: "mapped m ?arg 8" "region ?arg 8 \<union> U \<subseteq> ?R"
    using inside_mapped [OF a8 mp] inside_region [OF a8, of dest] by (auto simp: add.assoc)
  obtain fn where fn: "load64 m (dest + doff) = Some fn"
    using run_loads(4) [OF inside_mapped [OF d8 mp], of "\<lambda>_. True"] by (auto elim: runE)
  have loop: "run (callback_loop env fn f ?arg t m) (\<lambda>(ok, t', m'). iadv t t' \<and> frame ?R m m')"
    if "fn \<noteq> 0" "ivalid t" for t
    by (rule run_mono3 [OF callback_loop_safe [OF u that arg(1)]])
      (use arg(2) in \<open>auto elim: frame_mono\<close>)
  have close: "run (pb_close_string_substream env s' t') (\<lambda>(ok, s''). iadv s s'')"
    if "sub_of s t s'" "iadv t t'" "ivalid t" for s' t t'
    by (rule run_mono2 [OF run_pb_close_string_substream [OF rd that]]) auto
  have call: "run (user_decode env fn (pb_istream_from_buffer buf (of_nat (length buf))) f ?arg m)
      (\<lambda>(ok, t', m'). frame ?R m m')" if "fn \<noteq> 0" "length buf \<le> 10" for buf
  proof -
    have "unat (of_nat (length buf) :: size_t) = length buf"
      using that(2) by (simp add: unat_of_nat)
    then have "ivalid (pb_istream_from_buffer buf (of_nat (length buf)))"
      by (simp add: ivalid_def pb_istream_from_buffer_def)
    then have "run (user_decode env fn (pb_istream_from_buffer buf (of_nat (length buf))) f ?arg m)
      (\<lambda>(ok, t', m'). frame (region ?arg 8 \<union> U) m m')"
      using u that(1) arg(1) unfolding user_ok_def by (fast elim: run_mono3)
    then show ?thesis by (rule run_mono3) (use arg(2) in \<open>auto elim: frame_mono\<close>)
  qed
  consider "fn = 0" | "fn \<noteq> 0" "wt = PB_WT_STRING" | "fn \<noteq> 0" "wt \<noteq> PB_WT_STRING" by blast
  then show ?thesis
  proof cases
    case 1
    with fn it run_pb_skip_field [OF rd v, of wt] show ?thesis
      by (auto simp: decode_callback_field_def struct_off_defs run_simps Let_def elim!: run_mono2)
  next
    case 2
    obtain r s' where r: "pb_make_string_substream env s = Some (r, s')" "iadv s s'"
      and sub: "\<And>t. r = Some t \<Longrightarrow> ivalid t \<and> sub_of s t s'"
      using run_pb_make_string_substream [OF rd v] by (auto elim!: runE split: option.splits)
    show ?thesis
    proof (cases r)
      case None
      with 2 fn it r show ?thesis
        by (simp add: decode_callback_field_def struct_off_defs Let_def)
    next
      case (Some t)
      obtain ok t' m' where "callback_loop env fn f ?arg t m = Some (ok, t', m')" "iadv t t'"
        "frame ?R m m'"
        using loop [OF 2(1), of t] sub [OF Some] by (auto elim!: runE)
      with 2 fn it r Some close [of t s' t'] sub [OF Some] show ?thesis
        by (auto simp: decode_callback_field_def struct_off_defs run_simps Let_def
            elim!: run_mono2)
    qed
  next
    case 3
    from run_read_raw_value [OF rd v, of 10 wt] obtain ok buf s' where
      "read_raw_value env s wt 10 = Some (ok, buf, s')" "iadv s s'" "ok \<Longrightarrow> length buf \<le> 10"
      by (auto elim!: runE)
    with 3 fn it call [of buf] show ?thesis
      by (auto simp: decode_callback_field_def struct_off_defs run_simps Let_def elim!: run_mono3)
  qed
qed

context nested_decoder
begin

lemma field_safe:
  assumes u: "user_ok env U" and v: "ivalid s" and f: "field_ok wfm env n f doff soff"
    and mp: "mapped m dest n"
    and it: "iter_field it = Some f" "it_pData it = dest + doff" "it_pSize it = dest + soff"
  shows "run (decode_field ni sd env s wt it m)
    (\<lambda>(ok, s', m'). iadv s s' \<and> frame (region dest n \<union> U) m m')"
proof -
  have cb: "PB_ATYPE (pf_type f) = PB_ATYPE_CALLBACK \<Longrightarrow> inside n doff 16"
    using f by (simp add: field_ok_def Let_def)
  show ?thesis
    using static_safe [OF u v f mp it, of wt] callback_field_safe [OF u v cb mp it(1,2), of wt] it
    by (auto simp: decode_field_def decode_pointer_field_def Let_def)
qed

end

subsection \<open>Setting a message to its defaults\<close>

lemma init_data_safe:
  assumes f: "ltype_ok wfm env f" "default_ok f" and mp: "mapped m p (unat (pf_data_size f))"
    and sd: "\<And>n fs m. wfm n fs \<Longrightarrow> mapped m p n \<Longrightarrow> run (sd fs p m) (frame (region p n) m)"
  shows "run (init_data sd env f p m) (frame (region p (unat (pf_data_size f))) m)"
  using assms
  by (auto simp: init_data_def ltype_ok_def default_ok_def sub_ok_def ptr_fields_def Let_def
      split: pb_ptr.splits intro!: run_store_bytes)

lemma field_default_safe:
  assumes f: "field_ok wfm env n f doff soff" and mp: "mapped m dest n"
    and it: "iter_field it = Some f" "it_pData it = dest + doff" "it_pSize it = dest + soff"
    and sd: "\<And>n fs m p. wfm n fs \<Longrightarrow> mapped m p n \<Longrightarrow>
      run (message_defaults fld fs p m) (frame (region p n) m)"
  shows "run (field_default fld env it m) (frame (region dest n) m)"
proof -
  let ?R = "region dest n" and ?h = "PB_HTYPE (pf_type f)" and ?a = "PB_ATYPE (pf_type f)"
  have noext: "PB_LTYPE (pf_type f) \<noteq> PB_LTYPE_EXTENSION"
    using f by (simp add: field_ok_def Let_def is_extension_def)
  have init: "run (init_data (message_defaults fld) env f (dest + doff) m') (frame ?R m)"
    if "frame ?R m m'" "inside n doff (unat (pf_data_size f))" "default_ok f" "ltype_ok wfm env f"
    for m'
  proof -
    have "mapped m' (dest + doff) (unat (pf_data_size f))"
      using inside_mapped [OF that(2), of m' dest] that(1) mp by simp
    then have "run (init_data (message_defaults fld) env f (dest + doff) m')
        (frame (region (dest + doff) (unat (pf_data_size f))) m')"
      using sd by (intro init_data_safe [OF that(4,3)])
    then show ?thesis
      by (rule run_mono) (use that(1) inside_region [OF that(2), of dest]
          in \<open>auto intro: frame_trans frame_mono\<close>)
  qed
  have st8: "run (store8 m (dest + soff) 0) (frame ?R m)" if "inside n soff 1"
    using inside_mapped [OF that mp] inside_region [OF that, of dest] by (intro run_stores) auto
  have st32: "run (store32 m' (dest + soff) 0) (frame ?R m)" if "inside n soff 4" "frame ?R m m'" for m'
    using inside_mapped [OF that(1), of m' dest] inside_region [OF that(1), of dest] that(2) mp
    by (intro run_stores(3) [where R = ?R]) (auto intro: frame_trans)
  have st64: "run (store64 m (dest + doff) 0) (frame ?R m)" if "inside n doff 8"
    using inside_mapped [OF that mp] inside_region [OF that, of dest] by (intro run_stores) auto
  consider (st) "?a = PB_ATYPE_STATIC" | (pt) "?a = PB_ATYPE_POINTER" "?a \<noteq> PB_ATYPE_STATIC"
    | (no) "?a \<noteq> PB_ATYPE_STATIC" "?a \<noteq> PB_ATYPE_POINTER" by blast
  then show ?thesis
  proof cases
    case st
    then have lt: "ltype_ok wfm env f" using f by (simp add: field_ok_def Let_def)
    consider "?h = PB_HTYPE_REQUIRED" | "?h = PB_HTYPE_OPTIONAL"
      | "?h = PB_HTYPE_REPEATED \<or> ?h = PB_HTYPE_ONEOF"
      using htype_cases by blast
    then show ?thesis
    proof cases
      case 1
      with st f lt it noext init [OF frame_refl] show ?thesis
        by (simp add: field_default_def field_ok_def Let_def htype_defs)
    next
      case 2
      then have d: "inside n doff (unat (pf_data_size f))" "default_ok f"
        and c: "soff \<noteq> doff \<longrightarrow> inside n soff 1"
        using st f by (simp_all add: field_ok_def Let_def htype_defs)
      have "run (store8 m (dest + soff) 0) (\<lambda>m'. run (init_data (message_defaults fld) env f (dest + doff) m') (frame ?R m))"
        if "soff \<noteq> doff"
        using st8 c that init d lt by (blast intro: run_mono)
      with 2 st it noext init [OF frame_refl d lt] show ?thesis
        by (simp add: field_default_def Let_def htype_defs run_bind)
    next
      case 3
      then have "inside n soff 4" using st f by (auto simp: field_ok_def Let_def htype_defs)
      with 3 st it noext st32 [OF _ frame_refl] show ?thesis
        by (auto simp: field_default_def Let_def htype_defs)
    qed
  next
    case pt
    then have d: "inside n doff 8"
      and c: "?h = PB_HTYPE_REPEATED \<or> ?h = PB_HTYPE_ONEOF \<Longrightarrow> inside n soff 4"
      using f by (auto simp: field_ok_def Let_def)
    have "run (store64 m (dest + doff) 0) (\<lambda>m'. run (if ?h = PB_HTYPE_REPEATED \<or> ?h = PB_HTYPE_ONEOF
        then store32 m' (it_pSize it) 0 else Some m') (frame ?R m))"
      using st64 [OF d] by (rule run_mono) (use st32 c it in auto)
    with pt it noext show ?thesis
      by (simp add: field_default_def Let_def run_bind split del: if_split)
  next
    case no
    with it noext show ?thesis by (simp add: field_default_def Let_def)
  qed
qed

lemma message_defaults_safe:
  assumes w: "wf_array fs"
    and f: "list_all (\<lambda>i. field_ok wfm env n (fs ! i) (data_off fs i) (size_off fs i)) [0..<nfields fs]"
    and mp: "mapped m dest n"
    and sd: "\<And>n fs m p. wfm n fs \<Longrightarrow> mapped m p n \<Longrightarrow>
      run (message_defaults fld fs p m) (frame (region p n) m)"
  shows "run (message_defaults (field_default fld env) fs dest m) (frame (region dest n) m)"
proof -
  let ?body = "\<lambda>it m. map_option (Pair True) (field_default fld env it m)"
  have step: "run (?body (iter_of fs dest i) m') (\<lambda>(ok, m''). frame (region dest n) m m'')"
    if "i \<in> set [0..<nfields fs]" "frame (region dest n) m m'" for i m'
    unfolding run_map_option
    by (rule run_mono [OF field_default_safe [OF _ _ _ _ _ sd]])
      (use that f mp in \<open>auto simp: list_all_iff intro: frame_trans\<close>)
  have "run (each_from ?body fs dest [0..<nfields fs] m) (\<lambda>(ok, m'). frame (region dest n) m m')"
    by (rule each_from_run [where I = "frame (region dest n) m"]) (use step in auto)
  then show ?thesis
    using w iter_each_indices [OF w, of 0 ?body dest m]
    by (cases "nfields fs = 0")
      (auto simp: message_defaults_def iter_begin_of run_simps elim!: run_mono2)
qed

lemma set_to_defaults_safe:
  "wf_msg d env n fs \<Longrightarrow> mapped m dest n \<Longrightarrow>
     run (pb_message_set_to_defaults d env fs dest m) (frame (region dest n) m)"
proof (induction d arbitrary: n fs m dest)
  case (Suc d)
  then show ?case
    unfolding pb_message_set_to_defaults_def pb_field_set_to_default.simps
    by (intro message_defaults_safe [where wfm = "wf_msg d env"]) simp_all
qed simp

subsection \<open>The loop over a message\<close>

definition at_ok :: "pb_field_t list \<Rightarrow> nat \<Rightarrow> bool" where
  "at_ok fs i \<longleftrightarrow> i < nfields fs \<or> nfields fs = 0 \<and> i = 0"

lemma scan_any:
  assumes "wf_array fs" and "at_ok fs i"
  shows "\<exists>b j. iter_scan p i (iter_of fs dest i) = Some (b, iter_of fs dest j) \<and> at_ok fs j \<and>
     (b \<longrightarrow> p (fs ! j))"
  using iter_scan_complete [OF assms(1), of i p dest] iter_scan_empty [OF assms(1), of p dest]
    assms(2) unfolding at_ok_def by (metis (full_types))

lemma at_ok_length: "wf_array fs \<Longrightarrow> at_ok fs i \<Longrightarrow> i < length fs"
  using wf_array_nonempty [of fs] by (auto simp: at_ok_def)

lemma mark_seen_safe:
  assumes "length seen = 2" and "idx < PB_MAX_REQUIRED_FIELDS"
  shows "run (mark_seen seen idx) (\<lambda>seen'. length seen' = 2)"
proof -
  have "unat (drop_bit 5 idx) = unat idx div 32"
    by (simp add: drop_bit_eq_div unat_div_distrib)
  moreover have "unat idx < 64" using assms(2) by (simp add: word_less_nat_alt)
  ultimately show ?thesis using assms(1) by (simp add: mark_seen_def Let_def)
qed

lemma decode_tag_bound:
  assumes "pb_decode_tag env s = Some (t, s')"
  shows "\<not> - 1 \<le> tr_tag t"
proof -
  from assms obtain r s1 where r: "pb_decode_varint32 env s = Some (r, s1)"
    by (auto simp: pb_decode_tag_def bind_eq_Some_conv)
  have "tr_tag t = 0 \<or> (\<exists>w. tr_tag t = drop_bit 3 w)"
    using assms r by (cases r) (auto simp: pb_decode_tag_def split: if_splits)
  moreover have "\<not> bit (w :: 32 word) 34" for w using bit_imp_le_length [of w 34] by auto
  ultimately have "\<not> bit (tr_tag t) 31" by (auto simp: bit_simps)
  then have "tr_tag t \<noteq> - 1" by (auto simp: bit_simps)
  then show ?thesis by (simp add: word_order.extremum_unique)
qed

context nested_decoder
begin

text \<open>What every turn of the loop keeps.\<close>

definition loop_inv :: "nat \<Rightarrow> pb_field_t list \<Rightarrow> addr \<Rightarrow> mem \<Rightarrow> 'i dec_state \<Rightarrow> bool" where
  "loop_inv n fs dest m st \<longleftrightarrow> (\<exists>i. at_ok fs i \<and> ds_iter st = iter_of fs dest i) \<and>
     ivalid (ds_stream st) \<and> frame (region dest n \<union> U) m (ds_mem st) \<and> length (ds_seen st) = 2"

definition msg_ok :: "nat \<Rightarrow> pb_field_t list \<Rightarrow> bool" where
  "msg_ok n fs \<longleftrightarrow> wf_array fs \<and> last fs = PB_LAST_FIELD \<and> req_count_ok fs \<and>
     list_all (\<lambda>i. field_ok wfm env n (fs ! i) (data_off fs i) (size_off fs i)) [0..<nfields fs]"

lemma msg_field_ok:
  assumes "msg_ok n fs" and "at_ok fs i"
  shows "field_ok wfm env n (fs ! i) (data_off fs i) (size_off fs i)"
proof (cases "nfields fs = 0")
  case True
  then have "i = 0" using assms(2) by (simp add: at_ok_def)
  moreover have "fs ! 0 = PB_LAST_FIELD"
    using assms(1) True by (metis diff_is_0_eq last_conv_nth msg_ok_def wf_array_def)
  ultimately show ?thesis
    by (simp add: field_ok_def ltype_ok_def default_ok_def inside_def PB_LAST_FIELD_def is_extension_def
        pb_type_defs Let_def)
next
  case False
  with assms show ?thesis by (auto simp: msg_ok_def at_ok_def list_all_iff)
qed

lemma unknown_safe:
  assumes u: "user_ok env U" and ok: "msg_ok n fs" and j: "at_ok fs j"
    and it: "ds_iter st = iter_of fs dest j" and tag: "\<not> - 1 \<le> tag"
    and v: "ivalid (ds_stream st)" and fr: "frame (region dest n \<union> U) m (ds_mem st)"
    and len: "length (ds_seen st) = 2"
  shows "run (handle_unknown ni sd env tag wt st)
    (\<lambda>(r, st'). loop_inv n fs dest m st' \<and> iadv (ds_stream st) (ds_stream st'))"
proof -
  have w: "wf_array fs" using ok by (simp add: msg_ok_def)
  have noext: "\<not> is_extension (fs ! k)" if "at_ok fs k" for k
    using msg_field_ok [OF ok that] by (simp add: field_ok_def Let_def)
  from scan_any [OF w j, of is_extension dest] noext obtain k where
    k: "find_extension_field (iter_of fs dest j) = Some (False, iter_of fs dest k)" "at_ok fs k"
    by (auto simp: find_extension_field_def)
  have skip: "run (pb_skip_field env (ds_stream st) wt)
      (\<lambda>(ok, s'). iadv (ds_stream st) s' \<and> ivalid s')"
    by (rule run_mono2 [OF run_pb_skip_field [OF user_ok_reads [OF u] v]])
      (use v in \<open>auto intro: iadv_valid\<close>)
  show ?thesis
    using k it j tag fr len skip
    by (auto simp: handle_unknown_def loop_inv_def run_simps Let_def elim!: run_mono2)
qed

lemma step_safe:
  assumes u: "user_ok env U" and ok: "msg_ok n fs" and mp: "mapped m dest n"
    and inv: "loop_inv n fs dest m st"
  shows "run (decode_step ni sd env st) (\<lambda>(r, st'). loop_inv n fs dest m st' \<and>
     progress (ds_stream st) (r = None) (ds_stream st'))"
proof -
  note rd = user_ok_reads [OF u]
  have w: "wf_array fs" using ok by (simp add: msg_ok_def)
  from inv obtain i where i: "at_ok fs i" "ds_iter st = iter_of fs dest i"
    and v: "ivalid (ds_stream st)" and fr: "frame (region dest n \<union> U) m (ds_mem st)"
    and len: "length (ds_seen st) = 2"
    by (auto simp: loop_inv_def)
  from run_pb_decode_tag [OF rd v] obtain t s where
    t: "pb_decode_tag env (ds_stream st) = Some (t, s)" and
    adv: "progress (ds_stream st) (tr_ok t) s" by (auto elim!: runE)
  then have vs: "ivalid s" using iadv_valid v by blast
  from scan_any [OF w i(1), of "tag_matches (tr_tag t)" dest] obtain b j where
    find: "pb_field_iter_find (iter_of fs dest i) (tr_tag t) = Some (b, iter_of fs dest j)"
    and j: "at_ok fs j" by (auto simp: pb_field_iter_find_def)
  have jl: "j < length fs" by (rule at_ok_length [OF w j])
  have "run (decode_step ni sd env st) (\<lambda>(r, st'). loop_inv n fs dest m st' \<and> iadv s (ds_stream st'))"
    if tok: "tr_ok t"
  proof (cases b)
    case False
    let ?st = "st\<lparr>ds_stream := s, ds_iter := iter_of fs dest j\<rparr>"
    have "run (handle_unknown ni sd env (tr_tag t) (tr_wire_type t) ?st)
        (\<lambda>(r, st'). loop_inv n fs dest m st' \<and> iadv s (ds_stream st'))"
      using unknown_safe [OF u ok j _ decode_tag_bound [OF t], of ?st dest m "tr_wire_type t"] fr len vs
      by simp
    with False t tok i find show ?thesis by (simp add: decode_step_def)
  next
    case True
    obtain seen where seen: "(if PB_HTYPE (pf_type (fs ! j)) = PB_HTYPE_REQUIRED \<and>
          word_of_nat (req_index fs j) < PB_MAX_REQUIRED_FIELDS
        then mark_seen (ds_seen st) (word_of_nat (req_index fs j))
        else Some (ds_seen st)) = Some seen" "length seen = 2"
      using mark_seen_safe [OF len, of "word_of_nat (req_index fs j)"] len
      by (cases "PB_HTYPE (pf_type (fs ! j)) = PB_HTYPE_REQUIRED \<and>
          word_of_nat (req_index fs j) < PB_MAX_REQUIRED_FIELDS") (auto elim!: runE)
    have "run (decode_field ni sd env s (tr_wire_type t) (iter_of fs dest j) (ds_mem st))
        (\<lambda>(ok, s', m'). iadv s s' \<and> frame (region dest n \<union> U) (ds_mem st) m')"
      by (rule field_safe [OF u vs msg_field_ok [OF ok j]]) (use mp fr jl in simp_all)
    then obtain b s' m' where "decode_field ni sd env s (tr_wire_type t) (iter_of fs dest j) (ds_mem st) =
        Some (b, s', m')" "iadv s s'" "frame (region dest n \<union> U) m m'" "ivalid s'"
      using fr vs by (auto elim!: runE intro: frame_trans iadv_valid)
    with True t tok i find jl seen j show ?thesis
      by (simp add: decode_step_def loop_inv_def Let_def split del: if_split) auto
  qed
  then show ?thesis
    using t adv inv vs i fr len
    by (cases "tr_ok t")
      (auto simp: decode_step_def loop_inv_def elim!: run_mono2 intro: iadv_trans dest: iadv_left)
qed

end

subsection \<open>The check for required fields\<close>

lemma req_count_at:
  assumes w: "wf_array fs" and i: "i < nfields fs"
  shows "req_count_loop (iter_of fs dest i) = Some (of_nat (req_index fs (nfields fs - 1)),
    pf_type (fs ! (nfields fs - 1)), iter_of fs dest 0)"
  using i
proof (induction "nfields fs - i" arbitrary: i)
  case (Suc k)
  have l: "i < length fs" using Suc.prems by simp
  show ?case
  proof (cases "Suc i < nfields fs")
    case True
    have "k = nfields fs - Suc i" using Suc.hyps(2) by simp
    with Suc.hyps(1) True have "req_count_loop (iter_of fs dest (Suc i)) =
        Some (of_nat (req_index fs (nfields fs - 1)), pf_type (fs ! (nfields fs - 1)), iter_of fs dest 0)"
      by blast
    with True l show ?thesis
      by (subst req_count_loop.simps) (simp add: iter_next_of [OF w Suc.prems])
  next
    case False
    then have "nfields fs - 1 = i" using Suc.prems by linarith
    with False l show ?thesis
      by (subst req_count_loop.simps) (simp add: iter_next_of [OF w Suc.prems])
  qed
qed simp

text \<open>The loop and the correction after it count the required fields of the message type.\<close>

lemma req_count_correct:
  assumes w: "wf_array fs" and e: "last fs = PB_LAST_FIELD" and i: "at_ok fs i"
  shows "\<exists>n ty. req_count_loop (iter_of fs dest i) = Some (n, ty, iter_of fs dest 0) \<and>
    (if PB_HTYPE ty = PB_HTYPE_REQUIRED \<and> pf_tag (fs ! 0) \<noteq> 0 then n + 1 else n) =
      of_nat (req_index fs (nfields fs))"
proof (cases "nfields fs = 0")
  case True
  have l: "0 < length fs" by (rule wf_array_nonempty [OF w])
  have z: "i = 0" "pf_tag (fs ! 0) = 0"
    using True i w wf_array_tag [OF w l] by (auto simp: at_ok_def)
  have "req_count_loop (iter_of fs dest 0) = Some (of_nat (req_index fs 0), pf_type (fs ! 0), iter_of fs dest 0)"
    using iter_next_terminator [OF w True] l by (subst req_count_loop.simps) simp
  with z True show ?thesis by (metis (full_types))
next
  case False
  let ?k = "nfields fs - 1"
  have i: "i < nfields fs" using i False by (simp add: at_ok_def)
  have k: "Suc ?k = nfields fs" "?k < length fs" using False by auto
  have "pf_tag (fs ! 0) \<noteq> 0"
    using wf_array_tag [OF w wf_array_nonempty [OF w]] False by simp
  moreover have "(of_nat (req_index fs (nfields fs)) :: 32 word) =
      (if is_required (fs ! ?k) then of_nat (req_index fs ?k) + 1 else of_nat (req_index fs ?k))"
    using req_index_Suc [OF k(2)] unfolding k(1) by simp
  ultimately show ?thesis
    using req_count_at [OF w i, of dest] by (auto simp: is_required_def)
qed

lemma whole_words_run:
  "\<forall>i \<in> set is. i < length seen \<Longrightarrow> whole_words seen is = Some (\<forall>i \<in> set is. seen ! i = - 1)"
  by (induction "is") auto

lemma check_seen_run:
  assumes "k < 64" and "k \<noteq> 32" and "length seen = 2"
  shows "\<exists>b. check_seen seen (of_nat k) = Some b"
proof (cases "k = 0")
  case False
  have k: "unat (of_nat k :: 32 word) = k" using assms(1) by (simp add: unat_of_nat)
  then have w: "unat (drop_bit 5 (of_nat k :: 32 word)) = k div 32"
    by (simp add: drop_bit_eq_div unat_div_distrib)
  have "(of_nat k :: 32 word) AND 31 = take_bit 5 (of_nat k)"
    by (simp add: take_bit_eq_mask mask_eq_exp_minus_1)
  then have "unat ((of_nat k :: 32 word) AND 31) = k mod 32"
    using k by (simp add: take_bit_eq_mod unat_mod_distrib)
  moreover have "k div 32 < 2" using assms(1) by simp
  moreover have "k mod 32 \<noteq> 0"
  proof
    assume "k mod 32 = 0"
    then obtain q where "k = 32 * q" by auto
    with assms(1,2) False show False by auto
  qed
  moreover have "(of_nat k :: 32 word) \<noteq> 0" using k False by force
  ultimately show ?thesis
    using assms(3) by (auto simp: check_seen_def Let_def w whole_words_run)
qed (auto simp: check_seen_def)

context nested_decoder
begin

lemma loop_safe:
  assumes u: "user_ok env U" and ok: "msg_ok n fs" and mp: "mapped m dest n"
    and inv: "loop_inv n fs dest m st"
  shows "run (decode_loop ni sd env st) (\<lambda>(r, st'). loop_inv n fs dest m st' \<and>
     iadv (ds_stream st) (ds_stream st'))"
  using inv
proof (induction "unat (bytes_left (ds_stream st))" arbitrary: st rule: less_induct)
  case less
  obtain r st' where step: "decode_step ni sd env st = Some (r, st')"
    and inv': "loop_inv n fs dest m st'" and adv: "progress (ds_stream st) (r = None) (ds_stream st')"
    using step_safe [OF u ok mp less.prems] by (auto elim!: runE)
  have "run (decode_loop ni sd env st') (\<lambda>(r, st'). loop_inv n fs dest m st' \<and>
     iadv (ds_stream st) (ds_stream st'))" if "r = None"
    by (rule run_mono2 [OF less.hyps [OF _ inv']]) (use that adv in \<open>auto intro: iadv_trans\<close>)
  with step inv' adv less.prems show ?case
    by (subst decode_loop.simps) (auto split: option.splits)
qed

lemma noinit_body_safe:
  assumes u: "user_ok env U" and v: "ivalid s" and ok: "msg_ok n fs" and mp: "mapped m dest n"
  shows "run (noinit_body ni sd env s fs dest m)
    (\<lambda>(r, s', m'). iadv s s' \<and> frame (region dest n \<union> U) m m')"
proof -
  let ?st = "\<lparr>ds_stream = s, ds_iter = iter_of fs dest 0, ds_mem = m, ds_seen = [0, 0], ds_ext_start = 0\<rparr>"
  have w: "wf_array fs" and e: "last fs = PB_LAST_FIELD" and rq: "req_count_ok fs"
    using ok by (auto simp: msg_ok_def)
  have "loop_inv n fs dest m ?st"
    using v by (auto simp: loop_inv_def at_ok_def intro!: exI [of _ 0])
  from loop_safe [OF u ok mp this] obtain b st' where
    l: "decode_loop ni sd env ?st = Some (b, st')" and inv: "loop_inv n fs dest m st'"
    and adv: "iadv s (ds_stream st')" by (auto elim!: runE)
  from inv obtain i where i: "at_ok fs i" "ds_iter st' = iter_of fs dest i"
    and fr: "frame (region dest n \<union> U) m (ds_mem st')" and len: "length (ds_seen st') = 2"
    by (auto simp: loop_inv_def)
  obtain c ty where c: "req_count_loop (ds_iter st') = Some (c, ty, iter_of fs dest 0)"
    "(if PB_HTYPE ty = PB_HTYPE_REQUIRED \<and> pf_tag (fs ! 0) \<noteq> 0 then c + 1 else c) =
      of_nat (req_index fs (nfields fs))"
    using req_count_correct [OF w e i(1), of dest] i(2) by auto
  obtain a where a: "check_seen (ds_seen st') (of_nat (req_index fs (nfields fs))) = Some a"
    using check_seen_run [OF _ _ len] rq by (auto simp: req_count_ok_def)
  show ?thesis
    using l c a adv fr wf_array_nonempty [OF w]
    by (simp add: noinit_body_def iter_begin_of [OF w] Let_def split del: if_split) auto
qed

end

lemma noinit_safe:
  assumes "user_ok env U" and "ivalid s" and "wf_msg d env n fs" and "mapped m dest n"
  shows "run (pb_decode_noinit d env s fs dest m)
    (\<lambda>(ok, s', m'). iadv s s' \<and> frame (region dest n \<union> U) m m')"
  using assms
proof (induction d arbitrary: s n fs m dest)
  case (Suc d)
  have "nested_decoder env U (pb_decode_noinit d env) (pb_message_set_to_defaults d env) (wf_msg d env)"
    by unfold_locales (use Suc.IH set_to_defaults_safe in blast)+
  from nested_decoder.noinit_body_safe [OF this Suc.prems(1,2) _ Suc.prems(4), of fs]
    nested_decoder.msg_ok_def [OF this] Suc.prems(3)
  show ?case by simp
qed simp

interpretation msg: nested_decoder env U "pb_decode_noinit d env" "pb_message_set_to_defaults d env"
  "wf_msg d env" for env U d
  by unfold_locales (rule noinit_safe set_to_defaults_safe; assumption)+

text \<open>Decoding into a struct that is mapped, from any stream, returns and stays inside.\<close>

lemma decode_safe:
  assumes "user_ok env U" and "ivalid s" and "wf_msg d env n fs" and "mapped m dest n"
  shows "run (pb_decode d env s fs dest m)
    (\<lambda>(ok, s', m'). iadv s s' \<and> frame (region dest n \<union> U) m m')"
proof -
  from msg.sd_safe [OF assms(3,4)] obtain m1 where
    m1: "pb_message_set_to_defaults d env fs dest m = Some m1" "frame (region dest n) m m1"
    by (auto elim: runE)
  then have fr: "frame (region dest n \<union> U) m m1" by (auto elim: frame_mono)
  have "mapped m1 dest n" using assms(4) m1(2) by (auto simp: mapped_def frame_def)
  from msg.ni_safe [OF assms(1-3) this] show ?thesis
    using m1 fr by (auto simp: pb_decode_def elim!: run_mono3 intro: frame_trans)
qed

lemma decode_delimited_safe:
  assumes "user_ok env U" and "ivalid s" and "wf_msg d env n fs" and "mapped m dest n"
  shows "run (pb_decode_delimited d env s fs dest m)
    (\<lambda>(ok, s', m'). iadv s s' \<and> frame (region dest n \<union> U) m m')"
proof -
  note rd = user_ok_reads [OF assms(1)]
  obtain r s1 where r: "pb_make_string_substream env s = Some (r, s1)" and adv: "iadv s s1"
    and sub: "\<And>sub. r = Some sub \<Longrightarrow> ivalid sub \<and> sub_of s sub s1"
    using run_pb_make_string_substream [OF rd assms(2)] by (auto elim!: runE split: option.splits)
  show ?thesis
  proof (cases r)
    case None
    with r adv show ?thesis by (simp add: pb_decode_delimited_def)
  next
    case (Some b)
    from decode_safe [OF assms(1) _ assms(3,4), of b] sub [OF Some] obtain ok b' m' where
      d: "pb_decode d env b fs dest m = Some (ok, b', m')" "iadv b b'"
        "frame (region dest n \<union> U) m m'" by (auto elim!: runE)
    have "run (pb_close_string_substream env s1 b')
        (\<lambda>(ok, s''). iadv s s'' \<and> unat (bytes_left s'') < unat (bytes_left s))"
      using run_pb_close_string_substream [OF rd _ d(2)] sub [OF Some] by blast
    with r Some d show ?thesis
      by (auto simp: pb_decode_delimited_def run_simps elim!: run_mono2)
  qed
qed

subsection \<open>The safety theorems\<close>

lemma demo_user_ok: "user_ok demo_env {}"
  by (simp add: user_ok_def reads_ok_def demo_env_def)

lemmas wf_msg_eval = wf_array_def req_count_ok_def req_index_def is_required_def field_ok_def
  ltype_ok_def default_ok_def inside_def fits32_def fits64_def sub_ok_def is_extension_def
  same_union_def prev_field_size_def  Let_def

lemma demo_wf: "wf_msg 2 demo_env 44 Person_fields"
proof -
  have "wf_msg (Suc 0) demo_env 4 Point_fields"
    by (simp add: Point_fields_def PB_LAST_FIELD_def pb_type_defs wf_msg_eval)
  then have "wf_msg (Suc (Suc 0)) demo_env 44 Person_fields"
    by (simp add: Person_fields_def PB_LAST_FIELD_def demo_env_def pb_type_defs wf_msg_eval
        del: wf_msg.simps(1) wf_msg.simps(2) [of 0])
  then show ?thesis by (simp only: numeral_2_eq_2)
qed

text \<open>
  C1: decoding is memory safe and total. For every well-formed message type (nested up to the
  number of levels), every struct of that type in mapped memory and every input, \<open>pb_decode\<close>
  returns without undefined behaviour, changes memory only inside the struct (and in the memory
  of the user's callbacks), and takes no byte beyond the end of the input buffer.
\<close>
theorem pb_decode_memory_safe:
  assumes "user_ok env U" and "wf_msg d env n fs" and "mapped m dest n"
    and "length buf < 2 ^ 64"
  shows "\<exists>ok s' m' rest. pb_decode d env (pb_istream_from_buffer buf (of_nat (length buf))) fs dest m =
      Some (ok, s', m') \<and> istate s' = Buf_read rest \<and> unat (bytes_left s') \<le> length rest \<and>
      dom m' = dom m \<and> (\<forall>a. a \<notin> region dest n \<union> U \<longrightarrow> m' a = m a)"
proof -
  let ?s = "pb_istream_from_buffer buf (of_nat (length buf)) :: 'a pb_istream_t"
  have "unat (of_nat (length buf) :: size_t) = length buf"
    using assms(4) by (simp add: unat_of_nat)
  then have v: "ivalid ?s" by (simp add: ivalid_def pb_istream_from_buffer_def)
  obtain ok s' m' where r: "pb_decode d env ?s fs dest m = Some (ok, s', m')" and "iadv ?s s'"
    and "frame (region dest n \<union> U) m m'"
    using decode_safe [OF assms(1) v assms(2,3)] by (auto elim!: runE)
  moreover from this v have "ivalid s'" using iadv_valid by blast
  ultimately show ?thesis
    by (auto simp: frame_def iadv_def istate_adv_def ivalid_def pb_istream_from_buffer_def
        split: istate.splits)
qed

theorem pb_decode_memory_safe_witness:
  "\<exists>ok s' m' rest. pb_decode 2 demo_env (pb_istream_from_buffer [0x08, 0x96, 0x01] 3) Person_fields 1000
      demo_mem = Some (ok, s', m') \<and> istate s' = Buf_read rest \<and>
      unat (bytes_left s') \<le> length rest \<and>
      dom m' = dom demo_mem \<and> (\<forall>a. a \<notin> region 1000 44 \<union> {} \<longrightarrow> m' a = demo_mem a)"
  using pb_decode_memory_safe [OF demo_user_ok demo_wf demo_mem_mapped, of "[0x08, 0x96, 0x01]"]
  by simp

text \<open>
  C2: the same for a message preceded by its length: \<open>pb_decode_delimited\<close> returns, stays inside
  the struct, and does not read beyond the stream it was given, whatever the length prefix says.
\<close>
theorem pb_decode_delimited_memory_safe:
  assumes "user_ok env U" and "ivalid s" and "wf_msg d env n fs" and "mapped m dest n"
  shows "\<exists>ok s' m'. pb_decode_delimited d env s fs dest m = Some (ok, s', m') \<and>
      iadv s s' \<and> ivalid s' \<and> frame (region dest n \<union> U) m m'"
  using decode_delimited_safe [OF assms] iadv_valid [OF _ assms(2)] by (auto simp: run_iff_ex)

theorem pb_decode_delimited_memory_safe_witness:
  "\<exists>ok s' m'. pb_decode_delimited 2 demo_env (pb_istream_from_buffer [0x7F, 0x08, 0x96] 3)
      Person_fields 1000 demo_mem = Some (ok, s', m') \<and>
      iadv (pb_istream_from_buffer [0x7F, 0x08, 0x96] 3) s' \<and> ivalid s' \<and>
      frame (region 1000 44 \<union> {}) demo_mem m'"
  by (rule pb_decode_delimited_memory_safe [OF demo_user_ok _ demo_wf demo_mem_mapped])
    (simp add: ivalid_def pb_istream_from_buffer_def)

end
