(* ===== verification/Pb_Presence.thy ===== *)
theory Pb_Presence
  imports Pb_Decode_Safe
begin

text \<open>
  The bookkeeping of required fields in \<open>pb_decode_noinit\<close>: the words of \<open>fields_seen\<close> represent
  a set of field indices, marking inserts an index, and the check at the end compares the set with
  all indices. Also the two inputs on which the message loop departs from what its documentation
  says.
\<close>

definition seen_set :: "32 word list \<Rightarrow> nat set" where
  "seen_set seen = {i. i < 64 \<and> bit (seen ! (i div 32)) (i mod 32)}"

lemma div_mod_32: "(i :: nat) < 64 \<Longrightarrow> i div 32 = (if i < 32 then 0 else 1) \<and> i mod 32 = (if i < 32 then i else i - 32)"
  by (auto simp: div_if mod_if)

lemma seen_set_start: "seen_set [0, 0] = {}"
  by (auto simp: seen_set_def div_mod_32 split: if_splits)

lemma low_five_bits:
  assumes "idx < 64"
  shows "unat (drop_bit 5 (of_nat idx :: 32 word)) = idx div 32"
    and "unat ((of_nat idx :: 32 word) AND 31) = idx mod 32"
proof -
  have k: "unat (of_nat idx :: 32 word) = idx" using assms by (simp add: unat_of_nat)
  then show "unat (drop_bit 5 (of_nat idx :: 32 word)) = idx div 32"
    by (simp add: drop_bit_eq_div unat_div_distrib)
  have "(of_nat idx :: 32 word) AND 31 = take_bit 5 (of_nat idx)"
    by (simp add: take_bit_eq_mask mask_eq_exp_minus_1)
  with k show "unat ((of_nat idx :: 32 word) AND 31) = idx mod 32"
    by (simp add: take_bit_eq_mod unat_mod_distrib)
qed

lemma mark_seen_inserts:
  assumes "length seen = 2" and "idx < 64"
  shows "\<exists>seen'. mark_seen seen (of_nat idx) = Some seen' \<and> length seen' = 2 \<and>
    seen_set seen' = insert idx (seen_set seen)"
proof -
  have "i = idx" if "idx div 32 = i div 32" "i mod 32 = idx mod 32" for i
    using that by (metis div_mult_mod_eq)
  moreover have "idx div 32 < 2" "\<And>i. i < 64 \<Longrightarrow> i div 32 < (2::nat)" using assms(2) by auto
  ultimately show ?thesis
    using assms by (auto simp: mark_seen_def Let_def low_five_bits seen_set_def nth_list_update bit_simps)
qed

lemma full_word: "w = - 1 \<longleftrightarrow> (\<forall>i < 32. bit w i)" for w :: "32 word"
  by (auto intro: bit_word_eqI)

lemma low_word: "w = drop_bit (32 - k) (- 1) \<longleftrightarrow> (\<forall>i < 32. bit w i \<longleftrightarrow> i < k)" if "k < 32"
  for w :: "32 word"
proof -
  have "bit (drop_bit (32 - k) (- 1) :: 32 word) i \<longleftrightarrow> i < k" for i
    using that by (auto simp: bit_simps)
  then show ?thesis by (auto intro!: bit_word_eqI)
qed

lemma seen_set_iff:
  "i \<in> seen_set seen \<longleftrightarrow> i < 32 \<and> bit (seen ! 0) i \<or> 32 \<le> i \<and> i < 64 \<and> bit (seen ! 1) (i - 32)"
  by (cases "i < 64") (auto simp: seen_set_def div_mod_32)

text \<open>The check accepts exactly the full set.\<close>

lemma check_seen_complete:
  assumes len: "length seen = 2" and k: "k < 64" "k \<noteq> 32" and sub: "seen_set seen \<subseteq> {..<k}"
  shows "check_seen seen (of_nat k) = Some ({..<k} \<subseteq> seen_set seen)"
proof (cases "k = 0")
  case True
  then show ?thesis by (simp add: check_seen_def)
next
  case nz: False
  have "unat (of_nat k :: 32 word) = k" using k(1) by (simp add: unat_of_nat)
  with nz have nz': "(of_nat k :: 32 word) \<noteq> 0" by force
  have sub': "i \<in> seen_set seen \<Longrightarrow> i < k" for i using sub by auto
  show ?thesis
  proof (cases "k < 32")
    case True
    have "seen ! 0 = drop_bit (32 - k) (- 1) \<longleftrightarrow> {..<k} \<subseteq> seen_set seen"
      unfolding low_word [OF True] using True sub' by (auto simp: seen_set_iff subset_iff)
    with True nz nz' len k show ?thesis
      by (simp add: check_seen_def low_five_bits Let_def div_mod_32)
  next
    case False
    then have k32: "32 < k" "k - 32 < 32" using k by auto
    have "seen ! 1 = drop_bit (32 - (k - 32)) (- 1) \<longleftrightarrow> (\<forall>i < k - 32. bit (seen ! 1) i)"
      unfolding low_word [OF k32(2)]
    proof -
      have "i < k - 32" if "i < 32" "bit (seen ! 1) i" for i
        using sub' [of "i + 32"] that by (simp add: seen_set_iff)
      with k32 show "(\<forall>i < 32. bit (seen ! 1) i \<longleftrightarrow> i < k - 32) \<longleftrightarrow> (\<forall>i < k - 32. bit (seen ! 1) i)"
        by auto
    qed
    moreover have "{..<k} \<subseteq> seen_set seen \<longleftrightarrow> (\<forall>i < 32. bit (seen ! 0) i) \<and> (\<forall>i < k - 32. bit (seen ! 1) i)"
    proof
      assume full: "{..<k} \<subseteq> seen_set seen"
      have "bit (seen ! 0) i" if "i < 32" for i
        using subsetD [OF full, of i] k32 that by (simp add: seen_set_iff)
      moreover have "bit (seen ! 1) i" if "i < k - 32" for i
        using subsetD [OF full, of "i + 32"] that by (simp add: seen_set_iff)
      ultimately show "(\<forall>i < 32. bit (seen ! 0) i) \<and> (\<forall>i < k - 32. bit (seen ! 1) i)" by blast
    next
      assume bits: "(\<forall>i < 32. bit (seen ! 0) i) \<and> (\<forall>i < k - 32. bit (seen ! 1) i)"
      have "i \<in> seen_set seen" if "i < k" for i
        using bits that k(1) by (cases "i < 32") (auto simp: seen_set_iff)
      then show "{..<k} \<subseteq> seen_set seen" by auto
    qed
    ultimately show ?thesis
      using k32 nz' len k
      by (simp add: check_seen_def low_five_bits Let_def div_mod_32 full_word whole_words_run) linarith
  qed
qed

primrec mark_all :: "nat list \<Rightarrow> 32 word list \<Rightarrow> 32 word list option" where
  "mark_all [] seen = Some seen"
| "mark_all (i # is) seen = mark_seen seen (of_nat i) \<bind> mark_all is"

lemma mark_all_set:
  "length seen = 2 \<Longrightarrow> \<forall>i \<in> set is. i < 64 \<Longrightarrow>
     \<exists>seen'. mark_all is seen = Some seen' \<and> length seen' = 2 \<and> seen_set seen' = seen_set seen \<union> set is"
proof (induction "is" arbitrary: seen)
  case (Cons i "is")
  then obtain s1 where "mark_seen seen (of_nat i) = Some s1" "length s1 = 2" "seen_set s1 = insert i (seen_set seen)"
    using mark_seen_inserts [of seen i] by auto
  with Cons show ?case by fastforce
qed simp

text \<open>
  C7: the check for required fields is exact: for a message type with \<open>k\<close> required fields
  (fewer than 64, and not 32), after the fields with indices \<open>is\<close> were found on the wire, in any
  order and with repetitions, the check accepts if and only if every required field is among them.
\<close>
theorem required_fields_check:
  assumes "k < 64" and "k \<noteq> 32" and "set is \<subseteq> {..<k}"
  shows "\<exists>seen. mark_all is [0, 0] = Some seen \<and> check_seen seen (of_nat k) = Some (set is = {..<k})"
proof -
  obtain seen where s: "mark_all is [0, 0] = Some seen" "length seen = 2" "seen_set seen = set is"
    using mark_all_set [of "[0, 0]" "is"] assms seen_set_start by fastforce
  with check_seen_complete [OF s(2) assms(1,2)] assms(3) show ?thesis by auto
qed

theorem required_fields_check_witness:
  "\<exists>seen. mark_all [34, 2, 0, 1] [0, 0] = Some seen \<and> check_seen seen (of_nat 35) = Some (set [34, 2, 0, 1] = {..<35 :: nat})"
  by (rule required_fields_check) auto

text \<open>
  C8: with exactly 32 required fields the check is not defined for the message that has them all:
  once the first word of \<open>fields_seen\<close> is full, the comparison shifts a 32-bit value by 32.
\<close>
theorem required_32_undefined:
  "\<exists>seen. mark_all [0..<32] [0, 0] = Some seen \<and> check_seen seen 32 = None"
proof -
  obtain seen where s: "mark_all [0..<32] [0, 0] = Some seen" "length seen = 2" "seen_set seen = {0..<32}"
    using mark_all_set [of "[0, 0]" "[0..<32]"] seen_set_start by fastforce
  have "bit (seen ! 0) i" if "i < 32" for i using that s(3) seen_set_iff [of i seen] by auto
  then have "seen ! 0 = - 1" by (simp add: full_word)
  moreover have "unat (drop_bit 5 (32 :: 32 word)) = 1" "unat ((32 :: 32 word) AND 31) = 0" by simp_all
  ultimately have "check_seen seen 32 = None"
    using s(2) by (simp add: check_seen_def Let_def)
  with s show ?thesis by blast
qed



text \<open>
  C10: from any field, \<open>pb_field_iter_find\<close> finds a field with the tag if the message type has one,
  and otherwise returns false; it always comes back, and the iterator it leaves has the data
  address, the size address and the required-field index of the field it stands at.
\<close>
theorem pb_field_iter_find_complete:
  assumes "wf_array fs" and "i < nfields fs"
  shows "\<exists>j. j < nfields fs \<and> pb_field_iter_find (iter_of fs dest i) tag =
    Some (\<exists>k < nfields fs. tag_matches tag (fs ! k), iter_of fs dest j) \<and>
    ((\<exists>k < nfields fs. tag_matches tag (fs ! k)) \<longrightarrow> tag_matches tag (fs ! j))"
proof -
  obtain b j where "iter_scan (tag_matches tag) i (iter_of fs dest i) = Some (b, iter_of fs dest j)"
    "j < nfields fs" "if b then tag_matches tag (fs ! j) else j = i \<and> (\<forall>k < nfields fs. \<not> tag_matches tag (fs ! k))"
    using iter_scan_complete [OF assms, of "tag_matches tag" dest] by blast
  then show ?thesis
    unfolding pb_field_iter_find_def iter_of_sel by (cases b) auto
qed

theorem pb_field_iter_find_complete_witness:
  "\<exists>j. j < nfields Person_fields \<and> pb_field_iter_find (iter_of Person_fields 1000 2) 1 =
    Some (\<exists>k < nfields Person_fields. tag_matches 1 (Person_fields ! k), iter_of Person_fields 1000 j) \<and>
    ((\<exists>k < nfields Person_fields. tag_matches 1 (Person_fields ! k)) \<longrightarrow> tag_matches 1 (Person_fields ! j))"
  by (rule pb_field_iter_find_complete) (simp_all add: wf_array_def Person_fields_def PB_LAST_FIELD_def)

end
