(* ===== verification/Pb_Encode.thy ===== *)
theory Pb_Encode
  imports Pb_Decode
begin

text \<open>
  Output streams and the message encoder of \<open>pb_encode.c\<close>. As in the decoder the recursion
  through nested messages is cut by a number of levels, and memory is threaded through because a
  user's encoding callback may change it. The bytes a routine is asked to write are passed as an
  option: \<open>None\<close> for a buffer that cannot be read, which matters only if the stream really
  writes and not if it just counts.
\<close>

subsection \<open>Output streams\<close>

text \<open>\<open>buf_write\<close>: copying beyond the end of the buffer object is undefined.\<close>

definition buf_write :: "byte list \<Rightarrow> nat \<Rightarrow> byte list \<Rightarrow> (byte list \<times> nat) option" where
  "buf_write out room bs =
     (if length bs \<le> room then Some (out @ bs, room - length bs) else None)"

definition pb_ostream_from_buffer :: "nat \<Rightarrow> size_t \<Rightarrow> 'o pb_ostream_t" where
  "pb_ostream_from_buffer room bufsize =
     \<lparr>ostate = Buf_write [] room, max_size = bufsize, bytes_written = 0, oerrmsg = None\<rparr>"

definition PB_OSTREAM_SIZING :: "'o pb_ostream_t" where
  "PB_OSTREAM_SIZING = \<lparr>ostate = Null_write, max_size = 0, bytes_written = 0, oerrmsg = None\<rparr>"

text \<open>\<open>stream->callback(stream, buf, count)\<close>.\<close>

definition call_write ::
    "('i, 'o) pb_env \<Rightarrow> 'o ostate \<Rightarrow> byte list \<Rightarrow> (bool \<times> 'o ostate) option" where
  "call_write env st bs = (case st of
     Null_write \<Rightarrow> None
   | Buf_write out room \<Rightarrow>
       map_option (\<lambda>(out', room'). (True, Buf_write out' room')) (buf_write out room bs)
   | User_write u \<Rightarrow> (let (ok, u') = user_write env u bs in Some (ok, User_write u')))"

definition pb_write :: "('i, 'o) pb_env \<Rightarrow> 'o pb_ostream_t \<Rightarrow> byte list option \<Rightarrow> size_t \<Rightarrow>
    (bool \<times> 'o pb_ostream_t) option" where
  "pb_write env s buf count =
     (if ostate s = Null_write then Some (True, s\<lparr>bytes_written := bytes_written s + count\<rparr>)
      else if max_size s < bytes_written s + count
      then Some (False, PB_SET_ERROR_O s ''stream full'')
      else do {
        bs \<leftarrow> buf;
        (ok, st) \<leftarrow> call_write env (ostate s) bs;
        let s' = s\<lparr>ostate := st\<rparr>;
        if \<not> ok then Some (False, PB_SET_ERROR_O s' ''io error'')
        else Some (True, s'\<lparr>bytes_written := bytes_written s' + count\<rparr>)
      })"

subsection \<open>Primitive values\<close>

text \<open>The loop of \<open>pb_encode_varint\<close>: the bytes put into \<open>buffer\<close>, all with the top bit set.\<close>

function (sequential) varint_groups :: "64 word \<Rightarrow> byte list" where
  "varint_groups value =
     (if value = 0 then [] else ucast ((value AND 0x7F) OR 0x80) # varint_groups (drop_bit 7 value))"
  by pat_completeness auto
termination
  by (relation "measure unat") (auto simp: drop_bit_eq_div unat_div_distrib unat_gt_0)

declare varint_groups.simps [simp del]

text \<open>\<open>buffer[i-1] &= 0x7F\<close>.\<close>

definition clear_top :: "byte list \<Rightarrow> byte list" where
  "clear_top bs = butlast bs @ [last bs AND 0x7F]"

definition varint_bytes :: "64 word \<Rightarrow> byte list" where
  "varint_bytes value = (if value \<le> 0x7F then [ucast value] else clear_top (varint_groups value))"

definition pb_encode_varint :: "('i, 'o) pb_env \<Rightarrow> 'o pb_ostream_t \<Rightarrow> 64 word \<Rightarrow>
    (bool \<times> 'o pb_ostream_t) option" where
  "pb_encode_varint env s value =
     pb_write env s (Some (varint_bytes value)) (of_nat (length (varint_bytes value)))"

definition zigzag :: "64 word \<Rightarrow> 64 word" where
  "zigzag value = (if value <s 0 then NOT (push_bit 1 value) else push_bit 1 value)"

definition pb_encode_svarint :: "('i, 'o) pb_env \<Rightarrow> 'o pb_ostream_t \<Rightarrow> 64 word \<Rightarrow>
    (bool \<times> 'o pb_ostream_t) option" where
  "pb_encode_svarint env s value = pb_encode_varint env s (zigzag value)"

definition fixed32_bytes :: "32 word \<Rightarrow> byte list" where
  "fixed32_bytes val =
     [ucast (val AND 0xFF), ucast (drop_bit 8 val AND 0xFF), ucast (drop_bit 16 val AND 0xFF),
      ucast (drop_bit 24 val AND 0xFF)]"

definition fixed64_bytes :: "64 word \<Rightarrow> byte list" where
  "fixed64_bytes val =
     [ucast (val AND 0xFF), ucast (drop_bit 8 val AND 0xFF), ucast (drop_bit 16 val AND 0xFF),
      ucast (drop_bit 24 val AND 0xFF), ucast (drop_bit 32 val AND 0xFF),
      ucast (drop_bit 40 val AND 0xFF), ucast (drop_bit 48 val AND 0xFF),
      ucast (drop_bit 56 val AND 0xFF)]"

definition pb_encode_fixed32 :: "('i, 'o) pb_env \<Rightarrow> 'o pb_ostream_t \<Rightarrow> 32 word \<Rightarrow>
    (bool \<times> 'o pb_ostream_t) option" where
  "pb_encode_fixed32 env s val = pb_write env s (Some (fixed32_bytes val)) 4"

definition pb_encode_fixed64 :: "('i, 'o) pb_env \<Rightarrow> 'o pb_ostream_t \<Rightarrow> 64 word \<Rightarrow>
    (bool \<times> 'o pb_ostream_t) option" where
  "pb_encode_fixed64 env s val = pb_write env s (Some (fixed64_bytes val)) 8"

definition tag_word :: "pb_wire_type_t \<Rightarrow> 32 word \<Rightarrow> 64 word" where
  "tag_word wiretype field_number = push_bit 3 (ucast field_number) OR ucast wiretype"

definition pb_encode_tag :: "('i, 'o) pb_env \<Rightarrow> 'o pb_ostream_t \<Rightarrow> pb_wire_type_t \<Rightarrow> 32 word \<Rightarrow>
    (bool \<times> 'o pb_ostream_t) option" where
  "pb_encode_tag env s wiretype field_number = pb_encode_varint env s (tag_word wiretype field_number)"

text \<open>The wire type of a field; \<open>None\<close> for the default branch of the switch.\<close>

definition wire_type_of :: "pb_type_t \<Rightarrow> pb_wire_type_t option" where
  "wire_type_of ltype =
     (if ltype = PB_LTYPE_VARINT \<or> ltype = PB_LTYPE_UVARINT \<or> ltype = PB_LTYPE_SVARINT
      then Some PB_WT_VARINT
      else if ltype = PB_LTYPE_FIXED32 then Some PB_WT_32BIT
      else if ltype = PB_LTYPE_FIXED64 then Some PB_WT_64BIT
      else if ltype = PB_LTYPE_BYTES \<or> ltype = PB_LTYPE_STRING \<or> ltype = PB_LTYPE_SUBMESSAGE \<or>
        ltype = PB_LTYPE_FIXED_LENGTH_BYTES then Some PB_WT_STRING
      else None)"

definition pb_encode_tag_for_field :: "('i, 'o) pb_env \<Rightarrow> 'o pb_ostream_t \<Rightarrow> pb_field_t \<Rightarrow>
    (bool \<times> 'o pb_ostream_t) option" where
  "pb_encode_tag_for_field env s field = (case wire_type_of (PB_LTYPE (pf_type field)) of
     None \<Rightarrow> Some (False, PB_SET_ERROR_O s ''invalid field type'')
   | Some wiretype \<Rightarrow> pb_encode_tag env s wiretype (pf_tag field))"

definition pb_encode_string :: "('i, 'o) pb_env \<Rightarrow> 'o pb_ostream_t \<Rightarrow> byte list option \<Rightarrow> size_t \<Rightarrow>
    (bool \<times> 'o pb_ostream_t) option" where
  "pb_encode_string env s buf count = do {
     (ok, s') \<leftarrow> pb_encode_varint env s count;
     if \<not> ok then Some (False, s') else pb_write env s' buf count
   }"

subsection \<open>Field encoders\<close>

type_synonym ('i, 'o) encoder =
  "('i, 'o) pb_env \<Rightarrow> 'o pb_ostream_t \<Rightarrow> pb_field_t \<Rightarrow> addr \<Rightarrow> mem \<Rightarrow>
   (bool \<times> 'o pb_ostream_t \<times> mem) option"

type_synonym 'o msg_encoder =
  "'o pb_ostream_t \<Rightarrow> pb_field_t list \<Rightarrow> addr \<Rightarrow> mem \<Rightarrow> (bool \<times> 'o pb_ostream_t \<times> mem) option"

text \<open>The loads at the width of the field; the inner \<open>None\<close> is an invalid width.\<close>

definition load_signed :: "mem \<Rightarrow> addr \<Rightarrow> pb_size_t \<Rightarrow> 64 word option option" where
  "load_signed m src data_size =
     (if data_size = 1 then map_option (Some \<circ> scast) (load8 m src)
      else if data_size = 2 then map_option (Some \<circ> scast) (load16 m src)
      else if data_size = 4 then map_option (Some \<circ> scast) (load32 m src)
      else if data_size = 8 then map_option Some (load64 m src)
      else Some None)"

definition load_unsigned :: "mem \<Rightarrow> addr \<Rightarrow> pb_size_t \<Rightarrow> 64 word option option" where
  "load_unsigned m src data_size =
     (if data_size = 1 then map_option (Some \<circ> ucast) (load8 m src)
      else if data_size = 2 then map_option (Some \<circ> ucast) (load16 m src)
      else if data_size = 4 then map_option (Some \<circ> ucast) (load32 m src)
      else if data_size = 8 then map_option Some (load64 m src)
      else Some None)"

text \<open>A routine that leaves memory alone.\<close>

definition with_mem :: "mem \<Rightarrow> (bool \<times> 'o pb_ostream_t) option \<Rightarrow>
    (bool \<times> 'o pb_ostream_t \<times> mem) option" where
  "with_mem m r = map_option (\<lambda>(ok, s). (ok, s, m)) r"

definition pb_enc_varint :: "('i, 'o) encoder" where
  "pb_enc_varint env s field src m = do {
     v \<leftarrow> load_signed m src (pf_data_size field);
     with_mem m (case v of
       None \<Rightarrow> Some (False, PB_SET_ERROR_O s ''invalid data_size'')
     | Some value \<Rightarrow> pb_encode_varint env s value)
   }"

definition pb_enc_uvarint :: "('i, 'o) encoder" where
  "pb_enc_uvarint env s field src m = do {
     v \<leftarrow> load_unsigned m src (pf_data_size field);
     with_mem m (case v of
       None \<Rightarrow> Some (False, PB_SET_ERROR_O s ''invalid data_size'')
     | Some value \<Rightarrow> pb_encode_varint env s value)
   }"

definition pb_enc_svarint :: "('i, 'o) encoder" where
  "pb_enc_svarint env s field src m = do {
     v \<leftarrow> load_signed m src (pf_data_size field);
     with_mem m (case v of
       None \<Rightarrow> Some (False, PB_SET_ERROR_O s ''invalid data_size'')
     | Some value \<Rightarrow> pb_encode_svarint env s value)
   }"

definition pb_enc_fixed32 :: "('i, 'o) encoder" where
  "pb_enc_fixed32 env s field src m = do {
     v \<leftarrow> load32 m src;
     with_mem m (pb_encode_fixed32 env s v)
   }"

definition pb_enc_fixed64 :: "('i, 'o) encoder" where
  "pb_enc_fixed64 env s field src m = do {
     v \<leftarrow> load64 m src;
     with_mem m (pb_encode_fixed64 env s v)
   }"

definition pb_enc_bytes :: "('i, 'o) encoder" where
  "pb_enc_bytes env s field src m =
     (if src = 0 then with_mem m (pb_encode_string env s (Some []) 0)
      else do {
        n \<leftarrow> load32 m (src + bytes_size_off);
        if PB_ATYPE (pf_type field) = PB_ATYPE_STATIC \<and>
           ucast (pf_data_size field) < PB_BYTES_ARRAY_T_ALLOCSIZE n
        then Some (False, PB_SET_ERROR_O s ''bytes size exceeded'', m)
        else with_mem m
          (pb_encode_string env s (load_bytes m (src + bytes_bytes_off) (unat n)) (ucast n))
      })"

text \<open>The \<open>strnlen\<close> loop of \<open>pb_enc_string\<close>.\<close>

function (sequential) c_strnlen :: "mem \<Rightarrow> addr \<Rightarrow> nat \<Rightarrow> nat \<Rightarrow> nat option" where
  "c_strnlen m src limit n =
     (if n < limit then do {
        c \<leftarrow> m (src + int n);
        if c \<noteq> 0 then c_strnlen m src limit (n + 1) else Some n
      }
      else Some n)"
  by pat_completeness auto
termination
  by (relation "measure (\<lambda>(_, _, limit, n). limit - n)") auto

declare c_strnlen.simps [simp del]

definition pb_enc_string :: "('i, 'o) encoder" where
  "pb_enc_string env s field src m = do {
     let limit = (if PB_ATYPE (pf_type field) = PB_ATYPE_POINTER then - 1
                  else ucast (pf_data_size field) :: size_t);
     n \<leftarrow> (if src = 0 then Some 0 else c_strnlen m src (unat limit) 0);
     with_mem m (pb_encode_string env s (load_bytes m src n) (of_nat n))
   }"

definition pb_enc_fixed_length_bytes :: "('i, 'o) encoder" where
  "pb_enc_fixed_length_bytes env s field src m =
     with_mem m (pb_encode_string env s (load_bytes m src (unat (pf_data_size field)))
       (ucast (pf_data_size field)))"

definition pb_encode_submessage :: "'o msg_encoder \<Rightarrow> ('i, 'o) pb_env \<Rightarrow> 'o msg_encoder" where
  "pb_encode_submessage enc env s fs src m = do {
     (ok, sub, m1) \<leftarrow> enc PB_OSTREAM_SIZING fs src m;
     if \<not> ok then Some (False, s\<lparr>oerrmsg := oerrmsg sub\<rparr>, m1)
     else do {
       let count = bytes_written sub;
       (ok1, s1) \<leftarrow> pb_encode_varint env s count;
       if \<not> ok1 then Some (False, s1, m1)
       else if ostate s1 = Null_write then with_mem m1 (pb_write env s1 None count)
       else if max_size s1 < bytes_written s1 + count
       then Some (False, PB_SET_ERROR_O s1 ''stream full'', m1)
       else do {
         (status, sub', m2) \<leftarrow> enc \<lparr>ostate = ostate s1, max_size = count, bytes_written = 0,
            oerrmsg = None\<rparr> fs src m1;
         let s2 = s1\<lparr>bytes_written := bytes_written s1 + bytes_written sub',
            ostate := ostate sub', oerrmsg := oerrmsg sub'\<rparr>;
         if bytes_written sub' \<noteq> count
         then Some (False, PB_SET_ERROR_O s2 ''submsg size changed'', m2)
         else Some (status, s2, m2)
       }
     }
   }"

definition pb_enc_submessage :: "'o msg_encoder \<Rightarrow> ('i, 'o) encoder" where
  "pb_enc_submessage enc env s field src m =
     (if pf_ptr field = PtrNull
      then Some (False, PB_SET_ERROR_O s ''invalid field descriptor'', m)
      else do {
        fs \<leftarrow> ptr_fields env (pf_ptr field);
        pb_encode_submessage enc env s fs src m
      })"

text \<open>\<open>PB_ENCODERS[ltype]\<close>: a call through the null entry or beyond the table is undefined.\<close>

definition PB_ENCODERS :: "'o msg_encoder \<Rightarrow> pb_type_t \<Rightarrow> ('i, 'o) encoder" where
  "PB_ENCODERS enc ltype =
     (if ltype = PB_LTYPE_VARINT then pb_enc_varint
      else if ltype = PB_LTYPE_UVARINT then pb_enc_uvarint
      else if ltype = PB_LTYPE_SVARINT then pb_enc_svarint
      else if ltype = PB_LTYPE_FIXED32 then pb_enc_fixed32
      else if ltype = PB_LTYPE_FIXED64 then pb_enc_fixed64
      else if ltype = PB_LTYPE_BYTES then pb_enc_bytes
      else if ltype = PB_LTYPE_STRING then pb_enc_string
      else if ltype = PB_LTYPE_SUBMESSAGE then pb_enc_submessage enc
      else if ltype = PB_LTYPE_FIXED_LENGTH_BYTES then pb_enc_fixed_length_bytes
      else (\<lambda>_ _ _ _ _. None))"

subsection \<open>A single field\<close>

text \<open>The three loops \<open>for (i = 0; i < count; i++)\<close> of \<open>encode_array\<close>, given what is done with
  one entry.\<close>

primrec array_loop :: "('o pb_ostream_t \<Rightarrow> addr \<Rightarrow> mem \<Rightarrow> (bool \<times> 'o pb_ostream_t \<times> mem) option) \<Rightarrow>
    pb_size_t \<Rightarrow> nat \<Rightarrow> 'o pb_ostream_t \<Rightarrow> addr \<Rightarrow> mem \<Rightarrow> (bool \<times> 'o pb_ostream_t \<times> mem) option" where
  "array_loop item data_size 0 s p m = Some (True, s, m)"
| "array_loop item data_size (Suc n) s p m = do {
     (ok, s', m') \<leftarrow> item s p m;
     if \<not> ok then Some (False, s', m')
     else array_loop item data_size n s' (p + uint data_size) m'
   }"

text \<open>The entry of an array that is not packed.\<close>

definition tagged_item :: "('i, 'o) encoder \<Rightarrow> ('i, 'o) pb_env \<Rightarrow> pb_field_t \<Rightarrow> 'o pb_ostream_t \<Rightarrow>
    addr \<Rightarrow> mem \<Rightarrow> (bool \<times> 'o pb_ostream_t \<times> mem) option" where
  "tagged_item func env field s p m = do {
     (ok, s') \<leftarrow> pb_encode_tag_for_field env s field;
     if \<not> ok then Some (False, s', m)
     else if PB_ATYPE (pf_type field) = PB_ATYPE_POINTER \<and>
       (PB_LTYPE (pf_type field) = PB_LTYPE_STRING \<or> PB_LTYPE (pf_type field) = PB_LTYPE_BYTES)
     then do { q \<leftarrow> load_ptr m p; func env s' field q m }
     else func env s' field p m
   }"

text \<open>The size of a packed array; the inner \<open>None\<close> when the encoder of an entry fails.\<close>

definition packed_size :: "('i, 'o) encoder \<Rightarrow> ('i, 'o) pb_env \<Rightarrow> pb_field_t \<Rightarrow> addr \<Rightarrow> size_t \<Rightarrow>
    mem \<Rightarrow> (size_t option \<times> mem) option" where
  "packed_size func env field pData count m =
     (if PB_LTYPE (pf_type field) = PB_LTYPE_FIXED32 then Some (Some (4 * count), m)
      else if PB_LTYPE (pf_type field) = PB_LTYPE_FIXED64 then Some (Some (8 * count), m)
      else do {
        (ok, sz, m') \<leftarrow> array_loop (\<lambda>s p m. func env s field p m) (pf_data_size field) (unat count)
          PB_OSTREAM_SIZING pData m;
        Some (if ok then Some (bytes_written sz) else None, m')
      })"

definition encode_array :: "('i, 'o) encoder \<Rightarrow> ('i, 'o) pb_env \<Rightarrow> 'o pb_ostream_t \<Rightarrow> pb_field_t \<Rightarrow>
    addr \<Rightarrow> size_t \<Rightarrow> mem \<Rightarrow> (bool \<times> 'o pb_ostream_t \<times> mem) option" where
  "encode_array func env s field pData count m =
     (if count = 0 then Some (True, s, m)
      else if PB_ATYPE (pf_type field) \<noteq> PB_ATYPE_POINTER \<and> ucast (pf_array_size field) < count
      then Some (False, PB_SET_ERROR_O s ''array max size exceeded'', m)
      else if PB_LTYPE (pf_type field) \<le> PB_LTYPE_LAST_PACKABLE then do {
        (ok, s1) \<leftarrow> pb_encode_tag env s PB_WT_STRING (pf_tag field);
        if \<not> ok then Some (False, s1, m)
        else do {
          (r, m1) \<leftarrow> packed_size func env field pData count m;
          case r of
            None \<Rightarrow> Some (False, s1, m1)
          | Some sz \<Rightarrow> do {
              (ok, s2) \<leftarrow> pb_encode_varint env s1 sz;
              if \<not> ok then Some (False, s2, m1)
              else if ostate s2 = Null_write then with_mem m1 (pb_write env s2 None sz)
              else array_loop (\<lambda>s p m. func env s field p m) (pf_data_size field) (unat count)
                s2 pData m1
            }
        }
      }
      else array_loop (tagged_item func env field) (pf_data_size field) (unat count) s pData m)"

text \<open>The test for the zero value of a proto3 field; the byte-wise branch reads until the first
  byte that is not zero.\<close>

fun all_zero :: "mem \<Rightarrow> addr \<Rightarrow> nat \<Rightarrow> bool option" where
  "all_zero m p 0 = Some True"
| "all_zero m p (Suc n) = do { b \<leftarrow> m p; if b \<noteq> 0 then Some False else all_zero m (p + 1) n }"

type_synonym default_check = "pb_field_t \<Rightarrow> addr \<Rightarrow> mem \<Rightarrow> bool option"

definition proto3_default_body :: "default_check \<Rightarrow> ('i, 'o) pb_env \<Rightarrow> default_check" where
  "proto3_default_body chk env field pData m =
     (let lt = PB_LTYPE (pf_type field); static = (PB_ATYPE (pf_type field) = PB_ATYPE_STATIC) in
      if static \<and> lt = PB_LTYPE_BYTES then map_option (\<lambda>n. n = 0) (load32 m (pData + bytes_size_off))
      else if static \<and> lt = PB_LTYPE_STRING then map_option (\<lambda>c. c = 0) (load8 m pData)
      else if static \<and> lt = PB_LTYPE_FIXED_LENGTH_BYTES then Some (pf_data_size field = 0)
      else if static \<and> lt = PB_LTYPE_SUBMESSAGE then do {
        fs \<leftarrow> ptr_fields env (pf_ptr field);
        (nonempty, it) \<leftarrow> pb_field_iter_begin fs pData;
        if nonempty then map_option fst (iter_each (\<lambda>it m. do {
            f \<leftarrow> iter_field it;
            ok \<leftarrow> chk f (it_pData it) m;
            Some (ok, m)
          }) it m)
        else Some True
      }
      else all_zero m pData (unat (pf_data_size field)))"

primrec pb_check_proto3_default_value :: "nat \<Rightarrow> ('i, 'o) pb_env \<Rightarrow> default_check" where
  "pb_check_proto3_default_value 0 env = (\<lambda>field pData m. None)"
| "pb_check_proto3_default_value (Suc d) env =
     proto3_default_body (pb_check_proto3_default_value d env) env"

text \<open>\<open>*pSize\<close> of a field without size offset is the local \<open>implicit_has\<close>; reading a count from
  it is undefined.\<close>

definition encode_basic_field :: "'o msg_encoder \<Rightarrow> default_check \<Rightarrow> ('i, 'o) encoder" where
  "encode_basic_field enc chk env s field pData0 m = do {
     let func = PB_ENCODERS enc (PB_LTYPE (pf_type field));
     let explicit = (pf_size_offset field \<noteq> 0);
     let pSize = pData0 + sint (pf_size_offset field);
     has0 \<leftarrow> (if \<not> explicit \<and> PB_HTYPE (pf_type field) = PB_HTYPE_OPTIONAL
              then map_option Not (chk field pData0 m) else Some True);
     (pData, implicit_has) \<leftarrow> (if PB_ATYPE (pf_type field) = PB_ATYPE_POINTER
       then do { p \<leftarrow> load_ptr m pData0; Some (p, p \<noteq> 0) } else Some (pData0, has0));
     let put = (do {
       (ok, s') \<leftarrow> pb_encode_tag_for_field env s field;
       if \<not> ok then Some (False, s', m) else func env s' field pData m
     });
     let hty = PB_HTYPE (pf_type field);
     if hty = PB_HTYPE_REQUIRED then
       (if pData = 0 then Some (False, PB_SET_ERROR_O s ''missing required field'', m) else put)
     else if hty = PB_HTYPE_OPTIONAL then do {
       has \<leftarrow> (if explicit then map_option (\<lambda>b. b \<noteq> 0) (load8 m pSize) else Some implicit_has);
       if has then put else Some (True, s, m)
     }
     else if hty = PB_HTYPE_REPEATED then do {
       count \<leftarrow> (if explicit then load32 m pSize else None);
       encode_array func env s field pData (ucast count) m
     }
     else if hty = PB_HTYPE_ONEOF then do {
       which \<leftarrow> (if explicit then load32 m pSize else None);
       if which = pf_tag field then put else Some (True, s, m)
     }
     else Some (False, PB_SET_ERROR_O s ''invalid field type'', m)
   }"

definition encode_callback_field :: "('i, 'o) encoder" where
  "encode_callback_field env s field pData m = do {
     fn \<leftarrow> load64 m (pData + cb_funcs_off);
     if fn \<noteq> 0 then do {
       (ok, s', m') \<leftarrow> user_encode env fn s field (pData + cb_arg_off) m;
       if \<not> ok then Some (False, PB_SET_ERROR_O s' ''callback error'', m')
       else Some (True, s', m')
     }
     else Some (True, s, m)
   }"

definition encode_field :: "'o msg_encoder \<Rightarrow> default_check \<Rightarrow> ('i, 'o) encoder" where
  "encode_field enc chk env s field pData m =
     (let aty = PB_ATYPE (pf_type field) in
      if aty = PB_ATYPE_STATIC \<or> aty = PB_ATYPE_POINTER
      then encode_basic_field enc chk env s field pData m
      else if aty = PB_ATYPE_CALLBACK then encode_callback_field env s field pData m
      else Some (False, PB_SET_ERROR_O s ''invalid field type'', m))"

subsection \<open>Extensions\<close>

definition default_extension_encoder :: "'o msg_encoder \<Rightarrow> default_check \<Rightarrow> ('i, 'o) pb_env \<Rightarrow>
    'o pb_ostream_t \<Rightarrow> addr \<Rightarrow> mem \<Rightarrow> (bool \<times> 'o pb_ostream_t \<times> mem) option" where
  "default_extension_encoder enc chk env s ext m = do {
     ty \<leftarrow> ext_type_of env ext m;
     field \<leftarrow> ext_arg ty;
     if PB_ATYPE (pf_type field) = PB_ATYPE_POINTER
     then encode_field enc chk env s field (ext + ext_dest_off) m
     else do {
       dest \<leftarrow> load_ptr m (ext + ext_dest_off);
       encode_field enc chk env s field dest m
     }
   }"

partial_function (option) encode_extension_loop :: "'o msg_encoder \<Rightarrow> default_check \<Rightarrow>
    ('i, 'o) pb_env \<Rightarrow> 'o pb_ostream_t \<Rightarrow> addr \<Rightarrow> mem \<Rightarrow> (bool \<times> 'o pb_ostream_t \<times> mem) option" where
  "encode_extension_loop enc chk env s ext m =
     (if ext \<noteq> 0 then do {
        ty \<leftarrow> ext_type_of env ext m;
        (status, s', m') \<leftarrow> (case ext_encode ty of
            Some fn \<Rightarrow> user_ext_encode env fn s ext m
          | None \<Rightarrow> default_extension_encoder enc chk env s ext m);
        if \<not> status then Some (False, s', m')
        else do {
          nxt \<leftarrow> load_ptr m' (ext + ext_next_off);
          encode_extension_loop enc chk env s' nxt m'
        }
      }
      else Some (True, s, m))"

definition encode_extension_field :: "'o msg_encoder \<Rightarrow> default_check \<Rightarrow> ('i, 'o) encoder" where
  "encode_extension_field enc chk env s field pData m = do {
     ext \<leftarrow> load_ptr m pData;
     encode_extension_loop enc chk env s ext m
   }"

subsection \<open>A whole message\<close>

definition encode_one :: "'o msg_encoder \<Rightarrow> default_check \<Rightarrow> ('i, 'o) pb_env \<Rightarrow> pb_field_iter_t \<Rightarrow>
    'o pb_ostream_t \<times> mem \<Rightarrow> (bool \<times> 'o pb_ostream_t \<times> mem) option" where
  "encode_one enc chk env it = (\<lambda>(s, m). do {
     f \<leftarrow> iter_field it;
     if PB_LTYPE (pf_type f) = PB_LTYPE_EXTENSION
     then encode_extension_field enc chk env s f (it_pData it) m
     else encode_field enc chk env s f (it_pData it) m
   })"

definition encode_body :: "'o msg_encoder \<Rightarrow> default_check \<Rightarrow> ('i, 'o) pb_env \<Rightarrow> 'o msg_encoder" where
  "encode_body enc chk env s fs src m = do {
     (nonempty, it) \<leftarrow> pb_field_iter_begin fs src;
     if \<not> nonempty then Some (True, s, m)
     else iter_each (encode_one enc chk env) it (s, m)
   }"

primrec pb_encode :: "nat \<Rightarrow> ('i, 'o) pb_env \<Rightarrow> 'o msg_encoder" where
  "pb_encode 0 env = (\<lambda>s fs src m. None)"
| "pb_encode (Suc d) env =
     encode_body (pb_encode d env) (pb_check_proto3_default_value (Suc d) env) env"

definition pb_encode_delimited :: "nat \<Rightarrow> ('i, 'o) pb_env \<Rightarrow> 'o msg_encoder" where
  "pb_encode_delimited d env s fs src m = pb_encode_submessage (pb_encode d env) env s fs src m"

definition pb_get_encoded_size :: "nat \<Rightarrow> ('i, 'o) pb_env \<Rightarrow> pb_field_t list \<Rightarrow> addr \<Rightarrow> mem \<Rightarrow>
    (size_t option \<times> mem) option" where
  "pb_get_encoded_size d env fs src m = do {
     (ok, s, m') \<leftarrow> pb_encode d env PB_OSTREAM_SIZING fs src m;
     Some (if ok then Some (bytes_written s) else None, m')
   }"

end
