(* ===== verification/Pb_Roundtrip.thy ===== *)
theory Pb_Roundtrip
  imports Pb_Encode Pb_Example
begin

text \<open>
  The primitive encoders and decoders are inverse to each other. The contract of such a pair is
  the locale \<open>prim_codec\<close>: the bytes of a value, and a decoder that takes exactly these bytes
  off a memory stream. Varints of 64 and 32 bits, zig-zag integers and the fixed-width values are
  its instances.
\<close>

subsection \<open>Streams that hold given bytes\<close>

definition holds :: "'i pb_istream_t \<Rightarrow> byte list \<Rightarrow> byte list \<Rightarrow> bool" where
  "holds s bs rest \<longleftrightarrow> istate s = Buf_read (bs @ rest) \<and> length bs \<le> unat (bytes_left s)"

definition after :: "'i pb_istream_t \<Rightarrow> nat \<Rightarrow> byte list \<Rightarrow> 'i pb_istream_t" where
  "after s n rest = s\<lparr>istate := Buf_read rest, bytes_left := bytes_left s - of_nat n\<rparr>"

lemma after_sel [simp]:
  "istate (after s n rest) = Buf_read rest" "bytes_left (after s n rest) = bytes_left s - of_nat n"
  "ierrmsg (after s n rest) = ierrmsg s"
  by (simp_all add: after_def)

lemma after_after [simp]: "after (after s n r) k r' = after s (n + k) r'"
  by (simp add: after_def algebra_simps)

lemma holds_length: "holds s bs rest \<Longrightarrow> unat (of_nat (length bs) :: size_t) = length bs"
  using unat64_less [of "bytes_left s"] by (simp add: holds_def unat_of_nat)

lemma after_left:
  assumes "holds s bs rest"
  shows "unat (bytes_left (after s (length bs) rest)) = unat (bytes_left s) - length bs"
  using assms holds_length [OF assms] by (simp add: holds_def unat_sub_if_size)

lemma holds_append:
  "holds s (xs @ ys) rest \<longleftrightarrow> holds s xs (ys @ rest) \<and> holds (after s (length xs) (ys @ rest)) ys rest"
proof (cases "holds s xs (ys @ rest)")
  case True
  with after_left [OF True] show ?thesis by (auto simp: holds_def)
qed (auto simp: holds_def)

lemma holds_Cons:
  "holds s (b # bs) rest \<longleftrightarrow> holds s [b] (bs @ rest) \<and> holds (after s 1 (bs @ rest)) bs rest"
  using holds_append [of s "[b]" bs rest] by simp

lemma readbyte_holds:
  "holds s [b] rest \<Longrightarrow> pb_readbyte env s = Some (Some b, after s 1 rest)"
  by (auto simp: pb_readbyte_def holds_def call_read_def buf_read_def after_def)

lemma read_holds:
  assumes "holds s bs rest"
  shows "pb_read env s (of_nat (length bs)) = Some (True, bs, after s (length bs) rest)"
proof -
  have "\<not> bytes_left s < of_nat (length bs)"
    using assms holds_length [OF assms] by (simp add: holds_def word_less_nat_alt)
  then show ?thesis
    using assms holds_length [OF assms]
    by (simp add: pb_read_def holds_def call_read_def buf_read_def after_def)
qed

subsection \<open>Groups of seven bits\<close>

lemma groups_nonempty: "v \<noteq> 0 \<Longrightarrow> varint_groups v \<noteq> []"
  by (subst varint_groups.simps) simp

text \<open>The bytes of the loop: the last one without its top bit.\<close>

lemma clear_top_groups:
  assumes "v \<noteq> 0"
  shows "clear_top (varint_groups v) =
    (if drop_bit 7 v = 0 then [ucast v] else
       (ucast (take_bit 7 v) OR 0x80) # clear_top (varint_groups (drop_bit 7 v)))"
proof (cases "drop_bit 7 v = 0")
  case True
  have "(ucast ((v AND 0x7F) OR 0x80) :: byte) AND 0x7F = ucast v"
    by (auto dest: drop_zero_bit [OF True] simp: word_80 and_7F bit_simps intro!: bit_word_eqI simp del: push_bit_of_1)
  with True assms show ?thesis
    by (subst varint_groups.simps) (simp add: clear_top_def varint_groups.simps [of 0])
next
  case False
  have "(ucast ((v AND 0x7F) OR 0x80) :: byte) = ucast (take_bit 7 v) OR 0x80"
    by (auto simp: word_80 and_7F bit_simps intro!: bit_word_eqI simp del: push_bit_of_1)
  with False assms groups_nonempty [OF False] show ?thesis
    by (subst varint_groups.simps) (simp add: clear_top_def)
qed

subsection \<open>Varints\<close>

lemma varint_loop_groups:
  assumes "v \<noteq> 0" and "unat v < 2 ^ (64 - bitpos)" and "holds s (clear_top (varint_groups v)) rest"
  shows "pb_decode_varint_loop env s bitpos result =
    Some (Some (result OR push_bit bitpos v), after s (length (clear_top (varint_groups v))) rest)"
  using assms
proof (induction v arbitrary: s bitpos result rule: varint_groups.induct)
  case (1 v)
  have bp: "bitpos < 64" using "1.prems"(1,2) by (cases "64 \<le> bitpos") (auto simp: unsigned_eq_0_iff)
  show ?case
  proof (cases "drop_bit 7 v = 0")
    case True
    have v: "ucast (ucast v :: byte) = v"
      using True by (auto simp: bit_simps dest: drop_zero_bit intro!: bit_word_eqI)
    from True "1.prems" have "holds s [ucast v] rest" by (simp add: clear_top_groups)
    from readbyte_holds [OF this, of env] True bp v last_byte [OF True] "1.prems"(1) show ?thesis
      by (subst pb_decode_varint_loop.simps) (simp add: clear_top_groups top_bit)
  next
    case False
    let ?b = "ucast (take_bit 7 v) OR 0x80 :: byte"
    let ?gs = "clear_top (varint_groups (drop_bit 7 v))"
    have cl: "clear_top (varint_groups v) = ?b # ?gs" using False "1.prems"(1) by (simp add: clear_top_groups)
    then have h: "holds s [?b] (?gs @ rest)" "holds (after s 1 (?gs @ rest)) ?gs rest"
      using "1.prems"(3) holds_Cons by metis+
    have u: "ucast (ucast (take_bit 7 v) :: byte) = take_bit 7 v"
      by (auto simp: bit_simps intro!: bit_word_eqI)
    have fit: "unat (drop_bit 7 v) < 2 ^ (64 - (bitpos + 7))"
      using drop7_fits [OF "1.prems"(2) False] by simp
    have "pb_decode_varint_loop env (after s 1 (?gs @ rest)) (bitpos + 7)
        (result OR push_bit bitpos (take_bit 7 v)) =
        Some (Some (result OR push_bit bitpos v), after s (Suc (length ?gs)) rest)"
      using "1.IH" [OF "1.prems"(1) False fit h(2)] by (simp add: or.assoc join_groups)
    with readbyte_holds [OF h(1), of env] bp cont_byte [of v] u cl show ?thesis
      by (subst pb_decode_varint_loop.simps) (simp add: top_bit)
  qed
qed

lemma varint_small: "v \<le> 0x7F \<Longrightarrow> drop_bit 7 v = (0 :: 64 word)"
  by (simp add: word_le_nat_alt word_unat_eq_iff unat_drop7)

lemma varint_decode:
  assumes "holds s (varint_bytes v) rest"
  shows "pb_decode_varint env s = Some (Some v, after s (length (varint_bytes v)) rest)"
proof (cases "v \<le> 0x7F")
  case True
  have v: "ucast (ucast v :: byte) = v"
    using varint_small [OF True] by (auto simp: bit_simps dest: drop_zero_bit intro!: bit_word_eqI)
  from True assms have "holds s [ucast v] rest" by (simp add: varint_bytes_def)
  from readbyte_holds [OF this, of env] True v last_byte [OF varint_small [OF True]] show ?thesis
    unfolding pb_decode_varint_def
    by (subst pb_decode_varint_loop.simps) (simp add: varint_bytes_def top_bit)
next
  case False
  then have "v \<noteq> 0" by auto
  with False assms unat64_less [of v] show ?thesis
    using varint_loop_groups [of v 0 s rest env 0] by (simp add: varint_bytes_def pb_decode_varint_def)
qed

text \<open>
  The 32-bit decoder on the bytes of a 64-bit value: up to five bytes are accepted and the bits
  above the 32nd are dropped; more bytes are an overflow.
\<close>

lemma join_groups32:
  "push_bit n (take_bit 7 (ucast v)) OR push_bit (n + 7) (ucast (drop_bit 7 v)) =
     (push_bit n (ucast v) :: 32 word)" for v :: "64 word"
  by (auto simp: bit_simps intro!: bit_word_eqI)

lemma ucast_low7: "ucast (ucast (take_bit 7 v) :: byte) = (take_bit 7 (ucast v) :: 32 word)"
  for v :: "64 word"
  by (auto simp: bit_simps intro!: bit_word_eqI)

lemma varint32_loop_groups:
  assumes "v \<noteq> 0" and "unat v < 2 ^ (35 - bitpos)" and "7 dvd bitpos"
    and "holds s (clear_top (varint_groups v)) rest"
  shows "pb_decode_varint32_loop env s bitpos result =
    Some (Some (result OR push_bit bitpos (ucast v)), after s (length (clear_top (varint_groups v))) rest)"
  using assms
proof (induction v arbitrary: s bitpos result rule: varint_groups.induct)
  case (1 v)
  have "bitpos < 35" using "1.prems"(1,2) by (cases "35 \<le> bitpos") (auto simp: unsigned_eq_0_iff)
  then have bp: "bitpos < 32" using "1.prems"(3) by (auto elim!: dvdE)
  show ?case
  proof (cases "drop_bit 7 v = 0")
    case True
    have v: "ucast (ucast v :: byte) = (ucast v :: 32 word)"
      using True by (auto simp: bit_simps dest: drop_zero_bit intro!: bit_word_eqI)
    from True "1.prems" have "holds s [ucast v] rest" by (simp add: clear_top_groups)
    from readbyte_holds [OF this, of env] True bp v last_byte [OF True] "1.prems"(1) show ?thesis
      by (subst pb_decode_varint32_loop.simps) (simp add: clear_top_groups top_bit)
  next
    case False
    let ?b = "ucast (take_bit 7 v) OR 0x80 :: byte"
    let ?gs = "clear_top (varint_groups (drop_bit 7 v))"
    have cl: "clear_top (varint_groups v) = ?b # ?gs" using False "1.prems"(1) by (simp add: clear_top_groups)
    then have h: "holds s [?b] (?gs @ rest)" "holds (after s 1 (?gs @ rest)) ?gs rest"
      using "1.prems"(4) holds_Cons by metis+
    have fit: "unat (drop_bit 7 v) < 2 ^ (35 - (bitpos + 7))"
      using drop7_fits [OF "1.prems"(2) False] by simp
    have "7 dvd bitpos + 7" using "1.prems"(3) by simp
    from "1.IH" [OF "1.prems"(1) False fit this h(2)]
    have "pb_decode_varint32_loop env (after s 1 (?gs @ rest)) (bitpos + 7)
        (result OR push_bit bitpos (take_bit 7 (ucast v))) =
        Some (Some (result OR push_bit bitpos (ucast v)), after s (Suc (length ?gs)) rest)"
      by (simp add: or.assoc join_groups32)
    with readbyte_holds [OF h(1), of env] bp cont_byte [of v] ucast_low7 [of v] cl show ?thesis
      by (subst pb_decode_varint32_loop.simps) (simp add: top_bit)
  qed
qed

lemma varint32_loop_overflow:
  assumes "2 ^ (35 - bitpos) \<le> unat v" and "7 dvd bitpos" and "bitpos \<le> 35"
    and "holds s (clear_top (varint_groups v)) rest"
  shows "\<exists>s'. pb_decode_varint32_loop env s bitpos result = Some (None, PB_SET_ERROR s' ''varint overflow'') \<and>
    ierrmsg s' = ierrmsg s"
  using assms
proof (induction v arbitrary: s bitpos result rule: varint_groups.induct)
  case (1 v)
  show ?case
  proof (cases "32 \<le> bitpos")
    case True
    then show ?thesis by (subst pb_decode_varint32_loop.simps) auto
  next
    case bp: False
    then have le: "bitpos + 7 \<le> 35" using "1.prems"(2) by (auto elim!: dvdE)
    then have "(2::nat) ^ (35 - bitpos) = 2 ^ (35 - (bitpos + 7)) * 128"
      using power_add [of "2::nat" "35 - (bitpos + 7)" 7] by simp
    then have big: "2 ^ (35 - (bitpos + 7)) \<le> unat (drop_bit 7 v)"
      using "1.prems"(1) by (simp add: unat_drop7 less_eq_div_iff_mult_less_eq)
    then have d: "drop_bit 7 v \<noteq> 0" by auto
    then have nz: "v \<noteq> 0" by auto
    let ?b = "ucast (take_bit 7 v) OR 0x80 :: byte"
    let ?gs = "clear_top (varint_groups (drop_bit 7 v))"
    have "clear_top (varint_groups v) = ?b # ?gs" using d nz by (simp add: clear_top_groups)
    then have h: "holds s [?b] (?gs @ rest)" "holds (after s 1 (?gs @ rest)) ?gs rest"
      using "1.prems"(4) holds_Cons by metis+
    have "7 dvd bitpos + 7" using "1.prems"(2) by simp
    from "1.IH" [OF nz big this le h(2)] readbyte_holds [OF h(1), of env] bp cont_byte [of v]
    show ?thesis by (subst pb_decode_varint32_loop.simps) (simp add: top_bit)
  qed
qed

lemma varint32_truncates:
  assumes "holds s (varint_bytes v) rest"
  shows "if unat v < 2 ^ 35
    then pb_decode_varint32 env s = Some (Some (ucast v), after s (length (varint_bytes v)) rest)
    else \<exists>s'. pb_decode_varint32 env s = Some (None, PB_SET_ERROR s' ''varint overflow'') \<and>
      ierrmsg s' = ierrmsg s"
proof (cases "v \<le> 0x7F")
  case True
  note z = varint_small [OF True]
  have v: "ucast (ucast v :: byte) = (ucast v :: 32 word)"
    using z by (auto simp: bit_simps dest: drop_zero_bit intro!: bit_word_eqI)
  from True assms have "holds s [ucast v] rest" by (simp add: varint_bytes_def)
  moreover have "unat v < 2 ^ 35" using True by (simp add: word_le_nat_alt)
  ultimately show ?thesis
    using readbyte_holds [of s "ucast v" rest env] True v last_byte(1) [OF z]
    by (simp add: pb_decode_varint32_def varint_bytes_def top_bit)
next
  case False
  let ?b = "ucast (take_bit 7 v) OR 0x80 :: byte"
  let ?gs = "clear_top (varint_groups (drop_bit 7 v))"
  have nz: "v \<noteq> 0" using False by (metis word_zero_le)
  have d: "drop_bit 7 v \<noteq> 0"
    using False by (auto simp: word_unat_eq_iff unat_drop7 word_le_nat_alt div_eq_0_iff)
  have cl: "varint_bytes v = ?b # ?gs" using False nz d by (simp add: varint_bytes_def clear_top_groups)
  then have h: "holds s [?b] (?gs @ rest)" "holds (after s 1 (?gs @ rest)) ?gs rest"
    using assms holds_Cons by metis+
  have first: "pb_decode_varint32 env s =
      pb_decode_varint32_loop env (after s 1 (?gs @ rest)) 7 (take_bit 7 (ucast v))"
    using readbyte_holds [OF h(1), of env] cont_byte [of v] ucast_low7 [of v]
    by (simp add: pb_decode_varint32_def top_bit)
  show ?thesis
  proof (cases "unat v < 2 ^ 35")
    case True
    then have fit: "unat (drop_bit 7 v) < 2 ^ (35 - 7)" by (simp add: unat_drop7)
    show ?thesis
      using varint32_loop_groups [OF d fit _ h(2), of env "take_bit 7 (ucast v)"] True first cl
        join_groups32 [of 0 v] by simp
  next
    case False
    then have big: "2 ^ (35 - 7) \<le> unat (drop_bit 7 v)" by (simp add: unat_drop7)
    show ?thesis
      using varint32_loop_overflow [OF big _ _ h(2), of env "take_bit 7 (ucast v)"] False first
      by auto
  qed
qed

lemma varint32_decode:
  assumes "holds s (varint_bytes (ucast (v :: 32 word))) rest"
  shows "pb_decode_varint32 env s = Some (Some v, after s (length (varint_bytes (ucast v))) rest)"
proof -
  have "unat (ucast v :: 64 word) < 2 ^ 35" using unat32_less [of v] by simp
  moreover have "ucast (ucast v :: 64 word) = v" by (auto simp: bit_simps intro!: bit_word_eqI)
  ultimately show ?thesis using varint32_truncates [OF assms, of env] by simp
qed

subsection \<open>The other primitive values\<close>

lemma zigzag_inverse:
  "(if zigzag v AND 1 \<noteq> 0 then NOT (drop_bit 1 (zigzag v)) else drop_bit 1 (zigzag v)) = v"
proof -
  have last63: "n = 63 \<or> n < 63" if "n < 64" for n :: nat using that by linarith
  have neg: "v <s 0 \<longleftrightarrow> bit v 63" using bit_last_iff [of v] by (simp add: word_sless_alt)
  have odd: "x AND 1 = 0 \<longleftrightarrow> \<not> bit x 0" for x :: "64 word"
    by (simp add: and_one_eq bit_0 odd_iff_mod_2_eq_one)
  have "bit (drop_bit 1 (push_bit 1 v)) n \<longleftrightarrow> n < 63 \<and> bit v n" for n
    unfolding bit_drop_bit_eq comp_def bit_push_bit_iff by auto
  then have "drop_bit 1 (push_bit 1 v) = v" if "\<not> bit v 63"
    using that by (intro bit_word_eqI) (use last63 in auto)
  moreover have "bit (NOT (drop_bit 1 (NOT (push_bit 1 v)))) n \<longleftrightarrow> n < 64 \<and> (n < 63 \<longrightarrow> bit v n)" for n
    unfolding bit_not_iff bit_drop_bit_eq comp_def bit_push_bit_iff by auto
  then have "NOT (drop_bit 1 (NOT (push_bit 1 v))) = v" if "bit v 63"
    using that by (intro bit_word_eqI) (use last63 in auto)
  moreover have "\<not> bit (push_bit 1 v) 0" unfolding bit_push_bit_iff by simp
  ultimately show ?thesis by (simp add: zigzag_def neg odd bit_not_iff)
qed

lemma svarint_decode:
  "holds s (varint_bytes (zigzag v)) rest \<Longrightarrow>
     pb_decode_svarint env s = Some (Some v, after s (length (varint_bytes (zigzag v))) rest)"
  using zigzag_inverse [of v]
  by (simp add: pb_decode_svarint_def varint_decode [where env = env] split: if_splits)

lemma and_FF: "ucast (x AND 0xFF) = (ucast x :: byte)" for x :: "'a::len word"
proof -
  have "x AND 0xFF = take_bit 8 x" by (simp add: take_bit_eq_mask mask_eq_exp_minus_1)
  then show ?thesis by (auto simp: bit_simps intro!: bit_word_eqI)
qed

lemma fixed32_bytes_word: "fixed32_bytes v = bytes_of_word 4 v"
  by (simp add: fixed32_bytes_def and_FF eval_nat_numeral drop_bit_drop_bit)

lemma fixed64_bytes_word: "fixed64_bytes v = bytes_of_word 8 v"
  by (simp add: fixed64_bytes_def and_FF eval_nat_numeral drop_bit_drop_bit)

lemma join_bytes32:
  "length bs = 4 \<Longrightarrow> push_bit 0 (ucast (bs ! 0)) OR push_bit 8 (ucast (bs ! 1)) OR
     push_bit 16 (ucast (bs ! 2)) OR push_bit 24 (ucast (bs ! 3)) = (word_of_bytes bs :: 32 word)"
  by (auto simp: length_Suc_conv eval_nat_numeral push_bit_or)

lemma join_bytes64:
  "length bs = 8 \<Longrightarrow> push_bit 0 (ucast (bs ! 0)) OR push_bit 8 (ucast (bs ! 1)) OR
     push_bit 16 (ucast (bs ! 2)) OR push_bit 24 (ucast (bs ! 3)) OR
     push_bit 32 (ucast (bs ! 4)) OR push_bit 40 (ucast (bs ! 5)) OR
     push_bit 48 (ucast (bs ! 6)) OR push_bit 56 (ucast (bs ! 7)) = (word_of_bytes bs :: 64 word)"
  by (auto simp: length_Suc_conv eval_nat_numeral push_bit_or)

lemma fixed32_decode:
  assumes "holds s (fixed32_bytes v) rest"
  shows "pb_decode_fixed32 env s = Some (Some v, after s (length (fixed32_bytes v)) rest)"
  using read_holds [OF assms, of env] join_bytes32 [of "bytes_of_word 4 v"]
    word_of_bytes_inverse [of 4 v]
  by (simp add: pb_decode_fixed32_def fixed32_bytes_word)

lemma fixed64_decode:
  assumes "holds s (fixed64_bytes v) rest"
  shows "pb_decode_fixed64 env s = Some (Some v, after s (length (fixed64_bytes v)) rest)"
  using read_holds [OF assms, of env] join_bytes64 [of "bytes_of_word 8 v"]
    word_of_bytes_inverse [of 8 v]
  by (simp add: pb_decode_fixed64_def fixed64_bytes_word)

lemma tag_word_fits:
  assumes "wt < 8" and "tag < 2 ^ 29"
  shows "ucast (ucast (tag_word wt tag) :: 32 word) = tag_word wt tag"
    and "(ucast (tag_word wt tag) :: 32 word) AND 7 = wt"
    and "drop_bit 3 (ucast (tag_word wt tag) :: 32 word) = tag"
proof -
  have "take_bit 3 wt = wt" "take_bit 29 tag = tag"
    using assms by (simp_all add: word_unat_eq_iff unsigned_take_bit_eq take_bit_nat_eq_self_iff
        word_less_nat_alt)
  then have w: "bit wt n \<Longrightarrow> n < 3" and t: "bit tag n \<Longrightarrow> n < 29" for n
    by (metis bit_take_bit_iff)+
  have "\<And>x :: 32 word. x AND 7 = take_bit 3 x"
    by (simp add: take_bit_eq_mask mask_eq_exp_minus_1)
  then show "(ucast (tag_word wt tag) :: 32 word) AND 7 = wt"
    by (auto simp: tag_word_def bit_simps dest: w intro!: bit_word_eqI)
  have "n < 32" if "bit tag (n - 3)" for n using t [OF that] by linarith
  moreover have "n < 32" if "bit wt n" for n using w [OF that] by linarith
  ultimately show "ucast (ucast (tag_word wt tag) :: 32 word) = tag_word wt tag"
    by (auto simp: tag_word_def bit_simps intro!: bit_word_eqI)
  show "drop_bit 3 (ucast (tag_word wt tag) :: 32 word) = tag"
    by (auto simp: tag_word_def bit_simps dest: w t intro!: bit_word_eqI)
qed

lemma tag_decode:
  assumes "wt < 8" and "tag < 2 ^ 29" and "tag \<noteq> 0" and "holds s (varint_bytes (tag_word wt tag)) rest"
  shows "pb_decode_tag env s =
    Some (\<lparr>tr_ok = True, tr_wire_type = wt, tr_tag = tag, tr_eof = False\<rparr>,
      after s (length (varint_bytes (tag_word wt tag))) rest)"
proof -
  note fit = tag_word_fits [OF assms(1,2)]
  let ?w = "ucast (tag_word wt tag) :: 32 word"
  have "?w \<noteq> 0" using fit(3) assms(3) by auto
  moreover have "pb_decode_varint32 env s =
      Some (Some ?w, after s (length (varint_bytes (tag_word wt tag))) rest)"
    using varint32_decode [of s ?w rest env] assms(4) fit(1) by simp
  ultimately show ?thesis using fit by (simp add: pb_decode_tag_def)
qed

subsection \<open>The length of a varint\<close>

lemma groups_length: "unat v < 2 ^ (7 * k) \<Longrightarrow> length (varint_groups v) \<le> k"
proof (induction v arbitrary: k rule: varint_groups.induct)
  case (1 v)
  show ?case
  proof (cases "v = 0")
    case False
    then have "k \<noteq> 0" using "1.prems" by (cases k) (auto simp: unsigned_eq_0_iff)
    then have "(2::nat) ^ (7 * k) = 2 ^ (7 * (k - 1)) * 128"
      using power_add [of "2::nat" "7 * (k - 1)" 7] by (cases k) (simp_all add: add.commute)
    then have "unat (drop_bit 7 v) < 2 ^ (7 * (k - 1))"
      using "1.prems" by (simp add: unat_drop7 less_mult_imp_div_less)
    from "1.IH" [OF False this] \<open>k \<noteq> 0\<close> False show ?thesis
      by (subst varint_groups.simps) simp
  qed (simp add: varint_groups.simps)
qed

lemma varint_length: "1 \<le> length (varint_bytes v)" "length (varint_bytes v) \<le> 10"
proof -
  have "length (varint_groups v) \<le> 10"
    using unat64_less [of v] by (intro groups_length) simp
  moreover have "v \<noteq> 0" if "\<not> v \<le> 0x7F" using that by (metis word_zero_le)
  ultimately show "1 \<le> length (varint_bytes v)" "length (varint_bytes v) \<le> 10"
    using groups_nonempty [of v] by (auto simp: varint_bytes_def clear_top_def Suc_leI)
qed

subsection \<open>The contract of a primitive encoding\<close>

locale prim_codec =
  fixes bytes :: "'v \<Rightarrow> byte list"
    and dec :: "('i, 'o) pb_env \<Rightarrow> 'i pb_istream_t \<Rightarrow> ('v option \<times> 'i pb_istream_t) option"
  assumes decode: "holds s (bytes v) rest \<Longrightarrow> dec env s = Some (Some v, after s (length (bytes v)) rest)"
    and short: "length (bytes v) \<le> 10"
begin

text \<open>No encoding is a prefix of another one, so a sequence of values is read in one way only.\<close>

lemma prefix_code:
  assumes "bytes v @ r = bytes v' @ r'"
  shows "v = v' \<and> r = r'"
proof -
  let ?s = "\<lparr>istate = Buf_read (bytes v @ r), bytes_left = - 1, ierrmsg = None\<rparr> :: 'i pb_istream_t"
  have "unat (- 1 :: size_t) = 2 ^ 64 - 1" by (simp add: unsigned_minus_1_eq_mask mask_eq_exp_minus_1)
  then have h: "holds ?s (bytes v) r" "holds ?s (bytes v') r'"
    using short [of v] short [of v'] assms by (simp_all add: holds_def)
  have "v = v'" using decode [OF h(1)] decode [OF h(2)] by simp
  with assms show ?thesis by simp
qed

text \<open>What the encoder puts into a buffer of ten bytes, the decoder reads back, to the last byte.\<close>

lemma roundtrip:
  fixes env :: "('i, 'o) pb_env"
  assumes "enc = pb_write env (pb_ostream_from_buffer 10 10) (Some (bytes v)) (of_nat (length (bytes v)))"
  shows "\<exists>s bs room t. enc = Some (True, s) \<and> ostate s = Buf_write bs room \<and>
    unat (bytes_written s) = length bs \<and>
    dec env (pb_istream_from_buffer bs (bytes_written s)) = Some (Some v, t) \<and>
    istate t = Buf_read [] \<and> bytes_left t = 0"
proof -
  let ?n = "of_nat (length (bytes v)) :: size_t"
  have n: "unat ?n = length (bytes v)" using short [of v] by (simp add: unat_of_nat)
  then have "?n \<le> 10" using short [of v] by (simp add: word_le_nat_alt)
  then have "enc = Some (True, \<lparr>ostate = Buf_write (bytes v) (10 - length (bytes v)), max_size = 10,
      bytes_written = ?n, oerrmsg = None\<rparr>)"
    using short [of v] unfolding assms
    by (simp add: pb_write_def pb_ostream_from_buffer_def call_write_def buf_write_def not_less)
  moreover have "holds (pb_istream_from_buffer (bytes v) ?n) (bytes v) []"
    by (simp add: holds_def pb_istream_from_buffer_def n)
  from decode [OF this, of env] have "dec env (pb_istream_from_buffer (bytes v) ?n) =
      Some (Some v, after (pb_istream_from_buffer (bytes v) ?n) (length (bytes v)) [])" .
  ultimately show ?thesis using n by (simp add: pb_istream_from_buffer_def)
qed

end

interpretation varint: prim_codec varint_bytes pb_decode_varint
  by unfold_locales (rule varint_decode varint_length; assumption?)+

interpretation varint32: prim_codec "\<lambda>v. varint_bytes (ucast v)" pb_decode_varint32
  by unfold_locales (rule varint32_decode varint_length; assumption?)+

interpretation svarint: prim_codec "\<lambda>v. varint_bytes (zigzag v)" pb_decode_svarint
  by unfold_locales (rule svarint_decode varint_length; assumption?)+

interpretation fixed32: prim_codec fixed32_bytes pb_decode_fixed32
  by unfold_locales (rule fixed32_decode, assumption, simp add: fixed32_bytes_def)

interpretation fixed64: prim_codec fixed64_bytes pb_decode_fixed64
  by unfold_locales (rule fixed64_decode, assumption, simp add: fixed64_bytes_def)

subsection \<open>The round trips\<close>

text \<open>
  C3: every 64-bit value survives \<open>pb_encode_varint\<close> followed by \<open>pb_decode_varint\<close>: the encoder
  needs at most the ten bytes of its local buffer, and the decoder returns the value after reading
  exactly the bytes written.
\<close>
theorem varint_roundtrip:
  "\<exists>s bs room t. pb_encode_varint env (pb_ostream_from_buffer 10 10) v = Some (True, s) \<and>
     ostate s = Buf_write bs room \<and> unat (bytes_written s) = length bs \<and>
     pb_decode_varint env (pb_istream_from_buffer bs (bytes_written s)) = Some (Some v, t) \<and>
     istate t = Buf_read [] \<and> bytes_left t = 0"
  unfolding pb_encode_varint_def by (rule varint.roundtrip [OF refl])

text \<open>
  Zig-zag encoding loses nothing: every signed 64-bit value, the most negative one included,
  is returned by \<open>pb_decode_svarint\<close> from what \<open>pb_encode_svarint\<close> wrote.
\<close>
theorem svarint_roundtrip:
  "\<exists>s bs room t. pb_encode_svarint env (pb_ostream_from_buffer 10 10) v = Some (True, s) \<and>
     ostate s = Buf_write bs room \<and> unat (bytes_written s) = length bs \<and>
     pb_decode_svarint env (pb_istream_from_buffer bs (bytes_written s)) = Some (Some v, t) \<and>
     istate t = Buf_read [] \<and> bytes_left t = 0"
  unfolding pb_encode_svarint_def pb_encode_varint_def by (rule svarint.roundtrip [OF refl])

text \<open>
  Fixed-width values are written in little-endian order and read back unchanged, at 32 and at
  64 bits.
\<close>
theorem fixed_roundtrip:
  "(\<exists>s bs room t. pb_encode_fixed32 env (pb_ostream_from_buffer 10 10) v = Some (True, s) \<and>
     ostate s = Buf_write bs room \<and> unat (bytes_written s) = length bs \<and>
     pb_decode_fixed32 env (pb_istream_from_buffer bs (bytes_written s)) = Some (Some v, t) \<and>
     istate t = Buf_read [] \<and> bytes_left t = 0) \<and>
   (\<exists>s bs room t. pb_encode_fixed64 env (pb_ostream_from_buffer 10 10) w = Some (True, s) \<and>
     ostate s = Buf_write bs room \<and> unat (bytes_written s) = length bs \<and>
     pb_decode_fixed64 env (pb_istream_from_buffer bs (bytes_written s)) = Some (Some w, t) \<and>
     istate t = Buf_read [] \<and> bytes_left t = 0)"
proof -
  have "length (fixed32_bytes v) = 4" "length (fixed64_bytes w) = 8"
    by (simp_all add: fixed32_bytes_def fixed64_bytes_def)
  then have "pb_encode_fixed32 env (pb_ostream_from_buffer 10 10) v = pb_write env
      (pb_ostream_from_buffer 10 10) (Some (fixed32_bytes v)) (of_nat (length (fixed32_bytes v)))"
    and "pb_encode_fixed64 env (pb_ostream_from_buffer 10 10) w = pb_write env
      (pb_ostream_from_buffer 10 10) (Some (fixed64_bytes w)) (of_nat (length (fixed64_bytes w)))"
    by (simp_all add: pb_encode_fixed32_def pb_encode_fixed64_def)
  from fixed32.roundtrip [OF this(1)] fixed64.roundtrip [OF this(2)] show ?thesis by blast
qed

text \<open>
  A field tag that fits the wire format (29 bits, three bits of wire type) is decoded to the
  wire type and field number it was made from, and never taken for the end of the message.
\<close>
theorem tag_roundtrip:
  assumes "wt < 8" and "tag < 2 ^ 29" and "tag \<noteq> 0"
  shows "\<exists>s bs room t. pb_encode_tag env (pb_ostream_from_buffer 10 10) wt tag = Some (True, s) \<and>
     ostate s = Buf_write bs room \<and>
     pb_decode_tag env (pb_istream_from_buffer bs (bytes_written s)) =
       Some (\<lparr>tr_ok = True, tr_wire_type = wt, tr_tag = tag, tr_eof = False\<rparr>, t) \<and>
     istate t = Buf_read [] \<and> bytes_left t = 0"
proof -
  note fit = tag_word_fits [OF assms(1,2)]
  let ?w = "ucast (tag_word wt tag) :: 32 word"
  have nz: "?w \<noteq> 0" using fit(3) assms(3) by auto
  have "pb_encode_tag env (pb_ostream_from_buffer 10 10) wt tag = pb_write env
      (pb_ostream_from_buffer 10 10) (Some (varint_bytes (ucast ?w))) (of_nat (length (varint_bytes (ucast ?w))))"
    by (simp add: pb_encode_tag_def pb_encode_varint_def fit(1))
  from varint32.roundtrip [OF this] obtain s bs room t where
    "pb_encode_tag env (pb_ostream_from_buffer 10 10) wt tag = Some (True, s)"
    "ostate s = Buf_write bs room"
    "pb_decode_varint32 env (pb_istream_from_buffer bs (bytes_written s)) = Some (Some ?w, t)"
    "istate t = Buf_read []" "bytes_left t = 0" by blast
  then show ?thesis using fit nz by (simp add: pb_decode_tag_def)
qed

theorem tag_roundtrip_witness:
  "\<exists>s bs room t. pb_encode_tag demo_env (pb_ostream_from_buffer 10 10) PB_WT_STRING 536870911 = Some (True, s) \<and>
     ostate s = Buf_write bs room \<and>
     pb_decode_tag demo_env (pb_istream_from_buffer bs (bytes_written s)) =
       Some (\<lparr>tr_ok = True, tr_wire_type = PB_WT_STRING, tr_tag = 536870911, tr_eof = False\<rparr>, t) \<and>
     istate t = Buf_read [] \<and> bytes_left t = 0"
  by (rule tag_roundtrip) (simp_all add: wt_defs)

text \<open>
  Varints form a prefix code: two streams that start with the encodings of two values are
  equal only if the values and what follows them are equal.
\<close>
theorem varint_prefix_code:
  "varint_bytes v @ r = varint_bytes v' @ r' \<longleftrightarrow> v = v' \<and> r = r'"
  using varint.prefix_code by blast

text \<open>
  C4: \<open>pb_decode_varint32\<close> on the bytes of a 64-bit value: up to 35 bits it succeeds and returns
  the low 32 bits, silently dropping the others; beyond that it reports an overflow.
\<close>
theorem varint32_on_wide_values:
  assumes "holds s (varint_bytes v) rest" and "ierrmsg s = None"
  shows "\<exists>r s'. pb_decode_varint32 env s = Some (r, s') \<and>
    (if unat v < 2 ^ 35 then r = Some (ucast v) \<and> istate s' = Buf_read rest
     else r = None \<and> ierrmsg s' = Some ''varint overflow'')"
  using varint32_truncates [OF assms(1), of env] assms(2)
  by (auto simp: PB_SET_ERROR_def split: if_splits option.splits)

theorem varint32_on_wide_values_witness:
  "\<exists>r s'. pb_decode_varint32 demo_env (pb_istream_from_buffer [0x80, 0x80, 0x80, 0x80, 0x10] 5) = Some (r, s') \<and>
    (if unat (0x100000000 :: 64 word) < 2 ^ 35 then r = Some (ucast (0x100000000 :: 64 word)) \<and> istate s' = Buf_read []
     else r = None \<and> ierrmsg s' = Some ''varint overflow'')"
proof (rule varint32_on_wide_values)
  have "varint_bytes 0x100000000 = [0x80, 0x80, 0x80, 0x80, 0x10]" by code_simp
  then show "holds (pb_istream_from_buffer [0x80, 0x80, 0x80, 0x80, 0x10] 5) (varint_bytes 0x100000000) []"
    by (simp add: holds_def pb_istream_from_buffer_def)
qed (simp add: pb_istream_from_buffer_def)

end
