(* ===== verification/Pb_Wire.thy ===== *)
theory Pb_Wire
  imports Pb_Roundtrip
begin

text \<open>
  The wire format of a message as a function of memory, without streams, sizes computed in
  advance or nested writers; and the proof that the encoder implements it. \<open>msg_wire\<close> is defined
  for messages of statically allocated fields (and callbacks that are not set) whose contents are
  valid: counts within their arrays, byte arrays within their buffers.

  The contract of a routine that writes to a stream is \<open>emits\<close>: a stream that has room gets the
  bytes appended, a stream that only counts advances by their number, and a stream that has too
  little room gets a prefix and the error. All encoders satisfy it for the bytes of the wire
  format, so computing a size and writing agree by construction.
\<close>

subsection \<open>The format\<close>

definition with_length :: "byte list \<Rightarrow> byte list" where
  "with_length bs = varint_bytes (of_nat (length bs)) @ bs"

definition value_wire :: "(pb_field_t list \<Rightarrow> addr \<Rightarrow> mem \<Rightarrow> byte list option) \<Rightarrow> ('i, 'o) pb_env \<Rightarrow>
    pb_field_t \<Rightarrow> addr \<Rightarrow> mem \<Rightarrow> byte list option" where
  "value_wire sub env f p m =
     (let lt = PB_LTYPE (pf_type f) in
      if lt = PB_LTYPE_VARINT then do { v \<leftarrow> load_signed m p (pf_data_size f); map_option varint_bytes v }
      else if lt = PB_LTYPE_UVARINT then do { v \<leftarrow> load_unsigned m p (pf_data_size f); map_option varint_bytes v }
      else if lt = PB_LTYPE_SVARINT then do {
        v \<leftarrow> load_signed m p (pf_data_size f); map_option (\<lambda>x. varint_bytes (zigzag x)) v }
      else if lt = PB_LTYPE_FIXED32 then map_option fixed32_bytes (load32 m p)
      else if lt = PB_LTYPE_FIXED64 then map_option fixed64_bytes (load64 m p)
      else if lt = PB_LTYPE_BYTES then do {
        n \<leftarrow> load32 m p;
        if p = 0 \<or> ucast (pf_data_size f) < PB_BYTES_ARRAY_T_ALLOCSIZE n then None
        else map_option with_length (load_bytes m (p + 4) (unat n))
      }
      else if lt = PB_LTYPE_STRING then do {
        n \<leftarrow> c_strnlen m p (unat (pf_data_size f)) 0;
        if p = 0 then None else map_option with_length (load_bytes m p n)
      }
      else if lt = PB_LTYPE_SUBMESSAGE then do {
        fs \<leftarrow> ptr_fields env (pf_ptr f); map_option with_length (sub fs p m) }
      else if lt = PB_LTYPE_FIXED_LENGTH_BYTES then
        map_option with_length (load_bytes m p (unat (pf_data_size f)))
      else None)"

definition tag_wire :: "pb_wire_type_t \<Rightarrow> pb_field_t \<Rightarrow> byte list" where
  "tag_wire wt f = varint_bytes (tag_word wt (pf_tag f))"

text \<open>The entries of an array, one after the other.\<close>

primrec items_wire :: "(addr \<Rightarrow> byte list option) \<Rightarrow> pb_size_t \<Rightarrow> nat \<Rightarrow> addr \<Rightarrow> byte list option" where
  "items_wire val data_size 0 p = Some []"
| "items_wire val data_size (Suc n) p = do {
     bs \<leftarrow> val p;
     rest \<leftarrow> items_wire val data_size n (p + uint data_size);
     Some (bs @ rest)
   }"

definition tagged_wire :: "(pb_field_t \<Rightarrow> addr \<Rightarrow> byte list option) \<Rightarrow> pb_field_t \<Rightarrow> addr \<Rightarrow> byte list option" where
  "tagged_wire val f p = do {
     wt \<leftarrow> wire_type_of (PB_LTYPE (pf_type f));
     bs \<leftarrow> val f p;
     Some (tag_wire wt f @ bs)
   }"

definition array_wire :: "(pb_field_t \<Rightarrow> addr \<Rightarrow> byte list option) \<Rightarrow> pb_field_t \<Rightarrow> addr \<Rightarrow> nat \<Rightarrow>
    byte list option" where
  "array_wire val f p n =
     (if n = 0 then Some []
      else if unat (pf_array_size f) < n then None
      else if PB_LTYPE (pf_type f) \<le> PB_LTYPE_LAST_PACKABLE
      then map_option (\<lambda>bs. tag_wire PB_WT_STRING f @ with_length bs)
        (items_wire (val f) (pf_data_size f) n p)
      else items_wire (tagged_wire val f) (pf_data_size f) n p)"

definition field_wire :: "(pb_field_t \<Rightarrow> addr \<Rightarrow> byte list option) \<Rightarrow> (pb_field_t \<Rightarrow> addr \<Rightarrow> bool option) \<Rightarrow>
    pb_field_t \<Rightarrow> addr \<Rightarrow> mem \<Rightarrow> byte list option" where
  "field_wire val chk f p m =
     (let aty = PB_ATYPE (pf_type f); hty = PB_HTYPE (pf_type f);
          explicit = (pf_size_offset f \<noteq> 0); q = p + sint (pf_size_offset f) in
      if PB_LTYPE (pf_type f) = PB_LTYPE_EXTENSION then None
      else if aty = PB_ATYPE_CALLBACK then do {
        fn \<leftarrow> load64 m (p + cb_funcs_off); if fn = 0 then Some [] else None }
      else if aty \<noteq> PB_ATYPE_STATIC then None
      else if hty = PB_HTYPE_REQUIRED then (if p = 0 then None else tagged_wire val f p)
      else if hty = PB_HTYPE_OPTIONAL then do {
        has \<leftarrow> (if explicit then map_option (\<lambda>b. b \<noteq> 0) (load8 m q) else map_option Not (chk f p));
        if has then tagged_wire val f p else Some []
      }
      else if hty = PB_HTYPE_REPEATED then do {
        n \<leftarrow> (if explicit then load32 m q else None);
        array_wire val f p (unat n)
      }
      else do {
        which \<leftarrow> (if explicit then load32 m q else None);
        if which = pf_tag f then tagged_wire val f p else Some []
      })"

primrec fields_wire :: "(nat \<Rightarrow> byte list option) \<Rightarrow> nat list \<Rightarrow> byte list option" where
  "fields_wire fld [] = Some []"
| "fields_wire fld (i # is) = do { bs \<leftarrow> fld i; rest \<leftarrow> fields_wire fld is; Some (bs @ rest) }"

primrec msg_wire :: "nat \<Rightarrow> ('i, 'o) pb_env \<Rightarrow> pb_field_t list \<Rightarrow> addr \<Rightarrow> mem \<Rightarrow> byte list option" where
  "msg_wire 0 env = (\<lambda>fs src m. None)"
| "msg_wire (Suc d) env = (\<lambda>fs src m. if \<not> wf_array fs then None else fields_wire (\<lambda>i.
     field_wire (\<lambda>f p. value_wire (msg_wire d env) env f p m)
       (\<lambda>f p. pb_check_proto3_default_value (Suc d) env f p m)
       (fs ! i) (src + data_off fs i) m) [0..<nfields fs])"

subsection \<open>Streams that are written to\<close>

definition ovalid :: "'o pb_ostream_t \<Rightarrow> bool" where
  "ovalid s \<longleftrightarrow> (case ostate s of
     Null_write \<Rightarrow> True
   | Buf_write out room \<Rightarrow> unat (bytes_written s) \<le> unat (max_size s) \<and>
       unat (max_size s) \<le> unat (bytes_written s) + room \<and> unat (max_size s) < 2 ^ 63 \<and> oerrmsg s = None
   | User_write _ \<Rightarrow> False)"

definition fits :: "'o pb_ostream_t \<Rightarrow> nat \<Rightarrow> bool" where
  "fits s n \<longleftrightarrow> ostate s = Null_write \<or> unat (bytes_written s) + n \<le> unat (max_size s)"

definition put :: "'o pb_ostream_t \<Rightarrow> byte list \<Rightarrow> 'o pb_ostream_t" where
  "put s bs = s\<lparr>ostate := (case ostate s of
       Buf_write out room \<Rightarrow> Buf_write (out @ bs) (room - length bs) | st \<Rightarrow> st),
     bytes_written := bytes_written s + of_nat (length bs)\<rparr>"

definition full :: "'o pb_ostream_t \<Rightarrow> 'o pb_ostream_t" where
  "full s = s\<lparr>oerrmsg := Some ''stream full''\<rparr>"

definition emits :: "mem \<Rightarrow> ('o pb_ostream_t \<Rightarrow> (bool \<times> 'o pb_ostream_t \<times> mem) option) \<Rightarrow> byte list \<Rightarrow> bool" where
  "emits m w bs \<longleftrightarrow> length bs < 2 ^ 63 \<longrightarrow> (\<forall>s. ovalid s \<longrightarrow>
     (if fits s (length bs) then w s = Some (True, put s bs, m)
      else \<exists>k < length bs. fits s k \<and> w s = Some (False, full (put s (take k bs)), m)))"

lemma put_sel [simp]:
  "max_size (put s bs) = max_size s" "oerrmsg (put s bs) = oerrmsg s"
  "bytes_written (put s bs) = bytes_written s + of_nat (length bs)"
  "ostate (put s bs) = Null_write \<longleftrightarrow> ostate s = Null_write"
  by (simp_all add: put_def split: ostate.splits)

lemma put_Nil [simp]: "put s [] = s"
  by (simp add: put_def split: ostate.splits)

lemma put_put [simp]: "put (put s xs) ys = put s (xs @ ys)"
  by (auto simp: put_def split: ostate.splits)

lemma put_valid:
  assumes "ovalid s" and "fits s (length bs)" and "length bs < 2 ^ 63"
  shows "ovalid (put s bs)"
    and "fits (put s bs) n \<longleftrightarrow> fits s (length bs + n)"
proof -
  have "unat (bytes_written s + of_nat (length bs)) = unat (bytes_written s) + length bs"
    if "ostate s \<noteq> Null_write"
    using assms that unat64_less [of "max_size s"]
    by (auto simp: fits_def unat_word_ariths unat_of_nat)
  then show "ovalid (put s bs)" "fits (put s bs) n \<longleftrightarrow> fits s (length bs + n)"
    using assms by (auto simp: ovalid_def fits_def put_def split: ostate.splits)
qed

lemma emitsD:
  assumes "emits m w bs" and "length bs < 2 ^ 63" and "ovalid s"
  shows "fits s (length bs) \<Longrightarrow> w s = Some (True, put s bs, m)"
    and "\<not> fits s (length bs) \<Longrightarrow> \<exists>k < length bs. fits s k \<and> w s = Some (False, full (put s (take k bs)), m)"
  using assms by (auto simp: emits_def split: if_splits)

lemma emits_Nil: "(\<And>s. w s = Some (True, s, m)) \<Longrightarrow> emits m w []"
  by (auto simp: emits_def fits_def ovalid_def split: ostate.splits)

text \<open>One routine after another, the second only if the first succeeds.\<close>

lemma emits_seq:
  assumes "emits m w xs" and "emits m w' ys"
    and "\<And>s ok s'. w s = Some (ok, s', m) \<Longrightarrow> v s = (if ok then w' s' else Some (False, s', m))"
  shows "emits m v (xs @ ys)"
  unfolding emits_def
proof (intro impI allI)
  fix s :: "'a pb_ostream_t"
  assume len: "length (xs @ ys) < 2 ^ 63" and s: "ovalid s"
  then have lx: "length xs < 2 ^ 63" and ly: "length ys < 2 ^ 63" by auto
  note X = emitsD [OF assms(1) lx s]
  show "if fits s (length (xs @ ys)) then v s = Some (True, put s (xs @ ys), m)
    else \<exists>k < length (xs @ ys). fits s k \<and> v s = Some (False, full (put s (take k (xs @ ys))), m)"
  proof (cases "fits s (length xs)")
    case True
    note Y = emitsD [OF assms(2) ly put_valid(1) [OF s True lx]]
    note ft = put_valid(2) [OF s True lx]
    show ?thesis
    proof (cases "fits s (length (xs @ ys))")
      case f: True
      then have "w' (put s xs) = Some (True, put (put s xs) ys, m)" using Y(1) ft by simp
      with f assms(3) [OF X(1) [OF True]] show ?thesis by simp
    next
      case f: False
      with Y(2) ft obtain k where "k < length ys" "fits s (length xs + k)"
        "w' (put s xs) = Some (False, full (put (put s xs) (take k ys)), m)" by auto
      moreover from this have "v s = Some (False, full (put s (take (length xs + k) (xs @ ys))), m)"
        using assms(3) [OF X(1) [OF True]] by simp
      ultimately show ?thesis using f by (auto intro: exI [of _ "length xs + k"])
    qed
  next
    case False
    from X(2) [OF False] obtain k where k: "k < length xs" "fits s k"
      "w s = Some (False, full (put s (take k xs)), m)" by blast
    moreover have "\<not> fits s (length (xs @ ys))" using False by (auto simp: fits_def)
    moreover have "v s = Some (False, full (put s (take k (xs @ ys))), m)"
      using assms(3) [OF k(3)] k(1) by simp
    ultimately show ?thesis by (auto intro: exI [of _ k])
  qed
qed

subsection \<open>The primitive encoders\<close>

lemma with_mem_Some [simp]: "with_mem m (Some (ok, s)) = Some (ok, s, m)"
  by (simp add: with_mem_def)

lemma with_mem_eq: "with_mem m r = Some (ok, s, m') \<longleftrightarrow> r = Some (ok, s) \<and> m' = m"
  by (cases r) (auto simp: with_mem_def)

lemma emits_then:
  assumes "emits m (\<lambda>s. with_mem m (a s)) xs" and "emits m b ys"
  shows "emits m (\<lambda>s. a s \<bind> (\<lambda>(ok, s'). if \<not> ok then Some (False, s', m) else b s')) (xs @ ys)"
  by (rule emits_seq [OF assms]) (auto simp: with_mem_eq)

lemma full_iff:
  assumes "ovalid s" and "ostate s \<noteq> Null_write" and "n < 2 ^ 63"
  shows "max_size s < bytes_written s + of_nat n \<longleftrightarrow> \<not> fits s n"
  using assms
  by (auto simp: ovalid_def fits_def word_less_nat_alt unat_word_ariths unat_of_nat split: ostate.splits)

lemma full_eq: "ovalid s \<Longrightarrow> ostate s \<noteq> Null_write \<Longrightarrow> PB_SET_ERROR_O s ''stream full'' = full s"
  by (auto simp: ovalid_def PB_SET_ERROR_O_def full_def split: ostate.splits)

lemma emits_write:
  fixes env :: "('i, 'o) pb_env"
  assumes "n = of_nat (length bs)"
  shows "emits m (\<lambda>s. with_mem m (pb_write env s (Some bs) n)) bs"
  unfolding emits_def
proof (intro impI allI)
  fix s :: "'o pb_ostream_t"
  assume len: "length bs < 2 ^ 63" and s: "ovalid s"
  show "if fits s (length bs) then with_mem m (pb_write env s (Some bs) n) = Some (True, put s bs, m)
    else \<exists>k < length bs. fits s k \<and> with_mem m (pb_write env s (Some bs) n) = Some (False, full (put s (take k bs)), m)"
  proof (cases "ostate s = Null_write")
    case True
    then show ?thesis by (simp add: fits_def pb_write_def put_def assms)
  next
    case False
    with s obtain out room where st: "ostate s = Buf_write out room"
      by (cases "ostate s") (auto simp: ovalid_def)
    show ?thesis
    proof (cases "fits s (length bs)")
      case True
      with st s have "length bs \<le> room" by (auto simp: fits_def ovalid_def)
      with True full_iff [OF s False len] st show ?thesis
        by (simp add: pb_write_def call_write_def buf_write_def put_def assms)
    next
      case f: False
      have "fits s 0" using s st by (simp add: fits_def ovalid_def)
      moreover from this f have "0 < length bs" by (metis gr0I)
      ultimately show ?thesis
        using f full_iff [OF s False len] full_eq [OF s False] st
        by (auto simp: pb_write_def assms intro!: exI [of _ 0])
    qed
  qed
qed

lemma emits_varint: "emits m (\<lambda>s. with_mem m (pb_encode_varint env s v)) (varint_bytes v)"
  unfolding pb_encode_varint_def by (rule emits_write) simp

lemma emits_svarint: "emits m (\<lambda>s. with_mem m (pb_encode_svarint env s v)) (varint_bytes (zigzag v))"
  unfolding pb_encode_svarint_def by (rule emits_varint)

lemma emits_fixed32: "emits m (\<lambda>s. with_mem m (pb_encode_fixed32 env s v)) (fixed32_bytes v)"
  unfolding pb_encode_fixed32_def by (rule emits_write) (simp add: fixed32_bytes_def)

lemma emits_fixed64: "emits m (\<lambda>s. with_mem m (pb_encode_fixed64 env s v)) (fixed64_bytes v)"
  unfolding pb_encode_fixed64_def by (rule emits_write) (simp add: fixed64_bytes_def)

lemma emits_tag: "emits m (\<lambda>s. with_mem m (pb_encode_tag env s wt (pf_tag f))) (tag_wire wt f)"
  unfolding pb_encode_tag_def tag_wire_def by (rule emits_varint)

lemma emits_string:
  assumes "n = of_nat (length bs)"
  shows "emits m (\<lambda>s. with_mem m (pb_encode_string env s (Some bs) n)) (with_length bs)"
proof -
  have "with_mem m (pb_encode_string env s (Some bs) n) =
      pb_encode_varint env s n \<bind> (\<lambda>(ok, s'). if \<not> ok then Some (False, s', m)
        else with_mem m (pb_write env s' (Some bs) n))" for s
    unfolding pb_encode_string_def
    by (cases "pb_encode_varint env s n") (auto simp: with_mem_def)
  then show ?thesis
    using emits_then [OF emits_varint [of m env n] emits_write [OF assms, of m env]] assms
    by (simp add: with_length_def)
qed

text \<open>A nested message: its size is computed with a counting stream, and the second pass finds
  room for exactly that many bytes.\<close>

lemma emits_submessage:
  fixes env :: "('i, 'o) pb_env"
  assumes e: "emits m (\<lambda>s. enc s fs src m) bs"
  shows "emits m (\<lambda>s. pb_encode_submessage enc env s fs src m) (with_length bs)"
  unfolding emits_def
proof (intro impI allI)
  fix s :: "'o pb_ostream_t"
  let ?n = "of_nat (length bs) :: size_t" and ?vb = "varint_bytes (of_nat (length bs))"
  let ?w = "\<lambda>s. pb_encode_submessage enc env s fs src m"
  assume "length (with_length bs) < 2 ^ 63" and s: "ovalid s"
  then have lb: "length bs < 2 ^ 63" and lv: "length ?vb < 2 ^ 63" by (auto simp: with_length_def)
  have "ovalid (PB_OSTREAM_SIZING :: 'o pb_ostream_t)" "fits (PB_OSTREAM_SIZING :: 'o pb_ostream_t) (length bs)"
    by (simp_all add: ovalid_def fits_def PB_OSTREAM_SIZING_def)
  from emitsD(1) [OF e lb this]
  have size: "enc PB_OSTREAM_SIZING fs src m = Some (True, put PB_OSTREAM_SIZING bs, m)" .
  have cnt: "bytes_written (put (PB_OSTREAM_SIZING :: 'o pb_ostream_t) bs) = ?n"
    by (simp add: PB_OSTREAM_SIZING_def)
  note V = emitsD [OF emits_varint [of m env ?n] lv s]
  show "if fits s (length (with_length bs)) then ?w s = Some (True, put s (with_length bs), m)
    else \<exists>k < length (with_length bs). fits s k \<and> ?w s = Some (False, full (put s (take k (with_length bs))), m)"
  proof (cases "fits s (length ?vb)")
    case False
    from V(2) [OF False] obtain k where "k < length ?vb" "fits s k"
      "pb_encode_varint env s ?n = Some (False, full (put s (take k ?vb)))"
      by (auto simp: with_mem_eq)
    moreover have "\<not> fits s (length (with_length bs))" using False by (auto simp: fits_def with_length_def)
    ultimately show ?thesis
      using size cnt
      by (auto simp: pb_encode_submessage_def with_length_def Let_def intro!: exI [of _ k])
  next
    case True
    let ?s1 = "put s ?vb"
    note s1 = put_valid [OF s True lv]
    have e1: "pb_encode_varint env s ?n = Some (True, ?s1)" using V(1) [OF True] by (simp add: with_mem_eq)
    have ft: "fits s (length (with_length bs)) \<longleftrightarrow> fits ?s1 (length bs)"
      using s1(2) by (simp add: with_length_def)
    show ?thesis
    proof (cases "ostate s = Null_write")
      case True
      then show ?thesis
        using size cnt e1
        by (simp add: pb_encode_submessage_def pb_write_def Let_def fits_def with_length_def put_def)
    next
      case nn: False
      then have nn1: "ostate ?s1 \<noteq> Null_write" by simp
      show ?thesis
      proof (cases "fits ?s1 (length bs)")
        case False
        have "fits ?s1 0" using True s1(2) by simp
        with False have "bs \<noteq> []" by auto
        then show ?thesis
          using size cnt e1 nn False ft True full_iff [OF s1(1) nn1 lb] full_eq [OF s1(1) nn1]
          by (auto simp: pb_encode_submessage_def Let_def with_length_def intro!: exI [of _ "length ?vb"])
      next
        case f: True
        let ?sub = "\<lparr>ostate = ostate ?s1, max_size = ?n, bytes_written = 0, oerrmsg = None\<rparr>"
        have un: "unat ?n = length bs" using lb by (simp add: unat_of_nat)
        have "ovalid ?sub" "fits ?sub (length bs)"
          using s1(1) f nn1 un lb by (auto simp: ovalid_def fits_def split: ostate.splits)
        from emitsD(1) [OF e lb this]
        have "enc ?sub fs src m = Some (True, put ?sub bs, m)" .
        moreover have "?s1\<lparr>bytes_written := bytes_written ?s1 + bytes_written (put ?sub bs),
            ostate := ostate (put ?sub bs), oerrmsg := oerrmsg (put ?sub bs)\<rparr> = put s (with_length bs)"
          using s nn by (auto simp: put_def with_length_def ovalid_def split: ostate.splits)
        ultimately show ?thesis
          using size cnt e1 nn f ft full_iff [OF s1(1) nn1 lb]
          by (simp add: pb_encode_submessage_def Let_def)
      qed
    qed
  qed
qed

subsection \<open>Values, arrays, fields and messages\<close>

lemma emitsI: "(length bs < 2 ^ 63 \<Longrightarrow> emits m w bs) \<Longrightarrow> emits m w bs"
  by (auto simp: emits_def)

lemma emits_value:
  assumes v: "value_wire sub env f p m = Some bs" and a: "PB_ATYPE (pf_type f) = PB_ATYPE_STATIC"
    and sub: "\<And>fs p bs. sub fs p m = Some bs \<Longrightarrow> emits m (\<lambda>s. enc s fs p m) bs"
  shows "emits m (\<lambda>s. PB_ENCODERS enc (PB_LTYPE (pf_type f)) env s f p m) bs"
proof -
  consider (varint) "PB_LTYPE (pf_type f) = PB_LTYPE_VARINT" | (uvarint) "PB_LTYPE (pf_type f) = PB_LTYPE_UVARINT"
    | (svarint) "PB_LTYPE (pf_type f) = PB_LTYPE_SVARINT" | (fixed32) "PB_LTYPE (pf_type f) = PB_LTYPE_FIXED32"
    | (fixed64) "PB_LTYPE (pf_type f) = PB_LTYPE_FIXED64" | (bytes) "PB_LTYPE (pf_type f) = PB_LTYPE_BYTES"
    | (str) "PB_LTYPE (pf_type f) = PB_LTYPE_STRING" | (msg) "PB_LTYPE (pf_type f) = PB_LTYPE_SUBMESSAGE"
    | (fixed) "PB_LTYPE (pf_type f) = PB_LTYPE_FIXED_LENGTH_BYTES"
    using v by (auto simp: value_wire_def Let_def split: if_splits)
  then show ?thesis
  proof cases
    case varint
    with v show ?thesis
      by (auto simp: value_wire_def PB_ENCODERS_def ltype_defs pb_enc_varint_def bind_eq_Some_conv
          intro: emits_varint)
  next
    case uvarint
    with v show ?thesis
      by (auto simp: value_wire_def PB_ENCODERS_def ltype_defs pb_enc_uvarint_def bind_eq_Some_conv
          intro: emits_varint)
  next
    case svarint
    with v show ?thesis
      by (auto simp: value_wire_def PB_ENCODERS_def ltype_defs pb_enc_svarint_def bind_eq_Some_conv
          intro: emits_svarint)
  next
    case fixed32
    with v show ?thesis
      by (auto simp: value_wire_def PB_ENCODERS_def ltype_defs pb_enc_fixed32_def intro: emits_fixed32)
  next
    case fixed64
    with v show ?thesis
      by (auto simp: value_wire_def PB_ENCODERS_def ltype_defs pb_enc_fixed64_def intro: emits_fixed64)
  next
    case bytes
    with v obtain n xs where "load32 m p = Some n" "p \<noteq> 0" "load_bytes m (p + 4) (unat n) = Some xs"
      "\<not> ucast (pf_data_size f) < PB_BYTES_ARRAY_T_ALLOCSIZE n" "bs = with_length xs"
      by (auto simp: value_wire_def ltype_defs bind_eq_Some_conv split: if_splits)
    moreover from this have "ucast n = (of_nat (length xs) :: size_t)"
      by (simp add: load_bytes_length word_unat_eq_iff)
    ultimately show ?thesis
      using bytes by (simp add: PB_ENCODERS_def ltype_defs pb_enc_bytes_def struct_off_defs emits_string)
  next
    case str
    with v obtain n xs where "c_strnlen m p (unat (pf_data_size f)) 0 = Some n" "p \<noteq> 0"
      "load_bytes m p n = Some xs" "bs = with_length xs"
      by (auto simp: value_wire_def ltype_defs bind_eq_Some_conv split: if_splits)
    moreover from this have "n = length xs" by (simp add: load_bytes_length)
    ultimately show ?thesis
      using str a by (simp add: PB_ENCODERS_def ltype_defs atype_defs pb_enc_string_def emits_string Let_def)
  next
    case msg
    with v obtain fs xs where "ptr_fields env (pf_ptr f) = Some fs" "sub fs p m = Some xs" "bs = with_length xs"
      by (auto simp: value_wire_def ltype_defs bind_eq_Some_conv)
    moreover from this have "pf_ptr f \<noteq> PtrNull" by (auto simp: ptr_fields_def)
    ultimately show ?thesis
      using msg emits_submessage [of m enc fs p xs env] sub
      by (simp add: PB_ENCODERS_def ltype_defs pb_enc_submessage_def)
  next
    case fixed
    with v obtain xs where "load_bytes m p (unat (pf_data_size f)) = Some xs" "bs = with_length xs"
      by (auto simp: value_wire_def ltype_defs)
    moreover from this have "ucast (pf_data_size f) = (of_nat (length xs) :: size_t)"
      by (simp add: load_bytes_length word_unat_eq_iff)
    ultimately show ?thesis
      using fixed by (simp add: PB_ENCODERS_def ltype_defs pb_enc_fixed_length_bytes_def emits_string)
  qed
qed

lemma emits_null:
  fixes env :: "('i, 'o) pb_env"
  assumes "emits m w bs" and "n = of_nat (length bs)"
  shows "emits m (\<lambda>s. if ostate s = Null_write then with_mem m (pb_write env s None n) else w s) bs"
proof (rule emitsI)
  assume l: "length bs < 2 ^ 63"
  have "with_mem m (pb_write env s None n) = Some (True, put s bs, m)" "fits s k" if "ostate s = Null_write"
    for k and s :: "'o pb_ostream_t"
    using that by (simp_all add: pb_write_def put_def assms(2) fits_def)
  then show ?thesis using assms(1) by (auto simp: emits_def)
qed

lemma emits_items:
  assumes "items_wire val ds n p = Some bs"
    and "\<And>p bs. val p = Some bs \<Longrightarrow> emits m (\<lambda>s. item s p m) bs"
  shows "emits m (\<lambda>s. array_loop item ds n s p m) bs"
  using assms(1)
proof (induction n arbitrary: p bs)
  case 0
  then show ?case by (auto intro: emits_Nil)
next
  case (Suc n)
  then obtain xs ys where xs: "val p = Some xs" and ys: "items_wire val ds n (p + uint ds) = Some ys"
    and bs: "bs = xs @ ys" by (auto simp: bind_eq_Some_conv)
  show ?case
    unfolding bs by (rule emits_seq [OF assms(2) [OF xs] Suc.IH [OF ys]]) auto
qed

lemma items_length:
  "items_wire val ds n p = Some bs \<Longrightarrow> (\<And>p bs. val p = Some bs \<Longrightarrow> length bs = c) \<Longrightarrow> length bs = c * n"
  by (induction n arbitrary: p bs) (auto simp: bind_eq_Some_conv)

lemma value_fixed_length:
  "PB_LTYPE (pf_type f) = PB_LTYPE_FIXED32 \<Longrightarrow> value_wire sub env f p m = Some bs \<Longrightarrow> length bs = 4"
  "PB_LTYPE (pf_type f) = PB_LTYPE_FIXED64 \<Longrightarrow> value_wire sub env f p m = Some bs \<Longrightarrow> length bs = 8"
  by (auto simp: value_wire_def ltype_defs fixed32_bytes_def fixed64_bytes_def)

lemma emits_array:
  fixes env :: "('i, 'o) pb_env" and n :: pb_size_t
  assumes w: "array_wire (\<lambda>f p. value_wire sub env f p m) f p (unat n) = Some bs"
    and a: "PB_ATYPE (pf_type f) = PB_ATYPE_STATIC"
    and func: "\<And>p bs. value_wire sub env f p m = Some bs \<Longrightarrow> emits m (\<lambda>s. func env s f p m) bs"
  shows "emits m (\<lambda>s. encode_array func env s f p (ucast n) m) bs"
proof (cases "n = 0")
  case True
  with w show ?thesis by (auto simp: array_wire_def encode_array_def intro: emits_Nil)
next
  case nz: False
  let ?c = "ucast n :: size_t" and ?val = "\<lambda>p. value_wire sub env f p m"
  have c: "?c \<noteq> 0" "unat ?c = unat n" using nz by (simp_all add: word_unat_eq_iff)
  have le: "\<not> ucast (pf_array_size f) < ?c"
    using w nz by (auto simp: array_wire_def word_less_nat_alt unsigned_eq_0_iff split: if_splits)
  show ?thesis
  proof (cases "PB_LTYPE (pf_type f) \<le> PB_LTYPE_LAST_PACKABLE")
    case True
    with w nz obtain body where it: "items_wire ?val (pf_data_size f) (unat n) p = Some body"
      and bs: "bs = tag_wire PB_WT_STRING f @ with_length body"
      by (auto simp: array_wire_def unsigned_eq_0_iff split: if_splits)
    have loop: "emits m (\<lambda>s. array_loop (\<lambda>s p m. func env s f p m) (pf_data_size f) (unat ?c) s p m) body"
      unfolding c(2) using it by (rule emits_items) (rule func)
    show ?thesis
    proof (rule emitsI)
      assume "length bs < 2 ^ 63"
      then have l: "length body < 2 ^ 63" by (simp add: bs with_length_def)
      have "packed_size func env f p ?c m = Some (Some (of_nat (length body)), m)"
      proof -
        have "array_loop (\<lambda>s p m. func env s f p m) (pf_data_size f) (unat ?c) PB_OSTREAM_SIZING p m =
            Some (True, put PB_OSTREAM_SIZING body, m)"
          by (rule emitsD(1) [OF loop l]) (simp_all add: ovalid_def fits_def PB_OSTREAM_SIZING_def)
        moreover have c4: "4 * ?c = of_nat (length body)" if "PB_LTYPE (pf_type f) = PB_LTYPE_FIXED32"
          using items_length [OF it, of 4] value_fixed_length(1) [OF that, of sub env _ m]
          by (simp add: word_unat_eq_iff unat_word_ariths unat_of_nat)
        moreover have c8: "8 * ?c = of_nat (length body)" if "PB_LTYPE (pf_type f) = PB_LTYPE_FIXED64"
          using items_length [OF it, of 8] value_fixed_length(2) [OF that, of sub env _ m]
          by (simp add: word_unat_eq_iff unat_word_ariths unat_of_nat)
        ultimately show ?thesis
          by (simp add: packed_size_def PB_OSTREAM_SIZING_def)
      qed
      then have "encode_array func env s f p ?c m =
          pb_encode_tag env s PB_WT_STRING (pf_tag f) \<bind> (\<lambda>(ok, s1). if \<not> ok then Some (False, s1, m)
           else pb_encode_varint env s1 (of_nat (length body)) \<bind>
             (\<lambda>(ok, s2). if \<not> ok then Some (False, s2, m)
              else if ostate s2 = Null_write then with_mem m (pb_write env s2 None (of_nat (length body)))
              else array_loop (\<lambda>s p m. func env s f p m) (pf_data_size f) (unat ?c) s2 p m))" for s
        using c le True by (simp add: encode_array_def cong: if_cong)
      moreover have "emits m (\<lambda>s. pb_encode_tag env s PB_WT_STRING (pf_tag f) \<bind>
          (\<lambda>(ok, s1). if \<not> ok then Some (False, s1, m)
           else pb_encode_varint env s1 (of_nat (length body)) \<bind>
             (\<lambda>(ok, s2). if \<not> ok then Some (False, s2, m)
              else if ostate s2 = Null_write then with_mem m (pb_write env s2 None (of_nat (length body)))
              else array_loop (\<lambda>s p m. func env s f p m) (pf_data_size f) (unat ?c) s2 p m))) bs"
        unfolding bs with_length_def
        by (intro emits_then emits_tag emits_varint emits_null loop refl)
      ultimately show "emits m (\<lambda>s. encode_array func env s f p ?c m) bs" by simp
    qed
  next
    case False
    with w nz have it: "items_wire (tagged_wire (\<lambda>f p. value_wire sub env f p m) f) (pf_data_size f) (unat n) p = Some bs"
      by (auto simp: array_wire_def unsigned_eq_0_iff split: if_splits)
    have "emits m (\<lambda>s. array_loop (tagged_item func env f) (pf_data_size f) (unat n) s p m) bs"
    proof (rule emits_items [OF it])
      fix p bs assume "tagged_wire (\<lambda>f p. value_wire sub env f p m) f p = Some bs"
      then obtain wt xs where wt: "wire_type_of (PB_LTYPE (pf_type f)) = Some wt"
        and xs: "value_wire sub env f p m = Some xs" and bs: "bs = tag_wire wt f @ xs"
        by (auto simp: tagged_wire_def bind_eq_Some_conv)
      show "emits m (\<lambda>s. tagged_item func env f s p m) bs"
        unfolding bs tagged_item_def
        using emits_then [OF emits_tag [of m env wt f] func [OF xs]] wt a
        by (simp add: pb_encode_tag_for_field_def atype_defs cong: if_cong)
    qed
    with c le False show ?thesis by (simp add: encode_array_def)
  qed
qed

lemma emits_tagged:
  assumes "tagged_wire (\<lambda>f p. value_wire sub env f p m) f p = Some bs"
    and "\<And>bs. value_wire sub env f p m = Some bs \<Longrightarrow> emits m (\<lambda>s. func env s f p m) bs"
  shows "emits m (\<lambda>s. do { (ok, s') \<leftarrow> pb_encode_tag_for_field env s f;
    if \<not> ok then Some (False, s', m) else func env s' f p m }) bs"
proof -
  from assms(1) obtain wt xs where wt: "wire_type_of (PB_LTYPE (pf_type f)) = Some wt"
    and xs: "value_wire sub env f p m = Some xs" and bs: "bs = tag_wire wt f @ xs"
    by (auto simp: tagged_wire_def bind_eq_Some_conv)
  show ?thesis
    unfolding bs using emits_then [OF emits_tag [of m env wt f] assms(2) [OF xs]] wt
    by (simp add: pb_encode_tag_for_field_def)
qed

lemma field_wire_rules:
  assumes "PB_LTYPE (pf_type f) \<noteq> PB_LTYPE_EXTENSION" and "PB_ATYPE (pf_type f) = PB_ATYPE_STATIC"
  shows "PB_HTYPE (pf_type f) = PB_HTYPE_REQUIRED \<Longrightarrow> field_wire val chk f p m =
      (if p = 0 then None else tagged_wire val f p)"
    and "PB_HTYPE (pf_type f) = PB_HTYPE_OPTIONAL \<Longrightarrow> field_wire val chk f p m = do {
      has \<leftarrow> (if pf_size_offset f \<noteq> 0 then map_option (\<lambda>b. b \<noteq> 0) (load8 m (p + sint (pf_size_offset f)))
        else map_option Not (chk f p));
      if has then tagged_wire val f p else Some [] }"
    and "PB_HTYPE (pf_type f) = PB_HTYPE_REPEATED \<Longrightarrow> field_wire val chk f p m = do {
      n \<leftarrow> (if pf_size_offset f \<noteq> 0 then load32 m (p + sint (pf_size_offset f)) else None);
      array_wire val f p (unat n) }"
    and "PB_HTYPE (pf_type f) = PB_HTYPE_ONEOF \<Longrightarrow> field_wire val chk f p m = do {
      which \<leftarrow> (if pf_size_offset f \<noteq> 0 then load32 m (p + sint (pf_size_offset f)) else None);
      if which = pf_tag f then tagged_wire val f p else Some [] }"
  using assms by (simp_all add: field_wire_def Let_def atype_defs htype_defs)

lemma emits_field:
  fixes env :: "('i, 'o) pb_env"
  assumes w: "field_wire (\<lambda>f p. value_wire sub env f p m) (\<lambda>f p. chk f p m) f p m = Some bs"
    and sub: "\<And>fs p bs. sub fs p m = Some bs \<Longrightarrow> emits m (\<lambda>s. enc s fs p m) bs"
  shows "emits m (\<lambda>s. encode_field enc chk env s f p m) bs"
proof (cases "PB_ATYPE (pf_type f) = PB_ATYPE_STATIC")
  case False
  with w have "PB_ATYPE (pf_type f) = PB_ATYPE_CALLBACK" "load64 m (p + cb_funcs_off) = Some 0" "bs = []"
    by (auto simp: field_wire_def Let_def bind_eq_Some_conv split: if_splits)
  then show ?thesis
    by (auto simp: encode_field_def encode_callback_field_def atype_defs intro!: emits_Nil)
next
  case a: True
  let ?func = "PB_ENCODERS enc (PB_LTYPE (pf_type f))" and ?h = "PB_HTYPE (pf_type f)"
  let ?val = "\<lambda>f p. value_wire sub env f p m" and ?q = "p + sint (pf_size_offset f)"
  have func: "emits m (\<lambda>s. ?func env s f p' m) bs'" if "value_wire sub env f p' m = Some bs'" for p' bs'
    by (rule emits_value [OF that a]) (rule sub)
  have tagged: "emits m (\<lambda>s. do { (ok, s') \<leftarrow> pb_encode_tag_for_field env s f;
      if \<not> ok then Some (False, s', m) else ?func env s' f p m }) bs" if "tagged_wire ?val f p = Some bs"
    using that func by (rule emits_tagged)
  have nil: "emits m (\<lambda>s. Some (True, s, m)) []" by (rule emits_Nil) simp
  have na: "PB_ATYPE (pf_type f) \<noteq> PB_ATYPE_CALLBACK" "PB_ATYPE (pf_type f) \<noteq> PB_ATYPE_POINTER"
    using a by (simp_all add: atype_defs)
  have "PB_LTYPE (pf_type f) \<noteq> PB_LTYPE_EXTENSION"
    using w by (auto simp: field_wire_def Let_def)
  note rules = field_wire_rules [OF this a]
  from htype_cases [of "pf_type f"] show ?thesis
  proof (elim disjE)
    assume "?h = PB_HTYPE_REQUIRED"
    with w a na have "tagged_wire ?val f p = Some bs" "p \<noteq> 0" "?h = PB_HTYPE_REQUIRED"
      using rules(1) by (auto split: if_splits)
    with tagged a na show ?thesis
      by (simp add: encode_field_def encode_basic_field_def Let_def htype_defs)
  next
    assume h: "?h = PB_HTYPE_OPTIONAL"
    from w [unfolded rules(2) [OF h] bind_eq_Some_conv] obtain has where has: "(if pf_size_offset f \<noteq> 0 then map_option (\<lambda>b. b \<noteq> 0) (load8 m ?q)
        else map_option Not (chk f p m)) = Some has"
      and bs: "(if has then tagged_wire ?val f p else Some []) = Some bs" by blast
    have "encode_field enc chk env s f p m = (if has then do {
        (ok, s') \<leftarrow> pb_encode_tag_for_field env s f;
        if \<not> ok then Some (False, s', m) else ?func env s' f p m } else Some (True, s, m))" for s
    proof (cases "pf_size_offset f = 0")
      case True
      with has obtain c where "chk f p m = Some c" "has = (\<not> c)" by auto
      with True h a na show ?thesis
        by (simp add: encode_field_def encode_basic_field_def Let_def htype_defs)
    next
      case False
      with has obtain b where "load8 m ?q = Some b" "has = (b \<noteq> 0)" by auto
      with False h a na show ?thesis
        by (simp add: encode_field_def encode_basic_field_def Let_def htype_defs)
    qed
    with bs tagged nil show ?thesis by (cases has) simp_all
  next
    assume h: "?h = PB_HTYPE_REPEATED"
    from w [unfolded rules(3) [OF h] bind_eq_Some_conv] obtain n where so: "pf_size_offset f \<noteq> 0"
      and n: "load32 m ?q = Some n" and arr: "array_wire ?val f p (unat n) = Some bs"
      by (auto split: if_splits)
    have "emits m (\<lambda>s. encode_array ?func env s f p (ucast n) m) bs"
      using arr a func by (rule emits_array)
    with h a na so n show ?thesis
      by (simp add: encode_field_def encode_basic_field_def Let_def htype_defs)
  next
    assume h: "?h = PB_HTYPE_ONEOF"
    from w [unfolded rules(4) [OF h] bind_eq_Some_conv] obtain which where
      "pf_size_offset f \<noteq> 0" "load32 m ?q = Some which"
      "(if which = pf_tag f then tagged_wire ?val f p else Some []) = Some bs"
      by (cases "pf_size_offset f = 0") (simp, simp, blast)
    with h a na tagged nil show ?thesis
      by (cases "which = pf_tag f")
        (auto simp: encode_field_def encode_basic_field_def Let_def htype_defs)
  qed
qed

lemma emits_fields:
  assumes "fields_wire fld is = Some bs"
    and "\<And>i bs. i \<in> set is \<Longrightarrow> fld i = Some bs \<Longrightarrow> emits m (\<lambda>s. body (iter_of fs src i) (s, m)) bs"
  shows "emits m (\<lambda>s. each_from body fs src is (s, m)) bs"
  using assms
proof (induction "is" arbitrary: bs)
  case Nil
  then show ?case by (auto intro: emits_Nil)
next
  case (Cons i "is")
  then obtain xs ys where xs: "fld i = Some xs" and ys: "fields_wire fld is = Some ys" and bs: "bs = xs @ ys"
    by (auto simp: bind_eq_Some_conv)
  have "emits m (\<lambda>s. body (iter_of fs src i) (s, m)) xs" using Cons.prems(2) xs by simp
  moreover have "emits m (\<lambda>s. each_from body fs src is (s, m)) ys"
    by (rule Cons.IH [OF ys]) (simp add: Cons.prems(2))
  ultimately show ?case unfolding bs by (rule emits_seq) simp
qed

text \<open>The encoder writes the wire format, at every level of nesting.\<close>

lemma emits_message:
  assumes "msg_wire d env fs src m = Some bs"
  shows "emits m (\<lambda>s. pb_encode d env s fs src m) bs"
  using assms
proof (induction d arbitrary: fs src bs)
  case (Suc d)
  let ?val = "\<lambda>f p. value_wire (msg_wire d env) env f p m"
  let ?chk = "pb_check_proto3_default_value (Suc d) env"
  let ?body = "encode_one (pb_encode d env) ?chk env"
  let ?fld = "\<lambda>i. field_wire ?val (\<lambda>f p. ?chk f p m) (fs ! i) (src + data_off fs i) m"
  have w: "wf_array fs" and fw: "fields_wire ?fld [0..<nfields fs] = Some bs"
    using Suc.prems by (auto split: if_splits)
  have one: "emits m (\<lambda>s. ?body (iter_of fs src i) (s, m)) xs"
    if "i \<in> set [0..<nfields fs]" and x: "?fld i = Some xs" for i xs
  proof -
    have "PB_LTYPE (pf_type (fs ! i)) \<noteq> PB_LTYPE_EXTENSION"
      using x by (auto simp: field_wire_def Let_def split: if_splits)
    moreover have "i < length fs" using that(1) by simp
    moreover have "emits m (\<lambda>s. encode_field (pb_encode d env) ?chk env s (fs ! i) (src + data_off fs i) m) xs"
      using x by (rule emits_field) (rule Suc.IH)
    ultimately show ?thesis by (simp add: encode_one_def)
  qed
  have "emits m (\<lambda>s. each_from ?body fs src [0..<nfields fs] (s, m)) bs"
    using fw one by (rule emits_fields)
  moreover have "pb_encode (Suc d) env s fs src m = each_from ?body fs src [0..<nfields fs] (s, m)" for s
  proof (cases "nfields fs = 0")
    case True
    then show ?thesis by (simp add: encode_body_def iter_begin_of [OF w])
  next
    case False
    then have "iter_each ?body (iter_of fs src 0) (s, m) = each_from ?body fs src [0..<nfields fs] (s, m)"
      by (intro iter_each_indices [OF w]) simp
    with False show ?thesis
      by (simp add: encode_body_def iter_begin_of [OF w] del: pb_check_proto3_default_value.simps)
  qed
  ultimately show ?case by simp
qed simp

subsection \<open>What the encoder promises\<close>

lemma from_buffer_valid:
  "unat bufsize \<le> room \<Longrightarrow> unat bufsize < 2 ^ 63 \<Longrightarrow> ovalid (pb_ostream_from_buffer room bufsize)"
  "fits (pb_ostream_from_buffer room bufsize) n \<longleftrightarrow> n \<le> unat bufsize"
  by (simp_all add: ovalid_def fits_def pb_ostream_from_buffer_def)

lemma sizing_message:
  assumes "msg_wire d env fs src m = Some bs" and "length bs < 2 ^ 63"
  shows "pb_get_encoded_size d env fs src m = Some (Some (of_nat (length bs)), m)"
proof -
  have "pb_encode d env PB_OSTREAM_SIZING fs src m = Some (True, put PB_OSTREAM_SIZING bs, m)"
    by (rule emitsD(1) [OF emits_message [OF assms(1)] assms(2)])
      (simp_all add: ovalid_def fits_def PB_OSTREAM_SIZING_def)
  then show ?thesis by (simp add: pb_get_encoded_size_def PB_OSTREAM_SIZING_def)
qed

lemma person_wire: "msg_wire 2 demo_env Person_fields 1000 demo_person =
  Some person_encoding"
  by code_simp

text \<open>
  C5: the encoder refines the wire format: into a buffer that is large enough, \<open>pb_encode\<close> writes
  exactly the bytes \<open>msg_wire\<close> specifies, whatever the nesting of messages and the packing of
  arrays, and reads and writes nothing else.
\<close>
theorem pb_encode_writes_wire_format:
  assumes "msg_wire d env fs src m = Some bs"
    and "length bs \<le> unat bufsize" and "unat bufsize \<le> room" and "unat bufsize < 2 ^ 63"
  shows "pb_encode d env (pb_ostream_from_buffer room bufsize) fs src m =
    Some (True, \<lparr>ostate = Buf_write bs (room - length bs), max_size = bufsize,
      bytes_written = of_nat (length bs), oerrmsg = None\<rparr>, m)"
proof -
  have "length bs < 2 ^ 63" using assms(2,4) by linarith
  from emitsD(1) [OF emits_message [OF assms(1)] this from_buffer_valid(1) [OF assms(3,4)]] assms(2)
  show ?thesis by (simp add: from_buffer_valid(2)) (simp add: pb_ostream_from_buffer_def put_def)
qed

theorem pb_encode_writes_wire_format_witness:
  "pb_encode 2 demo_env (pb_ostream_from_buffer 32 32) Person_fields 1000 demo_person =
    Some (True, \<lparr>ostate = Buf_write person_encoding 13, max_size = 32, bytes_written = 19, oerrmsg = None\<rparr>, demo_person)"
  using pb_encode_writes_wire_format [OF person_wire, of 32 32] by simp

text \<open>
  C6: computing the size and encoding agree. \<open>pb_get_encoded_size\<close> returns the exact number of
  bytes; encoding succeeds precisely in the buffers of at least that size, and in a smaller one it
  fails with \<open>stream full\<close> after writing only bytes of the message that fit into the buffer.
\<close>
theorem encoded_size_exact:
  assumes "msg_wire d env fs src m = Some bs" and "length bs < 2 ^ 63"
  shows "\<exists>n. pb_get_encoded_size d env fs src m = Some (Some n, m) \<and> unat n = length bs \<and>
    (\<forall>bufsize room. unat bufsize \<le> room \<and> unat bufsize < 2 ^ 63 \<longrightarrow>
      (\<exists>s k. pb_encode d env (pb_ostream_from_buffer room bufsize) fs src m = Some (n \<le> bufsize, s, m) \<and>
        ostate s = Buf_write (take k bs) (room - k) \<and> k \<le> unat bufsize \<and>
        (if n \<le> bufsize then k = length bs else oerrmsg s = Some ''stream full'')))"
proof -
  let ?n = "of_nat (length bs) :: size_t"
  have n: "unat ?n = length bs" using assms(2) by (simp add: unat_of_nat)
  have "\<exists>s k. pb_encode d env (pb_ostream_from_buffer room bufsize) fs src m = Some (?n \<le> bufsize, s, m) \<and>
      ostate s = Buf_write (take k bs) (room - k) \<and> k \<le> unat bufsize \<and>
      (if ?n \<le> bufsize then k = length bs else oerrmsg s = Some ''stream full'')"
    if b: "unat bufsize \<le> room \<and> unat bufsize < 2 ^ 63" for bufsize room
  proof (cases "?n \<le> bufsize")
    case True
    then have "length bs \<le> unat bufsize" by (simp add: word_le_nat_alt n)
    with emitsD(1) [OF emits_message [OF assms(1)] assms(2) from_buffer_valid(1)] b True show ?thesis
      by (auto simp: from_buffer_valid(2))
        (auto simp: pb_ostream_from_buffer_def put_def intro!: exI [of _ "length bs"])
  next
    case False
    then have "\<not> fits (pb_ostream_from_buffer room bufsize :: 'b pb_ostream_t) (length bs)"
      by (simp add: from_buffer_valid(2) word_le_nat_alt n)
    from emitsD(2) [OF emits_message [OF assms(1)] assms(2) from_buffer_valid(1) this] b obtain k where
      "k < length bs" "k \<le> unat bufsize" "pb_encode d env (pb_ostream_from_buffer room bufsize) fs src m =
         Some (False, full (put (pb_ostream_from_buffer room bufsize) (take k bs)), m)"
      by (auto simp: from_buffer_valid(2))
    with False show ?thesis
      by (auto simp: pb_ostream_from_buffer_def put_def full_def intro!: exI [of _ k])
  qed
  with sizing_message [OF assms] n show ?thesis by blast
qed

theorem encoded_size_exact_witness:
  "\<exists>n. pb_get_encoded_size 2 demo_env Person_fields 1000 demo_person = Some (Some n, demo_person) \<and> unat n = 19 \<and>
    (\<exists>s. pb_encode 2 demo_env (pb_ostream_from_buffer 16 16) Person_fields 1000 demo_person =
       Some (False, s, demo_person) \<and> oerrmsg s = Some ''stream full'')"
proof -
  let ?bs = person_encoding
  have "length ?bs < 2 ^ 63" by simp
  from encoded_size_exact [OF person_wire this] obtain n where
    n: "pb_get_encoded_size 2 demo_env Person_fields 1000 demo_person = Some (Some n, demo_person)"
      "unat n = length ?bs" and
    enc: "unat (16 :: size_t) \<le> 16 \<and> unat (16 :: size_t) < 2 ^ 63 \<longrightarrow> (\<exists>s k.
      pb_encode 2 demo_env (pb_ostream_from_buffer 16 16) Person_fields 1000 demo_person =
        Some (n \<le> 16, s, demo_person) \<and>
      ostate s = Buf_write (take k ?bs) (16 - k) \<and> k \<le> unat (16 :: size_t) \<and>
      (if n \<le> 16 then k = length ?bs else oerrmsg s = Some ''stream full''))" by blast
  have "unat (16 :: size_t) \<le> 16 \<and> unat (16 :: size_t) < 2 ^ 63" by simp
  moreover have "\<not> n \<le> 16" using n(2) by (simp add: word_le_nat_alt)
  ultimately show ?thesis using enc n by auto
qed

text \<open>
  \<open>pb_encode_delimited\<close> writes the length of the message as a varint and then the message,
  and the length agrees with the message that follows.
\<close>
theorem pb_encode_delimited_writes:
  assumes "msg_wire d env fs src m = Some bs"
    and "length (with_length bs) \<le> unat bufsize" and "unat bufsize \<le> room" and "unat bufsize < 2 ^ 63"
  shows "\<exists>s. pb_encode_delimited d env (pb_ostream_from_buffer room bufsize) fs src m = Some (True, s, m) \<and>
    ostate s = Buf_write (varint_bytes (of_nat (length bs)) @ bs) (room - length (with_length bs))"
proof -
  have l: "length (with_length bs) < 2 ^ 63" using assms(2,4) by linarith
  from emitsD(1) [OF emits_submessage [where enc = "pb_encode d env" and env = env, OF emits_message [OF assms(1)]] l
      from_buffer_valid(1) [OF assms(3,4)]] assms(2)
  show ?thesis
    by (simp add: from_buffer_valid(2) pb_encode_delimited_def)
      (simp add: pb_ostream_from_buffer_def put_def with_length_def)
qed

theorem pb_encode_delimited_writes_witness:
  "\<exists>s. pb_encode_delimited 2 demo_env (pb_ostream_from_buffer 32 32) Person_fields 1000 demo_person =
     Some (True, s, demo_person) \<and>
    ostate s = Buf_write (varint_bytes 19 @ person_encoding) 12"
  using pb_encode_delimited_writes [OF person_wire, of 32 32]
  by (simp add: with_length_def varint_bytes_def)

end
