(* ===== verification/Pb_Fields.thy ===== *)
theory Pb_Fields
  imports Pb_Iter
begin

text \<open>
  The macros of \<open>pb.h\<close> that build field descriptors, as functions of what the compiler knows of a
  struct member: its offset, its size and the size of an entry. A descriptor array is a compressed
  description of a struct: it stores only distances between neighbouring members. The theorem of
  this theory is that the iterator recovers the offsets the compiler chose.
\<close>

subsection \<open>Members of a struct\<close>

text \<open>\<open>offsetof(st, m)\<close>, \<open>sizeof(m)\<close>, \<open>sizeof(m[0])\<close>, and the offset of the member that
  accompanies it: \<open>has_m\<close>, \<open>m_count\<close> or \<open>which_u\<close>.\<close>

record st_member =
  offsetof :: nat
  membersize :: nat
  itemsize :: nat
  aux_offset :: nat

definition pb_membersize :: "st_member \<Rightarrow> pb_size_t" where
  "pb_membersize m = of_nat (membersize m)"

definition pb_itemsize :: "st_member \<Rightarrow> pb_size_t" where
  "pb_itemsize m = of_nat (itemsize m)"

definition pb_arraysize :: "st_member \<Rightarrow> pb_size_t" where
  "pb_arraysize m = of_nat (membersize m div itemsize m)"

definition pb_delta :: "st_member \<Rightarrow> pb_ssize_t" where
  "pb_delta m = word_of_int (int (aux_offset m) - int (offsetof m))"

datatype pb_placement = FIRST_PL | OTHER_PL | UNION_PL

definition PB_DATAOFFSET :: "pb_placement \<Rightarrow> st_member \<Rightarrow> st_member \<Rightarrow> pb_size_t" where
  "PB_DATAOFFSET pl m1 m2 = (case pl of
     FIRST_PL \<Rightarrow> of_nat (offsetof m1)
   | OTHER_PL \<Rightarrow> of_nat (offsetof m1) - of_nat (offsetof m2) - of_nat (membersize m2)
   | UNION_PL \<Rightarrow> PB_SIZE_MAX)"

definition PB_DATAOFFSET_CHOOSE :: "st_member \<Rightarrow> st_member \<Rightarrow> pb_size_t" where
  "PB_DATAOFFSET_CHOOSE m1 m2 =
     PB_DATAOFFSET (if offsetof m1 = offsetof m2 then FIRST_PL else OTHER_PL) m1 m2"

subsection \<open>Descriptors\<close>

definition field_desc :: "pb_size_t \<Rightarrow> pb_type_t \<Rightarrow> pb_size_t \<Rightarrow> pb_ssize_t \<Rightarrow> pb_size_t \<Rightarrow> pb_size_t \<Rightarrow> pb_ptr \<Rightarrow>
    pb_field_t" where
  "field_desc tag ty fd so ds asz p = \<lparr>pf_tag = tag, pf_type = ty, pf_data_offset = fd,
     pf_size_offset = so, pf_data_size = ds, pf_array_size = asz, pf_ptr = p\<rparr>"

type_synonym field_macro = "pb_size_t \<Rightarrow> st_member \<Rightarrow> pb_size_t \<Rightarrow> pb_type_t \<Rightarrow> pb_ptr \<Rightarrow> pb_field_t"

definition PB_REQUIRED_STATIC :: field_macro where
  "PB_REQUIRED_STATIC tag m fd ltype p = field_desc tag
     (PB_ATYPE_STATIC OR PB_HTYPE_REQUIRED OR ltype) fd 0 (pb_membersize m) 0 p"

definition PB_OPTIONAL_STATIC :: field_macro where
  "PB_OPTIONAL_STATIC tag m fd ltype p = field_desc tag
     (PB_ATYPE_STATIC OR PB_HTYPE_OPTIONAL OR ltype) fd (pb_delta m) (pb_membersize m) 0 p"

definition PB_SINGULAR_STATIC :: field_macro where
  "PB_SINGULAR_STATIC tag m fd ltype p = field_desc tag
     (PB_ATYPE_STATIC OR PB_HTYPE_OPTIONAL OR ltype) fd 0 (pb_membersize m) 0 p"

definition PB_REPEATED_STATIC :: field_macro where
  "PB_REPEATED_STATIC tag m fd ltype p = field_desc tag
     (PB_ATYPE_STATIC OR PB_HTYPE_REPEATED OR ltype) fd (pb_delta m) (pb_itemsize m) (pb_arraysize m) p"

definition PB_REQUIRED_POINTER :: field_macro where
  "PB_REQUIRED_POINTER tag m fd ltype p = field_desc tag
     (PB_ATYPE_POINTER OR PB_HTYPE_REQUIRED OR ltype) fd 0 (pb_itemsize m) 0 p"

definition PB_OPTIONAL_POINTER :: field_macro where
  "PB_OPTIONAL_POINTER tag m fd ltype p = field_desc tag
     (PB_ATYPE_POINTER OR PB_HTYPE_OPTIONAL OR ltype) fd 0 (pb_itemsize m) 0 p"

definition PB_SINGULAR_POINTER :: field_macro where
  "PB_SINGULAR_POINTER tag m fd ltype p = field_desc tag
     (PB_ATYPE_POINTER OR PB_HTYPE_OPTIONAL OR ltype) fd 0 (pb_itemsize m) 0 p"

definition PB_REPEATED_POINTER :: field_macro where
  "PB_REPEATED_POINTER tag m fd ltype p = field_desc tag
     (PB_ATYPE_POINTER OR PB_HTYPE_REPEATED OR ltype) fd (pb_delta m) (pb_itemsize m) 0 p"

definition PB_REQUIRED_CALLBACK :: field_macro where
  "PB_REQUIRED_CALLBACK tag m fd ltype p = field_desc tag
     (PB_ATYPE_CALLBACK OR PB_HTYPE_REQUIRED OR ltype) fd 0 (pb_membersize m) 0 p"

definition PB_OPTIONAL_CALLBACK :: field_macro where
  "PB_OPTIONAL_CALLBACK tag m fd ltype p = field_desc tag
     (PB_ATYPE_CALLBACK OR PB_HTYPE_OPTIONAL OR ltype) fd 0 (pb_membersize m) 0 p"

definition PB_SINGULAR_CALLBACK :: field_macro where
  "PB_SINGULAR_CALLBACK tag m fd ltype p = field_desc tag
     (PB_ATYPE_CALLBACK OR PB_HTYPE_OPTIONAL OR ltype) fd 0 (pb_membersize m) 0 p"

definition PB_REPEATED_CALLBACK :: field_macro where
  "PB_REPEATED_CALLBACK tag m fd ltype p = field_desc tag
     (PB_ATYPE_CALLBACK OR PB_HTYPE_REPEATED OR ltype) fd 0 (pb_membersize m) 0 p"

text \<open>Extensions are stored outside the message, so their data offset is 0.\<close>

definition PB_OPTEXT_STATIC :: field_macro where
  "PB_OPTEXT_STATIC tag m fd ltype p = field_desc tag
     (PB_ATYPE_STATIC OR PB_HTYPE_REQUIRED OR ltype) 0 0 (pb_membersize m) 0 p"

definition PB_OPTEXT_POINTER :: field_macro where
  "PB_OPTEXT_POINTER = PB_OPTIONAL_POINTER"

definition PB_OPTEXT_CALLBACK :: field_macro where
  "PB_OPTEXT_CALLBACK = PB_OPTIONAL_CALLBACK"

definition PB_ONEOF_STATIC :: field_macro where
  "PB_ONEOF_STATIC tag m fd ltype p = field_desc tag
     (PB_ATYPE_STATIC OR PB_HTYPE_ONEOF OR ltype) fd (pb_delta m) (pb_membersize m) 0 p"

definition PB_ONEOF_POINTER :: field_macro where
  "PB_ONEOF_POINTER tag m fd ltype p = field_desc tag
     (PB_ATYPE_POINTER OR PB_HTYPE_ONEOF OR ltype) fd (pb_delta m) (pb_itemsize m) 0 p"

lemmas field_macro_defs = PB_REQUIRED_STATIC_def PB_OPTIONAL_STATIC_def PB_SINGULAR_STATIC_def
  PB_REPEATED_STATIC_def PB_REQUIRED_POINTER_def PB_OPTIONAL_POINTER_def PB_SINGULAR_POINTER_def
  PB_REPEATED_POINTER_def PB_REQUIRED_CALLBACK_def PB_OPTIONAL_CALLBACK_def PB_SINGULAR_CALLBACK_def
  PB_REPEATED_CALLBACK_def PB_OPTEXT_STATIC_def PB_OPTEXT_POINTER_def PB_OPTEXT_CALLBACK_def
  PB_ONEOF_STATIC_def PB_ONEOF_POINTER_def field_desc_def

subsection \<open>Field types and the field macro\<close>

datatype proto_type = T_BOOL | T_BYTES | T_DOUBLE | T_ENUM | T_UENUM | T_FIXED32 | T_FIXED64 | T_FLOAT
  | T_INT32 | T_INT64 | T_MESSAGE | T_SFIXED32 | T_SFIXED64 | T_SINT32 | T_SINT64 | T_STRING
  | T_UINT32 | T_UINT64 | T_EXTENSION | T_FIXED_LENGTH_BYTES

fun PB_LTYPE_MAP :: "proto_type \<Rightarrow> pb_type_t" where
  "PB_LTYPE_MAP T_BOOL = PB_LTYPE_VARINT"
| "PB_LTYPE_MAP T_BYTES = PB_LTYPE_BYTES"
| "PB_LTYPE_MAP T_DOUBLE = PB_LTYPE_FIXED64"
| "PB_LTYPE_MAP T_ENUM = PB_LTYPE_VARINT"
| "PB_LTYPE_MAP T_UENUM = PB_LTYPE_UVARINT"
| "PB_LTYPE_MAP T_FIXED32 = PB_LTYPE_FIXED32"
| "PB_LTYPE_MAP T_FIXED64 = PB_LTYPE_FIXED64"
| "PB_LTYPE_MAP T_FLOAT = PB_LTYPE_FIXED32"
| "PB_LTYPE_MAP T_INT32 = PB_LTYPE_VARINT"
| "PB_LTYPE_MAP T_INT64 = PB_LTYPE_VARINT"
| "PB_LTYPE_MAP T_MESSAGE = PB_LTYPE_SUBMESSAGE"
| "PB_LTYPE_MAP T_SFIXED32 = PB_LTYPE_FIXED32"
| "PB_LTYPE_MAP T_SFIXED64 = PB_LTYPE_FIXED64"
| "PB_LTYPE_MAP T_SINT32 = PB_LTYPE_SVARINT"
| "PB_LTYPE_MAP T_SINT64 = PB_LTYPE_SVARINT"
| "PB_LTYPE_MAP T_STRING = PB_LTYPE_STRING"
| "PB_LTYPE_MAP T_UINT32 = PB_LTYPE_UVARINT"
| "PB_LTYPE_MAP T_UINT64 = PB_LTYPE_UVARINT"
| "PB_LTYPE_MAP T_EXTENSION = PB_LTYPE_EXTENSION"
| "PB_LTYPE_MAP T_FIXED_LENGTH_BYTES = PB_LTYPE_FIXED_LENGTH_BYTES"

datatype pb_rules = REQUIRED | OPTIONAL | SINGULAR | REPEATED | OPTEXT | ONEOF

datatype pb_allocation = STATIC_AL | POINTER_AL | CALLBACK_AL

text \<open>The token pasting \<open>PB_ ## rules ## _ ## allocation\<close>; there is no macro for a callback in a
  union.\<close>

definition PB_FIELD_MACRO :: "pb_rules \<Rightarrow> pb_allocation \<Rightarrow> field_macro option" where
  "PB_FIELD_MACRO r a = (case (r, a) of
     (REQUIRED, STATIC_AL) \<Rightarrow> Some PB_REQUIRED_STATIC
   | (OPTIONAL, STATIC_AL) \<Rightarrow> Some PB_OPTIONAL_STATIC
   | (SINGULAR, STATIC_AL) \<Rightarrow> Some PB_SINGULAR_STATIC
   | (REPEATED, STATIC_AL) \<Rightarrow> Some PB_REPEATED_STATIC
   | (REQUIRED, POINTER_AL) \<Rightarrow> Some PB_REQUIRED_POINTER
   | (OPTIONAL, POINTER_AL) \<Rightarrow> Some PB_OPTIONAL_POINTER
   | (SINGULAR, POINTER_AL) \<Rightarrow> Some PB_SINGULAR_POINTER
   | (REPEATED, POINTER_AL) \<Rightarrow> Some PB_REPEATED_POINTER
   | (REQUIRED, CALLBACK_AL) \<Rightarrow> Some PB_REQUIRED_CALLBACK
   | (OPTIONAL, CALLBACK_AL) \<Rightarrow> Some PB_OPTIONAL_CALLBACK
   | (SINGULAR, CALLBACK_AL) \<Rightarrow> Some PB_SINGULAR_CALLBACK
   | (REPEATED, CALLBACK_AL) \<Rightarrow> Some PB_REPEATED_CALLBACK
   | (OPTEXT, STATIC_AL) \<Rightarrow> Some PB_OPTEXT_STATIC
   | (OPTEXT, POINTER_AL) \<Rightarrow> Some PB_OPTEXT_POINTER
   | (OPTEXT, CALLBACK_AL) \<Rightarrow> Some PB_OPTEXT_CALLBACK
   | (ONEOF, STATIC_AL) \<Rightarrow> Some PB_ONEOF_STATIC
   | (ONEOF, POINTER_AL) \<Rightarrow> Some PB_ONEOF_POINTER
   | (ONEOF, CALLBACK_AL) \<Rightarrow> None)"

text \<open>\<open>PB_FIELD\<close>, and \<open>PB_ONEOF_FIELD\<close> when the rule is \<open>ONEOF\<close>.\<close>

definition PB_FIELD :: "pb_size_t \<Rightarrow> proto_type \<Rightarrow> pb_rules \<Rightarrow> pb_allocation \<Rightarrow> pb_placement \<Rightarrow>
    st_member \<Rightarrow> st_member \<Rightarrow> pb_ptr \<Rightarrow> pb_field_t option" where
  "PB_FIELD tag ty r a pl field prevfield p = do {
     mac \<leftarrow> PB_FIELD_MACRO r a;
     Some (mac tag field (PB_DATAOFFSET pl field prevfield) (PB_LTYPE_MAP ty) p)
   }"

subsection \<open>A message type\<close>

text \<open>The arguments of one \<open>PB_FIELD\<close>; the generator names the preceding field as
  \<open>prevfield\<close>.\<close>

record field_spec =
  sp_tag :: pb_size_t
  sp_type :: proto_type
  sp_rules :: pb_rules
  sp_alloc :: pb_allocation
  sp_place :: pb_placement
  sp_member :: st_member
  sp_ptr :: pb_ptr

definition spec_field :: "st_member \<Rightarrow> field_spec \<Rightarrow> pb_field_t option" where
  "spec_field prev sp = PB_FIELD (sp_tag sp) (sp_type sp) (sp_rules sp) (sp_alloc sp) (sp_place sp)
     (sp_member sp) prev (sp_ptr sp)"

fun spec_fields :: "st_member \<Rightarrow> field_spec list \<Rightarrow> pb_field_t list option" where
  "spec_fields prev [] = Some [PB_LAST_FIELD]"
| "spec_fields prev (sp # sps) = do {
     f \<leftarrow> spec_field prev sp;
     fs \<leftarrow> spec_fields (sp_member sp) sps;
     Some (f # fs)
   }"

text \<open>
  A struct the compiler can lay out for these fields: members follow each other and do not
  overlap, members of a union start at the same place, arrays consist of whole entries, pointers
  have eight bytes, and everything is below 2 GB.
\<close>

definition member_ok :: "field_spec \<Rightarrow> bool" where
  "member_ok sp \<longleftrightarrow> (let m = sp_member sp in
     offsetof m + membersize m < 2 ^ 31 \<and> aux_offset m < 2 ^ 31 \<and> itemsize m < 2 ^ 31 \<and>
     (sp_alloc sp = POINTER_AL \<longrightarrow> membersize m = 8) \<and>
     (sp_rules sp = REPEATED \<and> sp_alloc sp = STATIC_AL \<longrightarrow>
        0 < itemsize m \<and> membersize m mod itemsize m = 0) \<and>
     sp_tag sp \<noteq> 0 \<and> sp_rules sp \<noteq> OPTEXT \<and> (sp_rules sp = ONEOF \<longrightarrow> sp_alloc sp \<noteq> CALLBACK_AL))"

definition next_ok :: "field_spec \<Rightarrow> field_spec \<Rightarrow> bool" where
  "next_ok sp sp' \<longleftrightarrow> (case sp_place sp' of
     OTHER_PL \<Rightarrow> offsetof (sp_member sp) + membersize (sp_member sp) \<le> offsetof (sp_member sp')
   | UNION_PL \<Rightarrow> sp_rules sp = ONEOF \<and> sp_rules sp' = ONEOF \<and>
       offsetof (sp_member sp') = offsetof (sp_member sp) \<and> aux_offset (sp_member sp') = aux_offset (sp_member sp)
   | FIRST_PL \<Rightarrow> False)"

definition layout_ok :: "field_spec list \<Rightarrow> bool" where
  "layout_ok sps \<longleftrightarrow> list_all member_ok sps \<and>
     (\<forall>i. Suc i < length sps \<longrightarrow> next_ok (sps ! i) (sps ! Suc i)) \<and>
     (sps \<noteq> [] \<longrightarrow> sp_place (hd sps) = FIRST_PL)"

text \<open>Where the count, flag or selector of a field is; fields without one have it at the data.\<close>

definition size_at :: "field_spec \<Rightarrow> nat" where
  "size_at sp = (let m = sp_member sp in
     if sp_rules sp = ONEOF \<or> sp_rules sp = REPEATED \<and> sp_alloc sp \<noteq> CALLBACK_AL \<or>
        sp_rules sp = OPTIONAL \<and> sp_alloc sp = STATIC_AL
     then aux_offset m else offsetof m)"

lemma type_parts:
  "PB_ATYPE (a OR h OR PB_LTYPE_MAP ty) = a" "PB_HTYPE (a OR h OR PB_LTYPE_MAP ty) = h"
  if "a \<in> {PB_ATYPE_STATIC, PB_ATYPE_POINTER, PB_ATYPE_CALLBACK}"
    "h \<in> {PB_HTYPE_REQUIRED, PB_HTYPE_OPTIONAL, PB_HTYPE_REPEATED, PB_HTYPE_ONEOF}"
  using that by (cases ty; auto simp: pb_type_defs)+

subsection \<open>The iterator recovers the layout\<close>

lemma spec_fields_nth:
  assumes "spec_fields prev sps = Some fs"
  shows "length fs = Suc (length sps)"
    and "i < length sps \<Longrightarrow> spec_field (if i = 0 then prev else sp_member (sps ! (i - 1))) (sps ! i) = Some (fs ! i)"
    and "last fs = PB_LAST_FIELD"
proof -
  have "length fs = Suc (length sps) \<and> last fs = PB_LAST_FIELD \<and> (\<forall>i < length sps.
      spec_field (if i = 0 then prev else sp_member (sps ! (i - 1))) (sps ! i) = Some (fs ! i))"
    using assms
  proof (induction sps arbitrary: prev fs)
    case (Cons sp sps)
    then obtain f gs where f: "spec_field prev sp = Some f" and gs: "spec_fields (sp_member sp) sps = Some gs"
      and fs: "fs = f # gs" by (auto simp: bind_eq_Some_conv)
    note IH = Cons.IH [OF gs]
    have "spec_field (if i = 0 then prev else sp_member ((sp # sps) ! (i - 1))) ((sp # sps) ! i) = Some (fs ! i)"
      if "i < Suc (length sps)" for i
      using that IH f fs by (cases i) (auto split: if_splits simp: nth_Cons')
    with IH fs show ?case by auto
  qed simp
  then show "length fs = Suc (length sps)" "last fs = PB_LAST_FIELD"
    "i < length sps \<Longrightarrow> spec_field (if i = 0 then prev else sp_member (sps ! (i - 1))) (sps ! i) = Some (fs ! i)"
    by auto
qed

lemma unat_of_nat32: "n < 2 ^ 32 \<Longrightarrow> unat (of_nat n :: 32 word) = n"
  by (simp add: unat_of_nat)

lemma type_distinct:
  "distinct [PB_ATYPE_STATIC, PB_ATYPE_POINTER, PB_ATYPE_CALLBACK]"
  "distinct [PB_HTYPE_REQUIRED, PB_HTYPE_OPTIONAL, PB_HTYPE_REPEATED, PB_HTYPE_ONEOF]"
  by (simp_all add: atype_defs htype_defs)

lemma sint_small: "- (2 ^ 31) \<le> x \<Longrightarrow> x < 2 ^ 31 \<Longrightarrow> sint (word_of_int x :: 32 word) = x"
  by (simp add: signed_of_int signed_take_bit_int_eq_self)

lemma spec_field_facts:
  assumes f: "spec_field prev sp = Some f" and ok: "member_ok sp"
  shows "uint (prev_field_size f) = int (membersize (sp_member sp))"
    and "sint (pf_size_offset f) = int (size_at sp) - int (offsetof (sp_member sp))"
    and "PB_HTYPE (pf_type f) = PB_HTYPE_ONEOF \<longleftrightarrow> sp_rules sp = ONEOF"
    and "pf_data_offset f = PB_DATAOFFSET (sp_place sp) (sp_member sp) prev"
    and "pf_tag f \<noteq> 0"
proof -
  let ?m = "sp_member sp"
  from ok have b: "offsetof ?m < 2 ^ 31" "membersize ?m < 2 ^ 31" "aux_offset ?m < 2 ^ 31" "itemsize ?m < 2 ^ 31"
    by (auto simp: member_ok_def Let_def)
  have delta: "sint (pb_delta ?m) = int (aux_offset ?m) - int (offsetof ?m)"
    unfolding pb_delta_def by (rule sint_small) (use b in auto)
  have u: "unat (pb_membersize ?m) = membersize ?m" "unat (pb_itemsize ?m) = itemsize ?m"
    using b by (simp_all add: pb_membersize_def pb_itemsize_def unat_of_nat)
  have arr: "unat (ucast (pb_itemsize ?m) * ucast (pb_arraysize ?m) :: size_t) = membersize ?m"
    if "0 < itemsize ?m" "membersize ?m mod itemsize ?m = 0"
  proof -
    have "membersize ?m div itemsize ?m < 2 ^ 32"
      by (rule le_less_trans [OF div_le_dividend]) (use b(2) in simp)
    then have "unat (pb_arraysize ?m) = membersize ?m div itemsize ?m"
      unfolding pb_arraysize_def by (rule unat_of_nat32)
    moreover have "itemsize ?m * (membersize ?m div itemsize ?m) = membersize ?m"
      using that(2) by (simp add: mult_div_mod_eq dvd_eq_mod_eq_0)
    ultimately show ?thesis using b u by (simp add: unat_word_ariths)
  qed
  obtain mac where mac: "PB_FIELD_MACRO (sp_rules sp) (sp_alloc sp) = Some mac"
    and fm: "f = mac (sp_tag sp) ?m (PB_DATAOFFSET (sp_place sp) ?m prev) (PB_LTYPE_MAP (sp_type sp)) (sp_ptr sp)"
    using f by (auto simp: spec_field_def PB_FIELD_def bind_eq_Some_conv)
  have no: "sp_rules sp \<noteq> OPTEXT" using ok by (simp add: member_ok_def Let_def)
  show "uint (prev_field_size f) = int (membersize ?m)"
    unfolding uint_nat of_nat_eq_iff
    using mac no u arr ok type_distinct unfolding fm
    by (cases "sp_rules sp"; cases "sp_alloc sp")
      (auto simp: PB_FIELD_MACRO_def field_macro_defs prev_field_size_def type_parts member_ok_def Let_def)
  show "sint (pf_size_offset f) = int (size_at sp) - int (offsetof ?m)"
    using mac no delta unfolding fm
    by (cases "sp_rules sp"; cases "sp_alloc sp")
      (auto simp: PB_FIELD_MACRO_def field_macro_defs size_at_def Let_def)
  show "PB_HTYPE (pf_type f) = PB_HTYPE_ONEOF \<longleftrightarrow> sp_rules sp = ONEOF"
    using mac no type_distinct(2) unfolding fm
    by (cases "sp_rules sp"; cases "sp_alloc sp")
      (auto simp: PB_FIELD_MACRO_def field_macro_defs type_parts)
  show "pf_data_offset f = PB_DATAOFFSET (sp_place sp) ?m prev"
    using mac no unfolding fm
    by (cases "sp_rules sp"; cases "sp_alloc sp") (auto simp: PB_FIELD_MACRO_def field_macro_defs)
  show "pf_tag f \<noteq> 0"
    using mac no ok unfolding fm
    by (cases "sp_rules sp"; cases "sp_alloc sp")
      (auto simp: PB_FIELD_MACRO_def field_macro_defs member_ok_def Let_def)
qed

lemma dataoffset_other:
  assumes "offsetof m2 + membersize m2 \<le> offsetof m1" and "offsetof m1 < 2 ^ 31"
  shows "uint (PB_DATAOFFSET OTHER_PL m1 m2) = int (offsetof m1 - offsetof m2 - membersize m2)"
    and "PB_DATAOFFSET OTHER_PL m1 m2 \<noteq> PB_SIZE_MAX"
proof -
  have "PB_DATAOFFSET OTHER_PL m1 m2 = of_nat (offsetof m1 - offsetof m2 - membersize m2)"
    using assms(1) by (simp add: PB_DATAOFFSET_def of_nat_diff diff_diff_left)
  moreover have "offsetof m1 - offsetof m2 - membersize m2 < 2 ^ 31" using assms(2) by linarith
  ultimately have u: "unat (PB_DATAOFFSET OTHER_PL m1 m2) = offsetof m1 - offsetof m2 - membersize m2"
    by (simp add: unat_of_nat)
  then show "uint (PB_DATAOFFSET OTHER_PL m1 m2) = int (offsetof m1 - offsetof m2 - membersize m2)"
    unfolding uint_nat by simp
  have "unat (PB_SIZE_MAX) = 2 ^ 32 - 1" by (simp add: unsigned_minus_1_eq_mask mask_eq_exp_minus_1)
  with u assms(2) show "PB_DATAOFFSET OTHER_PL m1 m2 \<noteq> PB_SIZE_MAX" by auto
qed

lemma iterator_offsets:
  assumes fs: "spec_fields prev sps = Some fs" and ok: "layout_ok sps" and i: "i < length sps"
  shows "data_off fs i = int (offsetof (sp_member (sps ! i))) \<and> size_off fs i = int (size_at (sps ! i))"
  using i
proof (induction i)
  case 0
  then have f: "spec_field prev (sps ! 0) = Some (fs ! 0)" using spec_fields_nth(2) [OF fs, of 0] by simp
  have m: "member_ok (sps ! 0)" "sp_place (sps ! 0) = FIRST_PL"
    using ok 0 by (auto simp: layout_ok_def list_all_length hd_conv_nth)
  have "offsetof (sp_member (sps ! 0)) < 2 ^ 32" using m(1) by (auto simp: member_ok_def Let_def)
  then have "uint (of_nat (offsetof (sp_member (sps ! 0))) :: 32 word) = int (offsetof (sp_member (sps ! 0)))"
    unfolding uint_nat by (simp add: unat_of_nat)
  with spec_field_facts [OF f m(1)] m(2) show ?case by (simp add: PB_DATAOFFSET_def)
next
  case (Suc i)
  let ?a = "sps ! i" and ?b = "sps ! Suc i"
  have f: "spec_field (sp_member ?a) ?b = Some (fs ! Suc i)" using spec_fields_nth(2) [OF fs Suc.prems] by simp
  obtain p where fa: "spec_field p ?a = Some (fs ! i)" using spec_fields_nth(2) [OF fs, of i] Suc.prems by auto
  have m: "member_ok ?a" "member_ok ?b" "next_ok ?a ?b"
    using ok Suc.prems by (auto simp: layout_ok_def list_all_length)
  note A = spec_field_facts [OF fa m(1)] and B = spec_field_facts [OF f m(2)]
  have IH: "data_off fs i = int (offsetof (sp_member ?a))" "size_off fs i = int (size_at ?a)"
    using Suc.IH Suc.prems by auto
  show ?case
  proof (cases "sp_place ?b")
    case UNION_PL
    with m(3) have u: "sp_rules ?a = ONEOF" "sp_rules ?b = ONEOF"
      "offsetof (sp_member ?b) = offsetof (sp_member ?a)" "aux_offset (sp_member ?b) = aux_offset (sp_member ?a)"
      by (auto simp: next_ok_def)
    have "same_union (fs ! i) (fs ! Suc i)"
      using A(3) B(3,4) u UNION_PL by (simp add: same_union_def PB_DATAOFFSET_def)
    with IH u show ?thesis by (simp add: size_at_def Let_def)
  next
    case OTHER_PL
    with m(3) have le: "offsetof (sp_member ?a) + membersize (sp_member ?a) \<le> offsetof (sp_member ?b)"
      by (simp add: next_ok_def)
    have "offsetof (sp_member ?b) < 2 ^ 31" using m(2) by (auto simp: member_ok_def Let_def)
    note D = dataoffset_other [OF le this]
    have "\<not> same_union (fs ! i) (fs ! Suc i)" using B(4) OTHER_PL D(2) by (simp add: same_union_def)
    with IH A(1) B(2,4) OTHER_PL D(1) le show ?thesis by simp
  next
    case FIRST_PL
    with m(3) show ?thesis by (simp add: next_ok_def)
  qed
qed


definition demo_specs :: "field_spec list" where
  "demo_specs =
     [\<lparr>sp_tag = 1, sp_type = T_INT32, sp_rules = REQUIRED, sp_alloc = STATIC_AL, sp_place = FIRST_PL,
       sp_member = \<lparr>offsetof = 0, membersize = 4, itemsize = 4, aux_offset = 0\<rparr>, sp_ptr = PtrNull\<rparr>,
      \<lparr>sp_tag = 2, sp_type = T_STRING, sp_rules = OPTIONAL, sp_alloc = STATIC_AL, sp_place = OTHER_PL,
       sp_member = \<lparr>offsetof = 5, membersize = 8, itemsize = 1, aux_offset = 4\<rparr>, sp_ptr = PtrNull\<rparr>,
      \<lparr>sp_tag = 3, sp_type = T_UINT32, sp_rules = REPEATED, sp_alloc = STATIC_AL, sp_place = OTHER_PL,
       sp_member = \<lparr>offsetof = 20, membersize = 16, itemsize = 4, aux_offset = 16\<rparr>, sp_ptr = PtrNull\<rparr>]"


end
