(* ===== verification/Ldb_Coding.thy ===== *)
theory Ldb_Coding
  imports Common_Prelude
begin

text \<open>
  The byte encodings of leveldb (\<open>util/coding.h\<close>, \<open>util/coding.cc\<close>) and the slices they are read
  from (\<open>include/leveldb/slice.h\<close>). A slice is the list of the bytes it refers to; a pointer pair
  \<open>[p, limit)\<close> is the list of the bytes between them. A routine that writes to a \<open>char*\<close> returns
  the bytes it stores; a routine that appends to a string takes and returns the string.
\<close>

type_synonym slice = "byte list"

subsection \<open>Slices\<close>

definition slice_empty :: "slice \<Rightarrow> bool" where
  "slice_empty s \<longleftrightarrow> length s = 0"

text \<open>\<open>operator[]\<close> and \<open>remove_prefix\<close> assert that they stay inside.\<close>

definition slice_at :: "slice \<Rightarrow> nat \<Rightarrow> byte option" where
  "slice_at s n = (if n < length s then Some (s ! n) else None)"

definition remove_prefix :: "slice \<Rightarrow> nat \<Rightarrow> slice option" where
  "remove_prefix s n = (if n \<le> length s then Some (drop n s) else None)"

text \<open>\<open>memcmp\<close> on the first \<open>n\<close> bytes: the sign of the first difference, bytes unsigned.\<close>

fun memcmp :: "byte list \<Rightarrow> byte list \<Rightarrow> nat \<Rightarrow> int" where
  "memcmp (x # xs) (y # ys) (Suc n) =
     (if x < y then - 1 else if y < x then 1 else memcmp xs ys n)"
| "memcmp _ _ _ = 0"

definition slice_compare :: "slice \<Rightarrow> slice \<Rightarrow> int" where
  "slice_compare a b =
     (let min_len = (if length a < length b then length a else length b);
          r = memcmp a b min_len
      in if r = 0 then (if length a < length b then - 1 else if length b < length a then 1 else r)
         else r)"

definition starts_with :: "slice \<Rightarrow> slice \<Rightarrow> bool" where
  "starts_with s x \<longleftrightarrow> length x \<le> length s \<and> memcmp s x (length x) = 0"

definition slice_eq :: "slice \<Rightarrow> slice \<Rightarrow> bool" where
  "slice_eq x y \<longleftrightarrow> length x = length y \<and> memcmp x y (length x) = 0"

subsection \<open>Fixed-width values\<close>

text \<open>Both branches of \<open>port::kLittleEndian\<close>; \<open>memcpy\<close> copies the bytes of a little-endian
  machine.\<close>

definition EncodeFixed32 :: "bool \<Rightarrow> 32 word \<Rightarrow> byte list" where
  "EncodeFixed32 kLittleEndian v =
     (if kLittleEndian then bytes_of_word 4 v
      else [ucast (v AND 0xff), ucast (drop_bit 8 v AND 0xff), ucast (drop_bit 16 v AND 0xff),
            ucast (drop_bit 24 v AND 0xff)])"

definition EncodeFixed64 :: "bool \<Rightarrow> 64 word \<Rightarrow> byte list" where
  "EncodeFixed64 kLittleEndian v =
     (if kLittleEndian then bytes_of_word 8 v
      else [ucast (v AND 0xff), ucast (drop_bit 8 v AND 0xff), ucast (drop_bit 16 v AND 0xff),
            ucast (drop_bit 24 v AND 0xff), ucast (drop_bit 32 v AND 0xff),
            ucast (drop_bit 40 v AND 0xff), ucast (drop_bit 48 v AND 0xff),
            ucast (drop_bit 56 v AND 0xff)])"

definition DecodeFixed32 :: "bool \<Rightarrow> byte list \<Rightarrow> 32 word option" where
  "DecodeFixed32 kLittleEndian p =
     (if length p < 4 then None
      else if kLittleEndian then Some (word_of_bytes (take 4 p))
      else Some (ucast (p ! 0) OR push_bit 8 (ucast (p ! 1)) OR push_bit 16 (ucast (p ! 2)) OR
                 push_bit 24 (ucast (p ! 3))))"

definition DecodeFixed64 :: "bool \<Rightarrow> byte list \<Rightarrow> 64 word option" where
  "DecodeFixed64 kLittleEndian p =
     (if length p < 8 then None
      else if kLittleEndian then Some (word_of_bytes (take 8 p))
      else do {
        lo \<leftarrow> DecodeFixed32 kLittleEndian p;
        hi \<leftarrow> DecodeFixed32 kLittleEndian (drop 4 p);
        Some (push_bit 32 (ucast hi) OR ucast lo)
      })"

definition PutFixed32 :: "bool \<Rightarrow> byte list \<Rightarrow> 32 word \<Rightarrow> byte list" where
  "PutFixed32 le dst v = dst @ EncodeFixed32 le v"

definition PutFixed64 :: "bool \<Rightarrow> byte list \<Rightarrow> 64 word \<Rightarrow> byte list" where
  "PutFixed64 le dst v = dst @ EncodeFixed64 le v"

subsection \<open>Varints\<close>

definition EncodeVarint32 :: "32 word \<Rightarrow> byte list" where
  "EncodeVarint32 v =
     (if v < 0x80 then [ucast v]
      else if v < 0x4000 then [ucast (v OR 128), ucast (drop_bit 7 v)]
      else if v < 0x200000 then [ucast (v OR 128), ucast (drop_bit 7 v OR 128), ucast (drop_bit 14 v)]
      else if v < 0x10000000 then [ucast (v OR 128), ucast (drop_bit 7 v OR 128),
        ucast (drop_bit 14 v OR 128), ucast (drop_bit 21 v)]
      else [ucast (v OR 128), ucast (drop_bit 7 v OR 128), ucast (drop_bit 14 v OR 128),
        ucast (drop_bit 21 v OR 128), ucast (drop_bit 28 v)])"

definition PutVarint32 :: "byte list \<Rightarrow> 32 word \<Rightarrow> byte list" where
  "PutVarint32 dst v = dst @ EncodeVarint32 v"

function (sequential) EncodeVarint64 :: "64 word \<Rightarrow> byte list" where
  "EncodeVarint64 v =
     (if 128 \<le> v then ucast ((v AND 127) OR 128) # EncodeVarint64 (drop_bit 7 v) else [ucast v])"
  by pat_completeness auto
termination
  by (relation "measure unat")
    (auto simp: drop_bit_eq_div unat_div_distrib word_le_nat_alt)

declare EncodeVarint64.simps [simp del]

definition PutVarint64 :: "byte list \<Rightarrow> 64 word \<Rightarrow> byte list" where
  "PutVarint64 dst v = dst @ EncodeVarint64 v"

definition PutLengthPrefixedSlice :: "byte list \<Rightarrow> slice \<Rightarrow> byte list" where
  "PutLengthPrefixedSlice dst value = PutVarint32 dst (of_nat (length value)) @ value"

function (sequential) varint_length_loop :: "64 word \<Rightarrow> nat \<Rightarrow> nat" where
  "varint_length_loop v len = (if 128 \<le> v then varint_length_loop (drop_bit 7 v) (len + 1) else len)"
  by pat_completeness auto
termination
  by (relation "measure (\<lambda>(v, _). unat v)")
    (auto simp: drop_bit_eq_div unat_div_distrib word_le_nat_alt)

declare varint_length_loop.simps [simp del]

definition VarintLength :: "64 word \<Rightarrow> nat" where
  "VarintLength v = varint_length_loop v 1"

text \<open>The parsing loops: the value and the rest of the input, or \<open>None\<close> for a null pointer.\<close>

fun varint32_fallback :: "nat \<Rightarrow> 32 word \<Rightarrow> byte list \<Rightarrow> (32 word \<times> byte list) option" where
  "varint32_fallback shift result [] = None"
| "varint32_fallback shift result (b # p) =
     (if shift \<le> 28 then
        (if b AND 128 \<noteq> 0
         then varint32_fallback (shift + 7) (result OR push_bit shift (ucast b AND 127)) p
         else Some (result OR push_bit shift (ucast b), p))
      else None)"

definition GetVarint32PtrFallback :: "byte list \<Rightarrow> (32 word \<times> byte list) option" where
  "GetVarint32PtrFallback p = varint32_fallback 0 0 p"

definition GetVarint32Ptr :: "byte list \<Rightarrow> (32 word \<times> byte list) option" where
  "GetVarint32Ptr p =
     (case p of
        b # p' \<Rightarrow> if (ucast b :: 32 word) AND 128 = 0 then Some (ucast b, p') else GetVarint32PtrFallback p
      | [] \<Rightarrow> GetVarint32PtrFallback p)"

fun varint64_loop :: "nat \<Rightarrow> 64 word \<Rightarrow> byte list \<Rightarrow> (64 word \<times> byte list) option" where
  "varint64_loop shift result [] = None"
| "varint64_loop shift result (b # p) =
     (if shift \<le> 63 then
        (if b AND 128 \<noteq> 0
         then varint64_loop (shift + 7) (result OR push_bit shift (ucast b AND 127)) p
         else Some (result OR push_bit shift (ucast b), p))
      else None)"

definition GetVarint64Ptr :: "byte list \<Rightarrow> (64 word \<times> byte list) option" where
  "GetVarint64Ptr p = varint64_loop 0 0 p"

text \<open>The variants on slices return the value and the advanced slice.\<close>

definition GetVarint32 :: "slice \<Rightarrow> (32 word \<times> slice) option" where
  "GetVarint32 input = GetVarint32Ptr input"

definition GetVarint64 :: "slice \<Rightarrow> (64 word \<times> slice) option" where
  "GetVarint64 input = GetVarint64Ptr input"

definition GetLengthPrefixedSlicePtr :: "byte list \<Rightarrow> (slice \<times> byte list) option" where
  "GetLengthPrefixedSlicePtr p = do {
     (len, q) \<leftarrow> GetVarint32Ptr p;
     if length q < unat len then None else Some (take (unat len) q, drop (unat len) q)
   }"

definition GetLengthPrefixedSlice :: "slice \<Rightarrow> (slice \<times> slice) option" where
  "GetLengthPrefixedSlice input = do {
     (len, rest) \<leftarrow> GetVarint32 input;
     if unat len \<le> length rest then do {
       rest' \<leftarrow> remove_prefix rest (unat len);
       Some (take (unat len) rest, rest')
     }
     else None
   }"

text \<open>The platforms of the app are little-endian.\<close>

definition kLittleEndian :: bool where
  "kLittleEndian = True"

subsection \<open>Slices are ordered lexicographically\<close>

lemma memcmp_eq_0: "n \<le> length xs \<Longrightarrow> n \<le> length ys \<Longrightarrow> memcmp xs ys n = 0 \<longleftrightarrow> take n xs = take n ys"
  by (induction xs ys n rule: memcmp.induct) (auto simp: not_less)

lemma slice_eq_iff: "slice_eq x y \<longleftrightarrow> x = y"
  by (auto simp: slice_eq_def memcmp_eq_0)

lemma starts_with_iff: "starts_with s x \<longleftrightarrow> take (length x) s = x"
proof -
  have "take (length x) s = x \<Longrightarrow> length x \<le> length s" by (metis length_take min.cobounded1)
  then show ?thesis by (auto simp: starts_with_def memcmp_eq_0)
qed

text \<open>The order by recursion, as the specification of \<open>slice_compare\<close>.\<close>

fun bytes_less :: "byte list \<Rightarrow> byte list \<Rightarrow> bool" where
  "bytes_less _ [] \<longleftrightarrow> False"
| "bytes_less [] (y # ys) \<longleftrightarrow> True"
| "bytes_less (x # xs) (y # ys) \<longleftrightarrow> x < y \<or> x = y \<and> bytes_less xs ys"

lemma slice_compare_Cons:
  "slice_compare (x # xs) (y # ys) = (if x < y then - 1 else if y < x then 1 else slice_compare xs ys)"
  by (cases "x < y"; cases "y < x"; cases "length xs < length ys") (simp_all add: slice_compare_def Let_def)

lemma slice_compare_Nil:
  "slice_compare [] [] = 0" "slice_compare [] (y # ys) = - 1" "slice_compare (x # xs) [] = 1"
  by (simp_all add: slice_compare_def)

lemma slice_compare_spec: "slice_compare a b = (if bytes_less a b then - 1 else if a = b then 0 else 1)"
proof (induction a b rule: bytes_less.induct)
  case (1 a)
  then show ?case by (cases a) (simp_all add: slice_compare_Nil)
next
  case (3 x xs y ys)
  then show ?case by (cases "x < y"; cases "y < x") (auto simp: slice_compare_Cons)
qed (simp add: slice_compare_Nil)

lemma bytes_less_irrefl [simp]: "\<not> bytes_less a a"
  by (induction a) auto

lemma bytes_less_trans: "bytes_less a b \<Longrightarrow> bytes_less b c \<Longrightarrow> bytes_less a c"
proof (induction a b arbitrary: c rule: bytes_less.induct)
  case (2 y ys)
  then show ?case by (cases c) auto
next
  case (3 x xs y ys)
  then show ?case by (cases c) auto
qed simp

lemma bytes_less_linear: "bytes_less a b \<or> a = b \<or> bytes_less b a"
proof (induction a b rule: bytes_less.induct)
  case (1 a)
  then show ?case by (cases a) auto
next
  case (3 x xs y ys)
  then show ?case by (auto simp: neq_iff)
qed auto

subsection \<open>Fixed-width values\<close>

lemma and_ff: "ucast (x AND 0xff) = (ucast x :: byte)" for x :: "'a::len word"
proof -
  have "x AND 0xff = take_bit 8 x" by (simp add: take_bit_eq_mask mask_eq_exp_minus_1)
  then show ?thesis by (auto simp: bit_simps intro!: bit_word_eqI)
qed

text \<open>The branches for little-endian and other machines store the same bytes.\<close>

lemma EncodeFixed32_bytes: "EncodeFixed32 le v = bytes_of_word 4 v"
  by (simp add: EncodeFixed32_def and_ff eval_nat_numeral drop_bit_drop_bit)

lemma EncodeFixed64_bytes: "EncodeFixed64 le v = bytes_of_word 8 v"
  by (simp add: EncodeFixed64_def and_ff eval_nat_numeral drop_bit_drop_bit)

lemma length_EncodeFixed [simp]: "length (EncodeFixed32 le v) = 4" "length (EncodeFixed64 le w) = 8"
  by (simp_all add: EncodeFixed32_bytes EncodeFixed64_bytes)

lemma first_bytes: "n \<le> length p \<Longrightarrow> k < n \<Longrightarrow> take n p ! k = p ! k"
  by simp

lemma join4:
  "length bs = 4 \<Longrightarrow> ucast (bs ! 0) OR push_bit 8 (ucast (bs ! 1)) OR
     push_bit 16 (ucast (bs ! 2)) OR push_bit 24 (ucast (bs ! 3)) = (word_of_bytes bs :: 32 word)"
  by (auto simp: length_Suc_conv eval_nat_numeral push_bit_or)

lemma DecodeFixed32_bytes:
  assumes "4 \<le> length p"
  shows "DecodeFixed32 le p = Some (word_of_bytes (take 4 p))"
  using assms join4 [of "take 4 p"] by (auto simp: DecodeFixed32_def)

lemma word_of_bytes_append:
  "word_of_bytes (xs @ ys) = word_of_bytes xs OR push_bit (8 * length xs) (word_of_bytes ys :: 'a::len word)"
  by (induction xs) (simp_all add: push_bit_or or.assoc)

lemma bit_word_of_bytes:
  "bit (word_of_bytes bs :: 'a::len word) i \<longleftrightarrow>
     i < LENGTH('a) \<and> i < 8 * length bs \<and> bit (bs ! (i div 8)) (i mod 8)"
proof (induction bs arbitrary: i)
  case (Cons b bs)
  show ?case
  proof (cases "i < 8")
    case True
    then show ?thesis by (auto simp: bit_simps)
  next
    case False
    then have "i div 8 = Suc ((i - 8) div 8)" "i mod 8 = (i - 8) mod 8"
      by (simp_all add: div_if [of i] mod_if [of i])
    with False Cons.IH [of "i - 8"] show ?thesis
      by (auto simp: bit_simps dest: bit_imp_le_length)
  qed
qed simp

lemma word_of_bytes_widen:
  "length bs \<le> 4 \<Longrightarrow> ucast (word_of_bytes bs :: 32 word) = (word_of_bytes bs :: 64 word)"
  by (rule bit_word_eqI) (auto simp: bit_word_of_bytes bit_unsigned_iff)

lemma DecodeFixed64_bytes:
  assumes "8 \<le> length p"
  shows "DecodeFixed64 le p = Some (word_of_bytes (take 8 p))"
proof -
  have "take 8 p = take 4 p @ take 4 (drop 4 p)" using take_add [of 4 4 p] by simp
  moreover have "DecodeFixed32 le p = Some (word_of_bytes (take 4 p))"
    "DecodeFixed32 le (drop 4 p) = Some (word_of_bytes (take 4 (drop 4 p)))"
    using assms by (simp_all add: DecodeFixed32_bytes)
  ultimately show ?thesis
    using assms by (cases le) (simp_all add: DecodeFixed64_def word_of_bytes_append word_of_bytes_widen or.commute)
qed

lemma DecodeFixed32_Encode [simp]: "DecodeFixed32 le (EncodeFixed32 le' v @ rest) = Some v"
  by (simp add: DecodeFixed32_bytes EncodeFixed32_bytes word_of_bytes_inverse)

lemma DecodeFixed64_Encode [simp]: "DecodeFixed64 le (EncodeFixed64 le' v @ rest) = Some v"
  by (simp add: DecodeFixed64_bytes EncodeFixed64_bytes word_of_bytes_inverse)

subsection \<open>Varints\<close>

lemma small_iff: "128 \<le> v \<longleftrightarrow> drop_bit 7 v \<noteq> 0" for v :: "64 word"
  by (auto simp: word_le_nat_alt word_unat_eq_iff unat_drop7 div_eq_0_iff)

lemma EncodeVarint64_cases:
  "EncodeVarint64 v = (if drop_bit 7 v \<noteq> 0
     then (ucast (take_bit 7 v) OR 128) # EncodeVarint64 (drop_bit 7 v) else [ucast v])"
proof -
  have "(ucast ((v AND 127) OR 128) :: byte) = ucast (take_bit 7 v) OR 128"
    by (auto simp: word_80 and_7F bit_simps intro!: bit_word_eqI simp del: push_bit_of_1)
  then show ?thesis by (subst EncodeVarint64.simps) (simp add: small_iff)
qed

lemma low_group: "ucast (ucast (take_bit 7 v) OR 128 :: byte) AND 127 = (take_bit 7 v :: 64 word)"
  by (auto simp: word_80 and_7F bit_simps intro!: bit_word_eqI simp del: push_bit_of_1)

lemma varint64_loop_encode:
  assumes "shift \<le> 63" and "unat v < 2 ^ (64 - shift)"
  shows "varint64_loop shift result (EncodeVarint64 v @ rest) = Some (result OR push_bit shift v, rest)"
  using assms
proof (induction v arbitrary: shift result rule: EncodeVarint64.induct)
  case (1 v)
  show ?case
  proof (cases "drop_bit 7 v = 0")
    case True
    have "ucast (ucast v :: byte) = v"
      using True by (auto simp: bit_simps dest: drop_zero_bit intro!: bit_word_eqI)
    with True last_byte(1) [OF True] "1.prems" show ?thesis
      by (simp add: EncodeVarint64_cases top_bit)
  next
    case False
    note fit = drop7_fits [OF "1.prems"(2) False]
    have "128 \<le> v" using False small_iff by blast
    moreover have "unat (drop_bit 7 v) < 2 ^ (64 - (shift + 7))" "shift + 7 \<le> 63"
      using fit by auto
    ultimately have "varint64_loop (shift + 7) (result OR push_bit shift (take_bit 7 v))
        (EncodeVarint64 (drop_bit 7 v) @ rest) = Some (result OR push_bit shift v, rest)"
      using "1.IH" by (simp add: or.assoc join_groups)
    with False cont_byte(1) [of v] "1.prems"(1) show ?thesis
      by (subst EncodeVarint64_cases) (simp add: top_bit low_group)
  qed
qed

lemma GetVarint64_Encode [simp]: "GetVarint64 (EncodeVarint64 v @ rest) = Some (v, rest)"
  using varint64_loop_encode [of 0 v 0 rest] unat64_less [of v]
  by (simp add: GetVarint64_def GetVarint64Ptr_def)

lemma VarintLength_loop: "varint_length_loop v n = n + length (EncodeVarint64 v) - 1"
proof (induction v n rule: varint_length_loop.induct)
  case (1 v len)
  then show ?case
    by (subst varint_length_loop.simps, subst EncodeVarint64.simps)
      (simp add: EncodeVarint64.simps [of "drop_bit 7 v"])
qed

text \<open>The unrolled 32-bit encoder produces what the 64-bit loop produces.\<close>

lemma bit32: "bit v k \<Longrightarrow> k < 64" for v :: "32 word"
  using bit_imp_le_length [of v k] by simp

lemma group32: "(ucast (drop_bit n v OR 128) :: byte) = ucast (take_bit 7 (drop_bit n (ucast v :: 64 word))) OR 128"
  for v :: "32 word"
  by (auto simp: word_80 bit_simps intro!: bit_word_eqI simp del: push_bit_of_1 dest: bit32)

lemma last32: "(ucast (drop_bit n v) :: byte) = ucast (drop_bit n (ucast v :: 64 word))" for v :: "32 word"
  by (auto simp: bit_simps intro!: bit_word_eqI dest: bit32)

lemma drop32_zero: "drop_bit n (ucast v :: 64 word) = 0 \<longleftrightarrow> unat v < 2 ^ n" for v :: "32 word"
  by (simp add: word_unat_eq_iff unat_drop_bit_eq) (simp add: drop_bit_eq_div div_eq_0_iff)

lemma EncodeVarint32_eq: "EncodeVarint32 v = EncodeVarint64 (ucast v)"
proof -
  note g = group32 [of 0 v] last32 [of 0 v]
  have "unat v < 2 ^ 32" by (rule unat32_less)
  then have top: "drop_bit 35 (ucast v :: 64 word) = 0"
    by (simp add: word_unat_eq_iff drop_bit_eq_div unat_div_distrib)
  show ?thesis
    unfolding EncodeVarint32_def word_less_nat_alt
    using top g
    by (simp add: EncodeVarint64_cases drop32_zero drop_bit_drop_bit group32 last32)
qed

lemma varint32_fallback_encode:
  assumes "7 dvd shift" and "shift \<le> 28" and "unat v < 2 ^ (35 - shift)"
  shows "varint32_fallback shift result (EncodeVarint64 v @ rest) =
    Some (result OR push_bit shift (ucast v), rest)"
  using assms
proof (induction v arbitrary: shift result rule: EncodeVarint64.induct)
  case (1 v)
  show ?case
  proof (cases "drop_bit 7 v = 0")
    case True
    have "ucast (ucast v :: byte) = (ucast v :: 32 word)"
      using True by (auto simp: bit_simps dest: drop_zero_bit intro!: bit_word_eqI)
    with True last_byte(1) [OF True] "1.prems" show ?thesis
      by (simp add: EncodeVarint64_cases top_bit)
  next
    case False
    note fit = drop7_fits [OF "1.prems"(3) False]
    have big: "128 \<le> v" using False small_iff by blast
    have lt: "unat (drop_bit 7 v) < 2 ^ (35 - (shift + 7))" using fit by simp
    have sh: "7 dvd shift + 7" "shift + 7 \<le> 28" using "1.prems"(1) fit(2) by (auto elim!: dvdE)
    have "push_bit shift (take_bit 7 (ucast v)) OR push_bit (shift + 7) (ucast (drop_bit 7 v)) =
        (push_bit shift (ucast v) :: 32 word)"
      by (auto simp: bit_simps intro!: bit_word_eqI)
    note IH = "1.IH" [OF big sh lt, of "result OR push_bit shift (take_bit 7 (ucast v))", unfolded or.assoc this]
    have "ucast (ucast (take_bit 7 v) OR 128 :: byte) AND 127 = (take_bit 7 (ucast v) :: 32 word)"
      by (auto simp: word_80 and_7F bit_simps intro!: bit_word_eqI simp del: push_bit_of_1)
    with IH False cont_byte(1) [of v] "1.prems"(2) show ?thesis
      by (subst EncodeVarint64_cases) (simp add: top_bit)
  qed
qed

text \<open>The fast path for one byte agrees with the loop.\<close>

lemma GetVarint32Ptr_fallback: "GetVarint32Ptr p = GetVarint32PtrFallback p"
proof (cases p)
  case (Cons b bs)
  have "(ucast b :: 32 word) AND 128 = 0 \<longleftrightarrow> b AND 128 = 0"
    by (simp add: top_bit bit_simps)
  with Cons show ?thesis by (simp add: GetVarint32Ptr_def GetVarint32PtrFallback_def)
qed (simp add: GetVarint32Ptr_def)

lemma GetVarint32_Encode [simp]: "GetVarint32 (EncodeVarint32 v @ rest) = Some (v, rest)"
proof -
  have "unat (ucast v :: 64 word) < 2 ^ 35" using unat32_less [of v] by simp
  moreover have "ucast (ucast v :: 64 word) = v" by (auto simp: bit_simps intro!: bit_word_eqI)
  ultimately show ?thesis
    using varint32_fallback_encode [of 0 "ucast v" 0 rest]
    by (simp add: GetVarint32_def GetVarint32Ptr_fallback GetVarint32PtrFallback_def EncodeVarint32_eq)
qed

lemma GetLengthPrefixed_Put [simp]:
  assumes "length value < 2 ^ 32"
  shows "GetLengthPrefixedSlice (PutLengthPrefixedSlice [] value @ rest) = Some (value, rest)"
proof -
  have "unat (of_nat (length value) :: 32 word) = length value" using assms by (simp add: unat_of_nat)
  then show ?thesis
    by (simp add: GetLengthPrefixedSlice_def PutLengthPrefixedSlice_def PutVarint32_def remove_prefix_def)
qed

lemma GetLengthPrefixed_ptr: "GetLengthPrefixedSlice p = GetLengthPrefixedSlicePtr p"
  by (auto simp: GetLengthPrefixedSlice_def GetLengthPrefixedSlicePtr_def GetVarint32_def remove_prefix_def
      not_less intro!: Option.bind_cong)

text \<open>What a parser leaves is a proper suffix of its input.\<close>

lemma varint32_fallback_suffix:
  "varint32_fallback shift result p = Some (v, q) \<Longrightarrow> \<exists>xs. p = xs @ q \<and> xs \<noteq> []"
proof (induction shift result p rule: varint32_fallback.induct)
  case (2 shift result b p)
  show ?case
  proof (cases "b AND 128 = 0")
    case False
    with 2 obtain xs where "p = xs @ q" by (auto split: if_splits)
    then show ?thesis by (intro exI [of _ "b # xs"]) simp
  qed (use 2 in \<open>auto split: if_splits\<close>)
qed simp

lemma GetVarint32_suffix: "GetVarint32 p = Some (v, q) \<Longrightarrow> \<exists>xs. p = xs @ q \<and> xs \<noteq> []"
  using varint32_fallback_suffix
  by (auto simp: GetVarint32_def GetVarint32Ptr_fallback GetVarint32PtrFallback_def)

end
