(* ===== verification/Ldb_Comparator.thy ===== *)
theory Ldb_Comparator
  imports Ldb_Coding
begin

text \<open>
  Key comparators (\<open>include/leveldb/comparator.h\<close>, \<open>util/comparator.cc\<close>). The contract of a
  comparator is a locale: a total preorder on the keys it is meant for, where \<open>None\<close> is a failed
  assertion. A second locale adds the contract of the two routines that shorten keys for index
  blocks. The bytewise comparator is an instance of both.
\<close>

subsection \<open>The contract\<close>

locale comparator =
  fixes cmp :: "'k \<Rightarrow> 'k \<Rightarrow> int option" and good :: "'k \<Rightarrow> bool"
  assumes cmp_total: "good a \<Longrightarrow> good b \<Longrightarrow> \<exists>r. cmp a b = Some r"
    and cmp_swap: "good a \<Longrightarrow> good b \<Longrightarrow> cmp a b = Some r \<Longrightarrow> cmp b a = Some r' \<Longrightarrow> r < 0 \<longleftrightarrow> 0 < r'"
    and cmp_trans: "good a \<Longrightarrow> good b \<Longrightarrow> good c \<Longrightarrow> cmp a b = Some r \<Longrightarrow> r \<le> 0 \<Longrightarrow>
      cmp b c = Some r' \<Longrightarrow> r' \<le> 0 \<Longrightarrow> cmp a c = Some r'' \<Longrightarrow> r'' \<le> 0"
begin

definition lt :: "'k \<Rightarrow> 'k \<Rightarrow> bool" where
  "lt a b \<longleftrightarrow> (\<exists>r. cmp a b = Some r \<and> r < 0)"

definition le :: "'k \<Rightarrow> 'k \<Rightarrow> bool" where
  "le a b \<longleftrightarrow> (\<exists>r. cmp a b = Some r \<and> r \<le> 0)"

definition eqv :: "'k \<Rightarrow> 'k \<Rightarrow> bool" where
  "eqv a b \<longleftrightarrow> cmp a b = Some 0"

lemma le_not_lt: "good a \<Longrightarrow> good b \<Longrightarrow> le a b \<longleftrightarrow> \<not> lt b a"
  using cmp_total [of a b] cmp_total [of b a] cmp_swap [of b a]
  by (fastforce simp: le_def lt_def)

lemma lt_imp_le: "lt a b \<Longrightarrow> le a b"
  by (auto simp: le_def lt_def)

lemma le_trans: "good a \<Longrightarrow> good b \<Longrightarrow> good c \<Longrightarrow> le a b \<Longrightarrow> le b c \<Longrightarrow> le a c"
  using cmp_total [of a c] cmp_trans [of a b c] by (auto simp: le_def)

lemma lt_le_trans: "good a \<Longrightarrow> good b \<Longrightarrow> good c \<Longrightarrow> lt a b \<Longrightarrow> le b c \<Longrightarrow> lt a c"
  using le_not_lt le_trans by blast

lemma le_lt_trans: "good a \<Longrightarrow> good b \<Longrightarrow> good c \<Longrightarrow> le a b \<Longrightarrow> lt b c \<Longrightarrow> lt a c"
  using le_not_lt le_trans by blast

lemma lt_trans: "good a \<Longrightarrow> good b \<Longrightarrow> good c \<Longrightarrow> lt a b \<Longrightarrow> lt b c \<Longrightarrow> lt a c"
  using lt_imp_le lt_le_trans by blast

lemma lt_irrefl: "good a \<Longrightarrow> \<not> lt a a"
  using lt_imp_le le_not_lt by blast

lemma eqv_iff: "good a \<Longrightarrow> good b \<Longrightarrow> eqv a b \<longleftrightarrow> \<not> lt a b \<and> \<not> lt b a"
  using cmp_total [of a b] cmp_total [of b a] cmp_swap [of a b] cmp_swap [of b a]
  by (fastforce simp: eqv_def lt_def)

lemma eqv_refl: "good a \<Longrightarrow> eqv a a"
  by (simp add: eqv_iff lt_irrefl)

lemma cmp_cases: "good a \<Longrightarrow> good b \<Longrightarrow> lt a b \<or> eqv a b \<or> lt b a"
  by (auto simp: eqv_iff)

text \<open>Comparing what a partial function extracts from the keys keeps the contract.\<close>

lemma pullback:
  assumes "\<And>a. g a \<Longrightarrow> \<exists>x. f a = Some x \<and> good x"
  shows "comparator (\<lambda>a b. do { x \<leftarrow> f a; y \<leftarrow> f b; cmp x y }) g"
proof
  show "\<exists>r. do { x \<leftarrow> f a; y \<leftarrow> f b; cmp x y } = Some r" if "g a" "g b" for a b
    using assms [OF that(1)] assms [OF that(2)] cmp_total by fastforce
next
  fix a b r r'
  assume g: "g a" "g b" and c: "do { x \<leftarrow> f a; y \<leftarrow> f b; cmp x y } = Some r" "do { x \<leftarrow> f b; y \<leftarrow> f a; cmp x y } = Some r'"
  obtain x y where "f a = Some x" "good x" "f b = Some y" "good y"
    using assms [OF g(1)] assms [OF g(2)] by blast
  with c have "cmp x y = Some r" "cmp y x = Some r'" by simp_all
  from cmp_swap [OF \<open>good x\<close> \<open>good y\<close> this] show "r < 0 \<longleftrightarrow> 0 < r'" .
next
  fix a b c r r' r''
  assume g: "g a" "g b" "g c" and r: "do { x \<leftarrow> f a; y \<leftarrow> f b; cmp x y } = Some r" "r \<le> 0"
    "do { x \<leftarrow> f b; y \<leftarrow> f c; cmp x y } = Some r'" "r' \<le> 0" "do { x \<leftarrow> f a; y \<leftarrow> f c; cmp x y } = Some r''"
  obtain x y z where "f a = Some x" "good x" "f b = Some y" "good y" "f c = Some z" "good z"
    using assms [OF g(1)] assms [OF g(2)] assms [OF g(3)] by blast
  with r have "cmp x y = Some r" "cmp y z = Some r'" "cmp x z = Some r''" by simp_all
  with cmp_trans [OF \<open>good x\<close> \<open>good y\<close> \<open>good z\<close>] r(2,4) show "r'' \<le> 0" by blast
qed

end

text \<open>A comparator of keys.\<close>

locale key_comparator = comparator cmp good
  for cmp :: "slice \<Rightarrow> slice \<Rightarrow> int option" and good :: "slice \<Rightarrow> bool"

text \<open>The two routines that replace a key by a shorter one between given bounds.\<close>

locale separator = key_comparator cmp good
  for cmp :: "slice \<Rightarrow> slice \<Rightarrow> int option" and good :: "slice \<Rightarrow> bool" +
  fixes sep :: "slice \<Rightarrow> slice \<Rightarrow> slice option" and succ :: "slice \<Rightarrow> slice option"
  assumes sep_bounds: "good a \<Longrightarrow> good b \<Longrightarrow> lt a b \<Longrightarrow>
      \<exists>c. sep a b = Some c \<and> good c \<and> le a c \<and> lt c b"
    and succ_bound: "good a \<Longrightarrow> \<exists>c. succ a = Some c \<and> good c \<and> le a c"

subsection \<open>The bytewise comparator\<close>

definition Bytewise_Compare :: "slice \<Rightarrow> slice \<Rightarrow> int option" where
  "Bytewise_Compare a b = Some (slice_compare a b)"

text \<open>The length of the common prefix.\<close>

fun diff_index :: "byte list \<Rightarrow> byte list \<Rightarrow> nat" where
  "diff_index (x # xs) (y # ys) = (if x = y then Suc (diff_index xs ys) else 0)"
| "diff_index _ _ = 0"

text \<open>\<open>diff_byte + 1\<close> is computed at \<open>int\<close>, so it does not wrap. \<open>None\<close> is the failed assertion.\<close>

definition Bytewise_FindShortestSeparator :: "slice \<Rightarrow> slice \<Rightarrow> slice option" where
  "Bytewise_FindShortestSeparator start limit =
     (let min_length = min (length start) (length limit); i = diff_index start limit in
      if min_length \<le> i then Some start
      else let diff_byte = start ! i in
        if diff_byte < 0xff \<and> unat diff_byte + 1 < unat (limit ! i)
        then let start' = take i start @ [diff_byte + 1] in
          if slice_compare start' limit < 0 then Some start' else None
        else Some start)"

fun successor_from :: "byte list \<Rightarrow> byte list" where
  "successor_from [] = []"
| "successor_from (b # bs) = (if b \<noteq> 0xff then [b + 1] else b # successor_from bs)"

definition Bytewise_FindShortSuccessor :: "slice \<Rightarrow> slice option" where
  "Bytewise_FindShortSuccessor key = Some (successor_from key)"

lemma Bytewise_less: "(\<exists>r. Bytewise_Compare a b = Some r \<and> r < 0) \<longleftrightarrow> bytes_less a b"
  by (simp add: Bytewise_Compare_def slice_compare_spec)

interpretation bytewise: key_comparator Bytewise_Compare "\<lambda>_. True"
proof
  show "\<exists>r. Bytewise_Compare a b = Some r" for a b by (simp add: Bytewise_Compare_def)
next
  fix a b :: slice and r r'
  assume "Bytewise_Compare a b = Some r" "Bytewise_Compare b a = Some r'"
  then show "r < 0 \<longleftrightarrow> 0 < r'"
    using bytes_less_trans [of a b a] bytes_less_linear [of a b]
    by (auto simp: Bytewise_Compare_def slice_compare_spec split: if_splits)
next
  fix a b c :: slice and r r' r''
  assume "Bytewise_Compare a b = Some r" "r \<le> 0" "Bytewise_Compare b c = Some r'" "r' \<le> 0"
    "Bytewise_Compare a c = Some r''"
  then show "r'' \<le> 0"
    using bytes_less_trans [of a b c]
    by (auto simp: Bytewise_Compare_def slice_compare_spec split: if_splits)
qed

lemma bytewise_lt: "bytewise.lt a b \<longleftrightarrow> bytes_less a b"
  by (simp add: bytewise.lt_def Bytewise_less)

lemma bytewise_le: "bytewise.le a b \<longleftrightarrow> bytes_less a b \<or> a = b"
  by (auto simp: bytewise.le_def Bytewise_Compare_def slice_compare_spec split: if_splits)

lemma byte_inc: "b < 0xff \<Longrightarrow> unat (b + 1) = unat b + 1" for b :: byte
  by (simp add: word_less_nat_alt unat_word_ariths)

lemma diff_index_sep:
  assumes "diff_index a b < min (length a) (length b)"
    and "a ! diff_index a b < 0xff" and "unat (a ! diff_index a b) + 1 < unat (b ! diff_index a b)"
  shows "bytes_less a (take (diff_index a b) a @ [a ! diff_index a b + 1])"
    and "bytes_less (take (diff_index a b) a @ [a ! diff_index a b + 1]) b"
  using assms
  by (induction a b rule: diff_index.induct)
    (auto simp: word_less_nat_alt byte_inc unat_word_ariths split: if_splits)

lemma successor_ge: "bytes_less a (successor_from a) \<or> successor_from a = a"
proof (induction a)
  case (Cons b bs)
  have "b < b + 1" if "b \<noteq> 0xff"
  proof -
    have "unat b < 255" using that unsigned_less [of b, where ?'a = nat] by (auto simp: word_unat_eq_iff)
    then show ?thesis by (simp add: word_less_nat_alt unat_word_ariths)
  qed
  with Cons show ?case by auto
qed simp

lemma Bytewise_separator:
  assumes "bytes_less a b"
  shows "\<exists>c. Bytewise_FindShortestSeparator a b = Some c \<and> (bytes_less a c \<or> a = c) \<and> bytes_less c b"
  using assms diff_index_sep [of a b]
  by (auto simp: Bytewise_FindShortestSeparator_def Let_def slice_compare_spec not_le)

interpretation bytewise: separator Bytewise_Compare "\<lambda>_. True" Bytewise_FindShortestSeparator
  Bytewise_FindShortSuccessor
proof
  fix a b assume "bytewise.lt a b"
  then show "\<exists>c. Bytewise_FindShortestSeparator a b = Some c \<and> True \<and> bytewise.le a c \<and> bytewise.lt c b"
    using Bytewise_separator [of a b] by (auto simp: bytewise_lt bytewise_le)
next
  show "\<exists>c. Bytewise_FindShortSuccessor a = Some c \<and> True \<and> bytewise.le a c" for a
    using successor_ge [of a] by (auto simp: Bytewise_FindShortSuccessor_def bytewise_le)
qed

end
