(* ===== verification/Ldb_Dbformat.thy ===== *)
theory Ldb_Dbformat
  imports Ldb_Comparator
begin

text \<open>
  Internal keys (\<open>db/dbformat.h\<close>, \<open>db/dbformat.cc\<close>): a user key followed by eight bytes that pack a
  sequence number and a value type. Modelled are the conversions between internal keys and their
  parts, the comparator that orders equal user keys from new to old, the keys that point lookups
  build, and the filter policy that strips internal keys. \<open>None\<close> is a failed assertion, except
  where a routine returns \<open>false\<close>. A user comparator that keeps its contract gives an internal
  comparator that keeps the same contract.
\<close>

subsection \<open>Packing\<close>

datatype ValueType = kTypeDeletion | kTypeValue

fun vt_code :: "ValueType \<Rightarrow> 8 word" where
  "vt_code kTypeDeletion = 0"
| "vt_code kTypeValue = 1"

definition kValueTypeForSeek :: ValueType where
  "kValueTypeForSeek = kTypeValue"

definition kMaxSequenceNumber :: "64 word" where
  "kMaxSequenceNumber = push_bit 56 1 - 1"

record ParsedInternalKey =
  pk_user_key :: slice
  pk_sequence :: "64 word"
  pk_type :: ValueType

definition InternalKeyEncodingLength :: "ParsedInternalKey \<Rightarrow> nat" where
  "InternalKeyEncodingLength key = length (pk_user_key key) + 8"

definition PackSequenceAndType :: "64 word \<Rightarrow> ValueType \<Rightarrow> 64 word option" where
  "PackSequenceAndType seq t =
     (if seq \<le> kMaxSequenceNumber \<and> vt_code t \<le> vt_code kValueTypeForSeek
      then Some (push_bit 8 seq OR ucast (vt_code t)) else None)"

definition AppendInternalKey :: "slice \<Rightarrow> ParsedInternalKey \<Rightarrow> slice option" where
  "AppendInternalKey result key = do {
     num \<leftarrow> PackSequenceAndType (pk_sequence key) (pk_type key);
     Some (PutFixed64 kLittleEndian (result @ pk_user_key key) num)
   }"

definition ExtractUserKey :: "slice \<Rightarrow> slice option" where
  "ExtractUserKey ik = (if 8 \<le> length ik then Some (take (length ik - 8) ik) else None)"

definition ExtractValueType :: "slice \<Rightarrow> byte option" where
  "ExtractValueType ik =
     (if 8 \<le> length ik then do {
        num \<leftarrow> DecodeFixed64 kLittleEndian (drop (length ik - 8) ik);
        Some (ucast (num AND 0xff))
      } else None)"

text \<open>The outcome \<open>None\<close> of parsing is the return value \<open>false\<close>.\<close>

definition ParseInternalKey :: "slice \<Rightarrow> ParsedInternalKey option" where
  "ParseInternalKey ik =
     (let n = length ik in
      if n < 8 then None
      else do {
        num \<leftarrow> DecodeFixed64 kLittleEndian (drop (n - 8) ik);
        let c = ucast (num AND 0xff);
        if c \<le> vt_code kTypeValue
        then Some \<lparr>pk_user_key = take (n - 8) ik, pk_sequence = drop_bit 8 num,
               pk_type = (if c = vt_code kTypeDeletion then kTypeDeletion else kTypeValue)\<rparr>
        else None
      })"

subsection \<open>The class \<open>InternalKey\<close>\<close>

text \<open>An internal key is its \<open>rep_\<close>; empty means invalid.\<close>

definition InternalKey_new :: "slice \<Rightarrow> 64 word \<Rightarrow> ValueType \<Rightarrow> slice option" where
  "InternalKey_new user_key s t = AppendInternalKey [] \<lparr>pk_user_key = user_key, pk_sequence = s, pk_type = t\<rparr>"

definition InternalKey_DecodeFrom :: "slice \<Rightarrow> slice" where
  "InternalKey_DecodeFrom s = s"

definition InternalKey_Encode :: "slice \<Rightarrow> slice option" where
  "InternalKey_Encode rep = (if rep \<noteq> [] then Some rep else None)"

definition InternalKey_user_key :: "slice \<Rightarrow> slice option" where
  "InternalKey_user_key rep = ExtractUserKey rep"

definition InternalKey_Clear :: slice where
  "InternalKey_Clear = []"

definition InternalKey_SetFrom :: "ParsedInternalKey \<Rightarrow> slice option" where
  "InternalKey_SetFrom p = AppendInternalKey InternalKey_Clear p"

subsection \<open>The comparator\<close>

definition InternalKeyCompare :: "(slice \<Rightarrow> slice \<Rightarrow> int option) \<Rightarrow> slice \<Rightarrow> slice \<Rightarrow> int option" where
  "InternalKeyCompare ucmp akey bkey = do {
     ua \<leftarrow> ExtractUserKey akey;
     ub \<leftarrow> ExtractUserKey bkey;
     r \<leftarrow> ucmp ua ub;
     if r = 0 then do {
       anum \<leftarrow> DecodeFixed64 kLittleEndian (drop (length akey - 8) akey);
       bnum \<leftarrow> DecodeFixed64 kLittleEndian (drop (length bkey - 8) bkey);
       Some (if bnum < anum then - 1 else if anum < bnum then 1 else r)
     }
     else Some r
   }"

definition InternalKey_Compare :: "(slice \<Rightarrow> slice \<Rightarrow> int option) \<Rightarrow> slice \<Rightarrow> slice \<Rightarrow> int option" where
  "InternalKey_Compare ucmp a b = do {
     ea \<leftarrow> InternalKey_Encode a;
     eb \<leftarrow> InternalKey_Encode b;
     InternalKeyCompare ucmp ea eb
   }"

definition InternalKey_FindShortestSeparator ::
  "(slice \<Rightarrow> slice \<Rightarrow> int option) \<Rightarrow> (slice \<Rightarrow> slice \<Rightarrow> slice option) \<Rightarrow> slice \<Rightarrow> slice \<Rightarrow> slice option" where
  "InternalKey_FindShortestSeparator ucmp usep start limit = do {
     user_start \<leftarrow> ExtractUserKey start;
     user_limit \<leftarrow> ExtractUserKey limit;
     tmp \<leftarrow> usep user_start user_limit;
     larger \<leftarrow> (if length tmp < length user_start then do { r \<leftarrow> ucmp user_start tmp; Some (r < 0) } else Some False);
     if larger then do {
       num \<leftarrow> PackSequenceAndType kMaxSequenceNumber kValueTypeForSeek;
       let tmp' = PutFixed64 kLittleEndian tmp num;
       c1 \<leftarrow> InternalKeyCompare ucmp start tmp';
       c2 \<leftarrow> InternalKeyCompare ucmp tmp' limit;
       if c1 < 0 \<and> c2 < 0 then Some tmp' else None
     }
     else Some start
   }"

definition InternalKey_FindShortSuccessor ::
  "(slice \<Rightarrow> slice \<Rightarrow> int option) \<Rightarrow> (slice \<Rightarrow> slice option) \<Rightarrow> slice \<Rightarrow> slice option" where
  "InternalKey_FindShortSuccessor ucmp usucc key = do {
     user_key \<leftarrow> ExtractUserKey key;
     tmp \<leftarrow> usucc user_key;
     larger \<leftarrow> (if length tmp < length user_key then do { r \<leftarrow> ucmp user_key tmp; Some (r < 0) } else Some False);
     if larger then do {
       num \<leftarrow> PackSequenceAndType kMaxSequenceNumber kValueTypeForSeek;
       let tmp' = PutFixed64 kLittleEndian tmp num;
       c \<leftarrow> InternalKeyCompare ucmp key tmp';
       if c < 0 then Some tmp' else None
     }
     else Some key
   }"

subsection \<open>Filters and lookup keys\<close>

definition InternalFilter_CreateFilter ::
  "(slice list \<Rightarrow> slice \<Rightarrow> slice option) \<Rightarrow> slice list \<Rightarrow> slice \<Rightarrow> slice option" where
  "InternalFilter_CreateFilter ucreate keys dst = do {
     ukeys \<leftarrow> those (map ExtractUserKey keys);
     ucreate ukeys dst
   }"

definition InternalFilter_KeyMayMatch ::
  "(slice \<Rightarrow> slice \<Rightarrow> bool option) \<Rightarrow> slice \<Rightarrow> slice \<Rightarrow> bool option" where
  "InternalFilter_KeyMayMatch umatch key f = do { u \<leftarrow> ExtractUserKey key; umatch u f }"

text \<open>The bytes from \<open>start_\<close> to \<open>end_\<close>, the offset of \<open>kstart_\<close>, and the size of the array they
  are written to, in the object or on the heap; writing past it is undefined.\<close>

record LookupKey =
  lk_bytes :: "byte list"
  lk_kstart :: nat

definition LookupKey_new :: "slice \<Rightarrow> 64 word \<Rightarrow> LookupKey option" where
  "LookupKey_new user_key s =
     (let usize = length user_key;
          needed = usize + 13;
          capacity = (if needed \<le> 200 then 200 else needed);
          len = EncodeVarint32 (of_nat (usize + 8)) in do {
        num \<leftarrow> PackSequenceAndType s kValueTypeForSeek;
        let bytes = len @ user_key @ EncodeFixed64 kLittleEndian num;
        if length bytes \<le> capacity then Some \<lparr>lk_bytes = bytes, lk_kstart = length len\<rparr> else None
      })"

definition LookupKey_memtable_key :: "LookupKey \<Rightarrow> slice" where
  "LookupKey_memtable_key k = lk_bytes k"

definition LookupKey_internal_key :: "LookupKey \<Rightarrow> slice" where
  "LookupKey_internal_key k = drop (lk_kstart k) (lk_bytes k)"

definition LookupKey_user_key :: "LookupKey \<Rightarrow> slice" where
  "LookupKey_user_key k = take (length (lk_bytes k) - lk_kstart k - 8) (drop (lk_kstart k) (lk_bytes k))"

subsection \<open>Round trips\<close>

lemma kMax_bits: "seq \<le> kMaxSequenceNumber \<longleftrightarrow> unat seq < 2 ^ 56"
  by (simp add: kMaxSequenceNumber_def word_le_nat_alt push_bit_eq_mult) linarith

lemma vt_code_le [simp]: "vt_code t \<le> 1"
  by (cases t) simp_all

lemma vt_code_inj: "vt_code t = vt_code t' \<longleftrightarrow> t = t'"
  by (cases t; cases t') simp_all

definition tag_num :: "64 word \<Rightarrow> ValueType \<Rightarrow> 64 word" where
  "tag_num seq t = push_bit 8 seq OR ucast (vt_code t)"

lemma Pack_defined: "unat seq < 2 ^ 56 \<Longrightarrow> PackSequenceAndType seq t = Some (tag_num seq t)"
  by (simp add: PackSequenceAndType_def kMax_bits tag_num_def kValueTypeForSeek_def)

lemma tag_num_parts:
  assumes "unat seq < 2 ^ 56"
  shows "drop_bit 8 (tag_num seq t) = seq" and "ucast (tag_num seq t AND 0xff) = vt_code t"
proof -
  have "unat (take_bit 56 seq) = unat seq"
    using assms by (simp only: unsigned_take_bit_eq) (simp add: take_bit_nat_eq_self)
  then have "take_bit 56 seq = seq" by (simp only: word_unat_eq_iff)
  then have top: "\<not> bit seq n" if "56 \<le> n" for n using that by (metis bit_take_bit_iff not_le)
  have vt: "\<not> bit (vt_code t) n" if "8 \<le> n" for n using that bit_imp_le_length [of "vt_code t" n] by auto
  have "bit (drop_bit 8 (tag_num seq t)) n = bit seq n" for n
    using vt [of "n + 8"] top [of n] by (cases "n < 56") (auto simp: tag_num_def bit_simps ac_simps)
  then show "drop_bit 8 (tag_num seq t) = seq" by (rule bit_eqI)
  show "ucast (tag_num seq t AND 0xff) = vt_code t"
    unfolding and_ff by (rule bit_word_eqI) (auto simp: tag_num_def bit_simps)
qed

lemma tag_num_order:
  assumes "unat s < 2 ^ 56" and "unat s' < 2 ^ 56"
  shows "tag_num s t < tag_num s' t' \<longleftrightarrow> s < s' \<or> s = s' \<and> vt_code t < vt_code t'"
proof -
  have num: "unat (tag_num r v) = unat r * 256 + unat (vt_code v)" if "unat r < 2 ^ 56" for r v
  proof -
    have "push_bit 8 r AND ucast (vt_code v) = (0 :: 64 word)"
      by (rule bit_word_eqI) (auto simp: bit_simps dest: bit_imp_le_length)
    then have "tag_num r v = push_bit 8 r + ucast (vt_code v)"
      unfolding tag_num_def by (simp only: disjunctive_add_eq_or)
    moreover have "unat (vt_code v) \<le> 1" using vt_code_le [of v] by (simp add: word_le_nat_alt)
    ultimately show ?thesis using that
      by (simp add: push_bit_eq_mult unat_word_ariths unsigned_ucast_eq take_bit_nat_eq_self)
  qed
  have "unat (vt_code t) \<le> 1" "unat (vt_code t') \<le> 1" using vt_code_le by (simp_all add: word_le_nat_alt)
  then show ?thesis unfolding word_less_nat_alt num [OF assms(1)] num [OF assms(2)] word_unat_eq_iff by linarith
qed

text \<open>An internal key: the user key and the packed number.\<close>

definition mk_ikey :: "slice \<Rightarrow> 64 word \<Rightarrow> ValueType \<Rightarrow> slice" where
  "mk_ikey u s t = u @ EncodeFixed64 kLittleEndian (tag_num s t)"

lemma length_mk_ikey [simp]: "length (mk_ikey u s t) = length u + 8"
  by (simp add: mk_ikey_def)

lemma AppendInternalKey_eq:
  "unat (pk_sequence key) < 2 ^ 56 \<Longrightarrow>
     AppendInternalKey result key = Some (result @ mk_ikey (pk_user_key key) (pk_sequence key) (pk_type key))"
  by (simp add: AppendInternalKey_def Pack_defined PutFixed64_def mk_ikey_def)

lemma Extract_mk_ikey [simp]: "ExtractUserKey (mk_ikey u s t) = Some u"
  by (simp add: ExtractUserKey_def) (simp add: mk_ikey_def)

definition ik_num :: "slice \<Rightarrow> 64 word" where
  "ik_num ik = word_of_bytes (take 8 (drop (length ik - 8) ik))"

definition ik_user :: "slice \<Rightarrow> slice" where
  "ik_user ik = take (length ik - 8) ik"

lemma ik_num_mk [simp]: "ik_num (mk_ikey u s t) = tag_num s t"
  unfolding ik_num_def mk_ikey_def by (simp add: EncodeFixed64_bytes word_of_bytes_inverse)

lemma ik_user_mk [simp]: "ik_user (mk_ikey u s t) = u"
  by (simp add: ik_user_def) (simp add: mk_ikey_def)

lemma Decode_ik_num: "8 \<le> length ik \<Longrightarrow> DecodeFixed64 le (drop (length ik - 8) ik) = Some (ik_num ik)"
  by (simp add: DecodeFixed64_bytes ik_num_def)

lemma Parse_mk_ikey:
  assumes "unat s < 2 ^ 56"
  shows "ParseInternalKey (mk_ikey u s t) = Some \<lparr>pk_user_key = u, pk_sequence = s, pk_type = t\<rparr>"
proof -
  have d: "DecodeFixed64 kLittleEndian (drop (length u) (mk_ikey u s t)) = Some (tag_num s t)"
    using Decode_ik_num [of "mk_ikey u s t"] by simp
  have u: "take (length u) (mk_ikey u s t) = u" by (simp add: mk_ikey_def)
  show ?thesis
    using d u tag_num_parts [OF assms, of t] by (cases t) (simp_all add: ParseInternalKey_def Let_def)
qed

subsection \<open>The internal comparator keeps the contract of a comparator\<close>

definition internal_good :: "(slice \<Rightarrow> bool) \<Rightarrow> slice \<Rightarrow> bool" where
  "internal_good good ik \<longleftrightarrow> 8 \<le> length ik \<and> good (ik_user ik)"

lemma internal_good_mk [simp]: "internal_good good (mk_ikey u s t) \<longleftrightarrow> good u"
  by (simp add: internal_good_def)

text \<open>A user comparator is one that also leaves equal keys alone when it shortens them.\<close>

locale user_comparator = separator cmp good sep succ
  for cmp :: "slice \<Rightarrow> slice \<Rightarrow> int option" and good sep succ +
  assumes sep_eqv: "good a \<Longrightarrow> good b \<Longrightarrow> eqv a b \<Longrightarrow> sep a b = Some a"

interpretation bytewise: user_comparator Bytewise_Compare "\<lambda>_. True" Bytewise_FindShortestSeparator
  Bytewise_FindShortSuccessor
proof
  fix a b assume "bytewise.eqv a b"
  then have "a = b" by (auto simp: bytewise.eqv_def Bytewise_Compare_def slice_compare_spec split: if_splits)
  moreover have "diff_index a a = length a" by (induction a) simp_all
  ultimately show "Bytewise_FindShortestSeparator a b = Some a"
    by (simp add: Bytewise_FindShortestSeparator_def)
qed

lemma InternalKeyCompare_eq:
  assumes "8 \<le> length a" and "8 \<le> length b"
  shows "InternalKeyCompare ucmp a b = do {
    r \<leftarrow> ucmp (ik_user a) (ik_user b);
    Some (if r = 0 then (if ik_num b < ik_num a then - 1 else if ik_num a < ik_num b then 1 else 0) else r) }"
  using assms
  by (cases "ucmp (ik_user a) (ik_user b)")
    (simp_all add: InternalKeyCompare_def ExtractUserKey_def ik_user_def Decode_ik_num)

context key_comparator
begin

abbreviation icmp :: "slice \<Rightarrow> slice \<Rightarrow> int option" where
  "icmp \<equiv> InternalKeyCompare cmp"

lemma icmp_some:
  assumes "internal_good good a" and "internal_good good b" and "cmp (ik_user a) (ik_user b) = Some r"
  shows "icmp a b = Some (if r = 0 then (if ik_num b < ik_num a then - 1 else if ik_num a < ik_num b then 1 else 0) else r)"
  using assms by (simp add: InternalKeyCompare_eq internal_good_def)

lemma user_cmp:
  assumes "internal_good good a" and "internal_good good b"
  obtains r where "cmp (ik_user a) (ik_user b) = Some r"
  using cmp_total assms by (auto simp: internal_good_def)

lemma eqv_sym: "good a \<Longrightarrow> good b \<Longrightarrow> eqv a b \<longleftrightarrow> eqv b a"
  by (auto simp: eqv_iff)

lemma icmp_neg:
  assumes "internal_good good a" and "internal_good good b"
  shows "(\<exists>r. icmp a b = Some r \<and> r < 0) \<longleftrightarrow>
    lt (ik_user a) (ik_user b) \<or> eqv (ik_user a) (ik_user b) \<and> ik_num b < ik_num a"
proof -
  obtain q where q: "cmp (ik_user a) (ik_user b) = Some q" using user_cmp [OF assms] .
  show ?thesis unfolding icmp_some [OF assms q] lt_def eqv_def q by auto
qed

lemma icmp_pos:
  assumes "internal_good good a" and "internal_good good b" and "icmp a b = Some r"
  shows "0 < r \<longleftrightarrow> lt (ik_user b) (ik_user a) \<or> eqv (ik_user b) (ik_user a) \<and> ik_num a < ik_num b"
proof -
  obtain q where q: "cmp (ik_user a) (ik_user b) = Some q" using user_cmp [OF assms(1,2)] .
  obtain q' where q': "cmp (ik_user b) (ik_user a) = Some q'" using user_cmp [OF assms(2,1)] .
  have g: "good (ik_user a)" "good (ik_user b)" using assms by (simp_all add: internal_good_def)
  have "q < 0 \<longleftrightarrow> 0 < q'" "q' < 0 \<longleftrightarrow> 0 < q" using cmp_swap [OF g q q'] cmp_swap [OF g(2,1) q' q] by auto
  then show ?thesis
    using icmp_some [OF assms(1,2) q] assms(3) q' by (auto simp: lt_def eqv_def split: if_splits)
qed

lemma internal_comparator: "comparator icmp (internal_good good)"
proof
  fix a b assume g: "internal_good good a" "internal_good good b"
  obtain q where "cmp (ik_user a) (ik_user b) = Some q" using user_cmp [OF g] .
  from icmp_some [OF g this] show "\<exists>r. icmp a b = Some r" by blast
next
  fix a b r r'
  assume g: "internal_good good a" "internal_good good b" and c: "icmp a b = Some r" "icmp b a = Some r'"
  show "r < 0 \<longleftrightarrow> 0 < r'" using icmp_neg [OF g] icmp_pos [OF g(2,1) c(2)] c(1) by auto
next
  fix a b c r r' r''
  assume g: "internal_good good a" "internal_good good b" "internal_good good c"
    and r: "icmp a b = Some r" "r \<le> 0" "icmp b c = Some r'" "r' \<le> 0" "icmp a c = Some r''"
  have G: "good (ik_user a)" "good (ik_user b)" "good (ik_user c)" using g by (simp_all add: internal_good_def)
  have ab: "\<not> lt (ik_user b) (ik_user a)" "eqv (ik_user b) (ik_user a) \<Longrightarrow> \<not> ik_num a < ik_num b"
    using icmp_pos [OF g(1,2) r(1)] r(2) by auto
  have bc: "\<not> lt (ik_user c) (ik_user b)" "eqv (ik_user c) (ik_user b) \<Longrightarrow> \<not> ik_num b < ik_num c"
    using icmp_pos [OF g(2,3) r(3)] r(4) by auto
  have le: "le (ik_user a) (ik_user b)" "le (ik_user b) (ik_user c)" using ab(1) bc(1) G by (simp_all add: le_not_lt)
  have "\<not> lt (ik_user c) (ik_user a)" using le_trans [OF G le] G by (simp add: le_not_lt)
  moreover have "\<not> ik_num a < ik_num c" if e: "eqv (ik_user c) (ik_user a)"
  proof -
    have ca: "le (ik_user c) (ik_user a)" using e G by (simp add: eqv_iff le_not_lt)
    have "eqv (ik_user b) (ik_user a)" "eqv (ik_user c) (ik_user b)"
      using le ca le_trans G by (metis eqv_iff le_not_lt)+
    then show ?thesis using ab(2) bc(2) by auto
  qed
  ultimately show "r'' \<le> 0" using icmp_pos [OF g(1,3) r(5)] by auto
qed

lemma icmp_lt: "internal_good good a \<Longrightarrow> internal_good good b \<Longrightarrow> comparator.lt icmp a b \<longleftrightarrow>
    lt (ik_user a) (ik_user b) \<or> eqv (ik_user a) (ik_user b) \<and> ik_num b < ik_num a"
  unfolding comparator.lt_def [OF internal_comparator] by (rule icmp_neg)

lemma icmp_neg_ex:
  "internal_good good a \<Longrightarrow> internal_good good b \<Longrightarrow> lt (ik_user a) (ik_user b) \<Longrightarrow> \<exists>r. icmp a b = Some r \<and> r < 0"
  using icmp_neg by blast

lemma Pack_max: "PackSequenceAndType kMaxSequenceNumber kValueTypeForSeek = Some (tag_num kMaxSequenceNumber kValueTypeForSeek)"
  by (rule Pack_defined) (simp only: kMax_bits [symmetric] order_refl)

lemma Put_mk: "PutFixed64 kLittleEndian u (tag_num s t) = mk_ikey u s t"
  by (simp add: PutFixed64_def mk_ikey_def)

lemma Extract_good: "internal_good good a \<Longrightarrow> ExtractUserKey a = Some (ik_user a) \<and> good (ik_user a)"
  by (simp add: internal_good_def ExtractUserKey_def ik_user_def)

end

context user_comparator
begin

text \<open>A shortened user key that is strictly between stays between with any number attached.\<close>

lemma internal_sep:
  assumes "internal_good good a" and "internal_good good b" and "comparator.lt icmp a b"
  shows "\<exists>c. InternalKey_FindShortestSeparator cmp sep a b = Some c \<and> internal_good good c \<and>
    comparator.le icmp a c \<and> comparator.lt icmp c b"
proof -
  note I = internal_comparator
  have G: "good (ik_user a)" "good (ik_user b)" "ExtractUserKey a = Some (ik_user a)" "ExtractUserKey b = Some (ik_user b)"
    using Extract_good assms(1,2) by auto
  have ab: "lt (ik_user a) (ik_user b) \<or> eqv (ik_user a) (ik_user b)" using icmp_lt [OF assms(1,2)] assms(3) by blast
  obtain c where c: "sep (ik_user a) (ik_user b) = Some c" "good c" "c = ik_user a \<or> lt c (ik_user b)"
    using ab sep_bounds [OF G(1,2)] sep_eqv [OF G(1,2)] G(1) by blast
  obtain r where r: "cmp (ik_user a) c = Some r" using cmp_total G(1) c(2) by blast
  have same: "comparator.le icmp a a"
    using comparator.le_not_lt [OF I assms(1,1)] comparator.lt_irrefl [OF I assms(1)] by simp
  show ?thesis
  proof (cases "length c < length (ik_user a) \<and> r < 0")
    case True
    let ?t = "mk_ikey c kMaxSequenceNumber kValueTypeForSeek"
    have g: "internal_good good ?t" using c(2) by simp
    have lac: "lt (ik_user a) (ik_user ?t)" using r True by (auto simp: lt_def)
    have lcb: "lt (ik_user ?t) (ik_user b)" using c(3) True by auto
    from icmp_neg_ex [OF assms(1) g lac] icmp_neg_ex [OF g assms(2) lcb]
    have "InternalKey_FindShortestSeparator cmp sep a b = Some ?t"
      using G c(1) r True by (auto simp: InternalKey_FindShortestSeparator_def Pack_max Put_mk)
    moreover have "comparator.le icmp a ?t" "comparator.lt icmp ?t b"
      using icmp_lt [OF assms(1) g] icmp_lt [OF g assms(2)] lac lcb comparator.lt_imp_le [OF I] by auto
    ultimately show ?thesis using g by blast
  next
    case False
    then have "InternalKey_FindShortestSeparator cmp sep a b = Some a"
      using G c(1) r by (auto simp: InternalKey_FindShortestSeparator_def)
    with same assms show ?thesis by blast
  qed
qed

lemma internal_succ:
  assumes "internal_good good a"
  shows "\<exists>c. InternalKey_FindShortSuccessor cmp succ a = Some c \<and> internal_good good c \<and> comparator.le icmp a c"
proof -
  note I = internal_comparator
  have G: "good (ik_user a)" "ExtractUserKey a = Some (ik_user a)" using Extract_good assms by auto
  obtain c where c: "succ (ik_user a) = Some c" "good c" using succ_bound [OF G(1)] by blast
  obtain r where r: "cmp (ik_user a) c = Some r" using cmp_total G(1) c(2) by blast
  show ?thesis
  proof (cases "length c < length (ik_user a) \<and> r < 0")
    case True
    let ?t = "mk_ikey c kMaxSequenceNumber kValueTypeForSeek"
    have g: "internal_good good ?t" using c(2) by simp
    have lac: "lt (ik_user a) (ik_user ?t)" using r True by (auto simp: lt_def)
    from icmp_neg_ex [OF assms g lac]
    have "InternalKey_FindShortSuccessor cmp succ a = Some ?t"
      using G c(1) r True by (auto simp: InternalKey_FindShortSuccessor_def Pack_max Put_mk)
    moreover have "comparator.le icmp a ?t"
      using icmp_lt [OF assms g] lac comparator.lt_imp_le [OF I] by auto
    ultimately show ?thesis using g by blast
  next
    case False
    then have "InternalKey_FindShortSuccessor cmp succ a = Some a"
      using G c(1) r by (auto simp: InternalKey_FindShortSuccessor_def)
    moreover have "comparator.le icmp a a"
      using comparator.le_not_lt [OF I assms assms] comparator.lt_irrefl [OF I assms] by simp
    ultimately show ?thesis using assms by blast
  qed
qed

end

sublocale user_comparator \<subseteq> internal: separator "InternalKeyCompare cmp" "internal_good good"
  "InternalKey_FindShortestSeparator cmp sep" "InternalKey_FindShortSuccessor cmp succ"
  using internal_comparator internal_sep internal_succ
  by (auto simp: separator_def separator_axioms_def key_comparator_def)

text \<open>The capacity of the array of a lookup key is enough.\<close>

lemma length_EncodeVarint32: "length (EncodeVarint32 v) \<le> 5"
  by (simp add: EncodeVarint32_def)

lemma LookupKey_new_eq:
  assumes "unat s < 2 ^ 56"
  shows "LookupKey_new u s = Some \<lparr>lk_bytes = EncodeVarint32 (of_nat (length u + 8)) @ mk_ikey u s kTypeValue,
    lk_kstart = length (EncodeVarint32 (of_nat (length u + 8)))\<rparr>"
  using length_EncodeVarint32 [of "of_nat (length u + 8)"]
  by (simp add: LookupKey_new_def Let_def Pack_defined [OF assms] mk_ikey_def kValueTypeForSeek_def)

subsection \<open>Properties\<close>

text \<open>
  C16: internal keys order entries by user key and, for equal user keys, from the newest to the
  oldest: comparing the keys of two entries is negative exactly if the first user key is smaller,
  or the user keys are equal and the first entry has the larger sequence number, or the same one and
  the larger type.
\<close>
theorem internal_key_order:
  assumes "InternalKey_new u s t = Some a" and "InternalKey_new u' s' t' = Some b"
  shows "\<exists>r. InternalKeyCompare Bytewise_Compare a b = Some r \<and>
    (r < 0 \<longleftrightarrow> bytes_less u u' \<or> u = u' \<and> (s' < s \<or> s' = s \<and> vt_code t' < vt_code t)) \<and>
    (r = 0 \<longleftrightarrow> u = u' \<and> s = s' \<and> t = t')"
proof -
  have b: "unat s < 2 ^ 56" "unat s' < 2 ^ 56"
    using assms by (auto simp: InternalKey_new_def AppendInternalKey_def PackSequenceAndType_def kMax_bits bind_eq_Some_conv split: if_splits)
  then have ab: "a = mk_ikey u s t" "b = mk_ikey u' s' t'" using assms by (simp_all add: InternalKey_new_def AppendInternalKey_eq)
  have "tag_num s t = tag_num s' t' \<longleftrightarrow> s = s' \<and> t = t'"
    using tag_num_parts [OF b(1), of t] tag_num_parts [OF b(2), of t'] vt_code_inj by metis
  then show ?thesis
    using tag_num_order [OF b(1,2), of t t'] tag_num_order [OF b(2,1), of t' t]
    by (auto simp: ab InternalKeyCompare_eq Bytewise_Compare_def slice_compare_spec)
qed

theorem internal_key_order_witness:
  "\<exists>a b r. InternalKey_new [97] 7 kTypeValue = Some a \<and> InternalKey_new [97] 5 kTypeDeletion = Some b \<and>
     InternalKeyCompare Bytewise_Compare a b = Some r \<and> r < 0"
proof -
  obtain a b where ab: "InternalKey_new [97] 7 kTypeValue = Some a" "InternalKey_new [97] 5 kTypeDeletion = Some b"
    by (simp add: InternalKey_new_def AppendInternalKey_eq)
  from internal_key_order [OF ab] have "\<exists>r. InternalKeyCompare Bytewise_Compare a b = Some r \<and> r < 0" by auto
  with ab show ?thesis by blast
qed

text \<open>
  C17: an internal key keeps its parts. Every entry whose sequence number fits in 56 bits is
  serialised to a key of the announced length, from which \<open>ParseInternalKey\<close> returns the same parts
  and \<open>ExtractUserKey\<close> the user key; a larger sequence number fails the assertion.
\<close>
theorem internal_key_roundtrip:
  "if pk_sequence key \<le> kMaxSequenceNumber
   then \<exists>ik. AppendInternalKey result key = Some (result @ ik) \<and> length ik = InternalKeyEncodingLength key \<and>
     ParseInternalKey ik = Some \<lparr>pk_user_key = pk_user_key key, pk_sequence = pk_sequence key, pk_type = pk_type key\<rparr> \<and>
     ExtractUserKey ik = Some (pk_user_key key) \<and> ExtractValueType ik = Some (vt_code (pk_type key))
   else AppendInternalKey result key = None"
proof (cases "pk_sequence key \<le> kMaxSequenceNumber")
  case True
  then have s: "unat (pk_sequence key) < 2 ^ 56" by (simp only: kMax_bits)
  let ?ik = "mk_ikey (pk_user_key key) (pk_sequence key) (pk_type key)"
  have "ExtractValueType ?ik = Some (vt_code (pk_type key))"
    using Decode_ik_num [of ?ik kLittleEndian] tag_num_parts(2) [OF s] by (simp add: ExtractValueType_def)
  with True AppendInternalKey_eq [OF s] Parse_mk_ikey [OF s] show ?thesis
    by (simp add: InternalKeyEncodingLength_def)
qed (simp add: AppendInternalKey_def PackSequenceAndType_def)

text \<open>
  C18: shortening keys for index blocks is sound. For internal keys \<open>a < b\<close> over any user
  comparator that keeps its contract, \<open>FindShortestSeparator\<close> returns, without failing one of its
  assertions, a key \<open>c\<close> with \<open>a \<le> c < b\<close>.
\<close>
theorem internal_separator_between:
  assumes "user_comparator cmp good sep succ"
    and "internal_good good a" and "internal_good good b" and "InternalKeyCompare cmp a b = Some r" and "r < 0"
  shows "\<exists>c r1 r2. InternalKey_FindShortestSeparator cmp sep a b = Some c \<and>
    InternalKeyCompare cmp a c = Some r1 \<and> r1 \<le> 0 \<and> InternalKeyCompare cmp c b = Some r2 \<and> r2 < 0"
proof -
  have "key_comparator cmp good" using assms(1) by (simp add: user_comparator_def separator_def)
  note I = key_comparator.internal_comparator [OF this]
  show ?thesis
    using user_comparator.internal_sep [OF assms(1-3)] assms(4,5) comparator.lt_def [OF I] comparator.le_def [OF I] by auto
qed

theorem internal_separator_between_witness:
  "\<exists>c r1 r2. InternalKey_FindShortestSeparator Bytewise_Compare Bytewise_FindShortestSeparator
      (mk_ikey [97, 98, 99] 7 kTypeValue) (mk_ikey [99, 98] 3 kTypeValue) = Some c \<and>
    InternalKeyCompare Bytewise_Compare (mk_ikey [97, 98, 99] 7 kTypeValue) c = Some r1 \<and> r1 \<le> 0 \<and>
    InternalKeyCompare Bytewise_Compare c (mk_ikey [99, 98] 3 kTypeValue) = Some r2 \<and> r2 < 0"
  by (rule internal_separator_between [OF bytewise.user_comparator_axioms, where r = "- 1"])
    (simp_all add: InternalKeyCompare_eq Bytewise_Compare_def slice_compare_def)

text \<open>
  A lookup key never overruns its array, whatever the length of the user key, and its three
  views fit together: the memtable key is the internal key behind its length, and the internal key
  is the user key behind the sequence number with the type that sorts first.
\<close>
theorem lookup_key_parts:
  assumes "s \<le> kMaxSequenceNumber" and "length u + 8 < 2 ^ 32"
  shows "\<exists>k. LookupKey_new u s = Some k \<and> LookupKey_user_key k = u \<and>
    InternalKey_new u s kTypeValue = Some (LookupKey_internal_key k) \<and>
    GetLengthPrefixedSlice (LookupKey_memtable_key k) = Some (LookupKey_internal_key k, [])"
proof -
  have s: "unat s < 2 ^ 56" using assms(1) by (simp only: kMax_bits)
  let ?ik = "mk_ikey u s kTypeValue" and ?len = "EncodeVarint32 (of_nat (length u + 8))"
  let ?k = "\<lparr>lk_bytes = ?len @ ?ik, lk_kstart = length ?len\<rparr>"
  have "GetLengthPrefixedSlice (PutLengthPrefixedSlice [] ?ik @ []) = Some (?ik, [])"
    by (rule GetLengthPrefixed_Put) (use assms(2) in simp)
  moreover have "PutLengthPrefixedSlice [] ?ik = ?len @ ?ik" by (simp add: PutLengthPrefixedSlice_def PutVarint32_def)
  moreover have "InternalKey_new u s kTypeValue = Some ?ik" using s by (simp add: InternalKey_new_def AppendInternalKey_eq)
  moreover have "take (length u) ?ik = u" by (simp add: mk_ikey_def)
  ultimately show ?thesis
    using LookupKey_new_eq [OF s, of u]
    by (simp add: LookupKey_user_key_def LookupKey_internal_key_def LookupKey_memtable_key_def)
qed

theorem lookup_key_parts_witness:
  "\<exists>k. LookupKey_new [97, 98] 9 = Some k \<and> LookupKey_user_key k = [97, 98]"
  using lookup_key_parts [of 9 "[97, 98]"] by (auto simp: kMaxSequenceNumber_def)

end
