(* ===== verification/Ldb_Random.thy ===== *)
theory Ldb_Random
  imports Common_Prelude
begin

text \<open>
  The random number generator of leveldb (\<open>util/random.h\<close>), which decides the heights of skip-list
  nodes. The reduction modulo \<open>2^31 - 1\<close> without a division is shown to be the reduction.
\<close>

type_synonym random = "32 word"

definition Random_new :: "32 word \<Rightarrow> random" where
  "Random_new s =
     (let seed = s AND 0x7fffffff in if seed = 0 \<or> seed = 2147483647 then 1 else seed)"

text \<open>The product is computed at 64 bits; the new seed is also the result.\<close>

definition Random_Next :: "random \<Rightarrow> 32 word" where
  "Random_Next seed =
     (let product = (ucast seed :: 64 word) * 16807;
          seed' = (ucast (drop_bit 31 product + (product AND 2147483647)) :: 32 word)
      in if 2147483647 < seed' then seed' - 2147483647 else seed')"

text \<open>\<open>n\<close> is converted to unsigned; a division by zero is undefined.\<close>

definition Random_Uniform :: "random \<Rightarrow> 32 word \<Rightarrow> (32 word \<times> random) option" where
  "Random_Uniform seed n =
     (if n = 0 then None else Some (Random_Next seed mod n, Random_Next seed))"

definition Random_OneIn :: "random \<Rightarrow> 32 word \<Rightarrow> (bool \<times> random) option" where
  "Random_OneIn seed n =
     (if n = 0 then None else Some (Random_Next seed mod n = 0, Random_Next seed))"

definition Random_Skewed :: "random \<Rightarrow> 32 word \<Rightarrow> (32 word \<times> random) option" where
  "Random_Skewed seed max_log = do {
     (base, seed') \<leftarrow> Random_Uniform seed (max_log + 1);
     if 31 \<le> unat base then None else Random_Uniform seed' (push_bit (unat base) 1)
   }"

definition seed_ok :: "random \<Rightarrow> bool" where
  "seed_ok seed \<longleftrightarrow> 0 < unat seed \<and> unat seed < 2147483647"

lemma Random_new_ok: "seed_ok (Random_new s)"
proof -
  let ?t = "s AND 0x7fffffff"
  have "?t = take_bit 31 s" by (simp add: take_bit_eq_mask mask_eq_exp_minus_1)
  then have "unat ?t < 2 ^ 31"
    by (metis take_bit_nat_less_exp unsigned_take_bit_eq)
  then have "unat ?t < 2147483647 \<or> ?t = 2147483647" by (auto simp: word_unat_eq_iff)
  then show ?thesis
    by (auto simp: seed_ok_def Random_new_def Let_def unat_gt_0)
qed

lemma mersenne_split:
  fixes p :: nat
  shows "p = (p div 2147483648) * 2147483647 + (p div 2147483648 + p mod 2147483648)"
  using div_mult_mod_eq [of p 2147483648] by (simp add: algebra_simps)

lemma Random_Next_mod:
  assumes "seed_ok seed"
  shows "unat (Random_Next seed) = unat seed * 16807 mod 2147483647" and "seed_ok (Random_Next seed)"
proof -
  let ?s = "unat seed" and ?p = "unat seed * 16807"
  have s: "0 < ?s" "?s < 2147483647" using assms by (auto simp: seed_ok_def)
  have p: "unat ((ucast seed :: 64 word) * 16807) = ?p"
    using s by (simp add: unat_word_ariths)
  have "(ucast seed * 16807 :: 64 word) AND 2147483647 = take_bit 31 (ucast seed * 16807)"
    by (simp add: take_bit_eq_mask mask_eq_exp_minus_1)
  then have lo: "unat ((ucast seed * 16807 :: 64 word) AND 2147483647) = ?p mod 2147483648"
    by (simp only: unsigned_take_bit_eq p) (simp add: take_bit_eq_mod)
  have hi: "unat (drop_bit 31 (ucast seed * 16807 :: 64 word)) = ?p div 2147483648"
    by (simp only: unat_drop_bit_eq p) (simp add: drop_bit_eq_div)
  let ?sum = "?p div 2147483648 + ?p mod 2147483648"
  have "?p div 2147483648 < 16807" using s by (simp add: less_mult_imp_div_less)
  moreover have "?p mod 2147483648 < 2147483648" by simp
  ultimately have sum: "?sum < 2147483648 + 16807" by linarith
  let ?t = "ucast (drop_bit 31 (ucast seed * 16807) + ((ucast seed * 16807 :: 64 word) AND 2147483647)) :: 32 word"
  have t: "unat ?t = ?sum"
    using sum by (simp add: unsigned_ucast_eq unat_word_ariths hi lo take_bit_eq_mod)
  have cong: "?p mod 2147483647 = ?sum mod 2147483647"
    using arg_cong [OF mersenne_split [of ?p], of "\<lambda>x. x mod 2147483647"] by (simp only: mod_mult_self3)
  have nd: "\<not> 2147483647 dvd ?p"
  proof
    assume "2147483647 dvd ?p"
    moreover have "coprime (2147483647 :: nat) 16807" by (simp add: coprime_iff_gcd_eq_1 gcd_non_0_nat)
    ultimately have "2147483647 dvd ?s" by (simp add: coprime_dvd_mult_left_iff)
    with s show False by (auto dest: dvd_imp_le)
  qed
  then have ne: "?sum mod 2147483647 \<noteq> 0" unfolding dvd_eq_mod_eq_0 cong .
  obtain S where S: "S = ?sum" by blast
  note facts = t sum cong ne
  note facts = facts [folded S]
  have res: "unat (Random_Next seed) = S mod 2147483647"
  proof (cases "2147483647 < S")
    case True
    then have "S mod 2147483647 = S - 2147483647"
      using facts(2) by (simp add: mod_if)
    with True show ?thesis
      by (simp add: Random_Next_def Let_def word_less_nat_alt facts(1) unat_sub_if_size)
  next
    case False
    with facts(4) have "S < 2147483647" by (metis linorder_neqE_nat mod_self)
    then show ?thesis by (simp add: Random_Next_def Let_def word_less_nat_alt facts(1))
  qed
  then show "unat (Random_Next seed) = ?p mod 2147483647" unfolding facts(3) .
  show "seed_ok (Random_Next seed)" using facts(4) unfolding seed_ok_def res by simp
qed

end
