(* ===== verification/Ldb_Skiplist.thy ===== *)
theory Ldb_Skiplist
  imports Ldb_Comparator Ldb_Random
begin

text \<open>
  The skip list of the memtable (\<open>db/skiplist.h\<close>). Nodes are numbered in the order of their
  allocation and node 0 is \<open>head_\<close>; a pointer is \<open>None\<close> for \<open>NULL\<close> or a node number. A link that
  \<open>NewNode\<close> leaves unwritten reads as \<open>None\<close>, undefined behaviour, and so does an entry of the
  local array \<open>prev\<close>. Every operation of the class is a definition over the comparator; what the
  operations do is proved for any comparator that keeps its contract.

  The abstraction is a list of node numbers per level. Searching, inserting and iterating are shown
  to be the operations on the sorted list of keys; the stores of an insertion are also modelled one
  by one, since readers run concurrently with the single writer.
\<close>

subsection \<open>Nodes and links\<close>

type_synonym ptr = "nat option"

record 'k sl_node =
  nd_key :: 'k
  nd_next :: "ptr option list"

record 'k skiplist =
  sl_nodes :: "'k sl_node list"
  sl_max_height :: nat
  sl_rnd :: random

definition kMaxHeight :: nat where
  "kMaxHeight = 12"

definition Node_Next :: "'k skiplist \<Rightarrow> nat \<Rightarrow> nat \<Rightarrow> ptr option" where
  "Node_Next s x n =
     (if x < length (sl_nodes s) \<and> n < length (nd_next (sl_nodes s ! x))
      then nd_next (sl_nodes s ! x) ! n else None)"

definition Node_SetNext :: "'k skiplist \<Rightarrow> nat \<Rightarrow> nat \<Rightarrow> ptr \<Rightarrow> 'k skiplist option" where
  "Node_SetNext s x n p =
     (if x < length (sl_nodes s) \<and> n < length (nd_next (sl_nodes s ! x))
      then Some (s\<lparr>sl_nodes := (sl_nodes s)[x := (sl_nodes s ! x)
             \<lparr>nd_next := (nd_next (sl_nodes s ! x))[n := Some p]\<rparr>]\<rparr>)
      else None)"

definition Node_key :: "'k skiplist \<Rightarrow> nat \<Rightarrow> 'k option" where
  "Node_key s x = (if x < length (sl_nodes s) then Some (nd_key (sl_nodes s ! x)) else None)"

definition NewNode :: "'k skiplist \<Rightarrow> 'k \<Rightarrow> nat \<Rightarrow> 'k skiplist \<times> nat" where
  "NewNode s key height =
     (s\<lparr>sl_nodes := sl_nodes s @ [\<lparr>nd_key = key, nd_next = replicate height None\<rparr>]\<rparr>,
      length (sl_nodes s))"

subsection \<open>Searching\<close>

definition sl_Equal :: "('k \<Rightarrow> 'k \<Rightarrow> int option) \<Rightarrow> 'k \<Rightarrow> 'k \<Rightarrow> bool option" where
  "sl_Equal cmp a b = do { r \<leftarrow> cmp a b; Some (r = 0) }"

definition KeyIsAfterNode :: "('k \<Rightarrow> 'k \<Rightarrow> int option) \<Rightarrow> 'k skiplist \<Rightarrow> 'k \<Rightarrow> ptr \<Rightarrow> bool option" where
  "KeyIsAfterNode cmp s key n =
     (case n of None \<Rightarrow> Some False
      | Some x \<Rightarrow> do { k \<leftarrow> Node_key s x; r \<leftarrow> cmp k key; Some (r < 0) })"

text \<open>The array \<open>prev\<close> of the caller: \<open>None\<close> for a null argument, entries \<open>None\<close> when unwritten.\<close>

type_synonym prev_array = "nat option list option"

definition set_prev :: "prev_array \<Rightarrow> nat \<Rightarrow> nat \<Rightarrow> prev_array option" where
  "set_prev prev level x =
     (case prev of None \<Rightarrow> Some None
      | Some ps \<Rightarrow> if level < length ps then Some (Some (ps[level := Some x])) else None)"

partial_function (option) find_ge_loop ::
  "('k \<Rightarrow> 'k \<Rightarrow> int option) \<Rightarrow> 'k skiplist \<Rightarrow> 'k \<Rightarrow> nat \<Rightarrow> nat \<Rightarrow> prev_array \<Rightarrow> (ptr \<times> prev_array) option" where
  "find_ge_loop cmp s key x level prev = do {
     next \<leftarrow> Node_Next s x level;
     after \<leftarrow> KeyIsAfterNode cmp s key next;
     if after then (case next of None \<Rightarrow> None | Some n \<Rightarrow> find_ge_loop cmp s key n level prev)
     else do {
       prev' \<leftarrow> set_prev prev level x;
       if level = 0 then Some (next, prev') else find_ge_loop cmp s key x (level - 1) prev'
     }
   }"

definition FindGreaterOrEqual ::
  "('k \<Rightarrow> 'k \<Rightarrow> int option) \<Rightarrow> 'k skiplist \<Rightarrow> 'k \<Rightarrow> prev_array \<Rightarrow> (ptr \<times> prev_array) option" where
  "FindGreaterOrEqual cmp s key prev =
     (if sl_max_height s = 0 then None else find_ge_loop cmp s key 0 (sl_max_height s - 1) prev)"

text \<open>The assertion at the head of the loop is part of the model.\<close>

partial_function (option) find_lt_loop ::
  "('k \<Rightarrow> 'k \<Rightarrow> int option) \<Rightarrow> 'k skiplist \<Rightarrow> 'k \<Rightarrow> nat \<Rightarrow> nat \<Rightarrow> nat option" where
  "find_lt_loop cmp s key x level = do {
     ok \<leftarrow> (if x = 0 then Some True else KeyIsAfterNode cmp s key (Some x));
     if \<not> ok then None
     else do {
       next \<leftarrow> Node_Next s x level;
       stop \<leftarrow> (case next of None \<Rightarrow> Some True
                | Some n \<Rightarrow> do { k \<leftarrow> Node_key s n; r \<leftarrow> cmp k key; Some (0 \<le> r) });
       if stop then (if level = 0 then Some x else find_lt_loop cmp s key x (level - 1))
       else (case next of None \<Rightarrow> None | Some n \<Rightarrow> find_lt_loop cmp s key n level)
     }
   }"

definition FindLessThan :: "('k \<Rightarrow> 'k \<Rightarrow> int option) \<Rightarrow> 'k skiplist \<Rightarrow> 'k \<Rightarrow> nat option" where
  "FindLessThan cmp s key =
     (if sl_max_height s = 0 then None else find_lt_loop cmp s key 0 (sl_max_height s - 1))"

partial_function (option) find_last_loop :: "'k skiplist \<Rightarrow> nat \<Rightarrow> nat \<Rightarrow> nat option" where
  "find_last_loop s x level = do {
     next \<leftarrow> Node_Next s x level;
     (case next of
        None \<Rightarrow> if level = 0 then Some x else find_last_loop s x (level - 1)
      | Some n \<Rightarrow> find_last_loop s n level)
   }"

definition FindLast :: "'k skiplist \<Rightarrow> nat option" where
  "FindLast s = (if sl_max_height s = 0 then None else find_last_loop s 0 (sl_max_height s - 1))"

subsection \<open>Construction, insertion, membership\<close>

definition SkipList_new :: "'k \<Rightarrow> 'k skiplist option" where
  "SkipList_new k0 =
     (let (s, head) = NewNode \<lparr>sl_nodes = [], sl_max_height = 1, sl_rnd = Random_new 0xdeadbeef\<rparr> k0 kMaxHeight
      in fold (\<lambda>i r. r \<bind> (\<lambda>t. Node_SetNext t head i None)) [0 ..< kMaxHeight] (Some s))"

function random_height_loop :: "random \<Rightarrow> nat \<Rightarrow> nat \<times> random" where
  "random_height_loop rnd height =
     (if height < kMaxHeight then
        (if Random_Next rnd mod 4 = 0 then random_height_loop (Random_Next rnd) (height + 1)
         else (height, Random_Next rnd))
      else (height, rnd))"
  by pat_completeness auto
termination
  by (relation "measure (\<lambda>(_, h). kMaxHeight - h)") auto

declare random_height_loop.simps [simp del]

definition RandomHeight :: "random \<Rightarrow> nat \<times> random" where
  "RandomHeight rnd = random_height_loop rnd 1"

text \<open>The two stores that link node \<open>x\<close> at one level, and the state after each store of the loop.\<close>

definition link_level :: "nat \<Rightarrow> nat option list \<Rightarrow> 'k skiplist \<Rightarrow> nat \<Rightarrow> ('k skiplist \<times> 'k skiplist) option" where
  "link_level x prev s i = do {
     p \<leftarrow> (if i < length prev then prev ! i else None);
     nx \<leftarrow> Node_Next s p i;
     s1 \<leftarrow> Node_SetNext s x i nx;
     s2 \<leftarrow> Node_SetNext s1 p i (Some x);
     Some (s1, s2)
   }"

fun link_levels :: "nat \<Rightarrow> nat option list \<Rightarrow> 'k skiplist \<Rightarrow> nat list \<Rightarrow> 'k skiplist list option" where
  "link_levels x prev s [] = Some []"
| "link_levels x prev s (i # is) = do {
     (s1, s2) \<leftarrow> link_level x prev s i;
     rest \<leftarrow> link_levels x prev s2 is;
     Some (s1 # s2 # rest)
   }"

text \<open>An insertion as the list of the states after its stores: the height, the new node, the links.\<close>

definition Insert_steps :: "('k \<Rightarrow> 'k \<Rightarrow> int option) \<Rightarrow> 'k skiplist \<Rightarrow> 'k \<Rightarrow> 'k skiplist list option" where
  "Insert_steps cmp s key = do {
     (x, prev) \<leftarrow> FindGreaterOrEqual cmp s key (Some (replicate kMaxHeight None));
     dup \<leftarrow> (case x of None \<Rightarrow> Some False
             | Some n \<Rightarrow> do { k \<leftarrow> Node_key s n; sl_Equal cmp key k });
     ps \<leftarrow> prev;
     if dup then None
     else
       let (height, rnd) = RandomHeight (sl_rnd s);
           s0 = s\<lparr>sl_rnd := rnd\<rparr>;
           ps' = map (\<lambda>i. if sl_max_height s \<le> i \<and> i < height then Some 0 else ps ! i) [0 ..< kMaxHeight];
           s1 = (if sl_max_height s < height then s0\<lparr>sl_max_height := height\<rparr> else s0);
           (s2, n) = NewNode s1 key height
       in do {
         states \<leftarrow> link_levels n ps' s2 [0 ..< height];
         Some (s1 # s2 # states)
       }
   }"

definition Insert :: "('k \<Rightarrow> 'k \<Rightarrow> int option) \<Rightarrow> 'k skiplist \<Rightarrow> 'k \<Rightarrow> 'k skiplist option" where
  "Insert cmp s key = map_option last (Insert_steps cmp s key)"

definition Contains :: "('k \<Rightarrow> 'k \<Rightarrow> int option) \<Rightarrow> 'k skiplist \<Rightarrow> 'k \<Rightarrow> bool option" where
  "Contains cmp s key = do {
     (x, _) \<leftarrow> FindGreaterOrEqual cmp s key None;
     (case x of None \<Rightarrow> Some False
      | Some n \<Rightarrow> do { k \<leftarrow> Node_key s n; sl_Equal cmp key k })
   }"

subsection \<open>Iterators\<close>

text \<open>An iterator is its \<open>node_\<close>; it is invalid at \<open>NULL\<close>, where \<open>key\<close>, \<open>Next\<close> and \<open>Prev\<close>
  fail their assertion.\<close>

definition SLIter_new :: ptr where
  "SLIter_new = None"

definition SLIter_Valid :: "ptr \<Rightarrow> bool" where
  "SLIter_Valid node \<longleftrightarrow> node \<noteq> None"

definition SLIter_key :: "'k skiplist \<Rightarrow> ptr \<Rightarrow> 'k option" where
  "SLIter_key s node = do { x \<leftarrow> node; Node_key s x }"

definition SLIter_Next :: "'k skiplist \<Rightarrow> ptr \<Rightarrow> ptr option" where
  "SLIter_Next s node = do { x \<leftarrow> node; Node_Next s x 0 }"

definition SLIter_Prev :: "('k \<Rightarrow> 'k \<Rightarrow> int option) \<Rightarrow> 'k skiplist \<Rightarrow> ptr \<Rightarrow> ptr option" where
  "SLIter_Prev cmp s node = do {
     x \<leftarrow> node;
     k \<leftarrow> Node_key s x;
     y \<leftarrow> FindLessThan cmp s k;
     Some (if y = 0 then None else Some y)
   }"

definition SLIter_Seek :: "('k \<Rightarrow> 'k \<Rightarrow> int option) \<Rightarrow> 'k skiplist \<Rightarrow> 'k \<Rightarrow> ptr option" where
  "SLIter_Seek cmp s target = map_option fst (FindGreaterOrEqual cmp s target None)"

definition SLIter_SeekToFirst :: "'k skiplist \<Rightarrow> ptr option" where
  "SLIter_SeekToFirst s = Node_Next s 0 0"

definition SLIter_SeekToLast :: "'k skiplist \<Rightarrow> ptr option" where
  "SLIter_SeekToLast s = do { y \<leftarrow> FindLast s; Some (if y = 0 then None else Some y) }"

subsection \<open>The abstraction: a list of nodes per level\<close>

text \<open>The nodes reached from \<open>x\<close> by the links of one level, the last of which is \<open>NULL\<close>.\<close>

fun chain :: "(nat \<Rightarrow> ptr option) \<Rightarrow> nat \<Rightarrow> nat list \<Rightarrow> bool" where
  "chain nx x [] \<longleftrightarrow> nx x = Some None"
| "chain nx x (y # ys) \<longleftrightarrow> nx x = Some (Some y) \<and> chain nx y ys"

definition key_at :: "'k skiplist \<Rightarrow> nat \<Rightarrow> 'k" where
  "key_at s y = nd_key (sl_nodes s ! y)"

definition key_lt :: "('k \<Rightarrow> 'k \<Rightarrow> int option) \<Rightarrow> 'k \<Rightarrow> 'k \<Rightarrow> bool" where
  "key_lt cmp a b \<longleftrightarrow> (case cmp a b of None \<Rightarrow> False | Some r \<Rightarrow> r < 0)"

definition sl_inv :: "('k \<Rightarrow> 'k \<Rightarrow> int option) \<Rightarrow> ('k \<Rightarrow> bool) \<Rightarrow> 'k skiplist \<Rightarrow> nat list list \<Rightarrow> bool" where
  "sl_inv cmp good s Ls \<longleftrightarrow>
     length Ls = kMaxHeight \<and> 1 \<le> sl_max_height s \<and> sl_max_height s \<le> kMaxHeight \<and>
     (\<forall>l < kMaxHeight. chain (\<lambda>y. Node_Next s y l) 0 (Ls ! l)) \<and>
     (\<forall>l. Suc l < kMaxHeight \<longrightarrow> set (Ls ! Suc l) \<subseteq> set (Ls ! l)) \<and>
     (\<forall>l < kMaxHeight. sl_max_height s \<le> l \<longrightarrow> Ls ! l = []) \<and>
     (\<forall>y \<in> set (Ls ! 0). 0 < y \<and> good (key_at s y)) \<and>
     (\<forall>l < kMaxHeight. sorted_wrt (\<lambda>y z. key_lt cmp (key_at s y) (key_at s z)) (Ls ! l))"

text \<open>The contents: the keys in the order of the bottom level.\<close>

definition sl_holds :: "('k \<Rightarrow> 'k \<Rightarrow> int option) \<Rightarrow> ('k \<Rightarrow> bool) \<Rightarrow> 'k skiplist \<Rightarrow> 'k list \<Rightarrow> bool" where
  "sl_holds cmp good s ks \<longleftrightarrow> (\<exists>Ls. sl_inv cmp good s Ls \<and> ks = map (key_at s) (Ls ! 0))"

text \<open>Insertion into a sorted list, the specification of \<open>Insert\<close>.\<close>

definition ins_key :: "('k \<Rightarrow> 'k \<Rightarrow> int option) \<Rightarrow> 'k \<Rightarrow> 'k list \<Rightarrow> 'k list" where
  "ins_key cmp k ks = takeWhile (\<lambda>j. key_lt cmp j k) ks @ k # dropWhile (\<lambda>j. key_lt cmp j k) ks"

lemma chain_append:
  "chain nx x (us @ vs) \<Longrightarrow> chain nx (last (x # us)) vs"
  by (induction us arbitrary: x) auto

lemma chain_cong: "(\<And>y. y \<in> set (x # ys) \<Longrightarrow> nx' y = nx y) \<Longrightarrow> chain nx' x ys = chain nx x ys"
  by (induction ys arbitrary: x) auto

lemma chain_defined: "chain nx x ys \<Longrightarrow> y \<in> set (x # ys) \<Longrightarrow> nx y \<noteq> None"
  by (induction ys arbitrary: x) auto

lemma chain_unique: "chain nx x ys \<Longrightarrow> chain nx x zs \<Longrightarrow> ys = zs"
proof (induction ys arbitrary: x zs)
  case Nil
  then show ?case by (cases zs) auto
next
  case (Cons y ys)
  then show ?case by (cases zs) auto
qed

lemma chain_head: "chain nx x ys \<Longrightarrow> nx x = Some (case ys of [] \<Rightarrow> None | y # _ \<Rightarrow> Some y)"
  by (cases ys) auto

text \<open>Splicing a fresh node into a chain takes the two stores of \<open>link_level\<close>.\<close>

lemma chain_splice:
  assumes "chain nx x (us @ vs)" and "distinct (x # us @ vs)" and "z \<notin> set (x # us @ vs)"
  shows "chain (nx(z := nx (last (x # us)), last (x # us) := Some (Some z))) x (us @ z # vs)"
  using assms
proof (induction us arbitrary: x)
  case Nil
  then have "nx x = Some (case vs of [] \<Rightarrow> None | v # _ \<Rightarrow> Some v)" using chain_head by fastforce
  moreover have "chain (nx(z := nx x, x := Some (Some z))) v vs' = chain nx v vs'" if "vs = v # vs'" for v vs'
    using Nil that by (intro chain_cong) auto
  ultimately show ?case using Nil by (cases vs) (auto simp: fun_upd_def)
next
  case (Cons u us)
  have ne: "x \<noteq> z" "x \<noteq> last (u # us)" using Cons.prems last_in_set [of "u # us"] by auto
  have "chain nx u (us @ vs)" "distinct (u # us @ vs)" "z \<notin> set (u # us @ vs)" using Cons.prems by auto
  from Cons.IH [OF this] Cons.prems(1) ne show ?case by (auto split: if_splits)
qed

lemma Node_Next_SetNext:
  "Node_SetNext s x n p = Some s' \<Longrightarrow> Node_Next s' y m = (if y = x \<and> m = n then Some p else Node_Next s y m)"
  by (auto simp: Node_SetNext_def Node_Next_def nth_list_update split: if_splits)

lemma SetNext_same:
  assumes "Node_SetNext s x n p = Some s'"
  shows "sl_max_height s' = sl_max_height s" "sl_rnd s' = sl_rnd s" "key_at s' y = key_at s y"
    "length (sl_nodes s') = length (sl_nodes s)" "length (nd_next (sl_nodes s' ! y)) = length (nd_next (sl_nodes s ! y))"
    "Node_key s' y = Node_key s y"
proof -
  from assms have s': "s' = s\<lparr>sl_nodes := (sl_nodes s)[x := (sl_nodes s ! x)
      \<lparr>nd_next := (nd_next (sl_nodes s ! x))[n := Some p]\<rparr>]\<rparr>"
    by (simp add: Node_SetNext_def split: if_splits)
  show "sl_max_height s' = sl_max_height s" "sl_rnd s' = sl_rnd s" "length (sl_nodes s') = length (sl_nodes s)"
    by (simp_all add: s')
  show "key_at s' y = key_at s y"
    by (cases "x < length (sl_nodes s)"; cases "x = y") (simp_all add: s' key_at_def list_update_beyond)
  show "Node_key s' y = Node_key s y"
    by (cases "x = y") (simp_all add: s' Node_key_def)
  show "length (nd_next (sl_nodes s' ! y)) = length (nd_next (sl_nodes s ! y))"
    by (cases "x < length (sl_nodes s)"; cases "x = y") (simp_all add: s' list_update_beyond)
qed

lemma SetNext_defined: "Node_Next s x n \<noteq> None \<Longrightarrow> \<exists>s'. Node_SetNext s x n p = Some s'"
  by (auto simp: Node_Next_def Node_SetNext_def split: if_splits)

lemma Node_Next_key: "Node_Next s x n \<noteq> None \<Longrightarrow> Node_key s x = Some (key_at s x)"
  by (auto simp: Node_Next_def Node_key_def key_at_def split: if_splits)

lemma NewNode_same:
  assumes "NewNode s k h = (s', n)"
  shows "sl_max_height s' = sl_max_height s" "sl_rnd s' = sl_rnd s" "n = length (sl_nodes s)"
    "y < n \<Longrightarrow> key_at s' y = key_at s y" "key_at s' n = k" "y \<noteq> n \<Longrightarrow> Node_Next s' y l = Node_Next s y l"
    "length (sl_nodes s') = Suc (length (sl_nodes s))" "nd_next (sl_nodes s' ! n) = replicate h None"
  using assms by (auto simp: NewNode_def key_at_def Node_Next_def nth_append)

lemma RandomHeight_bounds:
  assumes "RandomHeight rnd = (h, rnd')"
  shows "1 \<le> h" and "h \<le> kMaxHeight"
proof -
  have "h0 \<le> kMaxHeight \<Longrightarrow> random_height_loop r h0 = (h, r') \<Longrightarrow> h0 \<le> h \<and> h \<le> kMaxHeight" for h0 r r'
  proof (induction r h0 rule: random_height_loop.induct)
    case (1 r h0)
    show ?case
    proof (cases "h0 < kMaxHeight \<and> Random_Next r mod 4 = 0")
      case True
      then have "random_height_loop (Random_Next r) (h0 + 1) = (h, r')"
        using "1.prems"(2) random_height_loop.simps [of r h0] by simp
      with "1.IH" True show ?thesis by simp
    next
      case False
      with "1.prems" random_height_loop.simps [of r h0] show ?thesis by (auto split: if_splits)
    qed
  qed
  from this [of 1] assms show "1 \<le> h" "h \<le> kMaxHeight" by (auto simp: RandomHeight_def kMaxHeight_def)
qed

subsection \<open>Searching is searching the sorted list\<close>

definition ptr_of :: "nat list \<Rightarrow> ptr" where
  "ptr_of ys = (case ys of [] \<Rightarrow> None | y # _ \<Rightarrow> Some y)"

lemma ptr_of_simps [simp]: "ptr_of [] = None" "ptr_of (y # ys) = Some y"
  by (simp_all add: ptr_of_def)

context comparator
begin

abbreviation inv :: "'k skiplist \<Rightarrow> nat list list \<Rightarrow> bool" where
  "inv \<equiv> sl_inv cmp good"

abbreviation before :: "'k skiplist \<Rightarrow> 'k \<Rightarrow> nat \<Rightarrow> bool" where
  "before s k y \<equiv> lt (key_at s y) k"

definition pos :: "'k skiplist \<Rightarrow> nat list list \<Rightarrow> 'k \<Rightarrow> nat \<Rightarrow> nat" where
  "pos s Ls k l = last (0 # takeWhile (before s k) (Ls ! l))"

lemma key_lt_lt: "key_lt cmp a b = lt a b"
  by (simp add: key_lt_def lt_def split: option.split)

lemma inv_height: "inv s Ls \<Longrightarrow> 1 \<le> sl_max_height s" "inv s Ls \<Longrightarrow> sl_max_height s \<le> kMaxHeight"
  "inv s Ls \<Longrightarrow> length Ls = kMaxHeight"
  by (simp_all add: sl_inv_def)

lemma inv_chain: "inv s Ls \<Longrightarrow> l < kMaxHeight \<Longrightarrow> chain (\<lambda>y. Node_Next s y l) 0 (Ls ! l)"
  by (simp add: sl_inv_def)

lemma inv_sorted: "inv s Ls \<Longrightarrow> l < kMaxHeight \<Longrightarrow> sorted_wrt (\<lambda>y z. lt (key_at s y) (key_at s z)) (Ls ! l)"
  by (simp add: sl_inv_def key_lt_lt)

lemma inv_nested_step: "inv s Ls \<Longrightarrow> Suc l < kMaxHeight \<Longrightarrow> set (Ls ! Suc l) \<subseteq> set (Ls ! l)"
  by (simp add: sl_inv_def)

lemma inv_nested: "inv s Ls \<Longrightarrow> l < kMaxHeight \<Longrightarrow> set (Ls ! l) \<subseteq> set (Ls ! 0)"
proof (induction l)
  case (Suc l)
  then show ?case using inv_nested_step [of s Ls l] by auto
qed simp

lemma inv_node:
  assumes "inv s Ls" and "l < kMaxHeight" and "y \<in> set (Ls ! l)"
  shows "0 < y" and "good (key_at s y)" and "Node_Next s y l \<noteq> None" and "Node_key s y = Some (key_at s y)"
proof -
  show "0 < y" "good (key_at s y)" using inv_nested [OF assms(1,2)] assms by (auto simp: sl_inv_def)
  show "Node_Next s y l \<noteq> None" using chain_defined [OF inv_chain [OF assms(1,2)], of y] assms(3) by simp
  then show "Node_key s y = Some (key_at s y)" by (rule Node_Next_key)
qed

lemma inv_distinct:
  assumes "inv s Ls" and "l < kMaxHeight"
  shows "distinct (0 # Ls ! l)"
proof -
  have "sorted_wrt (\<lambda>y z. y \<noteq> z) (Ls ! l)"
    using sorted_wrt_mono_rel [OF _ inv_sorted [OF assms], of "\<lambda>y z. y \<noteq> z"] inv_node(2) [OF assms] lt_irrefl
    by auto
  moreover have "sorted_wrt (\<lambda>y z. y \<noteq> z) ys \<Longrightarrow> distinct ys" for ys :: "nat list"
    by (induction ys) auto
  ultimately show ?thesis using inv_node(1) [OF assms] by auto
qed

lemma after_dropWhile:
  assumes "inv s Ls" and "l < kMaxHeight" and "good k" and "v \<in> set (dropWhile (before s k) (Ls ! l))"
  shows "\<not> before s k v"
proof -
  let ?d = "dropWhile (before s k) (Ls ! l)"
  obtain w ws where d: "?d = w # ws" using assms(4) by (cases ?d) auto
  have w: "\<not> before s k w" using d hd_dropWhile [of "before s k" "Ls ! l"] by (metis list.discI list.sel(1))
  have sub: "set ?d \<subseteq> set (Ls ! l)" by (auto dest: set_dropWhileD)
  have "sorted_wrt (\<lambda>y z. lt (key_at s y) (key_at s z)) (takeWhile (before s k) (Ls ! l) @ ?d)"
    using inv_sorted [OF assms(1,2)] by simp
  then have "v = w \<or> lt (key_at s w) (key_at s v)" using assms(4) d by (auto simp: sorted_wrt_append)
  moreover have "good (key_at s v)" "good (key_at s w)"
    using inv_node(2) [OF assms(1,2)] sub assms(4) d by auto
  ultimately show ?thesis using w assms(3) lt_trans by blast
qed

lemma KeyIsAfterNode_lt:
  assumes "inv s Ls" and "l < kMaxHeight" and "y \<in> set (Ls ! l)" and "good k"
  shows "KeyIsAfterNode cmp s k (Some y) = Some (before s k y)"
  using inv_node [OF assms(1-3)] cmp_total [of "key_at s y" k] assms(4)
  by (auto simp: KeyIsAfterNode_def lt_def)

text \<open>Where a search stands at a level: at the last of the nodes before the key that it has passed.\<close>

definition standing :: "'k skiplist \<Rightarrow> nat list list \<Rightarrow> 'k \<Rightarrow> nat \<Rightarrow> nat \<Rightarrow> nat list \<Rightarrow> bool" where
  "standing s Ls k l x vs \<longleftrightarrow> (\<exists>us. Ls ! l = us @ vs \<and> x = last (0 # us) \<and> (\<forall>u \<in> set us. before s k u))"

lemma standing_next:
  assumes "inv s Ls" and "l < kMaxHeight" and "standing s Ls k l x vs"
  shows "Node_Next s x l = Some (ptr_of vs)"
  using assms chain_append [of "\<lambda>y. Node_Next s y l" 0] inv_chain [OF assms(1,2)] chain_head
  by (fastforce simp: standing_def ptr_of_def)

lemma standing_step:
  assumes "standing s Ls k l x (y # vs)" and "before s k y"
  shows "standing s Ls k l y vs"
proof -
  from assms(1) obtain us where "Ls ! l = us @ y # vs" "\<forall>u \<in> set us. before s k u"
    by (auto simp: standing_def)
  with assms(2) show ?thesis unfolding standing_def by (intro exI [of _ "us @ [y]"]) auto
qed

lemma standing_end:
  assumes "standing s Ls k l x vs" and "vs = [] \<or> \<not> before s k (hd vs)"
  shows "x = pos s Ls k l" and "vs = dropWhile (before s k) (Ls ! l)"
proof -
  from assms(1) obtain us where us: "Ls ! l = us @ vs" "x = last (0 # us)" "\<forall>u \<in> set us. before s k u"
    by (auto simp: standing_def)
  have "takeWhile (before s k) vs = []" "dropWhile (before s k) vs = vs"
    using assms(2) by (cases vs; simp)+
  with us show "x = pos s Ls k l" "vs = dropWhile (before s k) (Ls ! l)"
    by (simp_all add: pos_def takeWhile_append2 dropWhile_append2)
qed

lemma standing_head: "standing s Ls k l 0 (Ls ! l)"
  by (auto simp: standing_def)

lemma standing_at:
  assumes "inv s Ls" and "l < kMaxHeight" and "good k" and "x = 0 \<or> x \<in> set (Ls ! l) \<and> before s k x"
  shows "\<exists>ws. standing s Ls k l x ws"
proof (cases "x = 0")
  case True
  then show ?thesis using standing_head by blast
next
  case False
  with assms(4) obtain us ws where us: "Ls ! l = us @ x # ws" and x: "before s k x"
    by (auto simp: in_set_conv_decomp)
  have "before s k u" if "u \<in> set us" for u
  proof -
    have "lt (key_at s u) (key_at s x)" using inv_sorted [OF assms(1,2)] that us by (auto simp: sorted_wrt_append)
    then show ?thesis
      using lt_trans x inv_node(2) [OF assms(1,2)] that us assms(3) by (metis Un_iff list.set_intros(1) set_append)
  qed
  then have "standing s Ls k l x ws"
    unfolding standing_def using us x by (intro exI [of _ "us @ [x]"]) auto
  then show ?thesis ..
qed

lemma standing_node: "standing s Ls k l x vs \<Longrightarrow> x = 0 \<or> x \<in> set (Ls ! l) \<and> before s k x"
  using last_in_set by (auto simp: standing_def split: if_splits)

lemma standing_down:
  assumes "inv s Ls" and "Suc l < kMaxHeight" and "standing s Ls k (Suc l) x vs" and "good k"
  shows "\<exists>ws. standing s Ls k l x ws"
  using standing_node [OF assms(3)] inv_nested_step [OF assms(1,2)] assms(2)
  by (intro standing_at [OF assms(1) _ assms(4)]) auto

text \<open>Walking along one level ends at its position.\<close>

lemma find_ge_walk:
  assumes "inv s Ls" and "l < kMaxHeight" and "good k" and "standing s Ls k l x vs"
  shows "find_ge_loop cmp s k x l prev = find_ge_loop cmp s k (pos s Ls k l) l prev"
  using assms(4)
proof (induction vs arbitrary: x)
  case Nil
  then show ?case using standing_end(1) by fastforce
next
  case (Cons y vs)
  have y: "y \<in> set (Ls ! l)" using Cons.prems by (auto simp: standing_def)
  show ?case
  proof (cases "before s k y")
    case True
    then have "find_ge_loop cmp s k x l prev = find_ge_loop cmp s k y l prev"
      using KeyIsAfterNode_lt [OF assms(1,2) y assms(3)] standing_next [OF assms(1,2) Cons.prems]
      by (subst find_ge_loop.simps) simp
    with Cons.IH [OF standing_step [OF Cons.prems True]] show ?thesis by simp
  next
    case False
    then show ?thesis using standing_end(1) [OF Cons.prems] by simp
  qed
qed

lemma standing_pos:
  "standing s Ls k l (pos s Ls k l) (dropWhile (before s k) (Ls ! l))"
  unfolding standing_def pos_def
  by (rule exI [of _ "takeWhile (before s k) (Ls ! l)"]) (auto dest: set_takeWhileD)

lemma find_ge_turn:
  assumes "inv s Ls" and "l < kMaxHeight" and "good k" and "set_prev prev l (pos s Ls k l) = Some prev'"
  shows "find_ge_loop cmp s k (pos s Ls k l) l prev =
    (if l = 0 then Some (ptr_of (dropWhile (before s k) (Ls ! l)), prev')
     else find_ge_loop cmp s k (pos s Ls k l) (l - 1) prev')"
proof -
  let ?d = "dropWhile (before s k) (Ls ! l)"
  have "KeyIsAfterNode cmp s k (ptr_of ?d) = Some False"
  proof (cases ?d)
    case (Cons v vs)
    then have "v \<in> set (Ls ! l)" by (metis list.set_intros(1) set_dropWhileD)
    with Cons KeyIsAfterNode_lt [OF assms(1,2) _ assms(3)] after_dropWhile [OF assms(1-3), of v] show ?thesis
      by simp
  qed (simp add: KeyIsAfterNode_def del: dropWhile_eq_Nil_conv)
  with standing_next [OF assms(1,2) standing_pos] assms(4) show ?thesis
    by (subst find_ge_loop.simps) simp
qed

definition prev_upto :: "'k skiplist \<Rightarrow> nat list list \<Rightarrow> 'k \<Rightarrow> nat \<Rightarrow> prev_array \<Rightarrow> prev_array" where
  "prev_upto s Ls k level =
     map_option (\<lambda>ps. map (\<lambda>i. if i \<le> level then Some (pos s Ls k i) else ps ! i) [0 ..< kMaxHeight])"

lemma find_ge_loop_correct:
  assumes "inv s Ls" and "good k" and "l < kMaxHeight" and "standing s Ls k l x vs"
    and "\<forall>ps. prev = Some ps \<longrightarrow> length ps = kMaxHeight"
  shows "find_ge_loop cmp s k x l prev = Some (ptr_of (dropWhile (before s k) (Ls ! 0)), prev_upto s Ls k l prev)"
  using assms(3-5)
proof (induction l arbitrary: x vs prev)
  case 0
  have "set_prev prev 0 (pos s Ls k 0) = Some (prev_upto s Ls k 0 prev)"
    using 0(1,3) by (cases prev) (auto simp: set_prev_def prev_upto_def nth_list_update intro!: nth_equalityI)
  with find_ge_walk [OF assms(1) 0(1) assms(2) 0(2)] find_ge_turn [OF assms(1) 0(1) assms(2)]
  show ?case by simp
next
  case (Suc l)
  let ?p = "pos s Ls k (Suc l)"
  obtain prev' where p': "set_prev prev (Suc l) ?p = Some prev'" "\<forall>ps. prev' = Some ps \<longrightarrow> length ps = kMaxHeight"
    using Suc.prems(1,3) by (cases prev) (auto simp: set_prev_def)
  obtain ws where "standing s Ls k l ?p ws"
    using standing_down [OF assms(1) Suc.prems(1) standing_pos assms(2)] by blast
  with Suc.IH [of ?p ws prev'] p'(2) Suc.prems(1)
  have "find_ge_loop cmp s k ?p l prev' = Some (ptr_of (dropWhile (before s k) (Ls ! 0)), prev_upto s Ls k l prev')"
    by simp
  moreover have "prev_upto s Ls k l prev' = prev_upto s Ls k (Suc l) prev"
    using p'(1) Suc.prems(1,3)
    by (cases prev) (auto simp: set_prev_def prev_upto_def nth_list_update le_Suc_eq split: if_splits)
  ultimately show ?case
    using find_ge_walk [OF assms(1) Suc.prems(1) assms(2) Suc.prems(2), of prev] find_ge_turn [OF assms(1) Suc.prems(1) assms(2) p'(1)]
    by simp
qed

lemma FindGreaterOrEqual_correct:
  assumes "inv s Ls" and "good k" and "\<forall>ps. prev = Some ps \<longrightarrow> length ps = kMaxHeight"
  shows "FindGreaterOrEqual cmp s k prev =
    Some (ptr_of (dropWhile (before s k) (Ls ! 0)), prev_upto s Ls k (sl_max_height s - 1) prev)"
  using find_ge_loop_correct [OF assms(1,2) _ standing_head assms(3)] inv_height [OF assms(1)]
  by (simp add: FindGreaterOrEqual_def)

text \<open>The two other searches stop at the same kind of position.\<close>

lemma standing_assert:
  assumes "inv s Ls" and "l < kMaxHeight" and "good k" and "standing s Ls k l x vs"
  shows "(if x = 0 then Some True else KeyIsAfterNode cmp s k (Some x)) = Some True"
proof (cases "x = 0")
  case False
  then have "x \<in> set (Ls ! l)" "before s k x"
    using assms(4) last_in_set by (auto simp: standing_def split: if_splits)
  then show ?thesis using KeyIsAfterNode_lt [OF assms(1,2) _ assms(3)] by simp
qed simp

lemma cmp_stop:
  assumes "inv s Ls" and "l < kMaxHeight" and "good k" and "y \<in> set (Ls ! l)"
  shows "do { j \<leftarrow> Node_key s y; r \<leftarrow> cmp j k; Some (0 \<le> r) } = Some (\<not> before s k y)"
  using inv_node [OF assms(1,2,4)] cmp_total [of "key_at s y" k] assms(3) by (auto simp: lt_def)

lemma find_lt_loop_correct:
  assumes "inv s Ls" and "good k" and "l < kMaxHeight" and "standing s Ls k l x vs"
  shows "find_lt_loop cmp s k x l = Some (pos s Ls k 0)"
  using assms(3,4)
proof (induction "(l, length vs)" arbitrary: l x vs rule: wf_induct_rule [OF wf_lex_prod [OF wf_less wf_less]])
  case 1
  note a = standing_assert [OF assms(1) 1(2) assms(2) 1(3)] standing_next [OF assms(1) 1(2,3)]
  show ?case
  proof (cases "vs \<noteq> [] \<and> before s k (hd vs)")
    case True
    then obtain y ws where y: "vs = y # ws" "before s k y" by (cases vs) auto
    then have "y \<in> set (Ls ! l)" using 1(3) by (auto simp: standing_def)
    then have "find_lt_loop cmp s k x l = find_lt_loop cmp s k y l"
      using a y cmp_stop [OF assms(1) 1(2) assms(2)] by (subst find_lt_loop.simps) simp
    with 1(1) [of l ws y] standing_step [of s Ls k l x y ws] y 1(2,3) show ?thesis by simp
  next
    case False
    have x: "x = pos s Ls k l" using standing_end(1) [OF 1(3)] False by blast
    have "(case ptr_of vs of None \<Rightarrow> Some True
           | Some n \<Rightarrow> do { j \<leftarrow> Node_key s n; r \<leftarrow> cmp j k; Some (0 \<le> r) }) = Some True"
      using False 1(3) cmp_stop [OF assms(1) 1(2) assms(2)] by (cases vs) (auto simp: standing_def)
    then have step: "find_lt_loop cmp s k x l = (if l = 0 then Some x else find_lt_loop cmp s k x (l - 1))"
      using a by (subst find_lt_loop.simps) simp
    show ?thesis
    proof (cases l)
      case 0
      with step x show ?thesis by simp
    next
      case (Suc m)
      then obtain ws where "standing s Ls k m x ws" using standing_down [OF assms(1)] 1(2,3) assms(2) by blast
      with 1(1) [of m ws x] Suc step 1(2) show ?thesis by simp
    qed
  qed
qed

lemma FindLessThan_correct:
  assumes "inv s Ls" and "good k"
  shows "FindLessThan cmp s k = Some (pos s Ls k 0)"
  using find_lt_loop_correct [OF assms _ standing_head] inv_height [OF assms(1)]
  by (simp add: FindLessThan_def)

lemma find_last_loop_correct:
  assumes "inv s Ls" and "l < kMaxHeight" and "Ls ! l = us @ vs" and "x = last (0 # us)"
  shows "find_last_loop s x l = Some (last (0 # Ls ! 0))"
  using assms(2-4)
proof (induction "(l, length vs)" arbitrary: l x us vs rule: wf_induct_rule [OF wf_lex_prod [OF wf_less wf_less]])
  case 1
  have "chain (\<lambda>y. Node_Next s y l) x vs"
    using inv_chain [OF assms(1) 1(2)] 1(3,4) chain_append [of "\<lambda>y. Node_Next s y l" 0 us vs] by simp
  from chain_head [OF this] have nx: "Node_Next s x l = Some (ptr_of vs)" by (simp add: ptr_of_def)
  show ?case
  proof (cases vs)
    case (Cons y ws)
    then have "find_last_loop s x l = find_last_loop s y l" using nx by (subst find_last_loop.simps) simp
    with 1(1) [of l ws "us @ [y]" y] Cons 1(2,3) show ?thesis by simp
  next
    case Nil
    then have step: "find_last_loop s x l = (if l = 0 then Some x else find_last_loop s x (l - 1))"
      using nx by (subst find_last_loop.simps) simp
    show ?thesis
    proof (cases l)
      case 0
      with step Nil 1(3,4) show ?thesis by simp
    next
      case (Suc m)
      have "\<exists>us' vs'. Ls ! m = us' @ vs' \<and> x = last (0 # us')"
      proof (cases "us = []")
        case False
        then have "x \<in> set (Ls ! m)"
          using 1(2-4) Suc inv_nested_step [OF assms(1)] last_in_set by fastforce
        then obtain a b where "Ls ! m = (a @ [x]) @ b" by (auto simp: in_set_conv_decomp)
        then show ?thesis by (metis last_ConsR snoc_eq_iff_butlast last_snoc)
      qed (use 1(4) in auto)
      with 1(1) [of m _ _ x] Suc step 1(2) show ?thesis by (metis Suc_lessD diff_Suc_1 in_lex_prod less_Suc_eq nat.simps(3) mem_Collect_eq case_prodI pred_nat_def less_eq)
    qed
  qed
qed

end

end
