(* ===== verification/Ldb_Skiplist_Insert.thy ===== *)
theory Ldb_Skiplist_Insert
  imports Ldb_Skiplist
begin

text \<open>
  Insertion into the skip list, its iterators, and a reader that runs beside the writer: the
  lemmas for any comparator that keeps its contract, and the properties of the list.
\<close>

subsection \<open>Insertion\<close>

context comparator
begin

definition splice :: "'k skiplist \<Rightarrow> nat list list \<Rightarrow> 'k \<Rightarrow> nat \<Rightarrow> nat \<Rightarrow> nat list" where
  "splice s Ls k x l = takeWhile (before s k) (Ls ! l) @ x # dropWhile (before s k) (Ls ! l)"

lemma set_splice [simp]: "set (splice s Ls k x l) = insert x (set (Ls ! l))"
proof -
  have "set (Ls ! l) = set (takeWhile (before s k) (Ls ! l)) \<union> set (dropWhile (before s k) (Ls ! l))"
    by (metis set_append takeWhile_dropWhile_id)
  then show ?thesis by (auto simp: splice_def)
qed

lemma splice_sorted:
  assumes "inv s Ls" and "l < kMaxHeight" and "good k" and "key_at s x = k"
    and "\<And>y. y \<in> set (Ls ! l) \<Longrightarrow> \<not> eqv k (key_at s y)"
  shows "sorted_wrt (\<lambda>y z. lt (key_at s y) (key_at s z)) (splice s Ls k x l)"
proof -
  let ?t = "takeWhile (before s k) (Ls ! l)" and ?d = "dropWhile (before s k) (Ls ! l)"
  have S: "sorted_wrt (\<lambda>y z. lt (key_at s y) (key_at s z)) (?t @ ?d)" using inv_sorted [OF assms(1,2)] by simp
  have "lt k (key_at s v)" if v: "v \<in> set ?d" for v
  proof -
    have m: "v \<in> set (Ls ! l)" using v by (rule set_dropWhileD)
    then show ?thesis
      using after_dropWhile [OF assms(1-3) v] assms(3) assms(5) [OF m] inv_node(2) [OF assms(1,2) m] cmp_cases
      by blast
  qed
  moreover have "lt (key_at s u) k" if "u \<in> set ?t" for u using that by (auto dest: set_takeWhileD)
  ultimately show ?thesis using S [unfolded sorted_wrt_append] assms(4)
    unfolding splice_def sorted_wrt_append by auto
qed

lemma invI:
  assumes "length Ls = kMaxHeight" and "1 \<le> sl_max_height s" and "sl_max_height s \<le> kMaxHeight"
    and "\<And>l. l < kMaxHeight \<Longrightarrow> chain (\<lambda>y. Node_Next s y l) 0 (Ls ! l)"
    and "\<And>l. Suc l < kMaxHeight \<Longrightarrow> set (Ls ! Suc l) \<subseteq> set (Ls ! l)"
    and "\<And>l. l < kMaxHeight \<Longrightarrow> sl_max_height s \<le> l \<Longrightarrow> Ls ! l = []"
    and "\<And>y. y \<in> set (Ls ! 0) \<Longrightarrow> 0 < y \<and> good (key_at s y)"
    and "\<And>l. l < kMaxHeight \<Longrightarrow> sorted_wrt (\<lambda>y z. lt (key_at s y) (key_at s z)) (Ls ! l)"
  shows "inv s Ls"
  unfolding sl_inv_def key_lt_lt using assms by (intro conjI allI impI ballI) blast+

text \<open>Stores that leave every chain and every key alone keep the invariant.\<close>

lemma inv_cong:
  assumes "inv s Ls" and "sl_max_height s \<le> sl_max_height s'" and "sl_max_height s' \<le> kMaxHeight"
    and "\<And>l. l < kMaxHeight \<Longrightarrow> chain (\<lambda>y. Node_Next s' y l) 0 (Ls ! l)"
    and "\<And>l y. l < kMaxHeight \<Longrightarrow> y \<in> set (Ls ! l) \<Longrightarrow> key_at s' y = key_at s y"
  shows "inv s' Ls"
proof -
  have "sorted_wrt (\<lambda>y z. lt (key_at s' y) (key_at s' z)) (Ls ! l)" if "l < kMaxHeight" for l
    using sorted_wrt_mono_rel [OF _ inv_sorted [OF assms(1) that]] assms(5) [OF that] by simp
  moreover have "good (key_at s' y)" "0 < y" if "y \<in> set (Ls ! 0)" for y
    using inv_node(1,2) [OF assms(1) _ that] assms(5) [OF _ that] by (simp_all add: kMaxHeight_def)
  moreover have "Ls ! l = []" if "l < kMaxHeight" "sl_max_height s' \<le> l" for l
    using assms(1,2) that by (simp add: sl_inv_def)
  moreover have "1 \<le> sl_max_height s'" using inv_height(1) [OF assms(1)] assms(2) by linarith
  ultimately show ?thesis
    using inv_height(3) [OF assms(1)] assms(3,4) inv_nested_step [OF assms(1)] by (intro invI) blast+
qed

text \<open>A new node, ready to be linked at level \<open>i\<close> and up to its height.\<close>

definition ready :: "'k skiplist \<Rightarrow> nat list list \<Rightarrow> 'k \<Rightarrow> nat \<Rightarrow> nat \<Rightarrow> nat \<Rightarrow> bool" where
  "ready s Ls k x i h \<longleftrightarrow>
     0 < x \<and> x < length (sl_nodes s) \<and> length (nd_next (sl_nodes s ! x)) = h \<and> key_at s x = k \<and>
     i \<le> h \<and> h \<le> sl_max_height s \<and> (0 < i \<longrightarrow> x \<in> set (Ls ! (i - 1))) \<and>
     (\<forall>l. i \<le> l \<and> l < kMaxHeight \<longrightarrow> x \<notin> set (Ls ! l)) \<and>
     (\<forall>y \<in> set (Ls ! 0). y \<noteq> x \<longrightarrow> \<not> eqv k (key_at s y))"

lemma pos_in: "pos s Ls k l \<in> set (0 # Ls ! l)"
proof -
  have "pos s Ls k l \<in> set (0 # takeWhile (before s k) (Ls ! l))" unfolding pos_def by (rule last_in_set) simp
  then show ?thesis by (auto dest: set_takeWhileD)
qed

lemma link_level_correct:
  assumes "inv s Ls" and "good k" and "ready s Ls k x i h" and "i < h"
    and "i < length ps" and "ps ! i = Some (pos s Ls k i)"
  shows "\<exists>s1 s2. link_level x ps s i = Some (s1, s2) \<and> inv s1 Ls \<and> inv s2 (Ls[i := splice s Ls k x i]) \<and>
    ready s2 (Ls[i := splice s Ls k x i]) k x (Suc i) h \<and> key_at s1 = key_at s \<and> key_at s2 = key_at s"
proof -
  let ?p = "pos s Ls k i" and ?Ls = "Ls[i := splice s Ls k x i]"
  note R = assms(3) [unfolded ready_def]
  have i: "i < kMaxHeight" using R assms(4) inv_height(2) [OF assms(1)] by linarith
  have len: "length Ls = kMaxHeight" by (rule inv_height [OF assms(1)])
  have x: "x \<notin> set (0 # Ls ! i)" using R i by auto
  have px: "?p \<noteq> x" using pos_in [of s Ls k i] x by auto
  have pdef: "Node_Next s ?p i \<noteq> None"
    using chain_defined [OF inv_chain [OF assms(1) i] pos_in] .
  then obtain nx where nx: "Node_Next s ?p i = Some nx" by blast
  obtain s1 where s1: "Node_SetNext s x i nx = Some s1" using R assms(4) by (auto simp: Node_SetNext_def)
  have "Node_Next s1 ?p i \<noteq> None" using pdef px Node_Next_SetNext [OF s1] by simp
  then obtain s2 where s2: "Node_SetNext s1 ?p i (Some x) = Some s2" using SetNext_defined by blast
  have keys: "key_at s1 = key_at s" "key_at s2 = key_at s"
    using SetNext_same(3) [OF s1] SetNext_same(3) [OF s2] by auto
  have inv1: "inv s1 Ls"
  proof (rule inv_cong [OF assms(1)])
    fix l assume l: "l < kMaxHeight"
    have "chain (\<lambda>y. Node_Next s1 y l) 0 (Ls ! l) = chain (\<lambda>y. Node_Next s y l) 0 (Ls ! l)"
      using x Node_Next_SetNext [OF s1] by (intro chain_cong) auto
    then show "chain (\<lambda>y. Node_Next s1 y l) 0 (Ls ! l)" using inv_chain [OF assms(1) l] by simp
  qed (use SetNext_same [OF s1] keys inv_height [OF assms(1)] in simp_all)
  have next2: "(\<lambda>y. Node_Next s2 y l) = (if l = i then (\<lambda>y. Node_Next s y i)(x := Node_Next s ?p i, ?p := Some (Some x))
      else (\<lambda>y. Node_Next s y l))" for l
    using Node_Next_SetNext [OF s1] Node_Next_SetNext [OF s2] nx by auto
  have chains: "chain (\<lambda>y. Node_Next s2 y l) 0 (?Ls ! l)" if l: "l < kMaxHeight" for l
  proof (cases "l = i")
    case True
    have "chain ((\<lambda>y. Node_Next s y i)(x := Node_Next s ?p i, ?p := Some (Some x))) 0 (splice s Ls k x i)"
      unfolding splice_def pos_def
      by (rule chain_splice) (use inv_chain [OF assms(1) i] inv_distinct [OF assms(1) i] x in simp_all)
    then show ?thesis using True len i next2 [of i] by simp
  next
    case False
    then show ?thesis using next2 [of l] inv_chain [OF assms(1) l] by simp
  qed
  have nested: "set (?Ls ! Suc l) \<subseteq> set (?Ls ! l)" if "Suc l < kMaxHeight" for l
    using that inv_nested_step [OF assms(1) that] R len i by (auto simp: nth_list_update)
  have sorted: "sorted_wrt (\<lambda>y z. lt (key_at s2 y) (key_at s2 z)) (?Ls ! l)" if l: "l < kMaxHeight" for l
  proof (cases "l = i")
    case True
    have "\<not> eqv k (key_at s y)" if "y \<in> set (Ls ! i)" for y
      using R x that inv_nested [OF assms(1) i] by auto
    with True splice_sorted [OF assms(1) i assms(2)] R len i show ?thesis by (simp add: keys)
  next
    case False
    then show ?thesis using inv_sorted [OF assms(1) l] by (simp add: keys)
  qed
  have bottom: "0 < y \<and> good (key_at s2 y)" if "y \<in> set (?Ls ! 0)" for y
    using that R assms(1,2) len i by (cases "i = 0") (auto simp: keys sl_inv_def)
  have high: "?Ls ! l = []" if "l < kMaxHeight" "sl_max_height s2 \<le> l" for l
    using that R assms(1,4) SetNext_same(1) [OF s1] SetNext_same(1) [OF s2] by (auto simp: sl_inv_def)
  have inv2: "inv s2 ?Ls"
    using chains nested sorted bottom high len inv_height [OF assms(1)] SetNext_same(1) [OF s1] SetNext_same(1) [OF s2]
    by (intro invI) (simp_all only: length_list_update)
  have same: "length (sl_nodes s2) = length (sl_nodes s)" "sl_max_height s2 = sl_max_height s"
      "length (nd_next (sl_nodes s2 ! x)) = length (nd_next (sl_nodes s ! x))"
    using SetNext_same(1,4,5) [OF s1] SetNext_same(1,4,5) [OF s2] by simp_all
  have "x \<in> set (?Ls ! i)" "x \<notin> set (?Ls ! l)" if "Suc i \<le> l" "l < kMaxHeight" for l
    using that R len i by simp_all
  moreover have "\<not> eqv k (key_at s y)" if "y \<in> set (?Ls ! 0)" "y \<noteq> x" for y
    using that R len i by (cases "i = 0") auto
  ultimately have "ready s2 ?Ls k x (Suc i) h"
    using R assms(4) len i unfolding ready_def same keys by simp
  moreover have "link_level x ps s i = Some (s1, s2)"
    using assms(5,6) nx s1 s2 by (simp add: link_level_def)
  ultimately show ?thesis using inv1 inv2 keys by blast
qed

text \<open>
  What the states of an insertion have in common: each has the invariant, no node leaves a level,
  and \<open>Q\<close> holds of it.
\<close>

definition extends :: "'k skiplist \<Rightarrow> nat list list \<Rightarrow> 'k skiplist \<Rightarrow> nat list list \<Rightarrow> bool" where
  "extends s Ls t Ls' \<longleftrightarrow> (\<forall>l < kMaxHeight. set (Ls ! l) \<subseteq> set (Ls' ! l) \<and> (\<forall>y \<in> set (Ls ! l). key_at t y = key_at s y))"

fun trace :: "('k skiplist \<Rightarrow> nat list list \<Rightarrow> bool) \<Rightarrow> 'k skiplist \<Rightarrow> nat list list \<Rightarrow> 'k skiplist list \<Rightarrow> bool" where
  "trace Q s Ls [] \<longleftrightarrow> True"
| "trace Q s Ls (t # ts) \<longleftrightarrow> (\<exists>Ls'. inv t Ls' \<and> extends s Ls t Ls' \<and> Q t Ls' \<and> trace Q t Ls' ts)"

lemma extends_refl: "key_at t = key_at s \<Longrightarrow> extends s Ls t Ls"
  by (simp add: extends_def)

lemma link_levels_correct:
  assumes "inv s Ls" and "good k" and "ready s Ls k x i h"
    and "\<And>l. i \<le> l \<Longrightarrow> l < h \<Longrightarrow> l < length ps \<and> ps ! l = Some (pos s Ls k l)"
    and "\<And>t Ls'. key_at t = key_at s \<Longrightarrow> Ls' ! 0 = Ls ! 0 \<or> i = 0 \<and> Ls' ! 0 = splice s Ls k x 0 \<Longrightarrow> Q t Ls'"
  shows "\<exists>ts Ls'. link_levels x ps s [i ..< h] = Some ts \<and> trace Q s Ls ts \<and>
    inv (last (s # ts)) Ls' \<and> key_at (last (s # ts)) = key_at s \<and>
    Ls' ! 0 = (if i = 0 \<and> 0 < h then splice s Ls k x 0 else Ls ! 0)"
  using assms
proof (induction "h - i" arbitrary: i s Ls)
  case 0
  then show ?case by auto
next
  case (Suc d)
  then have ih: "i < h" by simp
  let ?Ls = "Ls[i := splice s Ls k x i]"
  obtain s1 s2 where L: "link_level x ps s i = Some (s1, s2)" "inv s1 Ls" "inv s2 ?Ls"
      "ready s2 ?Ls k x (Suc i) h" "key_at s1 = key_at s" "key_at s2 = key_at s"
    using link_level_correct [OF Suc.prems(1-3) ih, of ps] Suc.prems(4) [of i] ih by blast
  have len: "length Ls = kMaxHeight" using inv_height Suc.prems(1) by blast
  have "l < length ps \<and> ps ! l = Some (pos s2 ?Ls k l)" if "Suc i \<le> l" "l < h" for l
    using Suc.prems(4) [of l] that by (simp add: pos_def L(6))
  moreover have "Q t Ls'" if "key_at t = key_at s2" "Ls' ! 0 = ?Ls ! 0 \<or> Suc i = 0 \<and> Ls' ! 0 = splice s2 ?Ls k x 0" for t Ls'
    using Suc.prems(5) [of t Ls'] that L(6) len by (cases i) (auto simp: kMaxHeight_def)
  moreover have "d = h - Suc i" using Suc.hyps(2) by simp
  ultimately obtain ts Ls' where T: "link_levels x ps s2 [Suc i ..< h] = Some ts" "trace Q s2 ?Ls ts"
      "inv (last (s2 # ts)) Ls'" "key_at (last (s2 # ts)) = key_at s2" "Ls' ! 0 = ?Ls ! 0"
    using Suc.hyps(1) [OF _ L(3) Suc.prems(2) L(4)] by auto
  have Q: "Q s1 Ls" "Q s2 ?Ls" using Suc.prems(5) L(5,6) len by (cases i; auto simp: kMaxHeight_def)+
  have "set (Ls ! l) \<subseteq> set (?Ls ! l)" if "l < kMaxHeight" for l
    using that len by (cases "i = l") auto
  then have "extends s1 Ls s2 ?Ls" using L(5,6) by (auto simp: extends_def)
  then have "trace Q s Ls (s1 # s2 # ts)" using L(2,3,5) Q T(2) extends_refl by fastforce
  moreover have "link_levels x ps s [i ..< h] = Some (s1 # s2 # ts)"
    using L(1) T(1) ih by (simp add: upt_conv_Cons)
  ultimately show ?case using T(3-5) L(6) ih len by (cases i) (auto simp: kMaxHeight_def)
qed

lemma inv_bound: "inv s Ls \<Longrightarrow> l < kMaxHeight \<Longrightarrow> y \<in> set (Ls ! l) \<Longrightarrow> y < length (sl_nodes s)"
  using inv_node(3) [of s Ls l y] by (auto simp: Node_Next_def split: if_splits)

lemma not_dup:
  assumes "inv s Ls" and "good k" and "\<And>y. y \<in> set (Ls ! 0) \<Longrightarrow> \<not> eqv k (key_at s y)"
  shows "(case ptr_of (dropWhile (before s k) (Ls ! 0)) of None \<Rightarrow> Some False
     | Some n \<Rightarrow> do { j \<leftarrow> Node_key s n; sl_Equal cmp k j }) = Some False"
proof (cases "dropWhile (before s k) (Ls ! 0)")
  case Nil
  then show ?thesis by (simp only: ptr_of_simps option.case)
next
  case (Cons v vs)
  then have v: "v \<in> set (Ls ! 0)" by (metis list.set_intros(1) set_dropWhileD)
  have "0 < kMaxHeight" by (simp add: kMaxHeight_def)
  from inv_node [OF assms(1) this v] assms(2) assms(3) [OF v] cmp_total [of k "key_at s v"] Cons show ?thesis
    by (auto simp: sl_Equal_def eqv_def)
qed

text \<open>The first two stores: the new height, with empty levels, and the node nobody points to yet.\<close>

lemma new_node_inv:
  assumes "inv s Ls" and "h \<le> kMaxHeight" and "1 \<le> h"
    and "s1 = (if sl_max_height s < h then s\<lparr>sl_rnd := rnd, sl_max_height := h\<rparr> else s\<lparr>sl_rnd := rnd\<rparr>)"
    and "NewNode s1 k h = (s2, x)"
    and "\<And>y. y \<in> set (Ls ! 0) \<Longrightarrow> \<not> eqv k (key_at s y)"
  shows "inv s1 Ls" and "inv s2 Ls" and "ready s2 Ls k x 0 h" and "key_at s1 = key_at s"
    and "x = length (sl_nodes s)"
proof -
  have nodes: "sl_nodes s1 = sl_nodes s" using assms(4) by simp
  then show k1: "key_at s1 = key_at s" by (auto simp: key_at_def)
  note N = NewNode_same [OF assms(5)]
  show x: "x = length (sl_nodes s)" using N(3) nodes by simp
  have n1: "Node_Next s1 = Node_Next s" using nodes by (intro ext) (simp add: Node_Next_def)
  have mh: "sl_max_height s \<le> sl_max_height s1" "h \<le> sl_max_height s1" "sl_max_height s1 \<le> kMaxHeight"
    using assms(2,4) inv_height [OF assms(1)] by auto
  show i1: "inv s1 Ls"
    by (rule inv_cong [OF assms(1)]) (use mh n1 k1 inv_chain [OF assms(1)] in simp_all)
  have below: "y < x" if "y \<in> set (0 # Ls ! l)" "l < kMaxHeight" for y l
    using that inv_bound [OF i1 that(2)] chain_defined [OF inv_chain [OF i1 that(2)] that(1)] N(3)
    by (auto simp: Node_Next_def split: if_splits)
  have k2: "key_at s2 y = key_at s1 y" if "y \<in> set (Ls ! l)" "l < kMaxHeight" for y l
    using below [of y l] that N(4) [of y] by simp
  show i2: "inv s2 Ls"
  proof (rule inv_cong [OF i1])
    fix l assume l: "l < kMaxHeight"
    have "chain (\<lambda>y. Node_Next s2 y l) 0 (Ls ! l) = chain (\<lambda>y. Node_Next s1 y l) 0 (Ls ! l)"
      using below [OF _ l] N(6) by (intro chain_cong) (metis less_irrefl)
    then show "chain (\<lambda>y. Node_Next s2 y l) 0 (Ls ! l)" using inv_chain [OF i1 l] by simp
  qed (use N(1) mh k2 in auto)
  have z: "0 < kMaxHeight" by (simp add: kMaxHeight_def)
  have "\<not> eqv k (key_at s2 y)" if "y \<in> set (Ls ! 0)" for y
    using assms(6) [OF that] below [of y 0] that N(4) [of y] k1 z by simp
  moreover have "x \<notin> set (Ls ! l)" if "l < kMaxHeight" for l using below [OF _ that, of x] by auto
  ultimately show "ready s2 Ls k x 0 h"
    using N(1,3,5,7,8) mh below [of 0 0] z by (auto simp: ready_def)
qed

lemma map_splice:
  assumes "\<And>y. y \<in> set (Ls ! 0) \<Longrightarrow> key_at t y = key_at s y" and "key_at t x = k"
  shows "map (key_at t) (splice t Ls k x 0) = ins_key cmp k (map (key_at s) (Ls ! 0))"
proof -
  have "map (key_at t) (Ls ! 0) = map (key_at s) (Ls ! 0)" using assms(1) by simp
  moreover have "map (key_at t) (splice t Ls k x 0) = ins_key cmp k (map (key_at t) (Ls ! 0))"
    using assms(2) by (simp add: splice_def ins_key_def takeWhile_map dropWhile_map o_def key_lt_lt)
  ultimately show ?thesis by (simp only:)
qed

definition old_or_new :: "'k list \<Rightarrow> 'k \<Rightarrow> 'k skiplist \<Rightarrow> nat list list \<Rightarrow> bool" where
  "old_or_new ks k t Ls' \<longleftrightarrow> map (key_at t) (Ls' ! 0) = ks \<or> map (key_at t) (Ls' ! 0) = ins_key cmp k ks"

lemma Insert_steps_correct:
  assumes "inv s Ls" and "good k" and "\<And>y. y \<in> set (Ls ! 0) \<Longrightarrow> \<not> eqv k (key_at s y)"
  shows "\<exists>ts Ls'. Insert_steps cmp s k = Some ts \<and> ts \<noteq> [] \<and>
    trace (old_or_new (map (key_at s) (Ls ! 0)) k) s Ls ts \<and> inv (last ts) Ls' \<and>
    map (key_at (last ts)) (Ls' ! 0) = ins_key cmp k (map (key_at s) (Ls ! 0))"
proof -
  let ?ks = "map (key_at s) (Ls ! 0)" and ?Q = "old_or_new (map (key_at s) (Ls ! 0)) k"
  obtain h rnd where h: "RandomHeight (sl_rnd s) = (h, rnd)" by fastforce
  note hb = RandomHeight_bounds [OF h]
  define s1 where s1: "s1 = (if sl_max_height s < h then s\<lparr>sl_rnd := rnd, sl_max_height := h\<rparr> else s\<lparr>sl_rnd := rnd\<rparr>)"
  obtain s2 x where nn: "NewNode s1 k h = (s2, x)" by fastforce
  note N = new_node_inv [OF assms(1) hb(2,1) s1 nn assms(3)]
  have z: "0 < kMaxHeight" by (simp add: kMaxHeight_def)
  have keys: "key_at s2 y = key_at s y" if "y \<in> set (Ls ! l)" "l < kMaxHeight" for y l
    using that inv_bound [OF assms(1)] NewNode_same(4) [OF nn] N(4,5) NewNode_same(3) [OF nn] by (auto simp: s1)
  define ps where "ps = map (\<lambda>i. if i \<le> sl_max_height s - 1 then Some (pos s Ls k i) else None) [0 ..< kMaxHeight]"
  define ps' where "ps' = map (\<lambda>i. if sl_max_height s \<le> i \<and> i < h then Some 0 else ps ! i) [0 ..< kMaxHeight]"
  have find: "FindGreaterOrEqual cmp s k (Some (replicate kMaxHeight None)) =
      Some (ptr_of (dropWhile (before s k) (Ls ! 0)), Some ps)"
    using FindGreaterOrEqual_correct [OF assms(1,2)] by (simp add: prev_upto_def ps_def cong: if_cong)
  have "l < length ps' \<and> ps' ! l = Some (pos s2 Ls k l)" if "0 \<le> l" "l < h" for l
  proof -
    have l: "l < kMaxHeight" using that hb by simp
    have "takeWhile (before s2 k) (Ls ! l) = takeWhile (before s k) (Ls ! l)"
      using keys [OF _ l] by (intro takeWhile_cong) auto
    then have "pos s2 Ls k l = pos s Ls k l" by (simp add: pos_def)
    moreover have "pos s Ls k l = 0" if "sl_max_height s \<le> l"
      using that assms(1) l by (simp add: sl_inv_def pos_def)
    ultimately show ?thesis using that l inv_height(1) [OF assms(1)] by (auto simp: ps'_def ps_def)
  qed
  moreover have "?Q t Ls'" if "key_at t = key_at s2"
    "Ls' ! 0 = Ls ! 0 \<or> (0::nat) = 0 \<and> Ls' ! 0 = splice s2 Ls k x 0" for t Ls'
    using that map_splice [of Ls s2 s x k] keys z NewNode_same(5) [OF nn] NewNode_same(3) [OF nn]
    by (auto simp: old_or_new_def)
  ultimately obtain ts Ls' where T: "link_levels x ps' s2 [0 ..< h] = Some ts" "trace ?Q s2 Ls ts"
      "inv (last (s2 # ts)) Ls'" "key_at (last (s2 # ts)) = key_at s2" "Ls' ! 0 = splice s2 Ls k x 0"
    using link_levels_correct [OF N(2) assms(2) N(3), of ps' ?Q] hb by auto
  have "Insert_steps cmp s k = Some (s1 # s2 # ts)"
    using find not_dup [OF assms] h T(1) nn by (simp add: Insert_steps_def Let_def s1 [symmetric] ps'_def cong: if_cong)
  moreover have "trace ?Q s Ls (s1 # s2 # ts)"
  proof -
    have "extends s Ls s1 Ls" "extends s1 Ls s2 Ls" using keys N(4) by (auto simp: extends_def)
    moreover have "?Q s1 Ls" "?Q s2 Ls" using keys [OF _ z] N(4) by (auto simp: old_or_new_def)
    ultimately show ?thesis using N(1,2) T(2) by auto
  qed
  moreover have "map (key_at (last (s2 # ts))) (Ls' ! 0) = ins_key cmp k ?ks"
    unfolding T(4,5) by (rule map_splice) (use keys z NewNode_same(3,5) [OF nn] in auto)
  ultimately show ?thesis using T(3) by (intro exI [of _ "s1 # s2 # ts"] exI [of _ Ls']) auto
qed

end

subsection \<open>A reader beside the writer\<close>

text \<open>
  One turn of the loop of \<open>FindGreaterOrEqual\<close> without \<open>prev\<close>, as a step of a reader. The writer
  performs the stores of its insertions one at a time; a reader loads \<open>max_height_\<close> at some moment
  and takes its turns at any later ones.
\<close>

datatype reader = Idle | At nat nat | Done ptr

definition reader_step :: "('k \<Rightarrow> 'k \<Rightarrow> int option) \<Rightarrow> 'k skiplist \<Rightarrow> 'k \<Rightarrow> nat \<Rightarrow> nat \<Rightarrow> reader option" where
  "reader_step cmp s key x level = do {
     next \<leftarrow> Node_Next s x level;
     after \<leftarrow> KeyIsAfterNode cmp s key next;
     if after then (case next of None \<Rightarrow> None | Some n \<Rightarrow> Some (At n level))
     else Some (if level = 0 then Done next else At x (level - 1))
   }"

lemma find_ge_reader_step:
  "find_ge_loop cmp s key x level None =
     (case reader_step cmp s key x level of
        None \<Rightarrow> None | Some (Done p) \<Rightarrow> Some (p, None)
      | Some (At y l) \<Rightarrow> find_ge_loop cmp s key y l None | Some Idle \<Rightarrow> None)"
proof (cases "Node_Next s x level")
  case (Some nx)
  then show ?thesis
  proof (cases "KeyIsAfterNode cmp s key nx")
    case (Some after)
    with \<open>Node_Next s x level = Some nx\<close> show ?thesis
      by (subst find_ge_loop.simps) (simp add: reader_step_def set_prev_def split: option.split)
  qed (subst find_ge_loop.simps, simp add: reader_step_def)
qed (subst find_ge_loop.simps, simp add: reader_step_def)

inductive concurrent ::
  "('k \<Rightarrow> 'k \<Rightarrow> int option) \<Rightarrow> ('k \<Rightarrow> bool) \<Rightarrow> 'k \<Rightarrow> 'k skiplist \<Rightarrow> 'k skiplist list \<Rightarrow> reader \<Rightarrow> bool"
  for cmp good key where
  start: "sl_holds cmp good s ks \<Longrightarrow> concurrent cmp good key s [] Idle"
| begin_search: "concurrent cmp good key s q Idle \<Longrightarrow> concurrent cmp good key s q (At 0 (sl_max_height s - 1))"
| begin_insert: "concurrent cmp good key s [] r \<Longrightarrow> good j \<Longrightarrow> Contains cmp s j = Some False \<Longrightarrow>
    Insert_steps cmp s j = Some q \<Longrightarrow> concurrent cmp good key s q r"
| store: "concurrent cmp good key s (t # q) r \<Longrightarrow> concurrent cmp good key t q r"
| turn: "concurrent cmp good key s q (At x l) \<Longrightarrow> reader_step cmp s key x l = Some r \<Longrightarrow>
    concurrent cmp good key s q r"

context comparator
begin

lemma Contains_correct:
  assumes "inv s Ls" and "good k"
  shows "Contains cmp s k = Some (\<exists>y \<in> set (Ls ! 0). eqv k (key_at s y))"
proof (cases "dropWhile (before s k) (Ls ! 0)")
  case Nil
  then have "\<not> eqv k (key_at s y)" if "y \<in> set (Ls ! 0)" for y
    using that assms inv_node(2) [OF assms(1), of 0 y] by (auto simp: eqv_iff kMaxHeight_def)
  moreover have "ptr_of (dropWhile (before s k) (Ls ! 0)) = None" by (simp only: Nil ptr_of_simps)
  ultimately show ?thesis
    using FindGreaterOrEqual_correct [OF assms, of None] by (auto simp: Contains_def)
next
  case (Cons v vs)
  have z: "0 < kMaxHeight" by (simp add: kMaxHeight_def)
  have v: "v \<in> set (Ls ! 0)" using Cons by (metis list.set_intros(1) set_dropWhileD)
  note nv = inv_node [OF assms(1) z v]
  have "eqv k (key_at s v)" if y: "y \<in> set (Ls ! 0)" "eqv k (key_at s y)" for y
  proof -
    have gy: "good (key_at s y)" using inv_node(2) [OF assms(1) z y(1)] .
    have "\<not> before s k y" using y(2) gy assms(2) by (simp add: eqv_iff)
    then have "y \<in> set (dropWhile (before s k) (Ls ! 0))"
      using y(1) by (metis Un_iff set_append set_takeWhileD takeWhile_dropWhile_id)
    moreover have "sorted_wrt (\<lambda>y z. lt (key_at s y) (key_at s z)) (dropWhile (before s k) (Ls ! 0))"
      using inv_sorted [OF assms(1) z] by (metis sorted_wrt_append takeWhile_dropWhile_id)
    ultimately have "y = v \<or> lt (key_at s v) (key_at s y)" using Cons by auto
    moreover have "\<not> before s k v" using after_dropWhile [OF assms(1) z assms(2), of v] Cons by simp
    ultimately show ?thesis using y(2) gy nv(2) assms(2) by (auto simp: eqv_iff le_lt_trans dest: lt_le_trans le_not_lt)
  qed
  with v have "(\<exists>y \<in> set (Ls ! 0). eqv k (key_at s y)) \<longleftrightarrow> eqv k (key_at s v)" by blast
  moreover have "Contains cmp s k = Some (eqv k (key_at s v))"
    using FindGreaterOrEqual_correct [OF assms, of None] Cons nv cmp_total [of k "key_at s v"] assms(2)
    by (auto simp: Contains_def sl_Equal_def eqv_def)
  ultimately show ?thesis by simp
qed

definition reader_ok :: "'k skiplist \<Rightarrow> nat list list \<Rightarrow> 'k \<Rightarrow> reader \<Rightarrow> bool" where
  "reader_ok s Ls k r \<longleftrightarrow>
     (case r of At x l \<Rightarrow> l < kMaxHeight \<and> (x = 0 \<or> x \<in> set (Ls ! l) \<and> before s k x) | _ \<Rightarrow> True)"

lemma reader_ok_extends: "reader_ok s Ls k r \<Longrightarrow> extends s Ls t Ls' \<Longrightarrow> reader_ok t Ls' k r"
  by (auto simp: reader_ok_def extends_def split: reader.splits)

lemma reader_step_ok:
  assumes "inv s Ls" and "good k" and "reader_ok s Ls k (At x l)"
  shows "\<exists>r. reader_step cmp s k x l = Some r \<and> reader_ok s Ls k r \<and>
    (\<forall>p. r = Done p \<longrightarrow> p = ptr_of (dropWhile (before s k) (Ls ! 0)))"
proof -
  have l: "l < kMaxHeight" using assms(3) by (simp add: reader_ok_def)
  obtain ws where st: "standing s Ls k l x ws"
    using standing_at [OF assms(1) l assms(2)] assms(3) by (auto simp: reader_ok_def)
  note nx = standing_next [OF assms(1) l st]
  show ?thesis
  proof (cases "ws \<noteq> [] \<and> before s k (hd ws)")
    case True
    then obtain y vs where y: "ws = y # vs" "before s k y" by (cases ws) auto
    then have "y \<in> set (Ls ! l)" using st by (auto simp: standing_def)
    with y nx KeyIsAfterNode_lt [OF assms(1) l _ assms(2)] l show ?thesis
      by (auto simp: reader_step_def reader_ok_def)
  next
    case False
    then have "KeyIsAfterNode cmp s k (ptr_of ws) = Some False"
      using st KeyIsAfterNode_lt [OF assms(1) l _ assms(2), of "hd ws"]
      by (cases ws) (auto simp: standing_def KeyIsAfterNode_def)
    then have step: "reader_step cmp s k x l = Some (if l = 0 then Done (ptr_of ws) else At x (l - 1))"
      using nx by (simp add: reader_step_def)
    show ?thesis
    proof (cases l)
      case 0
      then show ?thesis using step standing_end(2) [OF st] False by (auto simp: reader_ok_def)
    next
      case (Suc m)
      then show ?thesis
        using step assms(3) inv_nested_step [OF assms(1), of m] l by (auto simp: reader_ok_def)
    qed
  qed
qed

lemma trace_mono: "trace Q s Ls ts \<Longrightarrow> (\<And>t Ls'. Q t Ls' \<Longrightarrow> Q' t Ls') \<Longrightarrow> trace Q' s Ls ts"
proof (induction ts arbitrary: s Ls)
  case (Cons t ts)
  then show ?case by simp blast
qed simp

lemma concurrent_inv:
  assumes "concurrent cmp good k s q r" and "good k"
  shows "\<exists>Ls. inv s Ls \<and> trace (\<lambda>_ _. True) s Ls q \<and> reader_ok s Ls k r"
  using assms(1)
proof (induction rule: concurrent.induct)
  case (start s ks)
  then show ?case by (auto simp: sl_holds_def reader_ok_def)
next
  case (begin_search s q)
  then show ?case using inv_height by (fastforce simp: reader_ok_def)
next
  case (begin_insert s r j q)
  then obtain Ls where Ls: "inv s Ls" "reader_ok s Ls k r" by blast
  have "\<not> eqv j (key_at s y)" if "y \<in> set (Ls ! 0)" for y
    using Contains_correct [OF Ls(1) begin_insert.hyps(2)] begin_insert.hyps(3) that by auto
  from Insert_steps_correct [OF Ls(1) begin_insert.hyps(2) this]
  obtain ts where "Insert_steps cmp s j = Some ts" "trace (old_or_new (map (key_at s) (Ls ! 0)) j) s Ls ts" by blast
  with begin_insert.hyps(4) have "trace (old_or_new (map (key_at s) (Ls ! 0)) j) s Ls q" by simp
  then have "trace (\<lambda>_ _. True) s Ls q" by (rule trace_mono) simp
  with Ls show ?case by blast
next
  case (store s t q r)
  then obtain Ls Ls' where "reader_ok s Ls k r" "inv t Ls'" "extends s Ls t Ls'" "trace (\<lambda>_ _. True) t Ls' q" by auto
  then show ?case using reader_ok_extends by blast
next
  case (turn s q x l r)
  then obtain Ls where Ls: "inv s Ls" "trace (\<lambda>_ _. True) s Ls q" "reader_ok s Ls k (At x l)" by blast
  with reader_step_ok [OF Ls(1) assms(2) Ls(3)] turn.hyps(2) show ?case by auto
qed

text \<open>The operations in terms of the contents.\<close>

lemma holds_Insert:
  assumes "sl_holds cmp good s ks" and "good k" and "\<And>j. j \<in> set ks \<Longrightarrow> \<not> eqv k j"
  shows "\<exists>s'. Insert cmp s k = Some s' \<and> sl_holds cmp good s' (ins_key cmp k ks)"
proof -
  from assms(1) obtain Ls where Ls: "inv s Ls" "ks = map (key_at s) (Ls ! 0)" by (auto simp: sl_holds_def)
  then have "\<not> eqv k (key_at s y)" if "y \<in> set (Ls ! 0)" for y using assms(3) that by simp
  from Insert_steps_correct [OF Ls(1) assms(2) this] obtain ts Ls' where
    "Insert_steps cmp s k = Some ts" "inv (last ts) Ls'" "map (key_at (last ts)) (Ls' ! 0) = ins_key cmp k ks"
    using Ls(2) by blast
  then show ?thesis by (auto simp: Insert_def sl_holds_def intro!: exI [of _ Ls'])
qed

lemma trace_holds:
  "trace (old_or_new ks k) s Ls ts \<Longrightarrow> t \<in> set ts \<Longrightarrow> sl_holds cmp good t ks \<or> sl_holds cmp good t (ins_key cmp k ks)"
proof (induction ts arbitrary: s Ls)
  case (Cons u ts)
  then obtain Ls' where L: "inv u Ls'" "old_or_new ks k u Ls'" "trace (old_or_new ks k) u Ls' ts" by auto
  show ?case
  proof (cases "t = u")
    case True
    with L(1,2) show ?thesis by (auto simp: sl_holds_def old_or_new_def)
  next
    case False
    with Cons.IH [OF L(3)] Cons.prems(2) show ?thesis by simp
  qed
qed simp

lemma holds_Contains:
  assumes "sl_holds cmp good s ks" and "good k"
  shows "Contains cmp s k = Some (\<exists>j \<in> set ks. eqv k j)"
  using assms Contains_correct by (auto simp: sl_holds_def)

end

lemma fresh_head:
  "SkipList_new k0 = Some \<lparr>sl_nodes = [\<lparr>nd_key = k0, nd_next = replicate kMaxHeight (Some None)\<rparr>],
     sl_max_height = 1, sl_rnd = Random_new 0xdeadbeef\<rparr>"
  by (simp add: SkipList_new_def NewNode_def kMaxHeight_def upt_rec Node_SetNext_def eval_nat_numeral)

lemma new_holds: "\<exists>s. SkipList_new k0 = Some s \<and> sl_holds cmp good s []"
proof -
  let ?s = "\<lparr>sl_nodes = [\<lparr>nd_key = k0, nd_next = replicate kMaxHeight (Some None)\<rparr>],
     sl_max_height = 1, sl_rnd = Random_new 0xdeadbeef\<rparr>"
  have "sl_inv cmp good ?s (replicate kMaxHeight [])"
    by (simp add: sl_inv_def kMaxHeight_def Node_Next_def)
  then show ?thesis unfolding fresh_head sl_holds_def
    by (intro exI [of _ ?s] conjI exI [of _ "replicate kMaxHeight []"]) (simp_all add: kMaxHeight_def)
qed

subsection \<open>Iterators\<close>

definition node_at :: "nat list \<Rightarrow> nat \<Rightarrow> ptr" where
  "node_at ns i = (if i < length ns then Some (ns ! i) else None)"

text \<open>
  The cursor positions of a list with the keys \<open>ks\<close>: the nodes in the order of the list. A
  position past either end is the invalid iterator.
\<close>

definition cursor_ok :: "('k \<Rightarrow> 'k \<Rightarrow> int option) \<Rightarrow> 'k skiplist \<Rightarrow> 'k list \<Rightarrow> nat list \<Rightarrow> bool" where
  "cursor_ok cmp s ks ns \<longleftrightarrow> length ns = length ks \<and>
     SLIter_SeekToFirst s = Some (node_at ns 0) \<and>
     SLIter_SeekToLast s = Some (if ns = [] then None else node_at ns (length ns - 1)) \<and>
     (\<forall>i < length ns.
        SLIter_key s (node_at ns i) = Some (ks ! i) \<and>
        SLIter_Next s (node_at ns i) = Some (node_at ns (Suc i)) \<and>
        SLIter_Prev cmp s (node_at ns i) = Some (if i = 0 then None else node_at ns (i - 1)))"

lemma chain_nth:
  "chain nx x ys \<Longrightarrow> i \<le> length ys \<Longrightarrow> nx ((x # ys) ! i) = Some (node_at ys i)"
proof (induction ys arbitrary: x i)
  case (Cons y ys)
  then show ?case by (cases i) (auto simp: node_at_def)
qed (simp add: node_at_def)

lemma ptr_of_drop: "ptr_of (drop i ns) = node_at ns i"
  by (simp add: ptr_of_def node_at_def Cons_nth_drop_Suc [symmetric])

lemma dropWhile_drop: "dropWhile P xs = drop (length (takeWhile P xs)) xs"
  by (metis append_eq_conv_conj takeWhile_dropWhile_id)

context comparator
begin

lemma takeWhile_own_key:
  assumes "inv s Ls" and "i < length (Ls ! 0)"
  shows "takeWhile (before s (key_at s (Ls ! 0 ! i))) (Ls ! 0) = take i (Ls ! 0)"
proof (rule takeWhile_eq_take_P_nth)
  have z: "0 < kMaxHeight" by (simp add: kMaxHeight_def)
  show "before s (key_at s (Ls ! 0 ! i)) (Ls ! 0 ! j)" if "j < i" "j < length (Ls ! 0)" for j
    using inv_sorted [OF assms(1) z] that assms(2) by (auto simp: sorted_wrt_iff_nth_less)
  show "\<not> before s (key_at s (Ls ! 0 ! i)) (Ls ! 0 ! i)"
    using inv_node(2) [OF assms(1) z] assms(2) lt_irrefl by simp
qed

lemma cursor_correct:
  assumes "inv s Ls"
  shows "cursor_ok cmp s (map (key_at s) (Ls ! 0)) (Ls ! 0)"
proof -
  let ?ns = "Ls ! 0"
  have z: "0 < kMaxHeight" by (simp add: kMaxHeight_def)
  note N = inv_node [OF assms z]
  have nx: "Node_Next s ((0 # ?ns) ! i) 0 = Some (node_at ?ns i)" if "i \<le> length ?ns" for i
    using chain_nth [OF inv_chain [OF assms z] that] .
  have "FindLast s = Some (last (0 # ?ns))"
    using find_last_loop_correct [OF assms, of "sl_max_height s - 1" "[]"] inv_height [OF assms] by (simp add: FindLast_def)
  moreover have "last ?ns \<noteq> 0" if "?ns \<noteq> []" using N(1) [OF last_in_set [OF that]] by simp
  ultimately have "SLIter_SeekToLast s = Some (if ?ns = [] then None else node_at ?ns (length ?ns - 1))"
    by (cases "?ns = []") (simp_all add: SLIter_SeekToLast_def node_at_def last_conv_nth)
  moreover have "SLIter_Prev cmp s (node_at ?ns i) = Some (if i = 0 then None else node_at ?ns (i - 1))"
    if i: "i < length ?ns" for i
  proof -
    have m: "?ns ! i \<in> set ?ns" using i by simp
    have "FindLessThan cmp s (key_at s (?ns ! i)) = Some (last (0 # take i ?ns))"
      using FindLessThan_correct [OF assms N(2) [OF m]] takeWhile_own_key [OF assms i] by (simp add: pos_def)
    moreover have "last (take i ?ns) = ?ns ! (i - 1)" if "i \<noteq> 0"
      using that i last_conv_nth [of "take i ?ns"] by force
    moreover have "?ns ! (i - 1) \<noteq> 0" using N(1) [of "?ns ! (i - 1)"] i by simp
    ultimately show ?thesis using i N(4) [OF m] by (cases "i = 0") (auto simp: SLIter_Prev_def node_at_def)
  qed
  ultimately show ?thesis
    using nx [of 0] nx [of "Suc _"] N(4)
    by (auto simp: cursor_ok_def SLIter_SeekToFirst_def SLIter_key_def SLIter_Next_def node_at_def)
qed

lemma Seek_correct:
  assumes "inv s Ls" and "good k"
  shows "SLIter_Seek cmp s k = Some (node_at (Ls ! 0) (length (takeWhile (\<lambda>j. key_lt cmp j k) (map (key_at s) (Ls ! 0)))))"
  using FindGreaterOrEqual_correct [OF assms, of None]
  by (simp add: SLIter_Seek_def dropWhile_drop ptr_of_drop takeWhile_map o_def key_lt_lt)

lemma holds_cursor:
  assumes "sl_holds cmp good s ks"
  obtains ns where "cursor_ok cmp s ks ns"
    and "\<And>k. good k \<Longrightarrow> SLIter_Seek cmp s k = Some (node_at ns (length (takeWhile (\<lambda>j. key_lt cmp j k) ks)))"
  using assms cursor_correct Seek_correct unfolding sl_holds_def by metis

end

subsection \<open>Properties\<close>

text \<open>
  C12: insertion refines insertion into a sorted list. On a list with the keys \<open>ks\<close>, none of them
  equal to the new key, \<open>Insert\<close> runs without a failed assertion or an undefined access and the
  list then holds the keys with the new one at its place, whatever height the node is given; the
  invariant of the levels is kept.
\<close>
theorem skiplist_Insert_refines:
  assumes "comparator cmp good" and "sl_holds cmp good s ks" and "good k"
    and "\<forall>j \<in> set ks. cmp k j \<noteq> Some 0"
  shows "\<exists>s'. Insert cmp s k = Some s' \<and> sl_holds cmp good s' (ins_key cmp k ks)"
  using comparator.holds_Insert [OF assms(1-3)] assms(4) by (auto simp: comparator.eqv_def [OF assms(1)])

theorem skiplist_Insert_refines_witness:
  "\<exists>s s1 s2. SkipList_new [] = Some s \<and> Insert Bytewise_Compare s [98] = Some s1 \<and>
     Insert Bytewise_Compare s1 [97] = Some s2 \<and> sl_holds Bytewise_Compare (\<lambda>_. True) s2 [[97], [98]]"
proof -
  obtain s where s: "SkipList_new [] = Some s" "sl_holds Bytewise_Compare (\<lambda>_. True) s []" using new_holds [of "[]" Bytewise_Compare "\<lambda>_. True"] by blast
  from skiplist_Insert_refines [OF bytewise.comparator_axioms s(2), of "[98]"] obtain s1 where
    s1: "Insert Bytewise_Compare s [98] = Some s1" "sl_holds Bytewise_Compare (\<lambda>_. True) s1 [[98]]"
    by (auto simp: ins_key_def)
  from skiplist_Insert_refines [OF bytewise.comparator_axioms s1(2), of "[97]"] obtain s2 where
    "Insert Bytewise_Compare s1 [97] = Some s2" "sl_holds Bytewise_Compare (\<lambda>_. True) s2 [[97], [98]]"
    by (auto simp: ins_key_def key_lt_def Bytewise_Compare_def slice_compare_def)
  with s s1 show ?thesis by blast
qed

text \<open>
  \<open>Contains\<close> decides membership: it returns true exactly if a key of the list compares equal.
\<close>
theorem skiplist_Contains_exact:
  assumes "comparator cmp good" and "sl_holds cmp good s ks" and "good k"
  shows "Contains cmp s k = Some (\<exists>j \<in> set ks. cmp k j = Some 0)"
  using comparator.holds_Contains [OF assms] by (simp add: comparator.eqv_def [OF assms(1)])

theorem skiplist_Contains_exact_witness:
  "\<exists>s. SkipList_new [] = Some s \<and> Contains Bytewise_Compare s [97] = Some False"
  using new_holds [of "[]" Bytewise_Compare "\<lambda>_. True"]
    skiplist_Contains_exact [OF bytewise.comparator_axioms, of _ "[]" "[97]"] by auto

text \<open>
  C13: the iterators walk the sorted list. The nodes can be numbered in the order of the keys such
  that \<open>SeekToFirst\<close> and \<open>SeekToLast\<close> go to the ends, \<open>Next\<close> and \<open>Prev\<close> move by one and become
  invalid past the ends, and \<open>Seek\<close> goes to the first key not before its target.
\<close>
theorem skiplist_iterators:
  assumes "comparator cmp good" and "sl_holds cmp good s ks"
  shows "\<exists>ns. cursor_ok cmp s ks ns \<and>
    (\<forall>k. good k \<longrightarrow> SLIter_Seek cmp s k = Some (node_at ns (length (takeWhile (\<lambda>j. key_lt cmp j k) ks))))"
  using comparator.holds_cursor [OF assms] by metis

theorem skiplist_iterators_witness:
  "\<exists>s ns. SkipList_new [] = Some s \<and> cursor_ok Bytewise_Compare s [] ns \<and> SLIter_Seek Bytewise_Compare s [97] = Some None"
  using new_holds [of "[]" Bytewise_Compare "\<lambda>_. True"] skiplist_iterators [OF bytewise.comparator_axioms, of _ "[]"]
  by (fastforce simp: cursor_ok_def node_at_def)

text \<open>
  C14: every store of an insertion leaves a list that readers can use: after each of them the
  invariant holds and the contents are the old ones or the new ones.
\<close>
theorem skiplist_Insert_atomic:
  assumes "comparator cmp good" and "sl_holds cmp good s ks" and "good k"
    and "\<forall>j \<in> set ks. cmp k j \<noteq> Some 0"
  shows "\<exists>ts. Insert_steps cmp s k = Some ts \<and>
    (\<forall>t \<in> set ts. sl_holds cmp good t ks \<or> sl_holds cmp good t (ins_key cmp k ks))"
proof -
  from assms(2) obtain Ls where Ls: "sl_inv cmp good s Ls" "ks = map (key_at s) (Ls ! 0)" by (auto simp: sl_holds_def)
  have "\<not> comparator.eqv cmp k (key_at s y)" if "y \<in> set (Ls ! 0)" for y
    using assms(4) that Ls(2) by (auto simp: comparator.eqv_def [OF assms(1)])
  from comparator.Insert_steps_correct [OF assms(1) Ls(1) assms(3) this] show ?thesis
    using comparator.trace_holds [OF assms(1)] Ls(2) by blast
qed

theorem skiplist_Insert_atomic_witness:
  "\<exists>s ts. SkipList_new [] = Some s \<and> Insert_steps Bytewise_Compare s [97] = Some ts \<and>
    (\<forall>t \<in> set ts. sl_holds Bytewise_Compare (\<lambda>_. True) t [] \<or> sl_holds Bytewise_Compare (\<lambda>_. True) t [[97]])"
proof -
  obtain s where s: "SkipList_new [] = Some s" "sl_holds Bytewise_Compare (\<lambda>_. True) s []" using new_holds [of "[]" Bytewise_Compare "\<lambda>_. True"] by blast
  from skiplist_Insert_atomic [OF bytewise.comparator_axioms s(2), of "[97]"] s(1) show ?thesis
    by (auto simp: ins_key_def)
qed

text \<open>
  C15: a reader needs no lock. However its turns are interleaved with the stores of the writer, each
  turn of a search is defined, and when the search ends its result is the one a search on the list
  as it is at that moment would give.
\<close>
theorem skiplist_lockfree_search:
  assumes "comparator cmp good" and "good k" and "concurrent cmp good k s q (At x l)"
  shows "\<exists>r. reader_step cmp s k x l = Some r \<and>
    (\<forall>p. r = Done p \<longrightarrow> FindGreaterOrEqual cmp s k None = Some (p, None))"
proof -
  obtain Ls where Ls: "sl_inv cmp good s Ls" "comparator.reader_ok cmp s Ls k (At x l)"
    using comparator.concurrent_inv [OF assms(1,3,2)] by blast
  show ?thesis
    using comparator.reader_step_ok [OF assms(1) Ls(1) assms(2) Ls(2)]
      comparator.FindGreaterOrEqual_correct [OF assms(1) Ls(1) assms(2), of None]
    by (auto simp: comparator.prev_upto_def [OF assms(1)])
qed

theorem skiplist_lockfree_search_witness:
  "\<exists>s q r. SkipList_new [] = Some s \<and> Insert_steps Bytewise_Compare s [98] = Some (q # r) \<and>
     (\<exists>p. reader_step Bytewise_Compare q [97] 0 0 = Some p)"
proof -
  obtain s where s: "SkipList_new [] = Some s" "sl_holds Bytewise_Compare (\<lambda>_. True) s []" using new_holds [of "[]" Bytewise_Compare "\<lambda>_. True"] by blast
  have h: "sl_max_height s = 1" using s(1) unfolding fresh_head by auto
  obtain ts where ts: "Insert_steps Bytewise_Compare s [98] = Some ts" "ts \<noteq> []"
    using s(2) bytewise.Insert_steps_correct [of s _ "[98]"] by (fastforce simp: sl_holds_def)
  then obtain q r where q: "ts = q # r" by (cases ts) auto
  have c: "Contains Bytewise_Compare s [98] = Some False" using bytewise.holds_Contains [OF s(2)] by simp
  have "concurrent Bytewise_Compare (\<lambda>_. True) [97] s [] (At 0 0)"
    using begin_search [OF start [OF s(2)], of "[97]"] h by simp
  from store [OF begin_insert [OF this _ c ts(1), unfolded q]]
  have "concurrent Bytewise_Compare (\<lambda>_. True) [97] q r (At 0 0)" by simp
  from skiplist_lockfree_search [OF bytewise.comparator_axioms _ this] s(1) ts q show ?thesis by blast
qed

end
