(* ===== verification/Ldb_Memtable.thy ===== *)
theory Ldb_Memtable
  imports Ldb_Dbformat Ldb_Skiplist_Insert
begin

text \<open>
  The memtable (\<open>db/memtable.h\<close>, \<open>db/memtable.cc\<close>): a skip list whose keys are pointers to entries
  that hold an internal key and a value, both behind their lengths. A \<open>const char*\<close> is the list of
  the bytes from there to the end of the entry. The comparator of the list is obtained from the
  user comparator, so the lemmas of the skip list apply; they give that a lookup returns the newest
  entry that is visible at a snapshot.
\<close>

subsection \<open>Entries\<close>

text \<open>The parser without a limit: at most five bytes are taken for the length, and a slice that
  reaches beyond the entry is undefined. The second result is the pointer behind the slice.\<close>

definition mt_GetLengthPrefixedSlice :: "byte list \<Rightarrow> (slice \<times> byte list) option" where
  "mt_GetLengthPrefixedSlice data = do {
     (len, q) \<leftarrow> GetVarint32Ptr (take 5 data);
     let p = drop (length (take 5 data) - length q) data;
     if unat len \<le> length p then Some (take (unat len) p, drop (unat len) p) else None
   }"

definition mt_KeyComparator :: "(slice \<Rightarrow> slice \<Rightarrow> int option) \<Rightarrow> byte list \<Rightarrow> byte list \<Rightarrow> int option" where
  "mt_KeyComparator ucmp aptr bptr = do {
     (a, _) \<leftarrow> mt_GetLengthPrefixedSlice aptr;
     (b, _) \<leftarrow> mt_GetLengthPrefixedSlice bptr;
     InternalKeyCompare ucmp a b
   }"

definition EncodeKey :: "slice \<Rightarrow> byte list" where
  "EncodeKey target = PutVarint32 [] (of_nat (length target)) @ target"

subsection \<open>The table\<close>

record memtable =
  mt_refs :: int
  mt_table :: "byte list skiplist"

definition MemTable_new :: "memtable option" where
  "MemTable_new = do { t \<leftarrow> SkipList_new []; Some \<lparr>mt_refs = 0, mt_table = t\<rparr> }"

definition MemTable_Ref :: "memtable \<Rightarrow> memtable" where
  "MemTable_Ref mt = mt\<lparr>mt_refs := mt_refs mt + 1\<rparr>"

text \<open>\<open>Some None\<close> when the table is deleted; the destructor asserts that no reference is left.\<close>

definition MemTable_Unref :: "memtable \<Rightarrow> memtable option option" where
  "MemTable_Unref mt =
     (let refs = mt_refs mt - 1 in
      if refs < 0 then None
      else if refs \<le> 0 then (if refs = 0 then Some None else None)
      else Some (Some (mt\<lparr>mt_refs := refs\<rparr>)))"

definition MemTable_Add ::
  "(slice \<Rightarrow> slice \<Rightarrow> int option) \<Rightarrow> memtable \<Rightarrow> 64 word \<Rightarrow> ValueType \<Rightarrow> slice \<Rightarrow> slice \<Rightarrow> memtable option" where
  "MemTable_Add ucmp mt s type key val =
     (let key_size = length key;
          val_size = length val;
          internal_key_size = key_size + 8;
          encoded_len = VarintLength (of_nat internal_key_size) + internal_key_size +
            VarintLength (of_nat val_size) + val_size;
          buf = EncodeVarint32 (of_nat internal_key_size) @ key @
            EncodeFixed64 kLittleEndian (push_bit 8 s OR ucast (vt_code type)) @
            EncodeVarint32 (of_nat val_size) @ val
      in if length buf = encoded_len then do {
           t \<leftarrow> Insert (mt_KeyComparator ucmp) (mt_table mt) buf;
           Some (mt\<lparr>mt_table := t\<rparr>)
         } else None)"

text \<open>The outcomes of \<open>Get\<close>: true with a value, true with the status \<open>NotFound\<close>, false.\<close>

datatype get_result = Found slice | Deleted | Missing

definition MemTable_Get ::
  "(slice \<Rightarrow> slice \<Rightarrow> int option) \<Rightarrow> memtable \<Rightarrow> LookupKey \<Rightarrow> get_result option" where
  "MemTable_Get ucmp mt key = do {
     node \<leftarrow> SLIter_Seek (mt_KeyComparator ucmp) (mt_table mt) (LookupKey_memtable_key key);
     if \<not> SLIter_Valid node then Some Missing
     else do {
       entry \<leftarrow> SLIter_key (mt_table mt) node;
       (key_length, q) \<leftarrow> GetVarint32Ptr (take 5 entry);
       let key_ptr = drop (length (take 5 entry) - length q) entry;
       if length key_ptr < unat key_length \<or> unat key_length < 8 then None
       else do {
         r \<leftarrow> ucmp (take (unat key_length - 8) key_ptr) (LookupKey_user_key key);
         if r = 0 then do {
           tag \<leftarrow> DecodeFixed64 kLittleEndian (drop (unat key_length - 8) key_ptr);
           let type = (ucast (tag AND 0xff) :: byte);
           if type = vt_code kTypeValue then do {
             (v, _) \<leftarrow> mt_GetLengthPrefixedSlice (drop (unat key_length) key_ptr);
             Some (Found v)
           }
           else if type = vt_code kTypeDeletion then Some Deleted
           else Some Missing
         }
         else Some Missing
       }
     }
   }"

subsection \<open>Iterators over the table\<close>

definition MemIter_Seek :: "(slice \<Rightarrow> slice \<Rightarrow> int option) \<Rightarrow> memtable \<Rightarrow> slice \<Rightarrow> ptr option" where
  "MemIter_Seek ucmp mt k = SLIter_Seek (mt_KeyComparator ucmp) (mt_table mt) (EncodeKey k)"

definition MemIter_SeekToFirst :: "memtable \<Rightarrow> ptr option" where
  "MemIter_SeekToFirst mt = SLIter_SeekToFirst (mt_table mt)"

definition MemIter_SeekToLast :: "memtable \<Rightarrow> ptr option" where
  "MemIter_SeekToLast mt = SLIter_SeekToLast (mt_table mt)"

definition MemIter_Next :: "memtable \<Rightarrow> ptr \<Rightarrow> ptr option" where
  "MemIter_Next mt node = SLIter_Next (mt_table mt) node"

definition MemIter_Prev :: "(slice \<Rightarrow> slice \<Rightarrow> int option) \<Rightarrow> memtable \<Rightarrow> ptr \<Rightarrow> ptr option" where
  "MemIter_Prev ucmp mt node = SLIter_Prev (mt_KeyComparator ucmp) (mt_table mt) node"

definition MemIter_key :: "memtable \<Rightarrow> ptr \<Rightarrow> slice option" where
  "MemIter_key mt node = do {
     e \<leftarrow> SLIter_key (mt_table mt) node;
     (k, _) \<leftarrow> mt_GetLengthPrefixedSlice e;
     Some k
   }"

definition MemIter_value :: "memtable \<Rightarrow> ptr \<Rightarrow> slice option" where
  "MemIter_value mt node = do {
     e \<leftarrow> SLIter_key (mt_table mt) node;
     (_, p) \<leftarrow> mt_GetLengthPrefixedSlice e;
     (v, _) \<leftarrow> mt_GetLengthPrefixedSlice p;
     Some v
   }"

subsection \<open>Entries are parsed back\<close>

record entry =
  e_user :: slice
  e_seq :: "64 word"
  e_type :: ValueType
  e_value :: slice

definition e_key :: "entry \<Rightarrow> slice" where
  "e_key e = mk_ikey (e_user e) (e_seq e) (e_type e)"

definition entry_bytes :: "entry \<Rightarrow> byte list" where
  "entry_bytes e = EncodeVarint32 (of_nat (length (e_key e))) @ e_key e @
     EncodeVarint32 (of_nat (length (e_value e))) @ e_value e"

definition entry_fits :: "entry \<Rightarrow> bool" where
  "entry_fits e \<longleftrightarrow> length (e_user e) + 8 < 2 ^ 32 \<and> length (e_value e) < 2 ^ 32 \<and> e_seq e \<le> kMaxSequenceNumber"

lemma Get5: "GetVarint32Ptr (take 5 (EncodeVarint32 v @ rest)) = Some (v, take (5 - length (EncodeVarint32 v)) rest)"
  using GetVarint32_Encode [of v "take (5 - length (EncodeVarint32 v)) rest"] length_EncodeVarint32 [of v]
  by (simp add: GetVarint32_def)

lemma Get5_rest: "drop (length (take 5 (EncodeVarint32 v @ rest)) - length (take (5 - length (EncodeVarint32 v)) rest))
    (EncodeVarint32 v @ rest) = rest"
  using length_EncodeVarint32 [of v] by (simp add: min_def)

lemma mt_Get_prefix:
  assumes "length s < 2 ^ 32"
  shows "mt_GetLengthPrefixedSlice (EncodeVarint32 (of_nat (length s)) @ s @ rest) = Some (s, rest)"
proof -
  have "unat (of_nat (length s) :: 32 word) = length s" using assms by (simp add: unat_of_nat)
  then show ?thesis
    unfolding mt_GetLengthPrefixedSlice_def Get5 [of "of_nat (length s)" "s @ rest"]
    by (simp only: Let_def bind.bind_lunit prod.case Get5_rest) simp
qed

lemma length_EncodeVarint:
  "n < 2 ^ 32 \<Longrightarrow> length (EncodeVarint32 (of_nat n)) = VarintLength (of_nat n)"
proof -
  assume n: "n < 2 ^ 32"
  have "EncodeVarint64 v \<noteq> []" for v by (subst EncodeVarint64.simps) simp
  moreover have "ucast (of_nat n :: 32 word) = (of_nat n :: 64 word)"
    using n by (simp add: word_unat_eq_iff unat_of_nat)
  ultimately show ?thesis by (simp add: VarintLength_def VarintLength_loop EncodeVarint32_eq)
qed

lemma Add_entry:
  assumes "entry_fits e"
  shows "MemTable_Add ucmp mt (e_seq e) (e_type e) (e_user e) (e_value e) = do {
    t \<leftarrow> Insert (mt_KeyComparator ucmp) (mt_table mt) (entry_bytes e);
    Some (mt\<lparr>mt_table := t\<rparr>) }"
  using assms length_EncodeVarint [of "length (e_user e) + 8"]
  by (simp add: MemTable_Add_def Let_def entry_bytes_def e_key_def entry_fits_def length_EncodeVarint mk_ikey_def tag_num_def)

subsection \<open>The comparator of the table\<close>

definition mt_good :: "(slice \<Rightarrow> bool) \<Rightarrow> byte list \<Rightarrow> bool" where
  "mt_good good p \<longleftrightarrow> (case mt_GetLengthPrefixedSlice p of None \<Rightarrow> False | Some (ik, _) \<Rightarrow> internal_good good ik)"

lemma mt_key_entry: "entry_fits e \<Longrightarrow> mt_GetLengthPrefixedSlice (entry_bytes e) =
    Some (e_key e, EncodeVarint32 (of_nat (length (e_value e))) @ e_value e)"
  unfolding entry_bytes_def by (rule mt_Get_prefix) (simp add: entry_fits_def e_key_def)

context key_comparator
begin

lemma mem_comparator: "comparator (mt_KeyComparator cmp) (mt_good good)"
proof -
  have "mt_KeyComparator cmp = (\<lambda>a b. do { x \<leftarrow> map_option fst (mt_GetLengthPrefixedSlice a);
      y \<leftarrow> map_option fst (mt_GetLengthPrefixedSlice b); InternalKeyCompare cmp x y })"
    by (intro ext) (simp add: mt_KeyComparator_def map_option_case split: option.split)
  moreover have "\<exists>x. map_option fst (mt_GetLengthPrefixedSlice a) = Some x \<and> internal_good good x" if "mt_good good a" for a
    using that by (auto simp: mt_good_def split: option.splits)
  ultimately show ?thesis using comparator.pullback [OF internal_comparator, of "mt_good good"] by simp
qed

end

sublocale key_comparator \<subseteq> mem: comparator "mt_KeyComparator cmp" "mt_good good"
  by (rule mem_comparator)

subsection \<open>What the table holds\<close>

text \<open>The skip list holds the encodings of the entries, in the order of its comparator.\<close>

definition mt_holds :: "(slice \<Rightarrow> slice \<Rightarrow> int option) \<Rightarrow> (slice \<Rightarrow> bool) \<Rightarrow> memtable \<Rightarrow> entry list \<Rightarrow> bool" where
  "mt_holds cmp good mt es \<longleftrightarrow>
     (\<forall>e \<in> set es. entry_fits e \<and> good (e_user e)) \<and>
     (\<exists>ks. sl_holds (mt_KeyComparator cmp) (mt_good good) (mt_table mt) ks \<and> set ks = entry_bytes ` set es)"

text \<open>An entry is visible to a lookup of a key at a snapshot; the newest visible one decides.\<close>

definition e_visible :: "(slice \<Rightarrow> slice \<Rightarrow> int option) \<Rightarrow> slice \<Rightarrow> 64 word \<Rightarrow> entry \<Rightarrow> bool" where
  "e_visible cmp u snap e \<longleftrightarrow> cmp (e_user e) u = Some 0 \<and> e_seq e \<le> snap"

definition e_result :: "entry \<Rightarrow> get_result" where
  "e_result e = (case e_type e of kTypeValue \<Rightarrow> Found (e_value e) | kTypeDeletion \<Rightarrow> Deleted)"

context comparator
begin

lemma holds_sorted:
  assumes "sl_holds cmp good s ks"
  shows "sorted_wrt lt ks" and "\<And>k. k \<in> set ks \<Longrightarrow> good k"
proof -
  from assms obtain Ls where Ls: "inv s Ls" "ks = map (key_at s) (Ls ! 0)" by (auto simp: sl_holds_def)
  have z: "0 < kMaxHeight" by (simp add: kMaxHeight_def)
  show "sorted_wrt lt ks" using inv_sorted [OF Ls(1) z] Ls(2) by (simp add: sorted_wrt_map)
  show "\<And>k. k \<in> set ks \<Longrightarrow> good k" using inv_node(2) [OF Ls(1) z] Ls(2) by auto
qed

lemma first_not_before:
  assumes "sorted_wrt lt ks" and "\<And>j. j \<in> set ks \<Longrightarrow> good j" and "good k"
    and "n = length (takeWhile (\<lambda>j. key_lt cmp j k) ks)" and "j \<in> set ks" and "\<not> lt j k"
  shows "n < length ks \<and> \<not> lt (ks ! n) k \<and> le (ks ! n) j"
proof -
  obtain i where i: "i < length ks" "ks ! i = j" using assms(5) by (metis in_set_conv_nth)
  have n: "n = length (takeWhile (\<lambda>j. lt j k) ks)" using assms(4) by (simp add: key_lt_lt)
  have "\<not> i < n" using i assms(6) n by (metis nth_mem set_takeWhileD takeWhile_nth)
  then have ni: "n < length ks" "n \<le> i" using i by auto
  then have "\<not> lt (ks ! n) k" using n nth_length_takeWhile by blast
  moreover have "le (ks ! n) j"
  proof (cases "n = i")
    case True
    then show ?thesis using i(2) assms(2,5) lt_irrefl le_not_lt by blast
  next
    case False
    then have "lt (ks ! n) (ks ! i)" using assms(1) ni i(1) by (auto simp: sorted_wrt_iff_nth_less)
    then show ?thesis using i(2) lt_imp_le by simp
  qed
  ultimately show ?thesis using ni by blast
qed

end

lemma drop_e_key: "drop (length (e_user e)) (e_key e) = EncodeFixed64 kLittleEndian (tag_num (e_seq e) (e_type e))"
  "take (length (e_user e)) (e_key e) = e_user e" "length (e_key e) = length (e_user e) + 8"
  by (simp_all add: e_key_def) (simp_all add: mk_ikey_def)

lemma MemTable_Get_at:
  assumes "SLIter_Seek (mt_KeyComparator cmp) (mt_table mt) (LookupKey_memtable_key lk) = Some (Some x)"
    and "SLIter_key (mt_table mt) (Some x) = Some (entry_bytes e)" and "entry_fits e"
  shows "MemTable_Get cmp mt lk = do {
    r \<leftarrow> cmp (e_user e) (LookupKey_user_key lk);
    Some (if r = 0 then e_result e else Missing) }"
proof -
  let ?n = "of_nat (length (e_key e)) :: 32 word"
  let ?rest = "EncodeVarint32 (of_nat (length (e_value e))) @ e_value e"
  have n: "unat ?n = length (e_user e) + 8"
    using assms(3) unfolding drop_e_key(3) unat_of_nat by (simp add: entry_fits_def)
  have s: "unat (e_seq e) < 2 ^ 56" using assms(3) by (simp add: entry_fits_def kMax_bits)
  have v: "mt_GetLengthPrefixedSlice (?rest @ []) = Some (e_value e, [])"
    unfolding append_assoc by (rule mt_Get_prefix) (use assms(3) in \<open>simp add: entry_fits_def\<close>)
  have tag: "DecodeFixed64 kLittleEndian (drop (length (e_user e)) (e_key e @ ?rest)) = Some (tag_num (e_seq e) (e_type e))"
    by (simp add: drop_e_key)
  have body: "MemTable_Get cmp mt lk = do {
      r \<leftarrow> cmp (take (length (e_user e)) (e_key e @ ?rest)) (LookupKey_user_key lk);
      if r = 0 then do {
        tag \<leftarrow> DecodeFixed64 kLittleEndian (drop (length (e_user e)) (e_key e @ ?rest));
        let type = (ucast (tag AND 0xff) :: byte);
        if type = vt_code kTypeValue then do {
          (v, _) \<leftarrow> mt_GetLengthPrefixedSlice (drop (length (e_user e) + 8) (e_key e @ ?rest));
          Some (Found v)
        } else if type = vt_code kTypeDeletion then Some Deleted else Some Missing
      } else Some Missing }"
    unfolding MemTable_Get_def assms(1,2) entry_bytes_def
    by (simp only: bind.bind_lunit SLIter_Valid_def option.distinct not_not simp_thms if_False if_True Get5 prod.case
        Let_def Get5_rest n assms(2) [unfolded entry_bytes_def])
      (simp add: drop_e_key cong: if_cong)
  show ?thesis
  proof (cases "cmp (e_user e) (LookupKey_user_key lk)")
    case None
    then show ?thesis by (simp add: body drop_e_key)
  next
    case (Some r)
    then show ?thesis
      using v tag tag_num_parts(2) [OF s, of "e_type e"]
      by (cases "e_type e") (simp_all add: body drop_e_key e_result_def)
  qed
qed

context key_comparator
begin

lemma mem_cmp:
  "mt_GetLengthPrefixedSlice p = Some (a, x) \<Longrightarrow> mt_GetLengthPrefixedSlice q = Some (b, y) \<Longrightarrow>
     mt_KeyComparator cmp p q = icmp a b"
  by (simp add: mt_KeyComparator_def)

lemma mem_lt:
  assumes "mt_GetLengthPrefixedSlice p = Some (a, x)" and "mt_GetLengthPrefixedSlice q = Some (b, y)"
    and "internal_good good a" and "internal_good good b"
  shows "mem.lt p q \<longleftrightarrow> lt (ik_user a) (ik_user b) \<or> eqv (ik_user a) (ik_user b) \<and> ik_num b < ik_num a"
  unfolding mem.lt_def mem_cmp [OF assms(1,2)] by (rule icmp_neg [OF assms(3,4)])

lemma entry_good: "entry_fits e \<Longrightarrow> good (e_user e) \<Longrightarrow> mt_good good (entry_bytes e)"
  by (simp add: mt_good_def mt_key_entry) (simp add: e_key_def)

lemma entry_distinct:
  assumes "entry_fits e" and "entry_fits e'" and "good (e_user e)" and "good (e_user e')" and "e_seq e \<noteq> e_seq e'"
  shows "\<not> mem.eqv (entry_bytes e) (entry_bytes e')"
proof
  assume "mem.eqv (entry_bytes e) (entry_bytes e')"
  then have "icmp (e_key e) (e_key e') = Some 0"
    using mem_cmp [OF mt_key_entry [OF assms(1)] mt_key_entry [OF assms(2)]] by (simp add: mem.eqv_def)
  moreover obtain r where "cmp (e_user e) (e_user e') = Some r" using cmp_total assms(3,4) by blast
  ultimately have "tag_num (e_seq e) (e_type e) = tag_num (e_seq e') (e_type e')"
    using icmp_some [of "e_key e" "e_key e'" r] assms(3,4) by (auto simp: e_key_def split: if_splits)
  then show False
    using tag_num_parts(1) assms by (metis entry_fits_def kMax_bits)
qed

lemma holds_Add:
  assumes "mt_holds cmp good mt es" and "entry_fits e" and "good (e_user e)"
    and "\<And>e'. e' \<in> set es \<Longrightarrow> e_seq e' \<noteq> e_seq e"
  shows "\<exists>mt'. MemTable_Add cmp mt (e_seq e) (e_type e) (e_user e) (e_value e) = Some mt' \<and>
    mt_holds cmp good mt' (e # es)"
proof -
  from assms(1) obtain ks where ks: "sl_holds (mt_KeyComparator cmp) (mt_good good) (mt_table mt) ks"
      "set ks = entry_bytes ` set es" and es: "\<And>e'. e' \<in> set es \<Longrightarrow> entry_fits e' \<and> good (e_user e')"
    by (auto simp: mt_holds_def)
  have "\<not> mem.eqv (entry_bytes e) j" if j: "j \<in> set ks" for j
  proof -
    obtain e' where e': "j = entry_bytes e'" "e' \<in> set es" using j ks(2) by auto
    show ?thesis unfolding e'(1)
      using entry_distinct [OF assms(2) _ assms(3)] es [OF e'(2)] assms(4) [OF e'(2)] by metis
  qed
  from mem.holds_Insert [OF ks(1) entry_good [OF assms(2,3)] this] obtain t where
    t: "Insert (mt_KeyComparator cmp) (mt_table mt) (entry_bytes e) = Some t"
    "sl_holds (mt_KeyComparator cmp) (mt_good good) t (ins_key (mt_KeyComparator cmp) (entry_bytes e) ks)" by blast
  have "set (ins_key (mt_KeyComparator cmp) (entry_bytes e) ks) = entry_bytes ` set (e # es)"
    unfolding ins_key_def using ks(2)
    by (metis (no_types, lifting) Un_insert_right image_insert list.simps(15) set_append takeWhile_dropWhile_id)
  then show ?thesis
    using t assms(2,3) es Add_entry [OF assms(2), of cmp mt] by (auto simp: mt_holds_def)
qed

lemma lookup_shape:
  assumes "LookupKey_new u snap = Some lk" and "snap \<le> kMaxSequenceNumber" and "length u + 8 < 2 ^ 32"
  shows "mt_GetLengthPrefixedSlice (LookupKey_memtable_key lk) = Some (mk_ikey u snap kTypeValue, [])"
    and "LookupKey_user_key lk = u"
proof -
  have s: "unat snap < 2 ^ 56" using assms(2) by (simp only: kMax_bits)
  have lk: "lk = \<lparr>lk_bytes = EncodeVarint32 (of_nat (length (mk_ikey u snap kTypeValue))) @ mk_ikey u snap kTypeValue @ [],
      lk_kstart = length (EncodeVarint32 (of_nat (length (mk_ikey u snap kTypeValue))))\<rparr>"
    using LookupKey_new_eq [OF s, of u] assms(1) by simp
  show "mt_GetLengthPrefixedSlice (LookupKey_memtable_key lk) = Some (mk_ikey u snap kTypeValue, [])"
    unfolding lk LookupKey_memtable_key_def LookupKey.simps by (rule mt_Get_prefix) (use assms(3) in simp)
  show "LookupKey_user_key lk = u"
    unfolding lk by (simp add: LookupKey_user_key_def) (simp add: mk_ikey_def)
qed

text \<open>Where an entry stands relative to the lookup key.\<close>

lemma entry_before_lookup:
  assumes "entry_fits e" and "good (e_user e)" and "good u" and "snap \<le> kMaxSequenceNumber"
    and "mt_GetLengthPrefixedSlice p = Some (mk_ikey u snap kTypeValue, [])"
  shows "mem.lt (entry_bytes e) p \<longleftrightarrow> lt (e_user e) u \<or> eqv (e_user e) u \<and> snap < e_seq e"
proof -
  have b: "unat snap < 2 ^ 56" "unat (e_seq e) < 2 ^ 56" using assms(1,4) by (simp_all add: entry_fits_def kMax_bits)
  have "tag_num snap kTypeValue < tag_num (e_seq e) (e_type e) \<longleftrightarrow> snap < e_seq e"
    using tag_num_order [OF b, of kTypeValue "e_type e"] by (cases "e_type e") auto
  with mem_lt [OF mt_key_entry [OF assms(1)] assms(5)] assms(2,3) show ?thesis by (simp add: e_key_def)
qed

lemma entry_le_newer:
  assumes "entry_fits e" and "entry_fits e'" and "good (e_user e)" and "good (e_user e')"
    and "mem.le (entry_bytes e) (entry_bytes e')"
  shows "\<not> lt (e_user e') (e_user e)" and "eqv (e_user e') (e_user e) \<Longrightarrow> e_seq e' \<le> e_seq e"
proof -
  have b: "unat (e_seq e) < 2 ^ 56" "unat (e_seq e') < 2 ^ 56" using assms(1,2) by (simp_all add: entry_fits_def kMax_bits)
  have "\<not> mem.lt (entry_bytes e') (entry_bytes e)"
    using assms(5) mem.le_not_lt [OF entry_good [OF assms(1,3)] entry_good [OF assms(2,4)]] by simp
  then have "\<not> (lt (e_user e') (e_user e) \<or> eqv (e_user e') (e_user e) \<and>
      tag_num (e_seq e) (e_type e) < tag_num (e_seq e') (e_type e'))"
    using mem_lt [OF mt_key_entry [OF assms(2)] mt_key_entry [OF assms(1)]] assms(3,4) by (simp add: e_key_def)
  then show "\<not> lt (e_user e') (e_user e)" "eqv (e_user e') (e_user e) \<Longrightarrow> e_seq e' \<le> e_seq e"
    using tag_num_order [OF b, of "e_type e" "e_type e'"] by (auto simp: not_less)
qed

lemma holds_Get:
  assumes "mt_holds cmp good mt es" and "good u" and "snap \<le> kMaxSequenceNumber" and "length u + 8 < 2 ^ 32"
    and "LookupKey_new u snap = Some lk"
  shows "\<exists>r. MemTable_Get cmp mt lk = Some r \<and>
    (if \<exists>e \<in> set es. e_visible cmp u snap e
     then \<exists>e \<in> set es. e_visible cmp u snap e \<and> (\<forall>e' \<in> set es. e_visible cmp u snap e' \<longrightarrow> e_seq e' \<le> e_seq e) \<and> r = e_result e
     else r = Missing)"
proof -
  from assms(1) obtain ks where ks: "sl_holds (mt_KeyComparator cmp) (mt_good good) (mt_table mt) ks"
      "set ks = entry_bytes ` set es" and es: "\<And>e. e \<in> set es \<Longrightarrow> entry_fits e \<and> good (e_user e)"
    by (auto simp: mt_holds_def)
  note L = lookup_shape [OF assms(5,3,4)]
  let ?p = "LookupKey_memtable_key lk"
  let ?n = "length (takeWhile (\<lambda>j. key_lt (mt_KeyComparator cmp) j ?p) ks)"
  have gp: "mt_good good ?p" using L(1) assms(2) by (simp add: mt_good_def)
  obtain ns where ns: "cursor_ok (mt_KeyComparator cmp) (mt_table mt) ks ns"
      "SLIter_Seek (mt_KeyComparator cmp) (mt_table mt) ?p = Some (node_at ns ?n)"
    using mem.holds_cursor [OF ks(1)] gp by metis
  have len: "length ns = length ks" using ns(1) by (simp add: cursor_ok_def)
  have vis: "\<not> mem.lt (entry_bytes e) ?p" if "e \<in> set es" "e_visible cmp u snap e" for e
    using entry_before_lookup [OF _ _ assms(2,3) L(1)] es [OF that(1)] that(2) assms(2)
    by (auto simp: e_visible_def eqv_def lt_def)
  have first: "?n < length ks \<and> \<not> mem.lt (ks ! ?n) ?p \<and> mem.le (ks ! ?n) (entry_bytes e)"
    if "e \<in> set es" "e_visible cmp u snap e" for e
    by (rule mem.first_not_before [OF mem.holds_sorted [OF ks(1)] gp refl]) (use that ks(2) vis in auto)
  show ?thesis
  proof (cases "?n < length ks")
    case False
    then have "MemTable_Get cmp mt lk = Some Missing"
      using ns(2) len by (simp add: MemTable_Get_def node_at_def SLIter_Valid_def)
    with first False show ?thesis by auto
  next
    case True
    then obtain e where e: "e \<in> set es" "ks ! ?n = entry_bytes e" using ks(2) nth_mem [OF True] by auto
    have E: "entry_fits e" "good (e_user e)" using es [OF e(1)] by auto
    obtain r where r: "cmp (e_user e) u = Some r" using cmp_total E(2) assms(2) by blast
    have seek: "SLIter_Seek (mt_KeyComparator cmp) (mt_table mt) ?p = Some (Some (ns ! ?n))"
      "SLIter_key (mt_table mt) (Some (ns ! ?n)) = Some (entry_bytes e)"
      using ns len True e(2) by (auto simp: node_at_def cursor_ok_def)
    have get: "MemTable_Get cmp mt lk = Some (if r = 0 then e_result e else Missing)"
      using MemTable_Get_at [OF seek E(1)] r L(2) by simp
    have "\<not> mem.lt (entry_bytes e) ?p"
      using nth_length_takeWhile [of "\<lambda>j. key_lt (mt_KeyComparator cmp) j ?p" ks] True e(2) by (simp add: mem.key_lt_lt)
    then have above: "\<not> lt (e_user e) u" "eqv (e_user e) u \<Longrightarrow> e_seq e \<le> snap"
      using entry_before_lookup [OF E assms(2,3) L(1)] by (auto simp: not_less)
    have newest: "eqv (e_user e) u \<and> e_seq e' \<le> e_seq e" if e': "e' \<in> set es" "e_visible cmp u snap e'" for e'
    proof -
      have f: "entry_fits e'" "good (e_user e')" "eqv (e_user e') u"
        using es [OF e'(1)] e'(2) by (auto simp: e_visible_def eqv_def)
      have le: "mem.le (entry_bytes e) (entry_bytes e')" using first [OF e'] e(2) by simp
      note N = entry_le_newer [OF E(1) f(1) E(2) f(2) le]
      have "eqv (e_user e') (e_user e)" "eqv (e_user e) u"
        using N(1) above(1) f(2,3) E(2) assms(2) by (metis eqv_iff le_not_lt le_trans)+
      then show ?thesis using N(2) by blast
    qed
    show ?thesis
    proof (cases "r = 0")
      case True
      then have "e_visible cmp u snap e" using r above(2) by (simp add: e_visible_def eqv_def)
      with True get e(1) newest show ?thesis by auto
    next
      case False
      then have "\<not> (\<exists>e \<in> set es. e_visible cmp u snap e)" using newest r by (auto simp: eqv_def)
      with False get show ?thesis by auto
    qed
  qed
qed

end

lemma MemTable_new_holds: "\<exists>mt. MemTable_new = Some mt \<and> mt_refs mt = 0 \<and> mt_holds cmp good mt []"
  using new_holds [of "[]" "mt_KeyComparator cmp" "mt_good good"]
  by (auto simp: MemTable_new_def mt_holds_def)

subsection \<open>Properties\<close>

text \<open>
  C19: adding an entry to a memtable keeps all others and the order of the list: for an entry with a
  new sequence number, \<open>Add\<close> fills its buffer exactly, inserts without a failed assertion, and the
  table then holds that entry and the previous ones.
\<close>
theorem memtable_Add_holds:
  assumes "key_comparator cmp good" and "mt_holds cmp good mt es"
    and "entry_fits e" and "good (e_user e)" and "\<forall>e' \<in> set es. e_seq e' \<noteq> e_seq e"
  shows "\<exists>mt'. MemTable_Add cmp mt (e_seq e) (e_type e) (e_user e) (e_value e) = Some mt' \<and>
    mt_holds cmp good mt' (e # es)"
  using key_comparator.holds_Add [OF assms(1-4)] assms(5) by blast

definition demo_entry :: entry where
  "demo_entry = \<lparr>e_user = [97], e_seq = 7, e_type = kTypeValue, e_value = [1, 2]\<rparr>"

lemma demo_entry_fits: "entry_fits demo_entry"
  by (simp add: entry_fits_def demo_entry_def kMaxSequenceNumber_def)

theorem memtable_Add_holds_witness:
  "\<exists>mt mt'. MemTable_new = Some mt \<and> MemTable_Add Bytewise_Compare mt 7 kTypeValue [97] [1, 2] = Some mt' \<and>
    mt_holds Bytewise_Compare (\<lambda>_. True) mt' [demo_entry]"
proof -
  obtain mt where mt: "MemTable_new = Some mt" "mt_holds Bytewise_Compare (\<lambda>_. True) mt []"
    using MemTable_new_holds [of Bytewise_Compare "\<lambda>_. True"] by blast
  from memtable_Add_holds [OF bytewise.key_comparator_axioms mt(2) demo_entry_fits] mt(1) show ?thesis
    by (auto simp: demo_entry_def)
qed

text \<open>
  C20: a lookup sees the newest visible entry. \<open>Get\<close> at a snapshot returns the value, or the
  deletion, of the entry with the largest sequence number among those of the user key that are not
  newer than the snapshot, and reports nothing if there is none; later entries are never returned.
\<close>
theorem memtable_Get_newest:
  assumes "key_comparator cmp good" and "mt_holds cmp good mt es"
    and "good u" and "snap \<le> kMaxSequenceNumber" and "length u + 8 < 2 ^ 32" and "LookupKey_new u snap = Some lk"
  shows "\<exists>r. MemTable_Get cmp mt lk = Some r \<and>
    (if \<exists>e \<in> set es. e_visible cmp u snap e
     then \<exists>e \<in> set es. e_visible cmp u snap e \<and>
       (\<forall>e' \<in> set es. e_visible cmp u snap e' \<longrightarrow> e_seq e' \<le> e_seq e) \<and> r = e_result e
     else r = Missing)"
  by (rule key_comparator.holds_Get [OF assms])

theorem memtable_Get_newest_witness:
  "\<exists>mt mt' lk. MemTable_new = Some mt \<and> MemTable_Add Bytewise_Compare mt 7 kTypeValue [97] [1, 2] = Some mt' \<and>
    LookupKey_new [97] 9 = Some lk \<and> MemTable_Get Bytewise_Compare mt' lk = Some (Found [1, 2])"
proof -
  obtain mt where mt: "MemTable_new = Some mt" "mt_holds Bytewise_Compare (\<lambda>_. True) mt []"
    using MemTable_new_holds [of Bytewise_Compare "\<lambda>_. True"] by blast
  obtain mt' where mt': "MemTable_Add Bytewise_Compare mt 7 kTypeValue [97] [1, 2] = Some mt'"
      "mt_holds Bytewise_Compare (\<lambda>_. True) mt' [demo_entry]"
    using bytewise.holds_Add [OF mt(2) demo_entry_fits] by (auto simp: demo_entry_def)
  obtain lk where lk: "LookupKey_new [97] 9 = Some lk" using LookupKey_new_eq [of 9 "[97]"] by auto
  have "\<exists>e \<in> set [demo_entry]. e_visible Bytewise_Compare [97] 9 e"
    by (simp add: e_visible_def demo_entry_def Bytewise_Compare_def slice_compare_def)
  with memtable_Get_newest [OF bytewise.key_comparator_axioms mt'(2) TrueI _ _ lk]
  have "MemTable_Get Bytewise_Compare mt' lk = Some (e_result demo_entry)"
    by (auto simp: kMaxSequenceNumber_def)
  with mt(1) mt'(1) lk show ?thesis by (auto simp: e_result_def demo_entry_def)
qed

end
