(* ===== verification/Ldb_Status.thy ===== *)
theory Ldb_Status
  imports Ldb_Coding
begin

text \<open>
  The result type of leveldb (\<open>include/leveldb/status.h\<close>, \<open>util/status.cc\<close>). A status is a null
  pointer for success, or the bytes of a heap array: four for the length of the message, one for the
  code, then the message. Sizes are 32-bit numbers, as in the code; writing or reading past the
  allocated array is undefined.
\<close>

datatype Code = kOk | kNotFound | kCorruption | kNotSupported | kInvalidArgument | kIOError

fun code_byte :: "Code \<Rightarrow> byte" where
  "code_byte kOk = 0"
| "code_byte kNotFound = 1"
| "code_byte kCorruption = 2"
| "code_byte kNotSupported = 3"
| "code_byte kInvalidArgument = 4"
| "code_byte kIOError = 5"

type_synonym Status = "byte list option"

definition bytes_of_string :: "string \<Rightarrow> byte list" where
  "bytes_of_string s = map of_char s"

definition Status_OK :: Status where
  "Status_OK = None"

definition Status_new :: "Code \<Rightarrow> slice \<Rightarrow> slice \<Rightarrow> Status option" where
  "Status_new code msg msg2 =
     (if code = kOk then None
      else
        let len1 = of_nat (length msg) :: 32 word;
            len2 = of_nat (length msg2) :: 32 word;
            size = len1 + (if len2 \<noteq> 0 then 2 + len2 else 0);
            result = bytes_of_word 4 size @ [code_byte code] @ take (unat len1) msg @
              (if len2 \<noteq> 0 then bytes_of_string '': '' @ take (unat len2) msg2 else [])
        in if length result \<le> unat (size + 5) then Some (Some result) else None)"

definition Status_NotFound :: "slice \<Rightarrow> slice \<Rightarrow> Status option" where
  "Status_NotFound msg msg2 = Status_new kNotFound msg msg2"

definition Status_Corruption :: "slice \<Rightarrow> slice \<Rightarrow> Status option" where
  "Status_Corruption msg msg2 = Status_new kCorruption msg msg2"

definition Status_NotSupported :: "slice \<Rightarrow> slice \<Rightarrow> Status option" where
  "Status_NotSupported msg msg2 = Status_new kNotSupported msg msg2"

definition Status_InvalidArgument :: "slice \<Rightarrow> slice \<Rightarrow> Status option" where
  "Status_InvalidArgument msg msg2 = Status_new kInvalidArgument msg msg2"

definition Status_IOError :: "slice \<Rightarrow> slice \<Rightarrow> Status option" where
  "Status_IOError msg msg2 = Status_new kIOError msg msg2"

definition Status_ok :: "Status \<Rightarrow> bool" where
  "Status_ok s \<longleftrightarrow> s = None"

lemma Status_ok_OK [simp]: "Status_ok Status_OK"
  by (simp add: Status_ok_def Status_OK_def)

definition Status_code :: "Status \<Rightarrow> byte option" where
  "Status_code s = (case s of None \<Rightarrow> Some (code_byte kOk) | Some st \<Rightarrow> slice_at st 4)"

definition Status_Is :: "Code \<Rightarrow> Status \<Rightarrow> bool option" where
  "Status_Is c s = do { b \<leftarrow> Status_code s; Some (b = code_byte c) }"

definition CopyState :: "byte list \<Rightarrow> byte list option" where
  "CopyState state =
     (if length state < 4 then None
      else let size = word_of_bytes (take 4 state) :: 32 word in
        if unat (size + 5) \<le> length state then Some (take (unat (size + 5)) state) else None)"

definition Status_copy :: "Status \<Rightarrow> Status option" where
  "Status_copy s = (case s of None \<Rightarrow> Some None | Some st \<Rightarrow> map_option Some (CopyState st))"

definition code_name :: "byte \<Rightarrow> string option" where
  "code_name c =
     (if c = code_byte kOk then Some ''OK''
      else if c = code_byte kNotFound then Some ''NotFound: ''
      else if c = code_byte kCorruption then Some ''Corruption: ''
      else if c = code_byte kNotSupported then Some ''Not implemented: ''
      else if c = code_byte kInvalidArgument then Some ''Invalid argument: ''
      else if c = code_byte kIOError then Some ''IO error: ''
      else None)"

text \<open>The text of an unknown code is made by \<open>snprintf\<close>, a parameter.\<close>

definition Status_ToString :: "(byte \<Rightarrow> string) \<Rightarrow> Status \<Rightarrow> byte list option" where
  "Status_ToString unknown s =
     (case s of None \<Rightarrow> Some (bytes_of_string ''OK'')
      | Some st \<Rightarrow> do {
          c \<leftarrow> Status_code s;
          let type = (case code_name c of Some n \<Rightarrow> n | None \<Rightarrow> unknown c);
          if length st < 4 then None
          else let len = unat (word_of_bytes (take 4 st) :: 32 word) in
            if 5 + len \<le> length st then Some (bytes_of_string type @ take len (drop 5 st)) else None
        })"

subsection \<open>What a status carries\<close>

definition full_message :: "slice \<Rightarrow> slice \<Rightarrow> slice" where
  "full_message msg msg2 = msg @ (if msg2 = [] then [] else bytes_of_string '': '' @ msg2)"

lemma Status_new_eq:
  assumes "code \<noteq> kOk" and "length msg + length msg2 + 7 < 2 ^ 32"
  shows "Status_new code msg msg2 =
    Some (Some (bytes_of_word 4 (of_nat (length (full_message msg msg2)) :: 32 word) @ [code_byte code] @ full_message msg msg2))"
proof -
  let ?l1 = "of_nat (length msg) :: 32 word" and ?l2 = "of_nat (length msg2) :: 32 word"
  have l: "unat ?l1 = length msg" "unat ?l2 = length msg2" using assms(2) by (simp_all add: unat_of_nat)
  have z: "?l2 \<noteq> 0 \<longleftrightarrow> msg2 \<noteq> []" using l(2) by (auto simp: word_unat_eq_iff)
  have size: "?l1 + (if ?l2 \<noteq> 0 then 2 + ?l2 else 0) = of_nat (length (full_message msg msg2))"
    unfolding z full_message_def by (simp add: bytes_of_string_def)
  have "unat (of_nat (length (full_message msg msg2)) + 5 :: 32 word) = length (full_message msg msg2) + 5"
  proof -
    have "of_nat (length (full_message msg msg2)) + 5 = (of_nat (length (full_message msg msg2) + 5) :: 32 word)" by simp
    moreover have "length (full_message msg msg2) + 5 < 2 ^ 32"
      using assms(2) by (simp add: full_message_def bytes_of_string_def)
    ultimately show ?thesis unfolding unat_of_nat by (simp only: unat_of_nat) simp
  qed
  moreover have "take (unat ?l1) msg @ (if ?l2 \<noteq> 0 then bytes_of_string '': '' @ take (unat ?l2) msg2 else []) = full_message msg msg2"
    unfolding z l full_message_def by simp
  ultimately show ?thesis
    using assms(1) unfolding Status_new_def Let_def size by simp
qed

lemma Status_parts:
  assumes "length m + 5 < 2 ^ 32"
  shows "Status_code (Some (bytes_of_word 4 (of_nat (length m) :: 32 word) @ [c] @ m)) = Some c"
    and "CopyState (bytes_of_word 4 (of_nat (length m) :: 32 word) @ [c] @ m) =
      Some (bytes_of_word 4 (of_nat (length m) :: 32 word) @ [c] @ m)"
proof -
  let ?n = "of_nat (length m) :: 32 word"
  have n: "unat (?n + 5) = length m + 5"
  proof -
    have "?n + 5 = of_nat (length m + 5)" by simp
    then show ?thesis using assms by (simp only: unat_of_nat) simp
  qed
  have four: "take 4 (bytes_of_word 4 ?n @ [c] @ m) = bytes_of_word 4 ?n" by simp
  have w: "word_of_bytes (bytes_of_word 4 ?n) = ?n" by (rule word_of_bytes_inverse) simp
  show "Status_code (Some (bytes_of_word 4 ?n @ [c] @ m)) = Some c"
    by (simp add: Status_code_def slice_at_def nth_append)
  show "CopyState (bytes_of_word 4 ?n @ [c] @ m) = Some (bytes_of_word 4 ?n @ [c] @ m)"
    unfolding CopyState_def four w Let_def n by simp
qed

lemma short_corruption:
  assumes "length msg < 1000"
  shows "\<exists>s. Status_Corruption msg [] = Some s \<and> Status_Is kCorruption s = Some True \<and> \<not> Status_ok s"
  using Status_new_eq [of kCorruption msg "[]"] Status_parts(1) [of msg] assms
  by (simp add: Status_Corruption_def full_message_def Status_Is_def Status_ok_def)

end
