(* ===== verification/Ldb_Write_Batch.thy ===== *)
theory Ldb_Write_Batch
  imports Ldb_Memtable Ldb_Status
begin

text \<open>
  Write batches (\<open>db/write_batch.cc\<close>, \<open>db/write_batch_internal.h\<close>): a string of a sequence number, a
  count and records, built by \<open>Put\<close> and \<open>Delete\<close>, read by \<open>Iterate\<close> and applied to a memtable by
  \<open>InsertInto\<close>. The handler of an iteration is a pair of functions on a state of its own; \<open>int\<close>
  counters overflow into undefined behaviour.
\<close>

subsection \<open>The representation\<close>

type_synonym write_batch = "byte list"

definition kHeader :: nat where
  "kHeader = 12"

definition WriteBatch_Clear :: write_batch where
  "WriteBatch_Clear = replicate kHeader 0"

definition WB_Count :: "write_batch \<Rightarrow> int option" where
  "WB_Count b = map_option sint (DecodeFixed32 kLittleEndian (drop 8 b))"

definition WB_SetCount :: "write_batch \<Rightarrow> int \<Rightarrow> write_batch option" where
  "WB_SetCount b n =
     (if 12 \<le> length b then Some (take 8 b @ EncodeFixed32 kLittleEndian (word_of_int n) @ drop 12 b) else None)"

definition WB_Sequence :: "write_batch \<Rightarrow> 64 word option" where
  "WB_Sequence b = DecodeFixed64 kLittleEndian b"

definition WB_SetSequence :: "write_batch \<Rightarrow> 64 word \<Rightarrow> write_batch option" where
  "WB_SetSequence b seq =
     (if 8 \<le> length b then Some (EncodeFixed64 kLittleEndian seq @ drop 8 b) else None)"

definition WB_Contents :: "write_batch \<Rightarrow> slice" where
  "WB_Contents b = b"

definition WB_ByteSize :: "write_batch \<Rightarrow> nat" where
  "WB_ByteSize b = length b"

text \<open>Addition at \<open>int\<close>.\<close>

definition int_add :: "int \<Rightarrow> int \<Rightarrow> int option" where
  "int_add a b = (if - 2147483648 \<le> a + b \<and> a + b \<le> 2147483647 then Some (a + b) else None)"

definition WriteBatch_Put :: "write_batch \<Rightarrow> slice \<Rightarrow> slice \<Rightarrow> write_batch option" where
  "WriteBatch_Put b key val = do {
     c \<leftarrow> WB_Count b;
     c' \<leftarrow> int_add c 1;
     b1 \<leftarrow> WB_SetCount b c';
     Some (PutLengthPrefixedSlice (PutLengthPrefixedSlice (b1 @ [vt_code kTypeValue]) key) val)
   }"

definition WriteBatch_Delete :: "write_batch \<Rightarrow> slice \<Rightarrow> write_batch option" where
  "WriteBatch_Delete b key = do {
     c \<leftarrow> WB_Count b;
     c' \<leftarrow> int_add c 1;
     b1 \<leftarrow> WB_SetCount b c';
     Some (PutLengthPrefixedSlice (b1 @ [vt_code kTypeDeletion]) key)
   }"

definition WB_SetContents :: "slice \<Rightarrow> write_batch option" where
  "WB_SetContents contents = (if kHeader \<le> length contents then Some contents else None)"

definition WB_Append :: "write_batch \<Rightarrow> write_batch \<Rightarrow> write_batch option" where
  "WB_Append dst src = do {
     c \<leftarrow> WB_Count dst;
     c' \<leftarrow> WB_Count src;
     n \<leftarrow> int_add c c';
     dst' \<leftarrow> WB_SetCount dst n;
     if kHeader \<le> length src then Some (dst' @ drop kHeader src) else None
   }"

subsection \<open>Iteration\<close>

definition wb_corrupt :: "string \<Rightarrow> 'h \<Rightarrow> ((Status + int) \<times> 'h) option" where
  "wb_corrupt msg h = do { s \<leftarrow> Status_Corruption (bytes_of_string msg) []; Some (Inl s, h) }"

text \<open>The loop ends with a status, or with the number of records found.\<close>

partial_function (option) wb_loop ::
  "('h \<Rightarrow> slice \<Rightarrow> slice \<Rightarrow> 'h option) \<Rightarrow> ('h \<Rightarrow> slice \<Rightarrow> 'h option) \<Rightarrow> int \<Rightarrow> 'h \<Rightarrow> slice \<Rightarrow>
    ((Status + int) \<times> 'h) option" where
  "wb_loop put del found h input =
     (if slice_empty input then Some (Inr found, h)
      else do {
        found' \<leftarrow> int_add found 1;
        tag \<leftarrow> slice_at input 0;
        input1 \<leftarrow> remove_prefix input 1;
        if tag = vt_code kTypeValue then
          (case GetLengthPrefixedSlice input1 of
             None \<Rightarrow> wb_corrupt ''bad WriteBatch Put'' h
           | Some (key, input2) \<Rightarrow>
               (case GetLengthPrefixedSlice input2 of
                  None \<Rightarrow> wb_corrupt ''bad WriteBatch Put'' h
                | Some (val, input3) \<Rightarrow> do {
                    h' \<leftarrow> put h key val;
                    wb_loop put del found' h' input3
                  }))
        else if tag = vt_code kTypeDeletion then
          (case GetLengthPrefixedSlice input1 of
             None \<Rightarrow> wb_corrupt ''bad WriteBatch Delete'' h
           | Some (key, input2) \<Rightarrow> do {
               h' \<leftarrow> del h key;
               wb_loop put del found' h' input2
             })
        else wb_corrupt ''unknown WriteBatch tag'' h
      })"

definition WriteBatch_Iterate ::
  "('h \<Rightarrow> slice \<Rightarrow> slice \<Rightarrow> 'h option) \<Rightarrow> ('h \<Rightarrow> slice \<Rightarrow> 'h option) \<Rightarrow> 'h \<Rightarrow> write_batch \<Rightarrow> (Status \<times> 'h) option" where
  "WriteBatch_Iterate put del h b =
     (if length b < kHeader then do {
        s \<leftarrow> Status_Corruption (bytes_of_string ''malformed WriteBatch (too small)'') [];
        Some (s, h)
      }
      else do {
        input \<leftarrow> remove_prefix b kHeader;
        (r, h') \<leftarrow> wb_loop put del 0 h input;
        (case r of
           Inl s \<Rightarrow> Some (s, h')
         | Inr found \<Rightarrow> do {
             count \<leftarrow> WB_Count b;
             if found \<noteq> count then do {
               s \<leftarrow> Status_Corruption (bytes_of_string ''WriteBatch has wrong count'') [];
               Some (s, h')
             }
             else Some (Status_OK, h')
           })
      })"

text \<open>The handler that applies a batch to a memtable.\<close>

definition Inserter_Put ::
  "(slice \<Rightarrow> slice \<Rightarrow> int option) \<Rightarrow> 64 word \<times> memtable \<Rightarrow> slice \<Rightarrow> slice \<Rightarrow> (64 word \<times> memtable) option" where
  "Inserter_Put ucmp h key val = (case h of (seq, mem) \<Rightarrow> do {
     mem' \<leftarrow> MemTable_Add ucmp mem seq kTypeValue key val;
     Some (seq + 1, mem')
   })"

definition Inserter_Delete ::
  "(slice \<Rightarrow> slice \<Rightarrow> int option) \<Rightarrow> 64 word \<times> memtable \<Rightarrow> slice \<Rightarrow> (64 word \<times> memtable) option" where
  "Inserter_Delete ucmp h key = (case h of (seq, mem) \<Rightarrow> do {
     mem' \<leftarrow> MemTable_Add ucmp mem seq kTypeDeletion key [];
     Some (seq + 1, mem')
   })"

definition WB_InsertInto ::
  "(slice \<Rightarrow> slice \<Rightarrow> int option) \<Rightarrow> write_batch \<Rightarrow> memtable \<Rightarrow> (Status \<times> memtable) option" where
  "WB_InsertInto ucmp b mem = do {
     seq \<leftarrow> WB_Sequence b;
     (s, (_, mem')) \<leftarrow> WriteBatch_Iterate (Inserter_Put ucmp) (Inserter_Delete ucmp) (seq, mem) b;
     Some (s, mem')
   }"

subsection \<open>The records a batch holds\<close>

datatype wb_op = WPut slice slice | WDelete slice

fun wb_apply :: "write_batch \<Rightarrow> wb_op \<Rightarrow> write_batch option" where
  "wb_apply b (WPut k v) = WriteBatch_Put b k v"
| "wb_apply b (WDelete k) = WriteBatch_Delete b k"

fun wb_build :: "write_batch \<Rightarrow> wb_op list \<Rightarrow> write_batch option" where
  "wb_build b [] = Some b"
| "wb_build b (r # rs) = wb_apply b r \<bind> (\<lambda>b'. wb_build b' rs)"

fun op_bytes :: "wb_op \<Rightarrow> byte list" where
  "op_bytes (WPut k v) = vt_code kTypeValue # PutLengthPrefixedSlice [] k @ PutLengthPrefixedSlice [] v"
| "op_bytes (WDelete k) = vt_code kTypeDeletion # PutLengthPrefixedSlice [] k"

fun op_fits :: "wb_op \<Rightarrow> bool" where
  "op_fits (WPut k v) \<longleftrightarrow> length k + 8 < 2 ^ 32 \<and> length v < 2 ^ 32"
| "op_fits (WDelete k) \<longleftrightarrow> length k + 8 < 2 ^ 32"

fun run_ops :: "('h \<Rightarrow> slice \<Rightarrow> slice \<Rightarrow> 'h option) \<Rightarrow> ('h \<Rightarrow> slice \<Rightarrow> 'h option) \<Rightarrow> 'h \<Rightarrow> wb_op list \<Rightarrow> 'h option" where
  "run_ops put del h [] = Some h"
| "run_ops put del h (WPut k v # rs) = put h k v \<bind> (\<lambda>h'. run_ops put del h' rs)"
| "run_ops put del h (WDelete k # rs) = del h k \<bind> (\<lambda>h'. run_ops put del h' rs)"

definition wb_rep :: "64 word \<Rightarrow> wb_op list \<Rightarrow> write_batch" where
  "wb_rep seq rs = EncodeFixed64 kLittleEndian seq @ EncodeFixed32 kLittleEndian (of_nat (length rs)) @
     concat (map op_bytes rs)"

lemma sint_of_nat: "n < 2 ^ 31 \<Longrightarrow> sint (of_nat n :: 32 word) = int n"
  by (simp add: signed_of_nat signed_take_bit_int_eq_self)

lemma Count_rep:
  assumes "length rs < 2 ^ 31"
  shows "WB_Count (wb_rep seq rs) = Some (int (length rs))"
proof -
  have "drop 8 (wb_rep seq rs) = EncodeFixed32 kLittleEndian (of_nat (length rs)) @ concat (map op_bytes rs)"
    by (simp add: wb_rep_def)
  then show ?thesis using sint_of_nat [OF assms] by (simp add: WB_Count_def)
qed

lemma SetCount_rep:
  "WB_SetCount (wb_rep seq rs) n =
     Some (EncodeFixed64 kLittleEndian seq @ EncodeFixed32 kLittleEndian (word_of_int n) @ concat (map op_bytes rs))"
  by (simp add: WB_SetCount_def wb_rep_def)

lemma apply_rep:
  assumes "length rs + 1 < 2 ^ 31"
  shows "wb_apply (wb_rep seq rs) r = Some (wb_rep seq (rs @ [r]))"
proof -
  have "length rs < 2 ^ 31" using assms by simp
  note C = Count_rep [OF this, of seq]
  have "int_add (int (length rs)) 1 = Some (int (length (rs @ [r])))"
    using assms by (simp add: int_add_def)
  then show ?thesis
    using C SetCount_rep [of seq rs]
    by (cases r) (simp_all add: WriteBatch_Put_def WriteBatch_Delete_def wb_rep_def
        PutLengthPrefixedSlice_def PutVarint32_def add.commute)
qed

lemma build_rep: "length rs + length rs' < 2 ^ 31 \<Longrightarrow> wb_build (wb_rep seq rs) rs' = Some (wb_rep seq (rs @ rs'))"
proof (induction rs' arbitrary: rs)
  case (Cons r rs')
  from Cons.prems Cons.IH [of "rs @ [r]"] apply_rep [of rs seq r] show ?case by simp
qed simp

lemma Clear_rep: "WriteBatch_Clear = wb_rep 0 []"
  by (simp add: WriteBatch_Clear_def kHeader_def wb_rep_def EncodeFixed64_bytes EncodeFixed32_bytes eval_nat_numeral)


lemma wb_loop_op:
  assumes "op_fits r" and "found < 2147483647" and "0 \<le> found"
  shows "wb_loop put del found h (op_bytes r @ rest) =
    run_ops put del h [r] \<bind> (\<lambda>h'. wb_loop put del (found + 1) h' rest)"
proof -
  have "int_add found 1 = Some (found + 1)" using assms(2,3) by (simp add: int_add_def)
  then show ?thesis
    using assms(1)
    by (cases r; subst wb_loop.simps) (simp_all add: slice_empty_def slice_at_def remove_prefix_def)
qed

lemma wb_loop_ops:
  assumes "\<forall>r \<in> set rs. op_fits r" and "0 \<le> found" and "found + int (length rs) \<le> 2147483647"
  shows "wb_loop put del found h (concat (map op_bytes rs)) =
    map_option (\<lambda>h'. (Inr (found + int (length rs)), h')) (run_ops put del h rs)"
  using assms
proof (induction rs arbitrary: found h)
  case Nil
  then show ?case by (subst wb_loop.simps) (simp add: slice_empty_def)
next
  case (Cons r rs)
  have "run_ops put del h (r # rs) = run_ops put del h [r] \<bind> (\<lambda>h'. run_ops put del h' rs)" by (cases r) simp_all
  with Cons wb_loop_op [of r found put del h "concat (map op_bytes rs)"] show ?case
    by (cases "run_ops put del h [r]") (simp_all add: algebra_simps)
qed

lemma Iterate_rep:
  assumes "\<forall>r \<in> set rs. op_fits r" and "length rs < 2 ^ 31"
  shows "WriteBatch_Iterate put del h (wb_rep seq rs) = map_option (\<lambda>h'. (Status_OK, h')) (run_ops put del h rs)"
proof -
  have "remove_prefix (wb_rep seq rs) kHeader = Some (concat (map op_bytes rs))" "\<not> length (wb_rep seq rs) < kHeader"
    by (simp_all add: remove_prefix_def wb_rep_def kHeader_def)
  then show ?thesis
    using wb_loop_ops [OF assms(1), of 0 put del h] assms(2) Count_rep [OF assms(2), of seq]
    by (cases "run_ops put del h rs") (simp_all add: WriteBatch_Iterate_def)
qed

text \<open>Whatever the bytes are, the loop ends and stays inside them.\<close>

lemma GetLengthPrefixed_shorter:
  assumes "GetLengthPrefixedSlice p = Some (s, q)"
  shows "length q < length p"
proof -
  obtain len rest where r: "GetVarint32 p = Some (len, rest)" "q = drop (unat len) rest"
    using assms by (auto simp: GetLengthPrefixedSlice_def bind_eq_Some_conv remove_prefix_def split: if_splits)
  from GetVarint32_suffix [OF r(1)] obtain xs where "p = xs @ rest" "xs \<noteq> []" by blast
  with r(2) show ?thesis by (cases xs) auto
qed

lemma wb_corrupt_short:
  assumes "length msg < 1000"
  shows "\<exists>s. wb_corrupt msg h = Some (Inl s, h) \<and> Status_Is kCorruption s = Some True"
  using short_corruption [of "bytes_of_string msg"] assms by (auto simp: wb_corrupt_def bytes_of_string_def)

lemma wb_loop_total:
  assumes "\<And>h k v. put h k v \<noteq> None" and "\<And>h k. del h k \<noteq> None"
    and "0 \<le> found" and "found + int (length input) \<le> 2147483647"
  shows "\<exists>r h'. wb_loop put del found h input = Some (r, h') \<and> (\<forall>s. r = Inl s \<longrightarrow> Status_Is kCorruption s = Some True)"
  using assms(3,4)
proof (induction "length input" arbitrary: found h input rule: less_induct)
  case less
  show ?case
  proof (cases input)
    case Nil
    then show ?thesis by (subst wb_loop.simps) (simp add: slice_empty_def)
  next
    case (Cons tag inp)
    have add: "int_add found 1 = Some (found + 1)" using less.prems Cons by (simp add: int_add_def)
    note U = wb_loop.simps [of put del found h input]
    note c = wb_corrupt_short [of "''bad WriteBatch Put''" h] wb_corrupt_short [of "''bad WriteBatch Delete''" h]
      wb_corrupt_short [of "''unknown WriteBatch tag''" h]
    have step: "\<exists>r h''. wb_loop put del (found + 1) h' q = Some (r, h'') \<and> (\<forall>s. r = Inl s \<longrightarrow> Status_Is kCorruption s = Some True)"
      if "length q < length inp" for q h'
      using less.hyps [of q "found + 1" h'] less.prems that Cons by simp
    consider "tag = vt_code kTypeValue" | "tag = vt_code kTypeDeletion" | "tag \<noteq> vt_code kTypeValue" "tag \<noteq> vt_code kTypeDeletion"
      by blast
    then show ?thesis
    proof cases
      case 1
      show ?thesis
      proof (cases "GetLengthPrefixedSlice inp \<bind> (\<lambda>(k, q). map_option (\<lambda>(v, q'). (k, v, q')) (GetLengthPrefixedSlice q))")
        case None
        then show ?thesis unfolding U using Cons 1 add c(1)
          by (auto simp: slice_empty_def slice_at_def remove_prefix_def Option.bind_eq_None_conv split: option.split)
      next
        case (Some x)
        then obtain k q v q' where kv: "GetLengthPrefixedSlice inp = Some (k, q)" "GetLengthPrefixedSlice q = Some (v, q')"
          by (auto simp: bind_eq_Some_conv)
        obtain h' where "put h k v = Some h'" using assms(1) by blast
        moreover have "length q' < length inp"
          using GetLengthPrefixed_shorter [OF kv(1)] GetLengthPrefixed_shorter [OF kv(2)] by simp
        ultimately show ?thesis unfolding U using Cons 1 add kv step [of q' h']
          by (simp add: slice_empty_def slice_at_def remove_prefix_def)
      qed
    next
      case 2
      show ?thesis
      proof (cases "GetLengthPrefixedSlice inp")
        case None
        then show ?thesis unfolding U using Cons 2 add c(2)
          by (auto simp: slice_empty_def slice_at_def remove_prefix_def)
      next
        case (Some x)
        then obtain k q where kq: "GetLengthPrefixedSlice inp = Some (k, q)" by (cases x) auto
        obtain h' where "del h k = Some h'" using assms(2) by blast
        then show ?thesis unfolding U using Cons 2 add kq step [of q h'] GetLengthPrefixed_shorter [OF kq]
          by (simp add: slice_empty_def slice_at_def remove_prefix_def)
      qed
    next
      case 3
      then show ?thesis unfolding U using Cons add c(3)
        by (auto simp: slice_empty_def slice_at_def remove_prefix_def)
    qed
  qed
qed


subsection \<open>Applying a batch\<close>

fun op_entries :: "64 word \<Rightarrow> wb_op list \<Rightarrow> entry list" where
  "op_entries s [] = []"
| "op_entries s (WPut k v # rs) = \<lparr>e_user = k, e_seq = s, e_type = kTypeValue, e_value = v\<rparr> # op_entries (s + 1) rs"
| "op_entries s (WDelete k # rs) = \<lparr>e_user = k, e_seq = s, e_type = kTypeDeletion, e_value = []\<rparr> # op_entries (s + 1) rs"

fun op_key :: "wb_op \<Rightarrow> slice" where
  "op_key (WPut k v) = k"
| "op_key (WDelete k) = k"

lemma mt_holds_cong: "mt_holds cmp good mt es \<Longrightarrow> set es' = set es \<Longrightarrow> mt_holds cmp good mt es'"
  by (auto simp: mt_holds_def)

lemma op_entries_Cons:
  "\<exists>e. op_entries s (r # rs) = e # op_entries (s + 1) rs \<and> e_seq e = s \<and> e_user e = op_key r \<and>
     (op_fits r \<and> s \<le> kMaxSequenceNumber \<longrightarrow> entry_fits e) \<and>
     run_ops (Inserter_Put cmp) (Inserter_Delete cmp) (s, mt) (r # rs) = do {
       mt' \<leftarrow> MemTable_Add cmp mt (e_seq e) (e_type e) (e_user e) (e_value e);
       run_ops (Inserter_Put cmp) (Inserter_Delete cmp) (s + 1, mt') rs }"
proof (cases r)
  case (WPut k v)
  then show ?thesis
    by (intro exI [of _ "\<lparr>e_user = k, e_seq = s, e_type = kTypeValue, e_value = v\<rparr>"])
      (simp add: entry_fits_def Inserter_Put_def)
next
  case (WDelete k)
  then show ?thesis
    by (intro exI [of _ "\<lparr>e_user = k, e_seq = s, e_type = kTypeDeletion, e_value = []\<rparr>"])
      (simp add: entry_fits_def Inserter_Delete_def)
qed

context key_comparator
begin

lemma run_ops_holds:
  assumes "mt_holds cmp good mt es" and "\<forall>r \<in> set rs. op_fits r \<and> good (op_key r)"
    and "unat seq + length rs \<le> 2 ^ 56" and "\<forall>e \<in> set es. e_seq e < seq"
  shows "\<exists>h mt'. run_ops (Inserter_Put cmp) (Inserter_Delete cmp) (seq, mt) rs = Some (h, mt') \<and>
    mt_holds cmp good mt' (es @ op_entries seq rs)"
  using assms
proof (induction rs arbitrary: mt es seq)
  case (Cons r rs)
  obtain e where e: "op_entries seq (r # rs) = e # op_entries (seq + 1) rs" "e_seq e = seq" "e_user e = op_key r"
      "op_fits r \<and> seq \<le> kMaxSequenceNumber \<longrightarrow> entry_fits e"
      "run_ops (Inserter_Put cmp) (Inserter_Delete cmp) (seq, mt) (r # rs) = do {
         mt' \<leftarrow> MemTable_Add cmp mt (e_seq e) (e_type e) (e_user e) (e_value e);
         run_ops (Inserter_Put cmp) (Inserter_Delete cmp) (seq + 1, mt') rs }"
    using op_entries_Cons by blast
  have s: "unat seq < 2 ^ 56" using Cons.prems(3) by simp
  then have s1: "unat (seq + 1) = unat seq + 1" by (simp add: unat_word_ariths)
  have "entry_fits e" using e(4) Cons.prems(2) s by (simp add: kMax_bits)
  then obtain mt1 where mt1: "MemTable_Add cmp mt (e_seq e) (e_type e) (e_user e) (e_value e) = Some mt1"
      "mt_holds cmp good mt1 (e # es)"
    using holds_Add [OF Cons.prems(1)] Cons.prems(2,4) e(2,3) by fastforce
  have older: "\<forall>e' \<in> set (e # es). e_seq e' < seq + 1"
    using Cons.prems(4) e(2) s1 by (auto simp: word_less_nat_alt)
  have room: "unat (seq + 1) + length rs \<le> 2 ^ 56" "\<forall>r \<in> set rs. op_fits r \<and> good (op_key r)"
    using Cons.prems(2,3) s1 by simp_all
  from Cons.IH [OF mt1(2) room(2,1) older] obtain h mt' where
    "run_ops (Inserter_Put cmp) (Inserter_Delete cmp) (seq + 1, mt1) rs = Some (h, mt')"
    "mt_holds cmp good mt' ((e # es) @ op_entries (seq + 1) rs)" by blast
  then show ?case using e(1,5) mt1(1) mt_holds_cong [of cmp good mt' "(e # es) @ op_entries (seq + 1) rs"] by auto
qed simp

end

subsection \<open>Properties\<close>

text \<open>
  C21: a batch hands its records back. For every sequence of \<open>Put\<close> and \<open>Delete\<close> calls on an empty
  batch, \<open>Iterate\<close> calls the handler with exactly these records in this order, and returns OK; this
  holds for every handler.
\<close>
theorem write_batch_roundtrip:
  assumes "\<forall>r \<in> set rs. op_fits r" and "length rs < 2 ^ 31"
  shows "\<exists>b. wb_build WriteBatch_Clear rs = Some b \<and> WB_Count b = Some (int (length rs)) \<and>
    WriteBatch_Iterate put del h b = map_option (\<lambda>h'. (Status_OK, h')) (run_ops put del h rs)"
  using build_rep [of "[]" rs 0] Iterate_rep [OF assms] Count_rep [OF assms(2)] assms(2) by (simp add: Clear_rep)

theorem write_batch_roundtrip_witness:
  "\<exists>b. wb_build WriteBatch_Clear [WPut [97] [1], WDelete [98]] = Some b \<and>
    WriteBatch_Iterate (\<lambda>h k v. Some (h @ [(k, Some v)])) (\<lambda>h k. Some (h @ [(k, None)])) [] b =
      Some (Status_OK, [([97], Some [1]), ([98], None)])"
  using write_batch_roundtrip [of "[WPut [97] [1], WDelete [98]]" "\<lambda>h k v. Some (h @ [(k, Some v)])"
      "\<lambda>h k. Some (h @ [(k, None)])" "[]"] by auto

text \<open>
  Iterating over damaged data is safe. On any bytes, as long as the handler itself is defined,
  \<open>Iterate\<close> returns: it reads only inside the batch and reports OK or a corruption.
\<close>
theorem write_batch_Iterate_total:
  assumes "\<forall>h k v. put h k v \<noteq> None" and "\<forall>h k. del h k \<noteq> None" and "length b < 2 ^ 31"
  shows "\<exists>s h'. WriteBatch_Iterate put del h b = Some (s, h') \<and> (Status_ok s \<or> Status_Is kCorruption s = Some True)"
proof (cases "length b < kHeader")
  case True
  then show ?thesis
    using short_corruption [of "bytes_of_string ''malformed WriteBatch (too small)''"]
    by (auto simp: WriteBatch_Iterate_def bytes_of_string_def)
next
  case False
  obtain r h' where r: "wb_loop put del 0 h (drop kHeader b) = Some (r, h')"
      "\<forall>s. r = Inl s \<longrightarrow> Status_Is kCorruption s = Some True"
    using wb_loop_total [of put del 0 "drop kHeader b" h] assms False by fastforce
  obtain c where "WB_Count b = Some c"
    using False by (auto simp: WB_Count_def DecodeFixed32_bytes kHeader_def)
  with r False show ?thesis
    using short_corruption [of "bytes_of_string ''WriteBatch has wrong count''"]
    by (cases r) (auto simp: WriteBatch_Iterate_def remove_prefix_def Status_ok_def Status_OK_def bytes_of_string_def)
qed

theorem write_batch_Iterate_total_witness:
  "\<exists>s h'. WriteBatch_Iterate (\<lambda>h _ _. Some (h + 1)) (\<lambda>h _. Some (h + 1)) (0 :: nat) (replicate 12 0 @ [1, 200]) = Some (s, h') \<and>
    (Status_ok s \<or> Status_Is kCorruption s = Some True)"
  by (rule write_batch_Iterate_total) simp_all

text \<open>
  C22: the write path ends in the memtable. Applying a batch of records to a memtable whose entries
  are all older adds exactly one entry per record, with consecutive sequence numbers from the
  sequence number of the batch on, and keeps the entries that were there.
\<close>
theorem write_batch_InsertInto:
  assumes "key_comparator cmp good" and "mt_holds cmp good mt es"
    and "\<forall>r \<in> set rs. op_fits r \<and> good (op_key r)" and "length rs < 2 ^ 31"
    and "unat seq + length rs \<le> 2 ^ 56" and "\<forall>e \<in> set es. e_seq e < seq"
  shows "\<exists>b b' mt'. wb_build WriteBatch_Clear rs = Some b \<and> WB_SetSequence b seq = Some b' \<and>
    WB_InsertInto cmp b' mt = Some (Status_OK, mt') \<and> mt_holds cmp good mt' (es @ op_entries seq rs)"
proof -
  have b: "wb_build WriteBatch_Clear rs = Some (wb_rep 0 rs)" using build_rep [of "[]" rs 0] assms(4) by (simp add: Clear_rep)
  have b': "WB_SetSequence (wb_rep 0 rs) seq = Some (wb_rep seq rs)" by (simp add: WB_SetSequence_def wb_rep_def)
  have "WB_Sequence (wb_rep seq rs) = Some seq" by (simp add: WB_Sequence_def wb_rep_def)
  moreover obtain h mt' where R: "run_ops (Inserter_Put cmp) (Inserter_Delete cmp) (seq, mt) rs = Some (h, mt')"
      "mt_holds cmp good mt' (es @ op_entries seq rs)"
    using key_comparator.run_ops_holds [OF assms(1,2,3,5,6)] by blast
  ultimately have "WB_InsertInto cmp (wb_rep seq rs) mt = Some (Status_OK, mt')"
    using Iterate_rep [of rs "Inserter_Put cmp" "Inserter_Delete cmp" "(seq, mt)" seq] assms(3,4)
    by (simp add: WB_InsertInto_def)
  with b b' R(2) show ?thesis by blast
qed

theorem write_batch_InsertInto_witness:
  "\<exists>mt b b' mt'. MemTable_new = Some mt \<and> wb_build WriteBatch_Clear [WPut [97] [1], WDelete [97]] = Some b \<and>
    WB_SetSequence b 5 = Some b' \<and> WB_InsertInto Bytewise_Compare b' mt = Some (Status_OK, mt') \<and>
    mt_holds Bytewise_Compare (\<lambda>_. True) mt' (op_entries 5 [WPut [97] [1], WDelete [97]])"
proof -
  obtain mt where mt: "MemTable_new = Some mt" "mt_holds Bytewise_Compare (\<lambda>_. True) mt []"
    using MemTable_new_holds [of Bytewise_Compare "\<lambda>_. True"] by blast
  from write_batch_InsertInto [OF bytewise.key_comparator_axioms mt(2), of "[WPut [97] [1], WDelete [97]]" 5] mt(1)
  show ?thesis by auto
qed

end
