(* ===== verification/Ldb_Env.thy ===== *)
theory Ldb_Env
  imports Ldb_Status
begin

text \<open>
  The files of the environment (\<open>include/leveldb/env.h\<close>). The classes are abstract; the environment that
  implements them is not modelled. A file class is the record of its virtual functions, on a state that is
  passed explicitly.
\<close>

record 'f writable_ops =
  wf_Append :: "'f \<Rightarrow> slice \<Rightarrow> Status \<times> 'f"
  wf_Flush :: "'f \<Rightarrow> Status \<times> 'f"

record 'g sequential_ops =
  sf_Read :: "'g \<Rightarrow> nat \<Rightarrow> Status \<times> slice \<times> 'g"
  sf_Skip :: "'g \<Rightarrow> 64 word \<Rightarrow> Status \<times> 'g"

text \<open>Reading at an offset does not change the file. The flag tells whether the result is in the buffer
  the caller supplied; otherwise the file points to memory of its own.\<close>

record 'r random_access_ops =
  rf_Read :: "'r \<Rightarrow> 64 word \<Rightarrow> nat \<Rightarrow> Status \<times> slice \<times> bool"

end
