(* ===== verification/Ldb_Log.thy ===== *)
theory Ldb_Log
  imports Ldb_Crc32c Ldb_Env
begin

text \<open>
  The write-ahead log (\<open>db/log_format.h\<close>, \<open>db/log_writer.cc\<close>, \<open>db/log_reader.cc\<close>). Records are cut
  into fragments that never cross a block of 32768 bytes, each with a checksum, a length and a type.
  Files belong to the environment: the operations of a writable and of a sequential file are
  arguments of the routines. The address of data matters only to the checksum, which does not depend
  on it, and is taken as 0.
\<close>

subsection \<open>Format\<close>

datatype RecordType = kZeroType | kFullType | kFirstType | kMiddleType | kLastType

fun rt_code :: "RecordType \<Rightarrow> 8 word" where
  "rt_code kZeroType = 0"
| "rt_code kFullType = 1"
| "rt_code kFirstType = 2"
| "rt_code kMiddleType = 3"
| "rt_code kLastType = 4"

definition kMaxRecordType :: nat where
  "kMaxRecordType = 4"

definition kBlockSize :: nat where
  "kBlockSize = 32768"

definition kHeaderSize :: nat where
  "kHeaderSize = 4 + 2 + 1"

subsection \<open>The writer\<close>

record 'f log_writer =
  lw_dest :: 'f
  lw_block_offset :: nat
  lw_type_crc :: "32 word list"

definition InitTypeCrc :: "32 word list option" where
  "InitTypeCrc = those (map (\<lambda>i. crc_Value 0 [of_nat i]) [0 ..< kMaxRecordType + 1])"

definition Writer_new :: "'f \<Rightarrow> 'f log_writer option" where
  "Writer_new dest = do {
     tc \<leftarrow> InitTypeCrc;
     Some \<lparr>lw_dest = dest, lw_block_offset = 0, lw_type_crc = tc\<rparr>
   }"

definition Writer_new_at :: "'f \<Rightarrow> 64 word \<Rightarrow> 'f log_writer option" where
  "Writer_new_at dest dest_length = do {
     tc \<leftarrow> InitTypeCrc;
     Some \<lparr>lw_dest = dest, lw_block_offset = unat dest_length mod kBlockSize, lw_type_crc = tc\<rparr>
   }"

definition EmitPhysicalRecord ::
  "'f writable_ops \<Rightarrow> 'f log_writer \<Rightarrow> RecordType \<Rightarrow> slice \<Rightarrow> (Status \<times> 'f log_writer) option" where
  "EmitPhysicalRecord ops w t data =
     (let n = length data;
          nw = of_nat n :: 64 word in
      if 0xffff < n \<or> kBlockSize < lw_block_offset w + kHeaderSize + n then None
      else if length (lw_type_crc w) \<le> unat (rt_code t) then None
      else do {
        crc \<leftarrow> crc_Extend (lw_type_crc w ! unat (rt_code t)) 0 data;
        let buf = EncodeFixed32 kLittleEndian (crc_Mask crc) @
          [ucast (nw AND 0xff), ucast (drop_bit 8 nw), rt_code t];
        let (s, f) = wf_Append ops (lw_dest w) buf;
        let (s, f) = (if Status_ok s then
            (let (s, f) = wf_Append ops f data in if Status_ok s then wf_Flush ops f else (s, f))
          else (s, f));
        Some (s, w\<lparr>lw_dest := f, lw_block_offset := lw_block_offset w + kHeaderSize + n\<rparr>)
      })"

text \<open>The result of writing the trailer is not looked at.\<close>

definition new_block :: "'f writable_ops \<Rightarrow> 'f log_writer \<Rightarrow> 'f log_writer option" where
  "new_block ops w =
     (if kBlockSize < lw_block_offset w then None
      else
        let leftover = kBlockSize - lw_block_offset w in
        if leftover < kHeaderSize then
          (let f = (if 0 < leftover then snd (wf_Append ops (lw_dest w) (replicate leftover 0)) else lw_dest w)
           in Some (w\<lparr>lw_dest := f, lw_block_offset := 0\<rparr>))
        else Some w)"

definition fragment_type :: "bool \<Rightarrow> bool \<Rightarrow> RecordType" where
  "fragment_type begin_rec end_rec =
     (if begin_rec \<and> end_rec then kFullType else if begin_rec then kFirstType
      else if end_rec then kLastType else kMiddleType)"

partial_function (option) add_record_loop ::
  "'f writable_ops \<Rightarrow> 'f log_writer \<Rightarrow> bool \<Rightarrow> slice \<Rightarrow> (Status \<times> 'f log_writer) option" where
  "add_record_loop ops w begin_rec left = do {
     w \<leftarrow> new_block ops w;
     if kBlockSize < lw_block_offset w + kHeaderSize then None
     else do {
       let avail = kBlockSize - lw_block_offset w - kHeaderSize;
       let fragment_length = (if length left < avail then length left else avail);
       let end_rec = (length left = fragment_length);
       (s, w) \<leftarrow> EmitPhysicalRecord ops w (fragment_type begin_rec end_rec) (take fragment_length left);
       let left = drop fragment_length left;
       if Status_ok s \<and> 0 < length left then add_record_loop ops w False left else Some (s, w)
     }
   }"

definition AddRecord :: "'f writable_ops \<Rightarrow> 'f log_writer \<Rightarrow> slice \<Rightarrow> (Status \<times> 'f log_writer) option" where
  "AddRecord ops w data = add_record_loop ops w True data"

subsection \<open>The reader\<close>

text \<open>The reporter is the list of what was reported to it, or \<open>None\<close> for a null pointer.\<close>

record 'g log_reader =
  lr_file :: 'g
  lr_reports :: "(64 word \<times> Status) list option"
  lr_checksum :: bool
  lr_buffer :: slice
  lr_eof :: bool
  lr_last_record_offset :: "64 word"
  lr_end_of_buffer_offset :: "64 word"
  lr_initial_offset :: "64 word"
  lr_resyncing :: bool

definition kEof :: "32 word" where
  "kEof = of_nat kMaxRecordType + 1"

definition kBadRecord :: "32 word" where
  "kBadRecord = of_nat kMaxRecordType + 2"

definition Reader_new :: "'g \<Rightarrow> (64 word \<times> Status) list option \<Rightarrow> bool \<Rightarrow> 64 word \<Rightarrow> 'g log_reader" where
  "Reader_new file reporter checksum initial_offset =
     \<lparr>lr_file = file, lr_reports = reporter, lr_checksum = checksum, lr_buffer = [], lr_eof = False,
      lr_last_record_offset = 0, lr_end_of_buffer_offset = 0, lr_initial_offset = initial_offset,
      lr_resyncing = (0 < initial_offset)\<rparr>"

definition buffer_size :: "'g log_reader \<Rightarrow> 64 word" where
  "buffer_size r = of_nat (length (lr_buffer r))"

definition ReportDrop :: "'g log_reader \<Rightarrow> 64 word \<Rightarrow> Status \<Rightarrow> 'g log_reader" where
  "ReportDrop r bytes reason =
     (case lr_reports r of None \<Rightarrow> r
      | Some rs \<Rightarrow>
          if lr_initial_offset r \<le> lr_end_of_buffer_offset r - buffer_size r - bytes
          then r\<lparr>lr_reports := Some (rs @ [(bytes, reason)])\<rparr> else r)"

definition ReportCorruption :: "'g log_reader \<Rightarrow> 64 word \<Rightarrow> string \<Rightarrow> 'g log_reader option" where
  "ReportCorruption r bytes reason = do {
     s \<leftarrow> Status_Corruption (bytes_of_string reason) [];
     Some (ReportDrop r bytes s)
   }"

definition SkipToInitialBlock :: "'g sequential_ops \<Rightarrow> 'g log_reader \<Rightarrow> bool \<times> 'g log_reader" where
  "SkipToInitialBlock ops r =
     (let offset_in_block = lr_initial_offset r mod of_nat kBlockSize;
          start = lr_initial_offset r - offset_in_block;
          block_start = (if of_nat kBlockSize - 6 < offset_in_block then start + of_nat kBlockSize else start);
          r = r\<lparr>lr_end_of_buffer_offset := block_start\<rparr>
      in if 0 < block_start then
           (let (s, g) = sf_Skip ops (lr_file r) block_start; r = r\<lparr>lr_file := g\<rparr>
            in if \<not> Status_ok s then (False, ReportDrop r block_start s) else (True, r))
         else (True, r))"

text \<open>One physical record: its type or a special value, and the fragment, which keeps its old value
  where the code does not assign it. Signed characters are extended to the type.\<close>

partial_function (option) ReadPhysicalRecord ::
  "'g sequential_ops \<Rightarrow> 'g log_reader \<Rightarrow> slice \<Rightarrow> (32 word \<times> slice \<times> 'g log_reader) option" where
  "ReadPhysicalRecord ops r fragment =
     (if length (lr_buffer r) < kHeaderSize then
        (if \<not> lr_eof r then
           (let (s, data, g) = sf_Read ops (lr_file r) kBlockSize;
                r = r\<lparr>lr_file := g, lr_buffer := data,
                  lr_end_of_buffer_offset := lr_end_of_buffer_offset r + of_nat (length data)\<rparr>
            in if \<not> Status_ok s
               then Some (kEof, fragment, ReportDrop (r\<lparr>lr_buffer := []\<rparr>) (of_nat kBlockSize) s \<lparr>lr_eof := True\<rparr>)
               else if length data < kBlockSize then ReadPhysicalRecord ops (r\<lparr>lr_eof := True\<rparr>) fragment
               else ReadPhysicalRecord ops r fragment)
         else Some (kEof, fragment, r\<lparr>lr_buffer := []\<rparr>))
      else
        let header = lr_buffer r;
            a = ucast (header ! 4) AND 0xff :: 32 word;
            b = ucast (header ! 5) AND 0xff :: 32 word;
            type = scast (header ! 6) :: 32 word;
            len = a OR push_bit 8 b
        in if length (lr_buffer r) < kHeaderSize + unat len then
             (let drop_size = of_nat (length (lr_buffer r)); r = r\<lparr>lr_buffer := []\<rparr>
              in if \<not> lr_eof r then do {
                   r \<leftarrow> ReportCorruption r drop_size ''bad record length'';
                   Some (kBadRecord, fragment, r)
                 }
                 else Some (kEof, fragment, r))
           else if type = ucast (rt_code kZeroType) \<and> len = 0
           then Some (kBadRecord, fragment, r\<lparr>lr_buffer := []\<rparr>)
           else do {
             crc_ok \<leftarrow> (if lr_checksum r then do {
                 m \<leftarrow> DecodeFixed32 kLittleEndian header;
                 actual \<leftarrow> crc_Value 0 (take (1 + unat len) (drop 6 header));
                 Some (actual = crc_Unmask m)
               } else Some True);
             if \<not> crc_ok then do {
               let drop_size = of_nat (length (lr_buffer r));
               r \<leftarrow> ReportCorruption (r\<lparr>lr_buffer := []\<rparr>) drop_size ''checksum mismatch'';
               Some (kBadRecord, fragment, r)
             }
             else do {
               rest \<leftarrow> remove_prefix (lr_buffer r) (kHeaderSize + unat len);
               let r = r\<lparr>lr_buffer := rest\<rparr>;
               if lr_end_of_buffer_offset r - buffer_size r - of_nat kHeaderSize - ucast len < lr_initial_offset r
               then Some (kBadRecord, [], r)
               else Some (type, take (unat len) (drop kHeaderSize header), r)
             }
           })"

text \<open>One turn of the loop of \<open>ReadRecord\<close> after a physical record was read: either the call
  returns, with a record or with false, or the loop goes on.\<close>

record rr_state =
  rr_scratch :: slice
  rr_in_fragment :: bool
  rr_prospective :: "64 word"
  rr_fragment :: slice

datatype 'g rr_outcome = Return "slice option" "'g log_reader" | Continue rr_state "'g log_reader"

definition report_partial :: "'g log_reader \<Rightarrow> rr_state \<Rightarrow> string \<Rightarrow> 'g log_reader option" where
  "report_partial r st msg =
     (if rr_in_fragment st \<and> rr_scratch st \<noteq> []
      then ReportCorruption r (of_nat (length (rr_scratch st))) msg else Some r)"

definition read_record_turn ::
  "(32 word \<Rightarrow> string) \<Rightarrow> 32 word \<Rightarrow> rr_state \<Rightarrow> 'g log_reader \<Rightarrow> 'g rr_outcome option" where
  "read_record_turn unknown ty st r =
     (let fragment = rr_fragment st;
          offset = lr_end_of_buffer_offset r - buffer_size r - of_nat kHeaderSize - of_nat (length fragment)
      in if lr_resyncing r \<and> ty = ucast (rt_code kMiddleType) then Some (Continue st r)
         else if lr_resyncing r \<and> ty = ucast (rt_code kLastType)
         then Some (Continue st (r\<lparr>lr_resyncing := False\<rparr>))
         else
           let r = r\<lparr>lr_resyncing := False\<rparr> in
           if ty = ucast (rt_code kFullType) then do {
             r \<leftarrow> report_partial r st ''partial record without end(1)'';
             Some (Return (Some fragment) (r\<lparr>lr_last_record_offset := offset\<rparr>))
           }
           else if ty = ucast (rt_code kFirstType) then do {
             r \<leftarrow> report_partial r st ''partial record without end(2)'';
             Some (Continue (st\<lparr>rr_prospective := offset, rr_scratch := fragment, rr_in_fragment := True\<rparr>) r)
           }
           else if ty = ucast (rt_code kMiddleType) then
             (if \<not> rr_in_fragment st then do {
                r \<leftarrow> ReportCorruption r (of_nat (length fragment)) ''missing start of fragmented record(1)'';
                Some (Continue st r)
              }
              else Some (Continue (st\<lparr>rr_scratch := rr_scratch st @ fragment\<rparr>) r))
           else if ty = ucast (rt_code kLastType) then
             (if \<not> rr_in_fragment st then do {
                r \<leftarrow> ReportCorruption r (of_nat (length fragment)) ''missing start of fragmented record(2)'';
                Some (Continue st r)
              }
              else Some (Return (Some (rr_scratch st @ fragment)) (r\<lparr>lr_last_record_offset := rr_prospective st\<rparr>)))
           else if ty = kEof then Some (Return None r)
           else if ty = kBadRecord then
             (if rr_in_fragment st then do {
                r \<leftarrow> ReportCorruption r (of_nat (length (rr_scratch st))) ''error in middle of record'';
                Some (Continue (st\<lparr>rr_in_fragment := False, rr_scratch := []\<rparr>) r)
              }
              else Some (Continue st r))
           else do {
             r \<leftarrow> ReportCorruption r (of_nat (length fragment + (if rr_in_fragment st then length (rr_scratch st) else 0)))
               (unknown ty);
             Some (Continue (st\<lparr>rr_in_fragment := False, rr_scratch := []\<rparr>) r)
           })"

partial_function (option) read_record_loop ::
  "'g sequential_ops \<Rightarrow> (32 word \<Rightarrow> string) \<Rightarrow> rr_state \<Rightarrow> 'g log_reader \<Rightarrow> (slice option \<times> 'g log_reader) option" where
  "read_record_loop ops unknown st r = do {
     (ty, fragment, r) \<leftarrow> ReadPhysicalRecord ops r (rr_fragment st);
     out \<leftarrow> read_record_turn unknown ty (st\<lparr>rr_fragment := fragment\<rparr>) r;
     (case out of
        Return v r \<Rightarrow> Some (v, r)
      | Continue st r \<Rightarrow> read_record_loop ops unknown st r)
   }"

text \<open>\<open>unknown\<close> is the text \<open>snprintf\<close> makes for an unknown type.\<close>

definition ReadRecord ::
  "'g sequential_ops \<Rightarrow> (32 word \<Rightarrow> string) \<Rightarrow> 'g log_reader \<Rightarrow> (slice option \<times> 'g log_reader) option" where
  "ReadRecord ops unknown r =
     (let (ok, r) = (if lr_last_record_offset r < lr_initial_offset r then SkipToInitialBlock ops r else (True, r))
      in if \<not> ok then Some (None, r)
         else read_record_loop ops unknown
           \<lparr>rr_scratch = [], rr_in_fragment = False, rr_prospective = 0, rr_fragment = []\<rparr> r)"

definition LastRecordOffset :: "'g log_reader \<Rightarrow> 64 word" where
  "LastRecordOffset r = lr_last_record_offset r"

subsection \<open>The bytes of a record\<close>

lemmas log_sizes = kBlockSize_def kHeaderSize_def

definition phys :: "RecordType \<Rightarrow> slice \<Rightarrow> byte list" where
  "phys t data = EncodeFixed32 kLittleEndian (crc_Mask (crc32c 0 (rt_code t # data))) @
     [of_nat (length data mod 256), of_nat (length data div 256), rt_code t] @ data"

function log_enc :: "nat \<Rightarrow> bool \<Rightarrow> slice \<Rightarrow> byte list \<times> nat" where
  "log_enc off begin_rec data =
     (let pad = (if kBlockSize - off < kHeaderSize then replicate (kBlockSize - off) 0 else []);
          off' = (if kBlockSize - off < kHeaderSize then 0 else off);
          n = min (length data) (kBlockSize - off' - kHeaderSize);
          end_rec = (length data = n);
          bytes = pad @ phys (fragment_type begin_rec end_rec) (take n data)
      in if end_rec then (bytes, off' + kHeaderSize + n)
         else let (bs, o') = log_enc (off' + kHeaderSize + n) False (drop n data) in (bytes @ bs, o'))"
  by pat_completeness auto
termination
  by (relation "measure (\<lambda>(off, _, data). 2 * length data + (if off = kBlockSize - kHeaderSize then 1 else 0))")
    (auto simp: log_sizes min_def split: if_splits)

declare log_enc.simps [simp del]

lemma length_phys: "length (phys t data) = kHeaderSize + length data"
  by (simp add: phys_def kHeaderSize_def)

lemma InitTypeCrc_eq: "InitTypeCrc = Some (map (\<lambda>i. crc32c 0 [of_nat i]) [0 ..< 5])"
proof -
  have "(\<lambda>i. crc_Value 0 [of_nat i]) = (\<lambda>i. Some (crc32c 0 [of_nat i]))"
    by (simp add: crc_Value_def crc_Extend_eq)
  moreover have "those (map (\<lambda>i. Some (f i)) xs) = Some (map f xs)" for f :: "nat \<Rightarrow> 32 word" and xs
    by (induction xs) simp_all
  ultimately show ?thesis by (simp add: InitTypeCrc_def kMaxRecordType_def)
qed

lemma rt_small: "unat (rt_code t) < 5" "of_nat (unat (rt_code t)) = rt_code t"
  by (cases t; simp)+

lemma size_bytes:
  assumes "n \<le> 0xffff"
  shows "(ucast (of_nat n AND 0xff :: 64 word) :: byte) = of_nat (n mod 256)"
    and "(ucast (drop_bit 8 (of_nat n :: 64 word)) :: byte) = of_nat (n div 256)"
proof -
  have n: "unat (of_nat n :: 64 word) = n" using assms by (simp add: unat_of_nat)
  have "of_nat n AND 0xff = (take_bit 8 (of_nat n) :: 64 word)" by (simp add: take_bit_eq_mask mask_eq_exp_minus_1)
  then have "unat (of_nat n AND 0xff :: 64 word) = n mod 256"
    by (simp only: unsigned_take_bit_eq n) (simp add: take_bit_eq_mod)
  then show "(ucast (of_nat n AND 0xff :: 64 word) :: byte) = of_nat (n mod 256)"
    by (simp add: word_unat_eq_iff unsigned_ucast_eq unat_of_nat take_bit_eq_mod)
  have "unat (drop_bit 8 (of_nat n :: 64 word)) = n div 256"
    by (simp only: unat_drop_bit_eq n) (simp add: drop_bit_eq_div)
  then show "(ucast (drop_bit 8 (of_nat n :: 64 word)) :: byte) = of_nat (n div 256)"
    by (simp add: word_unat_eq_iff unsigned_ucast_eq unat_of_nat take_bit_eq_mod)
qed

subsection \<open>The writer writes these bytes\<close>

text \<open>A file that appends, as the environment documents it.\<close>

definition appends :: "'f writable_ops \<Rightarrow> ('f \<Rightarrow> byte list) \<Rightarrow> bool" where
  "appends ops contents \<longleftrightarrow>
     (\<forall>f d. fst (wf_Append ops f d) = Status_OK \<and> contents (snd (wf_Append ops f d)) = contents f @ d) \<and>
     (\<forall>f. fst (wf_Flush ops f) = Status_OK \<and> contents (snd (wf_Flush ops f)) = contents f)"

lemma appendsE:
  assumes "appends ops contents"
  obtains f' where "wf_Append ops f d = (Status_OK, f')" and "contents f' = contents f @ d"
proof (rule that)
  have "fst (wf_Append ops f d) = Status_OK" using assms by (simp add: appends_def)
  then show "wf_Append ops f d = (Status_OK, snd (wf_Append ops f d))" by (simp add: prod_eq_iff)
qed (use assms in \<open>simp add: appends_def\<close>)

lemma flushesE:
  assumes "appends ops contents"
  obtains f' where "wf_Flush ops f = (Status_OK, f')" and "contents f' = contents f"
proof (rule that)
  have "fst (wf_Flush ops f) = Status_OK" using assms by (simp add: appends_def)
  then show "wf_Flush ops f = (Status_OK, snd (wf_Flush ops f))" by (simp add: prod_eq_iff)
qed (use assms in \<open>simp add: appends_def\<close>)

definition writer_ok :: "'f log_writer \<Rightarrow> bool" where
  "writer_ok w \<longleftrightarrow> lw_block_offset w \<le> kBlockSize \<and> lw_type_crc w = map (\<lambda>i. crc32c 0 [of_nat i]) [0 ..< 5]"

lemma Emit_eq:
  assumes "appends ops contents" and "writer_ok w" and "lw_block_offset w + kHeaderSize + length data \<le> kBlockSize"
  shows "\<exists>w'. EmitPhysicalRecord ops w t data = Some (Status_OK, w') \<and> writer_ok w' \<and>
    contents (lw_dest w') = contents (lw_dest w) @ phys t data \<and>
    lw_block_offset w' = lw_block_offset w + kHeaderSize + length data"
proof -
  have n: "length data \<le> 0xffff" using assms(3) by (simp add: log_sizes)
  have tc: "lw_type_crc w ! unat (rt_code t) = crc32c 0 [rt_code t]" "\<not> length (lw_type_crc w) \<le> unat (rt_code t)"
    using assms(2) rt_small [of t] by (simp_all add: writer_ok_def)
  let ?h = "EncodeFixed32 kLittleEndian (crc_Mask (crc32c 0 (rt_code t # data))) @
      [of_nat (length data mod 256), of_nat (length data div 256), rt_code t]"
  obtain f1 where f1: "wf_Append ops (lw_dest w) ?h = (Status_OK, f1)" "contents f1 = contents (lw_dest w) @ ?h"
    using appendsE [OF assms(1)] .
  obtain f2 where f2: "wf_Append ops f1 data = (Status_OK, f2)" "contents f2 = contents f1 @ data"
    using appendsE [OF assms(1)] .
  obtain f3 where f3: "wf_Flush ops f2 = (Status_OK, f3)" "contents f3 = contents f2"
    using flushesE [OF assms(1)] .
  have ok: "Status_ok Status_OK" by (simp add: Status_ok_def Status_OK_def)
  have crc: "crc_Extend (crc32c 0 [rt_code t]) 0 data = Some (crc32c 0 (rt_code t # data))"
    using crc32c_append [of 0 "[rt_code t]" data] by (simp add: crc_Extend_eq)
  have bound: "\<not> (0xffff < length data \<or> kBlockSize < lw_block_offset w + kHeaderSize + length data)"
    using n assms(3) by linarith
  let ?w = "w\<lparr>lw_dest := f3, lw_block_offset := lw_block_offset w + kHeaderSize + length data\<rparr>"
  have "EmitPhysicalRecord ops w t data = Some (Status_OK, ?w)"
    unfolding EmitPhysicalRecord_def Let_def size_bytes [OF n] tc(1) crc
    using bound tc(2) ok
    by (simp only: f1(1) f2(1) f3(1) bind.bind_lunit prod.case if_True if_False simp_thms)
  moreover have "writer_ok ?w" using assms(2,3) by (simp add: writer_ok_def)
  moreover have "contents (lw_dest ?w) = contents (lw_dest w) @ phys t data"
    using f1(2) f2(2) f3(2) by (simp add: phys_def)
  ultimately show ?thesis by (intro exI [of _ ?w]) simp
qed

lemma new_block_eq:
  assumes "appends ops contents" and "writer_ok w"
  shows "\<exists>w'. new_block ops w = Some w' \<and> writer_ok w' \<and>
    contents (lw_dest w') = contents (lw_dest w) @
      (if kBlockSize - lw_block_offset w < kHeaderSize then replicate (kBlockSize - lw_block_offset w) 0 else []) \<and>
    lw_block_offset w' = (if kBlockSize - lw_block_offset w < kHeaderSize then 0 else lw_block_offset w)"
  using assms by (auto simp: new_block_def Let_def appends_def writer_ok_def)

lemma add_record_eq:
  assumes "appends ops contents" and "writer_ok w"
  shows "\<exists>w'. add_record_loop ops w begin_rec data = Some (Status_OK, w') \<and> writer_ok w' \<and>
    (contents (lw_dest w'), lw_block_offset w') =
      (contents (lw_dest w) @ fst (log_enc (lw_block_offset w) begin_rec data), snd (log_enc (lw_block_offset w) begin_rec data))"
  using assms(2)
proof (induction "lw_block_offset w" begin_rec data arbitrary: w rule: log_enc.induct)
  case (1 begin_rec data)
  define pad where "pad = (if kBlockSize - lw_block_offset w < kHeaderSize then replicate (kBlockSize - lw_block_offset w) (0::byte) else [])"
  define off where "off = (if kBlockSize - lw_block_offset w < kHeaderSize then 0 else lw_block_offset w)"
  define n where "n = min (length data) (kBlockSize - off - kHeaderSize)"
  let ?last = "length data = n"
  obtain w1 where w1: "new_block ops w = Some w1" "writer_ok w1" "contents (lw_dest w1) = contents (lw_dest w) @ pad" "lw_block_offset w1 = off"
    using new_block_eq [OF assms(1) "1.prems"] unfolding pad_def off_def by blast
  have off: "off + kHeaderSize \<le> kBlockSize" by (auto simp: off_def log_sizes)
  have fl: "(if length data < kBlockSize - off - kHeaderSize then length data else kBlockSize - off - kHeaderSize) = n"
    by (simp add: n_def min_def)
  have "lw_block_offset w1 + kHeaderSize + length (take n data) \<le> kBlockSize" using off w1(4) by (auto simp: n_def)
  from Emit_eq [OF assms(1) w1(2) this, of "fragment_type begin_rec ?last"] obtain w2 where
    w2: "EmitPhysicalRecord ops w1 (fragment_type begin_rec ?last) (take n data) = Some (Status_OK, w2)" "writer_ok w2"
      "contents (lw_dest w2) = contents (lw_dest w) @ pad @ phys (fragment_type begin_rec ?last) (take n data)"
      "lw_block_offset w2 = off + kHeaderSize + n"
    using w1(3,4) by (auto simp: n_def)
  have ok: "Status_ok Status_OK" by (simp add: Status_ok_def Status_OK_def)
  have step: "add_record_loop ops w begin_rec data =
      (if 0 < length (drop n data) then add_record_loop ops w2 False (drop n data) else Some (Status_OK, w2))"
    using off ok by (subst add_record_loop.simps)
      (simp only: w1(1) bind.bind_lunit w1(4) Let_def fl w2(1) prod.case not_less [symmetric] if_False simp_thms)
  have enc: "log_enc (lw_block_offset w) begin_rec data =
      (if ?last then (pad @ phys (fragment_type begin_rec ?last) (take n data), off + kHeaderSize + n)
       else let (bs, o') = log_enc (off + kHeaderSize + n) False (drop n data)
            in ((pad @ phys (fragment_type begin_rec ?last) (take n data)) @ bs, o'))"
    by (subst log_enc.simps) (simp only: Let_def pad_def [symmetric] off_def [symmetric] n_def [symmetric])
  have nl: "n \<le> length data" by (simp add: n_def)
  show ?case
  proof (cases ?last)
    case True
    then show ?thesis using step enc w2 by simp
  next
    case False
    then have more: "0 < length (drop n data)" using nl by simp
    obtain w' where w': "add_record_loop ops w2 False (drop n data) = Some (Status_OK, w')" "writer_ok w'"
      "(contents (lw_dest w'), lw_block_offset w') = (contents (lw_dest w2) @ fst (log_enc (lw_block_offset w2) False (drop n data)),
         snd (log_enc (lw_block_offset w2) False (drop n data)))"
      using "1.hyps" [OF pad_def off_def n_def refl refl False w2(4) [symmetric] w2(2)] by blast
    then show ?thesis using step enc more w2(3,4) False by (auto simp: case_prod_beta Let_def)
  qed
qed

end
