(* ===== verification/Ldb_Log_Read.thy ===== *)
theory Ldb_Log_Read
  imports Ldb_Log
begin

text \<open>
  Reading a log back: the reader, on the bytes the writer produces, returns the records; on any
  prefix of these bytes, as a crash may leave it, it returns the records that are complete and then
  reports the end of the input, and it never reports a corruption.
\<close>

subsection \<open>Where the reader stands\<close>

text \<open>A file that is read from front to end, as the environment documents it.\<close>

definition reads :: "'g sequential_ops \<Rightarrow> ('g \<Rightarrow> byte list) \<Rightarrow> bool" where
  "reads ops rest \<longleftrightarrow>
     (\<forall>g n. \<exists>g'. sf_Read ops g n = (Status_OK, take n (rest g), g') \<and> rest g' = drop n (rest g))"

text \<open>The reader stands at offset \<open>off\<close> of a block with the bytes \<open>S\<close> ahead: what is left of the
  block is in the buffer, the rest is still in the file.\<close>

definition reader_at :: "('g \<Rightarrow> byte list) \<Rightarrow> 'g log_reader \<Rightarrow> nat \<Rightarrow> byte list \<Rightarrow> bool" where
  "reader_at rest r off S \<longleftrightarrow>
     off \<le> kBlockSize \<and> lr_buffer r = take (kBlockSize - off) S \<and>
     rest (lr_file r) = drop (kBlockSize - off) S \<and> lr_eof r = (off + length S < kBlockSize) \<and>
     lr_initial_offset r = 0 \<and> \<not> lr_resyncing r"

definition quiet :: "'g log_reader \<Rightarrow> 'g log_reader \<Rightarrow> bool" where
  "quiet r r' \<longleftrightarrow> lr_reports r' = lr_reports r \<and> lr_checksum r' = lr_checksum r"

lemma quiet_refl: "quiet r r"
  by (simp add: quiet_def)

lemma quiet_trans: "quiet r r' \<Longrightarrow> quiet r' r'' \<Longrightarrow> quiet r r''"
  by (simp add: quiet_def)

lemma size_of_bytes:
  assumes "n \<le> 0xffff"
  shows "unat ((ucast (of_nat (n mod 256) :: byte) AND 0xff) OR push_bit 8 (ucast (of_nat (n div 256) :: byte) AND 0xff) :: 32 word) = n"
proof -
  have u: "unat (of_nat (n mod 256) :: byte) = n mod 256" "unat (of_nat (n div 256) :: byte) = n div 256"
    using assms by (simp_all add: unat_of_nat)
  have c: "ucast b AND 0xff = (ucast b :: 32 word)" for b :: byte
    unfolding and_ff_take by (rule bit_word_eqI) (auto simp: bit_simps dest: bit_imp_le_length)
  have "(ucast a :: 32 word) AND push_bit 8 (ucast b) = 0" for a b :: byte
    by (rule bit_word_eqI) (auto simp: bit_simps dest: bit_imp_le_length)
  then have "(ucast a :: 32 word) OR push_bit 8 (ucast b) = ucast a + push_bit 8 (ucast b)" for a b :: byte
    by (simp only: disjunctive_add_eq_or)
  moreover have "unat (ucast a + push_bit 8 (ucast b) :: 32 word) = unat a + unat b * 256" for a b :: byte
    using unsigned_less [of a, where ?'a = nat] unsigned_less [of b, where ?'a = nat]
    by (simp add: push_bit_eq_mult unat_word_ariths unsigned_ucast_eq take_bit_nat_eq_self)
  ultimately show ?thesis unfolding c by (simp add: u)
qed

subsection \<open>Physical records\<close>

lemma phys_nth:
  "(phys t d @ x) ! 4 = of_nat (length d mod 256)" "(phys t d @ x) ! 5 = of_nat (length d div 256)"
  "(phys t d @ x) ! 6 = rt_code t" "drop 6 (phys t d @ x) = rt_code t # d @ x" "drop 7 (phys t d @ x) = d @ x"
  by (simp_all add: phys_def nth_append)

lemma scast_rt: "scast (rt_code t) = (ucast (rt_code t) :: 32 word)"
  by (cases t) simp_all

lemma read_phys:
  assumes "reader_at rest r off (phys t d @ S)" and "off + kHeaderSize + length d \<le> kBlockSize" and "t \<noteq> kZeroType"
  shows "\<exists>r'. ReadPhysicalRecord ops r fragment = Some (ucast (rt_code t), d, r') \<and>
    reader_at rest r' (off + kHeaderSize + length d) S \<and> quiet r r'"
proof -
  let ?x = "take (kBlockSize - off - kHeaderSize - length d) S"
  let ?r = "r\<lparr>lr_buffer := ?x\<rparr>"
  have n: "length d \<le> 0xffff" using assms(2) by (simp add: log_sizes)
  have buf: "lr_buffer r = phys t d @ ?x"
    using assms(1,2) by (simp add: reader_at_def length_phys diff_diff_left add.assoc)
  have len: "(ucast ((phys t d @ ?x) ! 4) AND 0xff) OR push_bit 8 (ucast ((phys t d @ ?x) ! 5) AND 0xff) = (of_nat (length d) :: 32 word)"
    using size_of_bytes [OF n] unfolding phys_nth by (simp add: word_unat_eq_iff unat_of_nat) (use n in simp)
  have ul: "unat (of_nat (length d) :: 32 word) = length d" using n by (simp add: unat_of_nat)
  have crc: "crc_Value 0 (take (1 + length d) (drop 6 (phys t d @ ?x))) = Some (crc32c 0 (rt_code t # d))"
    unfolding phys_nth by (simp add: crc_Value_def crc_Extend_eq)
  have dec: "DecodeFixed32 kLittleEndian (phys t d @ ?x) = Some (crc_Mask (crc32c 0 (rt_code t # d)))"
    by (simp add: phys_def)
  have z: "(ucast (rt_code t) :: 32 word) \<noteq> ucast (rt_code kZeroType)" using assms(3) by (cases t) simp_all
  have rp: "remove_prefix (phys t d @ ?x) (kHeaderSize + length d) = Some ?x"
    by (simp add: remove_prefix_def length_phys)
  have pay: "take (length d) (drop kHeaderSize (phys t d @ ?x)) = d"
    using phys_nth(5) [of t d ?x] by (simp add: kHeaderSize_def)
  have l1: "\<not> length (phys t d @ ?x) < kHeaderSize" "\<not> length (phys t d @ ?x) < kHeaderSize + length d"
    by (simp_all add: length_phys)
  have io: "lr_initial_offset r = 0" using assms(1) by (simp add: reader_at_def)
  have ck: "(if lr_checksum r then do {
        m \<leftarrow> DecodeFixed32 kLittleEndian (phys t d @ ?x);
        actual \<leftarrow> crc_Value 0 (take (1 + length d) (drop 6 (phys t d @ ?x)));
        Some (actual = crc_Unmask m) } else Some True) = Some True"
    unfolding crc dec by (simp add: crc_Unmask_Mask)
  have "ReadPhysicalRecord ops r fragment = Some (ucast (rt_code t), d, ?r)"
    by (subst ReadPhysicalRecord.simps)
      (simp only: buf l1 if_False Let_def len ul phys_nth(3) scast_rt z simp_thms ck bind.bind_lunit rp pay not_True_eq_False,
       simp add: io)
  moreover have "reader_at rest ?r (off + kHeaderSize + length d) S"
    using assms(1,2) by (auto simp: reader_at_def length_phys diff_diff_left add.assoc)
  ultimately show ?thesis by (intro exI [of _ ?r]) (simp add: quiet_def)
qed


lemma phys_cut:
  assumes "reader_at rest r off (take k (phys t d))" and "off + kHeaderSize + length d \<le> kBlockSize"
    and "k < kHeaderSize + length d"
  shows "\<exists>r'. ReadPhysicalRecord ops r fragment = Some (kEof, fragment, r') \<and> quiet r r' \<and> \<not> lr_resyncing r'"
proof -
  let ?S = "take k (phys t d)"
  have len: "length ?S = k" using assms(3) by (simp add: length_phys)
  have buf: "lr_buffer r = ?S" and eof: "lr_eof r" "\<not> lr_resyncing r"
    using assms len by (auto simp: reader_at_def min_def)
  show ?thesis
  proof (cases "k < kHeaderSize")
    case True
    then show ?thesis using len eof
      by (subst ReadPhysicalRecord.simps) (simp add: buf quiet_def)
  next
    case False
    then have nth: "?S ! 4 = of_nat (length d mod 256)" "?S ! 5 = of_nat (length d div 256)"
      using phys_nth(1,2) [of t d "[]"] by (simp_all add: kHeaderSize_def)
    have n: "length d \<le> 0xffff" using assms(2) by (simp add: log_sizes)
    have "length (lr_buffer r) < kHeaderSize + unat ((ucast (?S ! 4) AND 0xff) OR push_bit 8 (ucast (?S ! 5) AND 0xff) :: 32 word)"
      unfolding nth size_of_bytes [OF n] buf len by (rule assms(3))
    then show ?thesis using False eof
      by (subst ReadPhysicalRecord.simps) (simp add: buf len quiet_def Let_def)
  qed
qed

lemma short_end:
  assumes "reader_at rest r off S" and "length S < kHeaderSize" and "off + length S < kBlockSize"
  shows "\<exists>r'. ReadPhysicalRecord ops r fragment = Some (kEof, fragment, r') \<and> quiet r r' \<and> \<not> lr_resyncing r'"
proof -
  have "lr_buffer r = S" "lr_eof r" "\<not> lr_resyncing r" using assms by (auto simp: reader_at_def)
  then show ?thesis using assms(2) by (subst ReadPhysicalRecord.simps) (simp add: quiet_def)
qed

lemma next_block:
  assumes "reads ops rest" and "reader_at rest r off (p @ S)" and "kBlockSize - off < kHeaderSize" and "length p = kBlockSize - off"
  shows "\<exists>r'. ReadPhysicalRecord ops r fragment = ReadPhysicalRecord ops r' fragment \<and> reader_at rest r' 0 S \<and> quiet r r'"
proof -
  obtain g where g: "sf_Read ops (lr_file r) kBlockSize = (Status_OK, take kBlockSize (rest (lr_file r)), g)"
    "rest g = drop kBlockSize (rest (lr_file r))" using assms(1) unfolding reads_def by blast
  have r: "lr_buffer r = p" "\<not> lr_eof r" "rest (lr_file r) = S" "lr_initial_offset r = 0" "\<not> lr_resyncing r"
    using assms(2,4) by (auto simp: reader_at_def)
  let ?r = "r\<lparr>lr_file := g, lr_buffer := take kBlockSize S,
      lr_end_of_buffer_offset := lr_end_of_buffer_offset r + of_nat (length (take kBlockSize S))\<rparr>"
  let ?r' = "if length S < kBlockSize then ?r\<lparr>lr_eof := True\<rparr> else ?r"
  have "ReadPhysicalRecord ops r fragment = ReadPhysicalRecord ops ?r' fragment"
    using assms(3,4) by (subst ReadPhysicalRecord.simps) (simp add: r g Let_def min_def)
  moreover have "reader_at rest ?r' 0 S" using r g(2) by (auto simp: reader_at_def)
  ultimately show ?thesis by (intro exI [of _ ?r']) (simp add: quiet_def)
qed


text \<open>What precedes a fragment when the writer stands at \<open>off\<close>, and where the fragment starts.\<close>

definition trailer :: "nat \<Rightarrow> byte list" where
  "trailer off = (if kBlockSize - off < kHeaderSize then replicate (kBlockSize - off) 0 else [])"

definition start :: "nat \<Rightarrow> nat" where
  "start off = (if kBlockSize - off < kHeaderSize then 0 else off)"

lemma skip_trailer:
  assumes "reads ops rest" and "reader_at rest r off (trailer off @ S)"
  shows "\<exists>r'. ReadPhysicalRecord ops r fragment = ReadPhysicalRecord ops r' fragment \<and> reader_at rest r' (start off) S \<and> quiet r r'"
proof (cases "kBlockSize - off < kHeaderSize")
  case True
  then show ?thesis using next_block [OF assms(1,2) True] by (simp add: trailer_def start_def)
next
  case False
  then show ?thesis using assms(2) quiet_refl by (auto simp: trailer_def start_def)
qed

lemma read_fragment:
  assumes "reads ops rest" and "reader_at rest r off (trailer off @ phys t d @ S)"
    and "start off + kHeaderSize + length d \<le> kBlockSize" and "t \<noteq> kZeroType"
  shows "\<exists>r'. ReadPhysicalRecord ops r fragment = Some (ucast (rt_code t), d, r') \<and>
    reader_at rest r' (start off + kHeaderSize + length d) S \<and> quiet r r'"
  using skip_trailer [OF assms(1,2)] read_phys [OF _ assms(3,4)] quiet_trans by metis

lemma read_cut:
  assumes "reads ops rest" and "reader_at rest r off (take k (trailer off @ phys t d))"
    and "start off + kHeaderSize + length d \<le> kBlockSize" and "k < length (trailer off @ phys t d)"
  shows "\<exists>r'. ReadPhysicalRecord ops r fragment = Some (kEof, fragment, r') \<and> quiet r r' \<and> \<not> lr_resyncing r'"
proof (cases "k < length (trailer off)")
  case True
  then have "reader_at rest r off (take k (trailer off))" using assms(2) by simp
  then show ?thesis
    by (rule short_end) (use True in \<open>auto simp: trailer_def split: if_splits\<close>)
next
  case False
  then have "take k (trailer off @ phys t d) = trailer off @ take (k - length (trailer off)) (phys t d)" by simp
  then obtain r' where r': "ReadPhysicalRecord ops r fragment = ReadPhysicalRecord ops r' fragment"
    "reader_at rest r' (start off) (take (k - length (trailer off)) (phys t d))" "quiet r r'"
    using skip_trailer [OF assms(1)] assms(2) by metis
  have "k - length (trailer off) < kHeaderSize + length d" using False assms(4) by (simp add: length_phys)
  from phys_cut [OF r'(2) assms(3) this] show ?thesis using r'(1,3) quiet_trans by metis
qed

subsection \<open>Logical records\<close>

text \<open>The loop of \<open>ReadRecord\<close> before a fragment that begins a record, or one that goes on.\<close>

definition expects :: "rr_state \<Rightarrow> bool \<Rightarrow> bool" where
  "expects st begin_rec \<longleftrightarrow> rr_in_fragment st = (\<not> begin_rec) \<and> (begin_rec \<longrightarrow> rr_scratch st = [])"

lemma turn_fragment:
  assumes "expects st b" and "\<not> lr_resyncing r"
  shows "\<exists>off st'. read_record_turn unknown (ucast (rt_code (fragment_type b e))) (st\<lparr>rr_fragment := d\<rparr>) r =
    Some (if e then Return (Some (rr_scratch st @ d)) (r\<lparr>lr_resyncing := False, lr_last_record_offset := off\<rparr>)
          else Continue st' (r\<lparr>lr_resyncing := False\<rparr>)) \<and>
    expects st' False \<and> rr_scratch st' = rr_scratch st @ d"
  using assms by (cases b; cases e)
    (auto simp: fragment_type_def read_record_turn_def expects_def report_partial_def Let_def
      intro: exI [of _ "st\<lparr>rr_in_fragment := True, rr_scratch := rr_scratch st @ d\<rparr>"])

lemma turn_eof: "\<not> lr_resyncing r \<Longrightarrow> read_record_turn unknown kEof st r = Some (Return None (r\<lparr>lr_resyncing := False\<rparr>))"
  by (simp add: read_record_turn_def kEof_def kMaxRecordType_def Let_def)

lemma reader_at_marks [simp]:
  "reader_at rest (r\<lparr>lr_resyncing := False\<rparr>) off S = reader_at rest (r\<lparr>lr_resyncing := False, lr_last_record_offset := x\<rparr>) off S"
  by (simp add: reader_at_def)

lemma log_enc_step:
  assumes "n = min (length data) (kBlockSize - start off - kHeaderSize)"
  shows "log_enc off b data =
    (if length data = n then (trailer off @ phys (fragment_type b True) data, start off + kHeaderSize + n)
     else (trailer off @ phys (fragment_type b False) (take n data) @ fst (log_enc (start off + kHeaderSize + n) False (drop n data)),
           snd (log_enc (start off + kHeaderSize + n) False (drop n data))))"
  by (subst log_enc.simps)
    (simp only: Let_def case_prod_beta trailer_def [symmetric] start_def [symmetric] assms [symmetric], simp)

lemma log_enc_induct [case_names step]:
  fixes data :: slice
  assumes "\<And>off b data n. n = min (length data) (kBlockSize - start off - kHeaderSize) \<Longrightarrow>
      (length data \<noteq> n \<Longrightarrow> P (start off + kHeaderSize + n) False (drop n data)) \<Longrightarrow> P off b data"
  shows "P off b data"
  by (induction off b data rule: log_enc.induct) (rule assms, rule refl, simp add: start_def)

lemma start_fits: "n = min (length data) (kBlockSize - start off - kHeaderSize) \<Longrightarrow>
    start off + kHeaderSize + length (take n data) \<le> kBlockSize"
  by (auto simp: start_def log_sizes split: if_splits)

lemma fragment_type_nonzero: "fragment_type b e \<noteq> kZeroType"
  by (simp add: fragment_type_def)


lemma loop_fragment:
  assumes "ReadPhysicalRecord ops r (rr_fragment st) = Some (ucast (rt_code (fragment_type b e)), d, r1)"
    and "reader_at rest r1 off S" and "expects st b"
  shows "\<exists>r' st'. read_record_loop ops unknown st r =
      (if e then Some (Some (rr_scratch st @ d), r') else read_record_loop ops unknown st' r') \<and>
    reader_at rest r' off S \<and> quiet r1 r' \<and> expects st' False \<and> rr_scratch st' = rr_scratch st @ d"
proof -
  have rs: "\<not> lr_resyncing r1" using assms(2) by (simp add: reader_at_def)
  obtain x st' where t: "read_record_turn unknown (ucast (rt_code (fragment_type b e))) (st\<lparr>rr_fragment := d\<rparr>) r1 =
      Some (if e then Return (Some (rr_scratch st @ d)) (r1\<lparr>lr_resyncing := False, lr_last_record_offset := x\<rparr>)
            else Continue st' (r1\<lparr>lr_resyncing := False\<rparr>))"
    and st': "expects st' False" "rr_scratch st' = rr_scratch st @ d"
    using turn_fragment [OF assms(3) rs] by metis
  let ?r = "if e then r1\<lparr>lr_resyncing := False, lr_last_record_offset := x\<rparr> else r1\<lparr>lr_resyncing := False\<rparr>"
  have "read_record_loop ops unknown st r =
      (if e then Some (Some (rr_scratch st @ d), ?r) else read_record_loop ops unknown st' ?r)"
    by (subst read_record_loop.simps) (simp add: assms(1) t)
  moreover have "reader_at rest ?r off S" using assms(2) by (simp add: reader_at_def)
  ultimately show ?thesis using st' by (intro exI [of _ ?r] exI [of _ st']) (simp add: quiet_def)
qed

lemma loop_eof:
  assumes "\<exists>r'. ReadPhysicalRecord ops r (rr_fragment st) = Some (kEof, rr_fragment st, r') \<and> quiet r r' \<and> \<not> lr_resyncing r'"
  shows "\<exists>r'. read_record_loop ops unknown st r = Some (None, r') \<and> quiet r r'"
proof -
  obtain r' where "ReadPhysicalRecord ops r (rr_fragment st) = Some (kEof, rr_fragment st, r')" "quiet r r'" "\<not> lr_resyncing r'"
    using assms by blast
  then show ?thesis by (subst read_record_loop.simps) (simp add: turn_eof quiet_def)
qed

lemma loop_record:
  assumes "reads ops rest" and "reader_at rest r off (fst (log_enc off b data) @ S)" and "expects st b"
  shows "\<exists>r'. read_record_loop ops unknown st r = Some (Some (rr_scratch st @ data), r') \<and>
    reader_at rest r' (snd (log_enc off b data)) S \<and> quiet r r'"
  using assms(2,3)
proof (induction off b data arbitrary: st r rule: log_enc_induct)
  case (step off b data n)
  note n = step.hyps
  let ?e = "length data = n" and ?off = "start off + kHeaderSize + n"
  let ?T = "if ?e then S else fst (log_enc ?off False (drop n data)) @ S"
  have "reader_at rest r off (trailer off @ phys (fragment_type b ?e) (take n data) @ ?T)"
    using step.prems(1) by (simp add: log_enc_step [OF n] split: if_splits)
  note read_fragment [OF assms(1) this start_fits [OF n] fragment_type_nonzero, of "rr_fragment st"]
  then obtain r1 where r1: "ReadPhysicalRecord ops r (rr_fragment st) = Some (ucast (rt_code (fragment_type b ?e)), take n data, r1)"
    "reader_at rest r1 ?off ?T" "quiet r r1"
    using n by auto
  from loop_fragment [OF r1(1,2) step.prems(2)] obtain r2 st2 where
    r2: "read_record_loop ops unknown st r =
      (if ?e then Some (Some (rr_scratch st @ take n data), r2) else read_record_loop ops unknown st2 r2)"
    "reader_at rest r2 ?off ?T" "quiet r1 r2" "expects st2 False" "rr_scratch st2 = rr_scratch st @ take n data"
    by blast
  note q = quiet_trans [OF r1(3) r2(3)]
  show ?case
  proof (cases ?e)
    case True
    then show ?thesis using r2 q by (simp add: log_enc_step [OF n])
  next
    case False
    then have "reader_at rest r2 ?off (fst (log_enc ?off False (drop n data)) @ S)" using r2(2) by simp
    from step.IH [OF False this r2(4)] show ?thesis
      using r2(1,5) False q quiet_trans by (fastforce simp: log_enc_step [OF n])
  qed
qed

lemma loop_cut:
  assumes "reads ops rest" and "reader_at rest r off (take k (fst (log_enc off b data)))"
    and "k < length (fst (log_enc off b data))" and "expects st b"
  shows "\<exists>r'. read_record_loop ops unknown st r = Some (None, r') \<and> quiet r r'"
  using assms(2-4)
proof (induction off b data arbitrary: st r k rule: log_enc_induct)
  case (step off b data n)
  note n = step.hyps
  let ?e = "length data = n" and ?off = "start off + kHeaderSize + n"
  let ?B = "trailer off @ phys (fragment_type b ?e) (take n data)"
  let ?T = "fst (log_enc ?off False (drop n data))"
  have enc: "fst (log_enc off b data) = ?B @ (if ?e then [] else ?T)"
    by (simp add: log_enc_step [OF n])
  show ?case
  proof (cases "k < length ?B")
    case True
    then have "reader_at rest r off (take k ?B)" using step.prems(1) by (simp add: enc)
    from read_cut [OF assms(1) this start_fits [OF n] True] show ?thesis by (rule loop_eof)
  next
    case False
    then have e: "\<not> ?e" using step.prems(2) by (auto simp: enc)
    define j where "j = k - length ?B"
    have j: "k = length ?B + j" "j < length ?T" using False step.prems(2) e by (auto simp: enc j_def)
    have "take k (fst (log_enc off b data)) = ?B @ take j ?T" unfolding enc j(1) using e by simp
    then have "reader_at rest r off (trailer off @ phys (fragment_type b ?e) (take n data) @ take j ?T)"
      using step.prems(1) by simp
    from read_fragment [OF assms(1) this start_fits [OF n] fragment_type_nonzero, of "rr_fragment st"]
    obtain r1 where r1: "ReadPhysicalRecord ops r (rr_fragment st) = Some (ucast (rt_code (fragment_type b ?e)), take n data, r1)"
      "reader_at rest r1 ?off (take j ?T)" "quiet r r1"
      using n by auto
    from loop_fragment [OF r1(1,2) step.prems(3), of unknown] e obtain r2 st2 where
      r2: "read_record_loop ops unknown st r = read_record_loop ops unknown st2 r2"
      "reader_at rest r2 ?off (take j ?T)" "quiet r1 r2" "expects st2 False"
      by auto
    from step.IH [OF e r2(2) j(2) r2(4)] show ?thesis
      unfolding r2(1) using quiet_trans [OF r1(3) r2(3)] quiet_trans by blast
  qed
qed


subsection \<open>Whole logs\<close>

text \<open>A client writes its records one after the other, and stops at the first error; a client reads
  until \<open>ReadRecord\<close> returns false.\<close>

fun write_all :: "'f writable_ops \<Rightarrow> 'f log_writer \<Rightarrow> slice list \<Rightarrow> (Status \<times> 'f log_writer) option" where
  "write_all ops w [] = Some (Status_OK, w)"
| "write_all ops w (d # ds) = do {
     (s, w) \<leftarrow> AddRecord ops w d;
     if Status_ok s then write_all ops w ds else Some (s, w)
   }"

partial_function (option) read_all ::
  "'g sequential_ops \<Rightarrow> (32 word \<Rightarrow> string) \<Rightarrow> 'g log_reader \<Rightarrow> (slice list \<times> 'g log_reader) option" where
  "read_all ops unknown r = do {
     (v, r) \<leftarrow> ReadRecord ops unknown r;
     (case v of None \<Rightarrow> Some ([], r)
      | Some d \<Rightarrow> do { (ds, r) \<leftarrow> read_all ops unknown r; Some (d # ds, r) })
   }"

fun log_stream :: "nat \<Rightarrow> slice list \<Rightarrow> byte list \<times> nat" where
  "log_stream off [] = ([], off)"
| "log_stream off (d # ds) =
     (let (bs, off) = log_enc off True d; (cs, off) = log_stream off ds in (bs @ cs, off))"

lemma log_stream_append:
  "log_stream off (ds @ es) = (fst (log_stream off ds) @ fst (log_stream (snd (log_stream off ds)) es),
     snd (log_stream (snd (log_stream off ds)) es))"
  by (induction ds arbitrary: off) (simp_all add: case_prod_beta Let_def)

lemma log_stream_single: "log_stream off [d] = log_enc off True d"
  by (simp add: case_prod_beta Let_def)

lemma write_all_eq:
  assumes "appends ops contents" and "writer_ok w"
  shows "\<exists>w'. write_all ops w ds = Some (Status_OK, w') \<and> writer_ok w' \<and>
    contents (lw_dest w') = contents (lw_dest w) @ fst (log_stream (lw_block_offset w) ds) \<and>
    lw_block_offset w' = snd (log_stream (lw_block_offset w) ds)"
  using assms(2)
proof (induction ds arbitrary: w)
  case (Cons d ds)
  obtain w1 where w1: "AddRecord ops w d = Some (Status_OK, w1)" "writer_ok w1"
    "contents (lw_dest w1) = contents (lw_dest w) @ fst (log_enc (lw_block_offset w) True d)"
    "lw_block_offset w1 = snd (log_enc (lw_block_offset w) True d)"
    using add_record_eq [OF assms(1) Cons.prems, of True d] by (auto simp: AddRecord_def)
  show ?case using Cons.IH [OF w1(2)] w1 by (auto simp: case_prod_beta Let_def)
qed simp

text \<open>The end of a block and the start of the next are the same place to a writer.\<close>

lemma log_enc_wrap: "log_enc kBlockSize b d = log_enc 0 b d"
proof -
  have "trailer kBlockSize = trailer 0" "start kBlockSize = start 0" by (simp_all add: trailer_def start_def log_sizes)
  then show ?thesis using log_enc_step [OF refl, of kBlockSize b d] log_enc_step [OF refl, of 0 b d] by simp
qed

lemma log_stream_wrap: "fst (log_stream kBlockSize ds) = fst (log_stream 0 ds)"
  by (cases ds) (simp_all add: log_enc_wrap case_prod_beta Let_def)

lemma log_enc_off: "off \<le> kBlockSize \<Longrightarrow> snd (log_enc off b d) \<le> kBlockSize \<and>
    snd (log_enc off b d) mod kBlockSize = (off + length (fst (log_enc off b d))) mod kBlockSize"
proof (induction off b d rule: log_enc_induct)
  case (step off b d n)
  have f: "start off + kHeaderSize + n \<le> kBlockSize" using start_fits [OF step.hyps] step.hyps by auto
  have m: "(off + (length (trailer off) + x)) mod kBlockSize = (start off + x) mod kBlockSize" for x
    using step.prems by (auto simp: trailer_def start_def simp flip: add.assoc)
  have n: "n \<le> length d" using step.hyps by simp
  show ?case
  proof (cases "length d = n")
    case True
    then show ?thesis using f m [of "kHeaderSize + n"] by (simp add: log_enc_step [OF step.hyps] length_phys add.assoc)
  next
    case False
    then show ?thesis
      using step.IH [OF False f] m n by (simp add: log_enc_step [OF step.hyps] length_phys add.assoc min_absorb2)
  qed
qed

lemma log_stream_off: "off \<le> kBlockSize \<Longrightarrow> snd (log_stream off ds) \<le> kBlockSize \<and>
    snd (log_stream off ds) mod kBlockSize = (off + length (fst (log_stream off ds))) mod kBlockSize"
proof (induction ds arbitrary: off)
  case (Cons d ds)
  note e = log_enc_off [OF Cons.prems, of True d]
  from Cons.IH [OF conjunct1 [OF e]] e show ?case
    by (simp add: case_prod_beta Let_def flip: add.assoc) (metis mod_add_left_eq)
qed simp

lemma read_all_cut:
  assumes "reads ops rest" and "reader_at rest r off (fst (log_stream off ds) @ S)"
    and "S = take k (fst (log_enc (snd (log_stream off ds)) True d))" and "k < length (fst (log_enc (snd (log_stream off ds)) True d))"
  shows "\<exists>r'. read_all ops unknown r = Some (ds, r') \<and> quiet r r'"
  using assms(2-)
proof (induction ds arbitrary: r off)
  case Nil
  have "reader_at rest r off (take k (fst (log_enc off True d)))" "lr_initial_offset r = 0" "k < length (fst (log_enc off True d))"
    using Nil by (simp_all add: reader_at_def)
  note loop_cut [OF assms(1) this(1,3), of "\<lparr>rr_scratch = [], rr_in_fragment = False, rr_prospective = 0, rr_fragment = []\<rparr>" unknown]
  then obtain r' where "ReadRecord ops unknown r = Some (None, r')" "quiet r r'"
    using \<open>lr_initial_offset r = 0\<close> by (auto simp: ReadRecord_def expects_def)
  then show ?case by (subst read_all.simps) simp
next
  case (Cons e ds)
  have "reader_at rest r off (fst (log_enc off True e) @ fst (log_stream (snd (log_enc off True e)) ds) @ S)" "lr_initial_offset r = 0"
    using Cons.prems(1) by (simp_all add: case_prod_beta Let_def reader_at_def)
  note loop_record [OF assms(1) this(1), of "\<lparr>rr_scratch = [], rr_in_fragment = False, rr_prospective = 0, rr_fragment = []\<rparr>" unknown]
  then obtain r1 where r1: "ReadRecord ops unknown r = Some (Some e, r1)" "quiet r r1"
    "reader_at rest r1 (snd (log_enc off True e)) (fst (log_stream (snd (log_enc off True e)) ds) @ S)"
    using \<open>lr_initial_offset r = 0\<close> by (auto simp: ReadRecord_def expects_def)
  from Cons.IH [OF r1(3)] Cons.prems(2,3) obtain r' where "read_all ops unknown r1 = Some (ds, r')" "quiet r1 r'"
    by (auto simp: case_prod_beta Let_def)
  then show ?case using r1 quiet_trans by (subst read_all.simps) auto
qed

lemma reader_at_new: "rest g = S \<Longrightarrow> reader_at rest (Reader_new g rep ck 0) kBlockSize S"
  by (simp add: reader_at_def Reader_new_def)


lemma Writer_new_ok: "\<exists>w. Writer_new f = Some w \<and> writer_ok w \<and> lw_dest w = f \<and> lw_block_offset w = 0"
  by (simp add: Writer_new_def InitTypeCrc_eq writer_ok_def)

lemma Writer_new_at_ok:
  "\<exists>w. Writer_new_at f n = Some w \<and> writer_ok w \<and> lw_dest w = f \<and> lw_block_offset w = unat n mod kBlockSize"
  by (simp add: Writer_new_at_def InitTypeCrc_eq writer_ok_def) (simp add: log_sizes order_less_imp_le)

lemma write_new_eq:
  assumes "appends ops contents" and "contents f = []"
  shows "\<exists>w. (Writer_new f \<bind> (\<lambda>w. write_all ops w ds)) = Some (Status_OK, w) \<and> writer_ok w \<and>
    contents (lw_dest w) = fst (log_stream 0 ds) \<and> lw_block_offset w = snd (log_stream 0 ds)"
proof -
  obtain w where w: "Writer_new f = Some w" "writer_ok w" "lw_dest w = f" "lw_block_offset w = 0"
    using Writer_new_ok [of f] by blast
  show ?thesis using write_all_eq [OF assms(1) w(2), of ds] w assms(2) by auto
qed

lemma log_stream_at:
  assumes "off \<le> kBlockSize" shows "fst (log_stream (off mod kBlockSize) ds) = fst (log_stream off ds)"
  using assms log_stream_wrap [of ds] by (cases "off = kBlockSize") auto

lemma read_stream_cut:
  assumes "reads ops rest" and "rest g = take k (fst (log_stream 0 (ds @ [d])))"
    and "length (fst (log_stream 0 ds)) \<le> k" and "k < length (fst (log_stream 0 (ds @ [d])))"
  shows "\<exists>r'. read_all ops unknown (Reader_new g reports ck 0) = Some (ds, r') \<and> lr_reports r' = reports"
proof -
  let ?A = "fst (log_stream kBlockSize ds)" and ?D = "fst (log_enc (snd (log_stream kBlockSize ds)) True d)"
  have s: "fst (log_stream 0 (ds @ [d])) = ?A @ ?D"
    using log_stream_append [of kBlockSize ds "[d]"] log_stream_single log_stream_wrap by (metis fst_conv)
  have k: "length ?A \<le> k" "k - length ?A < length ?D" using assms(3,4) unfolding s log_stream_wrap by auto
  then have "rest g = ?A @ take (k - length ?A) ?D" using assms(2) unfolding s by simp
  from read_all_cut [OF assms(1) reader_at_new [where rest = rest and g = g, OF this] refl k(2), of unknown reports ck]
  obtain r' where r': "read_all ops unknown (Reader_new g reports ck 0) = Some (ds, r')" "quiet (Reader_new g reports ck 0) r'"
    by (elim exE conjE)
  have "lr_reports (Reader_new g reports ck 0) = reports" by (simp add: Reader_new_def)
  with r' show ?thesis by (simp add: quiet_def)
qed

lemma read_stream:
  assumes "reads ops rest" and "rest g = fst (log_stream 0 ds)"
  shows "\<exists>r'. read_all ops unknown (Reader_new g reports ck 0) = Some (ds, r') \<and> lr_reports r' = reports"
proof -
  have "fst (log_enc off b d) \<noteq> []" for off b d
    using length_phys by (subst log_enc_step [OF refl]) (auto simp: phys_def)
  then have "length (fst (log_stream 0 ds)) < length (fst (log_stream 0 (ds @ [[]])))"
    using log_stream_single [of _ "[]"] by (simp add: log_stream_append)
  moreover have "rest g = take (length (fst (log_stream 0 ds))) (fst (log_stream 0 (ds @ [[]])))"
    using assms(2) by (simp add: log_stream_append)
  ultimately show ?thesis by (intro read_stream_cut [OF assms(1)]) simp_all
qed

text \<open>Files in memory.\<close>

definition mem_writable :: "byte list writable_ops" where
  "mem_writable = \<lparr>wf_Append = \<lambda>f d. (Status_OK, f @ d), wf_Flush = \<lambda>f. (Status_OK, f)\<rparr>"

definition mem_sequential :: "byte list sequential_ops" where
  "mem_sequential = \<lparr>sf_Read = \<lambda>g n. (Status_OK, take n g, drop n g), sf_Skip = \<lambda>g n. (Status_OK, drop (unat n) g)\<rparr>"

lemma mem_files: "appends mem_writable (\<lambda>f. f)" "reads mem_sequential (\<lambda>g. g)"
  by (simp_all add: appends_def reads_def mem_writable_def mem_sequential_def)

text \<open>C24: what is written to a log is read back. A writer writes some records to an empty file, a
  second writer is opened on the file at its present length, as when a log is reused, and writes more
  records; every write succeeds. A reader of the whole file then returns all records in order, those of
  both writers, and the end of the input after them, whatever the sizes of the records, and it reports no
  corruption.\<close>

theorem log_roundtrip:
  assumes "appends wops contents" and "reads rops rest" and "contents f = []"
  shows "\<exists>w1. (Writer_new f \<bind> (\<lambda>w. write_all wops w ds)) = Some (Status_OK, w1) \<and>
    (length (contents (lw_dest w1)) < 2 ^ 64 \<longrightarrow>
     (\<exists>w2. (Writer_new_at (lw_dest w1) (of_nat (length (contents (lw_dest w1)))) \<bind> (\<lambda>w. write_all wops w es)) =
        Some (Status_OK, w2) \<and>
      (\<forall>g. rest g = contents (lw_dest w2) \<longrightarrow>
        (\<exists>r. read_all rops unknown (Reader_new g reports checksum 0) = Some (ds @ es, r) \<and> lr_reports r = reports))))"
proof -
  obtain w1 where w1: "(Writer_new f \<bind> (\<lambda>w. write_all wops w ds)) = Some (Status_OK, w1)"
    "contents (lw_dest w1) = fst (log_stream 0 ds)" "lw_block_offset w1 = snd (log_stream 0 ds)"
    using write_new_eq [OF assms(1,3)] by blast
  let ?n = "length (contents (lw_dest w1))"
  have off: "snd (log_stream 0 ds) \<le> kBlockSize" "snd (log_stream 0 ds) mod kBlockSize = ?n mod kBlockSize"
    using log_stream_off [of 0 ds] w1(2) by simp_all
  obtain w where w: "Writer_new_at (lw_dest w1) (of_nat ?n) = Some w" "writer_ok w" "lw_dest w = lw_dest w1"
    "lw_block_offset w = unat (of_nat ?n :: 64 word) mod kBlockSize"
    using Writer_new_at_ok [of "lw_dest w1" "of_nat ?n"] by blast
  obtain w2 where w2: "write_all wops w es = Some (Status_OK, w2)"
    "contents (lw_dest w2) = contents (lw_dest w) @ fst (log_stream (lw_block_offset w) es)"
    using write_all_eq [OF assms(1) w(2)] by blast
  have "contents (lw_dest w2) = fst (log_stream 0 (ds @ es))" if n: "?n < 2 ^ 64"
  proof -
    have "unat (of_nat ?n :: 64 word) = ?n" using n by (simp add: unat_of_nat)
    then have "lw_block_offset w = snd (log_stream 0 ds) mod kBlockSize" using w(4) off(2) by simp
    then show ?thesis using w2(2) w(3) w1(2) log_stream_at [OF off(1)] by (simp add: log_stream_append)
  qed
  then show ?thesis using w1(1) w(1) w2(1) read_stream [OF assms(2)] by auto
qed

theorem log_roundtrip_witness:
  "\<exists>w1 w2 r. (Writer_new [] \<bind> (\<lambda>w. write_all mem_writable w [[1, 2], []])) = Some (Status_OK, w1) \<and>
    (Writer_new_at (lw_dest w1) 16 \<bind> (\<lambda>w. write_all mem_writable w [[3]])) = Some (Status_OK, w2) \<and>
    read_all mem_sequential (\<lambda>_. []) (Reader_new (lw_dest w2) (Some []) True 0) = Some ([[1, 2], [], [3]], r) \<and>
    lr_reports r = Some []"
proof -
  obtain w1 where w1: "(Writer_new [] \<bind> (\<lambda>w. write_all mem_writable w [[1, 2], []])) = Some (Status_OK, w1)"
    "length (lw_dest w1) < 2 ^ 64 \<longrightarrow>
     (\<exists>w2. (Writer_new_at (lw_dest w1) (of_nat (length (lw_dest w1))) \<bind> (\<lambda>w. write_all mem_writable w [[3]])) =
        Some (Status_OK, w2) \<and>
      (\<forall>g. g = lw_dest w2 \<longrightarrow>
        (\<exists>r. read_all mem_sequential (\<lambda>_. []) (Reader_new g (Some []) True 0) = Some ([[1, 2], []] @ [[3]], r) \<and>
          lr_reports r = Some [])))"
    using log_roundtrip [OF mem_files, of "[]" "[[1, 2], []]" "[[3]]" "\<lambda>_. []" "Some []" True] by auto
  have "lw_dest w1 = fst (log_stream 0 [[1, 2], []])"
    using write_new_eq [OF mem_files(1), of "[]" "[[1, 2], []]"] w1(1) by simp
  then have "length (lw_dest w1) = 16" by (simp add: log_enc.simps length_phys log_sizes Let_def)
  then show ?thesis using w1 by auto
qed

text \<open>C25: a log cut short by a crash. After some records were written, one more is being added and the
  machine stops, so that any part of its bytes may be missing, from all of them to the last one. A reader
  of what is left returns exactly the records that were complete, then the end of the input, and it does
  not take the torn record for a corruption.\<close>

theorem log_crash:
  assumes "appends wops contents" and "reads rops rest" and "contents f = []"
  shows "\<exists>w1 w2. (Writer_new f \<bind> (\<lambda>w. write_all wops w ds)) = Some (Status_OK, w1) \<and>
    AddRecord wops w1 d = Some (Status_OK, w2) \<and>
    (\<forall>g k. length (contents (lw_dest w1)) \<le> k \<and> k < length (contents (lw_dest w2)) \<and> rest g = take k (contents (lw_dest w2)) \<longrightarrow>
      (\<exists>r. read_all rops unknown (Reader_new g reports checksum 0) = Some (ds, r) \<and> lr_reports r = reports))"
proof -
  obtain w1 where w1: "(Writer_new f \<bind> (\<lambda>w. write_all wops w ds)) = Some (Status_OK, w1)" "writer_ok w1"
    "contents (lw_dest w1) = fst (log_stream 0 ds)" "lw_block_offset w1 = snd (log_stream 0 ds)"
    using write_new_eq [OF assms(1,3)] by blast
  obtain w2 where w2: "AddRecord wops w1 d = Some (Status_OK, w2)"
    "contents (lw_dest w2) = contents (lw_dest w1) @ fst (log_enc (lw_block_offset w1) True d)"
    using add_record_eq [OF assms(1) w1(2), of True d] by (auto simp: AddRecord_def)
  have "contents (lw_dest w2) = fst (log_stream 0 (ds @ [d]))"
    using w2(2) w1(3,4) log_stream_single [of _ d] by (simp only: log_stream_append fst_conv)
  then show ?thesis using w1(1,3) w2(1) read_stream_cut [OF assms(2)] by auto
qed

theorem log_crash_witness:
  "\<exists>w1 w2 r. (Writer_new [] \<bind> (\<lambda>w. write_all mem_writable w [[1, 2]])) = Some (Status_OK, w1) \<and>
    AddRecord mem_writable w1 [3] = Some (Status_OK, w2) \<and>
    read_all mem_sequential (\<lambda>_. []) (Reader_new (take 16 (lw_dest w2)) (Some []) True 0) = Some ([[1, 2]], r) \<and>
    lr_reports r = Some []"
proof -
  obtain w1 w2 where w: "(Writer_new [] \<bind> (\<lambda>w. write_all mem_writable w [[1, 2]])) = Some (Status_OK, w1)"
    "AddRecord mem_writable w1 [3] = Some (Status_OK, w2)"
    "\<And>k. length (lw_dest w1) \<le> k \<Longrightarrow> k < length (lw_dest w2) \<Longrightarrow>
      \<exists>r. read_all mem_sequential (\<lambda>_. []) (Reader_new (take k (lw_dest w2)) (Some []) True 0) = Some ([[1, 2]], r) \<and>
        lr_reports r = Some []"
    using log_crash [OF mem_files, of "[]" "[[1, 2]]" "[3]" "\<lambda>_. []" "Some []" True] by auto
  have w1: "lw_dest w1 = fst (log_stream 0 [[1, 2]])" "lw_block_offset w1 = snd (log_stream 0 [[1, 2]])" "writer_ok w1"
    using write_new_eq [OF mem_files(1), of "[]" "[[1, 2]]"] w(1) by simp_all
  have "lw_dest w2 = lw_dest w1 @ fst (log_enc (lw_block_offset w1) True [3])"
    using add_record_eq [OF mem_files(1) w1(3), of True "[3]"] w(2) by (auto simp: AddRecord_def)
  then have "length (lw_dest w1) = 9" "length (lw_dest w2) = 17"
    using w1(1,2) by (simp_all add: log_enc.simps length_phys log_sizes Let_def)
  then show ?thesis using w(1,2) w(3) [of 16] by auto
qed

end
