(* ===== verification/Ldb_Filter.thy ===== *)
theory Ldb_Filter
  imports Ldb_Dbformat
begin

text \<open>
  Bloom filters (\<open>util/hash.cc\<close>, \<open>util/bloom.cc\<close>) and the filter block of a table
  (\<open>table/filter_block.h\<close>, \<open>table/filter_block.cc\<close>). A filter policy is an interface of the library;
  it is a pair of arguments of the filter-block routines, and a locale states what they rely on. The
  built-in policy and the policy on internal keys are its instances.
\<close>

subsection \<open>The hash function\<close>

definition hash_m :: "32 word" where
  "hash_m = 0xc6a4a793"

function hash_loop :: "byte list \<Rightarrow> 32 word \<Rightarrow> (32 word \<times> byte list) option" where
  "hash_loop data h =
     (if length data < 4 then Some (h, data)
      else case DecodeFixed32 kLittleEndian data of
        None \<Rightarrow> None
      | Some w \<Rightarrow> let h = (h + w) * hash_m in hash_loop (drop 4 data) (h XOR drop_bit 16 h))"
  by pat_completeness auto
termination
  by (relation "measure (\<lambda>(data, _). length data)") auto

declare hash_loop.simps [simp del]

definition Hash :: "byte list \<Rightarrow> 32 word \<Rightarrow> 32 word option" where
  "Hash data seed =
     (let h = ucast (ucast seed XOR (of_nat (length data) * ucast hash_m :: 64 word)) in
      do {
        (h, rest) \<leftarrow> hash_loop data h;
        let h = (if 3 \<le> length rest then h + push_bit 16 (ucast (rest ! 2)) else h);
        let h = (if 2 \<le> length rest then h + push_bit 8 (ucast (rest ! 1)) else h);
        Some (if 1 \<le> length rest
              then (let h = (h + ucast (rest ! 0)) * hash_m in h XOR drop_bit 24 h) else h)
      })"

definition BloomHash :: "slice \<Rightarrow> 32 word option" where
  "BloomHash key = Hash key 0xbc9f1d34"

subsection \<open>The Bloom filter\<close>

record BloomFilterPolicy =
  bits_per_key :: "64 word"
  bloom_k :: nat

text \<open>The product with the constant 0.69 is cut off to a whole number, which has no value below
  minus one. The floating-point product and the exact one are cut off alike below 100, and beyond that
  the number of probes is 30 in any case.\<close>

definition BloomFilterPolicy_new :: "int \<Rightarrow> BloomFilterPolicy option" where
  "BloomFilterPolicy_new bits =
     (if bits < - 1 then None
      else
        let k = nat (bits * 69 div 100);
            k = (if k < 1 then 1 else k);
            k = (if 30 < k then 30 else k)
        in Some \<lparr>bits_per_key = of_int bits, bloom_k = k\<rparr>)"

definition bloom_delta :: "32 word \<Rightarrow> 32 word" where
  "bloom_delta h = drop_bit 17 h OR push_bit 15 h"

definition bitpos :: "32 word \<Rightarrow> 64 word \<Rightarrow> 32 word" where
  "bitpos h bits = ucast (ucast h mod bits :: 64 word)"

definition set_probe :: "32 word \<Rightarrow> 64 word \<Rightarrow> byte list \<Rightarrow> byte list option" where
  "set_probe h bits array =
     (let p = unat (bitpos h bits) in
      if bits = 0 \<or> length array \<le> p div 8 then None
      else Some (array[p div 8 := (array ! (p div 8)) OR push_bit (p mod 8) 1]))"

fun set_probes :: "nat \<Rightarrow> 32 word \<Rightarrow> 32 word \<Rightarrow> 64 word \<Rightarrow> byte list \<Rightarrow> byte list option" where
  "set_probes 0 h delta bits array = Some array"
| "set_probes (Suc j) h delta bits array = do {
     array \<leftarrow> set_probe h bits array;
     set_probes j (h + delta) delta bits array
   }"

fun add_keys :: "BloomFilterPolicy \<Rightarrow> 64 word \<Rightarrow> slice list \<Rightarrow> byte list \<Rightarrow> byte list option" where
  "add_keys p bits [] array = Some array"
| "add_keys p bits (key # keys) array = do {
     h \<leftarrow> BloomHash key;
     array \<leftarrow> set_probes (bloom_k p) h (bloom_delta h) bits array;
     add_keys p bits keys array
   }"

definition Bloom_CreateFilter :: "BloomFilterPolicy \<Rightarrow> slice list \<Rightarrow> slice \<Rightarrow> slice option" where
  "Bloom_CreateFilter p keys dst =
     (let bits = of_nat (length keys) * bits_per_key p;
          bits = (if bits < 64 then 64 else bits);
          bytes = (bits + 7) div 8;
          bits = bytes * 8;
          array = replicate (unat bytes) 0 @ [of_nat (bloom_k p)]
      in do { array \<leftarrow> add_keys p bits keys array; Some (dst @ array) })"

fun test_probes :: "nat \<Rightarrow> 32 word \<Rightarrow> 32 word \<Rightarrow> 64 word \<Rightarrow> byte list \<Rightarrow> bool option" where
  "test_probes 0 h delta bits array = Some True"
| "test_probes (Suc j) h delta bits array =
     (let p = unat (bitpos h bits) in
      if bits = 0 \<or> length array \<le> p div 8 then None
      else if (array ! (p div 8)) AND push_bit (p mod 8) 1 = 0 then Some False
      else test_probes j (h + delta) delta bits array)"

definition Bloom_KeyMayMatch :: "slice \<Rightarrow> slice \<Rightarrow> bool option" where
  "Bloom_KeyMayMatch key bloom_filter =
     (let len = length bloom_filter in
      if len < 2 then Some False
      else
        let bits = of_nat (len - 1) * 8 :: 64 word;
            k = scast (bloom_filter ! (len - 1)) :: 64 word
        in if 30 < k then Some True
           else do { h \<leftarrow> BloomHash key; test_probes (unat k) h (bloom_delta h) bits bloom_filter })"

subsection \<open>No false negatives\<close>

lemma hash_loop_defined: "\<exists>h' rest. hash_loop data h = Some (h', rest)"
proof (induction data h rule: hash_loop.induct)
  case (1 data h)
  show ?case
  proof (cases "length data < 4")
    case False
    then obtain w where w: "DecodeFixed32 kLittleEndian data = Some w"
      by (cases kLittleEndian) (auto simp: DecodeFixed32_def)
    show ?thesis using "1.IH" [OF False w refl] by (subst hash_loop.simps) (simp add: w False Let_def)
  qed (subst hash_loop.simps, simp)
qed

lemma Hash_defined: "\<exists>h. Hash data seed = Some h"
  using hash_loop_defined [of data "ucast (ucast seed XOR (of_nat (length data) * ucast hash_m :: 64 word))"]
  by (auto simp: Hash_def Let_def)

text \<open>The probes of a key.\<close>

fun probes :: "nat \<Rightarrow> 32 word \<Rightarrow> 32 word \<Rightarrow> 64 word \<Rightarrow> nat list" where
  "probes 0 h delta bits = []"
| "probes (Suc j) h delta bits = unat (bitpos h bits) # probes j (h + delta) delta bits"

definition probe_set :: "byte list \<Rightarrow> nat \<Rightarrow> bool" where
  "probe_set array p \<longleftrightarrow> bit (array ! (p div 8)) (p mod 8)"

text \<open>A later array has all the bits an earlier one has, in the first \<open>n\<close> bytes, and agrees beyond.\<close>

definition grows :: "nat \<Rightarrow> byte list \<Rightarrow> byte list \<Rightarrow> bool" where
  "grows n a b \<longleftrightarrow> length a = length b \<and> drop n a = drop n b \<and> (\<forall>p < n * 8. probe_set a p \<longrightarrow> probe_set b p)"

lemma grows_refl: "grows n a a"
  by (simp add: grows_def)

lemma grows_trans: "grows n a b \<Longrightarrow> grows n b c \<Longrightarrow> grows n a c"
  by (simp add: grows_def)

lemma bitpos_less:
  assumes "bits \<noteq> 0" shows "unat (bitpos h bits) < unat bits"
proof -
  have "unat (ucast h mod bits :: 64 word) < unat bits" using assms by (simp add: unat_mod_distrib unat_gt_0)
  moreover have "unat (bitpos h bits) \<le> unat (ucast h mod bits :: 64 word)"
    by (simp add: bitpos_def unsigned_ucast_eq take_bit_nat_less_eq_self)
  ultimately show ?thesis by simp
qed

lemma set_probe_grows:
  assumes "unat bits = n * 8" and "bits \<noteq> 0" and "n \<le> length array"
  shows "\<exists>array'. set_probe h bits array = Some array' \<and> grows n array array' \<and> probe_set array' (unat (bitpos h bits))"
proof -
  let ?p = "unat (bitpos h bits)"
  have p: "?p div 8 < n" using bitpos_less [OF assms(2), of h] assms(1) by simp
  let ?a = "array[?p div 8 := (array ! (?p div 8)) OR push_bit (?p mod 8) 1]"
  have "set_probe h bits array = Some ?a" using p assms by (simp add: set_probe_def Let_def)
  moreover have "grows n array ?a"
    using p assms(3) by (auto simp: grows_def probe_set_def nth_list_update bit_or_iff)
  moreover have "probe_set ?a ?p"
    using p assms(3) by (simp add: probe_set_def bit_simps)
  ultimately show ?thesis by blast
qed

lemma set_probes_grows:
  assumes "unat bits = n * 8" and "bits \<noteq> 0" and "n \<le> length array"
  shows "\<exists>array'. set_probes k h delta bits array = Some array' \<and> grows n array array' \<and>
    (\<forall>p \<in> set (probes k h delta bits). probe_set array' p)"
  using assms(3)
proof (induction k arbitrary: h array)
  case (Suc k)
  obtain a where a: "set_probe h bits array = Some a" "grows n array a" "probe_set a (unat (bitpos h bits))"
    using set_probe_grows [OF assms(1,2) Suc.prems] by blast
  have "n \<le> length a" using a(2) Suc.prems by (simp add: grows_def)
  from Suc.IH [OF this, of "h + delta"] obtain a' where a': "set_probes k (h + delta) delta bits a = Some a'" "grows n a a'"
    "\<forall>p \<in> set (probes k (h + delta) delta bits). probe_set a' p" by blast
  have "probe_set a' (unat (bitpos h bits))"
    using a(3) a'(2) bitpos_less [OF assms(2), of h] assms(1) by (simp add: grows_def)
  then show ?case using a a' grows_trans by auto
qed (simp add: grows_refl)

lemma add_keys_grows:
  assumes "unat bits = n * 8" and "bits \<noteq> 0" and "n \<le> length array"
  shows "\<exists>array'. add_keys p bits keys array = Some array' \<and> grows n array array' \<and>
    (\<forall>key \<in> set keys. \<exists>h. BloomHash key = Some h \<and> (\<forall>q \<in> set (probes (bloom_k p) h (bloom_delta h) bits). probe_set array' q))"
  using assms(3)
proof (induction keys arbitrary: array)
  case (Cons key keys)
  obtain h where h: "BloomHash key = Some h" using Hash_defined by (auto simp: BloomHash_def)
  obtain a where a: "set_probes (bloom_k p) h (bloom_delta h) bits array = Some a" "grows n array a"
    "\<forall>q \<in> set (probes (bloom_k p) h (bloom_delta h) bits). probe_set a q"
    using set_probes_grows [OF assms(1,2) Cons.prems] by blast
  have "n \<le> length a" using a(2) Cons.prems by (simp add: grows_def)
  from Cons.IH [OF this] obtain a' where a': "add_keys p bits keys a = Some a'" "grows n a a'"
    "\<forall>key \<in> set keys. \<exists>h. BloomHash key = Some h \<and> (\<forall>q \<in> set (probes (bloom_k p) h (bloom_delta h) bits). probe_set a' q)"
    by blast
  have "q < n * 8" if "q \<in> set (probes j g delta bits)" for q j g delta
    using that bitpos_less [OF assms(2)] assms(1) by (induction j arbitrary: g) auto
  then have "\<forall>q \<in> set (probes (bloom_k p) h (bloom_delta h) bits). probe_set a' q"
    using a(3) a'(2) by (auto simp: grows_def)
  then show ?case using h a(1,2) a' grows_trans by auto
qed (simp add: grows_refl)

lemma test_probes_true:
  assumes "unat bits = n * 8" and "bits \<noteq> 0" and "n \<le> length array" and "\<forall>p \<in> set (probes k h delta bits). probe_set array p"
  shows "test_probes k h delta bits array = Some True"
  using assms(4)
proof (induction k arbitrary: h)
  case (Suc k)
  let ?p = "unat (bitpos h bits)"
  have "?p div 8 < n" using bitpos_less [OF assms(2), of h] assms(1) by simp
  moreover have "(array ! (?p div 8)) AND push_bit (?p mod 8) 1 \<noteq> 0"
  proof
    assume "(array ! (?p div 8)) AND push_bit (?p mod 8) 1 = 0"
    then have "\<not> bit ((array ! (?p div 8)) AND push_bit (?p mod 8) 1) (?p mod 8)" by simp
    then show False using Suc.prems by (simp add: probe_set_def bit_simps)
  qed
  ultimately show ?case using Suc assms(2,3) by (auto simp: Let_def)
qed simp

lemma scast_small: "k \<le> 30 \<Longrightarrow> scast (of_nat k :: 8 word) = (of_nat k :: 64 word)"
proof -
  assume k: "k \<le> 30"
  have "sint (of_nat k :: 8 word) = int k"
    using k by (simp add: sint_uint unsigned_of_nat take_bit_nat_eq_self signed_take_bit_int_eq_self)
  then show ?thesis by (simp add: scast_eq)
qed

lemma bloom_filter:
  assumes "bits_per_key p < 2 ^ 31" and "length keys < 2 ^ 31" and "bloom_k p \<le> 30"
  shows "\<exists>f. Bloom_CreateFilter p keys dst = Some (dst @ f) \<and> (\<forall>key \<in> set keys. Bloom_KeyMayMatch key f = Some True)"
proof -
  define B where "B = (let bits = of_nat (length keys) * bits_per_key p in if bits < 64 then 64 else bits)"
  define bytes where "bytes = (B + 7) div 8"
  define n where "n = unat bytes"
  have "unat (of_nat (length keys) * bits_per_key p) < 2 ^ 62"
  proof -
    have "unat (bits_per_key p) < 2 ^ 31" using assms(1) by (simp add: word_less_nat_alt)
    then have "length keys * unat (bits_per_key p) < 2 ^ 31 * 2 ^ 31" using assms(2) by (intro mult_strict_mono') simp_all
    then show ?thesis using assms(2) by (simp add: unat_word_ariths unat_of_nat)
  qed
  then have B: "64 \<le> unat B" "unat B < 4611686018427387904" by (auto simp: B_def Let_def word_less_nat_alt not_less)
  then have n: "n = (unat B + 7) div 8" by (simp add: n_def bytes_def unat_div_distrib unat_word_ariths)
  then have n8: "8 \<le> n" "n < 1152921504606846976"
    using B by (simp_all add: n)
  then have bits: "unat (bytes * 8) = n * 8" using n_def by (simp add: unat_word_ariths)
  then have nz: "bytes * 8 \<noteq> 0" using n8(1) by (metis mult_eq_0_iff not_numeral_le_zero numeral_eq_iff unat_0 zero_neq_numeral)
  let ?a = "replicate n 0 @ [of_nat (bloom_k p)] :: byte list"
  have "n \<le> length ?a" by simp
  from add_keys_grows [OF bits nz this, of p keys] obtain f where f: "add_keys p (bytes * 8) keys ?a = Some f" "grows n ?a f"
    "\<forall>key \<in> set keys. \<exists>h. BloomHash key = Some h \<and> (\<forall>q \<in> set (probes (bloom_k p) h (bloom_delta h) (bytes * 8)). probe_set f q)"
    by blast
  have len: "length f = Suc n" using f(2) by (simp add: grows_def)
  have "drop n f = [of_nat (bloom_k p)]" using f(2) by (simp add: grows_def)
  then have last: "f ! n = of_nat (bloom_k p)" using len by (metis Cons_nth_drop_Suc lessI list.inject)
  have c: "Bloom_CreateFilter p keys dst = Some (dst @ f)"
    using f(1) by (simp add: Bloom_CreateFilter_def Let_def n_def bytes_def B_def)
  have bits2: "of_nat n * 8 = bytes * 8" by (simp add: n_def)
  have k: "unat (of_nat (bloom_k p) :: 64 word) = bloom_k p" "\<not> 30 < (of_nat (bloom_k p) :: 64 word)"
    using assms(3) by (simp_all add: unat_of_nat word_less_nat_alt)
  have "Bloom_KeyMayMatch key f = Some True" if m: "key \<in> set keys" for key
  proof -
    obtain h where h: "BloomHash key = Some h" "\<forall>q \<in> set (probes (bloom_k p) h (bloom_delta h) (bytes * 8)). probe_set f q"
      using f(3) m by blast
    have "n \<le> length f" using len by simp
    from test_probes_true [OF bits nz this h(2)] show ?thesis
      using n8(1) h(1) k by (simp add: Bloom_KeyMayMatch_def len last Let_def bits2 scast_small [OF assms(3)])
  qed
  then show ?thesis using c by blast
qed

subsection \<open>What a filter policy promises\<close>

locale filter_policy =
  fixes create :: "slice list \<Rightarrow> slice \<Rightarrow> slice option"
    and may_match :: "slice \<Rightarrow> slice \<Rightarrow> bool option"
    and admitted :: "slice \<Rightarrow> bool"
  assumes no_false_negative: "length keys < 2 ^ 31 \<Longrightarrow> \<forall>k \<in> set keys. admitted k \<Longrightarrow>
      \<exists>f. create keys dst = Some (dst @ f) \<and> (\<forall>k \<in> set keys. may_match k f = Some True)"

text \<open>The built-in policy keeps the promise.\<close>

lemma bloom_policy:
  assumes "BloomFilterPolicy_new b = Some p" and "0 \<le> b" and "b < 2 ^ 31"
  shows "filter_policy (Bloom_CreateFilter p) Bloom_KeyMayMatch (\<lambda>_. True)"
proof
  fix keys :: "slice list" and dst
  assume n: "length keys < 2 ^ 31"
  have p: "bits_per_key p = of_int b" "bloom_k p \<le> 30"
    using assms by (auto simp: BloomFilterPolicy_new_def Let_def split: if_splits)
  have "unat (of_int b :: 64 word) = nat b"
    using assms(2,3) by (simp add: unsigned_of_int take_bit_int_eq_self)
  then have "bits_per_key p < 2 ^ 31" using assms(2,3) p(1) by (simp add: word_less_nat_alt)
  from bloom_filter [OF this n p(2)]
  show "\<exists>f. Bloom_CreateFilter p keys dst = Some (dst @ f) \<and> (\<forall>k \<in> set keys. Bloom_KeyMayMatch k f = Some True)" .
qed

definition bloom_10 :: BloomFilterPolicy where
  "bloom_10 = \<lparr>bits_per_key = 10, bloom_k = 6\<rparr>"

lemma bloom_10_new: "BloomFilterPolicy_new 10 = Some bloom_10"
  by (simp add: BloomFilterPolicy_new_def bloom_10_def)

interpretation bloom_10: filter_policy "Bloom_CreateFilter bloom_10" Bloom_KeyMayMatch "\<lambda>_. True"
  by (rule bloom_policy [OF bloom_10_new]) simp_all

text \<open>The policy on internal keys keeps it when the policy on user keys does.\<close>

locale user_filter_policy = filter_policy

sublocale user_filter_policy \<subseteq> internal: filter_policy "InternalFilter_CreateFilter create" "InternalFilter_KeyMayMatch may_match"
  "\<lambda>k. 8 \<le> length k \<and> (\<forall>u. ExtractUserKey k = Some u \<longrightarrow> admitted u)"
proof
  fix keys dst
  assume n: "length keys < 2 ^ 31" and k: "\<forall>k \<in> set keys. 8 \<le> length k \<and> (\<forall>u. ExtractUserKey k = Some u \<longrightarrow> admitted u)"
  define us where "us = map (\<lambda>k. take (length k - 8) k) keys"
  have x: "ExtractUserKey k = Some (take (length k - 8) k)" if "k \<in> set keys" for k
    using k that by (auto simp: ExtractUserKey_def)
  then have "those (map ExtractUserKey keys) = Some us" unfolding us_def by (induction keys) auto
  moreover have "length us < 2 ^ 31" using n by (simp add: us_def)
  moreover have "\<forall>u \<in> set us. admitted u" using k x by (auto simp: us_def)
  ultimately obtain f where "InternalFilter_CreateFilter create keys dst = Some (dst @ f)" "\<forall>u \<in> set us. may_match u f = Some True"
    using no_false_negative [of us dst] by (auto simp: InternalFilter_CreateFilter_def)
  then show "\<exists>f. InternalFilter_CreateFilter create keys dst = Some (dst @ f) \<and>
      (\<forall>k \<in> set keys. InternalFilter_KeyMayMatch may_match k f = Some True)"
    using x by (auto simp: InternalFilter_KeyMayMatch_def us_def)
qed

interpretation bloom_10_internal: user_filter_policy "Bloom_CreateFilter bloom_10" Bloom_KeyMayMatch "\<lambda>_. True"
  by (rule user_filter_policy.intro) (rule bloom_10.filter_policy_axioms)

text \<open>C26: the Bloom filter has no false negatives. For every policy the constructor makes from a
  non-negative number of bits per key below 2^31, and any list of fewer than 2^31 keys, building the
  filter is defined and appends it to the destination, whatever is there already, and each of the keys
  may match it; the reader takes the number of probes from the filter, so a policy with other parameters
  answers the same.\<close>

theorem bloom_no_false_negatives:
  assumes "BloomFilterPolicy_new b = Some p" and "0 \<le> b" and "b < 2 ^ 31" and "length keys < 2 ^ 31"
  shows "\<exists>f. Bloom_CreateFilter p keys dst = Some (dst @ f) \<and> (\<forall>key \<in> set keys. Bloom_KeyMayMatch key f = Some True)"
  using filter_policy.no_false_negative [OF bloom_policy [OF assms(1-3)] assms(4)] by simp

theorem bloom_no_false_negatives_witness:
  "\<exists>f. Bloom_CreateFilter bloom_10 [[1, 2, 3], [], [255]] [7] = Some ([7] @ f) \<and>
    (\<forall>key \<in> set [[1, 2, 3], [], [255]]. Bloom_KeyMayMatch key f = Some True)"
  by (rule bloom_no_false_negatives [OF bloom_10_new]) simp_all

subsection \<open>The filter block\<close>

definition kFilterBaseLg :: nat where
  "kFilterBaseLg = 11"

definition kFilterBase :: "64 word" where
  "kFilterBase = push_bit kFilterBaseLg 1"

record FilterBlockBuilder =
  fb_keys :: "byte list"
  fb_start :: "nat list"
  fb_result :: "byte list"
  fb_tmp_keys :: "slice list"
  fb_filter_offsets :: "32 word list"

definition FilterBlockBuilder_new :: FilterBlockBuilder where
  "FilterBlockBuilder_new = \<lparr>fb_keys = [], fb_start = [], fb_result = [], fb_tmp_keys = [], fb_filter_offsets = []\<rparr>"

definition tmp_key :: "FilterBlockBuilder \<Rightarrow> nat \<Rightarrow> slice" where
  "tmp_key b i = take (fb_start b ! (i + 1) - fb_start b ! i) (drop (fb_start b ! i) (fb_keys b))"

definition GenerateFilter ::
  "(slice list \<Rightarrow> slice \<Rightarrow> slice option) \<Rightarrow> FilterBlockBuilder \<Rightarrow> FilterBlockBuilder option" where
  "GenerateFilter create b =
     (let num_keys = length (fb_start b) in
      if num_keys = 0
      then Some (b\<lparr>fb_filter_offsets := fb_filter_offsets b @ [of_nat (length (fb_result b))]\<rparr>)
      else
        let b = b\<lparr>fb_start := fb_start b @ [length (fb_keys b)]\<rparr>;
            b = b\<lparr>fb_tmp_keys := map (tmp_key b) [0 ..< num_keys]\<rparr>;
            b = b\<lparr>fb_filter_offsets := fb_filter_offsets b @ [of_nat (length (fb_result b))]\<rparr>
        in do {
             r \<leftarrow> create (fb_tmp_keys b) (fb_result b);
             Some (b\<lparr>fb_result := r, fb_tmp_keys := [], fb_keys := [], fb_start := []\<rparr>)
           })"

partial_function (option) start_block_loop ::
  "(slice list \<Rightarrow> slice \<Rightarrow> slice option) \<Rightarrow> nat \<Rightarrow> FilterBlockBuilder \<Rightarrow> FilterBlockBuilder option" where
  "start_block_loop create filter_index b =
     (if length (fb_filter_offsets b) < filter_index
      then do { b \<leftarrow> GenerateFilter create b; start_block_loop create filter_index b }
      else Some b)"

declare start_block_loop.simps [code]

text \<open>The assertion makes going back to an earlier offset undefined.\<close>

definition StartBlock ::
  "(slice list \<Rightarrow> slice \<Rightarrow> slice option) \<Rightarrow> 64 word \<Rightarrow> FilterBlockBuilder \<Rightarrow> FilterBlockBuilder option" where
  "StartBlock create block_offset b =
     (let filter_index = unat (block_offset div kFilterBase) in
      if filter_index < length (fb_filter_offsets b) then None
      else start_block_loop create filter_index b)"

definition FilterBlock_AddKey :: "slice \<Rightarrow> FilterBlockBuilder \<Rightarrow> FilterBlockBuilder" where
  "FilterBlock_AddKey key b = b\<lparr>fb_start := fb_start b @ [length (fb_keys b)], fb_keys := fb_keys b @ key\<rparr>"

definition FilterBlock_Finish ::
  "(slice list \<Rightarrow> slice \<Rightarrow> slice option) \<Rightarrow> FilterBlockBuilder \<Rightarrow> slice option" where
  "FilterBlock_Finish create b = do {
     b \<leftarrow> (if fb_start b \<noteq> [] then GenerateFilter create b else Some b);
     let array_offset = of_nat (length (fb_result b));
     let r = fold (\<lambda>off r. PutFixed32 kLittleEndian r off) (fb_filter_offsets b) (fb_result b);
     Some (PutFixed32 kLittleEndian r array_offset @ [of_nat kFilterBaseLg])
   }"

text \<open>The reader keeps the contents and the position of the offset array in them. The parameter is a
  signed character; shifting by 64 or more is undefined.\<close>

record FilterBlockReader =
  fr_data :: slice
  fr_offset :: nat
  fr_num :: nat
  fr_base_lg :: "64 word"

definition FilterBlockReader_new :: "slice \<Rightarrow> FilterBlockReader option" where
  "FilterBlockReader_new contents =
     (let n = length contents;
          r = \<lparr>fr_data = [], fr_offset = 0, fr_num = 0, fr_base_lg = 0\<rparr>
      in if n < 5 then Some r
         else do {
           let r = r\<lparr>fr_base_lg := scast (contents ! (n - 1))\<rparr>;
           last_word \<leftarrow> DecodeFixed32 kLittleEndian (drop (n - 5) contents);
           if n - 5 < unat last_word then Some r
           else Some (r\<lparr>fr_data := contents, fr_offset := unat last_word, fr_num := (n - 5 - unat last_word) div 4\<rparr>)
         })"

definition FilterBlock_KeyMayMatch ::
  "(slice \<Rightarrow> slice \<Rightarrow> bool option) \<Rightarrow> FilterBlockReader \<Rightarrow> 64 word \<Rightarrow> slice \<Rightarrow> bool option" where
  "FilterBlock_KeyMayMatch may_match r block_offset key =
     (if 64 \<le> fr_base_lg r then None
      else
        let index = unat (drop_bit (unat (fr_base_lg r)) block_offset) in
        if index < fr_num r then do {
          start \<leftarrow> DecodeFixed32 kLittleEndian (drop (fr_offset r + index * 4) (fr_data r));
          limit \<leftarrow> DecodeFixed32 kLittleEndian (drop (fr_offset r + index * 4 + 4) (fr_data r));
          if start \<le> limit \<and> unat limit \<le> fr_offset r
          then may_match key (take (unat (limit - start)) (drop (unat start) (fr_data r)))
          else if start = limit then Some False
          else Some True
        }
        else Some True)"

text \<open>The calls a table makes: a block is started, and its keys are added; at last the filter block is
  finished.\<close>

fun add_blocks ::
  "(slice list \<Rightarrow> slice \<Rightarrow> slice option) \<Rightarrow> (64 word \<times> slice list) list \<Rightarrow> FilterBlockBuilder \<Rightarrow> FilterBlockBuilder option" where
  "add_blocks create [] b = Some b"
| "add_blocks create ((off, keys) # blocks) b = do {
     b \<leftarrow> StartBlock create off b;
     add_blocks create blocks (fold FilterBlock_AddKey keys b)
   }"

definition filter_block :: "(slice list \<Rightarrow> slice \<Rightarrow> slice option) \<Rightarrow> (64 word \<times> slice list) list \<Rightarrow> slice option" where
  "filter_block create blocks = add_blocks create blocks FilterBlockBuilder_new \<bind> FilterBlock_Finish create"

subsection \<open>What the filter block holds\<close>

text \<open>The index of the filter for a block.\<close>

definition filter_of :: "64 word \<Rightarrow> nat" where
  "filter_of off = unat off div 2048"

definition kept :: "slice list list \<Rightarrow> 64 word \<times> slice list \<Rightarrow> bool" where
  "kept groups = (\<lambda>(off, ks). filter_of off < length groups \<and> set ks \<subseteq> set (groups ! filter_of off))"

lemma kept_more: "kept groups x \<Longrightarrow> kept (groups @ rest) x"
  by (auto simp: kept_def nth_append split: prod.splits)

text \<open>The groups of keys that have their filters, those filters, and the keys that are waiting.\<close>

context filter_policy
begin

definition segment_ok :: "slice list \<Rightarrow> slice \<Rightarrow> bool" where
  "segment_ok ks f \<longleftrightarrow> (\<forall>k \<in> set ks. may_match k f = Some True)"

definition builds :: "FilterBlockBuilder \<Rightarrow> slice list list \<Rightarrow> slice list \<Rightarrow> slice list \<Rightarrow> bool" where
  "builds b groups segs pending \<longleftrightarrow>
     list_all2 segment_ok groups segs \<and> fb_result b = concat segs \<and>
     fb_filter_offsets b = map (\<lambda>i. of_nat (length (concat (take i segs)))) [0 ..< length segs] \<and>
     fb_keys b = concat pending \<and> fb_start b = map (\<lambda>i. length (concat (take i pending))) [0 ..< length pending] \<and>
     length pending < 2 ^ 31 \<and> (\<forall>k \<in> set pending. admitted k)"

lemma tmp_keys:
  assumes "fb_keys b = concat ks" and "fb_start b = map (\<lambda>i. length (concat (take i ks))) [0 ..< length ks]"
  shows "map (tmp_key (b\<lparr>fb_start := fb_start b @ [length (fb_keys b)]\<rparr>)) [0 ..< length (fb_start b)] = ks"
proof (rule nth_equalityI)
  fix i assume "i < length (map (tmp_key (b\<lparr>fb_start := fb_start b @ [length (fb_keys b)]\<rparr>)) [0 ..< length (fb_start b)])"
  then have i: "i < length ks" using assms(2) by simp
  have "fb_start b @ [length (fb_keys b)] = map (\<lambda>i. length (concat (take i ks))) [0 ..< Suc (length ks)]"
    using assms by simp
  moreover have "concat ks = concat (take i ks) @ ks ! i @ concat (drop (Suc i) ks)"
    using i by (metis append_take_drop_id concat.simps(2) concat_append Cons_nth_drop_Suc)
  moreover have "take (Suc i) ks = take i ks @ [ks ! i]" using i by (rule take_Suc_conv_app_nth)
  ultimately show "map (tmp_key (b\<lparr>fb_start := fb_start b @ [length (fb_keys b)]\<rparr>)) [0 ..< length (fb_start b)] ! i = ks ! i"
    using i assms by (simp add: tmp_key_def nth_append del: upt_Suc)
qed (use assms in simp)

lemma generate:
  assumes "builds b groups segs pending"
  shows "\<exists>b' f. GenerateFilter create b = Some b' \<and> builds b' (groups @ [pending]) (segs @ [f]) []"
proof (cases "pending = []")
  case True
  then show ?thesis using assms
    by (intro exI [of _ "b\<lparr>fb_filter_offsets := fb_filter_offsets b @ [of_nat (length (fb_result b))]\<rparr>"] exI [of _ "[]"])
      (auto simp: GenerateFilter_def builds_def segment_ok_def intro: list_all2_appendI)
next
  case False
  have p: "fb_keys b = concat pending" "fb_start b = map (\<lambda>i. length (concat (take i pending))) [0 ..< length pending]"
    "length pending < 2 ^ 31" "\<forall>k \<in> set pending. admitted k"
    using assms by (simp_all add: builds_def)
  obtain f where f: "create pending (fb_result b) = Some (fb_result b @ f)" "\<forall>k \<in> set pending. may_match k f = Some True"
    using no_false_negative [OF p(3,4)] by blast
  have "length (fb_start b) \<noteq> 0" using p(2) False by simp
  then have "\<exists>b'. GenerateFilter create b = Some b' \<and> fb_result b' = fb_result b @ f \<and> fb_keys b' = [] \<and> fb_start b' = [] \<and>
      fb_filter_offsets b' = fb_filter_offsets b @ [of_nat (length (fb_result b))]"
    unfolding GenerateFilter_def Let_def tmp_keys [OF p(1,2)] by (simp add: f(1))
  then show ?thesis using assms f(2)
    by (fastforce simp: builds_def segment_ok_def intro: list_all2_appendI)
qed

lemma start_loop:
  assumes "builds b groups segs pending" and "length segs \<le> n"
  shows "\<exists>b' groups' segs' pending'. start_block_loop create n b = Some b' \<and> builds b' groups' segs' pending' \<and>
    length segs' = n \<and>
    (\<exists>rest. groups' @ [pending'] = groups @ [pending] @ rest) \<and> pending' = (if length segs = n then pending else [])"
  using assms
proof (induction "n - length segs" arbitrary: b groups segs pending)
  case 0
  then show ?case
    by (subst start_block_loop.simps) (auto simp: builds_def)
next
  case (Suc m)
  have less: "length (fb_filter_offsets b) < n" using Suc.prems Suc.hyps(2) by (simp add: builds_def)
  obtain b1 f where b1: "GenerateFilter create b = Some b1" "builds b1 (groups @ [pending]) (segs @ [f]) []"
    using generate [OF Suc.prems(1)] by blast
  have "m = n - length (segs @ [f])" "length (segs @ [f]) \<le> n" using Suc.hyps(2) by simp_all
  from Suc.hyps(1) [OF this(1) b1(2) this(2)] obtain b' groups' segs' pending' rest where
    b': "start_block_loop create n b1 = Some b'" "builds b' groups' segs' pending'" "length segs' = n"
      "groups' @ [pending'] = (groups @ [pending]) @ [[]] @ rest" "pending' = (if length (segs @ [f]) = n then [] else [])" by blast
  have "start_block_loop create n b = Some b'"
    using less b1(1) b'(1) by (subst start_block_loop.simps) simp
  moreover have "\<exists>rest. groups' @ [pending'] = groups @ [pending] @ rest" using b'(4) by auto
  moreover have "pending' = (if length segs = n then pending else [])" using b'(5) Suc.hyps(2) by auto
  ultimately show ?case using b'(2,3) by blast
qed

lemma add_key:
  assumes "builds b groups segs pending" and "admitted k" and "Suc (length pending) < 2 ^ 31"
  shows "builds (FilterBlock_AddKey k b) groups segs (pending @ [k])"
  using assms by (auto simp: builds_def FilterBlock_AddKey_def)

lemma add_all:
  assumes "builds b groups segs pending" and "\<forall>k \<in> set ks. admitted k" and "length pending + length ks < 2 ^ 31"
  shows "builds (fold FilterBlock_AddKey ks b) groups segs (pending @ ks)"
  using assms
proof (induction ks arbitrary: b pending)
  case (Cons k ks)
  have "builds (FilterBlock_AddKey k b) groups segs (pending @ [k])"
    using Cons.prems by (intro add_key) simp_all
  from Cons.IH [OF this] Cons.prems show ?case by simp
qed simp

lemma blocks_added:
  assumes "builds b groups segs pending" and "sorted (map (filter_of \<circ> fst) blocks)"
    and "\<forall>x \<in> set blocks. length segs \<le> filter_of (fst x)"
    and "\<forall>x \<in> set blocks. \<forall>k \<in> set (snd x). admitted k"
    and "length pending + sum_list (map (length \<circ> snd) blocks) < 2 ^ 31"
  shows "\<exists>b' groups' segs' pending'. add_blocks create blocks b = Some b' \<and> builds b' groups' segs' pending' \<and>
    (\<forall>x. kept (groups @ [pending]) x \<longrightarrow> kept (groups' @ [pending']) x) \<and>
    (\<forall>x \<in> set blocks. kept (groups' @ [pending']) x)"
  using assms
proof (induction blocks arbitrary: b groups segs pending)
  case Nil
  then show ?case by auto
next
  case (Cons x blocks)
  obtain off ks where x: "x = (off, ks)" by (cases x)
  let ?n = "filter_of off"
  have le: "length segs \<le> ?n" using Cons.prems(3) x by simp
  from start_loop [OF Cons.prems(1) le] obtain b1 g1 s1 p1 rest where
    b1: "start_block_loop create ?n b = Some b1" "builds b1 g1 s1 p1" "length s1 = ?n"
      "g1 @ [p1] = groups @ [pending] @ rest" "p1 = (if length segs = ?n then pending else [])" by blast
  have idx: "unat (off div kFilterBase) = ?n"
    by (simp add: filter_of_def kFilterBase_def kFilterBaseLg_def unat_div_distrib)
  have start: "StartBlock create off b = Some b1"
    using b1(1) le Cons.prems(1) by (simp add: StartBlock_def idx Let_def builds_def)
  define b2 where "b2 = fold FilterBlock_AddKey ks b1"
  have b2: "builds b2 g1 s1 (p1 @ ks)"
    unfolding b2_def using Cons.prems(4,5) x b1(5) by (intro add_all [OF b1(2)]) auto
  have "\<forall>y \<in> set blocks. length s1 \<le> filter_of (fst y)" "sorted (map (filter_of \<circ> fst) blocks)"
    "length (p1 @ ks) + sum_list (map (length \<circ> snd) blocks) < 2 ^ 31"
    using Cons.prems(2,5) x b1(3,5) by (auto simp: o_def split: if_splits)
  from Cons.IH [OF b2 this(2,1) _ this(3)] Cons.prems(4) obtain b' groups' segs' pending' where
    b': "add_blocks create blocks b2 = Some b'" "builds b' groups' segs' pending'"
      "\<forall>x. kept (g1 @ [p1 @ ks]) x \<longrightarrow> kept (groups' @ [pending']) x" "\<forall>x \<in> set blocks. kept (groups' @ [pending']) x"
    by auto
  have len: "length g1 = ?n" using b1(2,3) by (auto simp: builds_def dest: list_all2_lengthD)
  have "kept (g1 @ [p1 @ ks]) x" using len by (simp add: kept_def x nth_append)
  moreover have "kept (g1 @ [p1 @ ks]) y" if "kept (groups @ [pending]) y" for y
  proof -
    have "kept (g1 @ [p1]) y" using that kept_more [of "groups @ [pending]" y] b1(4) by simp
    then show ?thesis by (auto simp: kept_def nth_append split: prod.splits if_splits)
  qed
  moreover have "add_blocks create (x # blocks) b = Some b'" using start b'(1) by (simp add: x b2_def)
  ultimately have "add_blocks create (x # blocks) b = Some b' \<and> builds b' groups' segs' pending' \<and>
      (\<forall>x. kept (groups @ [pending]) x \<longrightarrow> kept (groups' @ [pending']) x) \<and>
      (\<forall>y \<in> set (x # blocks). kept (groups' @ [pending']) y)"
    using b'(2-4) by (simp del: split_paired_All)
  then show ?case by blast
qed

text \<open>The finished block, and what the reader makes of it.\<close>

definition block_bytes :: "slice list \<Rightarrow> slice" where
  "block_bytes segs = concat segs @
     concat (map (\<lambda>i. EncodeFixed32 kLittleEndian (of_nat (length (concat (take i segs))))) [0 ..< Suc (length segs)]) @ [11]"

lemma fold_put: "fold (\<lambda>off r. PutFixed32 kLittleEndian r off) offs r = r @ concat (map (EncodeFixed32 kLittleEndian) offs)"
  by (induction offs arbitrary: r) (simp_all add: PutFixed32_def)

lemma finish:
  assumes "builds b groups segs pending"
  shows "\<exists>groups' segs'. FilterBlock_Finish create b = Some (block_bytes segs') \<and> list_all2 segment_ok groups' segs' \<and>
    (\<forall>off ks. kept (groups @ [pending]) (off, ks) \<and> ks \<noteq> [] \<longrightarrow> kept groups' (off, ks))"
proof -
  have fin: "PutFixed32 kLittleEndian (fold (\<lambda>off r. PutFixed32 kLittleEndian r off) (fb_filter_offsets b') (fb_result b'))
      (of_nat (length (fb_result b'))) @ [of_nat kFilterBaseLg] = block_bytes s" if "builds b' g s p" for b' g s p
    using that unfolding fold_put
    by (simp add: block_bytes_def builds_def kFilterBaseLg_def PutFixed32_def comp_def)
  show ?thesis
  proof (cases "pending = []")
    case True
    then have "fb_start b = []" using assms by (simp add: builds_def)
    then have "FilterBlock_Finish create b = Some (block_bytes segs)" using fin [OF assms]
      by (simp add: FilterBlock_Finish_def Let_def)
    moreover have "kept groups (off, ks)" if "kept (groups @ [pending]) (off, ks)" "ks \<noteq> []" for off ks
      using that True by (auto simp: kept_def nth_append split: if_splits)
    ultimately show ?thesis using assms by (auto simp: builds_def)
  next
    case False
    then have ne: "fb_start b \<noteq> []" using assms by (simp add: builds_def)
    obtain b' f where b': "GenerateFilter create b = Some b'" "builds b' (groups @ [pending]) (segs @ [f]) []"
      using generate [OF assms] by blast
    then have "FilterBlock_Finish create b = Some (block_bytes (segs @ [f]))" using fin [OF b'(2)] ne
      by (simp add: FilterBlock_Finish_def Let_def)
    then show ?thesis using b'(2) by (auto simp: builds_def)
  qed
qed

lemma concat_fixed: "length (concat (map (\<lambda>i. EncodeFixed32 kLittleEndian (f i)) xs)) = 4 * length xs"
  by (induction xs) (simp_all add: length_EncodeFixed)

lemma drop_fixed:
  assumes "i < n"
  shows "\<exists>z. drop (4 * i) (concat (map (\<lambda>i. EncodeFixed32 kLittleEndian (f i)) [0 ..< n]) @ x) = EncodeFixed32 kLittleEndian (f i) @ z"
proof -
  have "[0 ..< n] = [0 ..< i] @ i # [Suc i ..< n]" using assms by (metis le0 less_imp_le_nat upt_add_eq_append upt_conv_Cons le_add_diff_inverse)
  then have "concat (map (\<lambda>i. EncodeFixed32 kLittleEndian (f i)) [0 ..< n]) =
      concat (map (\<lambda>i. EncodeFixed32 kLittleEndian (f i)) [0 ..< i]) @ EncodeFixed32 kLittleEndian (f i) @
      concat (map (\<lambda>i. EncodeFixed32 kLittleEndian (f i)) [Suc i ..< n])" by simp
  moreover have "length (concat (map (\<lambda>i. EncodeFixed32 kLittleEndian (f i)) [0 ..< i])) = 4 * i" by (simp add: concat_fixed)
  ultimately show ?thesis by (metis append.assoc append_eq_conv_conj)
qed

lemma reader:
  assumes "length (block_bytes segs) < 2 ^ 32"
  shows "FilterBlockReader_new (block_bytes segs) =
    Some \<lparr>fr_data = block_bytes segs, fr_offset = length (concat segs), fr_num = length segs, fr_base_lg = 11\<rparr>"
proof -
  let ?A = "concat (map (\<lambda>i. EncodeFixed32 kLittleEndian (of_nat (length (concat (take i segs))))) [0 ..< length segs])"
  let ?c = "block_bytes segs"
  have c: "?c = concat segs @ ?A @ EncodeFixed32 kLittleEndian (of_nat (length (concat segs))) @ [11]"
    by (simp add: block_bytes_def)
  have n: "length ?c = length (concat segs) + 4 * length segs + 5"
    unfolding c by (simp add: concat_fixed length_EncodeFixed)
  have "?c = (concat segs @ ?A @ EncodeFixed32 kLittleEndian (of_nat (length (concat segs)))) @ [11]" unfolding c by simp
  then have "last ?c = 11" "?c \<noteq> []" by simp_all
  then have last: "?c ! (length ?c - 1) = 11" by (simp add: last_conv_nth)
  have "drop (length ?c - 5) ?c = EncodeFixed32 kLittleEndian (of_nat (length (concat segs))) @ [11]"
    unfolding n by (subst c) (simp add: concat_fixed)
  then have dec: "DecodeFixed32 kLittleEndian (drop (length ?c - 5) ?c) = Some (of_nat (length (concat segs)))" by simp
  have w: "unat (of_nat (length (concat segs)) :: 32 word) = length (concat segs)"
    using assms n by (simp add: unat_of_nat)
  show ?thesis
    unfolding FilterBlockReader_new_def Let_def last dec bind.bind_lunit w using n by simp
qed

lemma offset_entry:
  assumes "j < Suc (length segs)"
  shows "DecodeFixed32 kLittleEndian (drop (length (concat segs) + j * 4) (block_bytes segs)) = Some (of_nat (length (concat (take j segs))))"
proof -
  let ?len = "\<lambda>i. length (concat (take i segs))"
  obtain z where "drop (4 * j) (concat (map (\<lambda>i. EncodeFixed32 kLittleEndian (of_nat (?len i))) [0 ..< Suc (length segs)]) @ [11]) =
      EncodeFixed32 kLittleEndian (of_nat (?len j)) @ z" using drop_fixed [OF assms, of "\<lambda>i. of_nat (?len i)" "[11]"] by auto
  then have "drop (length (concat segs) + j * 4) (block_bytes segs) = EncodeFixed32 kLittleEndian (of_nat (?len j)) @ z"
    by (simp add: block_bytes_def mult.commute del: upt_Suc)
  then show ?thesis by simp
qed

lemma query_defined:
  assumes "\<And>f. may_match k f \<noteq> None"
  shows "FilterBlock_KeyMayMatch may_match
    \<lparr>fr_data = block_bytes segs, fr_offset = length (concat segs), fr_num = length segs, fr_base_lg = 11\<rparr> off k \<noteq> None"
proof -
  let ?i = "unat (drop_bit 11 off)"
  have "DecodeFixed32 kLittleEndian (drop (length (concat segs) + ?i * 4) (block_bytes segs)) = Some (of_nat (length (concat (take ?i segs))))"
    "DecodeFixed32 kLittleEndian (drop (length (concat segs) + ?i * 4 + 4) (block_bytes segs)) = Some (of_nat (length (concat (take (Suc ?i) segs))))"
    if "?i < length segs"
    using offset_entry [of ?i segs] offset_entry [of "Suc ?i" segs] that by (simp_all add: algebra_simps)
  moreover have "\<exists>y. y" "\<exists>y. \<not> y" by blast+
  ultimately show ?thesis using assms by (simp add: FilterBlock_KeyMayMatch_def Let_def)
qed

lemma query:
  assumes "length (block_bytes segs) < 2 ^ 32" and "list_all2 segment_ok groups segs"
    and "kept groups (off, ks)" and "k \<in> set ks"
  shows "FilterBlock_KeyMayMatch may_match
    \<lparr>fr_data = block_bytes segs, fr_offset = length (concat segs), fr_num = length segs, fr_base_lg = 11\<rparr> off k = Some True"
proof -
  let ?i = "filter_of off" and ?c = "block_bytes segs" and ?L = "length (concat segs)"
  let ?len = "\<lambda>i. length (concat (take i segs))"
  have i: "?i < length segs" and ok: "segment_ok (groups ! ?i) (segs ! ?i)" and k: "k \<in> set (groups ! ?i)"
    using assms(2-4) by (auto simp: kept_def list_all2_conv_all_nth)
  have idx: "unat (drop_bit 11 off) = ?i" by (simp only: unat_drop_bit_eq filter_of_def) (simp add: drop_bit_eq_div)
  note dec = offset_entry [of _ segs]
  have split: "concat segs = concat (take ?i segs) @ segs ! ?i @ concat (drop (Suc ?i) segs)"
    using i by (metis append_take_drop_id concat.simps(2) concat_append Cons_nth_drop_Suc)
  have suc: "?len (Suc ?i) = ?len ?i + length (segs ! ?i)" using i by (simp add: take_Suc_conv_app_nth)
  have "?L \<le> length ?c" by (simp add: block_bytes_def)
  then have small: "?len (Suc ?i) < 2 ^ 32" "?len (Suc ?i) \<le> ?L" using assms(1) suc arg_cong [OF split, of length] by simp_all
  then have w: "unat (of_nat (?len ?i) :: 32 word) = ?len ?i" "unat (of_nat (?len (Suc ?i)) :: 32 word) = ?len (Suc ?i)"
    using suc by (simp_all only: unat_of_nat) simp_all
  have le: "(of_nat (?len ?i) :: 32 word) \<le> of_nat (?len (Suc ?i))" using w suc by (simp only: word_le_nat_alt)
  have sz: "unat (of_nat (?len (Suc ?i)) - of_nat (?len ?i) :: 32 word) = length (segs ! ?i)"
    using le w suc by (simp only: unat_sub)
  have pay: "take (length (segs ! ?i)) (drop (?len ?i) ?c) = segs ! ?i" by (simp add: block_bytes_def split)
  have d: "DecodeFixed32 kLittleEndian (drop (?L + ?i * 4) ?c) = Some (of_nat (?len ?i))"
    "DecodeFixed32 kLittleEndian (drop (?L + ?i * 4 + 4) ?c) = Some (of_nat (?len (Suc ?i)))"
    using dec [of ?i] dec [of "Suc ?i"] i by (simp_all add: algebra_simps)
  have "\<not> 64 \<le> (11 :: 64 word)" "unat (11 :: 64 word) = 11" by simp_all
  then show ?thesis using ok k small(2) i
    by (simp only: FilterBlock_KeyMayMatch_def FilterBlockReader.simps Let_def idx d bind.bind_lunit w le sz pay if_True if_False
        simp_thms segment_ok_def)
qed

lemma finds_key:
  assumes "sorted (map (filter_of \<circ> fst) blocks)" and "\<forall>x \<in> set blocks. \<forall>k \<in> set (snd x). admitted k"
    and "sum_list (map (length \<circ> snd) blocks) < 2 ^ 31"
  shows "\<exists>c. filter_block create blocks = Some c \<and>
    (length c < 2 ^ 32 \<longrightarrow> (\<exists>r. FilterBlockReader_new c = Some r \<and>
      (\<forall>(off, ks) \<in> set blocks. \<forall>k \<in> set ks. FilterBlock_KeyMayMatch may_match r off k = Some True)))"
proof -
  have "builds FilterBlockBuilder_new [] [] []" by (simp add: builds_def FilterBlockBuilder_new_def)
  from blocks_added [OF this assms(1) _ assms(2)] assms(3) obtain b groups segs pending where
    b: "add_blocks create blocks FilterBlockBuilder_new = Some b" "builds b groups segs pending"
      "\<forall>x \<in> set blocks. kept (groups @ [pending]) x" by auto
  obtain groups' segs' where f: "FilterBlock_Finish create b = Some (block_bytes segs')" "list_all2 segment_ok groups' segs'"
    "\<forall>off ks. kept (groups @ [pending]) (off, ks) \<and> ks \<noteq> [] \<longrightarrow> kept groups' (off, ks)"
    using finish [OF b(2)] by blast
  have k: "kept groups' (off, ks)" if "(off, ks) \<in> set blocks" "k \<in> set ks" for off ks k
    using that b(3) f(3) by (metis in_set_conv_nth length_pos_if_in_set less_numeral_extra(3) list.size(3))
  let ?r = "\<lparr>fr_data = block_bytes segs', fr_offset = length (concat segs'), fr_num = length segs', fr_base_lg = 11\<rparr>"
  have "\<forall>(off, ks) \<in> set blocks. \<forall>k \<in> set ks. FilterBlock_KeyMayMatch may_match ?r off k = Some True"
    if n: "length (block_bytes segs') < 2 ^ 32"
  proof (clarify)
    fix off ks key assume m: "(off, ks) \<in> set blocks" "key \<in> set ks"
    show "FilterBlock_KeyMayMatch may_match ?r off key = Some True" by (rule query [OF n f(2) k [OF m] m(2)])
  qed
  moreover have "filter_block create blocks = Some (block_bytes segs')" using b(1) f(1) by (simp add: filter_block_def)
  ultimately show ?thesis using reader by blast
qed

text \<open>The same for a builder that is fed step by step: it has taken in the keys of the blocks that were
  started before, and the keys that were added since the block at \<open>off\<close> was started.\<close>

definition tracks :: "FilterBlockBuilder \<Rightarrow> 64 word \<Rightarrow> (64 word \<times> slice list) list \<Rightarrow> slice list \<Rightarrow> bool" where
  "tracks b off blocks cur \<longleftrightarrow> (\<exists>groups segs pending. builds b groups segs pending \<and> length segs = filter_of off \<and>
     length pending \<le> sum_list (map (length \<circ> snd) blocks) + length cur \<and>
     (\<forall>x \<in> set blocks. kept (groups @ [pending]) x) \<and> kept (groups @ [pending]) (off, cur))"

lemma builds_length: "builds b groups segs pending \<Longrightarrow> length groups = length segs"
  unfolding builds_def by (elim conjE) (rule list_all2_lengthD)

lemma tracks_start:
  assumes "tracks b off blocks cur" and "off \<le> off'"
  shows "\<exists>b'. StartBlock create off' b = Some b' \<and> tracks b' off' (blocks @ [(off, cur)]) []"
proof -
  obtain groups segs pending where b: "builds b groups segs pending" "length segs = filter_of off"
    "length pending \<le> sum_list (map (length \<circ> snd) blocks) + length cur"
    "\<forall>x \<in> set blocks. kept (groups @ [pending]) x" "kept (groups @ [pending]) (off, cur)"
    using assms(1) unfolding tracks_def by blast
  have le: "length segs \<le> filter_of off'" using assms(2) b(2) by (simp add: filter_of_def word_le_nat_alt div_le_mono)
  from start_loop [OF b(1) le] obtain b1 g1 s1 p1 rest where
    b1: "start_block_loop create (filter_of off') b = Some b1" "builds b1 g1 s1 p1" "length s1 = filter_of off'"
      "g1 @ [p1] = groups @ [pending] @ rest" "p1 = (if length segs = filter_of off' then pending else [])" by blast
  have idx: "unat (off' div kFilterBase) = filter_of off'"
    by (simp add: filter_of_def kFilterBase_def kFilterBaseLg_def unat_div_distrib)
  have "StartBlock create off' b = Some b1"
    using b1(1) le b(1) by (simp add: StartBlock_def idx Let_def builds_def)
  moreover have "kept (g1 @ [p1]) x" if "kept (groups @ [pending]) x" for x
    using that kept_more [of "groups @ [pending]" x] b1(4) by simp
  moreover have "kept (g1 @ [p1]) (off', [])" using builds_length [OF b1(2)] b1(3) by (simp add: kept_def)
  ultimately show ?thesis using b1(2,3,5) b(3-5) unfolding tracks_def by (intro exI conjI) auto
qed

lemma tracks_new: "\<exists>b. StartBlock create 0 FilterBlockBuilder_new = Some b \<and> tracks b 0 [] []"
proof -
  have "builds FilterBlockBuilder_new [] [] []" by (simp add: builds_def FilterBlockBuilder_new_def)
  moreover have "StartBlock create 0 FilterBlockBuilder_new = Some FilterBlockBuilder_new"
    by (simp add: StartBlock_def FilterBlockBuilder_new_def start_block_loop.simps)
  ultimately show ?thesis unfolding tracks_def
    by (intro exI [of _ FilterBlockBuilder_new] exI [of _ "[]"] conjI) (simp_all add: filter_of_def kept_def)
qed

lemma tracks_add:
  assumes "tracks b off blocks cur" and "admitted k" and "sum_list (map (length \<circ> snd) blocks) + length cur + 1 < 2 ^ 31"
  shows "tracks (FilterBlock_AddKey k b) off blocks (cur @ [k])"
proof -
  obtain groups segs pending where b: "builds b groups segs pending" "length segs = filter_of off"
    "length pending \<le> sum_list (map (length \<circ> snd) blocks) + length cur"
    "\<forall>x \<in> set blocks. kept (groups @ [pending]) x" "kept (groups @ [pending]) (off, cur)"
    using assms(1) unfolding tracks_def by blast
  have "builds (FilterBlock_AddKey k b) groups segs (pending @ [k])"
    by (rule add_key [OF b(1) assms(2)]) (use assms(3) b(3) in simp)
  moreover have "kept (groups @ [pending @ [k]]) x" if "kept (groups @ [pending]) x" for x
    using that by (auto simp: kept_def nth_append split: prod.splits if_splits)
  moreover have "kept (groups @ [pending @ [k]]) (off, cur @ [k])"
    using b(5) builds_length [OF b(1)] b(2) by (auto simp: kept_def nth_append)
  ultimately show ?thesis using b(2-4) unfolding tracks_def by (intro exI conjI) auto
qed

lemma tracks_finish:
  assumes "tracks b off blocks []"
  shows "\<exists>c. FilterBlock_Finish create b = Some c \<and> (length c < 2 ^ 32 \<longrightarrow> (\<exists>r. FilterBlockReader_new c = Some r \<and>
    (\<forall>(off, ks) \<in> set blocks. \<forall>k \<in> set ks. FilterBlock_KeyMayMatch may_match r off k = Some True) \<and>
    (\<forall>off k. (\<forall>f. may_match k f \<noteq> None) \<longrightarrow> FilterBlock_KeyMayMatch may_match r off k \<noteq> None)))"
proof -
  obtain groups segs pending where b: "builds b groups segs pending" "\<forall>x \<in> set blocks. kept (groups @ [pending]) x"
    using assms unfolding tracks_def by blast
  obtain groups' segs' where f: "FilterBlock_Finish create b = Some (block_bytes segs')" "list_all2 segment_ok groups' segs'"
    "\<forall>off ks. kept (groups @ [pending]) (off, ks) \<and> ks \<noteq> [] \<longrightarrow> kept groups' (off, ks)"
    using finish [OF b(1)] by blast
  let ?r = "\<lparr>fr_data = block_bytes segs', fr_offset = length (concat segs'), fr_num = length segs', fr_base_lg = 11\<rparr>"
  have "FilterBlock_KeyMayMatch may_match ?r off k = Some True"
    if "length (block_bytes segs') < 2 ^ 32" "(off, ks) \<in> set blocks" "k \<in> set ks" for off ks k
  proof (rule query [OF that(1) f(2) _ that(3)])
    have "kept (groups @ [pending]) (off, ks)" "ks \<noteq> []" using b(2) that(2,3) by auto
    then show "kept groups' (off, ks)" using f(3) by blast
  qed
  then show ?thesis using reader f(1) query_defined by (intro exI [of _ "block_bytes segs'"] conjI impI exI [of _ ?r]) blast+
qed

end

text \<open>C27: a filter block has no false negatives. For every filter policy that keeps its promise, data
  blocks that start at increasing offsets, and fewer than 2^31 keys that the policy admits: building the
  filter block is defined, and if its size fits 32 bits a reader of its bytes answers that the key may be
  present, for each key and the offset of the block it was added to, though one filter serves several
  blocks and blocks may have gaps between them.\<close>

theorem filter_block_no_false_negatives:
  assumes "filter_policy create may_match admitted" and "sorted (map (\<lambda>x. unat (fst x)) blocks)"
    and "\<forall>x \<in> set blocks. \<forall>k \<in> set (snd x). admitted k" and "sum_list (map (\<lambda>x. length (snd x)) blocks) < 2 ^ 31"
  shows "\<exists>c. filter_block create blocks = Some c \<and>
    (length c < 2 ^ 32 \<longrightarrow> (\<exists>r. FilterBlockReader_new c = Some r \<and>
      (\<forall>(off, ks) \<in> set blocks. \<forall>k \<in> set ks. FilterBlock_KeyMayMatch may_match r off k = Some True)))"
proof -
  have "sorted (map (filter_of \<circ> fst) blocks)"
    using assms(2) by (auto simp: sorted_iff_nth_mono filter_of_def intro: div_le_mono)
  then show ?thesis using filter_policy.finds_key [OF assms(1)] assms(3,4) by (simp add: comp_def)
qed

text \<open>The policy of the witness is the Bloom filter on internal keys; the third block shares the filter
  of the second.\<close>

definition demo_blocks :: "(64 word \<times> slice list) list" where
  "demo_blocks = [(0, [[97, 1, 0, 0, 0, 0, 0, 0, 0]]), (5000, [[98, 1, 2, 0, 0, 0, 0, 0, 0]]), (5100, [replicate 8 0])]"

lemma demo_filter_block:
  "map_option length (filter_block (InternalFilter_CreateFilter (Bloom_CreateFilter bloom_10)) demo_blocks) = Some 35"
  by code_simp

theorem filter_block_no_false_negatives_witness:
  "\<exists>c r. filter_block (InternalFilter_CreateFilter (Bloom_CreateFilter bloom_10)) demo_blocks = Some c \<and>
    FilterBlockReader_new c = Some r \<and>
    FilterBlock_KeyMayMatch (InternalFilter_KeyMayMatch Bloom_KeyMayMatch) r 5100 (replicate 8 0) = Some True"
proof -
  have "sorted (map (\<lambda>x. unat (fst x)) demo_blocks)" "\<forall>x \<in> set demo_blocks. \<forall>k \<in> set (snd x). 8 \<le> length k \<and> (\<forall>u. ExtractUserKey k = Some u \<longrightarrow> True)"
    "sum_list (map (\<lambda>x. length (snd x)) demo_blocks) < 2 ^ 31"
    by (simp_all add: demo_blocks_def)
  from filter_block_no_false_negatives [OF bloom_10_internal.internal.filter_policy_axioms this] obtain c where
    c: "filter_block (InternalFilter_CreateFilter (Bloom_CreateFilter bloom_10)) demo_blocks = Some c"
      "length c < 2 ^ 32 \<longrightarrow> (\<exists>r. FilterBlockReader_new c = Some r \<and> (\<forall>(off, ks) \<in> set demo_blocks. \<forall>k \<in> set ks.
        FilterBlock_KeyMayMatch (InternalFilter_KeyMayMatch Bloom_KeyMayMatch) r off k = Some True))"
    by (elim exE conjE)
  have "length c < 2 ^ 32" using demo_filter_block c(1) by simp
  then show ?thesis using c by (auto simp: demo_blocks_def)
qed

end
