(* ===== verification/Ldb_Iterator.thy ===== *)
theory Ldb_Iterator
  imports Ldb_Comparator Ldb_Status
begin

text \<open>
  The iterator interface of leveldb (\<open>include/leveldb/iterator.h\<close>, \<open>table/iterator.cc\<close>) and the wrapper
  that caches an iterator's position (\<open>table/iterator_wrapper.h\<close>). A class of iterators is the record of
  its virtual functions. The locale \<open>cursor\<close> states the contract of the interface: an iterator over a
  sorted list of entries stands at an index of the list, or behind its end when it is not valid.
\<close>

subsection \<open>The interface\<close>

record 'i iter_ops =
  it_Valid :: "'i \<Rightarrow> bool"
  it_SeekToFirst :: "'i \<Rightarrow> 'i option"
  it_SeekToLast :: "'i \<Rightarrow> 'i option"
  it_Seek :: "slice \<Rightarrow> 'i \<Rightarrow> 'i option"
  it_Next :: "'i \<Rightarrow> 'i option"
  it_Prev :: "'i \<Rightarrow> 'i option"
  it_key :: "'i \<Rightarrow> slice option"
  it_value :: "'i \<Rightarrow> slice option"
  it_status :: "'i \<Rightarrow> Status option"

text \<open>The position a search ends at: the first entry whose key is not less than the target.\<close>

definition seek_pos :: "(slice \<Rightarrow> slice \<Rightarrow> bool) \<Rightarrow> (slice \<times> slice) list \<Rightarrow> slice \<Rightarrow> nat" where
  "seek_pos below kvs target = length (takeWhile (\<lambda>(k, _). below k target) kvs)"

lemma seek_pos_le: "seek_pos below kvs target \<le> length kvs"
  by (simp add: seek_pos_def length_takeWhile_le)

lemma seek_pos_before: "i < seek_pos below kvs target \<Longrightarrow> below (fst (kvs ! i)) target"
  unfolding seek_pos_def using nth_mem takeWhile_nth by (metis (mono_tags, lifting) case_prod_beta set_takeWhileD)

lemma seek_pos_at: "seek_pos below kvs target < length kvs \<Longrightarrow> \<not> below (fst (kvs ! seek_pos below kvs target)) target"
  unfolding seek_pos_def using nth_length_takeWhile [of "\<lambda>(k, _). below k target" kvs] by (simp add: case_prod_beta)

context key_comparator
begin

text \<open>Before the position of a search all keys are less than the target, from it on none is.\<close>

lemma seek_pos_iff:
  assumes "sorted_wrt lt (map fst kvs)" and "\<And>k. k \<in> fst ` set kvs \<Longrightarrow> good k" and "good target" and "i < length kvs"
  shows "lt (fst (kvs ! i)) target \<longleftrightarrow> i < seek_pos lt kvs target"
proof
  assume l: "lt (fst (kvs ! i)) target"
  show "i < seek_pos lt kvs target"
  proof (rule ccontr)
    let ?j = "seek_pos lt kvs target"
    assume "\<not> i < ?j"
    then have j: "?j \<le> i" "?j < length kvs" using assms(4) by simp_all
    have g: "good (fst (kvs ! ?j))" "good (fst (kvs ! i))" using assms(2,4) j(2) by simp_all
    have "?j = i \<or> lt (fst (kvs ! ?j)) (fst (kvs ! i))"
      using assms(1,4) j(1) by (auto simp: sorted_wrt_iff_nth_less dest: le_neq_implies_less)
    then have "lt (fst (kvs ! ?j)) target" using l lt_trans [OF g(1,2) assms(3)] by auto
    then show False using seek_pos_at [OF j(2)] by simp
  qed
qed (rule seek_pos_before)

end

locale cursor = key_comparator cmp good
  for cmp :: "slice \<Rightarrow> slice \<Rightarrow> int option" and good :: "slice \<Rightarrow> bool" +
  fixes ops :: "'i iter_ops" and stands :: "'i \<Rightarrow> (slice \<times> slice) list \<Rightarrow> nat \<Rightarrow> bool"
  assumes stands_range: "stands it kvs i \<Longrightarrow> i \<le> length kvs"
    and stands_sorted: "stands it kvs i \<Longrightarrow> sorted_wrt lt (map fst kvs)"
    and stands_good: "stands it kvs i \<Longrightarrow> k \<in> fst ` set kvs \<Longrightarrow> good k"
    and stands_valid: "stands it kvs i \<Longrightarrow> it_Valid ops it \<longleftrightarrow> i < length kvs"
    and stands_key: "stands it kvs i \<Longrightarrow> i < length kvs \<Longrightarrow> it_key ops it = Some (fst (kvs ! i))"
    and stands_value: "stands it kvs i \<Longrightarrow> i < length kvs \<Longrightarrow> it_value ops it = Some (snd (kvs ! i))"
    and stands_status: "stands it kvs i \<Longrightarrow> it_status ops it = Some Status_OK"
    and stands_first: "stands it kvs i \<Longrightarrow> \<exists>it'. it_SeekToFirst ops it = Some it' \<and> stands it' kvs 0"
    and stands_last: "stands it kvs i \<Longrightarrow> \<exists>it'. it_SeekToLast ops it = Some it' \<and> stands it' kvs (length kvs - 1)"
    and stands_seek: "stands it kvs i \<Longrightarrow> good target \<Longrightarrow>
      \<exists>it'. it_Seek ops target it = Some it' \<and> stands it' kvs (seek_pos lt kvs target)"
    and stands_next: "stands it kvs i \<Longrightarrow> i < length kvs \<Longrightarrow> \<exists>it'. it_Next ops it = Some it' \<and> stands it' kvs (Suc i)"
    and stands_prev: "stands it kvs i \<Longrightarrow> i < length kvs \<Longrightarrow>
      \<exists>it'. it_Prev ops it = Some it' \<and> stands it' kvs (if i = 0 then length kvs else i - 1)"

text \<open>The same contract for one list of entries, as a statement about an object that simulates a
  position in the list.\<close>

definition simulates_cursor ::
  "(slice \<Rightarrow> slice \<Rightarrow> bool) \<Rightarrow> (slice \<Rightarrow> bool) \<Rightarrow> 'i iter_ops \<Rightarrow> (slice \<times> slice) list \<Rightarrow> ('i \<Rightarrow> nat \<Rightarrow> bool) \<Rightarrow> bool" where
  "simulates_cursor below good ops kvs sim \<longleftrightarrow>
     (\<forall>it i. sim it i \<longrightarrow> i \<le> length kvs \<and> it_status ops it = Some Status_OK \<and> it_Valid ops it = (i < length kvs) \<and>
        (i < length kvs \<longrightarrow> it_key ops it = Some (fst (kvs ! i)) \<and> it_value ops it = Some (snd (kvs ! i)) \<and>
          (\<exists>it'. it_Next ops it = Some it' \<and> sim it' (Suc i)) \<and>
          (\<exists>it'. it_Prev ops it = Some it' \<and> sim it' (if i = 0 then length kvs else i - 1))) \<and>
        (\<exists>it'. it_SeekToFirst ops it = Some it' \<and> sim it' 0) \<and>
        (\<exists>it'. it_SeekToLast ops it = Some it' \<and> sim it' (length kvs - 1)) \<and>
        (\<forall>target. good target \<longrightarrow> (\<exists>it'. it_Seek ops target it = Some it' \<and> sim it' (seek_pos below kvs target))))"

context cursor
begin

lemma stands_simulates: "simulates_cursor lt good ops kvs (\<lambda>it i. stands it kvs i)"
  unfolding simulates_cursor_def
  by (intro allI impI conjI; rule stands_range stands_status stands_valid stands_key stands_value stands_next stands_prev
      stands_first stands_last stands_seek; assumption)

end

subsection \<open>Empty iterators and cleanup functions\<close>

definition Empty_ops :: "Status iter_ops" where
  "Empty_ops = \<lparr>it_Valid = \<lambda>_. False, it_SeekToFirst = Some, it_SeekToLast = Some, it_Seek = \<lambda>_. Some,
     it_Next = \<lambda>_. None, it_Prev = \<lambda>_. None, it_key = \<lambda>_. None, it_value = \<lambda>_. None, it_status = Some\<rparr>"

definition NewEmptyIterator :: Status where
  "NewEmptyIterator = Status_OK"

definition NewErrorIterator :: "Status \<Rightarrow> Status" where
  "NewErrorIterator status = status"

interpretation empty: cursor Bytewise_Compare "\<lambda>_. True" Empty_ops "\<lambda>s kvs i. s = NewEmptyIterator \<and> kvs = [] \<and> i = 0"
  by unfold_locales (auto simp: Empty_ops_def NewEmptyIterator_def seek_pos_def)

text \<open>The list of cleanup functions: the first one registered stays in front, each later one is put
  directly behind it. They are called in the order of the list.\<close>

fun RegisterCleanup :: "'f \<Rightarrow> 'f list \<Rightarrow> 'f list" where
  "RegisterCleanup f [] = [f]"
| "RegisterCleanup f (c # cs) = c # f # cs"

definition run_cleanups :: "('f \<Rightarrow> 's \<Rightarrow> 's) \<Rightarrow> 'f list \<Rightarrow> 's \<Rightarrow> 's" where
  "run_cleanups call cs s = fold call cs s"

subsection \<open>The wrapper\<close>

record 'i IteratorWrapper =
  iw_iter :: "'i option"
  iw_valid :: bool
  iw_key :: slice

definition IW_Update :: "'i iter_ops \<Rightarrow> 'i \<Rightarrow> 'i IteratorWrapper \<Rightarrow> 'i IteratorWrapper option" where
  "IW_Update ops i w =
     (let w = w\<lparr>iw_iter := Some i, iw_valid := it_Valid ops i\<rparr> in
      if iw_valid w then do { k \<leftarrow> it_key ops i; Some (w\<lparr>iw_key := k\<rparr>) } else Some w)"

definition IteratorWrapper_null :: "'i IteratorWrapper" where
  "IteratorWrapper_null = \<lparr>iw_iter = None, iw_valid = False, iw_key = []\<rparr>"

definition IW_Set :: "'i iter_ops \<Rightarrow> 'i option \<Rightarrow> 'i IteratorWrapper \<Rightarrow> 'i IteratorWrapper option" where
  "IW_Set ops i w =
     (case i of None \<Rightarrow> Some (w\<lparr>iw_iter := None, iw_valid := False\<rparr>) | Some i \<Rightarrow> IW_Update ops i w)"

definition IW_key :: "'i IteratorWrapper \<Rightarrow> slice option" where
  "IW_key w = (if iw_valid w then Some (iw_key w) else None)"

definition IW_value :: "'i iter_ops \<Rightarrow> 'i IteratorWrapper \<Rightarrow> slice option" where
  "IW_value ops w = (if iw_valid w then iw_iter w \<bind> it_value ops else None)"

definition IW_status :: "'i iter_ops \<Rightarrow> 'i IteratorWrapper \<Rightarrow> Status option" where
  "IW_status ops w = iw_iter w \<bind> it_status ops"

definition IW_move :: "'i iter_ops \<Rightarrow> ('i \<Rightarrow> 'i option) \<Rightarrow> 'i IteratorWrapper \<Rightarrow> 'i IteratorWrapper option" where
  "IW_move ops f w = do { i \<leftarrow> iw_iter w; i \<leftarrow> f i; IW_Update ops i w }"

definition IW_Next :: "'i iter_ops \<Rightarrow> 'i IteratorWrapper \<Rightarrow> 'i IteratorWrapper option" where
  "IW_Next ops = IW_move ops (it_Next ops)"

definition IW_Prev :: "'i iter_ops \<Rightarrow> 'i IteratorWrapper \<Rightarrow> 'i IteratorWrapper option" where
  "IW_Prev ops = IW_move ops (it_Prev ops)"

definition IW_Seek :: "'i iter_ops \<Rightarrow> slice \<Rightarrow> 'i IteratorWrapper \<Rightarrow> 'i IteratorWrapper option" where
  "IW_Seek ops k = IW_move ops (it_Seek ops k)"

definition IW_SeekToFirst :: "'i iter_ops \<Rightarrow> 'i IteratorWrapper \<Rightarrow> 'i IteratorWrapper option" where
  "IW_SeekToFirst ops = IW_move ops (it_SeekToFirst ops)"

definition IW_SeekToLast :: "'i iter_ops \<Rightarrow> 'i IteratorWrapper \<Rightarrow> 'i IteratorWrapper option" where
  "IW_SeekToLast ops = IW_move ops (it_SeekToLast ops)"

text \<open>A wrapper around an iterator that stands somewhere answers for it.\<close>

context cursor
begin

definition holds_at :: "'i IteratorWrapper \<Rightarrow> (slice \<times> slice) list \<Rightarrow> nat \<Rightarrow> bool" where
  "holds_at w kvs i \<longleftrightarrow> (\<exists>it. iw_iter w = Some it \<and> stands it kvs i \<and> iw_valid w = (i < length kvs) \<and>
     (i < length kvs \<longrightarrow> iw_key w = fst (kvs ! i)))"

lemma update_at: "stands it kvs i \<Longrightarrow> \<exists>w'. IW_Update ops it w = Some w' \<and> holds_at w' kvs i"
  by (auto simp: IW_Update_def Let_def holds_at_def stands_valid stands_key)

lemma set_at: "stands it kvs i \<Longrightarrow> \<exists>w'. IW_Set ops (Some it) w = Some w' \<and> holds_at w' kvs i"
  by (simp add: IW_Set_def update_at)

lemma move_at:
  assumes "holds_at w kvs i" and "\<And>it. stands it kvs i \<Longrightarrow> \<exists>it'. f it = Some it' \<and> stands it' kvs j"
  shows "\<exists>w'. IW_move ops f w = Some w' \<and> holds_at w' kvs j"
proof -
  obtain it where it: "iw_iter w = Some it" "stands it kvs i" using assms(1) by (auto simp: holds_at_def)
  obtain it' where "f it = Some it'" "stands it' kvs j" using assms(2) [OF it(2)] by blast
  then show ?thesis using it(1) update_at by (simp add: IW_move_def)
qed

lemma wrapper_moves:
  assumes "holds_at w kvs i"
  shows "\<exists>w'. IW_SeekToFirst ops w = Some w' \<and> holds_at w' kvs 0"
    and "\<exists>w'. IW_SeekToLast ops w = Some w' \<and> holds_at w' kvs (length kvs - 1)"
    and "good target \<Longrightarrow> \<exists>w'. IW_Seek ops target w = Some w' \<and> holds_at w' kvs (seek_pos lt kvs target)"
    and "i < length kvs \<Longrightarrow> \<exists>w'. IW_Next ops w = Some w' \<and> holds_at w' kvs (Suc i)"
    and "i < length kvs \<Longrightarrow> \<exists>w'. IW_Prev ops w = Some w' \<and> holds_at w' kvs (if i = 0 then length kvs else i - 1)"
  unfolding IW_SeekToFirst_def IW_SeekToLast_def IW_Seek_def IW_Next_def IW_Prev_def
  by (rule move_at [OF assms]; rule stands_first stands_last stands_seek stands_next stands_prev; assumption)+

lemma wrapper_reads:
  assumes "holds_at w kvs i"
  shows "iw_valid w \<longleftrightarrow> i < length kvs" and "i \<le> length kvs"
    and "i < length kvs \<Longrightarrow> IW_key w = Some (fst (kvs ! i))"
    and "i < length kvs \<Longrightarrow> IW_value ops w = Some (snd (kvs ! i))"
    and "IW_status ops w = Some Status_OK"
  using assms stands_range stands_value stands_status
  by (auto simp: holds_at_def IW_key_def IW_value_def IW_status_def)

end

end
