(* ===== verification/Ldb_Block.thy ===== *)
theory Ldb_Block
  imports Ldb_Iterator Ldb_Dbformat
begin

text \<open>
  The blocks of a table (\<open>table/block_builder.cc\<close>, \<open>table/block.cc\<close>): sorted entries whose keys share
  prefixes with their predecessors, and an array of restart points, the entries that are stored whole.
  Offsets and indices are 32-bit numbers in the code; where a computation can exceed them it is reduced
  explicitly. Positions in the block are offsets from its start; reading outside the block is undefined,
  and so are failed assertions.
\<close>

subsection \<open>Building a block\<close>

record BlockBuilder =
  bb_buffer :: "byte list"
  bb_restarts :: "32 word list"
  bb_counter :: int
  bb_finished :: bool
  bb_last_key :: "byte list"

text \<open>The restart interval is a field of the options.\<close>

definition BlockBuilder_new :: "int \<Rightarrow> BlockBuilder option" where
  "BlockBuilder_new block_restart_interval =
     (if 1 \<le> block_restart_interval
      then Some \<lparr>bb_buffer = [], bb_restarts = [0], bb_counter = 0, bb_finished = False, bb_last_key = []\<rparr>
      else None)"

definition BlockBuilder_Reset :: "BlockBuilder \<Rightarrow> BlockBuilder" where
  "BlockBuilder_Reset b =
     b\<lparr>bb_buffer := [], bb_restarts := [0], bb_counter := 0, bb_finished := False, bb_last_key := []\<rparr>"

definition CurrentSizeEstimate :: "BlockBuilder \<Rightarrow> nat" where
  "CurrentSizeEstimate b = length (bb_buffer b) + length (bb_restarts b) * 4 + 4"

definition BlockBuilder_empty :: "BlockBuilder \<Rightarrow> bool" where
  "BlockBuilder_empty b \<longleftrightarrow> bb_buffer b = []"

definition BlockBuilder_Finish :: "BlockBuilder \<Rightarrow> slice \<times> BlockBuilder" where
  "BlockBuilder_Finish b =
     (let buf = fold (\<lambda>r buf. PutFixed32 kLittleEndian buf r) (bb_restarts b) (bb_buffer b);
          buf = PutFixed32 kLittleEndian buf (of_nat (length (bb_restarts b)));
          b = b\<lparr>bb_buffer := buf, bb_finished := True\<rparr>
      in (bb_buffer b, b))"

fun shared_prefix :: "byte list \<Rightarrow> byte list \<Rightarrow> nat" where
  "shared_prefix (x # xs) (y # ys) = (if x = y then Suc (shared_prefix xs ys) else 0)"
| "shared_prefix _ _ = 0"

definition BlockBuilder_Add ::
  "(slice \<Rightarrow> slice \<Rightarrow> int option) \<Rightarrow> int \<Rightarrow> slice \<Rightarrow> slice \<Rightarrow> BlockBuilder \<Rightarrow> BlockBuilder option" where
  "BlockBuilder_Add cmp block_restart_interval key val b =
     (if bb_finished b \<or> block_restart_interval < bb_counter b then None
      else do {
        sorted \<leftarrow> (if bb_buffer b = [] then Some True else do { c \<leftarrow> cmp key (bb_last_key b); Some (0 < c) });
        if \<not> sorted then None
        else
          let (shared, b) = (if bb_counter b < block_restart_interval
                then (shared_prefix (bb_last_key b) key, b)
                else (0, b\<lparr>bb_restarts := bb_restarts b @ [of_nat (length (bb_buffer b))], bb_counter := 0\<rparr>));
              non_shared = length key - shared;
              buf = PutVarint32 (bb_buffer b) (of_nat shared);
              buf = PutVarint32 buf (of_nat non_shared);
              buf = PutVarint32 buf (of_nat (length val));
              buf = buf @ drop shared key @ val;
              last_key = take shared (bb_last_key b) @ drop shared key
          in if last_key \<noteq> key then None
             else Some (b\<lparr>bb_buffer := buf, bb_last_key := last_key, bb_counter := bb_counter b + 1\<rparr>)
      })"

subsection \<open>Opening a block\<close>

record Block =
  blk_data :: "byte list"
  blk_size :: nat
  blk_restart_offset :: nat

definition NumRestarts :: "Block \<Rightarrow> 32 word option" where
  "NumRestarts b = (if blk_size b < 4 then None else DecodeFixed32 kLittleEndian (drop (blk_size b - 4) (blk_data b)))"

definition Block_new :: "slice \<Rightarrow> Block option" where
  "Block_new contents =
     (let b = \<lparr>blk_data = contents, blk_size = length contents, blk_restart_offset = 0\<rparr> in
      if blk_size b < 4 then Some (b\<lparr>blk_size := 0\<rparr>)
      else do {
        n \<leftarrow> NumRestarts b;
        let max_restarts_allowed = (blk_size b - 4) div 4;
        if max_restarts_allowed < unat n then Some (b\<lparr>blk_size := 0\<rparr>)
        else Some (b\<lparr>blk_restart_offset := (blk_size b - unat (1 + n) * 4) mod 2 ^ 32\<rparr>)
      })"

text \<open>The entry that starts at \<open>p\<close>, where \<open>p\<close> is the list of bytes up to the limit; a position past
  the limit has no bytes. The result ends with the bytes behind the three lengths.\<close>

definition DecodeEntry :: "byte list \<Rightarrow> (32 word \<times> 32 word \<times> 32 word \<times> byte list) option" where
  "DecodeEntry p =
     (if length p < 3 then None
      else
        let shared = ucast (p ! 0) :: 32 word; non_shared = ucast (p ! 1) :: 32 word; value_length = ucast (p ! 2) :: 32 word
        in do {
          (shared, non_shared, value_length, q) \<leftarrow>
            (if shared OR non_shared OR value_length < 128 then Some (shared, non_shared, value_length, drop 3 p)
             else do {
               (shared, p) \<leftarrow> GetVarint32Ptr p;
               (non_shared, p) \<leftarrow> GetVarint32Ptr p;
               (value_length, p) \<leftarrow> GetVarint32Ptr p;
               Some (shared, non_shared, value_length, p)
             });
          if (of_nat (length q) :: 32 word) < non_shared + value_length then None
          else Some (shared, non_shared, value_length, q)
        })"

subsection \<open>The iterator\<close>

text \<open>\<open>value_\<close> is an offset in the block and a length; it is \<open>None\<close> while it refers to no part of the
  block.\<close>

record BlockIter =
  bi_data :: "byte list"
  bi_restarts :: nat
  bi_num_restarts :: nat
  bi_current :: nat
  bi_restart_index :: nat
  bi_key :: "byte list"
  bi_value :: "(nat \<times> nat) option"
  bi_status :: Status

definition BlockIter_new :: "byte list \<Rightarrow> nat \<Rightarrow> nat \<Rightarrow> BlockIter option" where
  "BlockIter_new data restarts num_restarts =
     (if num_restarts = 0 then None
      else Some \<lparr>bi_data = data, bi_restarts = restarts, bi_num_restarts = num_restarts, bi_current = restarts,
        bi_restart_index = num_restarts, bi_key = [], bi_value = None, bi_status = Status_OK\<rparr>)"

text \<open>What \<open>NewIterator\<close> makes: an empty iterator with a status, or an iterator over the block.\<close>

datatype block_iterator = Empty_Iterator Status | Block_Iterator BlockIter

definition Block_NewIterator :: "Block \<Rightarrow> block_iterator option" where
  "Block_NewIterator b =
     (if blk_size b < 4 then do { s \<leftarrow> Status_Corruption (bytes_of_string ''bad block contents'') []; Some (Empty_Iterator s) }
      else do {
        n \<leftarrow> NumRestarts b;
        if n = 0 then Some (Empty_Iterator Status_OK)
        else do { i \<leftarrow> BlockIter_new (blk_data b) (blk_restart_offset b) (unat n); Some (Block_Iterator i) }
      })"

definition NextEntryOffset :: "BlockIter \<Rightarrow> nat option" where
  "NextEntryOffset i = (case bi_value i of None \<Rightarrow> None | Some (off, len) \<Rightarrow> Some ((off + len) mod 2 ^ 32))"

definition GetRestartPoint :: "BlockIter \<Rightarrow> nat \<Rightarrow> nat option" where
  "GetRestartPoint i index =
     (if bi_num_restarts i \<le> index then None
      else do { w \<leftarrow> DecodeFixed32 kLittleEndian (drop (bi_restarts i + index * 4) (bi_data i)); Some (unat w) })"

definition SeekToRestartPoint :: "nat \<Rightarrow> BlockIter \<Rightarrow> BlockIter option" where
  "SeekToRestartPoint index i = do {
     let i = i\<lparr>bi_key := [], bi_restart_index := index\<rparr>;
     off \<leftarrow> GetRestartPoint i index;
     Some (i\<lparr>bi_value := Some (off, 0)\<rparr>)
   }"

definition BlockIter_Valid :: "BlockIter \<Rightarrow> bool" where
  "BlockIter_Valid i \<longleftrightarrow> bi_current i < bi_restarts i"

definition BlockIter_status :: "BlockIter \<Rightarrow> Status" where
  "BlockIter_status i = bi_status i"

definition BlockIter_key :: "BlockIter \<Rightarrow> slice option" where
  "BlockIter_key i = (if BlockIter_Valid i then Some (bi_key i) else None)"

definition BlockIter_value :: "BlockIter \<Rightarrow> slice option" where
  "BlockIter_value i =
     (if BlockIter_Valid i
      then case bi_value i of None \<Rightarrow> None
        | Some (off, len) \<Rightarrow> if off + len \<le> length (bi_data i) then Some (take len (drop off (bi_data i))) else None
      else None)"

definition CorruptionError :: "BlockIter \<Rightarrow> BlockIter option" where
  "CorruptionError i = do {
     s \<leftarrow> Status_Corruption (bytes_of_string ''bad entry in block'') [];
     Some (i\<lparr>bi_current := bi_restarts i, bi_restart_index := bi_num_restarts i, bi_status := s,
       bi_key := [], bi_value := None\<rparr>)
   }"

partial_function (option) advance_restart :: "BlockIter \<Rightarrow> BlockIter option" where
  "advance_restart i =
     (let next_index = (bi_restart_index i + 1) mod 2 ^ 32 in
      if next_index < bi_num_restarts i then do {
        r \<leftarrow> GetRestartPoint i next_index;
        if r < bi_current i then advance_restart (i\<lparr>bi_restart_index := next_index\<rparr>) else Some i
      }
      else Some i)"

text \<open>The bytes between an offset and the restart array, in front of which the entries stop.\<close>

definition entries_from :: "BlockIter \<Rightarrow> nat \<Rightarrow> byte list" where
  "entries_from i off = drop off (take (bi_restarts i) (bi_data i))"

definition ParseNextKey :: "BlockIter \<Rightarrow> (bool \<times> BlockIter) option" where
  "ParseNextKey i = do {
     current \<leftarrow> NextEntryOffset i;
     let i = i\<lparr>bi_current := current\<rparr>;
     if bi_restarts i \<le> current
     then Some (False, i\<lparr>bi_current := bi_restarts i, bi_restart_index := bi_num_restarts i\<rparr>)
     else (case DecodeEntry (entries_from i current) of
         None \<Rightarrow> do { i \<leftarrow> CorruptionError i; Some (False, i) }
       | Some (shared, non_shared, value_length, q) \<Rightarrow>
           if length (bi_key i) < unat shared then do { i \<leftarrow> CorruptionError i; Some (False, i) }
           else
             let p = bi_restarts i - length q in
             if length (bi_data i) < p + unat non_shared then None
             else do {
               let i = i\<lparr>bi_key := take (unat shared) (bi_key i) @ take (unat non_shared) (drop p (bi_data i)),
                 bi_value := Some (p + unat non_shared, unat value_length)\<rparr>;
               i \<leftarrow> advance_restart i;
               Some (True, i)
             })
   }"

definition BlockIter_Next :: "BlockIter \<Rightarrow> BlockIter option" where
  "BlockIter_Next i = (if BlockIter_Valid i then do { (_, i) \<leftarrow> ParseNextKey i; Some i } else None)"

text \<open>The scan to a restart point before \<open>original\<close>; the flag is false where there is none.\<close>

fun scan_back :: "nat \<Rightarrow> nat \<Rightarrow> BlockIter \<Rightarrow> (bool \<times> BlockIter) option" where
  "scan_back original 0 i = do {
     r \<leftarrow> GetRestartPoint i 0;
     if original \<le> r then Some (False, i\<lparr>bi_current := bi_restarts i, bi_restart_index := bi_num_restarts i\<rparr>)
     else Some (True, i\<lparr>bi_restart_index := 0\<rparr>)
   }"
| "scan_back original (Suc j) i = do {
     r \<leftarrow> GetRestartPoint i (Suc j);
     if original \<le> r then scan_back original j i else Some (True, i\<lparr>bi_restart_index := Suc j\<rparr>)
   }"

text \<open>Parses entries while they end before \<open>limit\<close>.\<close>

partial_function (option) parse_until :: "nat \<Rightarrow> BlockIter \<Rightarrow> BlockIter option" where
  "parse_until limit i = do {
     (ok, i) \<leftarrow> ParseNextKey i;
     if ok then do {
       n \<leftarrow> NextEntryOffset i;
       if n < limit then parse_until limit i else Some i
     }
     else Some i
   }"

definition BlockIter_Prev :: "BlockIter \<Rightarrow> BlockIter option" where
  "BlockIter_Prev i =
     (if \<not> BlockIter_Valid i then None
      else do {
        let original = bi_current i;
        (found, i) \<leftarrow> scan_back original (bi_restart_index i) i;
        if \<not> found then Some i
        else do { i \<leftarrow> SeekToRestartPoint (bi_restart_index i) i; parse_until original i }
      })"

text \<open>The binary search: the restart point to start from, or \<open>None\<close> in the second place where the
  block is corrupt.\<close>

partial_function (option) search_restarts ::
  "(slice \<Rightarrow> slice \<Rightarrow> int option) \<Rightarrow> slice \<Rightarrow> BlockIter \<Rightarrow> nat \<Rightarrow> nat \<Rightarrow> nat option option" where
  "search_restarts cmp target i left right =
     (if left < right then do {
        let mid = (left + right + 1) mod 2 ^ 32 div 2;
        region_offset \<leftarrow> GetRestartPoint i mid;
        (case DecodeEntry (entries_from i region_offset) of
           None \<Rightarrow> Some None
         | Some (shared, non_shared, value_length, q) \<Rightarrow>
             if shared \<noteq> 0 then Some None
             else
               let p = bi_restarts i - length q in
               if length (bi_data i) < p + unat non_shared then None
               else do {
                 c \<leftarrow> cmp (take (unat non_shared) (drop p (bi_data i))) target;
                 if c < 0 then search_restarts cmp target i mid right
                 else search_restarts cmp target i left ((mid + 2 ^ 32 - 1) mod 2 ^ 32)
               })
      }
      else Some (Some left))"

partial_function (option) scan_to :: "(slice \<Rightarrow> slice \<Rightarrow> int option) \<Rightarrow> slice \<Rightarrow> BlockIter \<Rightarrow> BlockIter option" where
  "scan_to cmp target i = do {
     (ok, i) \<leftarrow> ParseNextKey i;
     if \<not> ok then Some i
     else do {
       c \<leftarrow> cmp (bi_key i) target;
       if 0 \<le> c then Some i else scan_to cmp target i
     }
   }"

definition BlockIter_Seek :: "(slice \<Rightarrow> slice \<Rightarrow> int option) \<Rightarrow> slice \<Rightarrow> BlockIter \<Rightarrow> BlockIter option" where
  "BlockIter_Seek cmp target i = do {
     found \<leftarrow> search_restarts cmp target i 0 (bi_num_restarts i - 1);
     (case found of
        None \<Rightarrow> CorruptionError i
      | Some left \<Rightarrow> do { i \<leftarrow> SeekToRestartPoint left i; scan_to cmp target i })
   }"

definition BlockIter_SeekToFirst :: "BlockIter \<Rightarrow> BlockIter option" where
  "BlockIter_SeekToFirst i = do { i \<leftarrow> SeekToRestartPoint 0 i; (_, i) \<leftarrow> ParseNextKey i; Some i }"

definition BlockIter_SeekToLast :: "BlockIter \<Rightarrow> BlockIter option" where
  "BlockIter_SeekToLast i = do {
     i \<leftarrow> SeekToRestartPoint (bi_num_restarts i - 1) i;
     parse_until (bi_restarts i) i
   }"

subsection \<open>The layout of a block\<close>

text \<open>The entries of a block, how many bytes of its key each takes over from the entry before, and the
  indices of the entries at the restart points.\<close>

record layout =
  ly_entries :: "(slice \<times> slice) list"
  ly_shared :: "nat list"
  ly_starts :: "nat list"

definition entry_bytes :: "nat \<Rightarrow> slice \<Rightarrow> slice \<Rightarrow> byte list" where
  "entry_bytes s k v = EncodeVarint32 (of_nat s) @ EncodeVarint32 (of_nat (length k - s)) @
     EncodeVarint32 (of_nat (length v)) @ drop s k @ v"

definition ly_key :: "layout \<Rightarrow> nat \<Rightarrow> slice" where
  "ly_key L i = fst (ly_entries L ! i)"

definition ly_value :: "layout \<Rightarrow> nat \<Rightarrow> slice" where
  "ly_value L i = snd (ly_entries L ! i)"

definition ly_entry :: "layout \<Rightarrow> nat \<Rightarrow> byte list" where
  "ly_entry L i = entry_bytes (ly_shared L ! i) (ly_key L i) (ly_value L i)"

definition ly_bytes :: "layout \<Rightarrow> nat \<Rightarrow> byte list" where
  "ly_bytes L n = concat (map (ly_entry L) [0 ..< n])"

definition ly_off :: "layout \<Rightarrow> nat \<Rightarrow> nat" where
  "ly_off L i = length (ly_bytes L i)"

abbreviation ly_size :: "layout \<Rightarrow> nat" where
  "ly_size L \<equiv> length (ly_entries L)"

definition ly_data :: "layout \<Rightarrow> byte list" where
  "ly_data L = ly_bytes L (ly_size L) @
     concat (map (\<lambda>i. EncodeFixed32 kLittleEndian (of_nat (ly_off L i))) (ly_starts L)) @
     EncodeFixed32 kLittleEndian (of_nat (length (ly_starts L)))"

definition ly_ok :: "layout \<Rightarrow> bool" where
  "ly_ok L \<longleftrightarrow> length (ly_shared L) = ly_size L \<and>
     (\<forall>i < ly_size L. ly_shared L ! i \<le> length (ly_key L i)) \<and>
     (\<forall>i < ly_size L. if i = 0 then ly_shared L ! i = 0
        else ly_shared L ! i \<le> length (ly_key L (i - 1)) \<and>
          take (ly_shared L ! i) (ly_key L (i - 1)) = take (ly_shared L ! i) (ly_key L i)) \<and>
     ly_starts L \<noteq> [] \<and> ly_starts L ! 0 = 0 \<and> sorted_wrt (<) (ly_starts L) \<and>
     (\<forall>j \<in> set (ly_starts L). if j < ly_size L then ly_shared L ! j = 0 else j = 0)"

lemma varint_first:
  "\<exists>b y. EncodeVarint32 w = b # y \<and> (b < 128 \<longrightarrow> y = [] \<and> w < 128 \<and> ucast b = w)"
proof (cases "w < 128")
  case True
  then have "(ucast (ucast w :: byte) :: 32 word) = w"
    by (simp add: word_unat_eq_iff unsigned_ucast_eq word_less_nat_alt unsigned_take_bit_eq take_bit_nat_eq_self)
  then show ?thesis using True by (simp add: EncodeVarint32_def)
next
  case False
  have "\<not> b < 128" if "bit b 7" for b :: byte
  proof
    assume "b < 128"
    then have z: "unat b div 2 ^ 7 = 0" by (simp add: word_less_nat_alt)
    have "bit (unat b) 7" using that by (simp add: bit_unsigned_iff)
    then have "odd (unat b div 2 ^ 7)" by (simp only: bit_iff_odd not_False_eq_True)
    then show False unfolding z by simp
  qed
  then have "\<not> (ucast (w OR 128) :: byte) < 128" "\<not> (ucast (w OR 128) :: byte) < 128" by (simp_all add: bit_simps)
  then show ?thesis using False by (simp add: EncodeVarint32_def)
qed

lemma fast_lengths:
  fixes a b c :: byte
  assumes "(ucast a :: 32 word) OR ucast b OR ucast c < 128"
  shows "a < 128 \<and> b < 128 \<and> c < (128 :: byte)"
proof -
  have "x \<le> x OR y" "y \<le> x OR y" for x y :: "32 word"
    by (simp_all add: le_word_or1 le_word_or2)
  then have "(ucast a :: 32 word) < 128" "(ucast b :: 32 word) < 128" "(ucast c :: 32 word) < 128"
    using assms by (meson order_le_less_trans)+
  moreover have "unat (ucast x :: 32 word) = unat x" for x :: byte
    using unsigned_less [of x, where ?'a = nat] by (simp add: unsigned_ucast_eq take_bit_nat_eq_self)
  ultimately show ?thesis by (simp add: word_less_nat_alt)
qed

lemma DecodeEntry_bytes:
  assumes "s \<le> length k" and "length (entry_bytes s k v @ x) < 2 ^ 32" and "length k < 2 ^ 32"
  shows "DecodeEntry (entry_bytes s k v @ x) =
    Some (of_nat s, of_nat (length k - s), of_nat (length v), drop s k @ v @ x)"
proof -
  let ?a = "of_nat s :: 32 word" and ?b = "of_nat (length k - s) :: 32 word" and ?c = "of_nat (length v) :: 32 word"
  let ?q = "drop s k @ v @ x"
  obtain a ya where a: "EncodeVarint32 ?a = a # ya" "a < 128 \<longrightarrow> ya = [] \<and> ?a < 128 \<and> ucast a = ?a" using varint_first by blast
  obtain b yb where b: "EncodeVarint32 ?b = b # yb" "b < 128 \<longrightarrow> yb = [] \<and> ?b < 128 \<and> ucast b = ?b" using varint_first by blast
  obtain c yc where c: "EncodeVarint32 ?c = c # yc" "c < 128 \<longrightarrow> yc = [] \<and> ?c < 128 \<and> ucast c = ?c" using varint_first by blast
  let ?p = "entry_bytes s k v @ x"
  have p: "?p = EncodeVarint32 ?a @ EncodeVarint32 ?b @ EncodeVarint32 ?c @ ?q" by (simp add: entry_bytes_def)
  have len: "\<not> length ?p < 3" unfolding p a b c by simp
  have small: "length k - s + length v + length x < 2 ^ 32" using assms(2) by (simp add: entry_bytes_def)
  have fits: "\<not> (of_nat (length ?q) :: 32 word) < ?b + ?c"
    using small by (simp add: word_less_nat_alt unat_word_ariths unat_of_nat)
  have parts: "(if ucast (?p ! 0) OR ucast (?p ! 1) OR ucast (?p ! 2) < (128 :: 32 word)
      then Some (ucast (?p ! 0), ucast (?p ! 1), ucast (?p ! 2), drop 3 ?p)
      else do {
        (shared, p) \<leftarrow> GetVarint32Ptr ?p;
        (non_shared, p) \<leftarrow> GetVarint32Ptr p;
        (value_length, p) \<leftarrow> GetVarint32Ptr p;
        Some (shared, non_shared, value_length, p) }) = Some (?a, ?b, ?c, ?q)"
  proof (cases "ucast (?p ! 0) OR ucast (?p ! 1) OR ucast (?p ! 2) < (128 :: 32 word)")
    case True
    from fast_lengths [OF True] have f: "?p ! 0 < 128" "?p ! 1 < 128" "?p ! 2 < 128" by simp_all
    have "?p = a # ya @ EncodeVarint32 ?b @ EncodeVarint32 ?c @ ?q" unfolding p a by simp
    then have "ya = []" "ucast a = ?a" "?p = a # b # yb @ EncodeVarint32 ?c @ ?q" using f(1) a(2) b(1) by simp_all
    then have "yb = []" "ucast b = ?b" "?p = a # b # c # yc @ ?q" using f(2) b(2) c(1) by simp_all
    then have "?p = a # b # c # ?q" "ucast c = ?c" using f(3) c(2) by simp_all
    then show ?thesis using True \<open>ucast a = ?a\<close> \<open>ucast b = ?b\<close> by simp
  next
    case False
    then show ?thesis unfolding p by (simp flip: GetVarint32_def)
  qed
  show ?thesis unfolding DecodeEntry_def using len
    by (simp only: if_False Let_def parts bind.bind_lunit prod.case fits)
qed

text \<open>Where the entries lie.\<close>

lemma ly_bytes_Suc: "ly_bytes L (Suc n) = ly_bytes L n @ ly_entry L n"
  by (simp add: ly_bytes_def)

lemma ly_off_Suc: "ly_off L (Suc n) = ly_off L n + length (ly_entry L n)"
  by (simp add: ly_off_def ly_bytes_Suc)

lemma entry_nonempty: "0 < length (entry_bytes s k v)"
  using varint_first [of "of_nat s"] by (auto simp: entry_bytes_def)

lemma ly_off_less: "ly_off L i < ly_off L j \<longleftrightarrow> i < j"
proof -
  have "ly_off L i < ly_off L (Suc i)" for i using entry_nonempty by (simp add: ly_off_Suc ly_entry_def)
  then have "strict_mono (ly_off L)" by (simp add: strict_mono_Suc_iff)
  then show ?thesis by (simp add: strict_mono_less)
qed

lemma ly_off_le: "ly_off L i \<le> ly_off L j \<longleftrightarrow> i \<le> j"
  using ly_off_less [of L j i] by (simp flip: not_less)

lemma ly_off_0: "ly_off L 0 = 0"
  by (simp add: ly_off_def ly_bytes_def)

lemma ly_bytes_split:
  assumes "i < n"
  shows "\<exists>z. drop (ly_off L i) (ly_bytes L n) = ly_entry L i @ z"
proof -
  have "\<exists>z. ly_bytes L n = ly_bytes L i @ ly_entry L i @ z"
    using assms
  proof (induction n)
    case (Suc n)
    then show ?case by (cases "i = n") (auto simp: ly_bytes_Suc less_Suc_eq)
  qed simp
  then show ?thesis by (auto simp: ly_off_def)
qed

lemma ly_shares:
  assumes "ly_ok L"
  shows "i < ly_size L \<Longrightarrow> ly_shared L ! i \<le> length (ly_key L i)"
    and "0 < ly_size L \<Longrightarrow> ly_shared L ! 0 = 0"
    and "Suc i < ly_size L \<Longrightarrow> ly_shared L ! Suc i \<le> length (ly_key L i)"
    and "Suc i < ly_size L \<Longrightarrow> take (ly_shared L ! Suc i) (ly_key L i) = take (ly_shared L ! Suc i) (ly_key L (Suc i))"
  using assms unfolding ly_ok_def by (auto dest!: spec [of _ "Suc i"])

lemma ly_key_le: "ly_ok L \<Longrightarrow> i < ly_size L \<Longrightarrow> length (ly_key L i) \<le> ly_off L (Suc i)"
proof (induction i)
  case 0
  then show ?case using ly_shares(2) [of L] by (simp add: ly_off_Suc ly_entry_def entry_bytes_def)
next
  case (Suc i)
  then have "length (ly_key L i) \<le> ly_off L (Suc i)" by simp
  then show ?case using ly_shares(3) [OF Suc.prems] by (simp add: ly_off_Suc [of L "Suc i"] ly_entry_def entry_bytes_def)
qed

lemma length_ly_data: "length (ly_data L) = ly_off L (ly_size L) + 4 * length (ly_starts L) + 4"
proof -
  have "length (concat (map (\<lambda>i. EncodeFixed32 kLittleEndian (f i)) xs)) = 4 * length xs" for f :: "nat \<Rightarrow> 32 word" and xs
    by (induction xs) (simp_all add: length_EncodeFixed)
  then show ?thesis by (simp add: ly_data_def length_EncodeFixed ly_off_def)
qed

text \<open>An iterator looks at the block.\<close>

definition views :: "layout \<Rightarrow> BlockIter \<Rightarrow> bool" where
  "views L it \<longleftrightarrow> ly_ok L \<and> length (ly_data L) < 2 ^ 32 \<and> bi_data it = ly_data L \<and>
     bi_restarts it = ly_off L (ly_size L) \<and> bi_num_restarts it = length (ly_starts L) \<and> bi_status it = Status_OK"

lemma views_update [simp]:
  "views L (it\<lparr>bi_current := c\<rparr>) = views L it" "views L (it\<lparr>bi_restart_index := r\<rparr>) = views L it"
  "views L (it\<lparr>bi_key := k\<rparr>) = views L it" "views L (it\<lparr>bi_value := v\<rparr>) = views L it"
  by (simp_all add: views_def)

lemma views_small:
  assumes "views L it" and "i \<le> ly_size L"
  shows "ly_off L i < 2 ^ 32" and "length (ly_starts L) < 2 ^ 31" and "bi_num_restarts it \<noteq> 0"
  using assms ly_off_le [of L i "ly_size L"] length_ly_data [of L] by (auto simp: views_def ly_ok_def)

lemma starts_bound:
  assumes "ly_ok L" and "j < length (ly_starts L)"
  shows "ly_starts L ! j \<le> ly_size L"
proof -
  have "ly_starts L ! j \<in> set (ly_starts L)" using assms(2) by simp
  then show ?thesis using assms(1) by (auto simp: ly_ok_def split: if_splits)
qed

lemma starts_mono: "ly_ok L \<Longrightarrow> i < j \<Longrightarrow> j < length (ly_starts L) \<Longrightarrow> ly_starts L ! i < ly_starts L ! j"
  by (auto simp: ly_ok_def sorted_wrt_iff_nth_less)

lemma restart_point:
  assumes "views L it" and "j < length (ly_starts L)"
  shows "GetRestartPoint it j = Some (ly_off L (ly_starts L ! j))"
proof -
  let ?f = "\<lambda>i. EncodeFixed32 kLittleEndian (of_nat (ly_off L i) :: 32 word)"
  have "drop (4 * j) (concat (map ?f xs) @ y) = ?f (xs ! j) @ concat (map ?f (drop (Suc j) xs)) @ y" if "j < length xs" for xs y
    using that
  proof (induction xs arbitrary: j)
    case (Cons x xs)
    show ?case
    proof (cases j)
      case (Suc j')
      have "drop (4 * j) (concat (map ?f (x # xs)) @ y) = drop (4 * j') (concat (map ?f xs) @ y)"
        using Suc by (simp add: length_EncodeFixed)
      then show ?thesis using Cons Suc by simp
    qed simp
  qed simp
  from this [OF assms(2)] have "drop (bi_restarts it + j * 4) (bi_data it) =
      ?f (ly_starts L ! j) @ concat (map ?f (drop (Suc j) (ly_starts L))) @ EncodeFixed32 kLittleEndian (of_nat (length (ly_starts L)))"
    using assms(1) by (simp add: views_def ly_data_def ly_off_def mult.commute)
  moreover have "ly_off L (ly_starts L ! j) < 2 ^ 32"
    using views_small(1) [OF assms(1) starts_bound] assms by (simp add: views_def)
  ultimately show ?thesis using assms by (simp add: GetRestartPoint_def views_def unat_of_nat)
qed

lemma entry_at:
  assumes "views L it" and "i < ly_size L"
  shows "\<exists>q. DecodeEntry (entries_from it (ly_off L i)) =
      Some (of_nat (ly_shared L ! i), of_nat (length (ly_key L i) - ly_shared L ! i), of_nat (length (ly_value L i)), q) \<and>
    bi_restarts it - length q + length (drop (ly_shared L ! i) (ly_key L i)) + length (ly_value L i) = ly_off L (Suc i) \<and>
    (\<exists>z. drop (bi_restarts it - length q) (bi_data it) = drop (ly_shared L ! i) (ly_key L i) @ ly_value L i @ z) \<and>
    length q \<le> bi_restarts it"
proof -
  let ?n = "ly_size L"
  have take: "take (bi_restarts it) (bi_data it) = ly_bytes L ?n" using assms(1) by (simp add: views_def ly_data_def ly_off_def)
  obtain z where z: "drop (ly_off L i) (ly_bytes L ?n) = ly_entry L i @ z" using ly_bytes_split [OF assms(2)] by blast
  let ?q = "drop (ly_shared L ! i) (ly_key L i) @ ly_value L i @ z"
  have s: "ly_shared L ! i \<le> length (ly_key L i)" using assms by (simp add: views_def ly_ok_def)
  have small: "ly_off L ?n < 2 ^ 32" "ly_off L (Suc i) < 2 ^ 32" using views_small(1) assms by simp_all
  have len: "length (ly_entry L i @ z) = ly_off L ?n - ly_off L i" using arg_cong [OF z, of length] by (simp add: ly_off_def)
  have k: "length (ly_key L i) < 2 ^ 32"
    using ly_key_le [OF _ assms(2)] assms(1) small(2) by (simp add: views_def)
  have "DecodeEntry (entries_from it (ly_off L i)) =
      Some (of_nat (ly_shared L ! i), of_nat (length (ly_key L i) - ly_shared L ! i), of_nat (length (ly_value L i)), ?q)"
    unfolding entries_from_def take z ly_entry_def
    by (rule DecodeEntry_bytes) (use s k len small in \<open>simp_all add: ly_entry_def\<close>)
  moreover have le: "ly_off L (Suc i) \<le> ly_off L ?n" using assms(2) by (simp add: ly_off_le)
  have r: "bi_restarts it = ly_off L ?n" using assms(1) by (simp add: views_def)
  have q: "length ?q \<le> ly_off L ?n" using len by (simp add: ly_entry_def entry_bytes_def)
  have e: "ly_off L ?n - length ?q + length (drop (ly_shared L ! i) (ly_key L i)) + length (ly_value L i) = ly_off L (Suc i)"
  proof -
    have "length (drop (ly_shared L ! i) (ly_key L i)) + length (ly_value L i) \<le> length (ly_entry L i)"
      by (simp add: ly_entry_def entry_bytes_def)
    then show ?thesis using len le ly_off_Suc [of L i] by simp
  qed
  have "\<exists>y. drop (bi_restarts it - length ?q) (bi_data it) = ?q @ y"
  proof -
    have "\<exists>w. ly_bytes L ?n = w @ ?q"
      using z append_take_drop_id [of "ly_off L i" "ly_bytes L ?n"] unfolding ly_entry_def entry_bytes_def by (metis append.assoc)
    then obtain w where w: "ly_bytes L ?n = w @ ?q" by blast
    then have "ly_off L ?n - length ?q = length w" by (simp add: ly_off_def)
    then show ?thesis using w assms(1) r by (simp add: views_def ly_data_def)
  qed
  then have "\<exists>z'. drop (bi_restarts it - length ?q) (bi_data it) = drop (ly_shared L ! i) (ly_key L i) @ ly_value L i @ z'"
    by auto
  ultimately show ?thesis using e q r by (intro exI [of _ ?q]) simp
qed

text \<open>An iterator that is about to parse entry \<open>j\<close>, one that has parsed it, and one past the end.\<close>

definition awaits :: "layout \<Rightarrow> BlockIter \<Rightarrow> nat \<Rightarrow> bool" where
  "awaits L it j \<longleftrightarrow> views L it \<and> j \<le> ly_size L \<and> (\<exists>o' l. bi_value it = Some (o', l) \<and> o' + l = ly_off L j) \<and>
     (j < ly_size L \<longrightarrow> ly_shared L ! j \<le> length (bi_key it) \<and>
        take (ly_shared L ! j) (bi_key it) = take (ly_shared L ! j) (ly_key L j)) \<and>
     bi_restart_index it < length (ly_starts L) \<and> ly_starts L ! bi_restart_index it \<le> j"

definition parsed :: "layout \<Rightarrow> BlockIter \<Rightarrow> nat \<Rightarrow> bool" where
  "parsed L it j \<longleftrightarrow> views L it \<and> j < ly_size L \<and> bi_current it = ly_off L j \<and> bi_key it = ly_key L j \<and>
     (\<exists>o' z. bi_value it = Some (o', length (ly_value L j)) \<and> o' + length (ly_value L j) = ly_off L (Suc j) \<and>
       drop o' (bi_data it) = ly_value L j @ z) \<and>
     bi_restart_index it < length (ly_starts L) \<and> ly_starts L ! bi_restart_index it \<le> j"

definition past_end :: "layout \<Rightarrow> BlockIter \<Rightarrow> bool" where
  "past_end L it \<longleftrightarrow> views L it \<and> bi_current it = bi_restarts it"

lemma parsed_awaits:
  assumes "parsed L it j" shows "awaits L it (Suc j)"
proof -
  have "ly_ok L" using assms by (simp add: parsed_def views_def)
  then show ?thesis using assms ly_shares(3,4) [of L j] by (auto simp: parsed_def awaits_def)
qed

lemma next_offset: "awaits L it j \<Longrightarrow> NextEntryOffset it = Some (ly_off L j)"
  using views_small(1) [of L it j] by (auto simp: awaits_def NextEntryOffset_def)

lemma advance:
  assumes "views L it" and "bi_restart_index it < length (ly_starts L)" and "ly_starts L ! bi_restart_index it \<le> j"
    and "bi_current it = ly_off L j"
  shows "\<exists>r. advance_restart it = Some (it\<lparr>bi_restart_index := r\<rparr>) \<and> r < length (ly_starts L) \<and> ly_starts L ! r \<le> j"
  using assms
proof (induction "length (ly_starts L) - bi_restart_index it" arbitrary: it rule: less_induct)
  case less
  let ?r = "Suc (bi_restart_index it)"
  have n: "bi_num_restarts it = length (ly_starts L)" using less.prems(1) by (simp add: views_def)
  have m: "(bi_restart_index it + 1) mod 2 ^ 32 = ?r"
    using less.prems(2) views_small(2) [OF less.prems(1) order_refl] by simp
  show ?case
  proof (cases "?r < length (ly_starts L) \<and> ly_starts L ! ?r < j")
    case True
    let ?it = "it\<lparr>bi_restart_index := ?r\<rparr>"
    have "advance_restart it = advance_restart ?it"
      using True less.prems(4) restart_point [OF less.prems(1), of ?r]
      by (subst advance_restart.simps) (simp only: m n Let_def bind.bind_lunit ly_off_less if_True)
    moreover have "length (ly_starts L) - bi_restart_index ?it < length (ly_starts L) - bi_restart_index it"
      using less.prems(2) by simp
    ultimately show ?thesis using less.hyps [of ?it] less.prems True by simp
  next
    case False
    have "advance_restart it = Some it"
    proof (cases "?r < length (ly_starts L)")
      case True
      then have "\<not> ly_starts L ! ?r < j" using False by simp
      then show ?thesis using True less.prems(4) restart_point [OF less.prems(1) True]
        by (subst advance_restart.simps) (simp only: m n Let_def bind.bind_lunit ly_off_less if_True if_False)
    next
      case False
      then show ?thesis by (subst advance_restart.simps) (simp only: m n Let_def if_False)
    qed
    then show ?thesis using less.prems by (intro exI [of _ "bi_restart_index it"]) simp
  qed
qed

lemma entries_from_update [simp]: "entries_from (it\<lparr>bi_current := c\<rparr>) off = entries_from it off"
  by (simp add: entries_from_def)

lemma parse:
  assumes "awaits L it j"
  shows "j < ly_size L \<Longrightarrow> \<exists>it'. ParseNextKey it = Some (True, it') \<and> parsed L it' j"
    and "j = ly_size L \<Longrightarrow> \<exists>it'. ParseNextKey it = Some (False, it') \<and> past_end L it'"
proof -
  have v: "views L it" using assms by (simp add: awaits_def)
  then have r: "bi_restarts it = ly_off L (ly_size L)" by (simp add: views_def)
  note no = next_offset [OF assms]
  show "\<exists>it'. ParseNextKey it = Some (False, it') \<and> past_end L it'" if "j = ly_size L"
    using that v by (simp add: ParseNextKey_def no r past_end_def Let_def)
  assume j: "j < ly_size L"
  let ?s = "ly_shared L ! j" and ?k = "ly_key L j" and ?v = "ly_value L j"
  obtain q z where q: "DecodeEntry (entries_from it (ly_off L j)) = Some (of_nat ?s, of_nat (length ?k - ?s), of_nat (length ?v), q)"
    "bi_restarts it - length q + length (drop ?s ?k) + length ?v = ly_off L (Suc j)"
    "drop (bi_restarts it - length q) (bi_data it) = drop ?s ?k @ ?v @ z" "length q \<le> bi_restarts it"
    using entry_at [OF v j] by blast
  have ok: "ly_ok L" using v by (simp add: views_def)
  have k: "length ?k < 2 ^ 32" "?s \<le> length ?k" "length ?v < 2 ^ 32"
    using ly_key_le [OF ok j] views_small(1) [OF v, of "Suc j"] j q(2) ly_shares(1) [OF ok j] by simp_all
  have u: "unat (of_nat ?s :: 32 word) = ?s" "unat (of_nat (length ?k - ?s) :: 32 word) = length ?k - ?s"
    "unat (of_nat (length ?v) :: 32 word) = length ?v"
    unfolding unat_of_nat using k by simp_all
  have sh: "?s \<le> length (bi_key it)" "take ?s (bi_key it) = take ?s ?k" using assms j by (simp_all add: awaits_def)
  let ?p = "bi_restarts it - length q"
  let ?it = "it\<lparr>bi_current := ly_off L j, bi_key := ?k, bi_value := Some (?p + (length ?k - ?s), length ?v)\<rparr>"
  have "views L ?it" "bi_restart_index ?it < length (ly_starts L)" "ly_starts L ! bi_restart_index ?it \<le> j" "bi_current ?it = ly_off L j"
    using assms v by (simp_all add: awaits_def)
  from advance [OF this] obtain i where i: "advance_restart ?it = Some (?it\<lparr>bi_restart_index := i\<rparr>)"
    "i < length (ly_starts L)" "ly_starts L ! i \<le> j" by blast
  have key: "take ?s (bi_key it) @ take (length ?k - ?s) (drop ?p (bi_data it)) = ?k" using k(2) sh(2) q(3) by simp
  have fits: "\<not> length (bi_data it) < ?p + (length ?k - ?s)"
    using arg_cong [OF q(3), of length] q(2,4) views_def v length_ly_data [of L] r by (simp add: views_def)
  have "\<not> bi_restarts it \<le> ly_off L j" using j by (simp add: r ly_off_le)
  then have "ParseNextKey it = Some (True, ?it\<lparr>bi_restart_index := i\<rparr>)"
    using fits sh(1) i(1) by (simp add: ParseNextKey_def no Let_def q(1) u key)
  moreover have "drop (?p + (length ?k - ?s)) (bi_data it) = ?v @ z"
    using arg_cong [OF q(3), of "drop (length ?k - ?s)"] by (simp add: add.commute)
  then have "parsed L (?it\<lparr>bi_restart_index := i\<rparr>) j" using v j i(2,3) q(2) by (simp add: parsed_def)
  ultimately show "\<exists>it'. ParseNextKey it = Some (True, it') \<and> parsed L it' j" by blast
qed

subsection \<open>The operations move the cursor\<close>

definition stands_in :: "layout \<Rightarrow> BlockIter \<Rightarrow> nat \<Rightarrow> bool" where
  "stands_in L it i \<longleftrightarrow> i \<le> ly_size L \<and> (if i < ly_size L then parsed L it i else past_end L it)"

lemma stands_views: "stands_in L it i \<Longrightarrow> views L it"
  by (auto simp: stands_in_def parsed_def past_end_def split: if_splits)

lemma parse_stands:
  assumes "awaits L it j"
  shows "\<exists>it'. ParseNextKey it = Some (j < ly_size L, it') \<and> stands_in L it' j"
proof -
  have "j \<le> ly_size L" using assms by (simp add: awaits_def)
  then show ?thesis using parse [OF assms] by (cases "j < ly_size L") (auto simp: stands_in_def)
qed

lemma seek_restart:
  assumes "views L it" and "j < length (ly_starts L)"
  shows "\<exists>it'. SeekToRestartPoint j it = Some it' \<and> awaits L it' (ly_starts L ! j)"
proof -
  let ?it = "it\<lparr>bi_key := [], bi_restart_index := j\<rparr>"
  have ok: "ly_ok L" using assms(1) by (simp add: views_def)
  have "views L ?it" using assms(1) by simp
  note restart_point [OF this assms(2)]
  moreover have "ly_shared L ! (ly_starts L ! j) = 0" if "ly_starts L ! j < ly_size L"
    using ok assms(2) that unfolding ly_ok_def by (meson nth_mem)
  ultimately show ?thesis using assms starts_bound [OF ok assms(2)]
    by (simp add: SeekToRestartPoint_def awaits_def)
qed

lemma parse_until_stands:
  assumes "awaits L it j" and "j < m" and "m \<le> ly_size L"
  shows "\<exists>it'. parse_until (ly_off L m) it = Some it' \<and> stands_in L it' (m - 1)"
  using assms
proof (induction "m - j" arbitrary: it j rule: less_induct)
  case less
  have j: "j < ly_size L" using less.prems by simp
  obtain it1 where it1: "ParseNextKey it = Some (True, it1)" "parsed L it1 j"
    using parse(1) [OF less.prems(1) j] by blast
  note aw = parsed_awaits [OF it1(2)]
  have eq: "parse_until (ly_off L m) it = (if Suc j < m then parse_until (ly_off L m) it1 else Some it1)"
    by (subst parse_until.simps) (simp add: it1(1) next_offset [OF aw] ly_off_less)
  show ?case
  proof (cases "Suc j < m")
    case True
    then show ?thesis using eq less.hyps [OF _ aw True less.prems(3)] by simp
  next
    case False
    then have "m - 1 = j" using less.prems(2) by simp
    then show ?thesis using eq False it1(2) j by (simp add: stands_in_def)
  qed
qed

lemma next_stands:
  assumes "stands_in L it i" and "i < ly_size L"
  shows "\<exists>it'. BlockIter_Next it = Some it' \<and> stands_in L it' (Suc i)"
proof -
  have p: "parsed L it i" using assms by (simp add: stands_in_def)
  then have "BlockIter_Valid it" using assms(2) by (simp add: BlockIter_Valid_def parsed_def views_def ly_off_less)
  then show ?thesis using parse_stands [OF parsed_awaits [OF p]] by (auto simp: BlockIter_Next_def)
qed

lemma scan_back_finds:
  assumes "views L it" and "j < length (ly_starts L)"
  shows "if i = 0
    then scan_back (ly_off L i) j it = Some (False, it\<lparr>bi_current := bi_restarts it, bi_restart_index := bi_num_restarts it\<rparr>)
    else \<exists>r. scan_back (ly_off L i) j it = Some (True, it\<lparr>bi_restart_index := r\<rparr>) \<and> r < length (ly_starts L) \<and> ly_starts L ! r < i"
  using assms(2)
proof (induction j)
  case 0
  have s: "ly_starts L ! 0 = 0" using assms(1) by (simp add: views_def ly_ok_def)
  have "GetRestartPoint it 0 = Some (ly_off L 0)" using restart_point [OF assms(1) "0.prems"] s by simp
  then show ?case using s "0.prems" by (auto simp: ly_off_le intro!: exI [of _ 0])
next
  case (Suc j)
  then show ?case using restart_point [OF assms(1) Suc.prems] by (auto simp: ly_off_le ly_off_0 not_le)
qed

lemma prev_stands:
  assumes "stands_in L it i" and "i < ly_size L"
  shows "\<exists>it'. BlockIter_Prev it = Some it' \<and> stands_in L it' (if i = 0 then ly_size L else i - 1)"
proof -
  have p: "parsed L it i" using assms by (simp add: stands_in_def)
  then have v: "views L it" and cur: "bi_current it = ly_off L i" and ri: "bi_restart_index it < length (ly_starts L)"
    by (simp_all add: parsed_def)
  have val: "BlockIter_Valid it" using cur v assms(2) by (simp add: BlockIter_Valid_def views_def ly_off_less)
  show ?thesis
  proof (cases "i = 0")
    case True
    then show ?thesis using val scan_back_finds [OF v ri, of 0] True v
      by (simp add: BlockIter_Prev_def cur stands_in_def past_end_def)
  next
    case False
    obtain r where r: "scan_back (ly_off L i) (bi_restart_index it) it = Some (True, it\<lparr>bi_restart_index := r\<rparr>)"
      "r < length (ly_starts L)" "ly_starts L ! r < i" using scan_back_finds [OF v ri, of i] False by auto
    obtain it1 where it1: "SeekToRestartPoint r (it\<lparr>bi_restart_index := r\<rparr>) = Some it1" "awaits L it1 (ly_starts L ! r)"
      using seek_restart [of L "it\<lparr>bi_restart_index := r\<rparr>" r] v r(2) by auto
    have "i \<le> ly_size L" using assms(2) by simp
    from parse_until_stands [OF it1(2) r(3) this] show ?thesis
      using False val r(1) it1(1) by (auto simp: BlockIter_Prev_def cur)
  qed
qed

lemma first_stands:
  assumes "views L it" shows "\<exists>it'. BlockIter_SeekToFirst it = Some it' \<and> stands_in L it' 0"
proof -
  have s: "0 < length (ly_starts L)" "ly_starts L ! 0 = 0" using assms by (auto simp: views_def ly_ok_def)
  obtain it1 where "SeekToRestartPoint 0 it = Some it1" "awaits L it1 0" using seek_restart [OF assms s(1)] s(2) by auto
  then show ?thesis using parse_stands by (fastforce simp: BlockIter_SeekToFirst_def)
qed

lemma last_stands:
  assumes "views L it" shows "\<exists>it'. BlockIter_SeekToLast it = Some it' \<and> stands_in L it' (ly_size L - 1)"
proof -
  let ?r = "length (ly_starts L) - 1"
  have s: "?r < length (ly_starts L)" "bi_num_restarts it = length (ly_starts L)" and ok: "ly_ok L"
    using assms by (auto simp: views_def ly_ok_def)
  obtain it1 where it1: "SeekToRestartPoint ?r it = Some it1" "awaits L it1 (ly_starts L ! ?r)"
    using seek_restart [OF assms s(1)] by blast
  have n: "bi_restarts it1 = ly_off L (ly_size L)" using it1(2) by (simp add: awaits_def views_def)
  show ?thesis
  proof (cases "ly_size L = 0")
    case True
    then have "ly_starts L ! ?r = 0" using starts_bound [OF ok s(1)] by simp
    then obtain it2 where "ParseNextKey it1 = Some (False, it2)" "stands_in L it2 0" using parse_stands [OF it1(2)] True by auto
    then show ?thesis using it1(1) s(2) True by (subst BlockIter_SeekToLast_def, subst parse_until.simps) simp
  next
    case False
    have "ly_starts L ! ?r \<in> set (ly_starts L)" using s(1) by simp
    then have "ly_starts L ! ?r < ly_size L" using ok False by (auto simp: ly_ok_def split: if_splits)
    from parse_until_stands [OF it1(2) this order_refl] show ?thesis
      using it1(1) s(2) n by (auto simp: BlockIter_SeekToLast_def)
  qed
qed

lemma stands_reads:
  assumes "stands_in L it i"
  shows "BlockIter_Valid it \<longleftrightarrow> i < ly_size L"
    and "i < ly_size L \<Longrightarrow> BlockIter_key it = Some (fst (ly_entries L ! i))"
    and "i < ly_size L \<Longrightarrow> BlockIter_value it = Some (snd (ly_entries L ! i))"
    and "BlockIter_status it = Status_OK"
proof -
  show v: "BlockIter_Valid it \<longleftrightarrow> i < ly_size L"
    using assms by (auto simp: BlockIter_Valid_def stands_in_def parsed_def past_end_def views_def ly_off_less split: if_splits)
  show "BlockIter_status it = Status_OK" using stands_views [OF assms] by (simp add: BlockIter_status_def views_def)
  assume i: "i < ly_size L"
  then have p: "parsed L it i" using assms by (simp add: stands_in_def)
  then show "BlockIter_key it = Some (fst (ly_entries L ! i))" using v i by (simp add: BlockIter_key_def parsed_def ly_key_def)
  obtain o' z where o': "bi_value it = Some (o', length (ly_value L i))" "o' + length (ly_value L i) = ly_off L (Suc i)"
    "drop o' (bi_data it) = ly_value L i @ z" using p by (auto simp: parsed_def)
  have "o' + length (ly_value L i) \<le> length (bi_data it)"
    using o'(2) i p ly_off_le [of L "Suc i" "ly_size L"] length_ly_data [of L] by (simp add: parsed_def views_def)
  then show "BlockIter_value it = Some (snd (ly_entries L ! i))" using v i o'(1,3) by (simp add: BlockIter_value_def ly_value_def)
qed

definition Block_ops :: "(slice \<Rightarrow> slice \<Rightarrow> int option) \<Rightarrow> BlockIter iter_ops" where
  "Block_ops cmp = \<lparr>it_Valid = BlockIter_Valid, it_SeekToFirst = BlockIter_SeekToFirst, it_SeekToLast = BlockIter_SeekToLast,
     it_Seek = BlockIter_Seek cmp, it_Next = BlockIter_Next, it_Prev = BlockIter_Prev, it_key = BlockIter_key,
     it_value = BlockIter_value, it_status = \<lambda>i. Some (BlockIter_status i)\<rparr>"

context key_comparator
begin

definition ly_sorted :: "layout \<Rightarrow> bool" where
  "ly_sorted L \<longleftrightarrow> sorted_wrt lt (map fst (ly_entries L)) \<and> (\<forall>k \<in> fst ` set (ly_entries L). good k)"

lemma sorted_keys:
  assumes "ly_sorted L"
  shows "i < ly_size L \<Longrightarrow> good (ly_key L i)" and "i < j \<Longrightarrow> j < ly_size L \<Longrightarrow> lt (ly_key L i) (ly_key L j)"
  using assms by (auto simp: ly_sorted_def ly_key_def sorted_wrt_iff_nth_less)

text \<open>The binary search ends at a restart point before which every entry is less than the target.\<close>

lemma search:
  assumes "views L it" and "ly_sorted L" and "good target" and "left \<le> right" and "right < length (ly_starts L)"
    and "left = 0 \<or> lt (ly_key L (ly_starts L ! left)) target"
  shows "\<exists>r. search_restarts cmp target it left right = Some (Some r) \<and> r < length (ly_starts L) \<and>
    (r = 0 \<or> lt (ly_key L (ly_starts L ! r)) target)"
  using assms(4-)
proof (induction "right - left" arbitrary: left right rule: less_induct)
  case less
  show ?case
  proof (cases "left < right")
    case False
    then show ?thesis using less.prems by (subst search_restarts.simps) auto
  next
    case True
    define mid where "mid = (left + right + 1) div 2"
    have n: "length (ly_starts L) < 2 ^ 31" using views_small(2) [OF assms(1) order_refl] .
    then have m: "(left + right + 1) mod 2 ^ 32 div 2 = mid" "(mid + 2 ^ 32 - 1) mod 2 ^ 32 = mid - 1"
      using True less.prems(2) by (auto simp: mid_def mod_if)
    have mid: "left < mid" "mid \<le> right" "mid < length (ly_starts L)" using True less.prems(2) by (auto simp: mid_def)
    have ok: "ly_ok L" using assms(1) by (simp add: views_def)
    let ?i = "ly_starts L ! mid"
    have "?i \<in> set (ly_starts L)" "?i \<noteq> 0" using mid starts_mono [OF ok, of left mid] by auto
    then have i: "?i < ly_size L" "ly_shared L ! ?i = 0" using ok by (auto simp: ly_ok_def split: if_splits)
    obtain q z where q: "DecodeEntry (entries_from it (ly_off L ?i)) = Some (0, of_nat (length (ly_key L ?i)), of_nat (length (ly_value L ?i)), q)"
      "drop (bi_restarts it - length q) (bi_data it) = ly_key L ?i @ ly_value L ?i @ z"
      using entry_at [OF assms(1) i(1)] i(2) by auto
    have k: "unat (of_nat (length (ly_key L ?i)) :: 32 word) = length (ly_key L ?i)"
      using ly_key_le [OF ok i(1)] views_small(1) [OF assms(1), of "Suc ?i"] i(1) unfolding unat_of_nat by simp
    have fits: "\<not> length (bi_data it) < bi_restarts it - length q + length (ly_key L ?i)"
    proof -
      have "bi_restarts it \<le> length (bi_data it)" using assms(1) length_ly_data [of L] by (simp add: views_def)
      then show ?thesis using arg_cong [OF q(2), of length] by simp
    qed
    have key: "take (length (ly_key L ?i)) (ly_key L ?i @ ly_value L ?i @ z) = ly_key L ?i" by simp
    obtain c where c: "cmp (ly_key L ?i) target = Some c" using cmp_total [OF sorted_keys(1) [OF assms(2) i(1)] assms(3)] by blast
    have eq: "search_restarts cmp target it left right =
        (if c < 0 then search_restarts cmp target it mid right else search_restarts cmp target it left (mid - 1))"
      using True by (subst search_restarts.simps)
        (simp only: Let_def m restart_point [OF assms(1) mid(3)] q k fits if_True if_False option.case prod.case simp_thms
          bind.bind_lunit key c)
    show ?thesis
    proof (cases "c < 0")
      case True
      then have "lt (ly_key L ?i) target" using c by (auto simp: lt_def)
      then show ?thesis using eq True less.hyps [of right mid] mid less.prems(2) by simp
    next
      case False
      have "mid - 1 - left < right - left" "left \<le> mid - 1" "mid - 1 < length (ly_starts L)" using mid by linarith+
      then show ?thesis using eq False less.hyps [of "mid - 1" left] less.prems(3) by simp
    qed
  qed
qed

lemma scan:
  assumes "ly_sorted L" and "good target" and "awaits L it j" and "j \<le> seek_pos lt (ly_entries L) target"
  shows "\<exists>it'. scan_to cmp target it = Some it' \<and> stands_in L it' (seek_pos lt (ly_entries L) target)"
  using assms(3,4)
proof (induction "ly_size L - j" arbitrary: j it rule: less_induct)
  case less
  let ?p = "seek_pos lt (ly_entries L) target"
  obtain it1 where it1: "ParseNextKey it = Some (j < ly_size L, it1)" "stands_in L it1 j"
    using parse_stands [OF less.prems(1)] by blast
  show ?case
  proof (cases "j < ly_size L")
    case False
    then have "?p = j" using less.prems(2) seek_pos_le [of lt "ly_entries L" target] by simp
    then show ?thesis using False it1 by (subst scan_to.simps) simp
  next
    case True
    then have p: "parsed L it1 j" using it1(2) by (simp add: stands_in_def)
    then have key: "bi_key it1 = ly_key L j" by (simp add: parsed_def)
    obtain c where c: "cmp (ly_key L j) target = Some c" using cmp_total [OF sorted_keys(1) [OF assms(1) True] assms(2)] by blast
    have iff: "c < 0 \<longleftrightarrow> j < ?p"
      using seek_pos_iff [of "ly_entries L" target j] assms(1,2) True c by (auto simp: ly_sorted_def lt_def ly_key_def)
    show ?thesis
    proof (cases "c < 0")
      case False
      then have "?p = j" using iff less.prems(2) by simp
      then show ?thesis using it1 True False by (subst scan_to.simps) (simp add: key c)
    next
      case neg: True
      then have "Suc j \<le> ?p" using iff by simp
      moreover have "scan_to cmp target it = scan_to cmp target it1"
        using it1(1) True neg by (subst scan_to.simps) (simp add: key c)
      ultimately show ?thesis using less.hyps [OF _ parsed_awaits [OF p]] True by simp
    qed
  qed
qed

lemma seek_stands:
  assumes "views L it" and "ly_sorted L" and "good target"
  shows "\<exists>it'. BlockIter_Seek cmp target it = Some it' \<and> stands_in L it' (seek_pos lt (ly_entries L) target)"
proof -
  have ok: "ly_ok L" and n: "bi_num_restarts it = length (ly_starts L)" and ne: "0 < length (ly_starts L)"
    using assms(1) by (auto simp: views_def ly_ok_def)
  obtain r where r: "search_restarts cmp target it 0 (bi_num_restarts it - 1) = Some (Some r)" "r < length (ly_starts L)"
    "r = 0 \<or> lt (ly_key L (ly_starts L ! r)) target"
    using search [OF assms, of 0 "length (ly_starts L) - 1"] n ne by auto
  obtain it1 where it1: "SeekToRestartPoint r it = Some it1" "awaits L it1 (ly_starts L ! r)"
    using seek_restart [OF assms(1) r(2)] by blast
  have "ly_starts L ! r \<le> seek_pos lt (ly_entries L) target"
  proof (cases "ly_starts L ! r < ly_size L \<and> r \<noteq> 0")
    case True
    have "good k" if "k \<in> fst ` set (ly_entries L)" for k using that assms(2) by (auto simp: ly_sorted_def)
    then show ?thesis using seek_pos_iff [of "ly_entries L" target "ly_starts L ! r"] True r(3) assms(2,3)
      by (simp add: ly_sorted_def ly_key_def)
  next
    case False
    have "ly_starts L ! r \<in> set (ly_starts L)" "ly_starts L ! 0 = 0" using r(2) ok by (auto simp: ly_ok_def)
    then show ?thesis using False ok by (auto simp: ly_ok_def split: if_splits)
  qed
  from scan [OF assms(2,3) it1(2) this] show ?thesis using r(1) it1(1) by (simp add: BlockIter_Seek_def)
qed

definition block_stands :: "BlockIter \<Rightarrow> (slice \<times> slice) list \<Rightarrow> nat \<Rightarrow> bool" where
  "block_stands it kvs i \<longleftrightarrow> (\<exists>L. ly_entries L = kvs \<and> ly_sorted L \<and> stands_in L it i)"

end

text \<open>So block iterators keep the contract of iterators, for every comparator that keeps its own.\<close>

locale block_comparator = key_comparator

sublocale block_comparator \<subseteq> block: cursor cmp good "Block_ops cmp" block_stands
proof unfold_locales
  fix it kvs i
  assume "block_stands it kvs i"
  then obtain L where L: "ly_entries L = kvs" "ly_sorted L" "stands_in L it i" by (auto simp: block_stands_def)
  note v = stands_views [OF L(3)]
  have st: "block_stands it' kvs j" if "stands_in L it' j" for it' j using that L(1,2) by (auto simp: block_stands_def)
  show "i \<le> length kvs" using L(1,3) by (auto simp: stands_in_def)
  show "sorted_wrt lt (map fst kvs)" using L(1,2) by (simp add: ly_sorted_def)
  show "good k" if "k \<in> fst ` set kvs" for k using that L(1,2) by (auto simp: ly_sorted_def)
  show "it_Valid (Block_ops cmp) it = (i < length kvs)" using stands_reads(1) [OF L(3)] L(1) by (simp add: Block_ops_def)
  show "it_key (Block_ops cmp) it = Some (fst (kvs ! i))" if "i < length kvs"
    using stands_reads(2) [OF L(3)] that L(1) by (simp add: Block_ops_def)
  show "it_value (Block_ops cmp) it = Some (snd (kvs ! i))" if "i < length kvs"
    using stands_reads(3) [OF L(3)] that L(1) by (simp add: Block_ops_def)
  show "it_status (Block_ops cmp) it = Some Status_OK" using stands_reads(4) [OF L(3)] by (simp add: Block_ops_def)
  show "\<exists>it'. it_SeekToFirst (Block_ops cmp) it = Some it' \<and> block_stands it' kvs 0"
    using first_stands [OF v] st by (auto simp: Block_ops_def)
  show "\<exists>it'. it_SeekToLast (Block_ops cmp) it = Some it' \<and> block_stands it' kvs (length kvs - 1)"
    using last_stands [OF v] st L(1) by (auto simp: Block_ops_def)
  show "\<exists>it'. it_Seek (Block_ops cmp) target it = Some it' \<and> block_stands it' kvs (seek_pos lt kvs target)" if "good target" for target
    using seek_stands [OF v L(2) that] st L(1) by (auto simp: Block_ops_def)
  show "\<exists>it'. it_Next (Block_ops cmp) it = Some it' \<and> block_stands it' kvs (Suc i)" if "i < length kvs"
    using next_stands [OF L(3)] st that L(1) by (auto simp: Block_ops_def)
  show "\<exists>it'. it_Prev (Block_ops cmp) it = Some it' \<and> block_stands it' kvs (if i = 0 then length kvs else i - 1)" if "i < length kvs"
    using prev_stands [OF L(3)] st that L(1) by (auto simp: Block_ops_def)
qed

interpretation bytewise: block_comparator Bytewise_Compare "\<lambda>_. True"
  by unfold_locales

subsection \<open>What the builder builds\<close>

lemma shared_prefix:
  "shared_prefix xs ys \<le> length xs" "shared_prefix xs ys \<le> length ys"
  "take (shared_prefix xs ys) xs = take (shared_prefix xs ys) ys"
  by (induction xs ys rule: shared_prefix.induct) auto

definition ly_add :: "layout \<Rightarrow> nat \<Rightarrow> bool \<Rightarrow> slice \<Rightarrow> slice \<Rightarrow> layout" where
  "ly_add L s restart k v = \<lparr>ly_entries = ly_entries L @ [(k, v)], ly_shared = ly_shared L @ [s],
     ly_starts = ly_starts L @ (if restart then [ly_size L] else [])\<rparr>"

lemma ly_add_sel:
  assumes "length (ly_shared L) = ly_size L"
  shows "ly_size (ly_add L s r k v) = Suc (ly_size L)"
    and "i < ly_size L \<Longrightarrow> ly_key (ly_add L s r k v) i = ly_key L i" "ly_key (ly_add L s r k v) (ly_size L) = k"
    and "i < ly_size L \<Longrightarrow> ly_shared (ly_add L s r k v) ! i = ly_shared L ! i" "ly_shared (ly_add L s r k v) ! ly_size L = s"
    and "i \<le> ly_size L \<Longrightarrow> ly_bytes (ly_add L s r k v) i = ly_bytes L i"
    and "ly_bytes (ly_add L s r k v) (Suc (ly_size L)) = ly_bytes L (ly_size L) @ entry_bytes s k v"
proof -
  have e: "ly_entry (ly_add L s r k v) j = ly_entry L j" if "j < ly_size L" for j
    using that assms by (simp add: ly_entry_def ly_key_def ly_value_def ly_add_def nth_append)
  show b: "ly_bytes (ly_add L s r k v) i = ly_bytes L i" if "i \<le> ly_size L" for i
    using that e unfolding ly_bytes_def by (intro arg_cong [of _ _ concat] map_cong) auto
  have "ly_entry (ly_add L s r k v) (ly_size L) = entry_bytes s k v"
    using assms by (simp add: ly_entry_def ly_key_def ly_value_def ly_add_def nth_append)
  then show "ly_bytes (ly_add L s r k v) (Suc (ly_size L)) = ly_bytes L (ly_size L) @ entry_bytes s k v"
    by (simp add: ly_bytes_Suc b)
qed (use assms in \<open>simp_all add: ly_add_def ly_key_def nth_append\<close>)

definition built :: "int \<Rightarrow> BlockBuilder \<Rightarrow> layout \<Rightarrow> bool" where
  "built interval b L \<longleftrightarrow> ly_ok L \<and> bb_buffer b = ly_bytes L (ly_size L) \<and>
     bb_restarts b = map (\<lambda>i. of_nat (ly_off L i)) (ly_starts L) \<and> \<not> bb_finished b \<and>
     bb_last_key b = (if ly_size L = 0 then [] else ly_key L (ly_size L - 1)) \<and>
     int (last (ly_starts L)) + bb_counter b = int (ly_size L) \<and> 0 \<le> bb_counter b \<and> bb_counter b \<le> interval \<and> 1 \<le> interval"

lemma le_last: "sorted_wrt (<) (xs :: nat list) \<Longrightarrow> x \<in> set xs \<Longrightarrow> x \<le> last xs"
  by (induction xs) (auto intro: less_imp_le)

lemma ly_ok_add:
  assumes "ly_ok L" and "s \<le> length k" and "if ly_size L = 0 then s = 0 \<and> \<not> r
      else s \<le> length (ly_key L (ly_size L - 1)) \<and> take s (ly_key L (ly_size L - 1)) = take s k"
    and "r \<Longrightarrow> s = 0 \<and> last (ly_starts L) < ly_size L"
  shows "ly_ok (ly_add L s r k v)"
proof -
  let ?L = "ly_add L s r k v" and ?n = "ly_size L"
  have len: "length (ly_shared L) = ?n" using assms(1) by (simp add: ly_ok_def)
  note sel = ly_add_sel [OF len, where s = s and r = r and k = k and v = v]
  have "ly_shared ?L ! i \<le> length (ly_key ?L i)" if "i < Suc ?n" for i
    using that assms(2) sel(3,5) sel(2,4) [of i] ly_shares(1) [OF assms(1), of i] by (cases "i = ?n") auto
  moreover have "if i = 0 then ly_shared ?L ! i = 0
      else ly_shared ?L ! i \<le> length (ly_key ?L (i - 1)) \<and> take (ly_shared ?L ! i) (ly_key ?L (i - 1)) = take (ly_shared ?L ! i) (ly_key ?L i)"
    if "i < Suc ?n" for i
  proof (cases "i = ?n")
    case True
    then show ?thesis using assms(3) sel(2) [of "i - 1"] sel(3,5) by (auto split: if_splits)
  next
    case False
    then have i: "i < ?n" using that by simp
    then show ?thesis using assms(1) sel(2,4) [OF i] sel(2) [of "i - 1"] by (auto simp: ly_ok_def)
  qed
  moreover have "sorted_wrt (<) (ly_starts ?L)"
  proof -
    have s: "sorted_wrt (<) (ly_starts L)" "ly_starts L \<noteq> []" using assms(1) by (simp_all add: ly_ok_def)
    have "x \<le> last (ly_starts L)" if "x \<in> set (ly_starts L)" for x using le_last [OF s(1) that] .
    then show ?thesis using s assms(4) by (fastforce simp: ly_add_def sorted_wrt_append)
  qed
  moreover have "if j < Suc ?n then ly_shared ?L ! j = 0 else j = 0" if "j \<in> set (ly_starts ?L)" for j
  proof (cases "j = ?n")
    case True
    have "s = 0"
    proof (cases r)
      case False
      then have "?n \<in> set (ly_starts L)" using that True by (simp add: ly_add_def)
      then show ?thesis using assms(1,3) by (auto simp: ly_ok_def)
    qed (use assms(4) in simp)
    then show ?thesis using True sel(5) by simp
  next
    case False
    then have j: "j \<in> set (ly_starts L)" using that by (auto simp: ly_add_def split: if_splits)
    show ?thesis
    proof (cases "j < ?n")
      case True
      then show ?thesis using j assms(1) sel(4) [OF True] by (auto simp: ly_ok_def)
    next
      case False
      then show ?thesis using j assms(1) \<open>j \<noteq> ?n\<close> by (auto simp: ly_ok_def)
    qed
  qed
  moreover have "length (ly_shared ?L) = ly_size ?L" "ly_starts ?L \<noteq> []" "ly_starts ?L ! 0 = 0"
    using assms(1) len by (auto simp: ly_add_def ly_ok_def nth_append)
  ultimately show ?thesis unfolding ly_ok_def sel(1) by (intro conjI allI ballI impI) (blast | simp)+
qed

definition ly_empty :: layout where
  "ly_empty = \<lparr>ly_entries = [], ly_shared = [], ly_starts = [0]\<rparr>"

lemma built_new: "1 \<le> interval \<Longrightarrow> \<exists>b. BlockBuilder_new interval = Some b \<and> built interval b ly_empty"
  by (simp add: BlockBuilder_new_def built_def ly_empty_def ly_ok_def ly_bytes_def ly_off_def)

context key_comparator
begin

lemma built_add:
  assumes "built interval b L" and "ly_sorted L" and "good k" and "\<forall>x \<in> fst ` set (ly_entries L). lt x k"
  shows "\<exists>b' L'. BlockBuilder_Add cmp interval k v b = Some b' \<and> built interval b' L' \<and>
    ly_entries L' = ly_entries L @ [(k, v)] \<and> ly_sorted L'"
proof -
  let ?n = "ly_size L"
  define r where "r = (\<not> bb_counter b < interval)"
  define s where "s = (if r then 0 else shared_prefix (bb_last_key b) k)"
  let ?L = "ly_add L s r k v"
  have b: "ly_ok L" "bb_buffer b = ly_bytes L ?n" "bb_restarts b = map (\<lambda>i. of_nat (ly_off L i)) (ly_starts L)" "\<not> bb_finished b"
    "bb_last_key b = (if ?n = 0 then [] else ly_key L (?n - 1))" "int (last (ly_starts L)) + bb_counter b = int ?n"
    "0 \<le> bb_counter b" "bb_counter b \<le> interval" "1 \<le> interval"
    using assms(1) by (simp_all add: built_def)
  have len: "length (ly_shared L) = ?n" using b(1) by (simp add: ly_ok_def)
  note sel = ly_add_sel [OF len, where s = s and r = r and k = k and v = v]
  have sh: "s \<le> length k" "s \<le> length (bb_last_key b)" "take s (bb_last_key b) = take s k"
    using shared_prefix by (simp_all add: s_def)
  have r0: "last (ly_starts L) < ?n" if r using that b(6,8,9) by (simp add: r_def)
  have "ly_ok ?L"
    by (rule ly_ok_add [OF b(1) sh(1)]) (use sh b(5) r0 in \<open>auto simp: s_def\<close>)
  have srt: "(if bb_buffer b = [] then Some True else do { c \<leftarrow> cmp k (bb_last_key b); Some (0 < c) }) = Some True"
  proof (cases "?n = 0")
    case True
    then show ?thesis by (simp add: b(2) ly_bytes_def)
  next
    case False
    then have m: "bb_last_key b \<in> fst ` set (ly_entries L)" using b(5) by (simp add: ly_key_def)
    then have g: "good (bb_last_key b)" "lt (bb_last_key b) k" using assms(2,4) by (auto simp: ly_sorted_def)
    obtain c c' where c: "cmp k (bb_last_key b) = Some c" "cmp (bb_last_key b) k = Some c'" using cmp_total [OF assms(3) g(1)] cmp_total [OF g(1) assms(3)] by blast
    then have "0 < c" using cmp_swap [OF g(1) assms(3) c(2,1)] g(2) by (auto simp: lt_def)
    then show ?thesis by (simp add: c)
  qed
  have last_key: "take s (bb_last_key b) @ drop s k = k" using sh(3) by simp
  let ?b = "b\<lparr>bb_restarts := bb_restarts b @ (if r then [of_nat (length (bb_buffer b))] else []),
      bb_counter := (if r then 0 else bb_counter b) + 1, bb_last_key := k, bb_buffer := bb_buffer b @ entry_bytes s k v\<rparr>"
  have add: "BlockBuilder_Add cmp interval k v b = Some ?b"
  proof (cases r)
    case True
    then show ?thesis unfolding BlockBuilder_Add_def srt
      using b(4,8) by (simp add: r_def s_def entry_bytes_def PutVarint32_def)
  next
    case False
    then show ?thesis unfolding BlockBuilder_Add_def srt
      using b(4,8) last_key by (simp add: r_def s_def entry_bytes_def PutVarint32_def)
  qed
  have "bb_restarts ?b = map (\<lambda>i. of_nat (ly_off ?L i)) (ly_starts ?L)"
  proof -
    have "ly_off ?L i = ly_off L i" if "i \<le> ?n" for i using sel(6) [OF that] by (simp add: ly_off_def)
    moreover have "i \<le> ?n" if "i \<in> set (ly_starts L)" for i using that b(1) by (auto simp: ly_ok_def split: if_splits)
    ultimately show ?thesis using b(2,3) sel(6) [of ?n] by (auto simp: ly_add_def ly_off_def)
  qed
  moreover have "int (last (ly_starts ?L)) + bb_counter ?b = int (ly_size ?L)"
    using b(6) by (simp add: ly_add_def)
  ultimately have "built interval ?b ?L"
    unfolding built_def using \<open>ly_ok ?L\<close> b(2,4,7,8,9) sel(1,3,7) by (simp add: r_def)
  moreover have "ly_entries ?L = ly_entries L @ [(k, v)]" by (simp add: ly_add_def)
  moreover have "ly_sorted ?L" using assms(2,3,4) by (auto simp: ly_sorted_def ly_add_def sorted_wrt_append)
  ultimately show ?thesis using add by blast
qed

text \<open>Adding the entries of a list in turn.\<close>

end

fun add_entries ::
  "(slice \<Rightarrow> slice \<Rightarrow> int option) \<Rightarrow> int \<Rightarrow> (slice \<times> slice) list \<Rightarrow> BlockBuilder \<Rightarrow> BlockBuilder option" where
  "add_entries cmp interval [] b = Some b"
| "add_entries cmp interval ((k, v) # kvs) b = do {
     b \<leftarrow> BlockBuilder_Add cmp interval k v b;
     add_entries cmp interval kvs b
   }"

definition build_block :: "(slice \<Rightarrow> slice \<Rightarrow> int option) \<Rightarrow> int \<Rightarrow> (slice \<times> slice) list \<Rightarrow> slice option" where
  "build_block cmp interval kvs = do {
     b \<leftarrow> BlockBuilder_new interval;
     b \<leftarrow> add_entries cmp interval kvs b;
     Some (fst (BlockBuilder_Finish b))
   }"

definition open_block :: "slice \<Rightarrow> block_iterator option" where
  "open_block contents = do { b \<leftarrow> Block_new contents; Block_NewIterator b }"

lemma finish_data: "built interval b L \<Longrightarrow> fst (BlockBuilder_Finish b) = ly_data L"
proof -
  assume b: "built interval b L"
  have "fold (\<lambda>r buf. PutFixed32 kLittleEndian buf r) ws buf = buf @ concat (map (EncodeFixed32 kLittleEndian) ws)" for ws buf
    by (induction ws arbitrary: buf) (simp_all add: PutFixed32_def)
  then show ?thesis using b
    by (simp add: BlockBuilder_Finish_def Let_def built_def ly_data_def PutFixed32_def comp_def)
qed

lemma open_data:
  assumes "ly_ok L" and "length (ly_data L) < 2 ^ 32"
  shows "\<exists>it. open_block (ly_data L) = Some (Block_Iterator it) \<and> past_end L it"
proof -
  let ?n = "length (ly_starts L)" and ?l = "length (ly_data L)"
  have l: "?l = ly_off L (ly_size L) + 4 * ?n + 4" by (rule length_ly_data)
  have ne: "ly_starts L \<noteq> []" using assms(1) by (simp add: ly_ok_def)
  have "drop (?l - 4) (ly_data L) = EncodeFixed32 kLittleEndian (of_nat ?n)"
    unfolding ly_data_def by (simp add: length_EncodeFixed)
  then have dec: "DecodeFixed32 kLittleEndian (drop (?l - 4) (ly_data L)) = Some (of_nat ?n)"
    using DecodeFixed32_Encode [where v = "of_nat ?n" and rest = "[]"] by simp
  have dec': "DecodeFixed32 kLittleEndian (drop (ly_off L (ly_size L) + 4 * ?n) (ly_data L)) = Some (of_nat ?n)"
    using dec l by simp
  have u: "unat (of_nat ?n :: 32 word) = ?n" "unat (1 + of_nat ?n :: 32 word) = 1 + ?n" "(of_nat ?n :: 32 word) \<noteq> 0"
  proof -
    show "unat (of_nat ?n :: 32 word) = ?n" using assms(2) l by (simp add: unat_of_nat)
    then show "(of_nat ?n :: 32 word) \<noteq> 0" using ne by (metis length_0_conv unat_0)
    show "unat (1 + of_nat ?n :: 32 word) = 1 + ?n" using assms(2) l by (simp add: unat_word_ariths unat_of_nat)
  qed
  have b: "Block_new (ly_data L) = Some \<lparr>blk_data = ly_data L, blk_size = ?l, blk_restart_offset = ly_off L (ly_size L)\<rparr>"
    using l assms(2) by (simp add: Block_new_def NumRestarts_def dec' u Let_def)
  show ?thesis using l ne assms
    by (simp add: open_block_def b Block_NewIterator_def NumRestarts_def dec' u BlockIter_new_def past_end_def views_def)
qed

context key_comparator
begin

lemma add_all:
  assumes "built interval b L" and "ly_sorted L" and "sorted_wrt lt (map fst (ly_entries L @ kvs))" and "\<forall>k \<in> fst ` set kvs. good k"
  shows "\<exists>b' L'. add_entries cmp interval kvs b = Some b' \<and> built interval b' L' \<and> ly_entries L' = ly_entries L @ kvs \<and> ly_sorted L'"
  using assms
proof (induction kvs arbitrary: b L)
  case (Cons kv kvs)
  obtain k v where kv: "kv = (k, v)" by (cases kv)
  have "\<forall>x \<in> fst ` set (ly_entries L). lt x k" using Cons.prems(3) by (auto simp: kv sorted_wrt_append)
  from built_add [OF Cons.prems(1,2) _ this, of v] Cons.prems(4) obtain b1 L1 where
    b1: "BlockBuilder_Add cmp interval k v b = Some b1" "built interval b1 L1" "ly_entries L1 = ly_entries L @ [(k, v)]" "ly_sorted L1"
    by (auto simp: kv)
  from Cons.IH [OF b1(2,4)] Cons.prems(3,4) b1(3) show ?case by (auto simp: kv b1(1))
qed auto

lemma block_of_entries:
  assumes "1 \<le> interval" and "sorted_wrt lt (map fst kvs)" and "\<forall>k \<in> fst ` set kvs. good k"
  shows "\<exists>c. build_block cmp interval kvs = Some c \<and>
    (length c < 2 ^ 32 \<longrightarrow> (\<exists>it. open_block c = Some (Block_Iterator it) \<and> block_stands it kvs (length kvs)))"
proof -
  obtain b0 where b0: "BlockBuilder_new interval = Some b0" "built interval b0 ly_empty" using built_new [OF assms(1)] by blast
  have "ly_sorted ly_empty" by (simp add: ly_sorted_def ly_empty_def)
  from add_all [OF b0(2) this, of kvs] assms(2,3) obtain b L where
    b: "add_entries cmp interval kvs b0 = Some b" "built interval b L" "ly_entries L = kvs" "ly_sorted L"
    by (auto simp: ly_empty_def)
  have c: "build_block cmp interval kvs = Some (ly_data L)" using b0(1) b(1) finish_data [OF b(2)] by (simp add: build_block_def)
  have "\<exists>it. open_block (ly_data L) = Some (Block_Iterator it) \<and> block_stands it kvs (length kvs)" if n: "length (ly_data L) < 2 ^ 32"
  proof -
    have "ly_ok L" using b(2) by (simp add: built_def)
    from open_data [OF this n] obtain it where "open_block (ly_data L) = Some (Block_Iterator it)" "past_end L it" by blast
    then show ?thesis using b(3,4) by (auto simp: block_stands_def stands_in_def)
  qed
  then show ?thesis using c by blast
qed

end

context block_comparator
begin

lemma block_simulates: "simulates_cursor lt good (Block_ops cmp) kvs (\<lambda>it i. block_stands it kvs i)"
  by (rule block.stands_simulates)

end

text \<open>C28: a block returns the entries it was built from. For every comparator that keeps its contract,
  every restart interval and every strictly sorted list of entries, building the block is defined; if its
  size fits 32 bits, opening its bytes gives an iterator that behaves as a position in the list: it is
  valid inside the list and shows the key and value there, moves forward and backward by one entry, goes
  to both ends, and seeks, by binary search over the restart points, to the first entry whose key is not
  less than the target; no operation reads outside the block or fails an assertion.\<close>

theorem block_simulates_list:
  assumes "comparator cmp good" and "1 \<le> interval" and "sorted_wrt (comparator.lt cmp) (map fst kvs)"
    and "\<forall>k \<in> fst ` set kvs. good k"
  shows "\<exists>c. build_block cmp interval kvs = Some c \<and>
    (length c < 2 ^ 32 \<longrightarrow> (\<exists>it sim. open_block c = Some (Block_Iterator it) \<and> sim it (length kvs) \<and>
      simulates_cursor (comparator.lt cmp) good (Block_ops cmp) kvs sim))"
proof -
  note k = key_comparator.intro [OF assms(1)]
  note sim = block_comparator.block_simulates [OF block_comparator.intro [OF k], of kvs]
  from key_comparator.block_of_entries [OF k assms(2-4)] obtain c where
    c: "build_block cmp interval kvs = Some c"
    "length c < 2 ^ 32 \<longrightarrow> (\<exists>it. open_block c = Some (Block_Iterator it) \<and> key_comparator.block_stands cmp good it kvs (length kvs))"
    by (elim exE conjE)
  have "\<exists>it sim. open_block c = Some (Block_Iterator it) \<and> sim it (length kvs) \<and>
      simulates_cursor (comparator.lt cmp) good (Block_ops cmp) kvs sim" if n: "length c < 2 ^ 32"
  proof -
    obtain it where "open_block c = Some (Block_Iterator it)" "key_comparator.block_stands cmp good it kvs (length kvs)"
      using c(2) n by (elim impE exE conjE)
    with sim show ?thesis by (intro exI conjI)
  qed
  then show ?thesis using c(1) by simp
qed

lemma demo_block: "map_option length (build_block Bytewise_Compare 2 [([97], [1]), ([97, 98], []), ([97, 99], [2, 3])]) = Some 28"
  by code_simp

theorem block_simulates_list_witness:
  "\<exists>c it sim. build_block Bytewise_Compare 2 [([97], [1]), ([97, 98], []), ([97, 99], [2, 3])] = Some c \<and>
    open_block c = Some (Block_Iterator it) \<and> sim it 3 \<and>
    simulates_cursor bytewise.lt (\<lambda>_. True) (Block_ops Bytewise_Compare) [([97], [1]), ([97, 98], []), ([97, 99], [2, 3])] sim"
proof -
  let ?kvs = "[([97], [1]), ([97, 98], []), ([97, 99], [2, 3])] :: (slice \<times> slice) list"
  have h: "(1 :: int) \<le> 2" "sorted_wrt bytewise.lt (map fst ?kvs)" "\<forall>k \<in> fst ` set ?kvs. True" and n: "length ?kvs = 3"
    by (simp_all add: bytewise_lt)
  from block_simulates_list [OF bytewise.comparator_axioms h, unfolded n]
  obtain c where c: "build_block Bytewise_Compare 2 ?kvs = Some c"
    "length c < 2 ^ 32 \<longrightarrow> (\<exists>it sim. open_block c = Some (Block_Iterator it) \<and> sim it 3 \<and>
      simulates_cursor bytewise.lt (\<lambda>_. True) (Block_ops Bytewise_Compare) ?kvs sim)"
    by (elim exE conjE)
  have "length c < 2 ^ 32" using demo_block c(1) by simp
  with c(2) obtain it sim where "open_block c = Some (Block_Iterator it)" "sim it (3 :: nat)"
    "simulates_cursor bytewise.lt (\<lambda>_. True) (Block_ops Bytewise_Compare) ?kvs sim"
    by (elim impE exE conjE)
  with c(1) show ?thesis by (intro exI conjI)
qed

end
