(* ===== verification/Ldb_Merger.thy ===== *)
theory Ldb_Merger
  imports Ldb_Block "HOL-Library.Multiset"
begin

text \<open>
  The merging iterator (\<open>table/merger.cc\<close>), which shows the union of several sorted iterators. The
  children are iterators of any class; the pointer to the current child is its index.
\<close>

subsection \<open>Model\<close>

datatype Direction = kForward | kReverse

record 'i MergingIterator =
  mi_children :: "'i IteratorWrapper list"
  mi_current :: "nat option"
  mi_direction :: Direction

text \<open>Applies a step to each child in turn.\<close>

fun each_child :: "(nat \<Rightarrow> 'w \<Rightarrow> 'w option) \<Rightarrow> nat \<Rightarrow> 'w list \<Rightarrow> 'w list option" where
  "each_child f i [] = Some []"
| "each_child f i (w # ws) = do { w \<leftarrow> f i w; ws \<leftarrow> each_child f (i + 1) ws; Some (w # ws) }"

definition MergingIterator_new :: "'i iter_ops \<Rightarrow> 'i list \<Rightarrow> 'i MergingIterator option" where
  "MergingIterator_new ops children = do {
     ws \<leftarrow> each_child (\<lambda>i w. IW_Set ops (Some (children ! i)) w) 0 (replicate (length children) IteratorWrapper_null);
     Some \<lparr>mi_children = ws, mi_current = None, mi_direction = kForward\<rparr>
   }"

text \<open>The loops of \<open>FindSmallest\<close> and \<open>FindLargest\<close>: the best child so far, with its key, is replaced by
  one that compares better.\<close>

fun pick_child ::
  "(slice \<Rightarrow> slice \<Rightarrow> int option) \<Rightarrow> (int \<Rightarrow> bool) \<Rightarrow> (nat \<times> 'i IteratorWrapper) list \<Rightarrow> (nat \<times> slice) option \<Rightarrow>
     (nat \<times> slice) option option" where
  "pick_child cmp better [] best = Some best"
| "pick_child cmp better ((i, child) # children) best =
     (if iw_valid child then do {
        key \<leftarrow> IW_key child;
        (case best of
           None \<Rightarrow> pick_child cmp better children (Some (i, key))
         | Some (j, best_key) \<Rightarrow> do {
             c \<leftarrow> cmp key best_key;
             pick_child cmp better children (if better c then Some (i, key) else best)
           })
      }
      else pick_child cmp better children best)"

definition FindSmallest ::
  "(slice \<Rightarrow> slice \<Rightarrow> int option) \<Rightarrow> 'i MergingIterator \<Rightarrow> 'i MergingIterator option" where
  "FindSmallest cmp m = do {
     smallest \<leftarrow> pick_child cmp (\<lambda>c. c < 0) (enumerate 0 (mi_children m)) None;
     Some (m\<lparr>mi_current := map_option fst smallest\<rparr>)
   }"

definition FindLargest ::
  "(slice \<Rightarrow> slice \<Rightarrow> int option) \<Rightarrow> 'i MergingIterator \<Rightarrow> 'i MergingIterator option" where
  "FindLargest cmp m = do {
     largest \<leftarrow> pick_child cmp (\<lambda>c. 0 < c) (rev (enumerate 0 (mi_children m))) None;
     Some (m\<lparr>mi_current := map_option fst largest\<rparr>)
   }"

definition Merging_Valid :: "'i MergingIterator \<Rightarrow> bool" where
  "Merging_Valid m \<longleftrightarrow> mi_current m \<noteq> None"

definition Merging_SeekToFirst ::
  "(slice \<Rightarrow> slice \<Rightarrow> int option) \<Rightarrow> 'i iter_ops \<Rightarrow> 'i MergingIterator \<Rightarrow> 'i MergingIterator option" where
  "Merging_SeekToFirst cmp ops m = do {
     ws \<leftarrow> each_child (\<lambda>_. IW_SeekToFirst ops) 0 (mi_children m);
     m \<leftarrow> FindSmallest cmp (m\<lparr>mi_children := ws\<rparr>);
     Some (m\<lparr>mi_direction := kForward\<rparr>)
   }"

definition Merging_SeekToLast ::
  "(slice \<Rightarrow> slice \<Rightarrow> int option) \<Rightarrow> 'i iter_ops \<Rightarrow> 'i MergingIterator \<Rightarrow> 'i MergingIterator option" where
  "Merging_SeekToLast cmp ops m = do {
     ws \<leftarrow> each_child (\<lambda>_. IW_SeekToLast ops) 0 (mi_children m);
     m \<leftarrow> FindLargest cmp (m\<lparr>mi_children := ws\<rparr>);
     Some (m\<lparr>mi_direction := kReverse\<rparr>)
   }"

definition Merging_Seek ::
  "(slice \<Rightarrow> slice \<Rightarrow> int option) \<Rightarrow> 'i iter_ops \<Rightarrow> slice \<Rightarrow> 'i MergingIterator \<Rightarrow> 'i MergingIterator option" where
  "Merging_Seek cmp ops target m = do {
     ws \<leftarrow> each_child (\<lambda>_. IW_Seek ops target) 0 (mi_children m);
     m \<leftarrow> FindSmallest cmp (m\<lparr>mi_children := ws\<rparr>);
     Some (m\<lparr>mi_direction := kForward\<rparr>)
   }"

text \<open>The child at \<open>current_\<close>; a null pointer has none.\<close>

definition current_child :: "'i MergingIterator \<Rightarrow> 'i IteratorWrapper option" where
  "current_child m = do { i \<leftarrow> mi_current m; if i < length (mi_children m) then Some (mi_children m ! i) else None }"

definition Merging_key :: "'i MergingIterator \<Rightarrow> slice option" where
  "Merging_key m = current_child m \<bind> IW_key"

definition Merging_value :: "'i iter_ops \<Rightarrow> 'i MergingIterator \<Rightarrow> slice option" where
  "Merging_value ops m = current_child m \<bind> IW_value ops"

definition after_key ::
  "(slice \<Rightarrow> slice \<Rightarrow> int option) \<Rightarrow> 'i iter_ops \<Rightarrow> slice \<Rightarrow> 'i IteratorWrapper \<Rightarrow> 'i IteratorWrapper option" where
  "after_key cmp ops key child = do {
     child \<leftarrow> IW_Seek ops key child;
     if iw_valid child then do {
       k \<leftarrow> IW_key child;
       c \<leftarrow> cmp key k;
       if c = 0 then IW_Next ops child else Some child
     }
     else Some child
   }"

definition before_key :: "'i iter_ops \<Rightarrow> slice \<Rightarrow> 'i IteratorWrapper \<Rightarrow> 'i IteratorWrapper option" where
  "before_key ops key child = do {
     child \<leftarrow> IW_Seek ops key child;
     if iw_valid child then IW_Prev ops child else IW_SeekToLast ops child
   }"

definition move_current ::
  "('i IteratorWrapper \<Rightarrow> 'i IteratorWrapper option) \<Rightarrow> 'i MergingIterator \<Rightarrow> 'i MergingIterator option" where
  "move_current f m = do {
     i \<leftarrow> mi_current m;
     child \<leftarrow> current_child m;
     child \<leftarrow> f child;
     Some (m\<lparr>mi_children := (mi_children m)[i := child]\<rparr>)
   }"

definition Merging_Next ::
  "(slice \<Rightarrow> slice \<Rightarrow> int option) \<Rightarrow> 'i iter_ops \<Rightarrow> 'i MergingIterator \<Rightarrow> 'i MergingIterator option" where
  "Merging_Next cmp ops m =
     (if \<not> Merging_Valid m then None
      else do {
        m \<leftarrow> (if mi_direction m \<noteq> kForward then do {
            key \<leftarrow> Merging_key m;
            ws \<leftarrow> each_child (\<lambda>i child. if Some i \<noteq> mi_current m then after_key cmp ops key child else Some child)
              0 (mi_children m);
            Some (m\<lparr>mi_children := ws, mi_direction := kForward\<rparr>)
          } else Some m);
        m \<leftarrow> move_current (IW_Next ops) m;
        FindSmallest cmp m
      })"

definition Merging_Prev ::
  "(slice \<Rightarrow> slice \<Rightarrow> int option) \<Rightarrow> 'i iter_ops \<Rightarrow> 'i MergingIterator \<Rightarrow> 'i MergingIterator option" where
  "Merging_Prev cmp ops m =
     (if \<not> Merging_Valid m then None
      else do {
        m \<leftarrow> (if mi_direction m \<noteq> kReverse then do {
            key \<leftarrow> Merging_key m;
            ws \<leftarrow> each_child (\<lambda>i child. if Some i \<noteq> mi_current m then before_key ops key child else Some child)
              0 (mi_children m);
            Some (m\<lparr>mi_children := ws, mi_direction := kReverse\<rparr>)
          } else Some m);
        m \<leftarrow> move_current (IW_Prev ops) m;
        FindLargest cmp m
      })"

text \<open>The first status that is not ok; without children, or when all are ok, the last one seen.\<close>

fun first_error :: "'i iter_ops \<Rightarrow> 'i IteratorWrapper list \<Rightarrow> Status \<Rightarrow> Status option" where
  "first_error ops [] status = Some status"
| "first_error ops (child # children) status = do {
     status \<leftarrow> IW_status ops child;
     if \<not> Status_ok status then Some status else first_error ops children status
   }"

definition Merging_status :: "'i iter_ops \<Rightarrow> 'i MergingIterator \<Rightarrow> Status option" where
  "Merging_status ops m = first_error ops (mi_children m) Status_OK"

definition Merging_ops :: "(slice \<Rightarrow> slice \<Rightarrow> int option) \<Rightarrow> 'i iter_ops \<Rightarrow> 'i MergingIterator iter_ops" where
  "Merging_ops cmp ops = \<lparr>it_Valid = Merging_Valid, it_SeekToFirst = Merging_SeekToFirst cmp ops,
     it_SeekToLast = Merging_SeekToLast cmp ops, it_Seek = Merging_Seek cmp ops, it_Next = Merging_Next cmp ops,
     it_Prev = Merging_Prev cmp ops, it_key = Merging_key, it_value = Merging_value ops,
     it_status = Merging_status ops\<rparr>"

datatype 'i merged = No_Iterator Status | One_Iterator 'i | Merging_Iterator "'i MergingIterator"

definition NewMergingIterator :: "'i iter_ops \<Rightarrow> 'i list \<Rightarrow> 'i merged option" where
  "NewMergingIterator ops children =
     (if length children = 0 then Some (No_Iterator NewEmptyIterator)
      else if length children = 1 then Some (One_Iterator (children ! 0))
      else do { m \<leftarrow> MergingIterator_new ops children; Some (Merging_Iterator m) })"

subsection \<open>Positions in the merged list\<close>

context key_comparator
begin

text \<open>\<open>M\<close> is the sorted list of the entries of all lists, whose keys are all different.\<close>

definition merge_of :: "(slice \<times> slice) list list \<Rightarrow> (slice \<times> slice) list \<Rightarrow> bool" where
  "merge_of kss M \<longleftrightarrow> mset M = mset (concat kss) \<and> sorted_wrt lt (map fst M) \<and> (\<forall>k \<in> fst ` set M. good k) \<and>
     (\<forall>ks \<in> set kss. sorted_wrt lt (map fst ks))"

abbreviation place :: "(slice \<times> slice) list \<Rightarrow> slice \<times> slice \<Rightarrow> nat" where
  "place M x \<equiv> seek_pos lt M (fst x)"

definition count :: "(slice \<times> slice) list \<Rightarrow> (slice \<times> slice) list \<Rightarrow> nat \<Rightarrow> nat" where
  "count M ks p = length (takeWhile (\<lambda>x. place M x < p) ks)"

lemma merge_set:
  assumes "merge_of kss M" shows "set M = (\<Union>ks \<in> set kss. set ks)"
proof -
  have "mset M = mset (concat kss)" using assms unfolding merge_of_def by (elim conjE)
  from mset_eq_setD [OF this] show ?thesis by (simp only: set_concat)
qed

lemma merge_sorted: "merge_of kss M \<Longrightarrow> sorted_wrt lt (map fst M)"
  unfolding merge_of_def by (elim conjE)

lemma merge_keys: "merge_of kss M \<Longrightarrow> k \<in> fst ` set M \<Longrightarrow> good k"
  unfolding merge_of_def by (elim conjE) (rule bspec)

lemma merge_good: "merge_of kss M \<Longrightarrow> x \<in> set M \<Longrightarrow> good (fst x)"
  using merge_keys by blast

lemma merge_less: "merge_of kss M \<Longrightarrow> i < j \<Longrightarrow> j < length M \<Longrightarrow> lt (fst (M ! i)) (fst (M ! j))"
  using merge_sorted [of kss M] by (simp add: sorted_wrt_iff_nth_less)

lemma merge_less_iff:
  assumes "merge_of kss M" and "i < length M" and "j < length M"
  shows "lt (fst (M ! i)) (fst (M ! j)) \<longleftrightarrow> i < j"
proof
  assume l: "lt (fst (M ! i)) (fst (M ! j))"
  have g: "good (fst (M ! i))" "good (fst (M ! j))" using merge_good [OF assms(1) nth_mem] assms(2,3) by blast+
  show "i < j"
  proof (rule ccontr)
    assume "\<not> i < j"
    then have "j = i \<or> lt (fst (M ! j)) (fst (M ! i))" using merge_less [OF assms(1) _ assms(2), of j] by (cases "j = i") auto
    then show False using l lt_irrefl [OF g(1)] lt_trans [OF g(1,2,1)] by auto
  qed
qed (use merge_less [OF assms(1)] assms(3) in blast)

lemma place_nth:
  assumes "merge_of kss M" and "q < length M" shows "place M (M ! q) = q"
proof -
  have "i < place M (M ! q) \<longleftrightarrow> i < q" if "i < length M" for i
    using seek_pos_iff [OF merge_sorted [OF assms(1)] merge_keys [OF assms(1)] _ that, of "fst (M ! q)"]
      merge_less_iff [OF assms(1) that assms(2)] merge_good [OF assms(1), of "M ! q"] assms(2) by simp
  from this [of "place M (M ! q)"] this [of q] show ?thesis using assms(2) seek_pos_le [of lt M "fst (M ! q)"] by linarith
qed

lemma place_in:
  assumes "merge_of kss M" and "x \<in> set M" shows "place M x < length M" and "M ! place M x = x"
proof -
  obtain q where "q < length M" "M ! q = x" using assms(2) by (auto simp: in_set_conv_nth)
  then show "place M x < length M" and "M ! place M x = x" using place_nth [OF assms(1)] by auto
qed

lemma child_entry:
  assumes "merge_of kss M" and "c < length kss" and "i < length (kss ! c)" shows "kss ! c ! i \<in> set M"
proof -
  have "kss ! c \<in> set kss" "kss ! c ! i \<in> set (kss ! c)" using assms(2,3) by simp_all
  then show ?thesis unfolding merge_set [OF assms(1)] by blast
qed

lemma place_mono:
  assumes "merge_of kss M" and "c < length kss" and "i < j" and "j < length (kss ! c)"
  shows "place M (kss ! c ! i) < place M (kss ! c ! j)"
proof -
  have x: "kss ! c ! i \<in> set M" "kss ! c ! j \<in> set M" using child_entry assms by simp_all
  have "lt (fst (kss ! c ! i)) (fst (kss ! c ! j))"
    using assms by (auto simp: merge_of_def sorted_wrt_iff_nth_less dest!: bspec [of _ _ "kss ! c"])
  then show ?thesis using merge_less_iff [OF assms(1) place_in(1) [OF assms(1) x(1)] place_in(1) [OF assms(1) x(2)]]
      place_in(2) [OF assms(1)] x by simp
qed

text \<open>Entries of different lists, and different entries of one list, have different places.\<close>

lemma place_distinct:
  assumes "merge_of kss M" and "c < length kss" and "i < length (kss ! c)" and "d < length kss" and "j < length (kss ! d)"
    and "place M (kss ! c ! i) = place M (kss ! d ! j)"
  shows "c = d \<and> i = j"
proof -
  have "distinct M"
    unfolding distinct_conv_nth using place_nth [OF assms(1)] by metis
  moreover have "mset M = mset (concat kss)" using assms(1) unfolding merge_of_def by (elim conjE)
  ultimately have d: "distinct (concat kss)" using mset_eq_imp_distinct_iff by blast
  have eq: "kss ! c ! i = kss ! d ! j"
    using place_in(2) [OF assms(1)] child_entry [OF assms(1)] assms(2-6) by metis
  show ?thesis
  proof (cases "c = d")
    case True
    moreover have "distinct (kss ! c)" using d assms(2) by (simp add: distinct_concat_iff)
    ultimately show ?thesis using eq assms(3,5) nth_eq_iff_index_eq by metis
  next
    case False
    have disj: "set (kss ! a) \<inter> set (kss ! b) = {}" if "a < b" "b < length kss" for a b
    proof -
      have "kss ! a \<in> set (take b kss)" using that by (metis in_set_conv_nth length_take min_less_iff_conj nth_take order_less_trans)
      moreover have "kss ! b \<in> set (drop b kss)" using that(2) by (metis Cons_nth_drop_Suc list.set_intros(1))
      moreover have "distinct (concat (take b kss) @ concat (drop b kss))" using d by (simp flip: concat_append)
      ultimately show ?thesis by auto
    qed
    have "set (kss ! c) \<inter> set (kss ! d) = {}"
      using disj [of c d] disj [of d c] False assms(2,4) by (cases "c < d") auto
    then show ?thesis using nth_mem [OF assms(3)] nth_mem [OF assms(5)] unfolding eq by blast
  qed
qed

lemma count_le: "count M ks p \<le> length ks"
  by (simp add: count_def length_takeWhile_le)

lemma count_iff:
  assumes "merge_of kss M" and "c < length kss" and "i < length (kss ! c)"
  shows "i < count M (kss ! c) p \<longleftrightarrow> place M (kss ! c ! i) < p"
proof
  assume "i < count M (kss ! c) p"
  then show "place M (kss ! c ! i) < p"
    unfolding count_def by (metis (mono_tags, lifting) nth_mem set_takeWhileD takeWhile_nth)
next
  assume p: "place M (kss ! c ! i) < p"
  show "i < count M (kss ! c) p"
  proof (rule ccontr)
    let ?j = "count M (kss ! c) p"
    assume "\<not> i < ?j"
    then have "?j \<le> i" "?j < length (kss ! c)" using assms(3) by simp_all
    then have "\<not> place M (kss ! c ! ?j) < p" unfolding count_def using nth_length_takeWhile by blast
    moreover have "place M (kss ! c ! ?j) \<le> place M (kss ! c ! i)"
      using place_mono [OF assms(1,2), of ?j i] \<open>?j \<le> i\<close> assms(3) by (cases "?j = i") auto
    ultimately show False using p by simp
  qed
qed

lemma count_unique:
  assumes "merge_of kss M" and "c < length kss" and "n \<le> length (kss ! c)"
    and "\<And>i. i < length (kss ! c) \<Longrightarrow> i < n \<longleftrightarrow> place M (kss ! c ! i) < p"
  shows "count M (kss ! c) p = n"
proof (rule ccontr)
  assume "count M (kss ! c) p \<noteq> n"
  then consider "count M (kss ! c) p < n" | "n < count M (kss ! c) p" by linarith
  then show False
  proof cases
    case 1
    then show False using count_iff [OF assms(1,2), of "count M (kss ! c) p" p] assms(3) assms(4) [of "count M (kss ! c) p"] by simp
  next
    case 2
    then show False using count_iff [OF assms(1,2), of n p] count_le [of M "kss ! c" p] assms(4) [of n] by simp
  qed
qed

text \<open>The owner of the entry at \<open>p\<close> and how the counts go on from \<open>p\<close> to the next place.\<close>

lemma owner:
  assumes "merge_of kss M" and "p < length M"
  obtains c where "c < length kss" and "count M (kss ! c) p < length (kss ! c)" and "kss ! c ! count M (kss ! c) p = M ! p"
    and "count M (kss ! c) (Suc p) = Suc (count M (kss ! c) p)"
    and "\<And>d. d < length kss \<Longrightarrow> d \<noteq> c \<Longrightarrow> count M (kss ! d) (Suc p) = count M (kss ! d) p"
    and "\<And>d i. d < length kss \<Longrightarrow> d \<noteq> c \<Longrightarrow> i < length (kss ! d) \<Longrightarrow> place M (kss ! d ! i) \<noteq> p"
proof -
  have "M ! p \<in> set M" using assms(2) by simp
  then obtain c j where c: "c < length kss" "j < length (kss ! c)" "kss ! c ! j = M ! p"
    unfolding merge_set [OF assms(1)] by (auto simp: in_set_conv_nth)
  have pj: "place M (kss ! c ! j) = p" using c(3) place_nth [OF assms] by simp
  have mono: "i < j \<longleftrightarrow> place M (kss ! c ! i) < p" if "i < length (kss ! c)" for i
    using place_mono [OF assms(1) c(1), of i j] place_mono [OF assms(1) c(1), of j i] pj c(2) that
    by (metis linorder_neqE_nat less_asym less_irrefl)
  have cp: "count M (kss ! c) p = j" using c(2) mono by (intro count_unique [OF assms(1) c(1)]) auto
  have sp: "count M (kss ! c) (Suc p) = Suc j"
  proof (rule count_unique [OF assms(1) c(1)])
    show "i < Suc j \<longleftrightarrow> place M (kss ! c ! i) < Suc p" if "i < length (kss ! c)" for i
      using mono [OF that] pj place_distinct [OF assms(1) c(1) that c(1,2)] by (metis less_Suc_eq)
  qed (use c(2) in simp)
  have other: "place M (kss ! d ! i) \<noteq> p" if "d < length kss" "d \<noteq> c" "i < length (kss ! d)" for d i
    using place_distinct [OF assms(1) that(1,3) c(1,2)] pj that(2) by auto
  have "count M (kss ! d) (Suc p) = count M (kss ! d) p" if d: "d < length kss" "d \<noteq> c" for d
    using count_iff [OF assms(1) d(1)] other [OF d] count_le
    by (intro count_unique [OF assms(1) d(1)]) (auto simp: less_Suc_eq)
  with c cp sp other show thesis by (intro that [of c]) auto
qed

end

subsection \<open>The children move together\<close>

lemma each_child_all:
  assumes "\<And>c. c < length ws \<Longrightarrow> \<exists>w'. f (i + c) (ws ! c) = Some w' \<and> P c w'"
  shows "\<exists>ws'. each_child f i ws = Some ws' \<and> length ws' = length ws \<and> (\<forall>c < length ws. P c (ws' ! c))"
  using assms
proof (induction ws arbitrary: i P)
  case (Cons w ws)
  obtain w' where w': "f i w = Some w'" "P 0 w'" using Cons.prems [of 0] by auto
  have "\<exists>w'. f (i + 1 + c) (ws ! c) = Some w' \<and> P (Suc c) w'" if "c < length ws" for c
    using Cons.prems [of "Suc c"] that by simp
  from Cons.IH [of "i + 1" "\<lambda>c. P (Suc c)", OF this] obtain ws' where
    "each_child f (i + 1) ws = Some ws'" "length ws' = length ws" "\<forall>c < length ws. P (Suc c) (ws' ! c)" by blast
  then show ?case using w' by (auto simp: nth_Cons split: nat.splits)
qed simp

lemma pick_child_valid: "pick_child cmp better cs best = pick_child cmp better (filter (\<lambda>(_, w). iw_valid w) cs) best"
  by (induction cmp better cs best rule: pick_child.induct) (auto split: option.splits bind_splits)

lemma pick_child_best:
  fixes q :: "nat \<Rightarrow> nat"
  assumes "\<And>a b. a \<in> N \<Longrightarrow> b \<in> N \<Longrightarrow> \<exists>c. cmp (key a) (key b) = Some c \<and> better c = before a b"
    and "before = (<) \<or> before = (>)"
    and "\<And>c w. (c, w) \<in> set cs \<Longrightarrow> iw_valid w \<and> IW_key w = Some (key (q c)) \<and> q c \<in> N" and "q j \<in> N"
  shows "\<exists>i. pick_child cmp better cs (Some (j, key (q j))) = Some (Some (i, key (q i))) \<and> i \<in> insert j (fst ` set cs) \<and>
    (\<forall>c \<in> insert j (fst ` set cs). \<not> before (q c) (q i))"
  using assms(3,4)
proof (induction cs arbitrary: j)
  case Nil
  then show ?case using assms(2) by auto
next
  case (Cons cw cs)
  obtain c w where cw: "cw = (c, w)" by (cases cw)
  have k: "iw_valid w" "IW_key w = Some (key (q c))" "q c \<in> N" using Cons.prems(1) [of c w] cw by simp_all
  define b where "b = (if before (q c) (q j) then c else j)"
  obtain x where x: "cmp (key (q c)) (key (q j)) = Some x" "better x = before (q c) (q j)" using assms(1) [OF k(3) Cons.prems(2)] by blast
  have step: "pick_child cmp better (cw # cs) (Some (j, key (q j))) = pick_child cmp better cs (Some (b, key (q b)))"
    using x by (simp add: cw k(1,2) b_def)
  have "q b \<in> N" using k(3) Cons.prems(2) by (simp add: b_def)
  then obtain i where i: "pick_child cmp better cs (Some (b, key (q b))) = Some (Some (i, key (q i)))" "i \<in> insert b (fst ` set cs)"
    "\<forall>c \<in> insert b (fst ` set cs). \<not> before (q c) (q i)"
    using Cons.IH [of b] Cons.prems(1) by auto
  have "\<not> before (q c) (q b)" "\<not> before (q j) (q b)" "\<not> before (q b) (q i)" using assms(2) i(3) by (auto simp: b_def)
  then have "\<not> before (q c) (q i)" "\<not> before (q j) (q i)" using assms(2) by auto
  then show ?case using step i by (intro exI [of _ i]) (auto simp: cw b_def split: if_splits)
qed

context cursor
begin

definition children_at :: "'i IteratorWrapper list \<Rightarrow> (slice \<times> slice) list list \<Rightarrow> (nat \<Rightarrow> nat) \<Rightarrow> bool" where
  "children_at ws kss f \<longleftrightarrow> length ws = length kss \<and> (\<forall>c < length kss. holds_at (ws ! c) (kss ! c) (f c))"

text \<open>One place before the count, or nowhere.\<close>

definition behind :: "(slice \<times> slice) list \<Rightarrow> (slice \<times> slice) list \<Rightarrow> nat \<Rightarrow> nat" where
  "behind M ks p = (if count M ks p = 0 then length ks else count M ks p - 1)"

definition owns :: "(slice \<times> slice) list list \<Rightarrow> (slice \<times> slice) list \<Rightarrow> nat \<Rightarrow> nat \<Rightarrow> bool" where
  "owns kss M c p \<longleftrightarrow> c < length kss \<and> count M (kss ! c) p < length (kss ! c) \<and> kss ! c ! count M (kss ! c) p = M ! p \<and>
     count M (kss ! c) (Suc p) = Suc (count M (kss ! c) p) \<and>
     (\<forall>d < length kss. d \<noteq> c \<longrightarrow> count M (kss ! d) (Suc p) = count M (kss ! d) p \<and> (\<forall>i < length (kss ! d). place M (kss ! d ! i) \<noteq> p))"

lemma owner_exists:
  assumes "merge_of kss M" and "p < length M" shows "\<exists>c. owns kss M c p"
  by (rule owner [OF assms]) (auto simp: owns_def)

lemma compare_places:
  assumes "merge_of kss M" and "a < length M" and "b < length M"
  shows "\<exists>c. cmp (fst (M ! a)) (fst (M ! b)) = Some c \<and> (c < 0) = (a < b) \<and> (0 < c) = (b < a)"
proof -
  have g: "good (fst (M ! a))" "good (fst (M ! b))" using merge_good [OF assms(1) nth_mem] assms(2,3) by blast+
  obtain c c' where c: "cmp (fst (M ! a)) (fst (M ! b)) = Some c" "cmp (fst (M ! b)) (fst (M ! a)) = Some c'"
    using cmp_total [OF g] cmp_total [OF g(2,1)] by blast
  have "(c < 0) = (a < b)" "(c' < 0) = (b < a)"
    using merge_less_iff [OF assms] merge_less_iff [OF assms(1,3,2)] c by (auto simp: lt_def)
  then show ?thesis using c(1) cmp_swap [OF g(2,1) c(2,1)] by blast
qed

lemma pick_children:
  assumes "merge_of kss M" and "children_at ws kss f" and "o' < length kss" and "f o' < length (kss ! o')"
    and "before = (<) \<or> before = (>)" and "better = (if before = (<) then (\<lambda>c :: int. c < 0) else (\<lambda>c. 0 < c))"
    and "\<And>d. d < length kss \<Longrightarrow> d \<noteq> o' \<Longrightarrow> f d < length (kss ! d) \<Longrightarrow> before (place M (kss ! o' ! f o')) (place M (kss ! d ! f d))"
    and "set cs = set (enumerate 0 ws)"
  shows "\<exists>k. pick_child cmp better cs None = Some (Some (o', k))"
proof -
  let ?q = "\<lambda>c. place M (kss ! c ! f c)"
  have lt_gt: "(<) \<noteq> ((>) :: nat \<Rightarrow> nat \<Rightarrow> bool)" by (metis zero_less_one less_nat_zero_code)
  have cs: "(c, w) \<in> set cs \<longleftrightarrow> c < length kss \<and> w = ws ! c" for c w
    using assms(2,8) by (auto simp: children_at_def in_set_enumerate_eq)
  have valid: "iw_valid (ws ! c) \<longleftrightarrow> f c < length (kss ! c)" if "c < length kss" for c
    using assms(2) that wrapper_reads(1) by (auto simp: children_at_def)
  let ?cs = "filter (\<lambda>(_, w). iw_valid w) cs"
  have info: "iw_valid w \<and> IW_key w = Some (fst (M ! ?q c)) \<and> ?q c \<in> {..< length M}" if "(c, w) \<in> set ?cs" for c w
  proof -
    have c: "c < length kss" "w = ws ! c" "iw_valid w" "f c < length (kss ! c)" using that cs valid by auto
    have "IW_key w = Some (fst (kss ! c ! f c))" using assms(2) c wrapper_reads(3) by (auto simp: children_at_def)
    moreover note place_in [OF assms(1) child_entry [OF assms(1) c(1,4)]]
    ultimately show ?thesis using c(3) by simp
  qed
  have in_cs: "(o', ws ! o') \<in> set ?cs" using cs [of o'] valid [of o'] assms(3,4) by auto
  then obtain j w cs' where cs': "?cs = (j, w) # cs'" by (cases ?cs) auto
  have cmp_ok: "\<exists>c. cmp (fst (M ! a)) (fst (M ! b)) = Some c \<and> better c = before a b" if "a \<in> {..< length M}" "b \<in> {..< length M}" for a b
    using compare_places [OF assms(1), of a b] that assms(5,6) lt_gt by auto
  have j: "iw_valid w" "IW_key w = Some (fst (M ! ?q j))" "?q j \<in> {..< length M}" using info [of j w] cs' by auto
  have rest: "iw_valid w \<and> IW_key w = Some (fst (M ! ?q c)) \<and> ?q c \<in> {..< length M}" if "(c, w) \<in> set cs'" for c w
    using info [of c w] that cs' by simp
  obtain i where i: "pick_child cmp better cs' (Some (j, fst (M ! ?q j))) = Some (Some (i, fst (M ! ?q i)))"
    "i \<in> insert j (fst ` set cs')" "\<forall>c \<in> insert j (fst ` set cs'). \<not> before (?q c) (?q i)"
    using pick_child_best [where key = "\<lambda>a. fst (M ! a)" and N = "{..< length M}" and q = ?q, OF cmp_ok assms(5) rest j(3)] by blast
  have "insert j (fst ` set cs') = fst ` set ?cs" unfolding cs' by simp
  then have mem: "i \<in> fst ` set ?cs" "\<not> before (?q o') (?q i)" using i(2,3) in_cs by force+
  have "i = o'"
  proof (rule ccontr)
    assume "i \<noteq> o'"
    moreover have "i < length kss" "f i < length (kss ! i)" using mem(1) cs valid by auto
    ultimately show False using assms(7) mem(2) by blast
  qed
  moreover have "pick_child cmp better cs None = pick_child cmp better cs' (Some (j, fst (M ! ?q j)))"
    unfolding pick_child_valid [of cmp better cs None] cs' by (simp add: j)
  ultimately show ?thesis using i(1) by simp
qed

lemma pick_none:
  assumes "children_at ws kss f" and "\<And>d. d < length kss \<Longrightarrow> f d = length (kss ! d)" and "set cs = set (enumerate 0 ws)"
  shows "pick_child cmp better cs None = Some None"
proof -
  have "\<not> iw_valid w" if "(c, w) \<in> set cs" for c w
    using that assms wrapper_reads(1) by (fastforce simp: children_at_def in_set_enumerate_eq)
  then have "filter (\<lambda>(_, w). iw_valid w) cs = []" by (auto simp: filter_empty_conv)
  then show ?thesis by (subst pick_child_valid) simp
qed

lemma find_smallest:
  assumes "merge_of kss M" and "children_at (mi_children m) kss (\<lambda>c. count M (kss ! c) p)" and "p \<le> length M"
  shows "\<exists>cur. FindSmallest cmp m = Some (m\<lparr>mi_current := cur\<rparr>) \<and>
    (if p < length M then \<exists>c. cur = Some c \<and> owns kss M c p else cur = None)"
proof (cases "p < length M")
  case True
  obtain o' where o': "owns kss M o' p" using owner_exists [OF assms(1) True] by blast
  have po: "place M (kss ! o' ! count M (kss ! o') p) = p"
    using o' place_nth [OF assms(1) True] by (simp add: owns_def)
  have "\<exists>k. pick_child cmp (\<lambda>c. c < 0) (enumerate 0 (mi_children m)) None = Some (Some (o', k))"
  proof (rule pick_children [OF assms(1,2), where before = "(<)"])
    fix d assume d: "d < length kss" "d \<noteq> o'" "count M (kss ! d) p < length (kss ! d)"
    have "\<not> place M (kss ! d ! count M (kss ! d) p) < p" using count_iff [OF assms(1) d(1,3), of p] by simp
    moreover have "place M (kss ! d ! count M (kss ! d) p) \<noteq> p" using o' d by (simp add: owns_def)
    ultimately show "place M (kss ! o' ! count M (kss ! o') p) < place M (kss ! d ! count M (kss ! d) p)" using po by simp
  qed (use o' in \<open>simp_all add: owns_def\<close>)
  then show ?thesis using True o' by (auto simp: FindSmallest_def)
next
  case False
  have "count M (kss ! d) p = length (kss ! d)" if "d < length kss" for d
  proof (rule count_unique [OF assms(1) that order_refl])
    show "i < length (kss ! d) \<longleftrightarrow> place M (kss ! d ! i) < p" if i: "i < length (kss ! d)" for i
      using place_in(1) [OF assms(1) child_entry [OF assms(1) \<open>d < length kss\<close> i]] False i by simp
  qed
  from pick_none [OF assms(2) this refl] show ?thesis using False by (simp add: FindSmallest_def)
qed

lemma find_largest:
  assumes "merge_of kss M" and "children_at (mi_children m) kss (\<lambda>c. behind M (kss ! c) p)" and "p \<le> length M"
  shows "\<exists>cur. FindLargest cmp m = Some (m\<lparr>mi_current := cur\<rparr>) \<and>
    (if p = 0 then cur = None else \<exists>c. cur = Some c \<and> owns kss M c (p - 1))"
proof (cases p)
  case 0
  have "count M (kss ! d) 0 = 0" if "d < length kss" for d by (rule count_unique [OF assms(1) that]) auto
  then have "behind M (kss ! d) p = length (kss ! d)" if "d < length kss" for d using that by (simp add: behind_def 0)
  from pick_none [OF assms(2) this] show ?thesis by (simp add: FindLargest_def 0)
next
  case (Suc r)
  then have r: "r < length M" using assms(3) by simp
  obtain o' where o': "owns kss M o' r" using owner_exists [OF assms(1) r] by blast
  have b: "behind M (kss ! o') p = count M (kss ! o') r" using o' by (simp add: behind_def Suc owns_def)
  have po: "place M (kss ! o' ! behind M (kss ! o') p) = r"
    using o' place_nth [OF assms(1) r] by (simp add: owns_def b)
  have "\<exists>k. pick_child cmp (\<lambda>c. 0 < c) (rev (enumerate 0 (mi_children m))) None = Some (Some (o', k))"
  proof (rule pick_children [OF assms(1,2), where before = "(>)"])
    fix d assume d: "d < length kss" "d \<noteq> o'" "behind M (kss ! d) p < length (kss ! d)"
    then have "behind M (kss ! d) p < count M (kss ! d) p" by (auto simp: behind_def split: if_splits)
    then have "place M (kss ! d ! behind M (kss ! d) p) < p" using count_iff [OF assms(1) d(1,3)] by simp
    moreover have "place M (kss ! d ! behind M (kss ! d) p) \<noteq> r" using o' d by (simp add: owns_def)
    ultimately show "place M (kss ! d ! behind M (kss ! d) p) < place M (kss ! o' ! behind M (kss ! o') p)" using po Suc by simp
  next
    have "(<) \<noteq> ((>) :: nat \<Rightarrow> nat \<Rightarrow> bool)" by (metis zero_less_one less_nat_zero_code)
    then show "(\<lambda>c :: int. 0 < c) = (if (>) = ((<) :: nat \<Rightarrow> nat \<Rightarrow> bool) then \<lambda>c. c < 0 else (<) 0)" by simp
  qed (use o' b in \<open>simp_all add: owns_def\<close>)
  then show ?thesis using Suc o' by (auto simp: FindLargest_def)
qed

end

subsection \<open>The merging iterator is a cursor in the merged list\<close>

context cursor
begin

definition forward_at :: "'i MergingIterator \<Rightarrow> (slice \<times> slice) list list \<Rightarrow> (slice \<times> slice) list \<Rightarrow> nat \<Rightarrow> bool" where
  "forward_at m kss M p \<longleftrightarrow> children_at (mi_children m) kss (\<lambda>c. count M (kss ! c) p) \<and> mi_direction m = kForward \<and>
     (\<exists>c. mi_current m = Some c \<and> owns kss M c p)"

definition backward_at :: "'i MergingIterator \<Rightarrow> (slice \<times> slice) list list \<Rightarrow> (slice \<times> slice) list \<Rightarrow> nat \<Rightarrow> bool" where
  "backward_at m kss M p \<longleftrightarrow> mi_direction m = kReverse \<and> (\<exists>c. mi_current m = Some c \<and> owns kss M c p \<and>
     children_at (mi_children m) kss (\<lambda>d. if d = c then count M (kss ! d) p else behind M (kss ! d) p))"

definition merging_stands :: "'i MergingIterator \<Rightarrow> (slice \<times> slice) list \<Rightarrow> nat \<Rightarrow> bool" where
  "merging_stands m M p \<longleftrightarrow> p \<le> length M \<and> (\<exists>kss. merge_of kss M \<and>
     (if p < length M then forward_at m kss M p \<or> backward_at m kss M p
      else mi_current m = None \<and> (\<exists>f. children_at (mi_children m) kss f)))"

lemma children_step:
  assumes "children_at ws kss f"
    and "\<And>c w. c < length kss \<Longrightarrow> holds_at w (kss ! c) (f c) \<Longrightarrow> \<exists>w'. step c w = Some w' \<and> holds_at w' (kss ! c) (g c)"
  shows "\<exists>ws'. each_child step 0 ws = Some ws' \<and> children_at ws' kss g"
proof -
  have n: "length ws = length kss" using assms(1) by (simp add: children_at_def)
  have "\<exists>w'. step (0 + c) (ws ! c) = Some w' \<and> holds_at w' (kss ! c) (g c)" if "c < length ws" for c
    using assms that by (simp add: children_at_def)
  from each_child_all [of ws step 0 "\<lambda>c w. holds_at w (kss ! c) (g c)", OF this] show ?thesis
    using n by (auto simp: children_at_def)
qed

lemma stands_smallest:
  assumes "merge_of kss M" and "children_at (mi_children m) kss (\<lambda>c. count M (kss ! c) p)" and "p \<le> length M"
  shows "\<exists>m'. FindSmallest cmp m = Some m' \<and> merging_stands (m'\<lparr>mi_direction := kForward\<rparr>) M p \<and> mi_direction m' = mi_direction m"
proof -
  obtain cur where cur: "FindSmallest cmp m = Some (m\<lparr>mi_current := cur\<rparr>)"
    "if p < length M then \<exists>c. cur = Some c \<and> owns kss M c p else cur = None" using find_smallest [OF assms] by blast
  have "merging_stands (m\<lparr>mi_current := cur, mi_direction := kForward\<rparr>) M p"
    unfolding merging_stands_def forward_at_def using assms cur(2) by (intro conjI exI [of _ kss]) (auto split: if_splits)
  then show ?thesis using cur(1) by simp
qed

lemma stands_largest:
  assumes "merge_of kss M" and "children_at (mi_children m) kss (\<lambda>c. behind M (kss ! c) p)" and "p \<le> length M"
  shows "\<exists>m'. FindLargest cmp m = Some m' \<and>
    merging_stands (m'\<lparr>mi_direction := kReverse\<rparr>) M (if p = 0 then length M else p - 1) \<and> mi_direction m' = mi_direction m"
proof -
  obtain cur where cur: "FindLargest cmp m = Some (m\<lparr>mi_current := cur\<rparr>)"
    "if p = 0 then cur = None else \<exists>c. cur = Some c \<and> owns kss M c (p - 1)" using find_largest [OF assms] by blast
  have "merging_stands (m\<lparr>mi_current := cur, mi_direction := kReverse\<rparr>) M (if p = 0 then length M else p - 1)"
  proof (cases p)
    case 0
    then show ?thesis unfolding merging_stands_def using assms cur(2) by auto
  next
    case (Suc r)
    then obtain c where c: "cur = Some c" "owns kss M c r" using cur(2) by auto
    have "behind M (kss ! d) p = (if d = c then count M (kss ! d) r else behind M (kss ! d) r)" if "d < length kss" for d
      using c(2) that by (auto simp: owns_def behind_def Suc)
    then have "children_at (mi_children m) kss (\<lambda>d. if d = c then count M (kss ! d) r else behind M (kss ! d) r)"
      using assms(2) by (simp add: children_at_def)
    then show ?thesis using assms(1,3) c Suc by (auto simp: merging_stands_def backward_at_def)
  qed
  then show ?thesis using cur(1) by simp
qed

lemma merging_children:
  assumes "merging_stands m M p" obtains kss f where "merge_of kss M" and "children_at (mi_children m) kss f"
  using assms by (auto simp: merging_stands_def forward_at_def backward_at_def split: if_splits)

lemma merging_first:
  assumes "merging_stands m M p"
  shows "\<exists>m'. Merging_SeekToFirst cmp ops m = Some m' \<and> merging_stands m' M 0"
proof -
  obtain kss f where k: "merge_of kss M" "children_at (mi_children m) kss f" using merging_children [OF assms] .
  have z: "count M (kss ! c) 0 = 0" if "c < length kss" for c by (rule count_unique [OF k(1) that]) auto
  have "\<exists>ws'. each_child (\<lambda>_. IW_SeekToFirst ops) 0 (mi_children m) = Some ws' \<and> children_at ws' kss (\<lambda>c. count M (kss ! c) 0)"
    by (rule children_step [OF k(2)]) (simp add: z wrapper_moves(1))
  then obtain ws where ws: "each_child (\<lambda>_. IW_SeekToFirst ops) 0 (mi_children m) = Some ws" "children_at ws kss (\<lambda>c. count M (kss ! c) 0)"
    by blast
  from stands_smallest [OF k(1), of "m\<lparr>mi_children := ws\<rparr>" 0] ws(2) obtain m' where
    "FindSmallest cmp (m\<lparr>mi_children := ws\<rparr>) = Some m'" "merging_stands (m'\<lparr>mi_direction := kForward\<rparr>) M 0" by auto
  then show ?thesis by (simp add: Merging_SeekToFirst_def ws(1))
qed

lemma count_all:
  assumes "merge_of kss M" and "c < length kss" shows "count M (kss ! c) (length M) = length (kss ! c)"
  by (rule count_unique [OF assms order_refl]) (use place_in(1) [OF assms(1) child_entry [OF assms]] in simp)

lemma merging_last:
  assumes "merging_stands m M p"
  shows "\<exists>m'. Merging_SeekToLast cmp ops m = Some m' \<and> merging_stands m' M (length M - 1)"
proof -
  obtain kss f where k: "merge_of kss M" "children_at (mi_children m) kss f" using merging_children [OF assms] .
  have z: "behind M (kss ! c) (length M) = length (kss ! c) - 1" if "c < length kss" for c
    using count_all [OF k(1) that] by (simp add: behind_def)
  have "\<exists>ws'. each_child (\<lambda>_. IW_SeekToLast ops) 0 (mi_children m) = Some ws' \<and> children_at ws' kss (\<lambda>c. behind M (kss ! c) (length M))"
    by (rule children_step [OF k(2)]) (simp add: z wrapper_moves(2) [simplified])
  then obtain ws where ws: "each_child (\<lambda>_. IW_SeekToLast ops) 0 (mi_children m) = Some ws"
    "children_at ws kss (\<lambda>c. behind M (kss ! c) (length M))" by blast
  from stands_largest [OF k(1), of "m\<lparr>mi_children := ws\<rparr>" "length M"] ws(2) obtain m' where
    "FindLargest cmp (m\<lparr>mi_children := ws\<rparr>) = Some m'"
    "merging_stands (m'\<lparr>mi_direction := kReverse\<rparr>) M (if length M = 0 then length M else length M - 1)" by auto
  then show ?thesis by (cases "length M = 0") (auto simp: Merging_SeekToLast_def ws(1))
qed

lemma seek_count:
  assumes "merge_of kss M" and "c < length kss" and "good target"
  shows "count M (kss ! c) (seek_pos lt M target) = seek_pos lt (kss ! c) target"
proof (rule count_unique [OF assms(1,2) seek_pos_le])
  fix i assume i: "i < length (kss ! c)"
  note e = child_entry [OF assms(1,2) i]
  have s: "sorted_wrt lt (map fst (kss ! c))" "\<And>k. k \<in> fst ` set (kss ! c) \<Longrightarrow> good k"
  proof -
    have m: "kss ! c \<in> set kss" using assms(2) by simp
    then show "sorted_wrt lt (map fst (kss ! c))" using assms(1) unfolding merge_of_def by blast
    have "set (kss ! c) \<subseteq> set M" unfolding merge_set [OF assms(1)] using m by blast
    then show "good k" if "k \<in> fst ` set (kss ! c)" for k using that merge_keys [OF assms(1)] by blast
  qed
  have "i < seek_pos lt (kss ! c) target \<longleftrightarrow> lt (fst (kss ! c ! i)) target" using seek_pos_iff [OF s assms(3) i] by simp
  also have "\<dots> \<longleftrightarrow> place M (kss ! c ! i) < seek_pos lt M target"
    using seek_pos_iff [OF merge_sorted [OF assms(1)] merge_keys [OF assms(1)] assms(3) place_in(1) [OF assms(1) e]]
      place_in(2) [OF assms(1) e] by simp
  finally show "i < seek_pos lt (kss ! c) target \<longleftrightarrow> place M (kss ! c ! i) < seek_pos lt M target" .
qed

lemma merging_seek:
  assumes "merging_stands m M p" and "good target"
  shows "\<exists>m'. Merging_Seek cmp ops target m = Some m' \<and> merging_stands m' M (seek_pos lt M target)"
proof -
  let ?p = "seek_pos lt M target"
  obtain kss f where k: "merge_of kss M" "children_at (mi_children m) kss f" using merging_children [OF assms(1)] .
  have "\<exists>ws'. each_child (\<lambda>_. IW_Seek ops target) 0 (mi_children m) = Some ws' \<and> children_at ws' kss (\<lambda>c. count M (kss ! c) ?p)"
    by (rule children_step [OF k(2)]) (simp add: seek_count [OF k(1) _ assms(2)] wrapper_moves(3) assms(2))
  then obtain ws where ws: "each_child (\<lambda>_. IW_Seek ops target) 0 (mi_children m) = Some ws" "children_at ws kss (\<lambda>c. count M (kss ! c) ?p)"
    by blast
  from stands_smallest [OF k(1), of "m\<lparr>mi_children := ws\<rparr>" ?p] ws(2) seek_pos_le obtain m' where
    "FindSmallest cmp (m\<lparr>mi_children := ws\<rparr>) = Some m'" "merging_stands (m'\<lparr>mi_direction := kForward\<rparr>) M ?p" by auto
  then show ?thesis by (simp add: Merging_Seek_def ws(1))
qed

text \<open>What the current child shows.\<close>

lemma current_at:
  assumes "owns kss M c p" and "children_at (mi_children m) kss f" and "mi_current m = Some c" and "f c = count M (kss ! c) p"
  shows "\<exists>w. current_child m = Some w \<and> mi_children m ! c = w \<and> holds_at w (kss ! c) (count M (kss ! c) p) \<and>
    IW_key w = Some (fst (M ! p)) \<and> IW_value ops w = Some (snd (M ! p))"
  using assms wrapper_reads(3,4) [of "mi_children m ! c" "kss ! c" "count M (kss ! c) p"]
  by (auto simp: current_child_def children_at_def owns_def)

lemma merging_current:
  assumes "merging_stands m M p" and "p < length M"
  shows "Merging_Valid m" and "Merging_key m = Some (fst (M ! p))" and "Merging_value ops m = Some (snd (M ! p))"
  using assms current_at
  by (fastforce simp: merging_stands_def forward_at_def backward_at_def Merging_Valid_def Merging_key_def Merging_value_def)+

lemma seek_entry:
  assumes "merge_of kss M" and "p < length M" and "c < length kss" and "holds_at w (kss ! c) j"
  shows "\<exists>w'. IW_Seek ops (fst (M ! p)) w = Some w' \<and> holds_at w' (kss ! c) (count M (kss ! c) p)"
  using wrapper_moves(3) [OF assms(4) merge_good [OF assms(1) nth_mem [OF assms(2)]]] seek_count [OF assms(1,3) merge_good [OF assms(1) nth_mem [OF assms(2)]]]
    place_nth [OF assms(1,2)] by simp

lemma after_entry:
  assumes "merge_of kss M" and "p < length M" and "owns kss M o' p" and "c < length kss" and "c \<noteq> o'" and "holds_at w (kss ! c) j"
  shows "\<exists>w'. after_key cmp ops (fst (M ! p)) w = Some w' \<and> holds_at w' (kss ! c) (count M (kss ! c) p)"
proof -
  let ?n = "count M (kss ! c) p"
  obtain w' where w': "IW_Seek ops (fst (M ! p)) w = Some w'" "holds_at w' (kss ! c) ?n" using seek_entry [OF assms(1,2,4,6)] by blast
  show ?thesis
  proof (cases "?n < length (kss ! c)")
    case False
    then show ?thesis using w' wrapper_reads(1) [OF w'(2)] by (simp add: after_key_def)
  next
    case True
    note e = child_entry [OF assms(1,4) True]
    have ne: "place M (kss ! c ! ?n) \<noteq> p" using assms(3-5) True by (simp add: owns_def)
    obtain x where x: "cmp (fst (M ! p)) (fst (kss ! c ! ?n)) = Some x" "x \<noteq> 0"
      using compare_places [OF assms(1,2) place_in(1) [OF assms(1) e]] place_in(2) [OF assms(1) e] ne by (metis less_irrefl linorder_neqE_nat)
    then show ?thesis using w' wrapper_reads(1,3) [OF w'(2)] True by (simp add: after_key_def)
  qed
qed

lemma before_entry:
  assumes "merge_of kss M" and "p < length M" and "c < length kss" and "holds_at w (kss ! c) j"
  shows "\<exists>w'. before_key ops (fst (M ! p)) w = Some w' \<and> holds_at w' (kss ! c) (behind M (kss ! c) p)"
proof -
  let ?n = "count M (kss ! c) p"
  obtain w' where w': "IW_Seek ops (fst (M ! p)) w = Some w'" "holds_at w' (kss ! c) ?n" using seek_entry [OF assms] by blast
  show ?thesis
  proof (cases "?n < length (kss ! c)")
    case True
    then show ?thesis using w' wrapper_reads(1) [OF w'(2)] wrapper_moves(5) [OF w'(2)] by (simp add: before_key_def behind_def)
  next
    case False
    then have "?n = length (kss ! c)" using count_le [of M "kss ! c" p] by simp
    then show ?thesis using w' wrapper_reads(1) [OF w'(2)] wrapper_moves(2) [OF w'(2)]
      by (cases "kss ! c") (simp_all add: before_key_def behind_def)
  qed
qed

lemma children_update:
  assumes "children_at ws kss f" and "c < length kss" and "holds_at w (kss ! c) n"
    and "\<And>d. d < length kss \<Longrightarrow> g d = (if d = c then n else f d)"
  shows "children_at (ws[c := w]) kss g"
  using assms by (auto simp: children_at_def nth_list_update)

lemma merging_next:
  assumes "merging_stands m M p" and "p < length M"
  shows "\<exists>m'. Merging_Next cmp ops m = Some m' \<and> merging_stands m' M (Suc p)"
proof -
  obtain kss where k: "merge_of kss M" "forward_at m kss M p \<or> backward_at m kss M p" using assms by (auto simp: merging_stands_def)
  note cur = merging_current [OF assms]
  have "\<exists>m1. (if mi_direction m \<noteq> kForward then do {
            key \<leftarrow> Merging_key m;
            ws \<leftarrow> each_child (\<lambda>i child. if Some i \<noteq> mi_current m then after_key cmp ops key child else Some child)
              0 (mi_children m);
            Some (m\<lparr>mi_children := ws, mi_direction := kForward\<rparr>)
          } else Some m) = Some m1 \<and> forward_at m1 kss M p"
  proof (cases "mi_direction m = kForward")
    case True
    then show ?thesis using k(2) by (auto simp: backward_at_def)
  next
    case False
    then obtain c where c: "mi_current m = Some c" "owns kss M c p"
      "children_at (mi_children m) kss (\<lambda>d. if d = c then count M (kss ! d) p else behind M (kss ! d) p)"
      using k(2) by (auto simp: forward_at_def backward_at_def)
    have "\<exists>ws'. each_child (\<lambda>i child. if Some i \<noteq> mi_current m then after_key cmp ops (fst (M ! p)) child else Some child)
        0 (mi_children m) = Some ws' \<and> children_at ws' kss (\<lambda>c. count M (kss ! c) p)"
      by (rule children_step [OF c(3)]) (use after_entry [OF k(1) assms(2) c(2)] c(1) in auto)
    then show ?thesis using False cur(2) c(1,2) by (auto simp: forward_at_def)
  qed
  then obtain m1 where m1: "(if mi_direction m \<noteq> kForward then do {
            key \<leftarrow> Merging_key m;
            ws \<leftarrow> each_child (\<lambda>i child. if Some i \<noteq> mi_current m then after_key cmp ops key child else Some child)
              0 (mi_children m);
            Some (m\<lparr>mi_children := ws, mi_direction := kForward\<rparr>)
          } else Some m) = Some m1" "forward_at m1 kss M p" by blast
  obtain c where c: "mi_current m1 = Some c" "owns kss M c p" "children_at (mi_children m1) kss (\<lambda>c. count M (kss ! c) p)"
    using m1(2) by (auto simp: forward_at_def)
  obtain w where w: "current_child m1 = Some w" "holds_at w (kss ! c) (count M (kss ! c) p)" using current_at [OF c(2,3,1) refl] by blast
  have "count M (kss ! c) p < length (kss ! c)" using c(2) by (simp add: owns_def)
  from wrapper_moves(4) [OF w(2) this] obtain w' where w': "IW_Next ops w = Some w'" "holds_at w' (kss ! c) (Suc (count M (kss ! c) p))" by blast
  let ?m = "m1\<lparr>mi_children := (mi_children m1)[c := w']\<rparr>"
  have "children_at ((mi_children m1)[c := w']) kss (\<lambda>c. count M (kss ! c) (Suc p))"
    by (rule children_update [OF c(3) _ w'(2)]) (use c(2) in \<open>auto simp: owns_def\<close>)
  with stands_smallest [OF k(1), of ?m "Suc p"] assms(2) obtain m' where
    m': "FindSmallest cmp ?m = Some m'" "merging_stands (m'\<lparr>mi_direction := kForward\<rparr>) M (Suc p)" "mi_direction m' = mi_direction ?m" by auto
  have "m'\<lparr>mi_direction := kForward\<rparr> = m'" using m'(3) m1(2) by (simp add: forward_at_def)
  then show ?thesis using m'(1,2) cur(1) m1(1) w(1) w'(1) c(1) by (simp add: Merging_Next_def move_current_def)
qed

lemma merging_prev:
  assumes "merging_stands m M p" and "p < length M"
  shows "\<exists>m'. Merging_Prev cmp ops m = Some m' \<and> merging_stands m' M (if p = 0 then length M else p - 1)"
proof -
  obtain kss where k: "merge_of kss M" "forward_at m kss M p \<or> backward_at m kss M p" using assms by (auto simp: merging_stands_def)
  note cur = merging_current [OF assms]
  have "\<exists>m1. (if mi_direction m \<noteq> kReverse then do {
            key \<leftarrow> Merging_key m;
            ws \<leftarrow> each_child (\<lambda>i child. if Some i \<noteq> mi_current m then before_key ops key child else Some child)
              0 (mi_children m);
            Some (m\<lparr>mi_children := ws, mi_direction := kReverse\<rparr>)
          } else Some m) = Some m1 \<and> backward_at m1 kss M p"
  proof (cases "mi_direction m = kReverse")
    case True
    then show ?thesis using k(2) by (auto simp: forward_at_def)
  next
    case False
    then obtain c where c: "mi_current m = Some c" "owns kss M c p" "children_at (mi_children m) kss (\<lambda>c. count M (kss ! c) p)"
      using k(2) by (auto simp: forward_at_def backward_at_def)
    have "\<exists>ws'. each_child (\<lambda>i child. if Some i \<noteq> mi_current m then before_key ops (fst (M ! p)) child else Some child)
        0 (mi_children m) = Some ws' \<and> children_at ws' kss (\<lambda>d. if d = c then count M (kss ! d) p else behind M (kss ! d) p)"
      by (rule children_step [OF c(3)]) (use before_entry [OF k(1) assms(2)] c(1) in auto)
    then show ?thesis using False cur(2) c(1,2) by (auto simp: backward_at_def)
  qed
  then obtain m1 where m1: "(if mi_direction m \<noteq> kReverse then do {
            key \<leftarrow> Merging_key m;
            ws \<leftarrow> each_child (\<lambda>i child. if Some i \<noteq> mi_current m then before_key ops key child else Some child)
              0 (mi_children m);
            Some (m\<lparr>mi_children := ws, mi_direction := kReverse\<rparr>)
          } else Some m) = Some m1" "backward_at m1 kss M p" by blast
  obtain c where c: "mi_current m1 = Some c" "owns kss M c p"
    "children_at (mi_children m1) kss (\<lambda>d. if d = c then count M (kss ! d) p else behind M (kss ! d) p)"
    using m1(2) by (auto simp: backward_at_def)
  obtain w where w: "current_child m1 = Some w" "holds_at w (kss ! c) (count M (kss ! c) p)" using current_at [OF c(2,3,1)] by auto
  have "count M (kss ! c) p < length (kss ! c)" using c(2) by (simp add: owns_def)
  from wrapper_moves(5) [OF w(2) this] obtain w' where w': "IW_Prev ops w = Some w'" "holds_at w' (kss ! c) (behind M (kss ! c) p)"
    by (auto simp: behind_def)
  let ?m = "m1\<lparr>mi_children := (mi_children m1)[c := w']\<rparr>"
  have "children_at ((mi_children m1)[c := w']) kss (\<lambda>c. behind M (kss ! c) p)"
    by (rule children_update [OF c(3) _ w'(2)]) (use c(2) in \<open>auto simp: owns_def\<close>)
  with stands_largest [OF k(1), of ?m p] assms(2) obtain m' where
    m': "FindLargest cmp ?m = Some m'" "merging_stands (m'\<lparr>mi_direction := kReverse\<rparr>) M (if p = 0 then length M else p - 1)"
      "mi_direction m' = mi_direction ?m" by auto
  have "m'\<lparr>mi_direction := kReverse\<rparr> = m'" using m'(3) m1(2) by (simp add: backward_at_def)
  then show ?thesis using m'(1,2) cur(1) m1(1) w(1) w'(1) c(1) by (simp add: Merging_Prev_def move_current_def)
qed

lemma merging_status:
  assumes "merging_stands m M p" shows "Merging_status ops m = Some Status_OK"
proof -
  obtain kss f where k: "merge_of kss M" "children_at (mi_children m) kss f" using merging_children [OF assms] .
  have "IW_status ops w = Some Status_OK" if "w \<in> set (mi_children m)" for w
    using that k(2) wrapper_reads(5) by (fastforce simp: children_at_def in_set_conv_nth)
  moreover have "first_error ops ws Status_OK = Some Status_OK" if "\<And>w. w \<in> set ws \<Longrightarrow> IW_status ops w = Some Status_OK" for ws
    using that by (induction ws) (simp_all add: Status_ok_def Status_OK_def)
  ultimately have "first_error ops (mi_children m) Status_OK = Some Status_OK" by blast
  then show ?thesis by (simp add: Merging_status_def)
qed

end

text \<open>So a merging iterator over cursors is a cursor again.\<close>

locale merging_cursor = cursor

sublocale merging_cursor \<subseteq> merging: cursor cmp good "Merging_ops cmp ops" merging_stands
proof unfold_locales
  fix m M p
  assume st: "merging_stands m M p"
  obtain kss f where k: "merge_of kss M" "children_at (mi_children m) kss f" using merging_children [OF st] .
  show le: "p \<le> length M" using st by (simp add: merging_stands_def)
  show "sorted_wrt lt (map fst M)" by (rule merge_sorted [OF k(1)])
  show "good x" if "x \<in> fst ` set M" for x by (rule merge_keys [OF k(1) that])
  have "mi_current m = None" if "\<not> p < length M" using st that by (auto simp: merging_stands_def)
  then show "it_Valid (Merging_ops cmp ops) m = (p < length M)"
    using merging_current(1) [OF st] by (cases "p < length M") (simp_all add: Merging_ops_def Merging_Valid_def)
  show "it_key (Merging_ops cmp ops) m = Some (fst (M ! p))" if "p < length M"
    using merging_current(2) [OF st that] by (simp add: Merging_ops_def)
  show "it_value (Merging_ops cmp ops) m = Some (snd (M ! p))" if "p < length M"
    using merging_current(3) [OF st that] by (simp add: Merging_ops_def)
  show "it_status (Merging_ops cmp ops) m = Some Status_OK" using merging_status [OF st] by (simp add: Merging_ops_def)
  show "\<exists>m'. it_SeekToFirst (Merging_ops cmp ops) m = Some m' \<and> merging_stands m' M 0"
    using merging_first [OF st] by (simp add: Merging_ops_def)
  show "\<exists>m'. it_SeekToLast (Merging_ops cmp ops) m = Some m' \<and> merging_stands m' M (length M - 1)"
    using merging_last [OF st] by (simp add: Merging_ops_def)
  show "\<exists>m'. it_Seek (Merging_ops cmp ops) target m = Some m' \<and> merging_stands m' M (seek_pos lt M target)" if "good target" for target
    using merging_seek [OF st that] by (simp add: Merging_ops_def)
  show "\<exists>m'. it_Next (Merging_ops cmp ops) m = Some m' \<and> merging_stands m' M (Suc p)" if "p < length M"
    using merging_next [OF st that] by (simp add: Merging_ops_def)
  show "\<exists>m'. it_Prev (Merging_ops cmp ops) m = Some m' \<and> merging_stands m' M (if p = 0 then length M else p - 1)" if "p < length M"
    using merging_prev [OF st that] by (simp add: Merging_ops_def)
qed

interpretation blocks: merging_cursor Bytewise_Compare "\<lambda>_. True" "Block_ops Bytewise_Compare" bytewise.block_stands
  by (rule merging_cursor.intro) (rule bytewise.block.cursor_axioms)

context merging_cursor
begin

lemma sorted_unique:
  assumes "sorted_wrt lt (map fst xs)" and "sorted_wrt lt (map fst ys)" and "mset xs = mset ys" and "\<forall>k \<in> fst ` set xs. good k"
  shows "xs = ys"
  using assms
proof (induction xs arbitrary: ys)
  case (Cons x xs)
  then obtain y ys' where ys: "ys = y # ys'" by (cases ys) auto
  have s: "insert x (set xs) = insert y (set ys')"
    using mset_eq_setD [OF Cons.prems(3)] by (simp only: ys list.set)
  have "x = y"
  proof (rule ccontr)
    assume "x \<noteq> y"
    then have in': "x \<in> set ys'" "y \<in> set xs"
      using insertI1 [of x "set xs", unfolded s] insertI1 [of y "set ys'", folded s] by simp_all
    then have o: "lt (fst y) (fst x)" "lt (fst x) (fst y)" using Cons.prems(1,2) ys by simp_all
    have "good (fst x)" "good (fst y)" using Cons.prems(4) in' by simp_all
    then show False using lt_trans [of "fst x" "fst y" "fst x"] lt_irrefl [of "fst x"] o by simp
  qed
  then show ?case using Cons.IH [of ys'] Cons.prems ys by simp
qed simp

lemma new_merging:
  assumes "length its = length kss" and "\<And>c. c < length kss \<Longrightarrow> \<exists>i. stands (its ! c) (kss ! c) i"
    and "mset M = mset (concat kss)" and "sorted_wrt lt (map fst M)"
  shows "case NewMergingIterator ops its of
      None \<Rightarrow> False
    | Some (No_Iterator s) \<Rightarrow> kss = [] \<and> M = [] \<and> s = Status_OK
    | Some (One_Iterator it) \<Rightarrow> kss = [M] \<and> (\<exists>i. stands it M i)
    | Some (Merging_Iterator m) \<Rightarrow> merging_stands m M (length M)"
proof -
  have "set M = (\<Union>ks \<in> set kss. set ks)" using mset_eq_setD [OF assms(3)] by (simp only: set_concat)
  moreover have "good k" if k: "k \<in> fst ` set ks" "ks \<in> set kss" for k ks
  proof -
    obtain c where "c < length kss" "kss ! c = ks" using k(2) by (auto simp: in_set_conv_nth)
    then obtain i where "stands (its ! c) ks i" using assms(2) [of c] by blast
    from stands_good [OF this] show ?thesis using k(1) by blast
  qed
  ultimately have g: "\<forall>k \<in> fst ` set M. good k" by auto
  have srt: "\<forall>ks \<in> set kss. sorted_wrt lt (map fst ks)"
  proof
    fix ks
    assume "ks \<in> set kss"
    then obtain c where "c < length kss" "kss ! c = ks" by (auto simp: in_set_conv_nth)
    then obtain i where "stands (its ! c) ks i" using assms(2) [of c] by blast
    from stands_sorted [OF this] show "sorted_wrt lt (map fst ks)" .
  qed
  have m: "merge_of kss M" unfolding merge_of_def using assms(3,4) g srt by blast
  consider "kss = []" | ks where "kss = [ks]" | "2 \<le> length kss" by (cases kss rule: remdups_adj.cases) auto
  then show ?thesis
  proof cases
    case 1
    then show ?thesis using assms(1,3) by (simp add: NewMergingIterator_def NewEmptyIterator_def)
  next
    case 2
    then have "M = ks" using sorted_unique [OF assms(4), of ks] srt g assms(3) by simp
    then show ?thesis using 2 assms(1) assms(2) [of 0] by (simp add: NewMergingIterator_def)
  next
    case 3
    let ?null = "replicate (length its) (IteratorWrapper_null :: 'i IteratorWrapper)"
    have "\<exists>w. IW_Set ops (Some (its ! (0 + c))) (?null ! c) = Some w \<and> (\<exists>i. holds_at w (kss ! c) i)" if "c < length ?null" for c
      using assms(1) assms(2) [of c] that set_at by (metis add_0 length_replicate)
    from each_child_all [of ?null "\<lambda>i w. IW_Set ops (Some (its ! i)) w" 0 "\<lambda>c w. \<exists>i. holds_at w (kss ! c) i", OF this] obtain ws where
      ws: "each_child (\<lambda>i w. IW_Set ops (Some (its ! i)) w) 0 ?null = Some ws" "length ws = length kss"
        "\<forall>c < length kss. \<exists>i. holds_at (ws ! c) (kss ! c) i"
      using assms(1) by auto
    obtain f where "children_at ws kss f" using ws(2,3) by (auto simp: children_at_def dest!: choice_iff' [THEN iffD1])
    then show ?thesis using m 3 assms(1) ws(1)
      by (auto simp: NewMergingIterator_def MergingIterator_new_def merging_stands_def)
  qed
qed

lemma merging_simulates: "simulates_cursor lt good (Merging_ops cmp ops) M (\<lambda>m p. merging_stands m M p)"
  by (rule merging.stands_simulates)

end

text \<open>C29: the merging iterator shows the merge of its children. For every class of iterators that keeps
  the contract of iterators, children that stand anywhere in their lists, and the sorted list of all their
  entries, whose keys are all different: without children an empty iterator is made, with one child that
  child, and otherwise a merging iterator that behaves as a position in the merged list, in both
  directions and through every change of direction, whatever sequence of operations is called.\<close>

theorem merging_simulates_list:
  assumes "cursor cmp good ops stands" and "length its = length kss"
    and "\<And>c. c < length kss \<Longrightarrow> \<exists>i. stands (its ! c) (kss ! c) i"
    and "mset M = mset (concat kss)" and "sorted_wrt (comparator.lt cmp) (map fst M)"
  shows "case NewMergingIterator ops its of
      None \<Rightarrow> False
    | Some (No_Iterator s) \<Rightarrow> kss = [] \<and> M = [] \<and> s = Status_OK
    | Some (One_Iterator it) \<Rightarrow> kss = [M] \<and> (\<exists>i. stands it M i)
    | Some (Merging_Iterator m) \<Rightarrow> (\<exists>sim. sim m (length M) \<and>
        simulates_cursor (comparator.lt cmp) good (Merging_ops cmp ops) M sim)"
proof -
  note mc = merging_cursor.intro [OF assms(1)]
  note sim = merging_cursor.merging_simulates [OF mc, of M]
  show ?thesis using merging_cursor.new_merging [OF mc assms(2-5)] sim
    by (auto split: option.splits merged.splits)
qed

lemma demo_blocks_built:
  "map_option length (build_block Bytewise_Compare 16 [([97], [1]), ([99], [3])]) = Some 18"
  "map_option length (build_block Bytewise_Compare 16 [([98], [2])]) = Some 13"
  by code_simp+

lemma demo_block_opened:
  assumes "map_option length (build_block Bytewise_Compare 16 kvs) = Some n" and "n < 2 ^ 32"
    and "sorted_wrt bytewise.lt (map fst kvs)"
  obtains c it where "build_block Bytewise_Compare 16 kvs = Some c" and "open_block c = Some (Block_Iterator it)"
    and "bytewise.block_stands it kvs (length kvs)"
proof -
  have "(1 :: int) \<le> 16" "\<forall>k \<in> fst ` set kvs. True" by simp_all
  from bytewise.block_of_entries [OF this(1) assms(3) this(2)] obtain c where
    c: "build_block Bytewise_Compare 16 kvs = Some c"
    "length c < 2 ^ 32 \<longrightarrow> (\<exists>it. open_block c = Some (Block_Iterator it) \<and> bytewise.block_stands it kvs (length kvs))"
    by (elim exE conjE)
  have "length c < 2 ^ 32" using assms(1,2) c(1) by simp
  with c(2) obtain it where "open_block c = Some (Block_Iterator it)" "bytewise.block_stands it kvs (length kvs)"
    by (elim impE exE conjE)
  with c(1) show ?thesis by (rule that)
qed

theorem merging_simulates_list_witness:
  "\<exists>c c' it it' m sim. build_block Bytewise_Compare 16 [([97], [1]), ([99], [3])] = Some c \<and> open_block c = Some (Block_Iterator it) \<and>
    build_block Bytewise_Compare 16 [([98], [2])] = Some c' \<and> open_block c' = Some (Block_Iterator it') \<and>
    NewMergingIterator (Block_ops Bytewise_Compare) [it, it'] = Some (Merging_Iterator m) \<and> sim m 3 \<and>
    simulates_cursor bytewise.lt (\<lambda>_. True) (Merging_ops Bytewise_Compare (Block_ops Bytewise_Compare))
      [([97], [1]), ([98], [2]), ([99], [3])] sim"
proof -
  let ?a = "[([97], [1]), ([99], [3])] :: (slice \<times> slice) list" and ?b = "[([98], [2])] :: (slice \<times> slice) list"
  let ?M = "[([97], [1]), ([98], [2]), ([99], [3])] :: (slice \<times> slice) list"
  have s: "sorted_wrt bytewise.lt (map fst ?a)" "sorted_wrt bytewise.lt (map fst ?b)" "sorted_wrt bytewise.lt (map fst ?M)"
    by (simp_all add: bytewise_lt)
  obtain c it where a: "build_block Bytewise_Compare 16 ?a = Some c" "open_block c = Some (Block_Iterator it)"
    "bytewise.block_stands it ?a (length ?a)"
    by (rule demo_block_opened [OF demo_blocks_built(1) _ s(1)]) simp_all
  obtain c' it' where b: "build_block Bytewise_Compare 16 ?b = Some c'" "open_block c' = Some (Block_Iterator it')"
    "bytewise.block_stands it' ?b (length ?b)"
    by (rule demo_block_opened [OF demo_blocks_built(2) _ s(2)]) simp_all
  have l: "length [it, it'] = length [?a, ?b]" and n: "length ?M = 3" and m: "mset ?M = mset (concat [?a, ?b])" by simp_all
  have st: "\<exists>i. bytewise.block_stands ([it, it'] ! j) ([?a, ?b] ! j) i" if "j < length [?a, ?b]" for j
    using that a(3) b(3) by (cases j) auto
  from merging_simulates_list [OF bytewise.block.cursor_axioms l st m s(3), unfolded n]
  obtain m sim where "NewMergingIterator (Block_ops Bytewise_Compare) [it, it'] = Some (Merging_Iterator m)" "sim m (3 :: nat)"
    "simulates_cursor bytewise.lt (\<lambda>_. True) (Merging_ops Bytewise_Compare (Block_ops Bytewise_Compare)) ?M sim"
    by (simp split: option.splits merged.splits) (elim exE conjE, iprover)
  with a(1,2) b(1,2) show ?thesis by (intro exI conjI)
qed

end
