(* ===== verification/Ldb_Db_Iter.thy ===== *)
theory Ldb_Db_Iter
  imports Ldb_Merger Ldb_Dbformat Ldb_Random
begin

text \<open>
  The iterator of a database (\<open>db/db_iter.cc\<close>): it walks an iterator over internal keys, at a snapshot,
  and yields for each user key the newest value the snapshot sees, unless that is a deletion. The
  internal iterator is a parameter, the record of its operations. \<open>None\<close> is a failed assertion or an
  arithmetic overflow. The capacity of a string is not modelled, so the two ways of clearing
  \<open>saved_value_\<close> are one; the samples of reads that the database takes from the iterator are the list
  of the keys it was called with. The main lemma is that this iterator keeps the contract of iterators
  over the entries that the snapshot shows.
\<close>

subsection \<open>The state\<close>

datatype DBIter_Direction = dbForward | dbReverse

record 'i DBIter =
  di_iter :: 'i
  di_sequence :: "64 word"
  di_status :: Status
  di_saved_key :: slice
  di_saved_value :: slice
  di_direction :: DBIter_Direction
  di_valid :: bool
  di_rnd :: random
  di_bytes_counter :: int
  di_samples :: "slice list"

definition kReadBytesPeriod :: "32 word" where
  "kReadBytesPeriod = 1048576"

text \<open>The next gap between two samples.\<close>

definition RandomPeriod :: "random \<Rightarrow> (int \<times> random) option" where
  "RandomPeriod rnd = do { (gap, rnd) \<leftarrow> Random_Uniform rnd (2 * kReadBytesPeriod); Some (int (unat gap), rnd) }"

definition NewDBIterator :: "'i \<Rightarrow> 64 word \<Rightarrow> 32 word \<Rightarrow> 'i DBIter option" where
  "NewDBIterator iter s seed = do {
     (gap, rnd) \<leftarrow> RandomPeriod (Random_new seed);
     Some \<lparr>di_iter = iter, di_sequence = s, di_status = Status_OK, di_saved_key = [], di_saved_value = [],
       di_direction = dbForward, di_valid = False, di_rnd = rnd, di_bytes_counter = gap, di_samples = []\<rparr>
   }"

definition DBIter_Valid :: "'i DBIter \<Rightarrow> bool" where
  "DBIter_Valid d = di_valid d"

definition DBIter_key :: "'i iter_ops \<Rightarrow> 'i DBIter \<Rightarrow> slice option" where
  "DBIter_key ops d =
     (if \<not> di_valid d then None
      else if di_direction d = dbForward then it_key ops (di_iter d) \<bind> ExtractUserKey
      else Some (di_saved_key d))"

definition DBIter_value :: "'i iter_ops \<Rightarrow> 'i DBIter \<Rightarrow> slice option" where
  "DBIter_value ops d =
     (if \<not> di_valid d then None
      else if di_direction d = dbForward then it_value ops (di_iter d)
      else Some (di_saved_value d))"

definition DBIter_status :: "'i iter_ops \<Rightarrow> 'i DBIter \<Rightarrow> Status option" where
  "DBIter_status ops d = (if Status_ok (di_status d) then it_status ops (di_iter d) else Some (di_status d))"

definition SaveKey :: "slice \<Rightarrow> 'i DBIter \<Rightarrow> 'i DBIter" where
  "SaveKey k d = d\<lparr>di_saved_key := k\<rparr>"

definition ClearSavedValue :: "'i DBIter \<Rightarrow> 'i DBIter" where
  "ClearSavedValue d = d\<lparr>di_saved_value := []\<rparr>"

subsection \<open>Parsing the current internal key\<close>

text \<open>Samples are taken until the counter of bytes is not negative any more.\<close>

partial_function (option) sample_loop :: "slice \<Rightarrow> 'i DBIter \<Rightarrow> 'i DBIter option" where
  "sample_loop k d =
     (if di_bytes_counter d < 0 then do {
        (gap, rnd) \<leftarrow> RandomPeriod (di_rnd d);
        sample_loop k (d\<lparr>di_rnd := rnd, di_bytes_counter := di_bytes_counter d + gap, di_samples := di_samples d @ [k]\<rparr>)
      }
      else Some d)"

text \<open>The sum of the two sizes is converted to \<open>ssize_t\<close>.\<close>

definition bytes_read :: "slice \<Rightarrow> slice \<Rightarrow> int" where
  "bytes_read k v = sint (of_nat (length k) + of_nat (length v) :: 64 word)"

definition DBIter_ParseKey :: "'i iter_ops \<Rightarrow> 'i DBIter \<Rightarrow> (ParsedInternalKey option \<times> 'i DBIter) option" where
  "DBIter_ParseKey ops d = do {
     k \<leftarrow> it_key ops (di_iter d);
     v \<leftarrow> it_value ops (di_iter d);
     let n = bytes_read k v;
     d \<leftarrow> (if - (2 ^ 63) \<le> di_bytes_counter d - n \<and> di_bytes_counter d - n < 2 ^ 63
           then sample_loop k (d\<lparr>di_bytes_counter := di_bytes_counter d - n\<rparr>) else None);
     (case ParseInternalKey k of
        None \<Rightarrow> do {
          s \<leftarrow> Status_Corruption (bytes_of_string ''corrupted internal key in DBIter'') [];
          Some (None, d\<lparr>di_status := s\<rparr>)
        }
      | Some ikey \<Rightarrow> Some (Some ikey, d))
   }"

subsection \<open>Moving forward\<close>

text \<open>One turn at the current entry: whether it is the one to yield, and whether entries up to the
  saved key are skipped from now on.\<close>

definition next_turn ::
  "(slice \<Rightarrow> slice \<Rightarrow> int option) \<Rightarrow> 'i iter_ops \<Rightarrow> bool \<Rightarrow> 'i DBIter \<Rightarrow> (bool \<times> bool \<times> 'i DBIter) option" where
  "next_turn ucmp ops skipping d = do {
     (parsed, d) \<leftarrow> DBIter_ParseKey ops d;
     (case parsed of
        None \<Rightarrow> Some (False, skipping, d)
      | Some ikey \<Rightarrow>
          if pk_sequence ikey \<le> di_sequence d then
            (case pk_type ikey of
               kTypeDeletion \<Rightarrow> Some (False, True, SaveKey (pk_user_key ikey) d)
             | kTypeValue \<Rightarrow> do {
                 hidden \<leftarrow> (if skipping then do { c \<leftarrow> ucmp (pk_user_key ikey) (di_saved_key d); Some (c \<le> 0) }
                           else Some False);
                 if hidden then Some (False, skipping, d)
                 else Some (True, skipping, d\<lparr>di_valid := True, di_saved_key := []\<rparr>)
               })
          else Some (False, skipping, d))
   }"

partial_function (option) find_next_loop ::
  "(slice \<Rightarrow> slice \<Rightarrow> int option) \<Rightarrow> 'i iter_ops \<Rightarrow> bool \<Rightarrow> 'i DBIter \<Rightarrow> 'i DBIter option" where
  "find_next_loop ucmp ops skipping d = do {
     (found, skipping, d) \<leftarrow> next_turn ucmp ops skipping d;
     if found then Some d
     else do {
       it \<leftarrow> it_Next ops (di_iter d);
       if it_Valid ops it then find_next_loop ucmp ops skipping (d\<lparr>di_iter := it\<rparr>)
       else Some (d\<lparr>di_iter := it, di_saved_key := [], di_valid := False\<rparr>)
     }
   }"

definition FindNextUserEntry ::
  "(slice \<Rightarrow> slice \<Rightarrow> int option) \<Rightarrow> 'i iter_ops \<Rightarrow> bool \<Rightarrow> 'i DBIter \<Rightarrow> 'i DBIter option" where
  "FindNextUserEntry ucmp ops skipping d =
     (if it_Valid ops (di_iter d) \<and> di_direction d = dbForward then find_next_loop ucmp ops skipping d else None)"

definition DBIter_Next :: "(slice \<Rightarrow> slice \<Rightarrow> int option) \<Rightarrow> 'i iter_ops \<Rightarrow> 'i DBIter \<Rightarrow> 'i DBIter option" where
  "DBIter_Next ucmp ops d =
     (if \<not> di_valid d then None
      else if di_direction d = dbReverse then do {
        it \<leftarrow> (if \<not> it_Valid ops (di_iter d) then it_SeekToFirst ops (di_iter d) else it_Next ops (di_iter d));
        let d = d\<lparr>di_direction := dbForward, di_iter := it\<rparr>;
        if \<not> it_Valid ops it then Some (d\<lparr>di_valid := False, di_saved_key := []\<rparr>)
        else FindNextUserEntry ucmp ops True d
      }
      else do {
        k \<leftarrow> it_key ops (di_iter d);
        u \<leftarrow> ExtractUserKey k;
        FindNextUserEntry ucmp ops True (SaveKey u d)
      })"

subsection \<open>Moving backward\<close>

text \<open>Steps back until the user key is smaller than the saved one; the flag is false where the
  entries end before that.\<close>

partial_function (option) prev_user_key ::
  "(slice \<Rightarrow> slice \<Rightarrow> int option) \<Rightarrow> 'i iter_ops \<Rightarrow> 'i DBIter \<Rightarrow> (bool \<times> 'i DBIter) option" where
  "prev_user_key ucmp ops d = do {
     it \<leftarrow> it_Prev ops (di_iter d);
     let d = d\<lparr>di_iter := it\<rparr>;
     if \<not> it_Valid ops it then Some (False, ClearSavedValue (d\<lparr>di_valid := False, di_saved_key := []\<rparr>))
     else do {
       k \<leftarrow> it_key ops it;
       u \<leftarrow> ExtractUserKey k;
       c \<leftarrow> ucmp u (di_saved_key d);
       if c < 0 then Some (True, d) else prev_user_key ucmp ops d
     }
   }"

text \<open>One turn at the current entry: whether the loop ends, and the type of the last entry seen.\<close>

definition prev_turn ::
  "(slice \<Rightarrow> slice \<Rightarrow> int option) \<Rightarrow> 'i iter_ops \<Rightarrow> ValueType \<Rightarrow> 'i DBIter \<Rightarrow> (bool \<times> ValueType \<times> 'i DBIter) option" where
  "prev_turn ucmp ops value_type d = do {
     (parsed, d) \<leftarrow> DBIter_ParseKey ops d;
     (case parsed of
        None \<Rightarrow> Some (False, value_type, d)
      | Some ikey \<Rightarrow>
          if pk_sequence ikey \<le> di_sequence d then do {
            smaller \<leftarrow> (if value_type \<noteq> kTypeDeletion
              then do { c \<leftarrow> ucmp (pk_user_key ikey) (di_saved_key d); Some (c < 0) } else Some False);
            if smaller then Some (True, value_type, d)
            else if pk_type ikey = kTypeDeletion
              then Some (False, pk_type ikey, ClearSavedValue (d\<lparr>di_saved_key := []\<rparr>))
            else do {
              v \<leftarrow> it_value ops (di_iter d);
              k \<leftarrow> it_key ops (di_iter d);
              u \<leftarrow> ExtractUserKey k;
              Some (False, pk_type ikey, (SaveKey u d)\<lparr>di_saved_value := v\<rparr>)
            }
          }
          else Some (False, value_type, d))
   }"

partial_function (option) find_prev_loop ::
  "(slice \<Rightarrow> slice \<Rightarrow> int option) \<Rightarrow> 'i iter_ops \<Rightarrow> ValueType \<Rightarrow> 'i DBIter \<Rightarrow> (ValueType \<times> 'i DBIter) option" where
  "find_prev_loop ucmp ops value_type d = do {
     (stop, value_type, d) \<leftarrow> prev_turn ucmp ops value_type d;
     if stop then Some (value_type, d)
     else do {
       it \<leftarrow> it_Prev ops (di_iter d);
       if it_Valid ops it then find_prev_loop ucmp ops value_type (d\<lparr>di_iter := it\<rparr>)
       else Some (value_type, d\<lparr>di_iter := it\<rparr>)
     }
   }"

definition FindPrevUserEntry ::
  "(slice \<Rightarrow> slice \<Rightarrow> int option) \<Rightarrow> 'i iter_ops \<Rightarrow> 'i DBIter \<Rightarrow> 'i DBIter option" where
  "FindPrevUserEntry ucmp ops d =
     (if di_direction d \<noteq> dbReverse then None
      else do {
        (value_type, d) \<leftarrow> (if it_Valid ops (di_iter d) then find_prev_loop ucmp ops kTypeDeletion d
                            else Some (kTypeDeletion, d));
        if value_type = kTypeDeletion
        then Some (ClearSavedValue (d\<lparr>di_valid := False, di_saved_key := [], di_direction := dbForward\<rparr>))
        else Some (d\<lparr>di_valid := True\<rparr>)
      })"

definition DBIter_Prev :: "(slice \<Rightarrow> slice \<Rightarrow> int option) \<Rightarrow> 'i iter_ops \<Rightarrow> 'i DBIter \<Rightarrow> 'i DBIter option" where
  "DBIter_Prev ucmp ops d =
     (if \<not> di_valid d then None
      else if di_direction d = dbForward then
        (if \<not> it_Valid ops (di_iter d) then None
         else do {
           k \<leftarrow> it_key ops (di_iter d);
           u \<leftarrow> ExtractUserKey k;
           (found, d) \<leftarrow> prev_user_key ucmp ops (SaveKey u d);
           if found then FindPrevUserEntry ucmp ops (d\<lparr>di_direction := dbReverse\<rparr>) else Some d
         })
      else FindPrevUserEntry ucmp ops d)"

subsection \<open>Seeking\<close>

definition DBIter_Seek ::
  "(slice \<Rightarrow> slice \<Rightarrow> int option) \<Rightarrow> 'i iter_ops \<Rightarrow> slice \<Rightarrow> 'i DBIter \<Rightarrow> 'i DBIter option" where
  "DBIter_Seek ucmp ops target d = do {
     let d = ClearSavedValue (d\<lparr>di_direction := dbForward\<rparr>);
     k \<leftarrow> AppendInternalKey [] \<lparr>pk_user_key = target, pk_sequence = di_sequence d, pk_type = kValueTypeForSeek\<rparr>;
     it \<leftarrow> it_Seek ops k (di_iter d);
     let d = d\<lparr>di_saved_key := k, di_iter := it\<rparr>;
     if it_Valid ops it then FindNextUserEntry ucmp ops False d else Some (d\<lparr>di_valid := False\<rparr>)
   }"

definition DBIter_SeekToFirst :: "(slice \<Rightarrow> slice \<Rightarrow> int option) \<Rightarrow> 'i iter_ops \<Rightarrow> 'i DBIter \<Rightarrow> 'i DBIter option" where
  "DBIter_SeekToFirst ucmp ops d = do {
     let d = ClearSavedValue (d\<lparr>di_direction := dbForward\<rparr>);
     it \<leftarrow> it_SeekToFirst ops (di_iter d);
     let d = d\<lparr>di_iter := it\<rparr>;
     if it_Valid ops it then FindNextUserEntry ucmp ops False d else Some (d\<lparr>di_valid := False\<rparr>)
   }"

definition DBIter_SeekToLast :: "(slice \<Rightarrow> slice \<Rightarrow> int option) \<Rightarrow> 'i iter_ops \<Rightarrow> 'i DBIter \<Rightarrow> 'i DBIter option" where
  "DBIter_SeekToLast ucmp ops d = do {
     let d = ClearSavedValue (d\<lparr>di_direction := dbReverse\<rparr>);
     it \<leftarrow> it_SeekToLast ops (di_iter d);
     FindPrevUserEntry ucmp ops (d\<lparr>di_iter := it\<rparr>)
   }"

definition DBIter_ops :: "(slice \<Rightarrow> slice \<Rightarrow> int option) \<Rightarrow> 'i iter_ops \<Rightarrow> 'i DBIter iter_ops" where
  "DBIter_ops ucmp ops = \<lparr>it_Valid = DBIter_Valid, it_SeekToFirst = DBIter_SeekToFirst ucmp ops,
     it_SeekToLast = DBIter_SeekToLast ucmp ops, it_Seek = DBIter_Seek ucmp ops, it_Next = DBIter_Next ucmp ops,
     it_Prev = DBIter_Prev ucmp ops, it_key = DBIter_key ops, it_value = DBIter_value ops, it_status = DBIter_status ops\<rparr>"

subsection \<open>The sampling of reads ends\<close>

text \<open>A gap is the next number of the generator modulo \<open>2^21\<close>. It may be 0, but not twice in a row.\<close>

lemma RandomPeriod_eq: "RandomPeriod rnd = Some (int (unat (Random_Next rnd) mod 2 ^ 21), Random_Next rnd)"
proof -
  have m: "unat (Random_Next rnd mod 2097152) = unat (Random_Next rnd) mod 2 ^ 21" by (simp add: unat_mod)
  have n: "2 * kReadBytesPeriod = 2097152" "(2097152 :: 32 word) \<noteq> 0" by (simp_all add: kReadBytesPeriod_def)
  show ?thesis by (simp only: RandomPeriod_def Random_Uniform_def n if_False bind.bind_lunit prod.case m)
qed

lemma gap_not_twice:
  fixes s :: nat
  assumes "0 < s" and "s < 2147483647" and "s mod 2 ^ 21 = 0"
  shows "s * 16807 mod 2147483647 mod 2 ^ 21 \<noteq> 0"
proof -
  obtain k where k: "s = k * 2 ^ 21" using assms(3) by (metis dvd_div_mult_self mod_0_imp_dvd)
  have kb: "0 < k" "k < 1024" using assms(1,2) k by simp_all
  let ?a = "k * 16807 div 1024" and ?b = "k * 16807 mod 1024"
  have ab: "k * 16807 = ?a * 1024 + ?b" by simp
  have a: "16 \<le> ?a" "?a < 16807" using kb by simp_all
  have b: "?b < 1024" by simp
  have "s * 16807 = (?a * 1024 + ?b) * 2 ^ 21" using k ab by simp
  also have "(a * 1024 + b) * 2 ^ 21 = (a + b * 2 ^ 21) + 2147483647 * a" for a b :: nat by simp
  finally have "s * 16807 mod 2147483647 = (?a + ?b * 2 ^ 21) mod 2147483647" by (simp only: mod_mult_self2)
  also have "\<dots> = ?a + ?b * 2 ^ 21" using a b by simp
  finally have "s * 16807 mod 2147483647 mod 2 ^ 21 = ?a" using a by simp
  with a show ?thesis by simp
qed

lemma gap_progress:
  assumes "seed_ok rnd" and "unat (Random_Next rnd) mod 2 ^ 21 = 0"
  shows "unat (Random_Next (Random_Next rnd)) mod 2 ^ 21 \<noteq> 0"
  using gap_not_twice [OF _ _ assms(2)] Random_Next_mod [OF assms(1)] Random_Next_mod(1) [OF Random_Next_mod(2) [OF assms(1)]]
  by (simp add: seed_ok_def)

definition sample_measure :: "'i DBIter \<Rightarrow> nat" where
  "sample_measure d = 2 * nat (- di_bytes_counter d) + (if unat (Random_Next (di_rnd d)) mod 2 ^ 21 = 0 then 1 else 0)"

definition sampling_ok :: "'i DBIter \<Rightarrow> bool" where
  "sampling_ok d \<longleftrightarrow> seed_ok (di_rnd d) \<and> 0 \<le> di_bytes_counter d \<and> di_bytes_counter d < 2 ^ 21"

lemma sample_loop_ends:
  assumes "seed_ok (di_rnd d)" and "di_bytes_counter d < 2 ^ 21"
  shows "\<exists>rnd c ss. sample_loop k d = Some (d\<lparr>di_rnd := rnd, di_bytes_counter := c, di_samples := di_samples d @ ss\<rparr>) \<and>
    seed_ok rnd \<and> 0 \<le> c \<and> c < 2 ^ 21 \<and> set ss \<subseteq> {k} \<and> length ss \<le> sample_measure d"
  using assms
proof (induction "sample_measure d" arbitrary: d rule: less_induct)
  case less
  show ?case
  proof (cases "di_bytes_counter d < 0")
    case False
    then show ?thesis using less.prems
      by (subst sample_loop.simps)
        (intro exI [of _ "di_rnd d"] exI [of _ "di_bytes_counter d"] exI [of _ "[]"], simp)
  next
    case True
    let ?g = "int (unat (Random_Next (di_rnd d)) mod 2 ^ 21)"
    let ?d = "d\<lparr>di_rnd := Random_Next (di_rnd d), di_bytes_counter := di_bytes_counter d + ?g, di_samples := di_samples d @ [k]\<rparr>"
    have g: "0 \<le> ?g" "?g < 2 ^ 21" by simp_all
    have m: "sample_measure ?d < sample_measure d"
    proof (cases "?g = 0")
      case True
      then show ?thesis using gap_progress [OF less.prems(1)] by (simp add: sample_measure_def)
    next
      case F: False
      then have "nat (- di_bytes_counter ?d) < nat (- di_bytes_counter d)" using g(1) True by simp
      moreover have "sample_measure ?d \<le> 2 * nat (- di_bytes_counter ?d) + 1" "2 * nat (- di_bytes_counter d) \<le> sample_measure d"
        by (simp_all add: sample_measure_def)
      ultimately show ?thesis by linarith
    qed
    have p: "seed_ok (di_rnd ?d)" "di_bytes_counter ?d < 2 ^ 21"
      using Random_Next_mod(2) [OF less.prems(1)] True g(2) by simp_all
    from less.hyps [OF m p] obtain rnd c ss where
      r: "sample_loop k ?d = Some (?d\<lparr>di_rnd := rnd, di_bytes_counter := c, di_samples := di_samples ?d @ ss\<rparr>)"
        "seed_ok rnd" "0 \<le> c" "c < 2 ^ 21" "set ss \<subseteq> {k}" "length ss \<le> sample_measure ?d"
      by (elim exE conjE)
    have "sample_loop k d = Some (d\<lparr>di_rnd := rnd, di_bytes_counter := c, di_samples := di_samples d @ k # ss\<rparr>)"
      using True r(1) by (subst sample_loop.simps) (simp add: RandomPeriod_eq)
    then show ?thesis using r(2-5) r(6) m by (intro exI [of _ rnd] exI [of _ c] exI [of _ "k # ss"]) simp
  qed
qed

subsection \<open>Internal keys and their parts\<close>

lemma bytes_of_word_of_bytes:
  "8 * length bs \<le> LENGTH('a) \<Longrightarrow> bytes_of_word (length bs) (word_of_bytes bs :: 'a::len word) = bs"
proof (induction bs)
  case (Cons b bs)
  let ?w = "word_of_bytes bs :: 'a word"
  have hi: "\<not> bit (ucast b :: 'a word) i" if "8 \<le> i" for i
    using that bit_imp_le_length [of b i] by (auto simp: bit_simps)
  have small: "bit (word_of_bytes cs :: 'a word) i \<Longrightarrow> i < 8 * length cs" for cs i
  proof (induction cs arbitrary: i)
    case (Cons c cs)
    have "\<not> bit (ucast c :: 'a word) i" if "8 \<le> i" using that bit_imp_le_length [of c i] by (auto simp: bit_simps)
    then show ?case using Cons.prems Cons.IH [of "i - 8"] by (cases "i < 8") (auto simp: bit_simps)
  qed simp
  have "ucast (ucast b OR push_bit 8 ?w) = b"
    using Cons.prems by (intro bit_word_eqI) (auto simp: bit_simps)
  moreover have "drop_bit 8 (ucast b OR push_bit 8 ?w) = ?w"
  proof (rule bit_word_eqI)
    fix i
    assume "i < LENGTH('a)"
    show "bit (drop_bit 8 (ucast b OR push_bit 8 ?w)) i = bit ?w i"
      using hi [of "8 + i"] small [of bs i] Cons.prems by (auto simp: bit_simps)
  qed
  ultimately show ?case using Cons by simp
qed simp

lemma byte_le_1: "c \<le> 1 \<Longrightarrow> c \<noteq> 0 \<Longrightarrow> c = 1" for c :: byte
  by (simp add: word_le_nat_alt word_unat_eq_iff)

lemma Parse_form:
  assumes "ParseInternalKey k = Some p"
  shows "k = mk_ikey (pk_user_key p) (pk_sequence p) (pk_type p)" and "unat (pk_sequence p) < 2 ^ 56"
proof -
  let ?n = "ik_num k"
  have l: "8 \<le> length k" using assms by (auto simp: ParseInternalKey_def Let_def split: if_splits)
  have p: "pk_user_key p = ik_user k" "pk_sequence p = drop_bit 8 ?n" "ucast (?n AND 0xff) = vt_code (pk_type p)"
    using assms l by (auto simp: ParseInternalKey_def Let_def Decode_ik_num ik_user_def not_less byte_le_1 split: if_splits)
  show "unat (pk_sequence p) < 2 ^ 56"
    using unsigned_less [of ?n, where ?'a = nat] unfolding p(2) unat_drop_bit_eq by (simp add: drop_bit_eq_div less_mult_imp_div_less)
  have "bit (tag_num (pk_sequence p) (pk_type p)) i = bit ?n i" if "i < 64" for i
    using that unfolding tag_num_def p(2) p(3) [symmetric] and_ff by (cases "i < 8") (auto simp: bit_simps)
  then have n: "tag_num (pk_sequence p) (pk_type p) = ?n" by (intro bit_word_eqI) simp
  have "k = ik_user k @ drop (length k - 8) k" by (simp add: ik_user_def)
  also have "drop (length k - 8) k = EncodeFixed64 kLittleEndian ?n"
    using l bytes_of_word_of_bytes [of "drop (length k - 8) k", where ?'a = 64] by (simp add: EncodeFixed64_bytes ik_num_def)
  finally show "k = mk_ikey (pk_user_key p) (pk_sequence p) (pk_type p)" by (simp add: mk_ikey_def n p(1))
qed

subsection \<open>What a snapshot shows\<close>

text \<open>Of the entries of the internal iterator, those with a sequence number up to the snapshot's are
  seen; the newest seen entry of a user key decides whether the key is shown, and with which value.\<close>

definition entry_of :: "(slice \<times> slice) list \<Rightarrow> nat \<Rightarrow> ParsedInternalKey" where
  "entry_of kvs i = the (ParseInternalKey (fst (kvs ! i)))"

abbreviation ukey :: "(slice \<times> slice) list \<Rightarrow> nat \<Rightarrow> slice" where
  "ukey kvs i \<equiv> pk_user_key (entry_of kvs i)"

definition sees :: "64 word \<Rightarrow> (slice \<times> slice) list \<Rightarrow> nat \<Rightarrow> bool" where
  "sees s kvs i \<longleftrightarrow> pk_sequence (entry_of kvs i) \<le> s"

definition newest :: "(slice \<Rightarrow> slice \<Rightarrow> int option) \<Rightarrow> 64 word \<Rightarrow> (slice \<times> slice) list \<Rightarrow> nat \<Rightarrow> bool" where
  "newest ucmp s kvs i \<longleftrightarrow> sees s kvs i \<and>
     (\<forall>j \<in> set [0..<length kvs]. sees s kvs j \<and> ucmp (ukey kvs j) (ukey kvs i) = Some 0 \<longrightarrow>
        ik_num (fst (kvs ! j)) \<le> ik_num (fst (kvs ! i)))"

definition shown :: "(slice \<Rightarrow> slice \<Rightarrow> int option) \<Rightarrow> 64 word \<Rightarrow> (slice \<times> slice) list \<Rightarrow> nat \<Rightarrow> bool" where
  "shown ucmp s kvs i \<longleftrightarrow> newest ucmp s kvs i \<and> pk_type (entry_of kvs i) = kTypeValue"

definition db_view :: "(slice \<Rightarrow> slice \<Rightarrow> int option) \<Rightarrow> 64 word \<Rightarrow> (slice \<times> slice) list \<Rightarrow> (slice \<times> slice) list" where
  "db_view ucmp s kvs = map (\<lambda>i. (ukey kvs i, snd (kvs ! i))) (filter (shown ucmp s kvs) [0..<length kvs])"

text \<open>Entries that parse, with sizes as they fit a signed 64-bit number.\<close>

definition entries_ok :: "(slice \<times> slice) list \<Rightarrow> bool" where
  "entries_ok kvs \<longleftrightarrow> (\<forall>(k, v) \<in> set kvs. ParseInternalKey k \<noteq> None \<and> length k + length v < 2 ^ 63)"

text \<open>The number of indices with a property below a bound.\<close>

definition rank :: "(nat \<Rightarrow> bool) \<Rightarrow> nat \<Rightarrow> nat" where
  "rank P p = length (filter P [0..<p])"

lemma rank_0 [simp]: "rank P 0 = 0"
  by (simp add: rank_def)

lemma rank_Suc: "rank P (Suc p) = rank P p + (if P p then 1 else 0)"
  by (simp add: rank_def)

lemma rank_skip: "p \<le> q \<Longrightarrow> (\<And>i. p \<le> i \<Longrightarrow> i < q \<Longrightarrow> \<not> P i) \<Longrightarrow> rank P q = rank P p"
  by (induction q rule: dec_induct) (simp_all add: rank_Suc)

lemma rank_nth:
  assumes "P p" and "p < n"
  shows "filter P [0..<n] ! rank P p = p" and "rank P p < length (filter P [0..<n])"
proof -
  have "[0..<n] = [0..<p] @ p # [Suc p..<n]" using assms(2) by (metis less_imp_le_nat upt_add_eq_append upt_conv_Cons zero_le le_add_diff_inverse add_0)
  then show "filter P [0..<n] ! rank P p = p" "rank P p < length (filter P [0..<n])" using assms(1) by (simp_all add: rank_def nth_append)
qed

lemma rank_total: "length (filter P [0..<n]) = rank P n"
  by (simp add: rank_def)

lemma rank_mono: "p \<le> q \<Longrightarrow> rank P p \<le> rank P q"
  by (induction q rule: dec_induct) (simp_all add: rank_Suc le_SucI)

text \<open>The database iterator over an internal iterator that keeps its contract.\<close>

locale db_source = internal: cursor "InternalKeyCompare ucmp" "internal_good ugood" ops stands + user: key_comparator ucmp ugood
  for ucmp :: "slice \<Rightarrow> slice \<Rightarrow> int option" and ugood :: "slice \<Rightarrow> bool" and ops :: "'i iter_ops" and stands

context db_source
begin

abbreviation ult :: "slice \<Rightarrow> slice \<Rightarrow> bool" where
  "ult \<equiv> user.lt"

definition source :: "(slice \<times> slice) list \<Rightarrow> bool" where
  "source kvs \<longleftrightarrow> entries_ok kvs \<and> sorted_wrt internal.lt (map fst kvs) \<and> (\<forall>k \<in> fst ` set kvs. internal_good ugood k)"

lemma source_stands: "entries_ok kvs \<Longrightarrow> stands it kvs p \<Longrightarrow> source kvs"
  using internal.stands_sorted internal.stands_good by (auto simp: source_def)

lemma entry_form:
  assumes "source kvs" and "i < length kvs"
  shows "ParseInternalKey (fst (kvs ! i)) = Some (entry_of kvs i)"
    and "fst (kvs ! i) = mk_ikey (ukey kvs i) (pk_sequence (entry_of kvs i)) (pk_type (entry_of kvs i))"
    and "unat (pk_sequence (entry_of kvs i)) < 2 ^ 56" and "ugood (ukey kvs i)"
    and "ExtractUserKey (fst (kvs ! i)) = Some (ukey kvs i)"
    and "length (fst (kvs ! i)) + length (snd (kvs ! i)) < 2 ^ 63"
proof -
  have m: "kvs ! i \<in> set kvs" using assms(2) by simp
  then have ok: "ParseInternalKey (fst (kvs ! i)) \<noteq> None" "length (fst (kvs ! i)) + length (snd (kvs ! i)) < 2 ^ 63"
    using assms(1) by (auto simp: source_def entries_ok_def)
  show "length (fst (kvs ! i)) + length (snd (kvs ! i)) < 2 ^ 63" by (rule ok(2))
  show p: "ParseInternalKey (fst (kvs ! i)) = Some (entry_of kvs i)" using ok(1) by (simp add: entry_of_def)
  show f: "fst (kvs ! i) = mk_ikey (ukey kvs i) (pk_sequence (entry_of kvs i)) (pk_type (entry_of kvs i))"
    by (rule Parse_form(1) [OF p])
  show "unat (pk_sequence (entry_of kvs i)) < 2 ^ 56" by (rule Parse_form(2) [OF p])
  have "internal_good ugood (fst (kvs ! i))" using assms(1) m by (simp add: source_def)
  then show "ugood (ukey kvs i)" by (subst (asm) f) simp
  show "ExtractUserKey (fst (kvs ! i)) = Some (ukey kvs i)" by (subst f) simp
qed

lemma entry_order:
  assumes "source kvs" and "i < j" and "j < length kvs"
  shows "ult (ukey kvs i) (ukey kvs j) \<or>
    user.eqv (ukey kvs i) (ukey kvs j) \<and> ik_num (fst (kvs ! j)) < ik_num (fst (kvs ! i))"
proof -
  have i: "i < length kvs" using assms(2,3) by simp
  have g: "internal_good ugood (fst (kvs ! i))" "internal_good ugood (fst (kvs ! j))" using assms(1,3) i by (simp_all add: source_def)
  have "internal.lt (fst (kvs ! i)) (fst (kvs ! j))" using assms by (auto simp: source_def sorted_wrt_iff_nth_less)
  then have "ult (ik_user (fst (kvs ! i))) (ik_user (fst (kvs ! j))) \<or>
      user.eqv (ik_user (fst (kvs ! i))) (ik_user (fst (kvs ! j))) \<and> ik_num (fst (kvs ! j)) < ik_num (fst (kvs ! i))"
    using user.icmp_lt [OF g] by simp
  moreover have "ik_user (fst (kvs ! i)) = ukey kvs i" "ik_user (fst (kvs ! j)) = ukey kvs j"
    by (subst entry_form(2) [OF assms(1)]; simp add: i assms(3))+
  ultimately show ?thesis by simp
qed

lemma ukey_mono:
  assumes "source kvs" and "i \<le> j" and "j < length kvs"
  shows "user.le (ukey kvs i) (ukey kvs j)"
proof -
  have g: "ugood (ukey kvs i)" "ugood (ukey kvs j)" using entry_form(4) [OF assms(1)] assms(2,3) by simp_all
  show ?thesis
  proof (cases "i = j")
    case True
    then show ?thesis using user.le_not_lt [OF g] user.lt_irrefl [OF g(1)] by simp
  next
    case False
    then have "\<not> ult (ukey kvs j) (ukey kvs i)" using entry_order [OF assms(1), of i j] assms(2,3) user.eqv_iff [OF g] user.lt_imp_le
        user.le_not_lt [OF g] by auto
    then show ?thesis using user.le_not_lt [OF g] by simp
  qed
qed

lemma newest_iff:
  assumes "source kvs" and "i < length kvs"
  shows "newest ucmp s kvs i \<longleftrightarrow> sees s kvs i \<and> (\<forall>j < i. sees s kvs j \<longrightarrow> ult (ukey kvs j) (ukey kvs i))"
proof (intro iffI conjI allI impI)
  assume n: "newest ucmp s kvs i"
  then show "sees s kvs i" by (simp add: newest_def)
  fix j
  assume j: "j < i" "sees s kvs j"
  show "ult (ukey kvs j) (ukey kvs i)"
  proof (rule ccontr)
    assume "\<not> ult (ukey kvs j) (ukey kvs i)"
    then have "user.eqv (ukey kvs j) (ukey kvs i)" "ik_num (fst (kvs ! i)) < ik_num (fst (kvs ! j))"
      using entry_order [OF assms(1) j(1) assms(2)] by simp_all
    then show False using n j assms(2) by (auto simp: newest_def user.eqv_def dest!: spec [of _ j])
  qed
next
  assume n: "sees s kvs i \<and> (\<forall>j < i. sees s kvs j \<longrightarrow> ult (ukey kvs j) (ukey kvs i))"
  have "ik_num (fst (kvs ! j)) \<le> ik_num (fst (kvs ! i))"
    if "j < length kvs" "sees s kvs j" "user.eqv (ukey kvs j) (ukey kvs i)" for j
  proof -
    have g: "ugood (ukey kvs j)" "ugood (ukey kvs i)" using entry_form(4) [OF assms(1)] that(1) assms(2) by simp_all
    have nl: "\<not> ult (ukey kvs j) (ukey kvs i)" "\<not> ult (ukey kvs i) (ukey kvs j)" using that(3) user.eqv_iff [OF g] by simp_all
    consider "j < i" | "j = i" | "i < j" by linarith
    then show ?thesis
    proof cases
      case 1
      then show ?thesis using n that(2) nl(1) by simp
    next
      case 3
      then show ?thesis using entry_order [OF assms(1) 3 that(1)] nl(2) by (auto dest: order.strict_implies_order)
    qed simp
  qed
  then show "newest ucmp s kvs i" using n by (simp add: newest_def user.eqv_def)
qed

end

context db_source
begin

subsection \<open>One entry\<close>

text \<open>What stays true throughout: the snapshot, a clean status, and a generator that still draws.\<close>

definition core :: "64 word \<Rightarrow> 'i DBIter \<Rightarrow> bool" where
  "core s d \<longleftrightarrow> di_sequence d = s \<and> s \<le> kMaxSequenceNumber \<and> di_status d = Status_OK \<and> sampling_ok d"

lemma core_update [simp]:
  "core s (d\<lparr>di_iter := it\<rparr>) = core s d" "core s (d\<lparr>di_direction := x\<rparr>) = core s d" "core s (d\<lparr>di_valid := v\<rparr>) = core s d"
  "core s (d\<lparr>di_saved_key := k\<rparr>) = core s d" "core s (d\<lparr>di_saved_value := k\<rparr>) = core s d" "core s (SaveKey k d) = core s d" "core s (ClearSavedValue d) = core s d"
  by (simp_all add: core_def sampling_ok_def SaveKey_def ClearSavedValue_def)

lemma parse_ok:
  assumes "source kvs" and "core s d" and "stands (di_iter d) kvs p" and "p < length kvs"
  shows "\<exists>rnd c ss. DBIter_ParseKey ops d = Some (Some (entry_of kvs p),
      d\<lparr>di_bytes_counter := c, di_rnd := rnd, di_samples := di_samples d @ ss\<rparr>) \<and>
    core s (d\<lparr>di_bytes_counter := c, di_rnd := rnd, di_samples := di_samples d @ ss\<rparr>)"
proof -
  let ?k = "fst (kvs ! p)" and ?v = "snd (kvs ! p)"
  have l: "length ?k + length ?v < 2 ^ 63" by (rule entry_form(6) [OF assms(1,4)])
  then have "of_nat (length ?k) + of_nat (length ?v) = (of_nat (length ?k + length ?v) :: 64 word)" by simp
  then have n: "bytes_read ?k ?v = int (length ?k + length ?v)"
    using l unfolding bytes_read_def by (simp only:) (subst signed_of_nat, simp add: signed_take_bit_int_eq_self)
  have c: "0 \<le> di_bytes_counter d" "di_bytes_counter d < 2 ^ 21" "seed_ok (di_rnd d)"
    using assms(2) by (simp_all add: core_def sampling_ok_def)
  let ?d = "d\<lparr>di_bytes_counter := di_bytes_counter d - bytes_read ?k ?v\<rparr>"
  have r: "- (2 ^ 63) \<le> di_bytes_counter d - bytes_read ?k ?v \<and> di_bytes_counter d - bytes_read ?k ?v < 2 ^ 63"
    using c(1,2) l n by simp
  have "seed_ok (di_rnd ?d)" "di_bytes_counter ?d < 2 ^ 21" using c n by simp_all
  from sample_loop_ends [OF this, of ?k] obtain rnd c' ss where
    s: "sample_loop ?k ?d = Some (?d\<lparr>di_rnd := rnd, di_bytes_counter := c', di_samples := di_samples ?d @ ss\<rparr>)"
      "seed_ok rnd" "0 \<le> c'" "c' < 2 ^ 21" by (elim exE conjE)
  have e: "?d\<lparr>di_rnd := rnd, di_bytes_counter := c', di_samples := di_samples ?d @ ss\<rparr> =
      d\<lparr>di_bytes_counter := c', di_rnd := rnd, di_samples := di_samples d @ ss\<rparr>" by simp
  have "DBIter_ParseKey ops d = Some (Some (entry_of kvs p),
      d\<lparr>di_bytes_counter := c', di_rnd := rnd, di_samples := di_samples d @ ss\<rparr>)"
    unfolding DBIter_ParseKey_def internal.stands_key [OF assms(3,4)] internal.stands_value [OF assms(3,4)]
    by (simp only: bind.bind_lunit Let_def r simp_thms if_True s(1) e entry_form(1) [OF assms(1,4)] option.case)
  then show ?thesis using assms(2) s(2-4) by (intro exI conjI) (auto simp: core_def sampling_ok_def)
qed

definition hides :: "bool \<Rightarrow> slice \<Rightarrow> slice \<Rightarrow> bool" where
  "hides skipping saved u \<longleftrightarrow> skipping \<and> \<not> ult saved u"

lemma cmp_le: "ugood a \<Longrightarrow> ugood b \<Longrightarrow> \<exists>c. ucmp a b = Some c \<and> (c \<le> 0 \<longleftrightarrow> \<not> ult b a) \<and> (c < 0 \<longleftrightarrow> ult a b)"
  using user.cmp_total [of a b] user.cmp_total [of b a] user.cmp_swap [of b a] by (fastforce simp: user.lt_def)

lemma next_turn_at:
  assumes "source kvs" and "core s d" and "stands (di_iter d) kvs p" and "p < length kvs" and "skipping \<longrightarrow> ugood (di_saved_key d)"
  shows "\<exists>found skipping' d'. next_turn ucmp ops skipping d = Some (found, skipping', d') \<and> core s d' \<and>
    di_iter d' = di_iter d \<and> di_direction d' = di_direction d \<and>
    (if \<not> sees s kvs p then \<not> found \<and> skipping' = skipping \<and> di_saved_key d' = di_saved_key d
     else if pk_type (entry_of kvs p) = kTypeDeletion then \<not> found \<and> skipping' \<and> di_saved_key d' = ukey kvs p
     else if hides skipping (di_saved_key d) (ukey kvs p)
       then \<not> found \<and> skipping' = skipping \<and> di_saved_key d' = di_saved_key d
     else found \<and> di_valid d')"
proof -
  obtain rnd c ss where p: "DBIter_ParseKey ops d = Some (Some (entry_of kvs p),
      d\<lparr>di_bytes_counter := c, di_rnd := rnd, di_samples := di_samples d @ ss\<rparr>)"
      "core s (d\<lparr>di_bytes_counter := c, di_rnd := rnd, di_samples := di_samples d @ ss\<rparr>)"
    using parse_ok [OF assms(1-4)] by (elim exE conjE)
  obtain x where x: "skipping \<Longrightarrow> ucmp (ukey kvs p) (di_saved_key d) = Some x"
      "skipping \<Longrightarrow> x \<le> 0 \<longleftrightarrow> \<not> ult (di_saved_key d) (ukey kvs p)"
    using cmp_le [OF entry_form(4) [OF assms(1,4)] assms(5) [rule_format]] by (cases skipping) auto
  have s: "di_sequence d = s" using assms(2) by (simp add: core_def)
  show ?thesis
    using p(2) x unfolding next_turn_def p(1)
    by (cases skipping; cases "pk_type (entry_of kvs p)")
      (auto simp: s sees_def hides_def SaveKey_def core_def sampling_ok_def)
qed

subsection \<open>Moving forward\<close>

lemma find_next:
  assumes "source kvs" and "core s d" and "stands (di_iter d) kvs p" and "p < length kvs" and "skipping \<longrightarrow> ugood (di_saved_key d)"
    and "\<forall>i. p \<le> i \<and> i < length kvs \<and> sees s kvs i \<longrightarrow>
      (hides skipping (di_saved_key d) (ukey kvs i) \<longleftrightarrow> (\<exists>j < p. sees s kvs j \<and> \<not> ult (ukey kvs j) (ukey kvs i)))"
  shows "\<exists>d'. find_next_loop ucmp ops skipping d = Some d' \<and> core s d' \<and> di_direction d' = di_direction d \<and>
    ((\<exists>q. p \<le> q \<and> q < length kvs \<and> stands (di_iter d') kvs q \<and> shown ucmp s kvs q \<and>
       (\<forall>i. p \<le> i \<and> i < q \<longrightarrow> \<not> shown ucmp s kvs i) \<and> di_valid d') \<or>
     stands (di_iter d') kvs (length kvs) \<and> (\<forall>i. p \<le> i \<and> i < length kvs \<longrightarrow> \<not> shown ucmp s kvs i) \<and> \<not> di_valid d')"
  using assms(2-)
proof (induction "length kvs - p" arbitrary: p d skipping rule: less_induct)
  case less
  note src = assms(1)
  have K: "hides skipping (di_saved_key d) (ukey kvs i) \<longleftrightarrow> (\<exists>j < p. sees s kvs j \<and> \<not> ult (ukey kvs j) (ukey kvs i))"
    if "p \<le> i" "i < length kvs" "sees s kvs i" for i using less.prems(5) that by blast
  obtain found skipping' d1 where t: "next_turn ucmp ops skipping d = Some (found, skipping', d1)" "core s d1"
      "di_iter d1 = di_iter d" "di_direction d1 = di_direction d" and
    r: "if \<not> sees s kvs p then \<not> found \<and> skipping' = skipping \<and> di_saved_key d1 = di_saved_key d
     else if pk_type (entry_of kvs p) = kTypeDeletion then \<not> found \<and> skipping' \<and> di_saved_key d1 = ukey kvs p
     else if hides skipping (di_saved_key d) (ukey kvs p)
       then \<not> found \<and> skipping' = skipping \<and> di_saved_key d1 = di_saved_key d
     else found \<and> di_valid d1"
    using next_turn_at [OF src less.prems(1-4)] by (elim exE conjE)
  have sh: "shown ucmp s kvs p \<longleftrightarrow> sees s kvs p \<and> pk_type (entry_of kvs p) = kTypeValue \<and> \<not> hides skipping (di_saved_key d) (ukey kvs p)"
    using K [of p] less.prems(3) unfolding shown_def newest_iff [OF src less.prems(3)] by blast
  show ?case
  proof (cases found)
    case True
    then have "shown ucmp s kvs p" using r sh by (cases "pk_type (entry_of kvs p)") (auto split: if_splits)
    moreover have "find_next_loop ucmp ops skipping d = Some d1"
      by (subst find_next_loop.simps) (simp add: t(1) True)
    moreover have "di_valid d1" using r True by (auto split: if_splits)
    ultimately show ?thesis using t less.prems(2,3) by (intro exI [of _ d1] conjI disjI1 exI [of _ p]) auto
  next
    case False
    then have nsh: "\<not> shown ucmp s kvs p" using r sh by (auto split: if_splits)
    obtain it where it: "it_Next ops (di_iter d1) = Some it" "stands it kvs (Suc p)"
      using internal.stands_next [OF less.prems(2,3)] t(3) by auto
    let ?d = "d1\<lparr>di_iter := it\<rparr>"
    show ?thesis
    proof (cases "Suc p < length kvs")
      case F: False
      then have "\<not> it_Valid ops it" using internal.stands_valid [OF it(2)] by simp
      then have "find_next_loop ucmp ops skipping d = Some (?d\<lparr>di_saved_key := [], di_valid := False\<rparr>)"
        by (subst find_next_loop.simps) (simp add: t(1) False it(1))
      moreover have n: "length kvs = Suc p" using F less.prems(3) by simp
      moreover have "\<not> shown ucmp s kvs i" if "p \<le> i" "i < length kvs" for i
        using that n nsh by (simp add: le_less_Suc_eq)
      ultimately show ?thesis using t(2,4) it(2)
        by (intro exI [of _ "?d\<lparr>di_saved_key := [], di_valid := False\<rparr>"]) simp
    next
      case True
      then have v: "it_Valid ops it" using internal.stands_valid [OF it(2)] by simp
      have eq: "find_next_loop ucmp ops skipping d = find_next_loop ucmp ops skipping' ?d"
        by (subst find_next_loop.simps) (simp add: t(1) False it(1) v)
      have g: "ugood (ukey kvs i)" if "i < length kvs" for i by (rule entry_form(4) [OF src that])
      have good': "skipping' \<longrightarrow> ugood (di_saved_key ?d)"
        using r False less.prems(4) g [OF less.prems(3)] by (auto split: if_splits)
      have K': "hides skipping' (di_saved_key ?d) (ukey kvs i) \<longleftrightarrow> (\<exists>j < Suc p. sees s kvs j \<and> \<not> ult (ukey kvs j) (ukey kvs i))"
        if i: "Suc p \<le> i" "i < length kvs" "sees s kvs i" for i
      proof -
        have up: "ult (ukey kvs p) (ukey kvs i) \<Longrightarrow> ult (ukey kvs j) (ukey kvs i)" if "j < p" for j
          using user.le_lt_trans [OF g g g ukey_mono [OF src]] that i less.prems(3) by (meson less_imp_le less_trans)
        consider "\<not> sees s kvs p" | "sees s kvs p" "pk_type (entry_of kvs p) = kTypeDeletion"
          | "sees s kvs p" "pk_type (entry_of kvs p) = kTypeValue" by (cases "pk_type (entry_of kvs p)") auto
        then show ?thesis
        proof cases
          case 1
          then show ?thesis using r K [of i] i by (auto simp: less_Suc_eq)
        next
          case 2
          then have "hides skipping' (di_saved_key ?d) (ukey kvs i) \<longleftrightarrow> \<not> ult (ukey kvs p) (ukey kvs i)"
            using r by (simp add: hides_def)
          then show ?thesis using 2(1) up by (auto simp: less_Suc_eq)
        next
          case 3
          then have h: "hides skipping (di_saved_key d) (ukey kvs p)" "skipping' = skipping" "di_saved_key d1 = di_saved_key d"
            using r False by (auto split: if_splits)
          obtain j where j: "j < p" "sees s kvs j" "\<not> ult (ukey kvs j) (ukey kvs p)"
            using h(1) K [of p] less.prems(3) 3(1) by auto
          have "\<not> ult (ukey kvs j) (ukey kvs i)" if n: "\<not> ult (ukey kvs p) (ukey kvs i)"
          proof
            assume l: "ult (ukey kvs j) (ukey kvs i)"
            have gs: "ugood (ukey kvs j)" "ugood (ukey kvs i)" "ugood (ukey kvs p)" using g i j less.prems(3) by simp_all
            have "user.le (ukey kvs i) (ukey kvs p)" using n user.le_not_lt [OF gs(2,3)] by simp
            then show False using user.lt_le_trans [OF gs l] j(3) by simp
          qed
          then show ?thesis using K [of i] i h(2,3) j by (auto simp: less_Suc_eq)
        qed
      qed
      then have K'': "\<forall>i. Suc p \<le> i \<and> i < length kvs \<and> sees s kvs i \<longrightarrow>
          (hides skipping' (di_saved_key ?d) (ukey kvs i) \<longleftrightarrow> (\<exists>j < Suc p. sees s kvs j \<and> \<not> ult (ukey kvs j) (ukey kvs i)))" by blast
      have c: "core s ?d" using t(2) by simp
      have st: "stands (di_iter ?d) kvs (Suc p)" using it(2) by simp
      have m: "length kvs - Suc p < length kvs - p" using less.prems(3) by simp
      from less.hyps [OF m c st True good' K''] obtain d' where
        d': "find_next_loop ucmp ops skipping' ?d = Some d'" "core s d'" "di_direction d' = di_direction ?d"
        "(\<exists>q. Suc p \<le> q \<and> q < length kvs \<and> stands (di_iter d') kvs q \<and> shown ucmp s kvs q \<and>
           (\<forall>i. Suc p \<le> i \<and> i < q \<longrightarrow> \<not> shown ucmp s kvs i) \<and> di_valid d') \<or>
         stands (di_iter d') kvs (length kvs) \<and> (\<forall>i. Suc p \<le> i \<and> i < length kvs \<longrightarrow> \<not> shown ucmp s kvs i) \<and> \<not> di_valid d'"
        by (elim exE conjE)
      have down: "\<forall>i. p \<le> i \<and> i < q \<longrightarrow> \<not> shown ucmp s kvs i" if "\<forall>i. Suc p \<le> i \<and> i < q \<longrightarrow> \<not> shown ucmp s kvs i" for q
        using that nsh by (metis Suc_leI le_neq_implies_less)
      show ?thesis using d'(1-3) t(4) d'(4) down eq by (intro exI [of _ d'] conjI) (auto dest: Suc_leD)
    qed
  qed
qed

end

context db_source
begin

subsection \<open>Moving backward\<close>

text \<open>Behind the iterator's position and before an index nothing is seen.\<close>

definition gap :: "64 word \<Rightarrow> 'i DBIter \<Rightarrow> (slice \<times> slice) list \<Rightarrow> nat \<Rightarrow> bool" where
  "gap s d kvs q \<longleftrightarrow> (\<exists>p. stands (di_iter d) kvs p \<and>
     (p = length kvs \<and> (\<forall>i < q. \<not> sees s kvs i) \<or> p < q \<and> (\<forall>i. p < i \<and> i < q \<longrightarrow> \<not> sees s kvs i)))"

text \<open>The last value kept while the entries from \<open>m\<close> on, up to \<open>t\<close>, have been seen.\<close>

definition collects :: "64 word \<Rightarrow> (slice \<times> slice) list \<Rightarrow> nat \<Rightarrow> nat \<Rightarrow> ValueType \<Rightarrow> 'i DBIter \<Rightarrow> bool" where
  "collects s kvs t m value_type d \<longleftrightarrow>
     (if value_type = kTypeDeletion then \<forall>i. m \<le> i \<and> i \<le> t \<longrightarrow> \<not> shown ucmp s kvs i
      else \<exists>q. m \<le> q \<and> q \<le> t \<and> sees s kvs q \<and> pk_type (entry_of kvs q) = kTypeValue \<and>
        di_saved_key d = ukey kvs q \<and> di_saved_value d = snd (kvs ! q) \<and>
        (\<forall>i. m \<le> i \<and> i < q \<longrightarrow> \<not> sees s kvs i) \<and> (\<forall>i. q < i \<and> i \<le> t \<longrightarrow> \<not> shown ucmp s kvs i))"

text \<open>What the search ends with: the last shown entry up to \<open>t\<close>.\<close>

definition collected :: "64 word \<Rightarrow> (slice \<times> slice) list \<Rightarrow> nat \<Rightarrow> ValueType \<Rightarrow> 'i DBIter \<Rightarrow> bool" where
  "collected s kvs t value_type d \<longleftrightarrow>
     (if value_type = kTypeDeletion then (\<forall>i \<le> t. \<not> shown ucmp s kvs i) \<and> (\<exists>p. stands (di_iter d) kvs p)
      else \<exists>q \<le> t. shown ucmp s kvs q \<and> di_saved_key d = ukey kvs q \<and> di_saved_value d = snd (kvs ! q) \<and>
        (\<forall>i. q < i \<and> i \<le> t \<longrightarrow> \<not> shown ucmp s kvs i) \<and> gap s d kvs q)"

lemma ValueType_Value: "t \<noteq> kTypeDeletion \<longleftrightarrow> t = kTypeValue"
  by (cases t) simp_all

lemma prev_turn_at:
  assumes "source kvs" and "core s d" and "stands (di_iter d) kvs p" and "p \<le> t" and "t < length kvs"
    and "collects s kvs t (Suc p) value_type d"
  shows "\<exists>stop value_type' d'. prev_turn ucmp ops value_type d = Some (stop, value_type', d') \<and> core s d' \<and>
    di_iter d' = di_iter d \<and> di_direction d' = di_direction d \<and>
    (if stop then value_type' = kTypeValue \<and> collected s kvs t value_type' d' else collects s kvs t p value_type' d')"
proof -
  have pl: "p < length kvs" using assms(4,5) by simp
  obtain rnd c ss where p: "DBIter_ParseKey ops d = Some (Some (entry_of kvs p),
      d\<lparr>di_bytes_counter := c, di_rnd := rnd, di_samples := di_samples d @ ss\<rparr>)"
      "core s (d\<lparr>di_bytes_counter := c, di_rnd := rnd, di_samples := di_samples d @ ss\<rparr>)"
    using parse_ok [OF assms(1-3) pl] by (elim exE conjE)
  let ?d = "d\<lparr>di_bytes_counter := c, di_rnd := rnd, di_samples := di_samples d @ ss\<rparr>"
  have s: "di_sequence d = s" using assms(2) by (simp add: core_def)
  have step: "collects s kvs t m v ?d \<longleftrightarrow> collects s kvs t m v d" for m v by (simp add: collects_def)
  have lower: "\<forall>i. p \<le> i \<and> i \<le> n \<longrightarrow> P i" if "P p" "\<forall>i. Suc p \<le> i \<and> i \<le> n \<longrightarrow> P i" for P n
    using that by (metis Suc_leI le_neq_implies_less)
  have lower': "\<forall>i. p \<le> i \<and> i < n \<longrightarrow> P i" if "P p" "\<forall>i. Suc p \<le> i \<and> i < n \<longrightarrow> P i" for P n
    using that by (metis Suc_leI le_neq_implies_less)
  show ?thesis
  proof (cases "sees s kvs p")
    case False
    then have nsh: "\<not> shown ucmp s kvs p" by (simp add: shown_def newest_def)
    have "prev_turn ucmp ops value_type d = Some (False, value_type, ?d)"
      using False unfolding prev_turn_def p(1) by (simp add: s sees_def)
    moreover have "collects s kvs t p value_type ?d"
    proof (cases "value_type = kTypeDeletion")
      case True
      then show ?thesis using assms(6) lower [of "\<lambda>i. \<not> shown ucmp s kvs i" t] nsh by (simp add: collects_def)
    next
      case F: False
      then obtain q where "Suc p \<le> q" "q \<le> t" "sees s kvs q" "pk_type (entry_of kvs q) = kTypeValue"
        "di_saved_key d = ukey kvs q" "di_saved_value d = snd (kvs ! q)" "\<forall>i. Suc p \<le> i \<and> i < q \<longrightarrow> \<not> sees s kvs i"
        "\<forall>i. q < i \<and> i \<le> t \<longrightarrow> \<not> shown ucmp s kvs i" using assms(6) by (auto simp: collects_def)
      moreover have "\<forall>i. p \<le> i \<and> i < q \<longrightarrow> \<not> sees s kvs i"
        by (rule lower') (use False calculation in simp_all)
      ultimately show ?thesis unfolding collects_def if_not_P [OF F]
        by (intro exI [of _ q]) simp
    qed
    ultimately show ?thesis using p(2) by (intro exI [of _ False] exI [of _ value_type] exI [of _ ?d]) simp
  next
    case True
    have g: "ugood (ukey kvs p)" by (rule entry_form(4) [OF assms(1) pl])
    have ty: "pk_type (entry_of kvs p) = kTypeDeletion \<or> pk_type (entry_of kvs p) = kTypeValue"
      by (cases "pk_type (entry_of kvs p)") simp_all
    have keep: "\<exists>stop value_type' d'. prev_turn ucmp ops value_type d = Some (stop, value_type', d') \<and> core s d' \<and>
        di_iter d' = di_iter d \<and> di_direction d' = di_direction d \<and>
        (if stop then value_type' = kTypeValue \<and> collected s kvs t value_type' d' else collects s kvs t p value_type' d')"
      if smaller: "(if value_type \<noteq> kTypeDeletion
              then do { c \<leftarrow> ucmp (ukey kvs p) (di_saved_key d); Some (c < 0) } else Some False) = Some False"
        and rest: "\<forall>i. p < i \<and> i \<le> t \<longrightarrow> \<not> shown ucmp s kvs i"
      using ty
    proof
      assume ty: "pk_type (entry_of kvs p) = kTypeDeletion"
      then have "prev_turn ucmp ops value_type d = Some (False, kTypeDeletion, ClearSavedValue (?d\<lparr>di_saved_key := []\<rparr>))"
        using True smaller unfolding prev_turn_def p(1)
        by (cases "value_type = kTypeDeletion"; cases "ucmp (ukey kvs p) (di_saved_key d)") (simp_all add: s sees_def)
      moreover have "collects s kvs t p kTypeDeletion (ClearSavedValue (?d\<lparr>di_saved_key := []\<rparr>))"
        using lower [of "\<lambda>i. \<not> shown ucmp s kvs i" t] rest ty by (simp add: collects_def shown_def Suc_le_eq)
      moreover have "core s (ClearSavedValue (?d\<lparr>di_saved_key := []\<rparr>))"
        using p(2) by (simp add: core_def sampling_ok_def ClearSavedValue_def)
      ultimately show ?thesis 
        by (intro exI [of _ False] exI [of _ kTypeDeletion] exI [of _ "ClearSavedValue (?d\<lparr>di_saved_key := []\<rparr>)"])
          (simp add: ClearSavedValue_def)
    next
      assume ty: "pk_type (entry_of kvs p) = kTypeValue"
      let ?d' = "(SaveKey (ukey kvs p) ?d)\<lparr>di_saved_value := snd (kvs ! p)\<rparr>"
      have "prev_turn ucmp ops value_type d = Some (False, kTypeValue, ?d')"
        using True smaller ty internal.stands_value [OF assms(3) pl] internal.stands_key [OF assms(3) pl] entry_form(5) [OF assms(1) pl]
        unfolding prev_turn_def p(1)
        by (cases "value_type = kTypeDeletion"; cases "ucmp (ukey kvs p) (di_saved_key d)") (simp_all add: s sees_def)
      moreover have "collects s kvs t p kTypeValue ?d'"
        unfolding collects_def using assms(4) True rest ty
        by (simp only: ValueType.distinct if_False) (intro exI [of _ p], auto simp: SaveKey_def)
      moreover have "core s ?d'" using p(2) by (simp add: core_def sampling_ok_def SaveKey_def)
      ultimately show ?thesis 
        by (intro exI [of _ False] exI [of _ kTypeValue] exI [of _ ?d']) (simp add: SaveKey_def)
    qed
    show ?thesis
    proof (cases "value_type = kTypeDeletion")
      case del: True
      show ?thesis by (rule keep) (use del assms(6) in \<open>simp_all add: collects_def Suc_le_eq\<close>)
    next
      case val: False
      then obtain q where q: "Suc p \<le> q" "q \<le> t" "sees s kvs q" "pk_type (entry_of kvs q) = kTypeValue"
        "di_saved_key d = ukey kvs q" "di_saved_value d = snd (kvs ! q)" "\<forall>i. Suc p \<le> i \<and> i < q \<longrightarrow> \<not> sees s kvs i"
        "\<forall>i. q < i \<and> i \<le> t \<longrightarrow> \<not> shown ucmp s kvs i" using assms(6) by (auto simp: collects_def)
      have ql: "q < length kvs" using q(2) assms(5) by simp
      have gq: "ugood (ukey kvs q)" by (rule entry_form(4) [OF assms(1) ql])
      obtain x where x: "ucmp (ukey kvs p) (ukey kvs q) = Some x" "x < 0 \<longleftrightarrow> ult (ukey kvs p) (ukey kvs q)"
        using cmp_le [OF g gq] by blast
      show ?thesis
      proof (cases "x < 0")
        case stop: True
        have "prev_turn ucmp ops value_type d = Some (True, value_type, ?d)"
          using True val stop x(1) q(5) unfolding prev_turn_def p(1) by (simp add: s sees_def)
        moreover have "shown ucmp s kvs q"
        proof -
          have "ult (ukey kvs j) (ukey kvs q)" if "j < q" "sees s kvs j" for j
          proof -
            have j: "j \<le> p" using q(7) that by (meson not_less_eq_eq)
            have gj: "ugood (ukey kvs j)" using entry_form(4) [OF assms(1), of j] that(1) ql by simp
            show ?thesis using user.le_lt_trans [OF gj g gq ukey_mono [OF assms(1) j pl]] x(2) stop by simp
          qed
          then show ?thesis using q(3,4) by (simp add: shown_def newest_iff [OF assms(1) ql])
        qed
        moreover have "gap s ?d kvs q" unfolding gap_def using assms(3) q(1,7) by (intro exI [of _ p]) (simp add: Suc_le_eq)
        ultimately show ?thesis using p(2) q val
          by (intro exI [of _ True] exI [of _ value_type] exI [of _ ?d]) (auto simp: collected_def ValueType_Value)
      next
        case False
        have "\<not> shown ucmp s kvs q"
          using newest_iff [OF assms(1) ql] True q(1) False x(2) by (auto simp: shown_def Suc_le_eq)
        moreover have "\<not> shown ucmp s kvs i" if "p < i" "i < q" for i
          using q(7) that by (simp add: shown_def newest_def Suc_le_eq)
        ultimately have "\<forall>i. p < i \<and> i \<le> t \<longrightarrow> \<not> shown ucmp s kvs i" using q(8) by (metis linorder_neqE_nat)
        then show ?thesis by (intro keep) (simp_all add: val q(5) x(1) False)
      qed
    qed
  qed
qed

lemma find_prev:
  assumes "source kvs" and "core s d" and "stands (di_iter d) kvs p" and "p \<le> t" and "t < length kvs"
    and "collects s kvs t (Suc p) value_type d"
  shows "\<exists>value_type' d'. find_prev_loop ucmp ops value_type d = Some (value_type', d') \<and> core s d' \<and>
    di_direction d' = di_direction d \<and> collected s kvs t value_type' d'"
  using assms(2-4,6)
proof (induction p arbitrary: d value_type rule: less_induct)
  case (less p)
  obtain stop value_type' d1 where r: "prev_turn ucmp ops value_type d = Some (stop, value_type', d1)" "core s d1"
    "di_iter d1 = di_iter d" "di_direction d1 = di_direction d"
    "if stop then value_type' = kTypeValue \<and> collected s kvs t value_type' d1 else collects s kvs t p value_type' d1"
    using prev_turn_at [OF assms(1) less.prems(1-3) assms(5) less.prems(4)] by (elim exE conjE)
  have pl: "p < length kvs" using less.prems(3) assms(5) by simp
  show ?case
  proof (cases stop)
    case True
    then have "find_prev_loop ucmp ops value_type d = Some (value_type', d1)"
      by (subst find_prev_loop.simps) (simp add: r(1))
    then show ?thesis using r True by (intro exI [of _ value_type'] exI [of _ d1]) auto
  next
    case False
    then have col: "collects s kvs t p value_type' d1" using r(5) by simp
    obtain it where it: "it_Prev ops (di_iter d1) = Some it" "stands it kvs (if p = 0 then length kvs else p - 1)"
      using internal.stands_prev [OF less.prems(2) pl] r(3) by auto
    let ?d = "d1\<lparr>di_iter := it\<rparr>"
    have c: "core s ?d" using r(2) by simp
    have col': "collects s kvs t p value_type' ?d" using col by (simp add: collects_def)
    show ?thesis
    proof (cases p)
      case 0
      then have st: "stands it kvs (length kvs)" using it(2) by simp
      then have "\<not> it_Valid ops it" using internal.stands_valid by simp
      then have eq: "find_prev_loop ucmp ops value_type d = Some (value_type', ?d)"
        by (subst find_prev_loop.simps) (simp add: r(1) False it(1))
      have "collected s kvs t value_type' ?d"
      proof (cases "value_type' = kTypeDeletion")
        case True
        then show ?thesis using col' 0 st by (auto simp: collects_def collected_def)
      next
        case val: False
        then obtain q where q: "q \<le> t" "sees s kvs q" "pk_type (entry_of kvs q) = kTypeValue"
          "di_saved_key ?d = ukey kvs q" "di_saved_value ?d = snd (kvs ! q)" "\<forall>i < q. \<not> sees s kvs i"
          "\<forall>i. q < i \<and> i \<le> t \<longrightarrow> \<not> shown ucmp s kvs i" using col' 0 by (auto simp: collects_def)
        have "shown ucmp s kvs q" using q(1-3,6) newest_iff [OF assms(1), of q] assms(5) by (simp add: shown_def)
        moreover have "gap s ?d kvs q" using st q(6) by (auto simp: gap_def)
        ultimately show ?thesis using q unfolding collected_def if_not_P [OF val] by (intro exI [of _ q]) simp
      qed
      then show ?thesis using eq c r(4) by (intro exI conjI) auto
    next
      case (Suc m)
      then have st: "stands (di_iter ?d) kvs m" using it(2) by simp
      then have "it_Valid ops it" using internal.stands_valid [OF st] Suc pl by simp
      then have eq: "find_prev_loop ucmp ops value_type d = find_prev_loop ucmp ops value_type' ?d"
        by (subst find_prev_loop.simps) (simp add: r(1) False it(1))
      have "m < p" "m \<le> t" "collects s kvs t (Suc m) value_type' ?d" using Suc less.prems(3) col' by simp_all
      from less.IH [OF this(1) c st this(2,3)] show ?thesis unfolding eq using r(4) by simp
    qed
  qed
qed

end

context db_source
begin

subsection \<open>The iterator as a position in the view\<close>

abbreviation view :: "64 word \<Rightarrow> (slice \<times> slice) list \<Rightarrow> (slice \<times> slice) list" where
  "view s kvs \<equiv> db_view ucmp s kvs"

abbreviation pos :: "64 word \<Rightarrow> (slice \<times> slice) list \<Rightarrow> nat \<Rightarrow> nat" where
  "pos s kvs \<equiv> rank (shown ucmp s kvs)"

text \<open>Standing on a shown entry: in forward direction the internal iterator is there, in reverse
  direction the entry is saved and the iterator is before everything seen of its key.\<close>

definition standing :: "64 word \<Rightarrow> 'i DBIter \<Rightarrow> (slice \<times> slice) list \<Rightarrow> nat \<Rightarrow> bool" where
  "standing s d kvs q \<longleftrightarrow> q < length kvs \<and> shown ucmp s kvs q \<and> di_valid d \<and>
     (if di_direction d = dbForward then stands (di_iter d) kvs q
      else di_saved_key d = ukey kvs q \<and> di_saved_value d = snd (kvs ! q) \<and> gap s d kvs q)"

definition db_at :: "64 word \<Rightarrow> 'i DBIter \<Rightarrow> (slice \<times> slice) list \<Rightarrow> nat \<Rightarrow> bool" where
  "db_at s d kvs n \<longleftrightarrow> source kvs \<and> core s d \<and>
     ((\<exists>q. standing s d kvs q \<and> n = pos s kvs q) \<or> n = length (view s kvs) \<and> \<not> di_valid d \<and> (\<exists>p. stands (di_iter d) kvs p))"

lemma length_view: "length (view s kvs) = pos s kvs (length kvs)"
  by (simp add: db_view_def rank_total)

lemma view_nth:
  assumes "q < length kvs" and "shown ucmp s kvs q"
  shows "pos s kvs q < length (view s kvs)" and "view s kvs ! pos s kvs q = (ukey kvs q, snd (kvs ! q))"
  using rank_nth [of "shown ucmp s kvs", OF assms(2,1)] by (simp_all add: db_view_def)

lemma db_at_stands:
  assumes "db_at s d kvs n" obtains p where "stands (di_iter d) kvs p" and "source kvs" and "core s d"
  using assms by (auto simp: db_at_def standing_def gap_def split: if_splits)

lemma view_sorted:
  assumes "source kvs" shows "sorted_wrt ult (map fst (view s kvs))"
proof -
  have "sorted_wrt (\<lambda>i j. ult (ukey kvs i) (ukey kvs j)) (filter (shown ucmp s kvs) [0..<length kvs])"
  proof (rule sorted_wrt_mono_rel [of _ "\<lambda>i j. i < j"])
    fix i j
    assume "i \<in> set (filter (shown ucmp s kvs) [0..<length kvs])" "j \<in> set (filter (shown ucmp s kvs) [0..<length kvs])" "i < j"
    then show "ult (ukey kvs i) (ukey kvs j)" using newest_iff [OF assms, of j s] by (auto simp: shown_def newest_def)
  qed (simp add: sorted_wrt_filter)
  then show ?thesis by (simp add: db_view_def sorted_wrt_map o_def)
qed

lemma view_good:
  assumes "source kvs" and "k \<in> fst ` set (view s kvs)" shows "ugood k"
  using assms(2) entry_form(4) [OF assms(1)] by (auto simp: db_view_def)

text \<open>Both searches lead to positions of the view.\<close>

lemma find_next_at:
  assumes "source kvs" and "core s d" and "stands (di_iter d) kvs p" and "p < length kvs" and "skipping \<longrightarrow> ugood (di_saved_key d)"
    and "\<forall>i. p \<le> i \<and> i < length kvs \<and> sees s kvs i \<longrightarrow>
      (hides skipping (di_saved_key d) (ukey kvs i) \<longleftrightarrow> (\<exists>j < p. sees s kvs j \<and> \<not> ult (ukey kvs j) (ukey kvs i)))"
    and "di_direction d = dbForward"
  shows "\<exists>d'. FindNextUserEntry ucmp ops skipping d = Some d' \<and> db_at s d' kvs (pos s kvs p)"
proof -
  have v: "it_Valid ops (di_iter d)" using internal.stands_valid [OF assms(3)] assms(4) by simp
  obtain d' where d': "find_next_loop ucmp ops skipping d = Some d'" "core s d'" "di_direction d' = di_direction d" and
    r: "(\<exists>q. p \<le> q \<and> q < length kvs \<and> stands (di_iter d') kvs q \<and> shown ucmp s kvs q \<and>
       (\<forall>i. p \<le> i \<and> i < q \<longrightarrow> \<not> shown ucmp s kvs i) \<and> di_valid d') \<or>
     stands (di_iter d') kvs (length kvs) \<and> (\<forall>i. p \<le> i \<and> i < length kvs \<longrightarrow> \<not> shown ucmp s kvs i) \<and> \<not> di_valid d'"
    using find_next [OF assms(1-6)] by (elim exE conjE)
  from r have "db_at s d' kvs (pos s kvs p)"
  proof
    assume "\<exists>q. p \<le> q \<and> q < length kvs \<and> stands (di_iter d') kvs q \<and> shown ucmp s kvs q \<and>
       (\<forall>i. p \<le> i \<and> i < q \<longrightarrow> \<not> shown ucmp s kvs i) \<and> di_valid d'"
    then obtain q where q: "p \<le> q" "q < length kvs" "stands (di_iter d') kvs q" "shown ucmp s kvs q"
      "\<forall>i. p \<le> i \<and> i < q \<longrightarrow> \<not> shown ucmp s kvs i" "di_valid d'" by (elim exE conjE)
    have "pos s kvs p = pos s kvs q" by (rule rank_skip [symmetric]) (use q in auto)
    moreover have "standing s d' kvs q" using q d'(3) assms(7) by (simp add: standing_def)
    ultimately show ?thesis using assms(1) d'(2) unfolding db_at_def by (intro conjI disjI1 exI) simp_all
  next
    assume e: "stands (di_iter d') kvs (length kvs) \<and> (\<forall>i. p \<le> i \<and> i < length kvs \<longrightarrow> \<not> shown ucmp s kvs i) \<and> \<not> di_valid d'"
    have "pos s kvs (length kvs) = pos s kvs p" by (rule rank_skip) (use e assms(4) in auto)
    then show ?thesis using assms(1) d'(2) e unfolding db_at_def length_view by (intro conjI disjI2) auto
  qed
  then show ?thesis using d'(1) v assms(7) by (simp add: FindNextUserEntry_def)
qed

lemma find_prev_at:
  assumes "source kvs" and "core s d" and "stands (di_iter d) kvs p" and "p < length kvs" and "di_direction d = dbReverse"
  shows "\<exists>d'. FindPrevUserEntry ucmp ops d = Some d' \<and>
    db_at s d' kvs (if pos s kvs (Suc p) = 0 then length (view s kvs) else pos s kvs (Suc p) - 1)"
proof -
  have v: "it_Valid ops (di_iter d)" using internal.stands_valid [OF assms(3)] assms(4) by simp
  have "collects s kvs p (Suc p) kTypeDeletion d" by (auto simp: collects_def)
  from find_prev [OF assms(1-3) order_refl assms(4) this] obtain ty d' where
    d': "find_prev_loop ucmp ops kTypeDeletion d = Some (ty, d')" "core s d'" "di_direction d' = di_direction d" "collected s kvs p ty d'"
    by (elim exE conjE)
  show ?thesis
  proof (cases "ty = kTypeDeletion")
    case True
    let ?d = "ClearSavedValue (d'\<lparr>di_valid := False, di_saved_key := [], di_direction := dbForward\<rparr>)"
    have c: "\<forall>i \<le> p. \<not> shown ucmp s kvs i" "\<exists>p. stands (di_iter d') kvs p" using d'(4) True by (simp_all add: collected_def)
    have z: "pos s kvs (Suc p) = pos s kvs 0" by (rule rank_skip) (use c in auto)
    have "FindPrevUserEntry ucmp ops d = Some ?d" by (simp add: FindPrevUserEntry_def assms(5) v d'(1) True)
    moreover have "core s ?d" using d'(2) by simp
    ultimately show ?thesis using assms(1) c(2) z
      by (intro exI [of _ ?d]) (simp add: db_at_def ClearSavedValue_def)
  next
    case False
    then obtain q where q: "q \<le> p" "shown ucmp s kvs q" "di_saved_key d' = ukey kvs q" "di_saved_value d' = snd (kvs ! q)"
      "\<forall>i. q < i \<and> i \<le> p \<longrightarrow> \<not> shown ucmp s kvs i" "gap s d' kvs q" using d'(4) by (auto simp: collected_def)
    let ?d = "d'\<lparr>di_valid := True\<rparr>"
    have "pos s kvs (Suc p) = pos s kvs (Suc q)" by (rule rank_skip) (use q in auto)
    then have z: "pos s kvs (Suc p) = Suc (pos s kvs q)" using q(2) by (simp add: rank_Suc)
    have "FindPrevUserEntry ucmp ops d = Some ?d" using False by (simp add: FindPrevUserEntry_def assms(5) v d'(1))
    moreover have "core s ?d" using d'(2) by simp
    moreover have "standing s ?d kvs q" using q d'(3) assms(4,5) by (simp add: standing_def gap_def)
    ultimately show ?thesis using assms(1) z by (intro exI [of _ ?d]) (auto simp: db_at_def)
  qed
qed

lemma find_prev_end:
  assumes "source kvs" and "core s d" and "stands (di_iter d) kvs (length kvs)" and "di_direction d = dbReverse"
  shows "\<exists>d'. FindPrevUserEntry ucmp ops d = Some d' \<and> db_at s d' kvs (length (view s kvs))"
proof -
  have "\<not> it_Valid ops (di_iter d)" using internal.stands_valid [OF assms(3)] by simp
  then show ?thesis using assms by (auto simp: FindPrevUserEntry_def db_at_def ClearSavedValue_def core_def sampling_ok_def)
qed

end

context db_source
begin

text \<open>Entries that are not seen, or hidden by the saved key, are passed over.\<close>

lemma find_next_skip:
  assumes "source kvs" and "core s d" and "stands (di_iter d) kvs p" and "p < length kvs" and "p \<le> p'" and "p' \<le> length kvs"
    and "skipping \<longrightarrow> ugood (di_saved_key d)"
    and "\<forall>i. p \<le> i \<and> i < p' \<longrightarrow> \<not> sees s kvs i \<or>
      pk_type (entry_of kvs i) = kTypeValue \<and> hides skipping (di_saved_key d) (ukey kvs i)"
  shows "\<exists>d1. core s d1 \<and> stands (di_iter d1) kvs p' \<and> di_direction d1 = di_direction d \<and>
    (if p' < length kvs then find_next_loop ucmp ops skipping d = find_next_loop ucmp ops skipping d1 \<and> di_saved_key d1 = di_saved_key d
     else find_next_loop ucmp ops skipping d = Some d1 \<and> \<not> di_valid d1)"
  using assms(2-5,7,8)
proof (induction "p' - p" arbitrary: p d)
  case 0
  then have "p' = p" by simp
  then show ?case using 0 by (intro exI [of _ d]) simp
next
  case (Suc n)
  then have lt: "p < p'" by simp
  obtain found skipping' d1 where t: "next_turn ucmp ops skipping d = Some (found, skipping', d1)" "core s d1"
      "di_iter d1 = di_iter d" "di_direction d1 = di_direction d" and
    r: "if \<not> sees s kvs p then \<not> found \<and> skipping' = skipping \<and> di_saved_key d1 = di_saved_key d
     else if pk_type (entry_of kvs p) = kTypeDeletion then \<not> found \<and> skipping' \<and> di_saved_key d1 = ukey kvs p
     else if hides skipping (di_saved_key d) (ukey kvs p)
       then \<not> found \<and> skipping' = skipping \<and> di_saved_key d1 = di_saved_key d
     else found \<and> di_valid d1"
    using next_turn_at [OF assms(1) Suc.prems(1-3,5)] by (elim exE conjE)
  have r': "\<not> found" "skipping' = skipping" "di_saved_key d1 = di_saved_key d"
    using r Suc.prems(6) [rule_format, of p] lt by (auto split: if_splits)
  obtain it where it: "it_Next ops (di_iter d1) = Some it" "stands it kvs (Suc p)"
    using internal.stands_next [OF Suc.prems(2,3)] t(3) by auto
  let ?d = "d1\<lparr>di_iter := it\<rparr>"
  show ?case
  proof (cases "Suc p < length kvs")
    case F: False
    then have n: "p' = length kvs" "Suc p = length kvs" using Suc.prems(3) lt assms(6) by simp_all
    have "\<not> it_Valid ops it" using internal.stands_valid [OF it(2)] F by simp
    then have "find_next_loop ucmp ops skipping d = Some (?d\<lparr>di_saved_key := [], di_valid := False\<rparr>)"
      by (subst find_next_loop.simps) (simp add: t(1) r' it(1))
    then show ?thesis using t(2,4) it(2) n
      by (intro exI [of _ "?d\<lparr>di_saved_key := [], di_valid := False\<rparr>"]) (simp add: core_def sampling_ok_def)
  next
    case True
    then have "it_Valid ops it" using internal.stands_valid [OF it(2)] by simp
    then have eq: "find_next_loop ucmp ops skipping d = find_next_loop ucmp ops skipping ?d"
      by (subst find_next_loop.simps) (simp add: t(1) r' it(1))
    have e: "di_direction ?d = di_direction d" "di_saved_key ?d = di_saved_key d" using t(4) r'(3) by simp_all
    have "n = p' - Suc p" "core s ?d" "stands (di_iter ?d) kvs (Suc p)" "Suc p \<le> p'" "skipping \<longrightarrow> ugood (di_saved_key ?d)"
      "\<forall>i. Suc p \<le> i \<and> i < p' \<longrightarrow> \<not> sees s kvs i \<or>
        pk_type (entry_of kvs i) = kTypeValue \<and> hides skipping (di_saved_key ?d) (ukey kvs i)"
      using Suc.hyps(2) t(2) it(2) lt Suc.prems(5,6) r'(3) by (auto simp: core_def sampling_ok_def)
    from Suc.hyps(1) [OF this(1-3) True this(4-6)] show ?thesis unfolding eq e .
  qed
qed

lemma next_after:
  assumes "source kvs" and "core s d" and "stands (di_iter d) kvs p" and "p \<le> q" and "q < length kvs" and "shown ucmp s kvs q"
    and "\<forall>i. p \<le> i \<and> i < q \<longrightarrow> \<not> sees s kvs i" and "di_saved_key d = ukey kvs q" and "di_direction d = dbForward"
  shows "\<exists>d'. FindNextUserEntry ucmp ops True d = Some d' \<and> db_at s d' kvs (Suc (pos s kvs q))"
proof -
  have pl: "p < length kvs" using assms(4,5) by simp
  have g: "ugood (ukey kvs i)" if "i < length kvs" for i by (rule entry_form(4) [OF assms(1) that])
  have h: "hides True (di_saved_key d) u \<longleftrightarrow> \<not> ult (ukey kvs q) u" for u by (simp add: hides_def assms(8))
  have "\<forall>i. p \<le> i \<and> i < Suc q \<longrightarrow> \<not> sees s kvs i \<or>
      pk_type (entry_of kvs i) = kTypeValue \<and> hides True (di_saved_key d) (ukey kvs i)"
    using assms(6,7) user.lt_irrefl [OF g [OF assms(5)]] unfolding h by (auto simp: less_Suc_eq shown_def)
  moreover have "True \<longrightarrow> ugood (di_saved_key d)" using assms(8) g [OF assms(5)] by simp
  moreover have "p \<le> Suc q" "Suc q \<le> length kvs" using assms(4,5) by simp_all
  ultimately obtain d1 where d1: "core s d1" "stands (di_iter d1) kvs (Suc q)" "di_direction d1 = di_direction d"
    "if Suc q < length kvs then find_next_loop ucmp ops True d = find_next_loop ucmp ops True d1 \<and> di_saved_key d1 = di_saved_key d
     else find_next_loop ucmp ops True d = Some d1 \<and> \<not> di_valid d1"
    using find_next_skip [OF assms(1-3) pl, of "Suc q" True] by blast
  have v: "it_Valid ops (di_iter d)" using internal.stands_valid [OF assms(3)] pl by simp
  have z: "pos s kvs (Suc q) = Suc (pos s kvs q)" using assms(6) by (simp add: rank_Suc)
  show ?thesis
  proof (cases "Suc q < length kvs")
    case False
    then have "length kvs = Suc q" using assms(5) by simp
    then have "db_at s d1 kvs (Suc (pos s kvs q))" using assms(1) d1 z False
      unfolding db_at_def length_view by (intro conjI disjI2) auto
    then show ?thesis using d1(4) False v assms(9) by (simp add: FindNextUserEntry_def)
  next
    case True
    have v1: "it_Valid ops (di_iter d1)" using internal.stands_valid [OF d1(2)] True by simp
    have sk: "True \<longrightarrow> ugood (di_saved_key d1)" using d1(4) True assms(8) g [OF assms(5)] by simp
    have "hides True (di_saved_key d1) (ukey kvs i) \<longleftrightarrow> (\<exists>j < Suc q. sees s kvs j \<and> \<not> ult (ukey kvs j) (ukey kvs i))"
      if i: "Suc q \<le> i" "i < length kvs" "sees s kvs i" for i
    proof -
      have up: "ult (ukey kvs q) (ukey kvs i) \<Longrightarrow> ult (ukey kvs j) (ukey kvs i)" if "j < q" for j
        using user.le_lt_trans [OF g g g ukey_mono [OF assms(1)]] that i assms(5) by (meson less_imp_le less_trans)
      have "hides True (di_saved_key d1) (ukey kvs i) \<longleftrightarrow> \<not> ult (ukey kvs q) (ukey kvs i)" using d1(4) True h by simp
      then show ?thesis using up assms(6) by (auto simp: less_Suc_eq shown_def newest_def)
    qed
    then have "\<forall>i. Suc q \<le> i \<and> i < length kvs \<and> sees s kvs i \<longrightarrow>
      (hides True (di_saved_key d1) (ukey kvs i) \<longleftrightarrow> (\<exists>j < Suc q. sees s kvs j \<and> \<not> ult (ukey kvs j) (ukey kvs i)))" by blast
    moreover have "di_direction d1 = dbForward" using d1(3) assms(9) by simp
    ultimately have "\<exists>d'. FindNextUserEntry ucmp ops True d1 = Some d' \<and> db_at s d' kvs (pos s kvs (Suc q))"
      using find_next_at [OF assms(1) d1(1,2) True sk] by blast
    moreover have "FindNextUserEntry ucmp ops True d = FindNextUserEntry ucmp ops True d1"
      using d1(3,4) True v v1 assms(9) by (simp add: FindNextUserEntry_def)
    ultimately show ?thesis using z by simp
  qed
qed

text \<open>The steps of the iterator.\<close>

lemma db_position:
  assumes "db_at s d kvs n" and "n < length (view s kvs)"
  obtains q where "standing s d kvs q" and "n = pos s kvs q"
  using assms by (auto simp: db_at_def)

lemma db_next:
  assumes "db_at s d kvs n" and "n < length (view s kvs)"
  shows "\<exists>d'. DBIter_Next ucmp ops d = Some d' \<and> db_at s d' kvs (Suc n)"
proof -
  obtain q where q: "standing s d kvs q" "n = pos s kvs q" using db_position [OF assms] .
  have src: "source kvs" and c: "core s d" using assms(1) by (simp_all add: db_at_def)
  have ql: "q < length kvs" "shown ucmp s kvs q" "di_valid d" using q(1) by (simp_all add: standing_def)
  show ?thesis
  proof (cases "di_direction d = dbForward")
    case True
    then have st: "stands (di_iter d) kvs q" using q(1) by (simp add: standing_def)
    let ?d = "SaveKey (ukey kvs q) d"
    have "\<exists>d'. FindNextUserEntry ucmp ops True ?d = Some d' \<and> db_at s d' kvs (Suc n)"
      unfolding q(2) by (rule next_after [OF src _ _ order_refl ql(1,2)]) (use c st True in \<open>auto simp: SaveKey_def\<close>)
    moreover have "DBIter_Next ucmp ops d = FindNextUserEntry ucmp ops True ?d"
      using True ql(3) by (simp add: DBIter_Next_def internal.stands_key [OF st ql(1)] entry_form(5) [OF src ql(1)])
    ultimately show ?thesis by simp
  next
    case False
    then have rev: "di_direction d = dbReverse" by (cases "di_direction d") simp_all
    obtain p where p: "stands (di_iter d) kvs p"
      "p = length kvs \<and> (\<forall>i < q. \<not> sees s kvs i) \<or> p < q \<and> (\<forall>i. p < i \<and> i < q \<longrightarrow> \<not> sees s kvs i)"
      using q(1) False by (auto simp: standing_def gap_def)
    have saved: "di_saved_key d = ukey kvs q" using q(1) False by (simp add: standing_def)
    obtain it p' where it: "(if \<not> it_Valid ops (di_iter d) then it_SeekToFirst ops (di_iter d) else it_Next ops (di_iter d)) = Some it"
      "stands it kvs p'" "p' \<le> q" "\<forall>i. p' \<le> i \<and> i < q \<longrightarrow> \<not> sees s kvs i"
    proof (cases "p < length kvs")
      case True
      then obtain it where "it_Next ops (di_iter d) = Some it" "stands it kvs (Suc p)"
        using internal.stands_next [OF p(1)] by blast
      then show ?thesis using that [of it "Suc p"] p(2) True internal.stands_valid [OF p(1)] by (simp add: Suc_le_eq)
    next
      case F: False
      then obtain it where "it_SeekToFirst ops (di_iter d) = Some it" "stands it kvs 0"
        using internal.stands_first [OF p(1)] by blast
      then show ?thesis using that [of it 0] p(2) F ql(1) internal.stands_valid [OF p(1)] by auto
    qed
    let ?d = "d\<lparr>di_direction := dbForward, di_iter := it\<rparr>"
    have v: "it_Valid ops it" using internal.stands_valid [OF it(2)] it(3) ql(1) by simp
    have "\<exists>d'. FindNextUserEntry ucmp ops True ?d = Some d' \<and> db_at s d' kvs (Suc n)"
      unfolding q(2) by (rule next_after [OF src _ _ it(3) ql(1,2) it(4)]) (use c it(2) saved in simp_all)
    moreover have "DBIter_Next ucmp ops d = FindNextUserEntry ucmp ops True ?d"
      using rev ql(3) it(1) v by (simp add: DBIter_Next_def Let_def)
    ultimately show ?thesis by simp
  qed
qed

end

context db_source
begin

lemma prev_user_key_at:
  assumes "source kvs" and "core s d" and "stands (di_iter d) kvs p" and "p < length kvs" and "ugood (di_saved_key d)"
  shows "\<exists>found d'. prev_user_key ucmp ops d = Some (found, d') \<and> core s d' \<and> di_direction d' = di_direction d \<and>
    (if found then \<exists>p' < p. stands (di_iter d') kvs p' \<and> (\<forall>i. p' < i \<and> i < p \<longrightarrow> \<not> ult (ukey kvs i) (di_saved_key d))
     else stands (di_iter d') kvs (length kvs) \<and> \<not> di_valid d' \<and> (\<forall>i < p. \<not> ult (ukey kvs i) (di_saved_key d)))"
  using assms(2-)
proof (induction p arbitrary: d)
  case 0
  obtain it where it: "it_Prev ops (di_iter d) = Some it" "stands it kvs (length kvs)"
    using internal.stands_prev [OF 0(2,3)] by auto
  let ?d = "ClearSavedValue (d\<lparr>di_iter := it, di_valid := False, di_saved_key := []\<rparr>)"
  have "\<not> it_Valid ops it" using internal.stands_valid [OF it(2)] by simp
  then have "prev_user_key ucmp ops d = Some (False, ?d)" by (subst prev_user_key.simps) (simp add: it(1))
  then show ?case using 0(1) it(2)
    by (intro exI [of _ False] exI [of _ ?d]) (simp, simp add: ClearSavedValue_def)
next
  case (Suc p)
  obtain it where it: "it_Prev ops (di_iter d) = Some it" "stands it kvs p"
    using internal.stands_prev [OF Suc.prems(2,3)] by auto
  let ?d = "d\<lparr>di_iter := it\<rparr>"
  have pl: "p < length kvs" using Suc.prems(3) by simp
  have v: "it_Valid ops it" using internal.stands_valid [OF it(2)] pl by simp
  obtain c where c: "ucmp (ukey kvs p) (di_saved_key d) = Some c" "c < 0 \<longleftrightarrow> ult (ukey kvs p) (di_saved_key d)"
    using cmp_le [OF entry_form(4) [OF assms(1) pl] Suc.prems(4)] by blast
  have eq: "prev_user_key ucmp ops d = (if c < 0 then Some (True, ?d) else prev_user_key ucmp ops ?d)"
    by (subst prev_user_key.simps)
      (simp add: it(1) v internal.stands_key [OF it(2) pl] entry_form(5) [OF assms(1) pl] c(1))
  show ?case
  proof (cases "c < 0")
    case True
    then show ?thesis using eq Suc.prems(1) it(2)
      by (intro exI [of _ True] exI [of _ ?d]) (simp, intro exI [of _ p], auto)
  next
    case False
    have e: "di_saved_key ?d = di_saved_key d" "di_direction ?d = di_direction d" by simp_all
    have "core s ?d" "stands (di_iter ?d) kvs p" "ugood (di_saved_key ?d)" using Suc.prems(1,4) it(2) by simp_all
    from Suc.IH [OF this(1,2) pl this(3), unfolded e] obtain found d' where
      d': "prev_user_key ucmp ops ?d = Some (found, d')" "core s d'" "di_direction d' = di_direction d"
      "if found then \<exists>p' < p. stands (di_iter d') kvs p' \<and> (\<forall>i. p' < i \<and> i < p \<longrightarrow> \<not> ult (ukey kvs i) (di_saved_key d))
       else stands (di_iter d') kvs (length kvs) \<and> \<not> di_valid d' \<and> (\<forall>i < p. \<not> ult (ukey kvs i) (di_saved_key d))"
      by (elim exE conjE)
    have np: "\<not> ult (ukey kvs p) (di_saved_key d)" using False c(2) by simp
    have "prev_user_key ucmp ops d = Some (found, d')" using eq False d'(1) by simp
    moreover have "if found then \<exists>p' < Suc p. stands (di_iter d') kvs p' \<and> (\<forall>i. p' < i \<and> i < Suc p \<longrightarrow> \<not> ult (ukey kvs i) (di_saved_key d))
       else stands (di_iter d') kvs (length kvs) \<and> \<not> di_valid d' \<and> (\<forall>i < Suc p. \<not> ult (ukey kvs i) (di_saved_key d))"
      using d'(4) np by (cases found) (auto simp: less_Suc_eq)
    ultimately show ?thesis using d'(2,3) by (intro exI conjI)
  qed
qed

lemma db_prev:
  assumes "db_at s d kvs n" and "n < length (view s kvs)"
  shows "\<exists>d'. DBIter_Prev ucmp ops d = Some d' \<and> db_at s d' kvs (if n = 0 then length (view s kvs) else n - 1)"
proof -
  obtain q where q: "standing s d kvs q" "n = pos s kvs q" using db_position [OF assms] .
  have src: "source kvs" and c: "core s d" using assms(1) by (simp_all add: db_at_def)
  have ql: "q < length kvs" "shown ucmp s kvs q" "di_valid d" using q(1) by (simp_all add: standing_def)
  have g: "ugood (ukey kvs q)" by (rule entry_form(4) [OF src ql(1)])
  show ?thesis
  proof (cases "di_direction d = dbForward")
    case True
    then have st: "stands (di_iter d) kvs q" using q(1) by (simp add: standing_def)
    let ?d = "SaveKey (ukey kvs q) d"
    have sk: "di_saved_key ?d = ukey kvs q" by (simp add: SaveKey_def)
    have "core s ?d" "stands (di_iter ?d) kvs q" "ugood (di_saved_key ?d)" using c st g by (simp_all add: SaveKey_def)
    from prev_user_key_at [OF src this(1,2) ql(1) this(3), unfolded sk] obtain found d' where
      d': "prev_user_key ucmp ops ?d = Some (found, d')" "core s d'"
      "if found then \<exists>p' < q. stands (di_iter d') kvs p' \<and> (\<forall>i. p' < i \<and> i < q \<longrightarrow> \<not> ult (ukey kvs i) (ukey kvs q))
       else stands (di_iter d') kvs (length kvs) \<and> \<not> di_valid d' \<and> (\<forall>i < q. \<not> ult (ukey kvs i) (ukey kvs q))"
      by (elim exE conjE)
    have nsh: "\<not> shown ucmp s kvs i" if "i < q" "\<not> ult (ukey kvs i) (ukey kvs q)" for i
      using newest_iff [OF src ql(1)] ql(2) that by (auto simp: shown_def newest_def)
    have eq: "DBIter_Prev ucmp ops d = (if found then FindPrevUserEntry ucmp ops (d'\<lparr>di_direction := dbReverse\<rparr>) else Some d')"
      using True ql(3) internal.stands_valid [OF st] ql(1)
      by (simp add: DBIter_Prev_def internal.stands_key [OF st ql(1)] entry_form(5) [OF src ql(1)] d'(1))
    show ?thesis
    proof (cases found)
      case F: True
      then obtain p' where p': "p' < q" "stands (di_iter d') kvs p'"
        "\<forall>i. p' < i \<and> i < q \<longrightarrow> \<not> ult (ukey kvs i) (ukey kvs q)" using d'(3) by auto
      have "pos s kvs q = pos s kvs (Suc p')" by (rule rank_skip) (use p' nsh in auto)
      moreover have "\<exists>d''. FindPrevUserEntry ucmp ops (d'\<lparr>di_direction := dbReverse\<rparr>) = Some d'' \<and>
          db_at s d'' kvs (if pos s kvs (Suc p') = 0 then length (view s kvs) else pos s kvs (Suc p') - 1)"
        by (rule find_prev_at [OF src]) (use d'(2) p' ql(1) in simp_all)
      ultimately show ?thesis unfolding eq q(2) by (simp only: F if_True)
    next
      case F: False
      then have e: "stands (di_iter d') kvs (length kvs)" "\<not> di_valid d'" "\<forall>i < q. \<not> ult (ukey kvs i) (ukey kvs q)"
        using d'(3) by auto
      have "pos s kvs q = pos s kvs 0" by (rule rank_skip) (use e nsh in auto)
      then show ?thesis unfolding eq q(2) using F e src d'(2) by (auto simp: db_at_def)
    qed
  next
    case False
    then have rev: "di_direction d = dbReverse" by (cases "di_direction d") simp_all
    obtain p where p: "stands (di_iter d) kvs p"
      "p = length kvs \<and> (\<forall>i < q. \<not> sees s kvs i) \<or> p < q \<and> (\<forall>i. p < i \<and> i < q \<longrightarrow> \<not> sees s kvs i)"
      using q(1) False by (auto simp: standing_def gap_def)
    have eq: "DBIter_Prev ucmp ops d = FindPrevUserEntry ucmp ops d" using rev ql(3) by (simp add: DBIter_Prev_def)
    have nsh: "\<not> shown ucmp s kvs i" if "\<not> sees s kvs i" for i using that by (simp add: shown_def newest_def)
    show ?thesis
    proof (cases "p = length kvs")
      case True
      then have "\<forall>i < q. \<not> sees s kvs i" using p(2) ql(1) by auto
      then have "pos s kvs q = pos s kvs 0" by (intro rank_skip) (auto simp: nsh)
      then show ?thesis unfolding eq q(2) using find_prev_end [OF src c _ rev] p(1) True by simp
    next
      case False
      then have pq: "p < q" "\<forall>i. p < i \<and> i < q \<longrightarrow> \<not> sees s kvs i" using p(2) by auto
      have pos: "pos s kvs q = pos s kvs (Suc p)" by (rule rank_skip) (use pq nsh in auto)
      have "p < length kvs" using pq(1) ql(1) by simp
      note at = find_prev_at [OF src c p(1) this rev]
      show ?thesis unfolding eq q(2) pos by (rule at)
    qed
  qed
qed

lemma db_first:
  assumes "db_at s d kvs n" shows "\<exists>d'. DBIter_SeekToFirst ucmp ops d = Some d' \<and> db_at s d' kvs 0"
proof -
  obtain p where p: "stands (di_iter d) kvs p" "source kvs" "core s d" by (rule db_at_stands [OF assms])
  obtain it where it: "it_SeekToFirst ops (di_iter d) = Some it" "stands it kvs 0" using internal.stands_first [OF p(1)] by blast
  let ?d = "(ClearSavedValue (d\<lparr>di_direction := dbForward\<rparr>))\<lparr>di_iter := it\<rparr>"
  have c: "core s ?d" using p(3) by simp
  have sel: "di_iter (ClearSavedValue (d\<lparr>di_direction := dbForward\<rparr>)) = di_iter d" by (simp add: ClearSavedValue_def)
  show ?thesis
  proof (cases "kvs = []")
    case True
    then have "\<not> it_Valid ops it" using internal.stands_valid [OF it(2)] by simp
    then have "DBIter_SeekToFirst ucmp ops d = Some (?d\<lparr>di_valid := False\<rparr>)" by (simp add: DBIter_SeekToFirst_def sel it(1))
    moreover have "db_at s (?d\<lparr>di_valid := False\<rparr>) kvs 0" using p(2) c it(2) True by (auto simp: db_at_def db_view_def)
    ultimately show ?thesis by blast
  next
    case False
    then have v: "it_Valid ops it" using internal.stands_valid [OF it(2)] by simp
    then have eq: "DBIter_SeekToFirst ucmp ops d = FindNextUserEntry ucmp ops False ?d" by (simp add: DBIter_SeekToFirst_def sel it(1))
    have "\<exists>d'. FindNextUserEntry ucmp ops False ?d = Some d' \<and> db_at s d' kvs (pos s kvs 0)"
      by (rule find_next_at [OF p(2) c]) (use it(2) False in \<open>simp_all add: hides_def ClearSavedValue_def\<close>)
    then show ?thesis unfolding eq by simp
  qed
qed

lemma db_last:
  assumes "db_at s d kvs n" shows "\<exists>d'. DBIter_SeekToLast ucmp ops d = Some d' \<and> db_at s d' kvs (length (view s kvs) - 1)"
proof -
  obtain p where p: "stands (di_iter d) kvs p" "source kvs" "core s d" by (rule db_at_stands [OF assms])
  obtain it where it: "it_SeekToLast ops (di_iter d) = Some it" "stands it kvs (length kvs - 1)" using internal.stands_last [OF p(1)] by blast
  let ?d = "(ClearSavedValue (d\<lparr>di_direction := dbReverse\<rparr>))\<lparr>di_iter := it\<rparr>"
  have c: "core s ?d" and dir: "di_direction ?d = dbReverse" and st: "stands (di_iter ?d) kvs (length kvs - 1)"
    using p(3) it(2) by (simp_all add: ClearSavedValue_def)
  have eq: "DBIter_SeekToLast ucmp ops d = FindPrevUserEntry ucmp ops ?d"
    by (simp add: DBIter_SeekToLast_def ClearSavedValue_def it(1))
  show ?thesis
  proof (cases "kvs = []")
    case True
    then have "stands (di_iter ?d) kvs (length kvs)" "view s kvs = []" using st by (simp_all add: db_view_def)
    then show ?thesis unfolding eq using find_prev_end [OF p(2) c _ dir] by simp
  next
    case False
    then have "length kvs - 1 < length kvs" "Suc (length kvs - 1) = length kvs" by simp_all
    then show ?thesis unfolding eq using find_prev_at [OF p(2) c st _ dir] by (simp add: length_view split: if_splits)
  qed
qed

text \<open>A search for the user key at the snapshot stands before the first entry of a key not less.\<close>

lemma seek_entry:
  assumes "source kvs" and "s \<le> kMaxSequenceNumber" and "ugood target"
  shows "i < seek_pos internal.lt kvs (mk_ikey target s kValueTypeForSeek) \<Longrightarrow> sees s kvs i \<Longrightarrow> ult (ukey kvs i) target"
    and "seek_pos internal.lt kvs (mk_ikey target s kValueTypeForSeek) \<le> i \<Longrightarrow> i < length kvs \<Longrightarrow> \<not> ult (ukey kvs i) target"
proof -
  let ?k = "mk_ikey target s kValueTypeForSeek" and ?p = "seek_pos internal.lt kvs (mk_ikey target s kValueTypeForSeek)"
  have srt: "sorted_wrt internal.lt (map fst kvs)" and gk: "\<And>k. k \<in> fst ` set kvs \<Longrightarrow> internal_good ugood k"
    using assms(1) by (auto simp: source_def)
  have good: "internal_good ugood ?k" using assms(3) by simp
  have iff: "i < ?p \<longleftrightarrow> ult (ukey kvs i) target \<or>
      user.eqv (ukey kvs i) target \<and> tag_num s kValueTypeForSeek < tag_num (pk_sequence (entry_of kvs i)) (pk_type (entry_of kvs i))"
    if i: "i < length kvs" for i
  proof -
    have gi: "internal_good ugood (fst (kvs ! i))" using gk i by simp
    have f: "ik_user (fst (kvs ! i)) = ukey kvs i"
      "ik_num (fst (kvs ! i)) = tag_num (pk_sequence (entry_of kvs i)) (pk_type (entry_of kvs i))"
      by (subst entry_form(2) [OF assms(1) i], simp)+
    show ?thesis using internal.seek_pos_iff [OF srt gk good i] user.icmp_lt [OF gi good] f by simp
  qed
  show "ult (ukey kvs i) target" if "i < ?p" "sees s kvs i" for i
  proof -
    have i: "i < length kvs" using that(1) seek_pos_le [of internal.lt kvs ?k] by simp
    have "unat s < 2 ^ 56" using assms(2) by (simp add: kMax_bits)
    then have "\<not> tag_num s kValueTypeForSeek < tag_num (pk_sequence (entry_of kvs i)) (pk_type (entry_of kvs i))"
      using tag_num_order [OF _ entry_form(3) [OF assms(1) i]] that(2) vt_code_le [of "pk_type (entry_of kvs i)"]
      by (auto simp: sees_def kValueTypeForSeek_def simp del: vt_code_le)
    then show ?thesis using iff [OF i] that(1) by simp
  qed
  show "\<not> ult (ukey kvs i) target" if "?p \<le> i" "i < length kvs" for i
    using iff [OF that(2)] that(1) by simp
qed

lemma db_seek:
  assumes "db_at s d kvs n" and "ugood target"
  shows "\<exists>d'. DBIter_Seek ucmp ops target d = Some d' \<and> db_at s d' kvs (seek_pos ult (view s kvs) target)"
proof -
  obtain p where p: "stands (di_iter d) kvs p" "source kvs" "core s d" by (rule db_at_stands [OF assms(1)])
  have s: "di_sequence d = s" "s \<le> kMaxSequenceNumber" using p(3) by (simp_all add: core_def)
  let ?k = "mk_ikey target s kValueTypeForSeek"
  let ?p = "seek_pos internal.lt kvs ?k"
  have "internal_good ugood ?k" using assms(2) by simp
  from internal.stands_seek [OF p(1) this] obtain it where it: "it_Seek ops ?k (di_iter d) = Some it" "stands it kvs ?p" by blast
  have k: "AppendInternalKey [] \<lparr>pk_user_key = target, pk_sequence = s, pk_type = kValueTypeForSeek\<rparr> = Some ?k"
    using AppendInternalKey_eq [of "\<lparr>pk_user_key = target, pk_sequence = s, pk_type = kValueTypeForSeek\<rparr>" "[]"] s(2)
    by (simp add: kMax_bits)
  note e = seek_entry [OF p(2) s(2) assms(2)]
  have lp: "?p \<le> length kvs" by (rule seek_pos_le)
  have target: "seek_pos ult (view s kvs) target = pos s kvs ?p"
  proof -
    let ?f = "\<lambda>i. (ukey kvs i, snd (kvs ! i))" and ?P = "\<lambda>(k, _). ult k target"
    have "[0..<length kvs] = [0..<?p] @ [?p..<length kvs]" using lp by (metis le_add_diff_inverse upt_add_eq_append zero_le)
    then have v: "view s kvs = map ?f (filter (shown ucmp s kvs) [0..<?p]) @ map ?f (filter (shown ucmp s kvs) [?p..<length kvs])"
      by (simp add: db_view_def)
    have a: "\<forall>x \<in> set (map ?f (filter (shown ucmp s kvs) [0..<?p])). ?P x" using e(1) by (auto simp: shown_def newest_def)
    have b: "\<forall>x \<in> set (map ?f (filter (shown ucmp s kvs) [?p..<length kvs])). \<not> ?P x" using e(2) by auto
    then have "takeWhile ?P (map ?f (filter (shown ucmp s kvs) [?p..<length kvs])) = []"
      by (cases "map ?f (filter (shown ucmp s kvs) [?p..<length kvs])") (auto simp: takeWhile_eq_Nil_iff)
    then show ?thesis unfolding seek_pos_def [of ult] v using a by (simp add: takeWhile_append rank_def)
  qed
  let ?d = "(ClearSavedValue (d\<lparr>di_direction := dbForward\<rparr>))\<lparr>di_saved_key := ?k, di_iter := it\<rparr>"
  have c: "core s ?d" using p(3) by simp
  have sel: "di_iter (ClearSavedValue (d\<lparr>di_direction := dbForward\<rparr>)) = di_iter d"
    "di_sequence (ClearSavedValue (d\<lparr>di_direction := dbForward\<rparr>)) = s" using s(1) by (simp_all add: ClearSavedValue_def)
  show ?thesis
  proof (cases "?p < length kvs")
    case False
    then have n: "?p = length kvs" using lp by simp
    then have "\<not> it_Valid ops it" using internal.stands_valid [OF it(2)] by simp
    then have "DBIter_Seek ucmp ops target d = Some (?d\<lparr>di_valid := False\<rparr>)" by (simp add: DBIter_Seek_def sel k it(1))
    moreover have "db_at s (?d\<lparr>di_valid := False\<rparr>) kvs (pos s kvs ?p)"
      using p(2) c it(2) unfolding db_at_def n length_view by (intro conjI disjI2) (auto simp: n)
    ultimately show ?thesis unfolding target by blast
  next
    case True
    then have v: "it_Valid ops it" using internal.stands_valid [OF it(2)] by simp
    then have eq: "DBIter_Seek ucmp ops target d = FindNextUserEntry ucmp ops False ?d" by (simp add: DBIter_Seek_def sel k it(1))
    have "ult (ukey kvs j) (ukey kvs i)" if i: "?p \<le> i" "i < length kvs" and j: "j < ?p" "sees s kvs j" for i j
    proof -
      have gs: "ugood (ukey kvs j)" "ugood (ukey kvs i)" using entry_form(4) [OF p(2)] i j lp by simp_all
      have "user.le target (ukey kvs i)" using e(2) [OF i] user.le_not_lt [OF assms(2) gs(2)] by simp
      then show ?thesis using user.lt_le_trans [OF gs(1) assms(2) gs(2) e(1) [OF j]] by simp
    qed
    then have K: "\<forall>i. ?p \<le> i \<and> i < length kvs \<and> sees s kvs i \<longrightarrow>
        (hides False (di_saved_key ?d) (ukey kvs i) \<longleftrightarrow> (\<exists>j < ?p. sees s kvs j \<and> \<not> ult (ukey kvs j) (ukey kvs i)))"
      by (auto simp: hides_def)
    have "\<exists>d'. FindNextUserEntry ucmp ops False ?d = Some d' \<and> db_at s d' kvs (pos s kvs ?p)"
      by (rule find_next_at [OF p(2) c _ True _ K]) (use it(2) in \<open>simp_all add: ClearSavedValue_def\<close>)
    then show ?thesis unfolding eq target .
  qed
qed

end

text \<open>So the database iterator is an iterator over the view.\<close>

sublocale db_source \<subseteq> db: cursor ucmp ugood "DBIter_ops ucmp ops"
  "\<lambda>d L n. \<exists>s kvs. L = db_view ucmp s kvs \<and> db_at s d kvs n"
proof (unfold_locales, goal_cases)
  case (1 d L n)
  then obtain s kvs where L: "L = view s kvs" "db_at s d kvs n" by blast
  then show ?case using view_nth by (auto simp: db_at_def standing_def less_imp_le)
next
  case (2 d L n)
  then show ?case using view_sorted by (auto simp: db_at_def)
next
  case (3 d L n k)
  then show ?case using view_good by (auto simp: db_at_def)
next
  case (4 d L n)
  then show ?case using view_nth by (auto simp: db_at_def standing_def DBIter_ops_def DBIter_Valid_def)
next
  case (5 d L n)
  then obtain s kvs where L: "L = view s kvs" "db_at s d kvs n" by blast
  then obtain q where q: "standing s d kvs q" "n = pos s kvs q" using db_position 5(2) by blast
  have ql: "q < length kvs" "shown ucmp s kvs q" and src: "source kvs" using q(1) L(2) by (simp_all add: standing_def db_at_def)
  show ?case using q(1) view_nth(2) [OF ql] internal.stands_key [OF _ ql(1)] entry_form(5) [OF src ql(1)]
    by (auto simp: L(1) q(2) standing_def DBIter_ops_def DBIter_key_def split: if_splits)
next
  case (6 d L n)
  then obtain s kvs where L: "L = view s kvs" "db_at s d kvs n" by blast
  then obtain q where q: "standing s d kvs q" "n = pos s kvs q" using db_position 6(2) by blast
  have ql: "q < length kvs" "shown ucmp s kvs q" using q(1) by (simp_all add: standing_def)
  show ?case using q(1) view_nth(2) [OF ql] internal.stands_value [OF _ ql(1)]
    by (auto simp: L(1) q(2) standing_def DBIter_ops_def DBIter_value_def split: if_splits)
next
  case (7 d L n)
  then obtain s kvs p where "stands (di_iter d) kvs p" "core s d" using db_at_stands by blast
  then show ?case using internal.stands_status by (simp add: DBIter_ops_def DBIter_status_def core_def Status_ok_def Status_OK_def)
next
  case (8 d L n)
  then show ?case using db_first by (fastforce simp: DBIter_ops_def)
next
  case (9 d L n)
  then show ?case using db_last by (fastforce simp: DBIter_ops_def)
next
  case (10 d L n target)
  then show ?case using db_seek [OF _ 10(2)] by (fastforce simp: DBIter_ops_def)
next
  case (11 d L n)
  then show ?case using db_next by (fastforce simp: DBIter_ops_def)
next
  case (12 d L n)
  then obtain s kvs where L: "L = view s kvs" "db_at s d kvs n" by blast
  with 12(2) db_prev obtain d' where "DBIter_Prev ucmp ops d = Some d'" "db_at s d' kvs (if n = 0 then length L else n - 1)" by blast
  then show ?case using L(1) by (intro exI [of _ d'] conjI exI [of _ s] exI [of _ kvs]) (simp_all add: DBIter_ops_def)
qed

context db_source
begin

lemma db_simulates:
  "simulates_cursor ult ugood (DBIter_ops ucmp ops) L (\<lambda>d n. \<exists>s kvs. L = db_view ucmp s kvs \<and> db_at s d kvs n)"
  by (rule db.stands_simulates)

lemma new_db:
  assumes "stands it kvs p" and "entries_ok kvs" and "s \<le> kMaxSequenceNumber"
  shows "\<exists>d. NewDBIterator it s seed = Some d \<and> db_at s d kvs (length (view s kvs))"
proof -
  let ?r = "Random_Next (Random_new seed)"
  let ?d = "\<lparr>di_iter = it, di_sequence = s, di_status = Status_OK, di_saved_key = [], di_saved_value = [],
       di_direction = dbForward, di_valid = False, di_rnd = ?r, di_bytes_counter = int (unat ?r mod 2 ^ 21), di_samples = []\<rparr>"
  have "seed_ok ?r" by (rule Random_Next_mod(2) [OF Random_new_ok])
  moreover have "int (unat ?r mod 2 ^ 21) < 2 ^ 21" by simp
  ultimately have "core s ?d" using assms(3) unfolding core_def sampling_ok_def by simp
  then have "db_at s ?d kvs (length (view s kvs))"
    using source_stands [OF assms(2,1)] assms(1) unfolding db_at_def by (intro conjI disjI2 exI [of _ p]) simp_all
  moreover have "NewDBIterator it s seed = Some ?d"
    by (simp only: NewDBIterator_def RandomPeriod_eq bind.bind_lunit prod.case)
  ultimately show ?thesis by (intro exI conjI)
qed

end

text \<open>The internal iterator of a database merges block iterators over internal keys.\<close>

interpretation internal_block: block_comparator "InternalKeyCompare Bytewise_Compare" "internal_good (\<lambda>_. True)"
  by (rule block_comparator.intro) (rule key_comparator.intro [OF bytewise.internal_comparator])

interpretation internal_merge: merging_cursor "InternalKeyCompare Bytewise_Compare" "internal_good (\<lambda>_. True)"
  "Block_ops (InternalKeyCompare Bytewise_Compare)" bytewise.internal.block_stands
  by (rule merging_cursor.intro) (rule internal_block.block.cursor_axioms)

interpretation snapshot: db_source Bytewise_Compare "\<lambda>_. True"
  "Merging_ops (InternalKeyCompare Bytewise_Compare) (Block_ops (InternalKeyCompare Bytewise_Compare))" internal_block.block.merging_stands
  by (rule db_source.intro) (rule internal_merge.merging.cursor_axioms bytewise.key_comparator_axioms)+

text \<open>C30: the iterator of a database shows exactly what its snapshot sees. Over every internal iterator
  that keeps the contract of iterators, stands in a sorted list of well-formed internal entries and for
  every sequence number \<open>s\<close> and random seed, the database iterator behaves as a position in the list of
  the user entries that are visible at \<open>s\<close>: for each user key the newest entry with a sequence number
  of at most \<open>s\<close>, unless that is a deletion. It does so forward, backward, through changes of direction
  and for searches; no loop runs forever, no assertion fails and no counter overflows.\<close>

theorem db_iterator_shows_snapshot:
  assumes "comparator ucmp ugood" and "cursor (InternalKeyCompare ucmp) (internal_good ugood) ops stands"
    and "stands it kvs p" and "entries_ok kvs" and "s \<le> kMaxSequenceNumber"
  shows "\<exists>d sim. NewDBIterator it s seed = Some d \<and> sim d (length (db_view ucmp s kvs)) \<and>
    simulates_cursor (comparator.lt ucmp) ugood (DBIter_ops ucmp ops) (db_view ucmp s kvs) sim"
proof -
  note src = db_source.intro [OF assms(2) key_comparator.intro [OF assms(1)]]
  obtain d where "NewDBIterator it s seed = Some d" "db_source.db_at ucmp ugood stands s d kvs (length (db_view ucmp s kvs))"
    using db_source.new_db [OF src assms(3-5), of seed] by (elim exE conjE)
  then show ?thesis using db_source.db_simulates [OF src, of "db_view ucmp s kvs"]
    by (intro exI [of _ d] exI [of _ "\<lambda>d n. \<exists>s' kvs'. db_view ucmp s kvs = db_view ucmp s' kvs' \<and>
        db_source.db_at ucmp ugood stands s' d kvs' n"] conjI) (assumption, intro exI conjI, rule refl)
qed

text \<open>A table with two versions of the key a, the newer one a deletion, and one version of b and of c.\<close>

definition demo_entries :: "(slice \<times> slice) list" where
  "demo_entries = [(mk_ikey [97] 3 kTypeDeletion, []), (mk_ikey [97] 1 kTypeValue, [1]),
     (mk_ikey [98] 2 kTypeValue, [2]), (mk_ikey [99] 4 kTypeValue, [4])]"

lemma demo_entries_block:
  "map_option length (build_block (InternalKeyCompare Bytewise_Compare) 16 demo_entries) = Some 58"
  by code_simp

lemma demo_entries_sorted:
  "sorted_wrt (\<lambda>a b. case InternalKeyCompare Bytewise_Compare a b of Some r \<Rightarrow> r < 0 | None \<Rightarrow> False) (map fst demo_entries)"
  by code_simp

lemma demo_view: "db_view Bytewise_Compare 3 demo_entries = [([98], [2])]"
  by code_simp

lemma demo_entries_ok: "entries_ok demo_entries"
  by (simp add: entries_ok_def demo_entries_def Parse_mk_ikey)

theorem db_iterator_shows_snapshot_witness:
  "\<exists>c it d sim. build_block (InternalKeyCompare Bytewise_Compare) 16 demo_entries = Some c \<and>
    open_block c = Some (Block_Iterator it) \<and> NewDBIterator it 3 301 = Some d \<and> sim d 1 \<and>
    simulates_cursor bytewise.lt (\<lambda>_. True) (DBIter_ops Bytewise_Compare (Block_ops (InternalKeyCompare Bytewise_Compare)))
      [([98], [2])] sim"
proof -
  have srt: "sorted_wrt bytewise.internal.lt (map fst demo_entries)"
    by (rule sorted_wrt_mono_rel [OF _ demo_entries_sorted]) (auto simp: bytewise.internal.lt_def split: option.splits)
  have good: "\<forall>k \<in> fst ` set demo_entries. internal_good (\<lambda>_. True) k" by (simp add: demo_entries_def)
  have "(1 :: int) \<le> 16" by simp
  from bytewise.internal.block_of_entries [OF this srt good] obtain c where
    c: "build_block (InternalKeyCompare Bytewise_Compare) 16 demo_entries = Some c"
    "length c < 2 ^ 32 \<longrightarrow> (\<exists>it. open_block c = Some (Block_Iterator it) \<and>
      bytewise.internal.block_stands it demo_entries (length demo_entries))"
    by (elim exE conjE)
  have "length c < 2 ^ 32" using demo_entries_block c(1) by simp
  with c(2) obtain it where it: "open_block c = Some (Block_Iterator it)"
    "bytewise.internal.block_stands it demo_entries (length demo_entries)" by (elim impE exE conjE)
  have "(3 :: 64 word) \<le> kMaxSequenceNumber" by (simp add: kMaxSequenceNumber_def)
  from db_iterator_shows_snapshot [OF bytewise.comparator_axioms internal_block.block.cursor_axioms it(2) demo_entries_ok this, of 301,
      unfolded demo_view]
  obtain d sim where "NewDBIterator it 3 301 = Some d" "sim d (length [([98 :: byte], [2 :: byte])])"
    "simulates_cursor bytewise.lt (\<lambda>_. True) (DBIter_ops Bytewise_Compare (Block_ops (InternalKeyCompare Bytewise_Compare)))
      [([98], [2])] sim" by (elim exE conjE)
  then show ?thesis using c(1) it(1) by (intro exI conjI) simp_all
qed

text \<open>C31: taking samples of reads ends. Whenever the counter of bytes has fallen below zero, adding random
  gaps brings it back, although a gap may be zero: two zero gaps never follow each other. The loop ends with
  a counter in the range of one period, after at most two calls of the database for each byte the counter
  was below zero, and one more.\<close>

theorem sampling_terminates:
  assumes "seed_ok (di_rnd d)" and "di_bytes_counter d < 2 ^ 21"
  shows "\<exists>d' n. sample_loop k d = Some d' \<and> 0 \<le> di_bytes_counter d' \<and> di_bytes_counter d' < 2 ^ 21 \<and>
    seed_ok (di_rnd d') \<and> di_samples d' = di_samples d @ replicate n k \<and> n \<le> 2 * nat (- di_bytes_counter d) + 1"
proof -
  obtain rnd c ss where
    r: "sample_loop k d = Some (d\<lparr>di_rnd := rnd, di_bytes_counter := c, di_samples := di_samples d @ ss\<rparr>)"
      "seed_ok rnd" "0 \<le> c" "c < 2 ^ 21" "set ss \<subseteq> {k}" "length ss \<le> sample_measure d"
    using sample_loop_ends [OF assms, of k] by (elim exE conjE)
  have "ss = replicate (length ss) k" using r(5) by (intro replicate_eqI) auto
  moreover have "sample_measure d \<le> 2 * nat (- di_bytes_counter d) + 1" by (simp add: sample_measure_def)
  ultimately show ?thesis using r
    by (intro exI [of _ "d\<lparr>di_rnd := rnd, di_bytes_counter := c, di_samples := di_samples d @ ss\<rparr>"] exI [of _ "length ss"]) simp
qed

theorem sampling_terminates_witness:
  "\<exists>d' n. sample_loop [97] \<lparr>di_iter = (), di_sequence = 0, di_status = Status_OK, di_saved_key = [], di_saved_value = [],
      di_direction = dbForward, di_valid = False, di_rnd = Random_new 301, di_bytes_counter = - 5, di_samples = []\<rparr> = Some d' \<and>
    0 \<le> di_bytes_counter d' \<and> di_bytes_counter d' < 2 ^ 21 \<and> seed_ok (di_rnd d') \<and> di_samples d' = replicate n [97] \<and> n \<le> 11"
proof -
  let ?d = "\<lparr>di_iter = (), di_sequence = 0, di_status = Status_OK, di_saved_key = [], di_saved_value = [],
      di_direction = dbForward, di_valid = False, di_rnd = Random_new 301, di_bytes_counter = - 5, di_samples = []\<rparr>"
  have "seed_ok (di_rnd ?d)" "di_bytes_counter ?d < 2 ^ 21" by (simp_all add: Random_new_ok)
  from sampling_terminates [OF this, of "[97]"] show ?thesis by simp
qed

end
