(* ===== verification/Ldb_Options.thy ===== *)
theory Ldb_Options
  imports Ldb_Filter Ldb_Status
begin

text \<open>
  The options of a database (\<open>include/leveldb/options.h\<close>, \<open>util/options.cc\<close>) and the objects they
  point to: a comparator and a filter policy are the records of their virtual functions. The pointers to the
  environment, the logger and the block cache are arguments of the operations that use them, and so is the
  snapshot of the read options. \<open>InternalKeyComparator\<close> and \<open>InternalFilterPolicy\<close> of
  \<open>db/dbformat.h\<close> wrap the objects of the user.
\<close>

text \<open>Comparators are compared by their address.\<close>

record comparator_ops =
  cp_address :: nat
  cp_Name :: slice
  cp_Compare :: "slice \<Rightarrow> slice \<Rightarrow> int option"
  cp_FindShortestSeparator :: "slice \<Rightarrow> slice \<Rightarrow> slice option"
  cp_FindShortSuccessor :: "slice \<Rightarrow> slice option"

record policy_ops =
  fp_Name :: slice
  fp_CreateFilter :: "slice list \<Rightarrow> slice \<Rightarrow> slice option"
  fp_KeyMayMatch :: "slice \<Rightarrow> slice \<Rightarrow> bool option"

datatype CompressionType = kNoCompression | kSnappyCompression

fun ct_code :: "CompressionType \<Rightarrow> byte" where
  "ct_code kNoCompression = 0"
| "ct_code kSnappyCompression = 1"

record Options =
  op_comparator :: comparator_ops
  op_create_if_missing :: bool
  op_error_if_exists :: bool
  op_paranoid_checks :: bool
  op_write_buffer_size :: nat
  op_max_open_files :: int
  op_block_size :: nat
  op_block_restart_interval :: int
  op_max_file_size :: nat
  op_compression :: CompressionType
  op_reuse_logs :: bool
  op_filter_policy :: "policy_ops option"

definition BytewiseComparator :: "nat \<Rightarrow> comparator_ops" where
  "BytewiseComparator address = \<lparr>cp_address = address, cp_Name = bytes_of_string ''leveldb.BytewiseComparator'',
     cp_Compare = Bytewise_Compare, cp_FindShortestSeparator = Bytewise_FindShortestSeparator,
     cp_FindShortSuccessor = Bytewise_FindShortSuccessor\<rparr>"

definition Options_new :: "nat \<Rightarrow> Options" where
  "Options_new bytewise =
     \<lparr>op_comparator = BytewiseComparator bytewise, op_create_if_missing = False, op_error_if_exists = False,
      op_paranoid_checks = False, op_write_buffer_size = 4 * 2 ^ 20, op_max_open_files = 1000, op_block_size = 4096,
      op_block_restart_interval = 16, op_max_file_size = 2 * 2 ^ 20, op_compression = kSnappyCompression,
      op_reuse_logs = False, op_filter_policy = None\<rparr>"

record ReadOptions =
  ro_verify_checksums :: bool
  ro_fill_cache :: bool

definition ReadOptions_new :: ReadOptions where
  "ReadOptions_new = \<lparr>ro_verify_checksums = False, ro_fill_cache = True\<rparr>"

definition NewBloomFilterPolicy :: "int \<Rightarrow> policy_ops option" where
  "NewBloomFilterPolicy bits_per_key' = do {
     p \<leftarrow> BloomFilterPolicy_new bits_per_key';
     Some \<lparr>fp_Name = bytes_of_string ''leveldb.BuiltinBloomFilter2'', fp_CreateFilter = Bloom_CreateFilter p,
       fp_KeyMayMatch = Bloom_KeyMayMatch\<rparr>
   }"

definition InternalKeyComparator :: "nat \<Rightarrow> comparator_ops \<Rightarrow> comparator_ops" where
  "InternalKeyComparator address user = \<lparr>cp_address = address, cp_Name = bytes_of_string ''leveldb.InternalKeyComparator'',
     cp_Compare = InternalKeyCompare (cp_Compare user),
     cp_FindShortestSeparator = InternalKey_FindShortestSeparator (cp_Compare user) (cp_FindShortestSeparator user),
     cp_FindShortSuccessor = InternalKey_FindShortSuccessor (cp_Compare user) (cp_FindShortSuccessor user)\<rparr>"

definition InternalFilterPolicy :: "policy_ops \<Rightarrow> policy_ops" where
  "InternalFilterPolicy user = \<lparr>fp_Name = fp_Name user, fp_CreateFilter = InternalFilter_CreateFilter (fp_CreateFilter user),
     fp_KeyMayMatch = InternalFilter_KeyMayMatch (fp_KeyMayMatch user)\<rparr>"

subsection \<open>Options of the user made reasonable\<close>

text \<open>\<open>SanitizeOptions\<close> of \<open>db/db_impl.cc\<close>, less the logger and the cache it opens. Sizes are compared
  after a cast to \<open>int\<close>.\<close>

definition ClipToRange :: "int \<Rightarrow> int \<Rightarrow> int \<Rightarrow> int" where
  "ClipToRange minvalue maxvalue v =
     (let v = (if maxvalue < v then maxvalue else v) in if v < minvalue then minvalue else v)"

definition ClipSizeToRange :: "int \<Rightarrow> int \<Rightarrow> nat \<Rightarrow> nat" where
  "ClipSizeToRange minvalue maxvalue v =
     (let v = (if maxvalue < sint (of_nat v :: 32 word) then nat maxvalue else v)
      in if sint (of_nat v :: 32 word) < minvalue then nat minvalue else v)"

definition kNumNonTableCacheFiles :: int where
  "kNumNonTableCacheFiles = 10"

definition SanitizeOptions :: "comparator_ops \<Rightarrow> policy_ops \<Rightarrow> Options \<Rightarrow> Options" where
  "SanitizeOptions icmp ipolicy src =
     src\<lparr>op_comparator := icmp,
       op_filter_policy := (if op_filter_policy src \<noteq> None then Some ipolicy else None),
       op_max_open_files := ClipToRange (64 + kNumNonTableCacheFiles) 50000 (op_max_open_files src),
       op_write_buffer_size := ClipSizeToRange (64 * 2 ^ 10) (2 ^ 30) (op_write_buffer_size src),
       op_max_file_size := ClipSizeToRange (2 ^ 20) (2 ^ 30) (op_max_file_size src),
       op_block_size := ClipSizeToRange (2 ^ 10) (4 * 2 ^ 20) (op_block_size src)\<rparr>"

text \<open>A size whose low half fits escapes the range.\<close>

lemma ClipSizeToRange_wraps: "ClipSizeToRange (64 * 2 ^ 10) (2 ^ 30) (2 ^ 32 + 2 ^ 20) = 2 ^ 32 + 2 ^ 20"
  by (simp add: ClipSizeToRange_def)

end
