(* ===== verification/Ldb_Format.thy ===== *)
theory Ldb_Format
  imports Ldb_Env Ldb_Crc32c Ldb_Block Ldb_Options
begin

text \<open>
  The file format of tables (\<open>table/format.h\<close>, \<open>table/format.cc\<close>): handles that point to blocks, the footer
  at the end of a file, and reading a block with its trailer of a type and a checksum. The library is built
  without SNAPPY, so its port functions (\<open>port/port_posix.h\<close>) answer that there is no compression.
\<close>

subsection \<open>Block handles\<close>

record BlockHandle =
  bh_offset :: "64 word"
  bh_size :: "64 word"

definition BlockHandle_new :: BlockHandle where
  "BlockHandle_new = \<lparr>bh_offset = NOT 0, bh_size = NOT 0\<rparr>"

definition BlockHandle_EncodeTo :: "BlockHandle \<Rightarrow> slice \<Rightarrow> slice option" where
  "BlockHandle_EncodeTo h dst =
     (if bh_offset h = NOT 0 \<or> bh_size h = NOT 0 then None
      else Some (PutVarint64 (PutVarint64 dst (bh_offset h)) (bh_size h)))"

text \<open>The status, the handle and what is left of the input; a failure after the first number leaves it in
  the handle.\<close>

definition BlockHandle_DecodeFrom :: "BlockHandle \<Rightarrow> slice \<Rightarrow> (Status \<times> BlockHandle \<times> slice) option" where
  "BlockHandle_DecodeFrom h input =
     (case GetVarint64 input of
        None \<Rightarrow> do { s \<leftarrow> Status_Corruption (bytes_of_string ''bad block handle'') []; Some (s, h, input) }
      | Some (offset, input) \<Rightarrow>
          (case GetVarint64 input of
             None \<Rightarrow> do {
               s \<leftarrow> Status_Corruption (bytes_of_string ''bad block handle'') [];
               Some (s, h\<lparr>bh_offset := offset\<rparr>, input)
             }
           | Some (sz, input) \<Rightarrow> Some (Status_OK, h\<lparr>bh_offset := offset, bh_size := sz\<rparr>, input)))"

definition kMaxEncodedLength :: nat where
  "kMaxEncodedLength = 10 + 10"

subsection \<open>The footer\<close>

record Footer =
  ft_metaindex :: BlockHandle
  ft_index :: BlockHandle

definition kEncodedLength :: nat where
  "kEncodedLength = 2 * kMaxEncodedLength + 8"

definition kTableMagicNumber :: "64 word" where
  "kTableMagicNumber = 0xdb4775248b80fb57"

definition kBlockTrailerSize :: nat where
  "kBlockTrailerSize = 5"

definition resize :: "nat \<Rightarrow> slice \<Rightarrow> slice" where
  "resize n s = take n s @ replicate (n - length s) 0"

definition Footer_EncodeTo :: "Footer \<Rightarrow> slice \<Rightarrow> slice option" where
  "Footer_EncodeTo f dst = do {
     let original_size = length dst;
     dst \<leftarrow> BlockHandle_EncodeTo (ft_metaindex f) dst;
     dst \<leftarrow> BlockHandle_EncodeTo (ft_index f) dst;
     let dst = resize (2 * kMaxEncodedLength) dst;
     let dst = PutFixed32 kLittleEndian dst (ucast (kTableMagicNumber AND 0xffffffff));
     let dst = PutFixed32 kLittleEndian dst (ucast (drop_bit 32 kTableMagicNumber));
     if length dst = original_size + kEncodedLength then Some dst else None
   }"

text \<open>An input shorter than a footer is read past its end.\<close>

definition Footer_DecodeFrom :: "slice \<Rightarrow> (Status \<times> Footer \<times> slice) option" where
  "Footer_DecodeFrom input = do {
     let magic_ptr = drop (kEncodedLength - 8) input;
     magic_lo \<leftarrow> DecodeFixed32 kLittleEndian magic_ptr;
     magic_hi \<leftarrow> DecodeFixed32 kLittleEndian (drop 4 magic_ptr);
     let magic = push_bit 32 (ucast magic_hi) OR ucast magic_lo;
     let f = \<lparr>ft_metaindex = BlockHandle_new, ft_index = BlockHandle_new\<rparr>;
     if magic \<noteq> kTableMagicNumber
     then do { s \<leftarrow> Status_Corruption (bytes_of_string ''not an sstable (bad magic number)'') []; Some (s, f, input) }
     else do {
       (s, h, rest) \<leftarrow> BlockHandle_DecodeFrom (ft_metaindex f) input;
       let f = f\<lparr>ft_metaindex := h\<rparr>;
       if \<not> Status_ok s then Some (s, f, rest)
       else do {
         (s, h, rest) \<leftarrow> BlockHandle_DecodeFrom (ft_index f) rest;
         let f = f\<lparr>ft_index := h\<rparr>;
         Some (s, f, if Status_ok s then drop 8 magic_ptr else rest)
       }
     }
   }"

subsection \<open>Reading a block\<close>

definition Snappy_Compress :: "slice \<Rightarrow> slice option" where
  "Snappy_Compress input = None"

definition Snappy_GetUncompressedLength :: "slice \<Rightarrow> nat option" where
  "Snappy_GetUncompressedLength input = None"

definition Snappy_Uncompress :: "slice \<Rightarrow> slice option" where
  "Snappy_Uncompress input = None"

record BlockContents =
  bc_data :: slice
  bc_cachable :: bool
  bc_heap_allocated :: bool

definition BlockContents_empty :: BlockContents where
  "BlockContents_empty = \<lparr>bc_data = [], bc_cachable = False, bc_heap_allocated = False\<rparr>"

text \<open>The size of the buffer is computed at 64 bits and wraps; what is then read outside of the contents
  is undefined.\<close>

definition ReadBlock ::
  "'r random_access_ops \<Rightarrow> 'r \<Rightarrow> bool \<Rightarrow> BlockHandle \<Rightarrow> (Status \<times> BlockContents) option" where
  "ReadBlock rops file verify_checksums handle =
     (let n = bh_size handle;
          total = n + of_nat kBlockTrailerSize;
          (s, contents, in_buf) = rf_Read rops file (bh_offset handle) (unat total)
      in if \<not> Status_ok s then Some (s, BlockContents_empty)
         else if length contents \<noteq> unat total then do {
           s \<leftarrow> Status_Corruption (bytes_of_string ''truncated block read'') [];
           Some (s, BlockContents_empty)
         }
         else do {
           crc_ok \<leftarrow> (if verify_checksums then do {
               stored \<leftarrow> DecodeFixed32 kLittleEndian (drop (unat n + 1) contents);
               actual \<leftarrow> (if unat n + 1 \<le> length contents then crc_Value 0 (take (unat n + 1) contents) else None);
               Some (actual = crc_Unmask stored)
             } else Some True);
           if \<not> crc_ok then do {
             s \<leftarrow> Status_Corruption (bytes_of_string ''block checksum mismatch'') [];
             Some (s, BlockContents_empty)
           }
           else if length contents \<le> unat n then None
           else if contents ! unat n = ct_code kNoCompression then
             Some (Status_OK, \<lparr>bc_data = take (unat n) contents, bc_cachable = in_buf, bc_heap_allocated = in_buf\<rparr>)
           else if contents ! unat n = ct_code kSnappyCompression then
             (case Snappy_GetUncompressedLength (take (unat n) contents) of
                None \<Rightarrow> do {
                  s \<leftarrow> Status_Corruption (bytes_of_string ''corrupted compressed block contents'') [];
                  Some (s, BlockContents_empty)
                }
              | Some ulength \<Rightarrow>
                  (case Snappy_Uncompress (take (unat n) contents) of
                     None \<Rightarrow> do {
                       s \<leftarrow> Status_Corruption (bytes_of_string ''corrupted compressed block contents'') [];
                       Some (s, BlockContents_empty)
                     }
                   | Some ubuf \<Rightarrow> Some (Status_OK, \<lparr>bc_data = take ulength ubuf, bc_cachable = True, bc_heap_allocated = True\<rparr>)))
           else do {
             s \<leftarrow> Status_Corruption (bytes_of_string ''bad block type'') [];
             Some (s, BlockContents_empty)
           }
         })"

subsection \<open>Writing and reading back\<close>

lemma handle_roundtrip:
  assumes "bh_offset h \<noteq> NOT 0" and "bh_size h \<noteq> NOT 0"
  shows "\<exists>e. (\<forall>dst. BlockHandle_EncodeTo h dst = Some (dst @ e)) \<and> e = EncodeVarint64 (bh_offset h) @ EncodeVarint64 (bh_size h) \<and>
    (\<forall>h' rest. BlockHandle_DecodeFrom h' (e @ rest) = Some (Status_OK, h, rest))"
  using assms by (simp add: BlockHandle_EncodeTo_def BlockHandle_DecodeFrom_def PutVarint64_def)

lemma length_EncodeVarint64_le: "unat v < 2 ^ (7 * n) \<Longrightarrow> 0 < n \<Longrightarrow> length (EncodeVarint64 v) \<le> n"
proof (induction n arbitrary: v)
  case (Suc n)
  show ?case
  proof (cases "128 \<le> v")
    case False
    then show ?thesis by (subst EncodeVarint64.simps) simp
  next
    case True
    then have "128 \<le> unat v" by (simp add: word_le_nat_alt)
    moreover have "n = 0 \<Longrightarrow> unat v < 128" using Suc.prems(1) by simp
    ultimately have n: "0 < n" by (cases n) simp_all
    have "unat (drop_bit 7 v) = unat v div 128" unfolding unat_drop_bit_eq by (simp add: drop_bit_eq_div)
    also have "\<dots> < 2 ^ (7 * n)" using Suc.prems(1) by (simp add: less_mult_imp_div_less power_add)
    finally have "length (EncodeVarint64 (drop_bit 7 v)) \<le> n" by (rule Suc.IH) (rule n)
    then show ?thesis using True by (subst EncodeVarint64.simps) simp
  qed
qed simp

lemma length_handle_encoding: "length (EncodeVarint64 x @ EncodeVarint64 y) \<le> kMaxEncodedLength"
proof -
  have "length (EncodeVarint64 v) \<le> 10" for v
    using length_EncodeVarint64_le [of v 10] unsigned_less [of v, where ?'a = nat] by simp
  from this [of x] this [of y] show ?thesis by (simp add: kMaxEncodedLength_def)
qed

lemma magic_parts:
  "push_bit 32 (ucast (ucast (drop_bit 32 kTableMagicNumber) :: 32 word)) OR
     ucast (ucast (kTableMagicNumber AND 0xffffffff) :: 32 word) = kTableMagicNumber"
  by code_simp

lemma footer_roundtrip:
  assumes "bh_offset (ft_metaindex f) \<noteq> NOT 0" and "bh_size (ft_metaindex f) \<noteq> NOT 0"
    and "bh_offset (ft_index f) \<noteq> NOT 0" and "bh_size (ft_index f) \<noteq> NOT 0"
  shows "\<exists>e. Footer_EncodeTo f [] = Some e \<and> length e = kEncodedLength \<and> (\<forall>rest. \<exists>r. Footer_DecodeFrom (e @ rest) = Some (Status_OK, f, r))"
proof -
  obtain m where m: "\<forall>dst. BlockHandle_EncodeTo (ft_metaindex f) dst = Some (dst @ m)" "m = EncodeVarint64 (bh_offset (ft_metaindex f)) @ EncodeVarint64 (bh_size (ft_metaindex f))"
    "\<forall>h rest. BlockHandle_DecodeFrom h (m @ rest) = Some (Status_OK, ft_metaindex f, rest)"
    using handle_roundtrip [OF assms(1,2)] by blast
  obtain i where i: "\<forall>dst. BlockHandle_EncodeTo (ft_index f) dst = Some (dst @ i)" "i = EncodeVarint64 (bh_offset (ft_index f)) @ EncodeVarint64 (bh_size (ft_index f))"
    "\<forall>h rest. BlockHandle_DecodeFrom h (i @ rest) = Some (Status_OK, ft_index f, rest)"
    using handle_roundtrip [OF assms(3,4)] by blast
  let ?lo = "ucast (kTableMagicNumber AND 0xffffffff) :: 32 word" and ?hi = "ucast (drop_bit 32 kTableMagicNumber) :: 32 word"
  let ?p = "replicate (2 * kMaxEncodedLength - length (m @ i)) 0 :: byte list"
  let ?e = "m @ i @ ?p @ EncodeFixed32 kLittleEndian ?lo @ EncodeFixed32 kLittleEndian ?hi"
  have l: "length m \<le> kMaxEncodedLength" "length i \<le> kMaxEncodedLength" unfolding m(2) i(2) by (rule length_handle_encoding)+
  then have r: "resize (2 * kMaxEncodedLength) (m @ i) = m @ i @ ?p" by (simp add: resize_def)
  have e: "length ?e = kEncodedLength" using l by (simp add: kEncodedLength_def)
  have enc: "Footer_EncodeTo f [] = Some ?e"
    using e m(1) i(1) r by (simp add: Footer_EncodeTo_def Let_def PutFixed32_def)
  have dec: "\<exists>r. Footer_DecodeFrom (?e @ rest) = Some (Status_OK, f, r)" for rest
  proof -
    have "drop (kEncodedLength - 8) (?e @ rest) = EncodeFixed32 kLittleEndian ?lo @ EncodeFixed32 kLittleEndian ?hi @ rest"
      using l by (simp add: kEncodedLength_def)
    moreover have "drop 4 (EncodeFixed32 kLittleEndian ?lo @ EncodeFixed32 kLittleEndian ?hi @ rest) = EncodeFixed32 kLittleEndian ?hi @ rest" by simp
    moreover have "?e @ rest = m @ i @ ?p @ EncodeFixed32 kLittleEndian ?lo @ EncodeFixed32 kLittleEndian ?hi @ rest" by simp
    ultimately show ?thesis
      by (simp only: Footer_DecodeFrom_def Let_def DecodeFixed32_Encode bind.bind_lunit magic_parts simp_thms if_False if_True m(3) i(3)
          prod.case Footer.simps Status_ok_OK) simp
  qed
  show ?thesis by (rule exI [of _ ?e], intro conjI allI, rule enc, rule e, rule dec)
qed

text \<open>A file of known bytes: reading inside the file returns what is there.\<close>

definition reads_as :: "'r random_access_ops \<Rightarrow> 'r \<Rightarrow> byte list \<Rightarrow> bool" where
  "reads_as rops file bytes \<longleftrightarrow> (\<forall>off n. unat off + n \<le> length bytes \<longrightarrow>
     (\<exists>b. rf_Read rops file off n = (Status_OK, take n (drop (unat off) bytes), b)))"

definition raw_block :: "slice \<Rightarrow> byte list" where
  "raw_block data = data @ [0] @ EncodeFixed32 kLittleEndian (crc_Mask (crc32c 0 (data @ [0])))"

lemma length_raw_block [simp]: "length (raw_block data) = length data + kBlockTrailerSize"
  by (simp add: raw_block_def kBlockTrailerSize_def)

lemma read_raw_block:
  assumes "reads_as rops file (pre @ raw_block data @ post)" and "length (pre @ raw_block data @ post) < 2 ^ 63"
  shows "\<exists>b. ReadBlock rops file verify \<lparr>bh_offset = of_nat (length pre), bh_size = of_nat (length data)\<rparr> =
    Some (Status_OK, \<lparr>bc_data = data, bc_cachable = b, bc_heap_allocated = b\<rparr>)"
proof -
  have l: "length data + 5 < 2 ^ 64" "length pre < 2 ^ 64" using assms(2) by (simp_all add: kBlockTrailerSize_def)
  have n: "unat (of_nat (length data) :: 64 word) = length data" "unat (of_nat (length pre) :: 64 word) = length pre"
    using l unfolding unat_of_nat by simp_all
  have "of_nat (length data) + of_nat kBlockTrailerSize = (of_nat (length data + 5) :: 64 word)" by (simp add: kBlockTrailerSize_def)
  then have t: "unat (of_nat (length data) + of_nat kBlockTrailerSize :: 64 word) = length data + 5"
    using l(1) by (simp only: unat_of_nat) simp
  have len: "length (raw_block data) = length data + 5" by (simp add: kBlockTrailerSize_def)
  obtain b where "rf_Read rops file (of_nat (length pre)) (length data + 5) =
      (Status_OK, take (length data + 5) (drop (unat (of_nat (length pre) :: 64 word)) (pre @ raw_block data @ post)), b)"
    using assms(1) [unfolded reads_as_def, rule_format, of "of_nat (length pre)" "length data + 5"] unfolding n by (auto simp: kBlockTrailerSize_def)
  then have r: "rf_Read rops file (of_nat (length pre)) (length data + 5) = (Status_OK, raw_block data, b)"
    unfolding n using len by simp
  have stored: "DecodeFixed32 kLittleEndian (drop (length data + 1) (raw_block data)) = Some (crc_Mask (crc32c 0 (data @ [0])))"
    using DecodeFixed32_Encode [where rest = "[]"] by (simp add: raw_block_def)
  have pay: "take (length data + 1) (raw_block data) = data @ [0]" "raw_block data ! length data = 0" "take (length data) (raw_block data) = data"
    by (simp_all add: raw_block_def nth_append)
  have crc: "crc_Value 0 (data @ [0]) = Some (crc32c 0 (data @ [0]))" by (simp add: crc_Value_def crc_Extend_eq)
  have "ReadBlock rops file verify \<lparr>bh_offset = of_nat (length pre), bh_size = of_nat (length data)\<rparr> =
    Some (Status_OK, \<lparr>bc_data = data, bc_cachable = b, bc_heap_allocated = b\<rparr>)"
    unfolding ReadBlock_def Let_def BlockHandle.simps t r prod.case n Status_ok_OK len
    by (cases verify) (simp_all only: simp_thms if_True if_False stored bind.bind_lunit pay crc crc_Unmask_Mask le_add1 ct_code.simps
        nat_add_left_cancel_le rel_simps not_le less_add_same_cancel1 zero_less_numeral, simp_all)
  then show ?thesis by blast
qed

end
