(* ===== verification/Ldb_Table_Builder.thy ===== *)
theory Ldb_Table_Builder
  imports Ldb_Format
begin

text \<open>
  Writing a table (\<open>table/table_builder.cc\<close>): data blocks, the filter block, the metaindex block, the index
  block with shortened keys and the footer. The file is an argument, with the record of its virtual functions. The status of the builder stops all further
  writing; \<open>None\<close> is a failed assertion.
\<close>

subsection \<open>The builder\<close>

text \<open>The builder of the filter block keeps a pointer to the filter policy it was made for.\<close>

record 'f TableBuilder =
  tb_options :: Options
  tb_index_block_options :: Options
  tb_file :: 'f
  tb_offset :: "64 word"
  tb_status :: Status
  tb_data_block :: BlockBuilder
  tb_index_block :: BlockBuilder
  tb_last_key :: slice
  tb_num_entries :: int
  tb_closed :: bool
  tb_filter_block :: "FilterBlockBuilder option"
  tb_filter_policy :: "policy_ops option"
  tb_pending_index_entry :: bool
  tb_pending_handle :: BlockHandle

definition TableBuilder_new :: "Options \<Rightarrow> 'f \<Rightarrow> 'f TableBuilder option" where
  "TableBuilder_new options file = do {
     data_block \<leftarrow> BlockBuilder_new (op_block_restart_interval options);
     index_block \<leftarrow> BlockBuilder_new (op_block_restart_interval options);
     filter_block \<leftarrow> (case op_filter_policy options of
         None \<Rightarrow> Some None
       | Some p \<Rightarrow> map_option Some (StartBlock (fp_CreateFilter p) 0 FilterBlockBuilder_new));
     Some \<lparr>tb_options = options, tb_index_block_options = options\<lparr>op_block_restart_interval := 1\<rparr>, tb_file = file,
       tb_offset = 0, tb_status = Status_OK, tb_data_block = data_block, tb_index_block = index_block, tb_last_key = [],
       tb_num_entries = 0, tb_closed = False, tb_filter_block = filter_block, tb_filter_policy = op_filter_policy options,
       tb_pending_index_entry = False,
       tb_pending_handle = BlockHandle_new\<rparr>
   }"

definition ChangeOptions :: "Options \<Rightarrow> 'f TableBuilder \<Rightarrow> (Status \<times> 'f TableBuilder) option" where
  "ChangeOptions options b =
     (if cp_address (op_comparator options) \<noteq> cp_address (op_comparator (tb_options b))
      then do { s \<leftarrow> Status_InvalidArgument (bytes_of_string ''changing comparator while building table'') []; Some (s, b) }
      else Some (Status_OK,
        b\<lparr>tb_options := options, tb_index_block_options := options\<lparr>op_block_restart_interval := 1\<rparr>\<rparr>))"

abbreviation tb_ok :: "'f TableBuilder \<Rightarrow> bool" where
  "tb_ok b \<equiv> Status_ok (tb_status b)"

text \<open>The handle of the block is returned beside the builder.\<close>

definition WriteRawBlock ::
  "'f writable_ops \<Rightarrow> slice \<Rightarrow> CompressionType \<Rightarrow> 'f TableBuilder \<Rightarrow> (BlockHandle \<times> 'f TableBuilder) option" where
  "WriteRawBlock wops block_contents type b =
     (let handle = \<lparr>bh_offset = tb_offset b, bh_size = of_nat (length block_contents)\<rparr>;
          (s, f) = wf_Append wops (tb_file b) block_contents;
          b = b\<lparr>tb_file := f, tb_status := s\<rparr>
      in if tb_ok b then do {
           crc \<leftarrow> crc_Value 0 block_contents;
           crc \<leftarrow> crc_Extend crc 0 [ct_code type];
           let (s, f) = wf_Append wops (tb_file b) (ct_code type # EncodeFixed32 kLittleEndian (crc_Mask crc));
           let b = b\<lparr>tb_file := f, tb_status := s\<rparr>;
           Some (handle, if tb_ok b then b\<lparr>tb_offset := tb_offset b + of_nat (length block_contents) + of_nat kBlockTrailerSize\<rparr> else b)
         }
         else Some (handle, b))"

definition compress :: "CompressionType \<Rightarrow> slice \<Rightarrow> slice \<times> CompressionType" where
  "compress type raw =
     (case type of
        kNoCompression \<Rightarrow> (raw, type)
      | kSnappyCompression \<Rightarrow>
          (case Snappy_Compress raw of
             Some compressed \<Rightarrow> if length compressed < length raw - length raw div 8 then (compressed, type) else (raw, kNoCompression)
           | None \<Rightarrow> (raw, kNoCompression)))"

definition WriteBlock ::
  "'f writable_ops \<Rightarrow> BlockBuilder \<Rightarrow> 'f TableBuilder \<Rightarrow> (BlockHandle \<times> BlockBuilder \<times> 'f TableBuilder) option" where
  "WriteBlock wops block b =
     (if \<not> tb_ok b then None
      else do {
        let (raw, block) = BlockBuilder_Finish block;
        let (block_contents, type) = compress (op_compression (tb_options b)) raw;
        (handle, b) \<leftarrow> WriteRawBlock wops block_contents type b;
        Some (handle, BlockBuilder_Reset block, b)
      })"

definition start_filter :: "'f TableBuilder \<Rightarrow> 'f TableBuilder option" where
  "start_filter b =
     (case (tb_filter_block b, tb_filter_policy b) of
        (Some fb, Some p) \<Rightarrow> do { fb \<leftarrow> StartBlock (fp_CreateFilter p) (tb_offset b) fb; Some (b\<lparr>tb_filter_block := Some fb\<rparr>) }
      | (Some fb, None) \<Rightarrow> None
      | (None, _) \<Rightarrow> Some b)"

definition TableBuilder_Flush :: "'f writable_ops \<Rightarrow> 'f TableBuilder \<Rightarrow> 'f TableBuilder option" where
  "TableBuilder_Flush wops b =
     (if tb_closed b then None
      else if \<not> tb_ok b then Some b
      else if BlockBuilder_empty (tb_data_block b) then Some b
      else if tb_pending_index_entry b then None
      else do {
        (handle, block, b) \<leftarrow> WriteBlock wops (tb_data_block b) b;
        let b = b\<lparr>tb_data_block := block, tb_pending_handle := handle\<rparr>;
        let b = (if tb_ok b then (let (s, f) = wf_Flush wops (tb_file b)
            in b\<lparr>tb_pending_index_entry := True, tb_status := s, tb_file := f\<rparr>) else b);
        start_filter b
      })"

text \<open>The index entry of the finished block, with the key that stands for the block.\<close>

definition add_index_entry :: "slice \<Rightarrow> 'f TableBuilder \<Rightarrow> 'f TableBuilder option" where
  "add_index_entry last_key b = do {
     handle_encoding \<leftarrow> BlockHandle_EncodeTo (tb_pending_handle b) [];
     index_block \<leftarrow> BlockBuilder_Add (cp_Compare (op_comparator (tb_index_block_options b)))
       (op_block_restart_interval (tb_index_block_options b)) last_key handle_encoding (tb_index_block b);
     Some (b\<lparr>tb_last_key := last_key, tb_index_block := index_block, tb_pending_index_entry := False\<rparr>)
   }"

definition TableBuilder_Add :: "'f writable_ops \<Rightarrow> slice \<Rightarrow> slice \<Rightarrow> 'f TableBuilder \<Rightarrow> 'f TableBuilder option" where
  "TableBuilder_Add wops key val b =
     (if tb_closed b then None
      else if \<not> tb_ok b then Some b
      else do {
        let cmp = cp_Compare (op_comparator (tb_options b));
        increasing \<leftarrow> (if 0 < tb_num_entries b then do { c \<leftarrow> cmp key (tb_last_key b); Some (0 < c) } else Some True);
        if \<not> increasing then None
        else do {
          b \<leftarrow> (if tb_pending_index_entry b then
              if \<not> BlockBuilder_empty (tb_data_block b) then None
              else do {
                k \<leftarrow> cp_FindShortestSeparator (op_comparator (tb_options b)) (tb_last_key b) key;
                add_index_entry k b
              }
            else Some b);
          let b = b\<lparr>tb_filter_block := map_option (FilterBlock_AddKey key) (tb_filter_block b)\<rparr>;
          let b = b\<lparr>tb_last_key := key, tb_num_entries := tb_num_entries b + 1\<rparr>;
          data_block \<leftarrow> BlockBuilder_Add cmp (op_block_restart_interval (tb_options b)) key val (tb_data_block b);
          let b = b\<lparr>tb_data_block := data_block\<rparr>;
          if op_block_size (tb_options b) \<le> CurrentSizeEstimate data_block then TableBuilder_Flush wops b else Some b
        }
      })"

definition finish_filter :: "'f writable_ops \<Rightarrow> 'f TableBuilder \<Rightarrow> (BlockHandle \<times> 'f TableBuilder) option" where
  "finish_filter wops b =
     (case (tb_filter_block b, tb_filter_policy b) of
        (Some fb, Some p) \<Rightarrow>
          if tb_ok b then do {
            contents \<leftarrow> FilterBlock_Finish (fp_CreateFilter p) fb;
            WriteRawBlock wops contents kNoCompression b
          }
          else Some (BlockHandle_new, b)
      | (Some fb, None) \<Rightarrow> None
      | (None, _) \<Rightarrow> Some (BlockHandle_new, b))"

definition finish_metaindex :: "'f writable_ops \<Rightarrow> BlockHandle \<Rightarrow> 'f TableBuilder \<Rightarrow> (BlockHandle \<times> 'f TableBuilder) option" where
  "finish_metaindex wops filter_block_handle b =
     (if \<not> tb_ok b then Some (BlockHandle_new, b)
      else do {
        meta \<leftarrow> BlockBuilder_new (op_block_restart_interval (tb_options b));
        meta \<leftarrow> (case (tb_filter_block b, op_filter_policy (tb_options b)) of
            (Some fb, Some p) \<Rightarrow> do {
              let key = bytes_of_string ''filter.'' @ fp_Name p;
              handle_encoding \<leftarrow> BlockHandle_EncodeTo filter_block_handle [];
              BlockBuilder_Add (cp_Compare (op_comparator (tb_options b))) (op_block_restart_interval (tb_options b)) key handle_encoding meta
            }
          | (Some fb, None) \<Rightarrow> None
          | (None, _) \<Rightarrow> Some meta);
        (handle, _, b) \<leftarrow> WriteBlock wops meta b;
        Some (handle, b)
      })"

definition finish_index :: "'f writable_ops \<Rightarrow> 'f TableBuilder \<Rightarrow> (BlockHandle \<times> 'f TableBuilder) option" where
  "finish_index wops b =
     (if \<not> tb_ok b then Some (BlockHandle_new, b)
      else do {
        b \<leftarrow> (if tb_pending_index_entry b then do {
            k \<leftarrow> cp_FindShortSuccessor (op_comparator (tb_options b)) (tb_last_key b);
            add_index_entry k b
          } else Some b);
        (handle, block, b) \<leftarrow> WriteBlock wops (tb_index_block b) b;
        Some (handle, b\<lparr>tb_index_block := block\<rparr>)
      })"

definition finish_footer :: "'f writable_ops \<Rightarrow> BlockHandle \<Rightarrow> BlockHandle \<Rightarrow> 'f TableBuilder \<Rightarrow> 'f TableBuilder option" where
  "finish_footer wops metaindex index b =
     (if \<not> tb_ok b then Some b
      else do {
        e \<leftarrow> Footer_EncodeTo \<lparr>ft_metaindex = metaindex, ft_index = index\<rparr> [];
        let (s, f) = wf_Append wops (tb_file b) e;
        let b = b\<lparr>tb_file := f, tb_status := s\<rparr>;
        Some (if tb_ok b then b\<lparr>tb_offset := tb_offset b + of_nat (length e)\<rparr> else b)
      })"

definition TableBuilder_Finish :: "'f writable_ops \<Rightarrow> 'f TableBuilder \<Rightarrow> (Status \<times> 'f TableBuilder) option" where
  "TableBuilder_Finish wops b = do {
     b \<leftarrow> TableBuilder_Flush wops b;
     if tb_closed b then None
     else do {
       let b = b\<lparr>tb_closed := True\<rparr>;
       (filter_handle, b) \<leftarrow> finish_filter wops b;
       (metaindex, b) \<leftarrow> finish_metaindex wops filter_handle b;
       (index, b) \<leftarrow> finish_index wops b;
       b \<leftarrow> finish_footer wops metaindex index b;
       Some (tb_status b, b)
     }
   }"

definition Abandon :: "'f TableBuilder \<Rightarrow> 'f TableBuilder option" where
  "Abandon b = (if tb_closed b then None else Some (b\<lparr>tb_closed := True\<rparr>))"

definition TableBuilder_status :: "'f TableBuilder \<Rightarrow> Status" where
  "TableBuilder_status b = tb_status b"

definition NumEntries :: "'f TableBuilder \<Rightarrow> int" where
  "NumEntries b = tb_num_entries b"

definition FileSize :: "'f TableBuilder \<Rightarrow> 64 word" where
  "FileSize b = tb_offset b"

end
