(* ===== verification/Ldb_Two_Level.thy ===== *)
theory Ldb_Two_Level
  imports Ldb_Iterator
begin

text \<open>
  The two-level iterator (\<open>table/two_level_iterator.cc\<close>): an iterator over an index yields handles, and a
  block function opens the iterator over the entries behind a handle. The iterator classes and the block
  function are parameters; a null pointer is \<open>None\<close> inside the wrapper or as result of the block function.
  Over an index whose keys separate the blocks, the two-level iterator keeps the contract of iterators for
  the concatenation of the blocks.
\<close>

subsection \<open>The iterator\<close>

record ('i, 'j) TwoLevelIterator =
  tl_status :: Status
  tl_index :: "'i IteratorWrapper"
  tl_data :: "'j IteratorWrapper"
  tl_handle :: slice

definition NewTwoLevelIterator :: "'i iter_ops \<Rightarrow> 'i \<Rightarrow> ('i, 'j) TwoLevelIterator option" where
  "NewTwoLevelIterator iops index_iter = do {
     index \<leftarrow> IW_Set iops (Some index_iter) IteratorWrapper_null;
     Some \<lparr>tl_status = Status_OK, tl_index = index, tl_data = IteratorWrapper_null, tl_handle = []\<rparr>
   }"

definition TwoLevel_Valid :: "('i, 'j) TwoLevelIterator \<Rightarrow> bool" where
  "TwoLevel_Valid t = iw_valid (tl_data t)"

definition TwoLevel_key :: "('i, 'j) TwoLevelIterator \<Rightarrow> slice option" where
  "TwoLevel_key t = IW_key (tl_data t)"

definition TwoLevel_value :: "'j iter_ops \<Rightarrow> ('i, 'j) TwoLevelIterator \<Rightarrow> slice option" where
  "TwoLevel_value jops t = IW_value jops (tl_data t)"

definition TwoLevel_status :: "'i iter_ops \<Rightarrow> 'j iter_ops \<Rightarrow> ('i, 'j) TwoLevelIterator \<Rightarrow> Status option" where
  "TwoLevel_status iops jops t = do {
     s \<leftarrow> IW_status iops (tl_index t);
     if \<not> Status_ok s then Some s
     else if iw_iter (tl_data t) \<noteq> None then do {
       s \<leftarrow> IW_status jops (tl_data t);
       Some (if \<not> Status_ok s then s else tl_status t)
     }
     else Some (tl_status t)
   }"

definition SaveError :: "Status \<Rightarrow> ('i, 'j) TwoLevelIterator \<Rightarrow> ('i, 'j) TwoLevelIterator" where
  "SaveError s t = (if Status_ok (tl_status t) \<and> \<not> Status_ok s then t\<lparr>tl_status := s\<rparr> else t)"

definition SetDataIterator ::
  "'j iter_ops \<Rightarrow> 'j option \<Rightarrow> ('i, 'j) TwoLevelIterator \<Rightarrow> ('i, 'j) TwoLevelIterator option" where
  "SetDataIterator jops data_iter t = do {
     t \<leftarrow> (if iw_iter (tl_data t) \<noteq> None then do { s \<leftarrow> IW_status jops (tl_data t); Some (SaveError s t) } else Some t);
     w \<leftarrow> IW_Set jops data_iter (tl_data t);
     Some (t\<lparr>tl_data := w\<rparr>)
   }"

definition InitDataBlock ::
  "'i iter_ops \<Rightarrow> 'j iter_ops \<Rightarrow> (slice \<Rightarrow> 'j option) \<Rightarrow> ('i, 'j) TwoLevelIterator \<Rightarrow> ('i, 'j) TwoLevelIterator option" where
  "InitDataBlock iops jops block_function t =
     (if \<not> iw_valid (tl_index t) then SetDataIterator jops None t
      else do {
        handle \<leftarrow> IW_value iops (tl_index t);
        if iw_iter (tl_data t) \<noteq> None \<and> slice_compare handle (tl_handle t) = 0 then Some t
        else SetDataIterator jops (block_function handle) (t\<lparr>tl_handle := handle\<rparr>)
      })"

text \<open>The calls that move the data iterator only if there is one.\<close>

definition move_data ::
  "('j IteratorWrapper \<Rightarrow> 'j IteratorWrapper option) \<Rightarrow> ('i, 'j) TwoLevelIterator \<Rightarrow> ('i, 'j) TwoLevelIterator option" where
  "move_data f t =
     (if iw_iter (tl_data t) \<noteq> None then do { w \<leftarrow> f (tl_data t); Some (t\<lparr>tl_data := w\<rparr>) } else Some t)"

definition move_index ::
  "('i IteratorWrapper \<Rightarrow> 'i IteratorWrapper option) \<Rightarrow> ('i, 'j) TwoLevelIterator \<Rightarrow> ('i, 'j) TwoLevelIterator option" where
  "move_index f t = do { w \<leftarrow> f (tl_index t); Some (t\<lparr>tl_index := w\<rparr>) }"

partial_function (option) SkipEmptyDataBlocksForward ::
  "'i iter_ops \<Rightarrow> 'j iter_ops \<Rightarrow> (slice \<Rightarrow> 'j option) \<Rightarrow> ('i, 'j) TwoLevelIterator \<Rightarrow> ('i, 'j) TwoLevelIterator option" where
  "SkipEmptyDataBlocksForward iops jops block_function t =
     (if iw_iter (tl_data t) = None \<or> \<not> iw_valid (tl_data t) then
        (if \<not> iw_valid (tl_index t) then SetDataIterator jops None t
         else do {
           t \<leftarrow> move_index (IW_Next iops) t;
           t \<leftarrow> InitDataBlock iops jops block_function t;
           t \<leftarrow> move_data (IW_SeekToFirst jops) t;
           SkipEmptyDataBlocksForward iops jops block_function t
         })
      else Some t)"

partial_function (option) SkipEmptyDataBlocksBackward ::
  "'i iter_ops \<Rightarrow> 'j iter_ops \<Rightarrow> (slice \<Rightarrow> 'j option) \<Rightarrow> ('i, 'j) TwoLevelIterator \<Rightarrow> ('i, 'j) TwoLevelIterator option" where
  "SkipEmptyDataBlocksBackward iops jops block_function t =
     (if iw_iter (tl_data t) = None \<or> \<not> iw_valid (tl_data t) then
        (if \<not> iw_valid (tl_index t) then SetDataIterator jops None t
         else do {
           t \<leftarrow> move_index (IW_Prev iops) t;
           t \<leftarrow> InitDataBlock iops jops block_function t;
           t \<leftarrow> move_data (IW_SeekToLast jops) t;
           SkipEmptyDataBlocksBackward iops jops block_function t
         })
      else Some t)"

definition TwoLevel_Seek ::
  "'i iter_ops \<Rightarrow> 'j iter_ops \<Rightarrow> (slice \<Rightarrow> 'j option) \<Rightarrow> slice \<Rightarrow> ('i, 'j) TwoLevelIterator \<Rightarrow> ('i, 'j) TwoLevelIterator option" where
  "TwoLevel_Seek iops jops block_function target t = do {
     t \<leftarrow> move_index (IW_Seek iops target) t;
     t \<leftarrow> InitDataBlock iops jops block_function t;
     t \<leftarrow> move_data (IW_Seek jops target) t;
     SkipEmptyDataBlocksForward iops jops block_function t
   }"

definition TwoLevel_SeekToFirst ::
  "'i iter_ops \<Rightarrow> 'j iter_ops \<Rightarrow> (slice \<Rightarrow> 'j option) \<Rightarrow> ('i, 'j) TwoLevelIterator \<Rightarrow> ('i, 'j) TwoLevelIterator option" where
  "TwoLevel_SeekToFirst iops jops block_function t = do {
     t \<leftarrow> move_index (IW_SeekToFirst iops) t;
     t \<leftarrow> InitDataBlock iops jops block_function t;
     t \<leftarrow> move_data (IW_SeekToFirst jops) t;
     SkipEmptyDataBlocksForward iops jops block_function t
   }"

definition TwoLevel_SeekToLast ::
  "'i iter_ops \<Rightarrow> 'j iter_ops \<Rightarrow> (slice \<Rightarrow> 'j option) \<Rightarrow> ('i, 'j) TwoLevelIterator \<Rightarrow> ('i, 'j) TwoLevelIterator option" where
  "TwoLevel_SeekToLast iops jops block_function t = do {
     t \<leftarrow> move_index (IW_SeekToLast iops) t;
     t \<leftarrow> InitDataBlock iops jops block_function t;
     t \<leftarrow> move_data (IW_SeekToLast jops) t;
     SkipEmptyDataBlocksBackward iops jops block_function t
   }"

definition TwoLevel_Next ::
  "'i iter_ops \<Rightarrow> 'j iter_ops \<Rightarrow> (slice \<Rightarrow> 'j option) \<Rightarrow> ('i, 'j) TwoLevelIterator \<Rightarrow> ('i, 'j) TwoLevelIterator option" where
  "TwoLevel_Next iops jops block_function t =
     (if \<not> TwoLevel_Valid t then None
      else do {
        w \<leftarrow> IW_Next jops (tl_data t);
        SkipEmptyDataBlocksForward iops jops block_function (t\<lparr>tl_data := w\<rparr>)
      })"

definition TwoLevel_Prev ::
  "'i iter_ops \<Rightarrow> 'j iter_ops \<Rightarrow> (slice \<Rightarrow> 'j option) \<Rightarrow> ('i, 'j) TwoLevelIterator \<Rightarrow> ('i, 'j) TwoLevelIterator option" where
  "TwoLevel_Prev iops jops block_function t =
     (if \<not> TwoLevel_Valid t then None
      else do {
        w \<leftarrow> IW_Prev jops (tl_data t);
        SkipEmptyDataBlocksBackward iops jops block_function (t\<lparr>tl_data := w\<rparr>)
      })"

definition TwoLevel_ops :: "'i iter_ops \<Rightarrow> 'j iter_ops \<Rightarrow> (slice \<Rightarrow> 'j option) \<Rightarrow> ('i, 'j) TwoLevelIterator iter_ops" where
  "TwoLevel_ops iops jops bf = \<lparr>it_Valid = TwoLevel_Valid, it_SeekToFirst = TwoLevel_SeekToFirst iops jops bf,
     it_SeekToLast = TwoLevel_SeekToLast iops jops bf, it_Seek = TwoLevel_Seek iops jops bf, it_Next = TwoLevel_Next iops jops bf,
     it_Prev = TwoLevel_Prev iops jops bf, it_key = TwoLevel_key, it_value = TwoLevel_value jops,
     it_status = TwoLevel_status iops jops\<rparr>"

subsection \<open>Positions in a concatenation\<close>

definition offset :: "'a list list \<Rightarrow> nat \<Rightarrow> nat" where
  "offset xss i = length (concat (take i xss))"

lemma offset_0 [simp]: "offset xss 0 = 0"
  by (simp add: offset_def)

lemma offset_all [simp]: "length xss \<le> i \<Longrightarrow> offset xss i = length (concat xss)"
  by (simp add: offset_def)

lemma offset_Suc: "i < length xss \<Longrightarrow> offset xss (Suc i) = offset xss i + length (xss ! i)"
  by (simp add: offset_def take_Suc_conv_app_nth)

lemma concat_split: "i < length xss \<Longrightarrow> concat xss = concat (take i xss) @ xss ! i @ concat (drop (Suc i) xss)"
  by (metis concat.simps(2) concat_append id_take_nth_drop)

lemma concat_nth:
  assumes "i < length xss" and "j < length (xss ! i)"
  shows "concat xss ! (offset xss i + j) = xss ! i ! j" and "offset xss i + j < length (concat xss)"
  using assms(2) by (simp_all add: offset_def concat_split [OF assms(1)] nth_append)

lemma offset_le: "offset xss i \<le> length (concat xss)"
  unfolding offset_def by (metis append_take_drop_id concat_append length_append le_add1)

text \<open>A condition on pairs of a concatenation, from the blocks and from pairs of blocks.\<close>

lemma sorted_concat:
  assumes "\<And>xs. xs \<in> set xss \<Longrightarrow> sorted_wrt R xs"
    and "sorted_wrt (\<lambda>xs ys. \<forall>x \<in> set xs. \<forall>y \<in> set ys. R x y) xss"
  shows "sorted_wrt R (concat xss)"
  using assms by (induction xss) (auto simp: sorted_wrt_append)

subsection \<open>The blocks behind an index\<close>

locale two_level = index: cursor cmp good iops istands + data: cursor cmp good jops dstands
  for cmp :: "slice \<Rightarrow> slice \<Rightarrow> int option" and good iops and istands :: "'i \<Rightarrow> (slice \<times> slice) list \<Rightarrow> nat \<Rightarrow> bool"
    and jops and dstands :: "'j \<Rightarrow> (slice \<times> slice) list \<Rightarrow> nat \<Rightarrow> bool" +
  fixes block_function :: "slice \<Rightarrow> 'j option"

text \<open>The keys of the index separate the blocks that the block function opens from its handles.\<close>

definition indexes ::
  "(slice \<Rightarrow> slice \<Rightarrow> bool) \<Rightarrow> ('j \<Rightarrow> (slice \<times> slice) list \<Rightarrow> nat \<Rightarrow> bool) \<Rightarrow> (slice \<Rightarrow> 'j option) \<Rightarrow>
     (slice \<times> slice) list \<Rightarrow> (slice \<times> slice) list list \<Rightarrow> bool" where
  "indexes below dstands block_function idx blocks \<longleftrightarrow> length blocks = length idx \<and>
     (\<forall>i < length idx. \<exists>it p. block_function (snd (idx ! i)) = Some it \<and> dstands it (blocks ! i) p) \<and>
     (\<forall>i < length idx. \<forall>j < length idx. snd (idx ! i) = snd (idx ! j) \<longrightarrow> blocks ! i = blocks ! j) \<and>
     (\<forall>i < length idx. \<forall>k \<in> fst ` set (blocks ! i). \<not> below (fst (idx ! i)) k) \<and>
     (\<forall>j < length idx. \<forall>i < j. \<forall>k \<in> fst ` set (blocks ! j). below (fst (idx ! i)) k)"

context two_level
begin

abbreviation below :: "slice \<Rightarrow> slice \<Rightarrow> bool" where
  "below \<equiv> index.lt"

definition indexed :: "(slice \<times> slice) list \<Rightarrow> (slice \<times> slice) list list \<Rightarrow> bool" where
  "indexed idx blocks \<longleftrightarrow> indexes below dstands block_function idx blocks \<and>
     sorted_wrt below (map fst idx) \<and> (\<forall>k \<in> fst ` set idx. good k)"

lemma indexed_parts:
  assumes "indexed idx blocks"
  shows "length blocks = length idx"
    and "\<forall>i < length idx. \<exists>it p. block_function (snd (idx ! i)) = Some it \<and> dstands it (blocks ! i) p"
    and "\<forall>i < length idx. \<forall>j < length idx. snd (idx ! i) = snd (idx ! j) \<longrightarrow> blocks ! i = blocks ! j"
    and "\<forall>i < length idx. \<forall>k \<in> fst ` set (blocks ! i). \<not> below (fst (idx ! i)) k"
    and "\<forall>j < length idx. \<forall>i < j. \<forall>k \<in> fst ` set (blocks ! j). below (fst (idx ! i)) k"
    and "sorted_wrt below (map fst idx)" and "\<forall>k \<in> fst ` set idx. good k"
  by (insert assms, unfold indexed_def indexes_def) (elim conjE, assumption)+

lemma indexed_block:
  assumes "indexed idx blocks" and "i < length idx"
  obtains it p where "block_function (snd (idx ! i)) = Some it" and "dstands it (blocks ! i) p"
  using indexed_parts(2) [OF assms(1), rule_format, OF assms(2)] by (elim exE conjE)

lemma indexed_keys:
  assumes "indexed idx blocks" and "i < length idx" and "k \<in> fst ` set (blocks ! i)"
  shows "good k" and "good (fst (idx ! i))" and "\<not> below (fst (idx ! i)) k" and "j < i \<Longrightarrow> below (fst (idx ! j)) k"
proof -
  obtain it p where "dstands it (blocks ! i) p" using indexed_block [OF assms(1,2)] .
  from data.stands_good [OF this assms(3)] show "good k" .
  show "good (fst (idx ! i))" using indexed_parts(7) [OF assms(1)] assms(2) by simp
  show "\<not> below (fst (idx ! i)) k" by (rule indexed_parts(4) [OF assms(1), rule_format, OF assms(2,3)])
  show "j < i \<Longrightarrow> below (fst (idx ! j)) k" by (rule indexed_parts(5) [OF assms(1), rule_format, OF assms(2) _ assms(3)])
qed

lemma indexed_sorted:
  assumes "indexed idx blocks" shows "sorted_wrt below (map fst (concat blocks))"
proof -
  note n = indexed_parts(1) [OF assms]
  have "sorted_wrt (\<lambda>x y. below (fst x) (fst y)) (concat blocks)"
  proof (rule sorted_concat)
    fix xs
    assume "xs \<in> set blocks"
    then obtain i where i: "i < length idx" "blocks ! i = xs" using n by (auto simp: in_set_conv_nth)
    obtain it p where "dstands it (blocks ! i) p" using indexed_block [OF assms i(1)] .
    then show "sorted_wrt (\<lambda>x y. below (fst x) (fst y)) xs" using data.stands_sorted i(2) by (auto simp: sorted_wrt_map)
  next
    have "below (fst x) (fst y)" if i: "i < j" "j < length idx" and m: "x \<in> set (blocks ! i)" "y \<in> set (blocks ! j)" for i j x y
    proof -
      have il: "i < length idx" using i by simp
      have k: "fst x \<in> fst ` set (blocks ! i)" "fst y \<in> fst ` set (blocks ! j)" using m by simp_all
      note a = indexed_keys [OF assms il k(1)] and b = indexed_keys [OF assms i(2) k(2)]
      have "index.le (fst x) (fst (idx ! i))" using a(3) index.le_not_lt [OF a(1,2)] by simp
      then show ?thesis using index.le_lt_trans [OF a(1,2) b(1) _ b(4) [OF i(1)]] by simp
    qed
    then show "sorted_wrt (\<lambda>xs ys. \<forall>x \<in> set xs. \<forall>y \<in> set ys. below (fst x) (fst y)) blocks"
      using n by (auto simp: sorted_wrt_iff_nth_less)
  qed
  then show ?thesis by (simp add: sorted_wrt_map)
qed

lemma indexed_good:
  assumes "indexed idx blocks" and "k \<in> fst ` set (concat blocks)" shows "good k"
proof -
  note n = indexed_parts(1) [OF assms(1)]
  obtain xs where xs: "xs \<in> set blocks" "k \<in> fst ` set xs" using assms(2) by auto
  then obtain i where "i < length idx" "blocks ! i = xs" using n by (auto simp: in_set_conv_nth)
  then show ?thesis using indexed_keys(1) [OF assms(1)] xs(2) by blast
qed

subsection \<open>Opening blocks\<close>

text \<open>The data iterator is closed, or open on the block of the remembered handle.\<close>

definition closed :: "('i, 'j) TwoLevelIterator \<Rightarrow> bool" where
  "closed t \<longleftrightarrow> iw_iter (tl_data t) = None \<and> \<not> iw_valid (tl_data t)"

definition coherent :: "('i, 'j) TwoLevelIterator \<Rightarrow> (slice \<times> slice) list \<Rightarrow> (slice \<times> slice) list list \<Rightarrow> bool" where
  "coherent t idx blocks \<longleftrightarrow> tl_status t = Status_OK \<and>
     (closed t \<or> (\<exists>k j. k < length idx \<and> data.holds_at (tl_data t) (blocks ! k) j \<and> tl_handle t = snd (idx ! k)))"

definition at_block ::
  "('i, 'j) TwoLevelIterator \<Rightarrow> (slice \<times> slice) list \<Rightarrow> (slice \<times> slice) list list \<Rightarrow> nat \<Rightarrow> nat \<Rightarrow> bool" where
  "at_block t idx blocks i j \<longleftrightarrow> tl_status t = Status_OK \<and> index.holds_at (tl_index t) idx i \<and>
     (if i < length idx then data.holds_at (tl_data t) (blocks ! i) j \<and> tl_handle t = snd (idx ! i)
      else closed t \<and> j = 0)"

lemma at_block_coherent: "at_block t idx blocks i j \<Longrightarrow> coherent t idx blocks"
  by (auto simp: at_block_def coherent_def split: if_splits)

lemma SaveError_OK [simp]: "SaveError Status_OK t = t"
  by (simp add: SaveError_def Status_ok_def Status_OK_def)

lemma close_data:
  assumes "coherent t idx blocks"
  shows "\<exists>t'. SetDataIterator jops None t = Some t' \<and> closed t' \<and> tl_status t' = Status_OK \<and> tl_index t' = tl_index t"
  using assms data.wrapper_reads(5)
  by (auto simp: coherent_def SetDataIterator_def IW_Set_def closed_def)

lemma open_new_data:
  assumes "coherent t idx blocks" and "dstands it b p"
  shows "\<exists>t'. SetDataIterator jops (Some it) t = Some t' \<and> data.holds_at (tl_data t') b p \<and> tl_status t' = Status_OK \<and>
    tl_index t' = tl_index t \<and> tl_handle t' = tl_handle t"
proof -
  obtain w where "IW_Set jops (Some it) (tl_data t) = Some w" "data.holds_at w b p" using data.set_at [OF assms(2)] by blast
  then show ?thesis using assms(1) data.wrapper_reads(5)
    by (auto simp: coherent_def SetDataIterator_def closed_def)
qed

lemma init_block:
  assumes "indexed idx blocks" and "coherent t idx blocks" and "index.holds_at (tl_index t) idx i"
  shows "\<exists>t' j. InitDataBlock iops jops block_function t = Some t' \<and> at_block t' idx blocks i j"
proof (cases "i < length idx")
  case False
  then have v: "\<not> iw_valid (tl_index t)" using index.wrapper_reads(1) [OF assms(3)] by simp
  obtain t' where "SetDataIterator jops None t = Some t'" "closed t'" "tl_status t' = Status_OK" "tl_index t' = tl_index t"
    using close_data [OF assms(2)] by blast
  then show ?thesis using v assms(3) False by (intro exI [of _ t'] exI [of _ 0]) (simp add: InitDataBlock_def at_block_def)
next
  case True
  have v: "iw_valid (tl_index t)" and h: "IW_value iops (tl_index t) = Some (snd (idx ! i))"
    using index.wrapper_reads(1,4) [OF assms(3)] True by simp_all
  show ?thesis
  proof (cases "iw_iter (tl_data t) \<noteq> None \<and> slice_compare (snd (idx ! i)) (tl_handle t) = 0")
    case same: True
    then obtain k j where k: "k < length idx" "data.holds_at (tl_data t) (blocks ! k) j" "tl_handle t = snd (idx ! k)"
      using assms(2) by (auto simp: coherent_def closed_def)
    have "snd (idx ! i) = snd (idx ! k)" using same k(3) by (simp add: slice_compare_spec split: if_splits)
    moreover from this have "blocks ! i = blocks ! k" using indexed_parts(3) [OF assms(1), rule_format, OF True k(1)] by simp
    ultimately have "at_block t idx blocks i j" using assms(2,3) True k by (simp add: at_block_def coherent_def)
    then show ?thesis using same v h by (intro exI [of _ t] exI [of _ j]) (simp add: InitDataBlock_def)
  next
    case False
    obtain it p where it: "block_function (snd (idx ! i)) = Some it" "dstands it (blocks ! i) p"
      using indexed_block [OF assms(1) True] .
    let ?t = "t\<lparr>tl_handle := snd (idx ! i)\<rparr>"
    have "SetDataIterator jops (Some it) ?t = map_option (\<lambda>t. t\<lparr>tl_handle := snd (idx ! i)\<rparr>) (SetDataIterator jops (Some it) t)"
      by (cases "iw_iter (tl_data t)"; cases "IW_status jops (tl_data t)"; cases "IW_Set jops (Some it) (tl_data t)")
        (simp_all add: SetDataIterator_def SaveError_def)
    then obtain t' where "SetDataIterator jops (Some it) ?t = Some t'" "data.holds_at (tl_data t') (blocks ! i) p"
        "tl_status t' = Status_OK" "tl_index t' = tl_index t" "tl_handle t' = snd (idx ! i)"
      using open_new_data [OF assms(2) it(2)] by auto
    then show ?thesis using v h False it(1) assms(3) True
      by (intro exI [of _ t'] exI [of _ p]) (auto simp: InitDataBlock_def at_block_def)
  qed
qed

end

context two_level
begin

text \<open>What every search does: move the index, open the block, move in the block.\<close>

definition reload ::
  "('i IteratorWrapper \<Rightarrow> 'i IteratorWrapper option) \<Rightarrow> ('j IteratorWrapper \<Rightarrow> 'j IteratorWrapper option) \<Rightarrow>
     ('i, 'j) TwoLevelIterator \<Rightarrow> ('i, 'j) TwoLevelIterator option" where
  "reload f g t = do { t \<leftarrow> move_index f t; t \<leftarrow> InitDataBlock iops jops block_function t; move_data g t }"

lemma reload_at:
  assumes "indexed idx blocks" and "coherent t idx blocks" and "\<exists>w. f (tl_index t) = Some w \<and> index.holds_at w idx i"
    and "\<And>w j. i < length idx \<Longrightarrow> data.holds_at w (blocks ! i) j \<Longrightarrow> \<exists>w'. g w = Some w' \<and> data.holds_at w' (blocks ! i) J"
  shows "\<exists>t'. reload f g t = Some t' \<and> at_block t' idx blocks i (if i < length idx then J else 0)"
proof -
  obtain w where w: "f (tl_index t) = Some w" "index.holds_at w idx i" using assms(3) by blast
  let ?t = "t\<lparr>tl_index := w\<rparr>"
  have "coherent ?t idx blocks" using assms(2) by (simp add: coherent_def closed_def)
  moreover have "index.holds_at (tl_index ?t) idx i" using w(2) by simp
  ultimately obtain t1 j where t1: "InitDataBlock iops jops block_function ?t = Some t1" "at_block t1 idx blocks i j"
    using init_block [OF assms(1)] by blast
  have r: "reload f g t = move_data g t1" by (simp add: reload_def move_index_def w(1) t1(1))
  show ?thesis
  proof (cases "i < length idx")
    case True
    then have h: "data.holds_at (tl_data t1) (blocks ! i) j" using t1(2) by (simp add: at_block_def)
    obtain w' where "g (tl_data t1) = Some w'" "data.holds_at w' (blocks ! i) J" using assms(4) [OF True h] by blast
    moreover have "iw_iter (tl_data t1) \<noteq> None" using h by (auto simp: data.holds_at_def)
    ultimately show ?thesis using t1(2) True unfolding r by (auto simp: move_data_def at_block_def)
  next
    case False
    then have "iw_iter (tl_data t1) = None" using t1(2) by (simp add: at_block_def closed_def)
    then show ?thesis using t1(2) False unfolding r by (auto simp: move_data_def at_block_def)
  qed
qed

lemma data_valid:
  assumes "at_block t idx blocks i j"
  shows "iw_iter (tl_data t) = None \<or> \<not> iw_valid (tl_data t) \<longleftrightarrow> \<not> (i < length idx \<and> j < length (blocks ! i))"
    and "iw_valid (tl_index t) \<longleftrightarrow> i < length idx"
  using assms index.wrapper_reads(1) data.wrapper_reads(1)
  by (auto simp: at_block_def closed_def data.holds_at_def split: if_splits)

text \<open>The iterator as a position in the concatenation.\<close>

definition two_at :: "('i, 'j) TwoLevelIterator \<Rightarrow> (slice \<times> slice) list \<Rightarrow> (slice \<times> slice) list list \<Rightarrow> nat \<Rightarrow> bool" where
  "two_at t idx blocks n \<longleftrightarrow>
     (\<exists>i j. at_block t idx blocks i j \<and> i < length idx \<and> j < length (blocks ! i) \<and> n = offset blocks i + j) \<or>
     (n = length (concat blocks) \<and> closed t \<and> tl_status t = Status_OK \<and> (\<exists>i. index.holds_at (tl_index t) idx i))"

lemma two_atI: "at_block t idx blocks i j \<Longrightarrow> i < length idx \<Longrightarrow> j < length (blocks ! i) \<Longrightarrow> two_at t idx blocks (offset blocks i + j)"
  unfolding two_at_def by (intro disjI1 exI conjI) simp_all

lemma close_at:
  assumes "at_block t idx blocks i j"
  shows "\<exists>t'. SetDataIterator jops None t = Some t' \<and> two_at t' idx blocks (length (concat blocks))"
proof -
  obtain t' where "SetDataIterator jops None t = Some t'" "closed t'" "tl_status t' = Status_OK" "tl_index t' = tl_index t"
    using close_data [OF at_block_coherent [OF assms]] by blast
  then show ?thesis using assms by (auto simp: two_at_def at_block_def)
qed

lemma skip_forward:
  assumes "indexed idx blocks" and "at_block t idx blocks i j" and "i \<le> length idx" and "i < length idx \<Longrightarrow> j \<le> length (blocks ! i)"
  shows "\<exists>t'. SkipEmptyDataBlocksForward iops jops block_function t = Some t' \<and> two_at t' idx blocks (offset blocks i + j)"
  using assms(2-)
proof (induction "length idx - i" arbitrary: t i j rule: less_induct)
  case less
  note n = indexed_parts(1) [OF assms(1)]
  show ?case
  proof (cases "i < length idx \<and> j < length (blocks ! i)")
    case True
    then have "SkipEmptyDataBlocksForward iops jops block_function t = Some t"
      using data_valid(1) [OF less.prems(1)] by (subst SkipEmptyDataBlocksForward.simps) auto
    then show ?thesis using two_atI [OF less.prems(1)] True by simp
  next
    case False
    then have inv: "iw_iter (tl_data t) = None \<or> \<not> iw_valid (tl_data t)" using data_valid(1) [OF less.prems(1)] by simp
    show ?thesis
    proof (cases "i < length idx")
      case end': False
      have e: "i = length idx" "j = 0" using end' less.prems(1,2) by (simp_all add: at_block_def)
      have "SkipEmptyDataBlocksForward iops jops block_function t = SetDataIterator jops None t"
        using inv data_valid(2) [OF less.prems(1)] end' by (subst SkipEmptyDataBlocksForward.simps) auto
      then show ?thesis using close_at [OF less.prems(1)] e n by simp
    next
      case True
      then have j: "j = length (blocks ! i)" using False less.prems(3) by simp
      have h: "index.holds_at (tl_index t) idx i" using less.prems(1) by (simp add: at_block_def)
      have p: "\<exists>w. IW_Next iops (tl_index t) = Some w \<and> index.holds_at w idx (Suc i)" by (rule index.wrapper_moves(4) [OF h True])
      have "\<exists>t'. reload (IW_Next iops) (IW_SeekToFirst jops) t = Some t' \<and>
          at_block t' idx blocks (Suc i) (if Suc i < length idx then 0 else 0)"
        by (rule reload_at [where f = "IW_Next iops", OF assms(1) at_block_coherent [OF less.prems(1)] p])
          (rule data.wrapper_moves(1))
      then obtain t' where t': "reload (IW_Next iops) (IW_SeekToFirst jops) t = Some t'" "at_block t' idx blocks (Suc i) 0" by auto
      have eq: "SkipEmptyDataBlocksForward iops jops block_function t = SkipEmptyDataBlocksForward iops jops block_function t'"
        using inv data_valid(2) [OF less.prems(1)] True t'(1) unfolding reload_def
        by (subst SkipEmptyDataBlocksForward.simps) (auto split: bind_splits)
      have "length idx - Suc i < length idx - i" using True by simp
      from less.hyps [OF this t'(2)] True show ?thesis unfolding eq by (simp add: offset_Suc n j)
    qed
  qed
qed

text \<open>The last entry before a block, if there is one.\<close>

definition before_block :: "(slice \<times> slice) list list \<Rightarrow> nat \<Rightarrow> nat" where
  "before_block blocks i = (if offset blocks i = 0 then length (concat blocks) else offset blocks i - 1)"

lemma skip_backward:
  assumes "indexed idx blocks" and "at_block t idx blocks i j" and "i < length idx"
  shows "\<exists>t'. SkipEmptyDataBlocksBackward iops jops block_function t = Some t' \<and>
    two_at t' idx blocks (if j < length (blocks ! i) then offset blocks i + j else before_block blocks i)"
  using assms(2-)
proof (induction i arbitrary: t j)
  case 0
  show ?case
  proof (cases "j < length (blocks ! 0)")
    case True
    then have "SkipEmptyDataBlocksBackward iops jops block_function t = Some t"
      using data_valid(1) [OF 0(1)] 0(2) by (subst SkipEmptyDataBlocksBackward.simps) auto
    then show ?thesis using two_atI [OF 0 True] True by simp
  next
    case False
    then have inv: "iw_iter (tl_data t) = None \<or> \<not> iw_valid (tl_data t)" using data_valid(1) [OF 0(1)] by simp
    have h: "index.holds_at (tl_index t) idx 0" using 0(1) by (simp add: at_block_def)
    have p: "\<exists>w. IW_Prev iops (tl_index t) = Some w \<and> index.holds_at w idx (length idx)"
      using index.wrapper_moves(5) [OF h 0(2)] by simp
    have "\<exists>t'. reload (IW_Prev iops) (IW_SeekToLast jops) t = Some t' \<and>
        at_block t' idx blocks (length idx) (if length idx < length idx then 0 else 0)"
      by (rule reload_at [where f = "IW_Prev iops", OF assms(1) at_block_coherent [OF 0(1)] p]) simp
    then obtain t' where t': "reload (IW_Prev iops) (IW_SeekToLast jops) t = Some t'" "at_block t' idx blocks (length idx) 0" by auto
    have eq: "SkipEmptyDataBlocksBackward iops jops block_function t = SkipEmptyDataBlocksBackward iops jops block_function t'"
      using inv data_valid(2) [OF 0(1)] 0(2) t'(1) unfolding reload_def
      by (subst SkipEmptyDataBlocksBackward.simps) (auto split: bind_splits)
    have "SkipEmptyDataBlocksBackward iops jops block_function t' = SetDataIterator jops None t'"
      using data_valid [OF t'(2)] by (subst SkipEmptyDataBlocksBackward.simps) auto
    then show ?thesis using close_at [OF t'(2)] False unfolding eq by (simp add: before_block_def)
  qed
next
  case (Suc i)
  show ?case
  proof (cases "j < length (blocks ! Suc i)")
    case True
    then have "SkipEmptyDataBlocksBackward iops jops block_function t = Some t"
      using data_valid(1) [OF Suc.prems(1)] Suc.prems(2) by (subst SkipEmptyDataBlocksBackward.simps) auto
    then show ?thesis using two_atI [OF Suc.prems True] True by simp
  next
    case False
    then have inv: "iw_iter (tl_data t) = None \<or> \<not> iw_valid (tl_data t)" using data_valid(1) [OF Suc.prems(1)] by simp
    have il: "i < length idx" "i < length blocks" using Suc.prems(2) indexed_parts(1) [OF assms(1)] by simp_all
    have h: "index.holds_at (tl_index t) idx (Suc i)" using Suc.prems(1) by (simp add: at_block_def)
    have p: "\<exists>w. IW_Prev iops (tl_index t) = Some w \<and> index.holds_at w idx i"
      using index.wrapper_moves(5) [OF h Suc.prems(2)] by simp
    let ?J = "length (blocks ! i) - 1"
    have "\<exists>t'. reload (IW_Prev iops) (IW_SeekToLast jops) t = Some t' \<and> at_block t' idx blocks i (if i < length idx then ?J else 0)"
      by (rule reload_at [where f = "IW_Prev iops", OF assms(1) at_block_coherent [OF Suc.prems(1)] p]) (rule data.wrapper_moves(2))
    then obtain t' where t': "reload (IW_Prev iops) (IW_SeekToLast jops) t = Some t'" "at_block t' idx blocks i ?J"
      using il(1) by auto
    have eq: "SkipEmptyDataBlocksBackward iops jops block_function t = SkipEmptyDataBlocksBackward iops jops block_function t'"
      using inv data_valid(2) [OF Suc.prems(1)] Suc.prems(2) t'(1) unfolding reload_def
      by (subst SkipEmptyDataBlocksBackward.simps) (auto split: bind_splits)
    have "(if ?J < length (blocks ! i) then offset blocks i + ?J else before_block blocks i) = before_block blocks (Suc i)"
      using il(2) by (auto simp: before_block_def offset_Suc)
    then show ?thesis using Suc.IH [OF t'(2) il(1)] False unfolding eq by simp
  qed
qed

end

lemma concat_take_mem: "x \<in> set (concat (take n xss)) \<Longrightarrow> \<exists>k. k < n \<and> k < length xss \<and> x \<in> set (xss ! k)"
  unfolding set_concat UN_iff by (elim bexE) (auto simp: in_set_conv_nth [of _ "take n xss"])

lemma concat_drop_mem: "x \<in> set (concat (drop n xss)) \<Longrightarrow> \<exists>k. n \<le> k \<and> k < length xss \<and> x \<in> set (xss ! k)"
proof -
  assume "x \<in> set (concat (drop n xss))"
  then obtain ys where "ys \<in> set (drop n xss)" "x \<in> set ys" by auto
  then obtain k where "k < length (drop n xss)" "drop n xss ! k = ys" "x \<in> set ys" unfolding in_set_conv_nth by blast
  then show ?thesis by (intro exI [of _ "n + k"]) simp
qed

lemma last_position: "k + l = n \<Longrightarrow> (if l - 1 < l then k + (l - 1) else if k = 0 then n else k - 1) = n - 1" for k l n :: nat
  by auto

lemma seek_pos_append:
  "\<forall>x \<in> set xs. below (fst x) t \<Longrightarrow> seek_pos below (xs @ ys) t = length xs + seek_pos below ys t"
  "\<forall>y \<in> set ys. \<not> below (fst y) t \<Longrightarrow> seek_pos below (xs @ ys) t = seek_pos below xs t"
proof -
  assume "\<forall>x \<in> set xs. below (fst x) t"
  then show "seek_pos below (xs @ ys) t = length xs + seek_pos below ys t"
    by (induction xs) (auto simp: seek_pos_def split: prod.splits)
next
  assume a: "\<forall>y \<in> set ys. \<not> below (fst y) t"
  then have "seek_pos below ys t = 0" by (cases ys) (auto simp: seek_pos_def split: prod.splits)
  then show "seek_pos below (xs @ ys) t = seek_pos below xs t"
    by (induction xs) (auto simp: seek_pos_def split: prod.splits)
qed

context two_level
begin

definition two_stands :: "('i, 'j) TwoLevelIterator \<Rightarrow> (slice \<times> slice) list \<Rightarrow> nat \<Rightarrow> bool" where
  "two_stands t L n \<longleftrightarrow> (\<exists>idx blocks. indexed idx blocks \<and> L = concat blocks \<and> two_at t idx blocks n)"

lemma two_standsE:
  assumes "two_stands t L n" and "n < length L"
  obtains idx blocks i j where "indexed idx blocks" and "L = concat blocks" and "at_block t idx blocks i j"
    and "i < length idx" and "j < length (blocks ! i)" and "n = offset blocks i + j"
  using assms unfolding two_stands_def two_at_def by auto

lemma two_standsI: "indexed idx blocks \<Longrightarrow> \<exists>t'. r = Some t' \<and> two_at t' idx blocks n \<Longrightarrow> \<exists>t'. r = Some t' \<and> two_stands t' (concat blocks) n"
  unfolding two_stands_def by (elim exE conjE, intro exI conjI, assumption+, rule refl, assumption)

lemma two_coherent:
  assumes "two_stands t L n"
  obtains idx blocks i where "indexed idx blocks" and "L = concat blocks" and "coherent t idx blocks" and "index.holds_at (tl_index t) idx i"
proof -
  obtain idx blocks where ib: "indexed idx blocks" "L = concat blocks" "two_at t idx blocks n" using assms by (auto simp: two_stands_def)
  from ib(3) consider i j where "at_block t idx blocks i j" | i where "closed t" "tl_status t = Status_OK" "index.holds_at (tl_index t) idx i"
    unfolding two_at_def by (elim disjE exE conjE)
  then show ?thesis
  proof cases
    case (1 i j)
    then have "index.holds_at (tl_index t) idx i" by (simp add: at_block_def)
    from that [OF ib(1,2) at_block_coherent [OF 1] this] show ?thesis .
  next
    case (2 i)
    then show ?thesis using that [OF ib(1,2)] by (simp add: coherent_def)
  qed
qed

lemma two_cases:
  assumes "two_stands t L n"
  obtains (open_block) "n < length L" | (closed) "n = length L" and "closed t"
proof -
  obtain idx blocks where ib: "indexed idx blocks" "L = concat blocks" "two_at t idx blocks n" using assms by (auto simp: two_stands_def)
  from ib(3) consider i j where "i < length idx" "j < length (blocks ! i)" "n = offset blocks i + j" | "n = length L" "closed t"
    unfolding two_at_def ib(2) by (elim disjE exE conjE)
  then show ?thesis
  proof cases
    case (1 i j)
    then show ?thesis using open_block concat_nth(2) [of i blocks j] indexed_parts(1) [OF ib(1)] ib(2) by simp
  qed (rule closed)
qed

lemma two_range: "two_stands t L n \<Longrightarrow> n \<le> length L"
  by (erule two_cases) simp_all

lemma two_reads:
  assumes "two_stands t L n"
  shows "TwoLevel_Valid t \<longleftrightarrow> n < length L"
    and "n < length L \<Longrightarrow> TwoLevel_key t = Some (fst (L ! n))"
    and "n < length L \<Longrightarrow> TwoLevel_value jops t = Some (snd (L ! n))"
    and "TwoLevel_status iops jops t = Some Status_OK"
proof -
  have at: "TwoLevel_Valid t \<and> TwoLevel_key t = Some (fst (L ! n)) \<and> TwoLevel_value jops t = Some (snd (L ! n))" if n: "n < length L"
  proof -
    obtain idx blocks i j where ib: "indexed idx blocks" "L = concat blocks" "at_block t idx blocks i j"
      "i < length idx" "j < length (blocks ! i)" "n = offset blocks i + j" using two_standsE [OF assms n] .
    have h: "data.holds_at (tl_data t) (blocks ! i) j" using ib(3,4) by (simp add: at_block_def)
    have il: "i < length blocks" using ib(4) indexed_parts(1) [OF ib(1)] by simp
    have "L ! n = blocks ! i ! j" unfolding ib(2,6) by (rule concat_nth(1) [OF il ib(5)])
    then show ?thesis using data.wrapper_reads(1,3,4) [OF h] ib(5)
      by (simp add: TwoLevel_Valid_def TwoLevel_key_def TwoLevel_value_def)
  qed
  show "TwoLevel_Valid t \<longleftrightarrow> n < length L"
  proof (cases "n < length L")
    case False
    then have "closed t" using assms by (elim two_cases) simp
    then show ?thesis using False by (simp add: closed_def TwoLevel_Valid_def)
  qed (simp add: at)
  show "n < length L \<Longrightarrow> TwoLevel_key t = Some (fst (L ! n))" "n < length L \<Longrightarrow> TwoLevel_value jops t = Some (snd (L ! n))"
    using at by simp_all
  obtain idx blocks i where ib: "coherent t idx blocks" "index.holds_at (tl_index t) idx i" using two_coherent [OF assms] .
  then show "TwoLevel_status iops jops t = Some Status_OK"
    using index.wrapper_reads(5) data.wrapper_reads(5)
    by (auto simp: TwoLevel_status_def coherent_def closed_def Status_ok_def Status_OK_def)
qed

lemma skip_after:
  assumes "indexed idx blocks" and "coherent t idx blocks" and "\<exists>w. f (tl_index t) = Some w \<and> index.holds_at w idx i" and "i \<le> length idx"
    and "\<And>w j. i < length idx \<Longrightarrow> data.holds_at w (blocks ! i) j \<Longrightarrow> \<exists>w'. g w = Some w' \<and> data.holds_at w' (blocks ! i) J"
    and "i < length idx \<Longrightarrow> J \<le> length (blocks ! i)"
  shows "\<exists>t'. (reload f g t \<bind> SkipEmptyDataBlocksForward iops jops block_function) = Some t' \<and>
    two_at t' idx blocks (if i < length idx then offset blocks i + J else length (concat blocks))"
proof -
  have "\<exists>t1. reload f g t = Some t1 \<and> at_block t1 idx blocks i (if i < length idx then J else 0)"
    by (rule reload_at [where f = f, OF assms(1-3)]) (rule assms(5))
  then obtain t1 where
    t1: "reload f g t = Some t1" "at_block t1 idx blocks i (if i < length idx then J else 0)" by (elim exE conjE)
  obtain t' where t': "SkipEmptyDataBlocksForward iops jops block_function t1 = Some t'"
    "two_at t' idx blocks (offset blocks i + (if i < length idx then J else 0))"
    using skip_forward [OF assms(1) t1(2) assms(4)] assms(6) by auto
  have e: "offset blocks i + (if i < length idx then J else 0) = (if i < length idx then offset blocks i + J else length (concat blocks))"
    using indexed_parts(1) [OF assms(1)] by simp
  show ?thesis using t1(1) t' unfolding e by simp
qed

lemma reload_bind: "do { t \<leftarrow> move_index f t; t \<leftarrow> InitDataBlock iops jops block_function t; t \<leftarrow> move_data g t; h t } = reload f g t \<bind> h"
  by (simp add: reload_def)

lemma two_first:
  assumes "two_stands t L n" shows "\<exists>t'. TwoLevel_SeekToFirst iops jops block_function t = Some t' \<and> two_stands t' L 0"
proof -
  obtain idx blocks i where ib: "indexed idx blocks" "L = concat blocks" "coherent t idx blocks" "index.holds_at (tl_index t) idx i"
    using two_coherent [OF assms] .
  have "\<exists>t'. (reload (IW_SeekToFirst iops) (IW_SeekToFirst jops) t \<bind> SkipEmptyDataBlocksForward iops jops block_function) = Some t' \<and>
      two_at t' idx blocks (if 0 < length idx then offset blocks 0 + 0 else length (concat blocks))"
    by (rule skip_after [where f = "IW_SeekToFirst iops", OF ib(1,3) index.wrapper_moves(1) [OF ib(4)]]) (simp_all add: data.wrapper_moves(1))
  moreover have "(if 0 < length idx then offset blocks 0 + 0 else length (concat blocks)) = 0" using indexed_parts(1) [OF ib(1)] by (cases idx) simp_all
  ultimately show ?thesis unfolding TwoLevel_SeekToFirst_def reload_bind ib(2) by (intro two_standsI [OF ib(1)]) simp
qed

lemma two_last:
  assumes "two_stands t L n" shows "\<exists>t'. TwoLevel_SeekToLast iops jops block_function t = Some t' \<and> two_stands t' L (length L - 1)"
proof -
  obtain idx blocks i where ib: "indexed idx blocks" "L = concat blocks" "coherent t idx blocks" "index.holds_at (tl_index t) idx i"
    using two_coherent [OF assms] .
  let ?i = "length idx - 1" and ?J = "length (blocks ! (length idx - 1)) - 1"
  note len = indexed_parts(1) [OF ib(1)]
  have "\<exists>t'. reload (IW_SeekToLast iops) (IW_SeekToLast jops) t = Some t' \<and> at_block t' idx blocks ?i (if ?i < length idx then ?J else 0)"
    by (rule reload_at [where f = "IW_SeekToLast iops", OF ib(1,3) index.wrapper_moves(2) [OF ib(4)]]) (rule data.wrapper_moves(2))
  then obtain t1 where t1: "reload (IW_SeekToLast iops) (IW_SeekToLast jops) t = Some t1"
    "at_block t1 idx blocks ?i (if ?i < length idx then ?J else 0)" by (elim exE conjE)
  have "\<exists>t'. SkipEmptyDataBlocksBackward iops jops block_function t1 = Some t' \<and> two_at t' idx blocks (length (concat blocks) - 1)"
  proof (cases "idx = []")
    case True
    have "SkipEmptyDataBlocksBackward iops jops block_function t1 = SetDataIterator jops None t1"
      using data_valid [OF t1(2)] True by (subst SkipEmptyDataBlocksBackward.simps) auto
    then show ?thesis using close_at [OF t1(2)] True len by simp
  next
    case False
    then have i: "?i < length idx" "?i < length blocks" "Suc ?i = length blocks" using len by simp_all
    then have "offset blocks ?i + length (blocks ! ?i) = length (concat blocks)" using offset_Suc [OF i(2)] by simp
    then have e: "(if ?J < length (blocks ! ?i) then offset blocks ?i + ?J else before_block blocks ?i) = length (concat blocks) - 1"
      unfolding before_block_def by (rule last_position)
    have "at_block t1 idx blocks ?i ?J" using t1(2) unfolding if_P [OF i(1)] .
    from skip_backward [OF ib(1) this i(1)] show ?thesis unfolding e .
  qed
  then show ?thesis unfolding TwoLevel_SeekToLast_def reload_bind ib(2) t1(1) by (intro two_standsI [OF ib(1)]) simp
qed

text \<open>A search in the index leads to the block with the position of the search in all entries.\<close>

lemma seek_indexed:
  assumes "indexed idx blocks" and "good target"
  defines "i \<equiv> seek_pos below idx target"
  shows "(if i < length idx then offset blocks i + seek_pos below (blocks ! i) target else length (concat blocks)) =
    seek_pos below (concat blocks) target"
proof -
  let ?i = "seek_pos below idx target"
  note len = indexed_parts(1) [OF assms(1)]
  have good: "\<And>k. k \<in> fst ` set idx \<Longrightarrow> good k" using indexed_parts(7) [OF assms(1)] by blast
  have before: "\<forall>x \<in> set (concat (take ?i blocks)). below (fst x) target"
  proof
    fix x
    assume "x \<in> set (concat (take ?i blocks))"
    from concat_take_mem [OF this] obtain k where k: "k < ?i" "k < length blocks" "x \<in> set (blocks ! k)" by (elim exE conjE)
    have kl: "k < length idx" "fst x \<in> fst ` set (blocks ! k)" using k len by simp_all
    note a = indexed_keys [OF assms(1) kl]
    have "below (fst (idx ! k)) target" by (rule seek_pos_before [OF k(1)])
    moreover have "index.le (fst x) (fst (idx ! k))" using a(3) index.le_not_lt [OF a(1,2)] by simp
    ultimately show "below (fst x) target" using index.le_lt_trans [OF a(1,2) assms(2)] by simp
  qed
  show ?thesis
  proof (cases "?i < length idx")
    case False
    then have "take ?i blocks = blocks" using len by simp
    then have "\<forall>x \<in> set (concat blocks). below (fst x) target" using before by (simp only:)
    from seek_pos_append(1) [of _ below, OF this, of "[]"] have "seek_pos below (concat blocks) target = length (concat blocks) + seek_pos below [] target"
      by (simp only: append_Nil2)
    moreover have "seek_pos below [] target = 0" by (simp add: seek_pos_def)
    ultimately show ?thesis using False by (simp only: i_def if_False add_0_right)
  next
    case True
    have after: "\<forall>y \<in> set (concat (drop (Suc ?i) blocks)). \<not> below (fst y) target"
    proof
      fix y
      assume "y \<in> set (concat (drop (Suc ?i) blocks))"
      from concat_drop_mem [OF this] obtain k where k: "?i < k" "k < length blocks" "y \<in> set (blocks ! k)" by (elim exE conjE) (simp only: Suc_le_eq)
      have kl: "k < length idx" "fst y \<in> fst ` set (blocks ! k)" using k len by simp_all
      note a = indexed_keys [OF assms(1) kl]
      have gi: "good (fst (idx ! ?i))" using good True by simp
      have "index.le target (fst (idx ! ?i))" using seek_pos_at [OF True] index.le_not_lt [OF assms(2) gi] by simp
      then have "below target (fst y)" using index.le_lt_trans [OF assms(2) gi a(1) _ a(4) [OF k(1)]] by simp
      then show "\<not> below (fst y) target" using index.lt_trans [OF a(1) assms(2) a(1)] index.lt_irrefl [OF a(1)] by blast
    qed
    have "concat blocks = concat (take ?i blocks) @ blocks ! ?i @ concat (drop (Suc ?i) blocks)"
      by (rule concat_split) (use True len in simp)
    then show ?thesis using True seek_pos_append(1) [of _ below, OF before] seek_pos_append(2) [of _ below, OF after]
      unfolding i_def by (simp add: offset_def)
  qed
qed

lemma two_new:
  assumes "indexed idx blocks" and "istands it idx n"
  shows "\<exists>t. NewTwoLevelIterator iops it = Some t \<and> two_stands t (concat blocks) (length (concat blocks))"
proof -
  obtain w where w: "IW_Set iops (Some it) IteratorWrapper_null = Some w" "index.holds_at w idx n" using index.set_at [OF assms(2)] by blast
  let ?t = "\<lparr>tl_status = Status_OK, tl_index = w, tl_data = IteratorWrapper_null, tl_handle = []\<rparr>"
  have "two_at ?t idx blocks (length (concat blocks))"
    unfolding two_at_def using w(2) by (intro disjI2) (auto simp: closed_def IteratorWrapper_null_def)
  then have "two_stands ?t (concat blocks) (length (concat blocks))" using assms(1) by (auto simp: two_stands_def)
  then show ?thesis using w(1) by (simp add: NewTwoLevelIterator_def)
qed

lemma two_seek:
  assumes "two_stands t L n" and "good target"
  shows "\<exists>t'. TwoLevel_Seek iops jops block_function target t = Some t' \<and> two_stands t' L (seek_pos below L target)"
proof -
  obtain idx blocks i where ib: "indexed idx blocks" "L = concat blocks" "coherent t idx blocks" "index.holds_at (tl_index t) idx i"
    using two_coherent [OF assms(1)] .
  let ?i = "seek_pos below idx target"
  let ?J = "seek_pos below (blocks ! ?i) target"
  have "\<exists>t'. (reload (IW_Seek iops target) (IW_Seek jops target) t \<bind> SkipEmptyDataBlocksForward iops jops block_function) = Some t' \<and>
      two_at t' idx blocks (if ?i < length idx then offset blocks ?i + ?J else length (concat blocks))"
    by (rule skip_after [where f = "IW_Seek iops target", OF ib(1,3) index.wrapper_moves(3) [OF ib(4) assms(2)]])
      (simp_all add: data.wrapper_moves(3) assms(2) seek_pos_le)
  moreover have "(if ?i < length idx then offset blocks ?i + ?J else length (concat blocks)) = seek_pos below L target"
    unfolding ib(2) by (rule seek_indexed [OF ib(1) assms(2)])
  ultimately show ?thesis unfolding TwoLevel_Seek_def reload_bind ib(2) by (intro two_standsI [OF ib(1)]) simp
qed

lemma two_next:
  assumes "two_stands t L n" and "n < length L"
  shows "\<exists>t'. TwoLevel_Next iops jops block_function t = Some t' \<and> two_stands t' L (Suc n)"
proof -
  obtain idx blocks i j where ib: "indexed idx blocks" "L = concat blocks" "at_block t idx blocks i j"
    "i < length idx" "j < length (blocks ! i)" "n = offset blocks i + j" using two_standsE [OF assms] .
  have h: "data.holds_at (tl_data t) (blocks ! i) j" using ib(3,4) by (simp add: at_block_def)
  obtain w where w: "IW_Next jops (tl_data t) = Some w" "data.holds_at w (blocks ! i) (Suc j)"
    using data.wrapper_moves(4) [OF h ib(5)] by (elim exE conjE)
  have "at_block (t\<lparr>tl_data := w\<rparr>) idx blocks i (Suc j)" using ib(3,4) w(2) by (simp add: at_block_def)
  from skip_forward [OF ib(1) this] ib(4,5) have
    "\<exists>t'. SkipEmptyDataBlocksForward iops jops block_function (t\<lparr>tl_data := w\<rparr>) = Some t' \<and> two_at t' idx blocks (Suc n)"
    unfolding ib(6) by simp
  then show ?thesis using two_reads(1) [OF assms(1)] assms(2) unfolding TwoLevel_Next_def ib(2)
    by (intro two_standsI [OF ib(1)]) (simp add: w(1) ib(2))
qed

lemma two_prev:
  assumes "two_stands t L n" and "n < length L"
  shows "\<exists>t'. TwoLevel_Prev iops jops block_function t = Some t' \<and> two_stands t' L (if n = 0 then length L else n - 1)"
proof -
  obtain idx blocks i j where ib: "indexed idx blocks" "L = concat blocks" "at_block t idx blocks i j"
    "i < length idx" "j < length (blocks ! i)" "n = offset blocks i + j" using two_standsE [OF assms] .
  have h: "data.holds_at (tl_data t) (blocks ! i) j" using ib(3,4) by (simp add: at_block_def)
  let ?j = "if j = 0 then length (blocks ! i) else j - 1"
  obtain w where w: "IW_Prev jops (tl_data t) = Some w" "data.holds_at w (blocks ! i) ?j"
    using data.wrapper_moves(5) [OF h ib(5)] by (elim exE conjE)
  have "at_block (t\<lparr>tl_data := w\<rparr>) idx blocks i ?j" using ib(3,4) w(2) by (simp add: at_block_def)
  from skip_backward [OF ib(1) this ib(4)] obtain t' where
    t': "SkipEmptyDataBlocksBackward iops jops block_function (t\<lparr>tl_data := w\<rparr>) = Some t'"
      "two_at t' idx blocks (if ?j < length (blocks ! i) then offset blocks i + ?j else before_block blocks i)" by (elim exE conjE)
  have e: "(if ?j < length (blocks ! i) then offset blocks i + ?j else before_block blocks i) = (if n = 0 then length (concat blocks) else n - 1)"
    using ib(5,6) by (auto simp: before_block_def)
  have "\<exists>t'. SkipEmptyDataBlocksBackward iops jops block_function (t\<lparr>tl_data := w\<rparr>) = Some t' \<and>
      two_at t' idx blocks (if n = 0 then length (concat blocks) else n - 1)" using t' unfolding e by blast
  then show ?thesis using two_reads(1) [OF assms(1)] assms(2) unfolding TwoLevel_Prev_def ib(2)
    by (intro two_standsI [OF ib(1)]) (simp add: w(1) ib(2))
qed

end

sublocale two_level \<subseteq> two: cursor cmp good "TwoLevel_ops iops jops block_function" two_stands
proof (unfold_locales, goal_cases)
  case (1 t L n) then show ?case by (rule two_range)
next
  case (2 t L n) then show ?case using indexed_sorted by (auto simp: two_stands_def)
next
  case (3 t L n k)
  then obtain idx blocks where "indexed idx blocks" "L = concat blocks" by (auto simp: two_stands_def)
  then show ?case using indexed_good 3(2) by blast
next
  case (4 t L n) then show ?case using two_reads(1) by (simp add: TwoLevel_ops_def)
next
  case (5 t L n) then show ?case using two_reads(2) by (simp add: TwoLevel_ops_def)
next
  case (6 t L n) then show ?case using two_reads(3) by (simp add: TwoLevel_ops_def)
next
  case (7 t L n) then show ?case using two_reads(4) by (simp add: TwoLevel_ops_def)
next
  case (8 t L n) then show ?case using two_first by (simp add: TwoLevel_ops_def)
next
  case (9 t L n) then show ?case using two_last by (simp add: TwoLevel_ops_def)
next
  case (10 t L n target) then show ?case using two_seek by (simp add: TwoLevel_ops_def)
next
  case (11 t L n) then show ?case using two_next by (simp add: TwoLevel_ops_def)
next
  case (12 t L n) then show ?case using two_prev by (simp add: TwoLevel_ops_def split: if_splits)
qed

end
