(* ===== verification/Ldb_Table.thy ===== *)
theory Ldb_Table
  imports Ldb_Table_Builder Ldb_Two_Level
begin

text \<open>
  Reading a table (\<open>table/table.cc\<close>): opening a file with its footer, index block and filter, iterating
  over it with a two-level iterator whose block function reads data blocks, and looking up a key. The
  file is a parameter. The block cache is known by the answers of its \<open>Lookup\<close>, for the 16 bytes of a
  cache key; what the reader inserts into the cache is returned.
\<close>

subsection \<open>Iterators over a block\<close>

text \<open>The calls on the iterator that \<open>Block::NewIterator\<close> returns, of one class or the other.\<close>

fun BI_move :: "(Status \<Rightarrow> Status option) \<Rightarrow> (BlockIter \<Rightarrow> BlockIter option) \<Rightarrow> block_iterator \<Rightarrow> block_iterator option" where
  "BI_move f g (Empty_Iterator s) = map_option Empty_Iterator (f s)"
| "BI_move f g (Block_Iterator b) = map_option Block_Iterator (g b)"

fun BI_read :: "(Status \<Rightarrow> 'a) \<Rightarrow> (BlockIter \<Rightarrow> 'a) \<Rightarrow> block_iterator \<Rightarrow> 'a" where
  "BI_read f g (Empty_Iterator s) = f s"
| "BI_read f g (Block_Iterator b) = g b"

definition BI_ops :: "(slice \<Rightarrow> slice \<Rightarrow> int option) \<Rightarrow> block_iterator iter_ops" where
  "BI_ops cmp = (let e = Empty_ops; b = Block_ops cmp in
     \<lparr>it_Valid = BI_read (it_Valid e) (it_Valid b), it_SeekToFirst = BI_move (it_SeekToFirst e) (it_SeekToFirst b),
      it_SeekToLast = BI_move (it_SeekToLast e) (it_SeekToLast b), it_Seek = \<lambda>k. BI_move (it_Seek e k) (it_Seek b k),
      it_Next = BI_move (it_Next e) (it_Next b), it_Prev = BI_move (it_Prev e) (it_Prev b),
      it_key = BI_read (it_key e) (it_key b), it_value = BI_read (it_value e) (it_value b),
      it_status = BI_read (it_status e) (it_status b)\<rparr>)"

subsection \<open>Opening a table\<close>

record 'r Table =
  t_options :: Options
  t_file :: 'r
  t_cache_id :: "64 word"
  t_filter :: "FilterBlockReader option"
  t_metaindex_handle :: BlockHandle
  t_index_block :: Block

definition ReadFilter :: "'r random_access_ops \<Rightarrow> slice \<Rightarrow> 'r Table \<Rightarrow> 'r Table option" where
  "ReadFilter rops v t = do {
     (s, filter_handle, _) \<leftarrow> BlockHandle_DecodeFrom BlockHandle_new v;
     if \<not> Status_ok s then Some t
     else do {
       (s, block) \<leftarrow> ReadBlock rops (t_file t) (op_paranoid_checks (t_options t)) filter_handle;
       if \<not> Status_ok s then Some t
       else do { r \<leftarrow> FilterBlockReader_new (bc_data block); Some (t\<lparr>t_filter := Some r\<rparr>) }
     }
   }"

text \<open>Errors are not reported: the filter is only an optimisation.\<close>

definition ReadMeta :: "'r random_access_ops \<Rightarrow> Footer \<Rightarrow> 'r Table \<Rightarrow> 'r Table option" where
  "ReadMeta rops footer t =
     (case op_filter_policy (t_options t) of
        None \<Rightarrow> Some t
      | Some policy \<Rightarrow> do {
          (s, contents) \<leftarrow> ReadBlock rops (t_file t) (op_paranoid_checks (t_options t)) (ft_metaindex footer);
          if \<not> Status_ok s then Some t
          else do {
            meta \<leftarrow> Block_new (bc_data contents);
            iter \<leftarrow> Block_NewIterator meta;
            let ops = BI_ops Bytewise_Compare;
            let key = bytes_of_string ''filter.'' @ fp_Name policy;
            iter \<leftarrow> it_Seek ops key iter;
            if it_Valid ops iter then do {
              k \<leftarrow> it_key ops iter;
              if k = key then do { v \<leftarrow> it_value ops iter; ReadFilter rops v t } else Some t
            }
            else Some t
          }
        })"

text \<open>The cache, if there is one, hands out the identity of the table. A table is returned when the status
  is OK.\<close>

definition Table_Open ::
  "'r random_access_ops \<Rightarrow> Options \<Rightarrow> 64 word option \<Rightarrow> 'r \<Rightarrow> 64 word \<Rightarrow> (Status \<times> 'r Table option) option" where
  "Table_Open rops options new_id file size' =
     (if size' < of_nat kEncodedLength
      then do { s \<leftarrow> Status_Corruption (bytes_of_string ''file is too short to be an sstable'') []; Some (s, None) }
      else
        let (s, footer_input, _) = rf_Read rops file (size' - of_nat kEncodedLength) kEncodedLength in
        if \<not> Status_ok s then Some (s, None)
        else do {
          (s, footer, _) \<leftarrow> Footer_DecodeFrom footer_input;
          if \<not> Status_ok s then Some (s, None)
          else do {
            (s, contents) \<leftarrow> ReadBlock rops file (op_paranoid_checks options) (ft_index footer);
            if Status_ok s then do {
              index_block \<leftarrow> Block_new (bc_data contents);
              t \<leftarrow> ReadMeta rops footer \<lparr>t_options = options, t_file = file, t_cache_id = case_option 0 id new_id,
                t_filter = None, t_metaindex_handle = ft_metaindex footer, t_index_block = index_block\<rparr>;
              Some (s, Some t)
            }
            else Some (s, None)
          }
        })"

subsection \<open>Reading from a table\<close>

definition cache_key :: "64 word \<Rightarrow> 64 word \<Rightarrow> slice" where
  "cache_key cache_id off = EncodeFixed64 kLittleEndian cache_id @ EncodeFixed64 kLittleEndian off"

text \<open>What is inserted into the cache: the key, the block and its charge.\<close>

type_synonym cache_insert = "slice \<times> Block \<times> nat"

definition BlockReader ::
  "'r random_access_ops \<Rightarrow> (slice \<Rightarrow> Block option) option \<Rightarrow> 'r Table \<Rightarrow> ReadOptions \<Rightarrow> slice \<Rightarrow>
     (block_iterator \<times> cache_insert option) option" where
  "BlockReader rops block_cache t options index_value = do {
     (s, handle, _) \<leftarrow> BlockHandle_DecodeFrom BlockHandle_new index_value;
     (s, block, ins) \<leftarrow> (if \<not> Status_ok s then Some (s, None, None)
       else
         let key = cache_key (t_cache_id t) (bh_offset handle);
             cached = (case block_cache of None \<Rightarrow> None | Some lookup \<Rightarrow> lookup key)
         in case cached of
              Some block \<Rightarrow> Some (s, Some block, None)
            | None \<Rightarrow> do {
                (s, contents) \<leftarrow> ReadBlock rops (t_file t) (ro_verify_checksums options) handle;
                if Status_ok s then do {
                  block \<leftarrow> Block_new (bc_data contents);
                  Some (s, Some block,
                    if block_cache \<noteq> None \<and> bc_cachable contents \<and> ro_fill_cache options
                    then Some (key, block, blk_size block) else None)
                }
                else Some (s, None, None)
              });
     case block of
       Some block \<Rightarrow> do { iter \<leftarrow> Block_NewIterator block; Some (iter, ins) }
     | None \<Rightarrow> Some (Empty_Iterator (NewErrorIterator s), ins)
   }"

definition block_function ::
  "'r random_access_ops \<Rightarrow> (slice \<Rightarrow> Block option) option \<Rightarrow> 'r Table \<Rightarrow> ReadOptions \<Rightarrow> slice \<Rightarrow> block_iterator option" where
  "block_function rops block_cache t options index_value = map_option fst (BlockReader rops block_cache t options index_value)"

definition Table_NewIterator :: "'r Table \<Rightarrow> (block_iterator, block_iterator) TwoLevelIterator option" where
  "Table_NewIterator t = do {
     index \<leftarrow> Block_NewIterator (t_index_block t);
     NewTwoLevelIterator (BI_ops (cp_Compare (op_comparator (t_options t)))) index
   }"

definition Table_iter_ops ::
  "'r random_access_ops \<Rightarrow> (slice \<Rightarrow> Block option) option \<Rightarrow> 'r Table \<Rightarrow> ReadOptions \<Rightarrow>
     (block_iterator, block_iterator) TwoLevelIterator iter_ops" where
  "Table_iter_ops rops block_cache t options =
     (let ops = BI_ops (cp_Compare (op_comparator (t_options t))) in TwoLevel_ops ops ops (block_function rops block_cache t options))"

text \<open>The filter decides whether the block has to be read. The entry that the saver is called with is
  returned beside the status.\<close>

definition filter_excludes :: "'r Table \<Rightarrow> slice \<Rightarrow> slice \<Rightarrow> bool option" where
  "filter_excludes t handle_value k =
     (case (t_filter t, op_filter_policy (t_options t)) of
        (Some fr, Some policy) \<Rightarrow> do {
          (s, handle, _) \<leftarrow> BlockHandle_DecodeFrom BlockHandle_new handle_value;
          if Status_ok s then do {
            m \<leftarrow> FilterBlock_KeyMayMatch (fp_KeyMayMatch policy) fr (bh_offset handle) k;
            Some (\<not> m)
          } else Some False
        }
      | (Some fr, None) \<Rightarrow> None
      | (None, _) \<Rightarrow> Some False)"

definition InternalGet ::
  "'r random_access_ops \<Rightarrow> (slice \<Rightarrow> Block option) option \<Rightarrow> 'r Table \<Rightarrow> ReadOptions \<Rightarrow> slice \<Rightarrow>
     (Status \<times> (slice \<times> slice) option) option" where
  "InternalGet rops block_cache t options k = do {
     let ops = BI_ops (cp_Compare (op_comparator (t_options t)));
     iiter \<leftarrow> Block_NewIterator (t_index_block t);
     iiter \<leftarrow> it_Seek ops k iiter;
     (s, saved) \<leftarrow> (if it_Valid ops iiter then do {
         handle_value \<leftarrow> it_value ops iiter;
         excluded \<leftarrow> filter_excludes t handle_value k;
         if excluded then Some (Status_OK, None)
         else do {
           (block_iter, _) \<leftarrow> BlockReader rops block_cache t options handle_value;
           block_iter \<leftarrow> it_Seek ops k block_iter;
           saved \<leftarrow> (if it_Valid ops block_iter then do {
               key \<leftarrow> it_key ops block_iter;
               val \<leftarrow> it_value ops block_iter;
               Some (Some (key, val))
             } else Some None);
           s \<leftarrow> it_status ops block_iter;
           Some (s, saved)
         }
       } else Some (Status_OK, None));
     s \<leftarrow> (if Status_ok s then it_status ops iiter else Some s);
     Some (s, saved)
   }"

definition ApproximateOffsetOf :: "'r Table \<Rightarrow> slice \<Rightarrow> 64 word option" where
  "ApproximateOffsetOf t key = do {
     let ops = BI_ops (cp_Compare (op_comparator (t_options t)));
     index_iter \<leftarrow> Block_NewIterator (t_index_block t);
     index_iter \<leftarrow> it_Seek ops key index_iter;
     if it_Valid ops index_iter then do {
       input \<leftarrow> it_value ops index_iter;
       (s, handle, _) \<leftarrow> BlockHandle_DecodeFrom BlockHandle_new input;
       Some (if Status_ok s then bh_offset handle else bh_offset (t_metaindex_handle t))
     }
     else Some (bh_offset (t_metaindex_handle t))
   }"

end
