(* ===== verification/Ldb_Table_Build.thy ===== *)
theory Ldb_Table_Build
  imports Ldb_Table
begin

text \<open>
  What the table builder writes. The locale \<open>table_contract\<close> is what the builder asks of its options: a
  comparator that orders keys and shortens them between their neighbours, a positive restart interval and
  a filter policy without false negatives. Over a file that appends what it is given while it reports
  success, every call of the builder is defined, and a successful \<open>Finish\<close> leaves a file of the described
  layout.
\<close>

subsection \<open>Files and blocks in files\<close>

definition appends_to :: "'f writable_ops \<Rightarrow> ('f \<Rightarrow> byte list) \<Rightarrow> bool" where
  "appends_to wops contents \<longleftrightarrow>
     (\<forall>f d s f'. wf_Append wops f d = (s, f') \<longrightarrow> Status_ok s \<longrightarrow> contents f' = contents f @ d \<and> length (contents f') < 2 ^ 32) \<and>
     (\<forall>f s f'. wf_Flush wops f = (s, f') \<longrightarrow> Status_ok s \<longrightarrow> contents f' = contents f)"

lemma appends:
  assumes "appends_to wops contents"
  shows "wf_Append wops f d = (s, f') \<Longrightarrow> Status_ok s \<Longrightarrow> contents f' = contents f @ d"
    and "wf_Append wops f d = (s, f') \<Longrightarrow> Status_ok s \<Longrightarrow> length (contents f') < 2 ^ 32"
    and "wf_Flush wops f = (s, f') \<Longrightarrow> Status_ok s \<Longrightarrow> contents f' = contents f"
  using assms unfolding appends_to_def by blast+

definition has_block :: "byte list \<Rightarrow> BlockHandle \<Rightarrow> slice \<Rightarrow> bool" where
  "has_block contents h data \<longleftrightarrow>
     (\<exists>pre post. contents = pre @ raw_block data @ post \<and> h = \<lparr>bh_offset = of_nat (length pre), bh_size = of_nat (length data)\<rparr>)"

lemma has_block_append: "has_block contents h data \<Longrightarrow> has_block (contents @ more') h data"
  unfolding has_block_def by fastforce

lemma has_block_new:
  "has_block (contents @ raw_block data) \<lparr>bh_offset = of_nat (length contents), bh_size = of_nat (length data)\<rparr> data"
  unfolding has_block_def by fastforce

lemma read_block:
  assumes "has_block contents h data" and "reads_as rops file contents" and "length contents < 2 ^ 32"
  shows "\<exists>b. ReadBlock rops file verify h = Some (Status_OK, \<lparr>bc_data = data, bc_cachable = b, bc_heap_allocated = b\<rparr>)"
proof -
  obtain pre post where c: "contents = pre @ raw_block data @ post"
    "h = \<lparr>bh_offset = of_nat (length pre), bh_size = of_nat (length data)\<rparr>"
    using assms(1) by (auto simp: has_block_def)
  have "length (pre @ raw_block data @ post) < 2 ^ 63" using assms(3) unfolding c(1) by simp
  from read_raw_block [OF assms(2) [unfolded c(1)] this] show ?thesis unfolding c(2) .
qed

lemma has_block_sizes:
  assumes "has_block contents h data" and "length contents < 2 ^ 32"
  shows "bh_offset h \<noteq> NOT 0" and "bh_size h \<noteq> NOT 0" and "unat (bh_offset h) + length data < length contents" and "length data < 2 ^ 32"
proof -
  obtain pre post where c: "contents = pre @ raw_block data @ post"
    "h = \<lparr>bh_offset = of_nat (length pre), bh_size = of_nat (length data)\<rparr>"
    using assms(1) by (auto simp: has_block_def)
  have l: "length pre + length data + 5 \<le> length contents" unfolding c(1) by (simp add: kBlockTrailerSize_def)
  have n: "unat (of_nat (length pre) :: 64 word) = length pre" "unat (of_nat (length data) :: 64 word) = length data"
    using l assms(2) by (simp_all add: unat_of_nat)
  have "unat (NOT 0 :: 64 word) = 2 ^ 64 - 1" by (simp add: unsigned_minus_1_eq_mask mask_eq_exp_minus_1)
  then have m: "unat w < 2 ^ 32 \<Longrightarrow> w \<noteq> NOT 0" for w :: "64 word" by (rule contrapos_pn) simp
  show "bh_offset h \<noteq> NOT 0" unfolding c(2) BlockHandle.simps by (rule m) (use n l assms(2) in simp)
  show "bh_size h \<noteq> NOT 0" unfolding c(2) BlockHandle.simps by (rule m) (use n l assms(2) in simp)
  show "unat (bh_offset h) + length data < length contents" using n l unfolding c(2) by simp
  show "length data < 2 ^ 32" using l assms(2) by simp
qed

definition handle_enc :: "BlockHandle \<Rightarrow> slice" where
  "handle_enc h = EncodeVarint64 (bh_offset h) @ EncodeVarint64 (bh_size h)"

lemma handle_coding:
  assumes "bh_offset h \<noteq> NOT 0" and "bh_size h \<noteq> NOT 0"
  shows "BlockHandle_EncodeTo h [] = Some (handle_enc h)" and "BlockHandle_DecodeFrom h' (handle_enc h) = Some (Status_OK, h, [])"
proof -
  obtain e where e: "\<forall>dst. BlockHandle_EncodeTo h dst = Some (dst @ e)" "e = handle_enc h"
    "\<forall>h' rest. BlockHandle_DecodeFrom h' (e @ rest) = Some (Status_OK, h, rest)"
    using handle_roundtrip [OF assms] by (auto simp: handle_enc_def)
  show "BlockHandle_EncodeTo h [] = Some (handle_enc h)" using e(1) unfolding e(2) by simp
  show "BlockHandle_DecodeFrom h' (handle_enc h) = Some (Status_OK, h, [])" using e(3) [rule_format, of h' "[]"] unfolding e(2) by simp
qed

subsection \<open>Writing blocks\<close>

lemma write_raw:
  assumes "appends_to wops contents"
  shows "\<exists>f s off. WriteRawBlock wops data kNoCompression b =
      Some (\<lparr>bh_offset = tb_offset b, bh_size = of_nat (length data)\<rparr>, b\<lparr>tb_file := f, tb_status := s, tb_offset := off\<rparr>) \<and>
    (if Status_ok s then contents f = contents (tb_file b) @ raw_block data \<and> length (contents f) < 2 ^ 32 \<and>
       off = tb_offset b + of_nat (length (raw_block data)) else off = tb_offset b)"
proof -
  obtain s f where a: "wf_Append wops (tb_file b) data = (s, f)" by (cases "wf_Append wops (tb_file b) data")
  have crc: "crc_Value 0 data = Some (crc32c 0 data)" "crc_Extend (crc32c 0 data) 0 [0] = Some (crc32c 0 (data @ [0]))"
    by (simp_all add: crc_Value_def crc_Extend_eq crc32c_append)
  show ?thesis
  proof (cases "Status_ok s")
    case False
    have "WriteRawBlock wops data kNoCompression b =
      Some (\<lparr>bh_offset = tb_offset b, bh_size = of_nat (length data)\<rparr>, b\<lparr>tb_file := f, tb_status := s\<rparr>)"
      using a False by (simp add: WriteRawBlock_def)
    moreover have "b\<lparr>tb_file := f, tb_status := s\<rparr> = b\<lparr>tb_file := f, tb_status := s, tb_offset := tb_offset b\<rparr>" by simp
    ultimately show ?thesis using False by (metis (no_types, lifting))
  next
    case True
    let ?t = "0 # EncodeFixed32 kLittleEndian (crc_Mask (crc32c 0 (data @ [0])))"
    obtain s' f' where a': "wf_Append wops f ?t = (s', f')" by (cases "wf_Append wops f ?t")
    have c: "contents f = contents (tb_file b) @ data" by (rule appends(1) [OF assms a True])
    have c': "Status_ok s' \<Longrightarrow> contents f' = contents f @ ?t" "Status_ok s' \<Longrightarrow> length (contents f') < 2 ^ 32"
      using appends(1,2) [OF assms a'] by blast+
    let ?off = "if Status_ok s' then tb_offset b + of_nat (length (raw_block data)) else tb_offset b"
    have "WriteRawBlock wops data kNoCompression b =
      Some (\<lparr>bh_offset = tb_offset b, bh_size = of_nat (length data)\<rparr>, b\<lparr>tb_file := f', tb_status := s', tb_offset := ?off\<rparr>)"
      using a a' True crc by (simp add: WriteRawBlock_def add.assoc)
    moreover have "Status_ok s' \<Longrightarrow> contents f' = contents (tb_file b) @ raw_block data" using c c'(1) by (simp add: raw_block_def)
    ultimately show ?thesis using c'(2) by (intro exI [of _ f'] exI [of _ s'] exI [of _ ?off]) simp
  qed
qed

lemma built_reset: "1 \<le> interval \<Longrightarrow> built interval (BlockBuilder_Reset b) ly_empty"
  by (simp add: BlockBuilder_Reset_def built_def ly_empty_def ly_ok_def ly_bytes_def ly_off_def)

lemma write_block:
  assumes "appends_to wops contents" and "tb_ok b" and "built interval block L"
  shows "\<exists>f s off block'. WriteBlock wops block b = Some (\<lparr>bh_offset = tb_offset b, bh_size = of_nat (length (ly_data L))\<rparr>,
      block', b\<lparr>tb_file := f, tb_status := s, tb_offset := off\<rparr>) \<and> built interval block' ly_empty \<and>
    (if Status_ok s then contents f = contents (tb_file b) @ raw_block (ly_data L) \<and> length (contents f) < 2 ^ 32 \<and>
       off = tb_offset b + of_nat (length (raw_block (ly_data L))) else off = tb_offset b)"
proof -
  obtain block' where f: "BlockBuilder_Finish block = (ly_data L, block')" using finish_data [OF assms(3)] by (cases "BlockBuilder_Finish block") simp
  have c: "compress t d = (d, kNoCompression)" for t d by (cases t) (simp_all add: compress_def Snappy_Compress_def)
  have "1 \<le> interval" using assms(3) by (simp add: built_def)
  then have r: "built interval (BlockBuilder_Reset block') ly_empty" by (rule built_reset)
  from write_raw [OF assms(1), of "ly_data L" b] obtain g s off where
    w: "WriteRawBlock wops (ly_data L) kNoCompression b = Some (\<lparr>bh_offset = tb_offset b, bh_size = of_nat (length (ly_data L))\<rparr>,
      b\<lparr>tb_file := g, tb_status := s, tb_offset := off\<rparr>)"
    "if Status_ok s then contents g = contents (tb_file b) @ raw_block (ly_data L) \<and> length (contents g) < 2 ^ 32 \<and>
       off = tb_offset b + of_nat (length (raw_block (ly_data L))) else off = tb_offset b" by (elim exE conjE)
  have "WriteBlock wops block b = Some (\<lparr>bh_offset = tb_offset b, bh_size = of_nat (length (ly_data L))\<rparr>,
      BlockBuilder_Reset block', b\<lparr>tb_file := g, tb_status := s, tb_offset := off\<rparr>)"
    using assms(2) by (simp add: WriteBlock_def f c w(1) Let_def)
  then show ?thesis using r w(2) by (intro exI conjI)
qed

subsection \<open>The state of the builder\<close>

definition ly_keys :: "layout \<Rightarrow> slice list" where
  "ly_keys L = map fst (ly_entries L)"

definition block_entries :: "(BlockHandle \<times> layout) list \<Rightarrow> (slice \<times> slice) list" where
  "block_entries blks = concat (map (\<lambda>(h, L). ly_entries L) blks)"

text \<open>The keys that come behind a block.\<close>

definition following :: "(BlockHandle \<times> layout) list \<Rightarrow> slice list \<Rightarrow> nat \<Rightarrow> slice list" where
  "following blks cur i = map fst (block_entries (drop (Suc i) blks)) @ cur"

locale table_contract =
  separator "cp_Compare (op_comparator options)" good "cp_FindShortestSeparator (op_comparator options)"
    "cp_FindShortSuccessor (op_comparator options)"
  for options :: Options and good :: "slice \<Rightarrow> bool" +
  assumes interval: "1 \<le> op_block_restart_interval options"
    and policy: "op_filter_policy options = Some p \<Longrightarrow> filter_policy (fp_CreateFilter p) (fp_KeyMayMatch p) good"
begin

abbreviation cmp :: "slice \<Rightarrow> slice \<Rightarrow> int option" where
  "cmp \<equiv> cp_Compare (op_comparator options)"

abbreviation sep :: "slice \<Rightarrow> slice \<Rightarrow> slice option" where
  "sep \<equiv> cp_FindShortestSeparator (op_comparator options)"

text \<open>The key of an index entry separates its block from the keys behind it; between two keys it is what
  the comparator makes of the last key of the block and the next key.\<close>

definition separates :: "slice \<Rightarrow> slice list \<Rightarrow> slice list \<Rightarrow> bool" where
  "separates c ks rest \<longleftrightarrow> good c \<and> (\<forall>k \<in> set ks. le k c) \<and> (\<forall>k \<in> set rest. lt c k) \<and>
     (\<exists>a \<in> set ks. rest \<noteq> [] \<longrightarrow> sep a (hd rest) = Some c)"

definition indexes_blocks :: "(slice \<times> slice) list \<Rightarrow> (BlockHandle \<times> layout) list \<Rightarrow> slice list \<Rightarrow> bool" where
  "indexes_blocks idx blks cur \<longleftrightarrow> length idx \<le> length blks \<and>
     (\<forall>i < length idx. snd (idx ! i) = handle_enc (fst (blks ! i)) \<and>
        separates (fst (idx ! i)) (ly_keys (snd (blks ! i))) (following blks cur i))"

definition filtered :: "'f TableBuilder \<Rightarrow> (BlockHandle \<times> layout) list \<Rightarrow> slice list \<Rightarrow> bool" where
  "filtered b blks cur \<longleftrightarrow>
     (case (tb_filter_block b, op_filter_policy options) of
        (None, None) \<Rightarrow> True
      | (Some fb, Some p) \<Rightarrow> filter_policy.tracks (fp_KeyMayMatch p) good fb (tb_offset b)
          (map (\<lambda>(h, L). (bh_offset h, ly_keys L)) blks) cur
      | _ \<Rightarrow> False)"

definition stored :: "byte list \<Rightarrow> (BlockHandle \<times> layout) list \<Rightarrow> bool" where
  "stored bytes blks \<longleftrightarrow> (\<forall>(h, L) \<in> set blks. ly_ok L \<and> ly_entries L \<noteq> [] \<and> has_block bytes h (ly_data L)) \<and>
     sorted_wrt (<) (map (\<lambda>(h, L). bh_offset h) blks)"

definition pending_ok :: "'f TableBuilder \<Rightarrow> (BlockHandle \<times> layout) list \<Rightarrow> nat \<Rightarrow> (slice \<times> slice) list \<Rightarrow> bool" where
  "pending_ok b blks n cur \<longleftrightarrow>
     (if tb_pending_index_entry b then cur = [] \<and> length blks = Suc n \<and> tb_pending_handle b = fst (last blks)
      else length blks = n \<and> (blks = [] \<or> cur \<noteq> []))"

text \<open>A builder without an error that was given the entries \<open>kvs\<close>: the finished blocks \<open>blks\<close> are in
  the file, the layouts of the index block and of the current data block are \<open>LI\<close> and \<open>LD\<close>.\<close>

definition writing ::
  "('f \<Rightarrow> byte list) \<Rightarrow> 'f TableBuilder \<Rightarrow> (slice \<times> slice) list \<Rightarrow> (BlockHandle \<times> layout) list \<Rightarrow> layout \<Rightarrow> layout \<Rightarrow> bool" where
  "writing contents b kvs blks LI LD \<longleftrightarrow>
     (tb_options b = options \<and> tb_index_block_options b = options\<lparr>op_block_restart_interval := 1\<rparr> \<and> \<not> tb_closed b \<and> tb_ok b \<and>
       tb_filter_policy b = op_filter_policy options) \<and>
     (length (contents (tb_file b)) < 2 ^ 32 \<and> tb_offset b = of_nat (length (contents (tb_file b)))) \<and>
     (kvs = block_entries blks @ ly_entries LD \<and> sorted_wrt lt (map fst kvs) \<and> (\<forall>k \<in> fst ` set kvs. good k)) \<and>
     (built (op_block_restart_interval options) (tb_data_block b) LD \<and> built 1 (tb_index_block b) LI \<and> ly_sorted LI) \<and>
     (stored (contents (tb_file b)) blks \<and> indexes_blocks (ly_entries LI) blks (ly_keys LD)) \<and>
     pending_ok b blks (ly_size LI) (ly_entries LD) \<and>
     (tb_num_entries b = int (length kvs) \<and> (kvs \<noteq> [] \<longrightarrow> tb_last_key b = fst (last kvs))) \<and>
     filtered b blks (ly_keys LD)"

lemma writingD:
  assumes "writing contents b kvs blks LI LD"
  shows "tb_options b = options" "tb_index_block_options b = options\<lparr>op_block_restart_interval := 1\<rparr>" "\<not> tb_closed b" "tb_ok b"
    and "length (contents (tb_file b)) < 2 ^ 32" "tb_offset b = of_nat (length (contents (tb_file b)))"
    and "kvs = block_entries blks @ ly_entries LD" "sorted_wrt lt (map fst kvs)" "\<forall>k \<in> fst ` set kvs. good k"
    and "built (op_block_restart_interval options) (tb_data_block b) LD" "built 1 (tb_index_block b) LI" "ly_sorted LI"
    and "stored (contents (tb_file b)) blks" "indexes_blocks (ly_entries LI) blks (ly_keys LD)"
    and "pending_ok b blks (ly_size LI) (ly_entries LD)"
    and "tb_num_entries b = int (length kvs)" "kvs \<noteq> [] \<longrightarrow> tb_last_key b = fst (last kvs)" "filtered b blks (ly_keys LD)"
    and "tb_filter_policy b = op_filter_policy options"
  using assms unfolding writing_def by blast+

definition failed :: "'f TableBuilder \<Rightarrow> bool" where
  "failed b \<longleftrightarrow> \<not> tb_ok b \<and> \<not> tb_closed b \<and> (tb_filter_block b = None \<longleftrightarrow> tb_filter_policy b = None)"

subsection \<open>The index\<close>

lemma block_entries_append [simp]: "block_entries (xs @ ys) = block_entries xs @ block_entries ys"
  by (simp add: block_entries_def)

lemma block_entries_simps [simp]: "block_entries [] = []" "block_entries ((h, L) # xs) = ly_entries L @ block_entries xs"
  by (simp_all add: block_entries_def)

lemma following_flush: "i < length blks \<Longrightarrow> following (blks @ [(h, L)]) [] i = following blks (ly_keys L) i"
  by (simp add: following_def ly_keys_def)

lemma following_last: "length blks \<le> Suc n \<Longrightarrow> following blks cur n = cur"
  by (simp add: following_def)

lemma following_snoc: "following blks (cur @ [k]) i = following blks cur i @ [k]"
  by (simp add: following_def)

lemma following_mem: "k \<in> set (following blks cur i) \<Longrightarrow> k \<in> fst ` set (block_entries blks) \<or> k \<in> set cur"
  by (auto simp: following_def block_entries_def dest!: in_set_dropD)

lemma following_nonempty:
  assumes "stored bytes blks" and "Suc i < length blks \<or> cur \<noteq> []"
  shows "following blks cur i \<noteq> []"
proof (cases "Suc i < length blks")
  case True
  then obtain h L where hL: "blks ! Suc i = (h, L)" "(h, L) \<in> set blks" by (metis nth_mem surj_pair)
  then have "ly_entries L \<noteq> []" using assms(1) by (auto simp: stored_def)
  moreover have "drop (Suc i) blks = (h, L) # drop (Suc (Suc i)) blks" using True hL(1) by (metis Cons_nth_drop_Suc)
  ultimately show ?thesis by (simp add: following_def)
qed (use assms(2) in \<open>simp add: following_def\<close>)

lemma separates_snoc:
  assumes "separates c ks rest" and "rest \<noteq> []" and "good k" and "\<forall>x \<in> set rest. good x \<and> lt x k"
  shows "separates c ks (rest @ [k])"
proof -
  have "hd rest \<in> set rest" using assms(2) by simp
  then have "lt c (hd rest)" "good (hd rest)" "lt (hd rest) k" "good c" using assms(1,4) by (auto simp: separates_def)
  then have "lt c k" using lt_trans assms(3) by blast
  then show ?thesis using assms(1,2) by (auto simp: separates_def)
qed

lemma index_snoc:
  assumes "indexes_blocks idx blks cur" and "stored bytes blks" and "length idx < length blks \<or> cur \<noteq> [] \<or> blks = []"
    and "good k" and "\<forall>x \<in> fst ` set (block_entries blks) \<union> set cur. good x \<and> lt x k"
  shows "indexes_blocks idx blks (cur @ [k])"
  unfolding indexes_blocks_def following_snoc
proof (intro conjI allI impI)
  fix i
  assume i: "i < length idx"
  then have "following blks cur i \<noteq> []" using assms(1,3) by (intro following_nonempty [OF assms(2)]) (auto simp: indexes_blocks_def)
  moreover have "\<forall>x \<in> set (following blks cur i). good x \<and> lt x k" using following_mem assms(5) by fastforce
  ultimately show "separates (fst (idx ! i)) (ly_keys (snd (blks ! i))) (following blks cur i @ [k])"
    using assms(1,4) i by (intro separates_snoc) (auto simp: indexes_blocks_def)
qed (use assms(1) in \<open>auto simp: indexes_blocks_def\<close>)

lemma index_flush:
  assumes "indexes_blocks idx blks (ly_keys L)" and "length idx \<le> length blks"
  shows "indexes_blocks idx (blks @ [(h, L)]) []"
  using assms by (auto simp: indexes_blocks_def following_flush nth_append)

lemma index_entry:
  assumes "indexes_blocks idx blks cur" and "length blks = Suc (length idx)"
    and "separates c (ly_keys (snd (last blks))) cur"
  shows "indexes_blocks (idx @ [(c, handle_enc (fst (last blks)))]) blks cur"
  unfolding indexes_blocks_def
proof (intro conjI allI impI)
  fix i
  assume "i < length (idx @ [(c, handle_enc (fst (last blks)))])"
  then consider "i < length idx" | "i = length idx" by fastforce
  then show "snd ((idx @ [(c, handle_enc (fst (last blks)))]) ! i) = handle_enc (fst (blks ! i))"
    and "separates (fst ((idx @ [(c, handle_enc (fst (last blks)))]) ! i)) (ly_keys (snd (blks ! i))) (following blks cur i)"
  proof (atomize (full), cases)
    case 1
    then show "snd ((idx @ [(c, handle_enc (fst (last blks)))]) ! i) = handle_enc (fst (blks ! i)) \<and>
        separates (fst ((idx @ [(c, handle_enc (fst (last blks)))]) ! i)) (ly_keys (snd (blks ! i))) (following blks cur i)"
      using assms(1) by (simp add: indexes_blocks_def nth_append)
  next
    case 2
    have "blks ! i = last blks" using assms(2) 2 by (cases blks rule: rev_cases) (simp_all add: nth_append)
    then show "snd ((idx @ [(c, handle_enc (fst (last blks)))]) ! i) = handle_enc (fst (blks ! i)) \<and>
        separates (fst ((idx @ [(c, handle_enc (fst (last blks)))]) ! i)) (ly_keys (snd (blks ! i))) (following blks cur i)"
      using assms(2,3) 2 by (simp add: following_last)
  qed
qed (use assms(2) in simp)

lemma index_below:
  assumes "indexes_blocks idx blks cur" and "length blks = Suc (length idx)" and "k \<in> set (ly_keys (snd (last blks)))"
    and "good k" and "good c" and "le k c"
  shows "\<forall>x \<in> fst ` set idx. lt x c"
proof
  fix x
  assume "x \<in> fst ` set idx"
  then obtain i where i: "i < length idx" "x = fst (idx ! i)" by (auto simp: in_set_conv_nth)
  then have s: "separates x (ly_keys (snd (blks ! i))) (following blks cur i)" using assms(1) by (simp add: indexes_blocks_def)
  have "last blks \<in> set (drop (Suc i) blks)" using i(1) assms(2) by (metis Suc_less_eq drop_eq_Nil2 last_drop last_in_set not_le)
  moreover obtain h L where hL: "last blks = (h, L)" by fastforce
  ultimately have "k \<in> set (following blks cur i)" using assms(3) by (force simp: following_def block_entries_def ly_keys_def)
  then have "lt x k" "good x" using s by (auto simp: separates_def)
  then show "lt x c" using lt_le_trans assms(4-6) by blast
qed

end

subsection \<open>Each call keeps the state\<close>

lemma ly_keys_empty [simp]: "ly_keys ly_empty = []" "ly_entries ly_empty = []"
  by (simp_all add: ly_keys_def ly_empty_def)

context table_contract
begin

lemma stored_more: "stored bytes blks \<Longrightarrow> stored (bytes @ more') blks"
  unfolding stored_def using has_block_append by fastforce

lemma new_writes:
  assumes "contents f = []"
  shows "\<exists>b. TableBuilder_new options f = Some b \<and> writing contents b [] [] ly_empty ly_empty"
proof -
  obtain d where d: "BlockBuilder_new (op_block_restart_interval options) = Some d" "built (op_block_restart_interval options) d ly_empty"
    using built_new [OF interval] by blast
  have i: "built 1 d ly_empty" using d built_new [of 1] interval by (auto simp: BlockBuilder_new_def)
  have "\<exists>fb. (case op_filter_policy options of None \<Rightarrow> Some None
       | Some p \<Rightarrow> map_option Some (StartBlock (fp_CreateFilter p) 0 FilterBlockBuilder_new)) = Some fb \<and>
     (case (fb, op_filter_policy options) of (None, None) \<Rightarrow> True
       | (Some fb, Some p) \<Rightarrow> filter_policy.tracks (fp_KeyMayMatch p) good fb 0 [] [] | _ \<Rightarrow> False)"
  proof (cases "op_filter_policy options")
    case (Some p)
    from filter_policy.tracks_new [OF policy [OF Some]] show ?thesis using Some by auto
  qed simp
  then obtain fb where fb: "(case op_filter_policy options of None \<Rightarrow> Some None
       | Some p \<Rightarrow> map_option Some (StartBlock (fp_CreateFilter p) 0 FilterBlockBuilder_new)) = Some fb"
    "case (fb, op_filter_policy options) of (None, None) \<Rightarrow> True
       | (Some fb, Some p) \<Rightarrow> filter_policy.tracks (fp_KeyMayMatch p) good fb 0 [] [] | _ \<Rightarrow> False" by blast
  show ?thesis
    by (simp add: TableBuilder_new_def d(1) fb(1) writing_def assms d(2) i ly_sorted_def stored_def indexes_blocks_def
        pending_ok_def filtered_def fb(2) [simplified] cong: option.case_cong)
qed

lemma start_filter_keeps:
  assumes "filtered b blks cur" and "tb_filter_policy b' = op_filter_policy options"
    and "tb_filter_block b' = tb_filter_block b" and "tb_offset b \<le> tb_offset b'" and "h = tb_offset b"
  shows "\<exists>fb. start_filter b' = Some (b'\<lparr>tb_filter_block := fb\<rparr>) \<and> (fb = None \<longleftrightarrow> op_filter_policy options = None) \<and>
    (cur = ly_keys L \<and> bh_offset hL = h \<longrightarrow> filtered (b'\<lparr>tb_filter_block := fb\<rparr>) (blks @ [(hL, L)]) [])"
proof (cases "tb_filter_block b")
  case None
  then have "op_filter_policy options = None" using assms(1) by (auto simp: filtered_def split: option.splits)
  moreover have "b' = b'\<lparr>tb_filter_block := None\<rparr>" using None assms(3) by simp
  ultimately show ?thesis using None assms(2,3) by (intro exI [of _ None]) (simp add: start_filter_def filtered_def)
next
  case (Some fb)
  then obtain p where p: "op_filter_policy options = Some p" "filter_policy.tracks (fp_KeyMayMatch p) good fb (tb_offset b)
     (map (\<lambda>(h, L). (bh_offset h, ly_keys L)) blks) cur"
    using assms(1) by (auto simp: filtered_def split: option.splits)
  from filter_policy.tracks_start [OF policy [OF p(1)] p(2) assms(4)] obtain fb' where
    fb': "StartBlock (fp_CreateFilter p) (tb_offset b') fb = Some fb'"
    "filter_policy.tracks (fp_KeyMayMatch p) good fb' (tb_offset b') (map (\<lambda>(h, L). (bh_offset h, ly_keys L)) blks @ [(tb_offset b, cur)]) []"
    by blast
  show ?thesis using Some p(1) fb' assms(2,3,5)
    by (intro exI [of _ "Some fb'"]) (auto simp: start_filter_def filtered_def)
qed

lemma filtered_cong:
  assumes "tb_filter_block b' = tb_filter_block b" and "tb_offset b' = tb_offset b"
  shows "filtered b' blks cur = filtered b blks cur"
  unfolding filtered_def assms ..

lemma filtered_None: "filtered b blks cur \<Longrightarrow> tb_filter_block b = None \<longleftrightarrow> op_filter_policy options = None"
  by (auto simp: filtered_def split: option.splits)

lemma data_empty: "built n b L \<Longrightarrow> BlockBuilder_empty b \<longleftrightarrow> ly_entries L = []"
  using entry_nonempty by (cases "ly_entries L" rule: rev_cases)
    (auto simp: built_def BlockBuilder_empty_def ly_bytes_def ly_entry_def)

lemma offset_grows:
  assumes "length bytes < 2 ^ 32" and "length (bytes @ raw_block d) < 2 ^ 32"
  shows "(of_nat (length bytes) :: 64 word) < of_nat (length (bytes @ raw_block d))"
proof -
  have "unat (of_nat (length bytes) :: 64 word) = length bytes"
    "unat (of_nat (length (bytes @ raw_block d)) :: 64 word) = length (bytes @ raw_block d)"
    using assms by (simp_all only: unat_of_nat) simp_all
  then show ?thesis by (simp add: word_less_nat_alt kBlockTrailerSize_def)
qed

lemma stored_snoc:
  assumes "stored bytes blks" and "ly_ok L" and "ly_entries L \<noteq> []" and "length (bytes @ raw_block (ly_data L)) < 2 ^ 32"
  shows "stored (bytes @ raw_block (ly_data L)) (blks @ [(\<lparr>bh_offset = of_nat (length bytes), bh_size = of_nat (length (ly_data L))\<rparr>, L)])"
proof -
  have small: "length bytes < 2 ^ 32" using assms(4) by simp
  have "bh_offset h < of_nat (length bytes)" if hL: "(h, L') \<in> set blks" for h L'
  proof -
    have "has_block bytes h (ly_data L')" using assms(1) hL by (auto simp: stored_def)
    from has_block_sizes(3) [OF this small] have "unat (bh_offset h) < length bytes" by simp
    moreover have "unat (of_nat (length bytes) :: 64 word) = length bytes" using small by (simp only: unat_of_nat) simp
    ultimately show ?thesis by (simp add: word_less_nat_alt)
  qed
  then have "sorted_wrt (<) (map (\<lambda>(h, L). bh_offset h) (blks @ [(\<lparr>bh_offset = of_nat (length bytes), bh_size = of_nat (length (ly_data L))\<rparr>, L)]))"
    using assms(1) by (auto simp: stored_def sorted_wrt_append)
  then show ?thesis using stored_more [OF assms(1), of "raw_block (ly_data L)"] assms(2,3) has_block_new [of bytes "ly_data L"]
    by (auto simp: stored_def)
qed

end

context table_contract
begin

lemma entries_sorted:
  assumes "writing contents b kvs blks LI LD"
  shows "ly_sorted LD" and "(h, L) \<in> set blks \<Longrightarrow> ly_sorted L"
proof -
  note w = writingD [OF assms]
  show "ly_sorted LD" using w(8,9) unfolding w(7) by (simp add: ly_sorted_def sorted_wrt_append)
  assume "(h, L) \<in> set blks"
  then obtain xs ys where "blks = xs @ (h, L) # ys" by (meson split_list)
  then show "ly_sorted L" using w(8,9) unfolding w(7) by (simp add: ly_sorted_def sorted_wrt_append)
qed

lemma flush_writes:
  assumes "appends_to wops contents" and "writing contents b kvs blks LI LD"
  shows "\<exists>b'. TableBuilder_Flush wops b = Some b' \<and>
    ((\<exists>blks' LD'. writing contents b' kvs blks' LI LD' \<and> ly_entries LD' = []) \<or> failed b')"
proof -
  note w = writingD [OF assms(2)]
  show ?thesis
  proof (cases "ly_entries LD = []")
    case True
    then have "TableBuilder_Flush wops b = Some b" using w(3,4) data_empty [OF w(10)] by (simp add: TableBuilder_Flush_def)
    then show ?thesis using assms(2) True by blast
  next
    case False
    then have np: "\<not> tb_pending_index_entry b" and n: "length blks = ly_size LI" using w(15) by (auto simp: pending_ok_def split: if_splits)
    let ?h = "\<lparr>bh_offset = tb_offset b, bh_size = of_nat (length (ly_data LD))\<rparr>"
    from write_block [OF assms(1) w(4,10)] obtain f s off block' where
      wb: "WriteBlock wops (tb_data_block b) b = Some (?h, block', b\<lparr>tb_file := f, tb_status := s, tb_offset := off\<rparr>)"
        "built (op_block_restart_interval options) block' ly_empty"
        "if Status_ok s then contents f = contents (tb_file b) @ raw_block (ly_data LD) \<and> length (contents f) < 2 ^ 32 \<and>
           off = tb_offset b + of_nat (length (raw_block (ly_data LD))) else off = tb_offset b"
      by (elim exE conjE)
    have written: "contents f = contents (tb_file b) @ raw_block (ly_data LD) \<and> length (contents f) < 2 ^ 32 \<and> off = of_nat (length (contents f))"
      if s: "Status_ok s"
    proof -
      from wb(3) [unfolded if_P [OF s]] have c: "contents f = contents (tb_file b) @ raw_block (ly_data LD)" "length (contents f) < 2 ^ 32"
        "off = tb_offset b + of_nat (length (raw_block (ly_data LD)))" by blast+
      then show ?thesis using w(6) by (intro conjI) (assumption | simp)+
    qed
    obtain s' f' where fl: "wf_Flush wops f = (s', f')" by fastforce
    let ?b1 = "b\<lparr>tb_file := f, tb_status := s, tb_offset := off, tb_data_block := block', tb_pending_handle := ?h\<rparr>"
    let ?b2 = "if Status_ok s then ?b1\<lparr>tb_pending_index_entry := True, tb_status := s', tb_file := f'\<rparr> else ?b1"
    have flush: "TableBuilder_Flush wops b = start_filter ?b2"
      using w(3,4) np data_empty [OF w(10)] False fl by (simp add: TableBuilder_Flush_def wb(1))
    have le: "tb_offset b \<le> tb_offset ?b2"
    proof (cases "Status_ok s")
      case True
      from written [OF this] have c: "contents f = contents (tb_file b) @ raw_block (ly_data LD)" "length (contents f) < 2 ^ 32"
        "off = of_nat (length (contents f))" by blast+
      from offset_grows [OF w(5), of "ly_data LD"] show ?thesis using True c w(6) by simp
    qed (use wb(3) in simp)
    have o: "tb_filter_policy ?b2 = op_filter_policy options" "tb_filter_block ?b2 = tb_filter_block b" using w(19) by simp_all
    from start_filter_keeps [OF w(18) o le refl, of LD ?h] obtain fb where
      fb: "start_filter ?b2 = Some (?b2\<lparr>tb_filter_block := fb\<rparr>)" "fb = None \<longleftrightarrow> op_filter_policy options = None"
        "filtered (?b2\<lparr>tb_filter_block := fb\<rparr>) (blks @ [(?h, LD)]) []" by auto
    let ?b' = "?b2\<lparr>tb_filter_block := fb\<rparr>"
    have res: "TableBuilder_Flush wops b = Some ?b'" unfolding flush by (rule fb(1))
    show ?thesis
    proof (cases "Status_ok s \<and> Status_ok s'")
      case False
      then have "failed ?b'" using w(3,19) fb(2) by (auto simp: failed_def)
      with res show ?thesis by (intro exI conjI disjI2)
    next
      case True
      then have s: "Status_ok s" "Status_ok s'" by simp_all
      from written [OF s(1)] appends(3) [OF assms(1) fl s(2)] have c: "contents f = contents (tb_file b) @ raw_block (ly_data LD)"
        "length (contents f) < 2 ^ 32" "off = of_nat (length (contents f))" "contents f' = contents f" by blast+
      have h: "?h = \<lparr>bh_offset = of_nat (length (contents (tb_file b))), bh_size = of_nat (length (ly_data LD))\<rparr>" using w(6) by simp
      have "ly_ok LD" using w(10) by (simp add: built_def)
      from stored_snoc [OF w(13) this False c(2) [unfolded c(1)]] have st: "stored (contents f) (blks @ [(?h, LD)])"
        unfolding h c(1) .
      have idx: "indexes_blocks (ly_entries LI) (blks @ [(?h, LD)]) []" by (rule index_flush [OF w(14)]) (simp add: n)
      have "writing contents ?b' kvs (blks @ [(?h, LD)]) LI ly_empty"
        unfolding writing_def using w(1-3,7-9,11,12,16,17,19) True c n st idx wb(2) fb(3) by (simp add: pending_ok_def)
      then show ?thesis by (intro exI [of _ ?b'] conjI res disjI1 exI [of _ "blks @ [(?h, LD)]"] exI [of _ ly_empty]) simp_all
    qed
  qed
qed

lemma add_index:
  assumes "writing contents b kvs blks LI LD" and "tb_pending_index_entry b" and idx: "indexes_blocks (ly_entries LI) blks cur" and "separates c (ly_keys (snd (last blks))) cur"
    and "tb_last_key b \<in> set (ly_keys (snd (last blks)))"
    and "tb_index_block b' = tb_index_block b" and "tb_pending_handle b' = tb_pending_handle b"
    and "tb_index_block_options b' = tb_index_block_options b"
  shows "\<exists>ib LI'. add_index_entry c b' = Some (b'\<lparr>tb_last_key := c, tb_index_block := ib, tb_pending_index_entry := False\<rparr>) \<and>
    built 1 ib LI' \<and> ly_sorted LI' \<and> ly_size LI' = length blks \<and> indexes_blocks (ly_entries LI') blks cur"
proof -
  note w = writingD [OF assms(1)]
  have n: "length blks = Suc (ly_size LI)" "tb_pending_handle b = fst (last blks)" using w(15) assms(2) by (simp_all add: pending_ok_def)
  obtain h L where hL: "last blks = (h, L)" "(h, L) \<in> set blks" using n(1) by (metis last_in_set length_0_conv nat.distinct(1) surj_pair)
  have "has_block (contents (tb_file b)) h (ly_data L)" using w(13) hL(2) by (auto simp: stored_def)
  from has_block_sizes(1,2) [OF this w(5)] have e: "BlockHandle_EncodeTo h [] = Some (handle_enc h)" by (rule handle_coding(1))
  let ?k = "tb_last_key b"
  have k: "good ?k" "le ?k c" "good c"
  proof -
    have "ly_sorted L" by (rule entries_sorted(2) [OF assms(1) hL(2)])
    then show "good ?k" using assms(5) hL(1) by (auto simp: ly_sorted_def ly_keys_def)
    show "le ?k c" "good c" using assms(4,5) by (auto simp: separates_def)
  qed
  have below: "\<forall>x \<in> fst ` set (ly_entries LI). lt x c" by (rule index_below [OF w(14) n(1) assms(5) k(1,3,2)])
  from built_add [OF w(11,12) k(3) below, of "handle_enc h"] obtain ib LI' where
    ib: "BlockBuilder_Add cmp 1 c (handle_enc h) (tb_index_block b) = Some ib" "built 1 ib LI'"
      "ly_entries LI' = ly_entries LI @ [(c, handle_enc h)]" "ly_sorted LI'" by (elim exE conjE)
  have "add_index_entry c b' = Some (b'\<lparr>tb_last_key := c, tb_index_block := ib, tb_pending_index_entry := False\<rparr>)"
    using ib(1) e n(2) hL(1) assms(6-8) w(2) by (simp add: add_index_entry_def)
  moreover have "ly_entries LI' = ly_entries LI @ [(c, handle_enc (fst (last blks)))]" using ib(3) hL(1) by simp
  with index_entry [OF idx n(1) assms(4)] have "indexes_blocks (ly_entries LI') blks cur" by (simp only:)
  moreover have "ly_size LI' = length blks" unfolding ib(3) n(1) by simp
  ultimately show ?thesis using ib(2,4) by (intro exI conjI)
qed

end

context table_contract
begin

lemma last_mem:
  assumes "writing contents b kvs blks LI LD" and "ly_entries LD = []" and "blks \<noteq> []"
  shows "tb_last_key b \<in> set (ly_keys (snd (last blks)))" and "kvs \<noteq> []"
proof -
  note w = writingD [OF assms(1)]
  obtain xs h L where b: "blks = xs @ [(h, L)]" using assms(3) by (cases blks rule: rev_cases) auto
  then have ne: "ly_entries L \<noteq> []" using w(13) by (auto simp: stored_def)
  then show "kvs \<noteq> []" unfolding w(7) b by simp
  then have "tb_last_key b = fst (last (ly_entries L))" using w(17) ne unfolding w(7) b assms(2) by simp
  then show "tb_last_key b \<in> set (ly_keys (snd (last blks)))" using ne by (simp add: b ly_keys_def)
qed

lemma last_block_good:
  assumes "writing contents b kvs blks LI LD" and "blks \<noteq> []" and "x \<in> set (ly_keys (snd (last blks)))"
  shows "good x"
proof -
  obtain h L where "last blks = (h, L)" "(h, L) \<in> set blks" using assms(2) by (metis last_in_set surj_pair)
  then show ?thesis using entries_sorted(2) [OF assms(1)] assms(3) by (auto simp: ly_sorted_def ly_keys_def)
qed

lemma le_last_key:
  assumes "writing contents b kvs blks LI LD" and "ly_entries LD = []" and "blks \<noteq> []" and x: "x \<in> set (ly_keys (snd (last blks)))"
  shows "le x (tb_last_key b)"
proof -
  note w = writingD [OF assms(1)] and m = last_mem [OF assms(1-3)]
  obtain xs h L where b: "blks = xs @ [(h, L)]" using assms(3) by (cases blks rule: rev_cases) auto
  have xg: "good x" by (rule last_block_good [OF assms(1,3) x])
  have L: "ly_keys L \<noteq> []" using x by (auto simp: b)
  then have "tb_last_key b = last (ly_keys L)" using w(17) m(2) unfolding w(7) b assms(2) by (auto simp: ly_keys_def last_map)
  moreover have "sorted_wrt lt (ly_keys L)" using w(8) unfolding w(7) b by (simp add: ly_keys_def sorted_wrt_append)
  ultimately have "x = tb_last_key b \<or> lt x (tb_last_key b)"
    using x L by (cases "ly_keys L" rule: rev_cases) (auto simp: b sorted_wrt_append)
  then show ?thesis using lt_imp_le eqv_refl [OF xg] by (auto simp: eqv_def le_def)
qed

text \<open>The index entry that is still missing when the next key is known.\<close>

lemma pending_index:
  assumes "writing contents b kvs blks LI LD" and "good k" and "\<forall>x \<in> fst ` set kvs. lt x k"
  shows "\<exists>lk ib LI'. (if tb_pending_index_entry b then
        if \<not> BlockBuilder_empty (tb_data_block b) then None
        else do { c \<leftarrow> sep (tb_last_key b) k; add_index_entry c b }
      else Some b) = Some (b\<lparr>tb_last_key := lk, tb_index_block := ib, tb_pending_index_entry := False\<rparr>) \<and>
    built 1 ib LI' \<and> ly_sorted LI' \<and> ly_size LI' = length blks \<and> indexes_blocks (ly_entries LI') blks (ly_keys LD @ [k])"
proof -
  note w = writingD [OF assms(1)]
  have all: "\<forall>x \<in> fst ` set (block_entries blks) \<union> set (ly_keys LD). good x \<and> lt x k"
    using w(9) assms(3) unfolding w(7) by (auto simp: ly_keys_def)
  have idx: "indexes_blocks (ly_entries LI) blks (ly_keys LD @ [k])"
    by (rule index_snoc [OF w(14,13) _ assms(2) all]) (use w(15) in \<open>auto simp: pending_ok_def ly_keys_def split: if_splits\<close>)
  show ?thesis
  proof (cases "tb_pending_index_entry b")
    case False
    then have "length blks = ly_size LI" using w(15) by (simp add: pending_ok_def)
    moreover have "b = b\<lparr>tb_last_key := tb_last_key b, tb_index_block := tb_index_block b, tb_pending_index_entry := False\<rparr>"
      using False by simp
    ultimately show ?thesis using False w(11,12) idx
      by (intro exI [of _ "tb_last_key b"] exI [of _ "tb_index_block b"] exI [of _ LI] conjI) (simp_all only: if_False)
  next
    case True
    then have e: "ly_entries LD = []" "blks \<noteq> []" using w(15) by (auto simp: pending_ok_def)
    note m = last_mem [OF assms(1) e]
    have l: "good (tb_last_key b)" "lt (tb_last_key b) k"
      using w(9,17) m(2) assms(3) by (auto simp: last_in_set)
    from sep_bounds [OF l(1) assms(2) l(2)] obtain c where
      c: "sep (tb_last_key b) k = Some c" "good c" "le (tb_last_key b) c" "lt c k" by (elim exE conjE)
    have "le x c" if x: "x \<in> set (ly_keys (snd (last blks)))" for x
      by (rule le_trans [OF _ l(1) c(2) le_last_key [OF assms(1) e x] c(3)]) (rule last_block_good [OF assms(1) e(2) x])
    moreover have "ly_keys LD @ [k] = [k]" using e(1) by (simp add: ly_keys_def)
    ultimately have s: "separates c (ly_keys (snd (last blks))) (ly_keys LD @ [k])"
      using c m(1) by (auto simp: separates_def)
    from add_index [OF assms(1) True idx s m(1) refl refl refl] obtain ib LI' where
      ib: "add_index_entry c b = Some (b\<lparr>tb_last_key := c, tb_index_block := ib, tb_pending_index_entry := False\<rparr>)"
        "built 1 ib LI'" "ly_sorted LI'" "ly_size LI' = length blks" "indexes_blocks (ly_entries LI') blks (ly_keys LD @ [k])"
      by (elim exE conjE)
    have "BlockBuilder_empty (tb_data_block b)" using data_empty [OF w(10)] e(1) by simp
    then have "(if tb_pending_index_entry b then
        if \<not> BlockBuilder_empty (tb_data_block b) then None
        else do { c \<leftarrow> sep (tb_last_key b) k; add_index_entry c b }
      else Some b) = Some (b\<lparr>tb_last_key := c, tb_index_block := ib, tb_pending_index_entry := False\<rparr>)"
      using True ib(1) by (simp add: c(1))
    with ib(2-5) show ?thesis by (intro exI conjI)
  qed
qed

lemma filter_key:
  assumes "filtered b blks cur" and "good k" and "length (block_entries blks) + length cur + 1 < 2 ^ 31"
    and "tb_filter_block b' = map_option (FilterBlock_AddKey k) (tb_filter_block b)" and "tb_offset b' = tb_offset b"
  shows "filtered b' blks (cur @ [k])"
proof (cases "tb_filter_block b")
  case None
  then show ?thesis using assms(1,4) by (simp add: filtered_def split: option.splits)
next
  case (Some fb)
  then obtain p where p: "op_filter_policy options = Some p" "filter_policy.tracks (fp_KeyMayMatch p) good fb (tb_offset b)
     (map (\<lambda>(h, L). (bh_offset h, ly_keys L)) blks) cur"
    using assms(1) by (auto simp: filtered_def split: option.splits)
  have "sum_list (map (length \<circ> snd) (map (\<lambda>(h, L). (bh_offset h, ly_keys L)) blks)) = length (block_entries blks)"
    by (induction blks) (auto simp: ly_keys_def)
  then have n: "sum_list (map (length \<circ> snd) (map (\<lambda>(h, L). (bh_offset h, ly_keys L)) blks)) + length cur + 1 < 2 ^ 31"
    using assms(3) by simp
  from filter_policy.tracks_add [OF policy [OF p(1)] p(2) assms(2) n] show ?thesis
    using Some p(1) assms(4,5) by (simp add: filtered_def)
qed

lemma add_writes:
  assumes "appends_to wops contents" and "writing contents b kvs blks LI LD"
    and "good k" and "\<forall>x \<in> fst ` set kvs. lt x k" and "length kvs + 1 < 2 ^ 31"
  shows "\<exists>b'. TableBuilder_Add wops k v b = Some b' \<and>
    ((\<exists>blks' LI' LD'. writing contents b' (kvs @ [(k, v)]) blks' LI' LD') \<or> failed b')"
proof -
  note w = writingD [OF assms(2)]
  have inc: "(if 0 < tb_num_entries b then do { c \<leftarrow> cmp k (tb_last_key b); Some (0 < c) } else Some True) = Some True"
  proof (cases "kvs = []")
    case False
    then have l: "good (tb_last_key b)" "lt (tb_last_key b) k" using w(9,17) assms(4) by auto
    obtain r r' where r: "cmp k (tb_last_key b) = Some r" "cmp (tb_last_key b) k = Some r'"
      using cmp_total [OF assms(3) l(1)] cmp_total [OF l(1) assms(3)] by blast
    then have "0 < r" using cmp_swap [OF l(1) assms(3) r(2,1)] l(2) by (auto simp: lt_def)
    then show ?thesis by (simp add: r(1))
  qed (simp add: w(16))
  from pending_index [OF assms(2-4)] obtain lk ib LI' where
    p: "(if tb_pending_index_entry b then
        if \<not> BlockBuilder_empty (tb_data_block b) then None
        else do { c \<leftarrow> sep (tb_last_key b) k; add_index_entry c b }
      else Some b) = Some (b\<lparr>tb_last_key := lk, tb_index_block := ib, tb_pending_index_entry := False\<rparr>)"
      "built 1 ib LI'" "ly_sorted LI'" "ly_size LI' = length blks" "indexes_blocks (ly_entries LI') blks (ly_keys LD @ [k])"
    by (elim exE conjE)
  have below: "\<forall>x \<in> fst ` set (ly_entries LD). lt x k" using assms(4) unfolding w(7) by auto
  from built_add [OF w(10) entries_sorted(1) [OF assms(2)] assms(3) below, of v] obtain d LD' where
    d: "BlockBuilder_Add cmp (op_block_restart_interval options) k v (tb_data_block b) = Some d"
      "built (op_block_restart_interval options) d LD'" "ly_entries LD' = ly_entries LD @ [(k, v)]" by (elim exE conjE)
  let ?b1 = "b\<lparr>tb_index_block := ib, tb_pending_index_entry := False,
    tb_filter_block := map_option (FilterBlock_AddKey k) (tb_filter_block b), tb_last_key := k, tb_num_entries := tb_num_entries b + 1, tb_data_block := d\<rparr>"
  have add: "TableBuilder_Add wops k v b = (if op_block_size options \<le> CurrentSizeEstimate d then TableBuilder_Flush wops ?b1 else Some ?b1)"
    using w(3,4) by (simp only: TableBuilder_Add_def Let_def w(1) inc bind.bind_lunit p(1) simp_thms if_False if_True) (simp add: w(1) d(1))
  have kk: "ly_keys LD' = ly_keys LD @ [k]" using d(3) by (simp add: ly_keys_def)
  have "filtered ?b1 blks (ly_keys LD @ [k])"
    by (rule filter_key [OF w(18) assms(3)]) (use assms(5) in \<open>simp_all add: w(7) ly_keys_def\<close>)
  then have "writing contents ?b1 (kvs @ [(k, v)]) blks LI' LD'"
    unfolding writing_def kk using w(1-6,8,9,13,16,19) p(2-5) d(2,3) assms(3,4)
    by (simp add: w(7) pending_ok_def sorted_wrt_append)
  then show ?thesis using add flush_writes [OF assms(1)] by (cases "op_block_size options \<le> CurrentSizeEstimate d") fastforce+
qed

text \<open>After an error nothing is written any more.\<close>

lemma failed_stops:
  assumes "failed b"
  shows "TableBuilder_Add wops k v b = Some b" and "TableBuilder_Flush wops b = Some b"
    and "\<exists>b'. TableBuilder_Finish wops b = Some (tb_status b', b') \<and> tb_status b' = tb_status b \<and> tb_file b' = tb_file b"
proof -
  have f: "\<not> tb_ok b" "\<not> tb_closed b" using assms by (simp_all add: failed_def)
  then show "TableBuilder_Add wops k v b = Some b" and fl: "TableBuilder_Flush wops b = Some b"
    by (simp_all add: TableBuilder_Add_def TableBuilder_Flush_def)
  have "finish_filter wops (b\<lparr>tb_closed := True\<rparr>) = Some (BlockHandle_new, b\<lparr>tb_closed := True\<rparr>)"
    using assms f(1) by (cases "tb_filter_block b") (auto simp: finish_filter_def failed_def)
  then show "\<exists>b'. TableBuilder_Finish wops b = Some (tb_status b', b') \<and> tb_status b' = tb_status b \<and> tb_file b' = tb_file b"
    using f by (simp add: TableBuilder_Finish_def fl finish_metaindex_def finish_index_def finish_footer_def)
qed

end

subsection \<open>Finishing a table\<close>

definition same_but_file :: "'f TableBuilder \<Rightarrow> 'f TableBuilder \<Rightarrow> bool" where
  "same_but_file b b' \<longleftrightarrow> (\<exists>f s off. b' = b\<lparr>tb_file := f, tb_status := s, tb_offset := off\<rparr>)"

lemma same_but_file:
  assumes "same_but_file b b'"
  shows "tb_options b' = tb_options b" "tb_index_block_options b' = tb_index_block_options b" "tb_index_block b' = tb_index_block b"
    "tb_last_key b' = tb_last_key b" "tb_filter_block b' = tb_filter_block b" "tb_pending_index_entry b' = tb_pending_index_entry b"
    "tb_pending_handle b' = tb_pending_handle b"
  using assms by (auto simp: same_but_file_def)

lemma same_refl: "same_but_file b b"
  unfolding same_but_file_def by (intro exI [of _ "tb_file b"] exI [of _ "tb_status b"] exI [of _ "tb_offset b"]) simp

lemma same_trans:
  assumes "same_but_file b b'" and "same_but_file b' b''"
  shows "same_but_file b b''"
proof -
  obtain f s off where "b'' = b'\<lparr>tb_file := f, tb_status := s, tb_offset := off\<rparr>" using assms(2) unfolding same_but_file_def by blast
  then have "b'' = b\<lparr>tb_file := f, tb_status := s, tb_offset := off\<rparr>" using assms(1) by (auto simp: same_but_file_def)
  then show ?thesis unfolding same_but_file_def by blast
qed

text \<open>The builder has only appended to its file and knows where the file ends.\<close>

definition at_end :: "('f \<Rightarrow> byte list) \<Rightarrow> byte list \<Rightarrow> 'f TableBuilder \<Rightarrow> bool" where
  "at_end contents start b \<longleftrightarrow> tb_ok b \<and> length (contents (tb_file b)) < 2 ^ 32 \<and>
     tb_offset b = of_nat (length (contents (tb_file b))) \<and> (\<exists>z. contents (tb_file b) = start @ z)"

lemma at_end_block: "at_end contents start b \<Longrightarrow> has_block start h d \<Longrightarrow> has_block (contents (tb_file b)) h d"
  by (auto simp: at_end_def has_block_append)

lemma at_end_trans: "at_end contents start b \<Longrightarrow> at_end contents (contents (tb_file b)) b' \<Longrightarrow> at_end contents start b'"
  by (auto simp: at_end_def)

lemma write_raw_end:
  assumes "appends_to wops contents" and "at_end contents start b"
  shows "\<exists>h b'. WriteRawBlock wops d kNoCompression b = Some (h, b') \<and> same_but_file b b' \<and>
    (tb_ok b' \<longrightarrow> at_end contents (contents (tb_file b)) b' \<and> has_block (contents (tb_file b')) h d)"
proof -
  from write_raw [OF assms(1), of d b] obtain f s off where
    w: "WriteRawBlock wops d kNoCompression b = Some (\<lparr>bh_offset = tb_offset b, bh_size = of_nat (length d)\<rparr>,
      b\<lparr>tb_file := f, tb_status := s, tb_offset := off\<rparr>)"
    "if Status_ok s then contents f = contents (tb_file b) @ raw_block d \<and> length (contents f) < 2 ^ 32 \<and>
       off = tb_offset b + of_nat (length (raw_block d)) else off = tb_offset b" by (elim exE conjE)
  let ?b = "b\<lparr>tb_file := f, tb_status := s, tb_offset := off\<rparr>"
  have "at_end contents (contents (tb_file b)) ?b \<and>
      has_block (contents f) \<lparr>bh_offset = tb_offset b, bh_size = of_nat (length d)\<rparr> d" if s: "Status_ok s"
  proof -
    from w(2) [unfolded if_P [OF s]] have c: "contents f = contents (tb_file b) @ raw_block d" "length (contents f) < 2 ^ 32"
      "off = tb_offset b + of_nat (length (raw_block d))" by blast+
    have o: "tb_offset b = of_nat (length (contents (tb_file b)))" using assms(2) by (simp add: at_end_def)
    have "off = of_nat (length (contents f))" unfolding c(1,3) o by simp
    moreover have "has_block (contents f) \<lparr>bh_offset = tb_offset b, bh_size = of_nat (length d)\<rparr> d"
      unfolding c(1) o by (rule has_block_new)
    ultimately show ?thesis using s c(1,2) unfolding at_end_def by (intro conjI exI [of _ "raw_block d"]) (assumption | simp)+
  qed
  then have "tb_ok ?b \<longrightarrow> at_end contents (contents (tb_file b)) ?b \<and>
      has_block (contents (tb_file ?b)) \<lparr>bh_offset = tb_offset b, bh_size = of_nat (length d)\<rparr> d" by simp
  moreover have "same_but_file b ?b" unfolding same_but_file_def by blast
  ultimately show ?thesis using w(1) by (intro exI conjI)
qed

lemma write_block_end:
  assumes "appends_to wops contents" and "at_end contents start b" and "built n block L"
  shows "\<exists>h block' b'. WriteBlock wops block b = Some (h, block', b') \<and> same_but_file b b' \<and>
    (tb_ok b' \<longrightarrow> at_end contents (contents (tb_file b)) b' \<and> has_block (contents (tb_file b')) h (ly_data L))"
proof -
  obtain block' where f: "BlockBuilder_Finish block = (ly_data L, block')" using finish_data [OF assms(3)] by (cases "BlockBuilder_Finish block") simp
  have c: "compress t d = (d, kNoCompression)" for t d by (cases t) (simp_all add: compress_def Snappy_Compress_def)
  from write_raw_end [OF assms(1,2), of "ly_data L"] obtain h b' where
    w: "WriteRawBlock wops (ly_data L) kNoCompression b = Some (h, b')" "same_but_file b b'"
    "tb_ok b' \<longrightarrow> at_end contents (contents (tb_file b)) b' \<and> has_block (contents (tb_file b')) h (ly_data L)"
    by (elim exE conjE)
  have "WriteBlock wops block b = Some (h, BlockBuilder_Reset block', b')"
    using assms(2) by (simp add: WriteBlock_def at_end_def f c w(1))
  then show ?thesis using w(2,3) by (intro exI conjI)
qed

lemma Add_first: "bb_buffer b = [] \<Longrightarrow> BlockBuilder_Add c n k v b = BlockBuilder_Add c' n k v b"
  by (simp add: BlockBuilder_Add_def)

definition filter_name :: "policy_ops \<Rightarrow> slice" where
  "filter_name p = bytes_of_string ''filter.'' @ fp_Name p"

context table_contract
begin

definition filter_stored :: "byte list \<Rightarrow> (BlockHandle \<times> layout) list \<Rightarrow> policy_ops \<Rightarrow> BlockHandle \<Rightarrow> bool" where
  "filter_stored bytes blks p h \<longleftrightarrow> (\<exists>c r. has_block bytes h c \<and> FilterBlockReader_new c = Some r \<and>
     (\<forall>(hB, L) \<in> set blks. \<forall>k \<in> set (ly_keys L). FilterBlock_KeyMayMatch (fp_KeyMayMatch p) r (bh_offset hB) k = Some True) \<and>
     (\<forall>off k. (\<forall>f. fp_KeyMayMatch p k f \<noteq> None) \<longrightarrow> FilterBlock_KeyMayMatch (fp_KeyMayMatch p) r off k \<noteq> None))"

lemma filter_stored_more: "filter_stored bytes blks p h \<Longrightarrow> filter_stored (bytes @ z) blks p h"
  unfolding filter_stored_def using has_block_append by blast

lemma finish_filter_writes:
  assumes "appends_to wops contents" and "filtered b blks []" and "tb_filter_policy b = op_filter_policy options" and "at_end contents start b"
  shows "\<exists>h b'. finish_filter wops b = Some (h, b') \<and> same_but_file b b' \<and> (tb_ok b' \<longrightarrow> at_end contents (contents (tb_file b)) b' \<and>
    (\<forall>p. op_filter_policy options = Some p \<longrightarrow> filter_stored (contents (tb_file b')) blks p h))"
proof (cases "tb_filter_block b")
  case None
  then have "op_filter_policy options = None" using filtered_None [OF assms(2)] by simp
  then have "finish_filter wops b = Some (BlockHandle_new, b) \<and> same_but_file b b \<and> (tb_ok b \<longrightarrow> at_end contents (contents (tb_file b)) b \<and>
    (\<forall>p. op_filter_policy options = Some p \<longrightarrow> filter_stored (contents (tb_file b)) blks p BlockHandle_new))"
    using None assms(3,4) same_refl by (simp add: finish_filter_def at_end_def)
  then show ?thesis by blast
next
  case (Some fb)
  then obtain p where p: "op_filter_policy options = Some p" "filter_policy.tracks (fp_KeyMayMatch p) good fb (tb_offset b)
     (map (\<lambda>(h, L). (bh_offset h, ly_keys L)) blks) []"
    using assms(2) by (auto simp: filtered_def split: option.splits)
  from filter_policy.tracks_finish [OF policy [OF p(1)] p(2)] obtain c where
    c: "FilterBlock_Finish (fp_CreateFilter p) fb = Some c" "length c < 2 ^ 32 \<longrightarrow> (\<exists>r. FilterBlockReader_new c = Some r \<and>
      (\<forall>(off, ks) \<in> set (map (\<lambda>(h, L). (bh_offset h, ly_keys L)) blks). \<forall>k \<in> set ks. FilterBlock_KeyMayMatch (fp_KeyMayMatch p) r off k = Some True) \<and>
      (\<forall>off k. (\<forall>f. fp_KeyMayMatch p k f \<noteq> None) \<longrightarrow> FilterBlock_KeyMayMatch (fp_KeyMayMatch p) r off k \<noteq> None))"
    by (elim exE conjE)
  from write_raw_end [OF assms(1,4), of c] obtain h b' where
    w: "WriteRawBlock wops c kNoCompression b = Some (h, b')" "same_but_file b b'"
      "tb_ok b' \<longrightarrow> at_end contents (contents (tb_file b)) b' \<and> has_block (contents (tb_file b')) h c" by (elim exE conjE)
  have "filter_stored (contents (tb_file b')) blks p h" if ok: "tb_ok b'"
  proof -
    have hb: "has_block (contents (tb_file b')) h c" "length (contents (tb_file b')) < 2 ^ 32" using w(3) ok by (auto simp: at_end_def)
    have "length c < 2 ^ 32" by (rule has_block_sizes(4) [OF hb])
    with c(2) obtain r where r: "FilterBlockReader_new c = Some r"
      "\<forall>(off, ks) \<in> set (map (\<lambda>(h, L). (bh_offset h, ly_keys L)) blks). \<forall>k \<in> set ks. FilterBlock_KeyMayMatch (fp_KeyMayMatch p) r off k = Some True"
      "\<forall>off k. (\<forall>f. fp_KeyMayMatch p k f \<noteq> None) \<longrightarrow> FilterBlock_KeyMayMatch (fp_KeyMayMatch p) r off k \<noteq> None"
      by (elim impE exE conjE)
    have "\<forall>(hB, L) \<in> set blks. \<forall>k \<in> set (ly_keys L). FilterBlock_KeyMayMatch (fp_KeyMayMatch p) r (bh_offset hB) k = Some True"
      using r(2) by auto
    then show ?thesis using hb(1) r(1,3) unfolding filter_stored_def by (intro exI conjI)
  qed
  moreover have "finish_filter wops b = Some (h, b')" using Some p(1) assms(3,4) c(1) w(1) by (simp add: finish_filter_def at_end_def)
  ultimately show ?thesis using w(2,3) p(1) by (intro exI [of _ h] exI [of _ b'] conjI impI allI) simp_all
qed

definition meta_entries :: "BlockHandle \<Rightarrow> (slice \<times> slice) list" where
  "meta_entries h = (case op_filter_policy options of None \<Rightarrow> [] | Some p \<Rightarrow> [(filter_name p, handle_enc h)])"

lemma finish_metaindex_writes:
  assumes "appends_to wops contents" and "tb_options b = options" and "at_end contents start b"
    and "tb_filter_block b = None \<longleftrightarrow> op_filter_policy options = None"
    and "op_filter_policy options \<noteq> None \<longrightarrow> (\<exists>d. has_block (contents (tb_file b)) hF d)"
  shows "\<exists>h b'. finish_metaindex wops hF b = Some (h, b') \<and> same_but_file b b' \<and> (tb_ok b' \<longrightarrow> at_end contents (contents (tb_file b)) b' \<and>
    (\<exists>LM. ly_ok LM \<and> bytewise.ly_sorted LM \<and> ly_entries LM = meta_entries hF \<and> has_block (contents (tb_file b')) h (ly_data LM)))"
proof -
  obtain d where d: "BlockBuilder_new (op_block_restart_interval options) = Some d" "built (op_block_restart_interval options) d ly_empty"
    using built_new [OF interval] by blast
  have e: "bytewise.ly_sorted ly_empty" by (simp add: bytewise.ly_sorted_def)
  have "\<exists>d' LM. (case (tb_filter_block b, op_filter_policy (tb_options b)) of
            (Some fb, Some p) \<Rightarrow> do {
              let key = bytes_of_string ''filter.'' @ fp_Name p;
              handle_encoding \<leftarrow> BlockHandle_EncodeTo hF [];
              BlockBuilder_Add (cp_Compare (op_comparator (tb_options b))) (op_block_restart_interval (tb_options b)) key handle_encoding d
            }
          | (Some fb, None) \<Rightarrow> None
          | (None, _) \<Rightarrow> Some d) = Some d' \<and> built (op_block_restart_interval options) d' LM \<and> bytewise.ly_sorted LM \<and>
      ly_entries LM = meta_entries hF"
  proof (cases "op_filter_policy options")
    case None
    then show ?thesis using assms(2,4) d(2) e by (intro exI [of _ d] exI [of _ ly_empty]) (simp add: meta_entries_def)
  next
    case (Some p)
    then obtain fb where fb: "tb_filter_block b = Some fb" using assms(4) by auto
    obtain c where "has_block (contents (tb_file b)) hF c" using assms(5) Some by auto
    from has_block_sizes(1,2) [OF this] have enc: "BlockHandle_EncodeTo hF [] = Some (handle_enc hF)"
      using assms(3) by (intro handle_coding(1)) (simp_all add: at_end_def)
    have buf: "bb_buffer d = []" using d(2) by (simp add: built_def ly_bytes_def)
    from bytewise.built_add [OF d(2) e, of "filter_name p" "handle_enc hF"] obtain d' LM where
      d': "BlockBuilder_Add Bytewise_Compare (op_block_restart_interval options) (filter_name p) (handle_enc hF) d = Some d'"
        "built (op_block_restart_interval options) d' LM" "ly_entries LM = [(filter_name p, handle_enc hF)]" "bytewise.ly_sorted LM"
      by auto
    then show ?thesis using Some fb enc assms(2) Add_first [OF buf, of cmp _ _ _ Bytewise_Compare]
      by (intro exI [of _ d'] exI [of _ LM]) (simp add: meta_entries_def filter_name_def)
  qed
  then obtain d' LM where d': "(case (tb_filter_block b, op_filter_policy (tb_options b)) of
            (Some fb, Some p) \<Rightarrow> do {
              let key = bytes_of_string ''filter.'' @ fp_Name p;
              handle_encoding \<leftarrow> BlockHandle_EncodeTo hF [];
              BlockBuilder_Add (cp_Compare (op_comparator (tb_options b))) (op_block_restart_interval (tb_options b)) key handle_encoding d
            }
          | (Some fb, None) \<Rightarrow> None
          | (None, _) \<Rightarrow> Some d) = Some d'" "built (op_block_restart_interval options) d' LM" "bytewise.ly_sorted LM"
      "ly_entries LM = meta_entries hF" by (elim exE conjE)
  from write_block_end [OF assms(1,3) d'(2)] obtain h block' b' where
    w: "WriteBlock wops d' b = Some (h, block', b')" "same_but_file b b'"
    "tb_ok b' \<longrightarrow> at_end contents (contents (tb_file b)) b' \<and> has_block (contents (tb_file b')) h (ly_data LM)"
    by (elim exE conjE)
  have ok: "tb_ok b" using assms(3) by (simp add: at_end_def)
  have n: "BlockBuilder_new (op_block_restart_interval (tb_options b)) = Some d" using d(1) assms(2) by simp
  have "finish_metaindex wops hF b = Some (h, b')"
    unfolding finish_metaindex_def n d'(1) bind.bind_lunit w(1) using ok by simp
  moreover have "ly_ok LM" using d'(2) by (simp add: built_def)
  ultimately show ?thesis using w(2,3) d'(3,4) by blast
qed

end

text \<open>Giving all entries to a builder in turn, and finishing.\<close>

fun add_table_entries :: "'f writable_ops \<Rightarrow> (slice \<times> slice) list \<Rightarrow> 'f TableBuilder \<Rightarrow> 'f TableBuilder option" where
  "add_table_entries wops [] b = Some b"
| "add_table_entries wops ((k, v) # kvs) b = do { b \<leftarrow> TableBuilder_Add wops k v b; add_table_entries wops kvs b }"

definition write_table ::
  "'f writable_ops \<Rightarrow> Options \<Rightarrow> 'f \<Rightarrow> (slice \<times> slice) list \<Rightarrow> (Status \<times> 'f TableBuilder) option" where
  "write_table wops options f kvs = do {
     b \<leftarrow> TableBuilder_new options f;
     b \<leftarrow> add_table_entries wops kvs b;
     TableBuilder_Finish wops b
   }"

context table_contract
begin

text \<open>The bytes of a table that holds the entries \<open>kvs\<close>.\<close>

definition table_layout ::
  "byte list \<Rightarrow> (slice \<times> slice) list \<Rightarrow> (BlockHandle \<times> layout) list \<Rightarrow> layout \<Rightarrow> layout \<Rightarrow> BlockHandle \<Rightarrow> BlockHandle \<Rightarrow> BlockHandle \<Rightarrow> bool" where
  "table_layout bytes kvs blks LI LM hI hM hF \<longleftrightarrow>
     (length bytes < 2 ^ 32 \<and> kvs = block_entries blks \<and> sorted_wrt lt (map fst kvs) \<and> (\<forall>k \<in> fst ` set kvs. good k)) \<and>
     (stored bytes blks \<and> ly_size LI = length blks \<and> indexes_blocks (ly_entries LI) blks []) \<and>
     (ly_ok LI \<and> ly_sorted LI \<and> has_block bytes hI (ly_data LI)) \<and>
     (ly_ok LM \<and> bytewise.ly_sorted LM \<and> ly_entries LM = meta_entries hF \<and> has_block bytes hM (ly_data LM)) \<and>
     (\<forall>p. op_filter_policy options = Some p \<longrightarrow> filter_stored bytes blks p hF) \<and>
     (\<exists>pre foot. bytes = pre @ foot \<and> Footer_EncodeTo \<lparr>ft_metaindex = hM, ft_index = hI\<rparr> [] = Some foot)"

lemma finish_index_writes:
  assumes "appends_to wops contents" and "writing contents b kvs blks LI LD" and "ly_entries LD = []"
    and "tb_options b' = options" and "tb_index_block_options b' = tb_index_block_options b" and "tb_index_block b' = tb_index_block b"
    and "tb_last_key b' = tb_last_key b" and "tb_pending_index_entry b' = tb_pending_index_entry b"
    and "tb_pending_handle b' = tb_pending_handle b" and "at_end contents start b'"
  shows "\<exists>h b''. finish_index wops b' = Some (h, b'') \<and> (tb_ok b'' \<longrightarrow> at_end contents (contents (tb_file b')) b'' \<and>
    (\<exists>LI'. ly_ok LI' \<and> ly_sorted LI' \<and> ly_size LI' = length blks \<and> indexes_blocks (ly_entries LI') blks [] \<and>
      has_block (contents (tb_file b'')) h (ly_data LI')))"
proof -
  note w = writingD [OF assms(2)]
  have k: "ly_keys LD = []" using assms(3) by (simp add: ly_keys_def)
  have "\<exists>b1 LI'. (if tb_pending_index_entry b' then do {
            k \<leftarrow> cp_FindShortSuccessor (op_comparator (tb_options b')) (tb_last_key b');
            add_index_entry k b'
          } else Some b') = Some b1 \<and> at_end contents start b1 \<and> tb_file b1 = tb_file b' \<and>
      built 1 (tb_index_block b1) LI' \<and> ly_sorted LI' \<and> ly_size LI' = length blks \<and> indexes_blocks (ly_entries LI') blks []"
  proof (cases "tb_pending_index_entry b")
    case False
    then show ?thesis using w(11,12,14,15) k assms(6,8,10)
      by (intro exI [of _ b'] exI [of _ LI]) (simp add: pending_ok_def)
  next
    case True
    then have ne: "blks \<noteq> []" using w(15) by (auto simp: pending_ok_def)
    note m = last_mem [OF assms(2,3) ne]
    note l = last_block_good [OF assms(2) ne m(1)]
    from succ_bound [OF l] obtain c where c: "cp_FindShortSuccessor (op_comparator options) (tb_last_key b) = Some c" "good c" "le (tb_last_key b) c"
      by (elim exE conjE)
    have "le x c" if x: "x \<in> set (ly_keys (snd (last blks)))" for x
      by (rule le_trans [OF _ l c(2) le_last_key [OF assms(2,3) ne x] c(3)]) (rule last_block_good [OF assms(2) ne x])
    then have s: "separates c (ly_keys (snd (last blks))) []" using c(2) m(1) by (auto simp: separates_def)
    from add_index [OF assms(2) True w(14) [unfolded k] s m(1) assms(6,9,5)] obtain ib LI' where
      ib: "add_index_entry c b' = Some (b'\<lparr>tb_last_key := c, tb_index_block := ib, tb_pending_index_entry := False\<rparr>)"
        "built 1 ib LI'" "ly_sorted LI'" "ly_size LI' = length blks" "indexes_blocks (ly_entries LI') blks []"
      by (elim exE conjE)
    show ?thesis using ib c(1) True assms(4,7,8,10)
      by (intro exI [of _ "b'\<lparr>tb_last_key := c, tb_index_block := ib, tb_pending_index_entry := False\<rparr>"] exI [of _ LI'])
        (simp add: at_end_def)
  qed
  then obtain b1 LI' where b1: "(if tb_pending_index_entry b' then do {
            k \<leftarrow> cp_FindShortSuccessor (op_comparator (tb_options b')) (tb_last_key b');
            add_index_entry k b'
          } else Some b') = Some b1" "at_end contents start b1" "tb_file b1 = tb_file b'"
      "built 1 (tb_index_block b1) LI'" "ly_sorted LI'" "ly_size LI' = length blks" "indexes_blocks (ly_entries LI') blks []"
    by (elim exE conjE)
  from write_block_end [OF assms(1) b1(2,4)] obtain h block' b2 where
    b2: "WriteBlock wops (tb_index_block b1) b1 = Some (h, block', b2)"
    "tb_ok b2 \<longrightarrow> at_end contents (contents (tb_file b1)) b2 \<and> has_block (contents (tb_file b2)) h (ly_data LI')" by (elim exE conjE)
  have ok: "tb_ok b'" using assms(10) by (simp add: at_end_def)
  have "finish_index wops b' = Some (h, b2\<lparr>tb_index_block := block'\<rparr>)"
    unfolding finish_index_def b1(1) bind.bind_lunit b2(1) using ok by simp
  moreover have "ly_ok LI'" using b1(4) by (simp add: built_def)
  ultimately show ?thesis using b1(3,5-7) b2(2)
    by (intro exI [of _ h] exI [of _ "b2\<lparr>tb_index_block := block'\<rparr>"]) (auto simp: at_end_def)
qed

lemma finish_footer_writes:
  assumes "appends_to wops contents" and "at_end contents start b"
    and "has_block (contents (tb_file b)) hM dM" and "has_block (contents (tb_file b)) hI dI"
  shows "\<exists>b' foot. finish_footer wops hM hI b = Some b' \<and> Footer_EncodeTo \<lparr>ft_metaindex = hM, ft_index = hI\<rparr> [] = Some foot \<and>
    (tb_ok b' \<longrightarrow> contents (tb_file b') = contents (tb_file b) @ foot \<and> length (contents (tb_file b')) < 2 ^ 32 \<and>
      FileSize b' = of_nat (length (contents (tb_file b'))))"
proof -
  have small: "length (contents (tb_file b)) < 2 ^ 32" "tb_ok b" using assms(2) by (simp_all add: at_end_def)
  note hM = has_block_sizes(1,2) [OF assms(3) small(1)] and hI = has_block_sizes(1,2) [OF assms(4) small(1)]
  obtain foot where foot: "Footer_EncodeTo \<lparr>ft_metaindex = hM, ft_index = hI\<rparr> [] = Some foot"
    using footer_roundtrip [of "\<lparr>ft_metaindex = hM, ft_index = hI\<rparr>"] hM hI by auto
  obtain s f where a: "wf_Append wops (tb_file b) foot = (s, f)" by fastforce
  let ?b = "b\<lparr>tb_file := f, tb_status := s\<rparr>"
  have "finish_footer wops hM hI b = Some (if tb_ok ?b then ?b\<lparr>tb_offset := tb_offset b + of_nat (length foot)\<rparr> else ?b)"
    using small(2) foot a by (simp add: finish_footer_def)
  moreover have "Status_ok s \<Longrightarrow> contents f = contents (tb_file b) @ foot" "Status_ok s \<Longrightarrow> length (contents f) < 2 ^ 32"
    by (rule appends(1,2) [OF assms(1) a], assumption)+
  moreover have "tb_offset b = of_nat (length (contents (tb_file b)))" using assms(2) by (simp add: at_end_def)
  ultimately show ?thesis using foot
    by (intro exI [of _ "if tb_ok ?b then ?b\<lparr>tb_offset := tb_offset b + of_nat (length foot)\<rparr> else ?b"] exI [of _ foot]) (simp add: FileSize_def)
qed

end

context table_contract
begin

definition table_of :: "byte list \<Rightarrow> (slice \<times> slice) list \<Rightarrow> bool" where
  "table_of bytes kvs \<longleftrightarrow> (\<exists>blks LI LM hI hM hF. table_layout bytes kvs blks LI LM hI hM hF)"

definition written :: "('f \<Rightarrow> byte list) \<Rightarrow> 'f TableBuilder \<Rightarrow> (slice \<times> slice) list \<Rightarrow> bool" where
  "written contents b kvs \<longleftrightarrow> table_of (contents (tb_file b)) kvs \<and> FileSize b = of_nat (length (contents (tb_file b)))"

lemma at_end_stored: "at_end contents start b \<Longrightarrow> stored start blks \<Longrightarrow> stored (contents (tb_file b)) blks"
  by (auto simp: at_end_def dest: stored_more)

lemma at_end_filter: "at_end contents start b \<Longrightarrow> filter_stored start blks p h \<Longrightarrow> filter_stored (contents (tb_file b)) blks p h"
  by (auto simp: at_end_def filter_stored_more)

lemma not_ok_finish:
  assumes "\<not> tb_ok b"
  shows "finish_metaindex wops h b = Some (BlockHandle_new, b)" and "finish_index wops b = Some (BlockHandle_new, b)"
    and "finish_footer wops h h' b = Some b"
  using assms by (simp_all add: finish_metaindex_def finish_index_def finish_footer_def)

lemma close_writes:
  assumes "appends_to wops contents" and "writing contents b kvs blks LI LD" and "ly_entries LD = []"
  shows "\<exists>hF b1 hM b2 hI b3 b4. finish_filter wops (b\<lparr>tb_closed := True\<rparr>) = Some (hF, b1) \<and> finish_metaindex wops hF b1 = Some (hM, b2) \<and>
    finish_index wops b2 = Some (hI, b3) \<and> finish_footer wops hM hI b3 = Some b4 \<and>
    (tb_ok b4 \<longrightarrow> written contents b4 kvs)"
proof -
  note w = writingD [OF assms(2)]
  let ?b = "b\<lparr>tb_closed := True\<rparr>"
  have k: "ly_keys LD = []" using assms(3) by (simp add: ly_keys_def)
  have e: "at_end contents (contents (tb_file b)) ?b" using w(4-6) by (simp add: at_end_def)
  have f: "filtered ?b blks []" using w(18) k by (simp add: filtered_def cong: option.case_cong)
  have o: "tb_filter_policy ?b = op_filter_policy options" using w(19) by simp
  from finish_filter_writes [OF assms(1) f o e] obtain hF b1 where
    b1: "finish_filter wops ?b = Some (hF, b1)" "same_but_file ?b b1" "tb_ok b1 \<longrightarrow> at_end contents (contents (tb_file ?b)) b1 \<and>
      (\<forall>p. op_filter_policy options = Some p \<longrightarrow> filter_stored (contents (tb_file b1)) blks p hF)" by (elim exE conjE)
  note s1 = same_but_file [OF b1(2)]
  show ?thesis
  proof (cases "tb_ok b1")
    case False
    show ?thesis by (intro exI conjI, rule b1(1), (rule not_ok_finish [OF False])+) (simp add: False)
  next
    case True
    then have e1: "at_end contents (contents (tb_file b)) b1" and fs: "\<forall>p. op_filter_policy options = Some p \<longrightarrow> filter_stored (contents (tb_file b1)) blks p hF"
      using b1(3) by simp_all
    have o1: "tb_options b1 = options" "tb_filter_block b1 = None \<longleftrightarrow> op_filter_policy options = None"
      using s1(1,5) w(1) filtered_None [OF f] by simp_all
    have "op_filter_policy options \<noteq> None \<longrightarrow> (\<exists>d. has_block (contents (tb_file b1)) hF d)"
      using fs by (auto simp: filter_stored_def)
    from finish_metaindex_writes [OF assms(1) o1(1) e1 o1(2) this] obtain hM b2 where b2: "finish_metaindex wops hF b1 = Some (hM, b2)" "same_but_file b1 b2"
      "tb_ok b2 \<longrightarrow> at_end contents (contents (tb_file b1)) b2 \<and>
        (\<exists>LM. ly_ok LM \<and> bytewise.ly_sorted LM \<and> ly_entries LM = meta_entries hF \<and> has_block (contents (tb_file b2)) hM (ly_data LM))"
      by (elim exE conjE)
    note s2 = same_but_file [OF b2(2)]
    show ?thesis
    proof (cases "tb_ok b2")
      case False
      show ?thesis by (intro exI conjI, rule b1(1), rule b2(1), (rule not_ok_finish [OF False])+) (simp add: False)
    next
      case True
      then have e2: "at_end contents (contents (tb_file b1)) b2" using b2(3) by simp
      obtain LM where LM: "ly_ok LM" "bytewise.ly_sorted LM" "ly_entries LM = meta_entries hF" "has_block (contents (tb_file b2)) hM (ly_data LM)"
        using b2(3) True by (elim impE exE conjE) simp_all
      have "tb_options b2 = options" "tb_index_block_options b2 = tb_index_block_options b" "tb_index_block b2 = tb_index_block b"
        "tb_last_key b2 = tb_last_key b" "tb_pending_index_entry b2 = tb_pending_index_entry b" "tb_pending_handle b2 = tb_pending_handle b"
        using s1 s2 w(1) by simp_all
      from finish_index_writes [OF assms this e2] obtain hI b3 where
        b3: "finish_index wops b2 = Some (hI, b3)" "tb_ok b3 \<longrightarrow> at_end contents (contents (tb_file b2)) b3 \<and>
          (\<exists>LI'. ly_ok LI' \<and> ly_sorted LI' \<and> ly_size LI' = length blks \<and> indexes_blocks (ly_entries LI') blks [] \<and>
            has_block (contents (tb_file b3)) hI (ly_data LI'))" by (elim exE conjE)
      show ?thesis
      proof (cases "tb_ok b3")
        case False
        show ?thesis by (intro exI conjI, rule b1(1), rule b2(1), rule b3(1), (rule not_ok_finish [OF False])+) (simp add: False)
      next
        case True
        then have e3: "at_end contents (contents (tb_file b2)) b3" using b3(2) by simp
        obtain LI' where LI': "ly_ok LI'" "ly_sorted LI'" "ly_size LI' = length blks" "indexes_blocks (ly_entries LI') blks []"
          "has_block (contents (tb_file b3)) hI (ly_data LI')" using b3(2) True by (elim impE exE conjE) simp_all
        note hM = at_end_block [OF e3 LM(4)]
        from finish_footer_writes [OF assms(1) e3 hM LI'(5)] obtain b4 foot where
          b4: "finish_footer wops hM hI b3 = Some b4" "Footer_EncodeTo \<lparr>ft_metaindex = hM, ft_index = hI\<rparr> [] = Some foot"
            "tb_ok b4 \<longrightarrow> contents (tb_file b4) = contents (tb_file b3) @ foot \<and> length (contents (tb_file b4)) < 2 ^ 32 \<and>
              FileSize b4 = of_nat (length (contents (tb_file b4)))" by (elim exE conjE)
        have "table_layout (contents (tb_file b4)) kvs blks LI' LM hI hM hF" if ok: "tb_ok b4"
        proof -
          have c: "contents (tb_file b4) = contents (tb_file b3) @ foot" "length (contents (tb_file b4)) < 2 ^ 32"
            using b4(3) ok by blast+
          have "stored (contents (tb_file b3)) blks"
            by (rule at_end_stored [OF e3 at_end_stored [OF e2 at_end_stored [OF e1 w(13)]]])
          then have "stored (contents (tb_file b4)) blks" unfolding c(1) by (rule stored_more)
          moreover have "\<forall>p. op_filter_policy options = Some p \<longrightarrow> filter_stored (contents (tb_file b4)) blks p hF"
            unfolding c(1) using at_end_filter [OF e3 at_end_filter [OF e2]] fs filter_stored_more by blast
          moreover have "has_block (contents (tb_file b4)) hI (ly_data LI')" "has_block (contents (tb_file b4)) hM (ly_data LM)"
            unfolding c(1) by (rule has_block_append, rule LI'(5) hM)+
          moreover have "kvs = block_entries blks" using w(7) assms(3) by simp
          moreover have "\<exists>pre foot. contents (tb_file b4) = pre @ foot \<and> Footer_EncodeTo \<lparr>ft_metaindex = hM, ft_index = hI\<rparr> [] = Some foot"
            using c(1) b4(2) by blast
          ultimately show ?thesis unfolding table_layout_def using w(8,9) c(2) LI'(1-4) LM(1-3) by (intro conjI)
        qed
        then have "tb_ok b4 \<longrightarrow> written contents b4 kvs" using b4(3) unfolding written_def table_of_def by blast
        then show ?thesis using b1(1) b2(1) b3(1) b4(1) by (intro exI conjI)
      qed
    qed
  qed
qed

lemma finish_writes:
  assumes "appends_to wops contents" and "writing contents b kvs blks LI LD"
  shows "\<exists>b'. TableBuilder_Finish wops b = Some (tb_status b', b') \<and> (tb_ok b' \<longrightarrow> written contents b' kvs)"
proof -
  from flush_writes [OF assms] obtain b0 where b0: "TableBuilder_Flush wops b = Some b0"
    "(\<exists>blks' LD'. writing contents b0 kvs blks' LI LD' \<and> ly_entries LD' = []) \<or> failed b0" by (elim exE conjE)
  from b0(2) show ?thesis
  proof (elim disjE exE conjE)
    fix blks' LD'
    assume w: "writing contents b0 kvs blks' LI LD'" "ly_entries LD' = []"
    from close_writes [OF assms(1) w] obtain hF b1 hM b2 hI b3 b4 where
      "finish_filter wops (b0\<lparr>tb_closed := True\<rparr>) = Some (hF, b1)" "finish_metaindex wops hF b1 = Some (hM, b2)"
      "finish_index wops b2 = Some (hI, b3)" "finish_footer wops hM hI b3 = Some b4" "tb_ok b4 \<longrightarrow> written contents b4 kvs"
      by (elim exE conjE)
    then show ?thesis using writingD(3) [OF w(1)] by (simp add: TableBuilder_Finish_def b0(1))
  next
    assume f: "failed b0"
    from failed_stops(2,3) [OF f, of wops] obtain b' where
      "TableBuilder_Flush wops b0 = Some b0" "TableBuilder_Finish wops b0 = Some (tb_status b', b')" "tb_status b' = tb_status b0" by (elim exE conjE)
    moreover have "TableBuilder_Finish wops b = TableBuilder_Finish wops b0"
      by (simp add: TableBuilder_Finish_def b0(1) calculation(1))
    ultimately show ?thesis using f by (intro exI [of _ b']) (auto simp: failed_def)
  qed
qed

lemma entries_written:
  assumes "appends_to wops contents" and "writing contents b kvs blks LI LD \<or> failed b"
    and "sorted_wrt lt (map fst (kvs @ new))" and "\<forall>k \<in> fst ` set (kvs @ new). good k" and "length (kvs @ new) < 2 ^ 31"
  shows "\<exists>b'. add_table_entries wops new b = Some b' \<and> ((\<exists>blks LI LD. writing contents b' (kvs @ new) blks LI LD) \<or> failed b')"
  using assms(2-5)
proof (induction new arbitrary: b kvs blks LI LD)
  case Nil
  then show ?case by auto
next
  case (Cons x new)
  obtain k v where x: "x = (k, v)" by fastforce
  have "\<exists>b1. TableBuilder_Add wops k v b = Some b1 \<and> ((\<exists>blks LI LD. writing contents b1 (kvs @ [(k, v)]) blks LI LD) \<or> failed b1)"
    using Cons.prems(1)
  proof (elim disjE)
    assume "writing contents b kvs blks LI LD"
    then show ?thesis by (rule add_writes [OF assms(1)]) (use Cons.prems(2-4) x in \<open>auto simp: sorted_wrt_append\<close>)
  next
    assume "failed b"
    then show ?thesis using failed_stops(1) by blast
  qed
  then obtain b1 blks1 LI1 LD1 where b1: "TableBuilder_Add wops k v b = Some b1" "writing contents b1 (kvs @ [(k, v)]) blks1 LI1 LD1 \<or> failed b1"
    by blast
  from Cons.IH [OF b1(2)] Cons.prems(2-4) x show ?case by (simp add: b1(1))
qed

text \<open>Building a table is defined whatever the file answers; when the status of \<open>Finish\<close> is OK, the
  file holds the table.\<close>

lemma table_written:
  assumes "appends_to wops contents" and "contents f = []" and "sorted_wrt lt (map fst kvs)" and "\<forall>k \<in> fst ` set kvs. good k"
    and "length kvs < 2 ^ 31"
  shows "\<exists>s b. write_table wops options f kvs = Some (s, b) \<and> (Status_ok s \<longrightarrow> written contents b kvs)"
proof -
  from new_writes [where contents = contents and f = f, OF assms(2)] obtain b0 where b0: "TableBuilder_new options f = Some b0" "writing contents b0 [] [] ly_empty ly_empty"
    by (elim exE conjE)
  from entries_written [OF assms(1) disjI1 [OF b0(2)], of kvs] assms(3-5) obtain b1 where
    b1: "add_table_entries wops kvs b0 = Some b1" "(\<exists>blks LI LD. writing contents b1 kvs blks LI LD) \<or> failed b1" by auto
  from b1(2) show ?thesis
  proof (elim disjE exE)
    fix blks LI LD
    assume "writing contents b1 kvs blks LI LD"
    from finish_writes [OF assms(1) this] show ?thesis by (auto simp: write_table_def b0(1) b1(1))
  next
    assume f: "failed b1"
    from failed_stops(3) [OF f, of wops] f show ?thesis by (auto simp: write_table_def b0(1) b1(1) failed_def)
  qed
qed

end

end
