(* ===== verification/Ldb_Table_Read.thy ===== *)
theory Ldb_Table_Read
  imports Ldb_Table_Build
begin

text \<open>
  Reading back what the table builder has written: opening the file gives a table whose iterator stands for
  the list of entries, and looking up a key finds its entry.
\<close>

subsection \<open>Iterators of blocks as cursors\<close>

context key_comparator
begin

definition bi_stands :: "block_iterator \<Rightarrow> (slice \<times> slice) list \<Rightarrow> nat \<Rightarrow> bool" where
  "bi_stands it kvs i = (case it of
     Empty_Iterator s \<Rightarrow> s = Status_OK \<and> kvs = [] \<and> i = 0
   | Block_Iterator b \<Rightarrow> block_stands b kvs i)"

end

locale entry_comparator = block_comparator

sublocale entry_comparator \<subseteq> entry: cursor cmp good "BI_ops cmp" bi_stands
proof (unfold_locales, goal_cases)
  case (1 it kvs i)
  then show ?case using block.stands_range by (auto simp: bi_stands_def split: block_iterator.splits)
next
  case (2 it kvs i)
  then show ?case using block.stands_sorted by (auto simp: bi_stands_def split: block_iterator.splits)
next
  case (3 it kvs i k)
  then show ?case using block.stands_good by (auto simp: bi_stands_def split: block_iterator.splits)
next
  case (4 it kvs i)
  then show ?case using block.stands_valid by (auto simp: bi_stands_def BI_ops_def Let_def Empty_ops_def split: block_iterator.splits)
next
  case (5 it kvs i)
  then show ?case using block.stands_key by (auto simp: bi_stands_def BI_ops_def Let_def split: block_iterator.splits)
next
  case (6 it kvs i)
  then show ?case using block.stands_value by (auto simp: bi_stands_def BI_ops_def Let_def split: block_iterator.splits)
next
  case (7 it kvs i)
  then show ?case using block.stands_status by (auto simp: bi_stands_def BI_ops_def Let_def Empty_ops_def split: block_iterator.splits)
next
  case (8 it kvs i)
  then show ?case using block.stands_first by (fastforce simp: bi_stands_def BI_ops_def Let_def Empty_ops_def split: block_iterator.splits)
next
  case (9 it kvs i)
  then show ?case using block.stands_last by (fastforce simp: bi_stands_def BI_ops_def Let_def Empty_ops_def split: block_iterator.splits)
next
  case (10 it kvs i target)
  then show ?case using block.stands_seek
    by (fastforce simp: bi_stands_def BI_ops_def Let_def Empty_ops_def seek_pos_def split: block_iterator.splits)
next
  case (11 it kvs i)
  then show ?case using block.stands_next by (fastforce simp: bi_stands_def BI_ops_def Let_def split: block_iterator.splits)
next
  case (12 it kvs i)
  then show ?case using block.stands_prev by (fastforce simp: bi_stands_def BI_ops_def Let_def split: block_iterator.splits)
qed

interpretation bytewise: entry_comparator Bytewise_Compare "\<lambda>_. True"
  by unfold_locales

context key_comparator
begin

text \<open>Opening the bytes of a block that was built.\<close>

lemma open_layout:
  assumes "ly_ok L" and "ly_sorted L" and "length (ly_data L) < 2 ^ 32"
  shows "\<exists>b it. Block_new (ly_data L) = Some b \<and> Block_NewIterator b = Some it \<and> bi_stands it (ly_entries L) (ly_size L)"
proof -
  from open_data [OF assms(1,3)] obtain it where it: "open_block (ly_data L) = Some (Block_Iterator it)" "past_end L it" by blast
  then obtain b where "Block_new (ly_data L) = Some b" "Block_NewIterator b = Some (Block_Iterator it)"
    by (auto simp: open_block_def split: bind_splits)
  moreover have "bi_stands (Block_Iterator it) (ly_entries L) (ly_size L)"
    using it(2) assms(2) by (auto simp: bi_stands_def block_stands_def stands_in_def)
  ultimately show ?thesis by blast
qed

end

subsection \<open>Opening a table\<close>

context table_contract
begin

definition index_holds :: "'r Table \<Rightarrow> layout \<Rightarrow> bool" where
  "index_holds t LI \<longleftrightarrow> (\<exists>it n. Block_NewIterator (t_index_block t) = Some it \<and> bi_stands it (ly_entries LI) n)"

definition filter_holds :: "'r Table \<Rightarrow> (BlockHandle \<times> layout) list \<Rightarrow> bool" where
  "filter_holds t blks \<longleftrightarrow> (case op_filter_policy options of
     None \<Rightarrow> t_filter t = None
   | Some p \<Rightarrow> \<exists>r. t_filter t = Some r \<and>
       (\<forall>(hB, L) \<in> set blks. \<forall>k \<in> set (ly_keys L). FilterBlock_KeyMayMatch (fp_KeyMayMatch p) r (bh_offset hB) k = Some True) \<and>
       (\<forall>off k. (\<forall>f. fp_KeyMayMatch p k f \<noteq> None) \<longrightarrow> FilterBlock_KeyMayMatch (fp_KeyMayMatch p) r off k \<noteq> None))"

lemma read_footer:
  assumes "reads_as rops file bytes" and "bytes = pre @ foot" and "length foot = kEncodedLength" and "length bytes < 2 ^ 32"
  shows "\<not> (of_nat (length bytes) :: 64 word) < of_nat kEncodedLength"
    and "\<exists>b. rf_Read rops file (of_nat (length bytes) - of_nat kEncodedLength) kEncodedLength = (Status_OK, foot, b)"
proof -
  have n: "length bytes = length pre + kEncodedLength" using assms(2,3) by simp
  then have o: "(of_nat (length bytes) :: 64 word) - of_nat kEncodedLength = of_nat (length pre)" by simp
  have u: "unat (of_nat (length pre) :: 64 word) = length pre" using n assms(4) by (simp only: unat_of_nat) simp
  have k: "unat (of_nat kEncodedLength :: 64 word) = kEncodedLength" by (simp add: unat_of_nat kEncodedLength_def kMaxEncodedLength_def)
  have v: "unat (of_nat (length bytes) :: 64 word) = length bytes" using assms(4) by (simp only: unat_of_nat) simp
  show "\<not> (of_nat (length bytes) :: 64 word) < of_nat kEncodedLength" unfolding word_less_nat_alt k v using n by simp
  from assms(1) [unfolded reads_as_def, rule_format, of "of_nat (length pre)" kEncodedLength]
  show "\<exists>b. rf_Read rops file (of_nat (length bytes) - of_nat kEncodedLength) kEncodedLength = (Status_OK, foot, b)"
    unfolding o u using n assms(2,3) by simp
qed

lemma ReadMeta_reads:
  assumes "table_layout bytes kvs blks LI LM hI hM hF" and "reads_as rops (t_file t) bytes" and "t_options t = options" and "t_filter t = None"
  shows "\<exists>fr. ReadMeta rops \<lparr>ft_metaindex = hM, ft_index = hI\<rparr> t = Some (t\<lparr>t_filter := fr\<rparr>) \<and> filter_holds (t\<lparr>t_filter := fr\<rparr>) blks"
proof (cases "op_filter_policy options")
  case None
  have "t = t\<lparr>t_filter := None\<rparr>" using assms(4) by simp
  then show ?thesis using None assms(3,4) by (intro exI [of _ None]) (simp add: ReadMeta_def filter_holds_def)
next
  case (Some p)
  have len: "length bytes < 2 ^ 32" and M: "ly_ok LM" "bytewise.ly_sorted LM" "ly_entries LM = meta_entries hF" "has_block bytes hM (ly_data LM)"
    and fs: "filter_stored bytes blks p hF" using assms(1) Some by (simp_all add: table_layout_def)
  let ?v = "op_paranoid_checks options" and ?ops = "BI_ops Bytewise_Compare"
  obtain c r where c: "has_block bytes hF c" "FilterBlockReader_new c = Some r"
     "\<forall>(hB, L) \<in> set blks. \<forall>k \<in> set (ly_keys L). FilterBlock_KeyMayMatch (fp_KeyMayMatch p) r (bh_offset hB) k = Some True"
     "\<forall>off k. (\<forall>f. fp_KeyMayMatch p k f \<noteq> None) \<longrightarrow> FilterBlock_KeyMayMatch (fp_KeyMayMatch p) r off k \<noteq> None"
    using fs unfolding filter_stored_def by (elim exE conjE)
  obtain b where rm: "ReadBlock rops (t_file t) ?v hM = Some (Status_OK, \<lparr>bc_data = ly_data LM, bc_cachable = b, bc_heap_allocated = b\<rparr>)"
    using read_block [OF M(4) assms(2) len] by blast
  obtain b' where rf: "ReadBlock rops (t_file t) ?v hF = Some (Status_OK, \<lparr>bc_data = c, bc_cachable = b', bc_heap_allocated = b'\<rparr>)"
    using read_block [OF c(1) assms(2) len] by blast
  have e: "ly_entries LM = [(filter_name p, handle_enc hF)]" using M(3) Some by (simp add: meta_entries_def)
  obtain blk it where it: "Block_new (ly_data LM) = Some blk" "Block_NewIterator blk = Some it" "bytewise.bi_stands it (ly_entries LM) (ly_size LM)"
    using bytewise.open_layout [OF M(1,2) has_block_sizes(4) [OF M(4) len]] by blast
  have "seek_pos bytewise.lt (ly_entries LM) (filter_name p) = 0"
    using bytewise.lt_irrefl [of "filter_name p"] by (simp add: e seek_pos_def)
  with bytewise.entry.stands_seek [OF it(3), of "filter_name p"] obtain it' where
    it': "it_Seek ?ops (filter_name p) it = Some it'" "bytewise.bi_stands it' (ly_entries LM) 0" by auto
  have z: "0 < length (ly_entries LM)" using e by simp
  have rd: "it_Valid ?ops it'" "it_key ?ops it' = Some (filter_name p)" "it_value ?ops it' = Some (handle_enc hF)"
    using bytewise.entry.stands_valid [OF it'(2)] bytewise.entry.stands_key [OF it'(2) z] bytewise.entry.stands_value [OF it'(2) z] e by simp_all
  have dec: "BlockHandle_DecodeFrom BlockHandle_new (handle_enc hF) = Some (Status_OK, hF, [])"
    by (rule handle_coding(2) [OF has_block_sizes(1,2) [OF c(1) len]])
  have "ReadFilter rops (handle_enc hF) t = Some (t\<lparr>t_filter := Some r\<rparr>)"
    using assms(3) by (simp add: ReadFilter_def dec rf c(2))
  then have "ReadMeta rops \<lparr>ft_metaindex = hM, ft_index = hI\<rparr> t = Some (t\<lparr>t_filter := Some r\<rparr>)"
    using assms(3) Some rm it(1,2) it'(1) rd by (simp add: ReadMeta_def filter_name_def)
  then show ?thesis using Some c(3,4) by (intro exI [of _ "Some r"]) (simp add: filter_holds_def)
qed

lemma open_table:
  assumes "table_layout bytes kvs blks LI LM hI hM hF" and "reads_as rops file bytes"
  shows "\<exists>t. Table_Open rops options new_id file (of_nat (length bytes)) = Some (Status_OK, Some t) \<and>
    t_options t = options \<and> t_file t = file \<and> t_cache_id t = case_option 0 id new_id \<and> t_metaindex_handle t = hM \<and>
    index_holds t LI \<and> filter_holds t blks"
proof -
  have len: "length bytes < 2 ^ 32" and I: "ly_ok LI" "ly_sorted LI" "has_block bytes hI (ly_data LI)"
    and M: "has_block bytes hM (ly_data LM)" using assms(1) by (simp_all add: table_layout_def)
  obtain pre foot where foot: "bytes = pre @ foot" "Footer_EncodeTo \<lparr>ft_metaindex = hM, ft_index = hI\<rparr> [] = Some foot"
    using assms(1) unfolding table_layout_def by blast
  let ?f = "\<lparr>ft_metaindex = hM, ft_index = hI\<rparr>"
  have fr: "length foot = kEncodedLength" "\<exists>r. Footer_DecodeFrom foot = Some (Status_OK, ?f, r)"
    using footer_roundtrip [of ?f] has_block_sizes(1,2) [OF M len] has_block_sizes(1,2) [OF I(3) len] foot(2)
    by (auto dest: spec [of _ "[]"])
  then obtain r where dec: "Footer_DecodeFrom foot = Some (Status_OK, ?f, r)" by blast
  note rd = read_footer [OF assms(2) foot(1) fr(1) len]
  obtain b0 where rf: "rf_Read rops file (of_nat (length bytes) - of_nat kEncodedLength) kEncodedLength = (Status_OK, foot, b0)"
    using rd(2) by blast
  obtain b where ri: "ReadBlock rops file (op_paranoid_checks options) hI = Some (Status_OK, \<lparr>bc_data = ly_data LI, bc_cachable = b, bc_heap_allocated = b\<rparr>)"
    using read_block [OF I(3) assms(2) len] by blast
  obtain blk it where it: "Block_new (ly_data LI) = Some blk" "Block_NewIterator blk = Some it" "bi_stands it (ly_entries LI) (ly_size LI)"
    using open_layout [OF I(1,2) has_block_sizes(4) [OF I(3) len]] by blast
  let ?t = "\<lparr>t_options = options, t_file = file, t_cache_id = case_option 0 id new_id,
                t_filter = None, t_metaindex_handle = hM, t_index_block = blk\<rparr>"
  obtain fr where fr: "ReadMeta rops ?f ?t = Some (?t\<lparr>t_filter := fr\<rparr>)" "filter_holds (?t\<lparr>t_filter := fr\<rparr>) blks"
    using ReadMeta_reads [OF assms(1), of rops ?t] assms(2) by auto
  have "Table_Open rops options new_id file (of_nat (length bytes)) = Some (Status_OK, Some (?t\<lparr>t_filter := fr\<rparr>))"
    using rd(1) by (simp only: Table_Open_def if_False rf Let_def prod.case Status_ok_OK simp_thms dec bind.bind_lunit Footer.simps ri
        BlockContents.simps it(1) fr(1) if_True)
  moreover have "index_holds (?t\<lparr>t_filter := fr\<rparr>) LI" using it(2,3) by (auto simp: index_holds_def)
  ultimately show ?thesis using fr(2) by (intro exI [of _ "?t\<lparr>t_filter := fr\<rparr>"]) simp
qed

end

subsection \<open>Reading blocks through the cache\<close>

text \<open>The handles a reader of the table can meet: the values of its index.\<close>

definition index_handle :: "'r Table \<Rightarrow> BlockHandle \<Rightarrow> bool" where
  "index_handle t h \<longleftrightarrow> (let ops = BI_ops (cp_Compare (op_comparator (t_options t))) in
     \<exists>k it it' v rest. Block_NewIterator (t_index_block t) = Some it \<and> it_Seek ops k it = Some it' \<and> it_Valid ops it' \<and>
       it_value ops it' = Some v \<and> BlockHandle_DecodeFrom BlockHandle_new v = Some (Status_OK, h, rest))"

text \<open>What the cache answers for the blocks of the table is what the file holds.\<close>

definition cache_coherent :: "'r random_access_ops \<Rightarrow> (slice \<Rightarrow> Block option) option \<Rightarrow> 'r Table \<Rightarrow> bool" where
  "cache_coherent rops block_cache t \<longleftrightarrow>
     (\<forall>lookup h verify contents b. block_cache = Some lookup \<and> index_handle t h \<and>
        ReadBlock rops (t_file t) verify h = Some (Status_OK, contents) \<and>
        lookup (cache_key (t_cache_id t) (bh_offset h)) = Some b \<longrightarrow> Block_new (bc_data contents) = Some b)"

context key_comparator
begin

lemma seek_own_key:
  assumes "sorted_wrt lt (map fst kvs)" and "\<And>k. k \<in> fst ` set kvs \<Longrightarrow> good k" and "i < length kvs"
  shows "seek_pos lt kvs (fst (kvs ! i)) = i"
proof -
  let ?p = "seek_pos lt kvs (fst (kvs ! i))"
  have g: "good (fst (kvs ! i))" using assms(2,3) by simp
  have "\<not> i < ?p" using seek_pos_before [of i lt kvs "fst (kvs ! i)"] lt_irrefl [OF g] by blast
  moreover have "\<not> ?p < i"
  proof
    assume p: "?p < i"
    then have "lt (fst (kvs ! ?p)) (fst (kvs ! i))" using assms(1,3) by (auto simp: sorted_wrt_iff_nth_less)
    moreover have "\<not> lt (fst (kvs ! ?p)) (fst (kvs ! i))" using p assms(3) by (intro seek_pos_at) simp
    ultimately show False by simp
  qed
  ultimately show ?thesis by simp
qed

end

sublocale table_contract \<subseteq> entry_comparator "cp_Compare (op_comparator options)" good
  by unfold_locales

context table_contract
begin

text \<open>A table that was opened on the bytes of the entries \<open>kvs\<close>.\<close>

definition opened ::
  "'r random_access_ops \<Rightarrow> (slice \<Rightarrow> Block option) option \<Rightarrow> 'r Table \<Rightarrow> byte list \<Rightarrow> (slice \<times> slice) list \<Rightarrow>
     (BlockHandle \<times> layout) list \<Rightarrow> layout \<Rightarrow> bool" where
  "opened rops block_cache t bytes kvs blks LI \<longleftrightarrow> t_options t = options \<and> index_holds t LI \<and> filter_holds t blks \<and>
     cache_coherent rops block_cache t \<and> reads_as rops (t_file t) bytes \<and> (\<exists>LM hI hM hF. table_layout bytes kvs blks LI LM hI hM hF)"

lemma openedD:
  assumes "opened rops block_cache t bytes kvs blks LI"
  shows "t_options t = options" "index_holds t LI" "filter_holds t blks" "cache_coherent rops block_cache t"
    "reads_as rops (t_file t) bytes" "length bytes < 2 ^ 32" "kvs = block_entries blks" "stored bytes blks" "ly_size LI = length blks"
    "indexes_blocks (ly_entries LI) blks []" "ly_sorted LI" "sorted_wrt lt (map fst kvs)" "\<forall>k \<in> fst ` set kvs. good k"
proof -
  obtain LM hI hM hF where l: "table_layout bytes kvs blks LI LM hI hM hF" using assms unfolding opened_def by blast
  show "t_options t = options" "index_holds t LI" "filter_holds t blks" "cache_coherent rops block_cache t"
    "reads_as rops (t_file t) bytes" using assms unfolding opened_def by blast+
  show "length bytes < 2 ^ 32" "kvs = block_entries blks" "stored bytes blks" "ly_size LI = length blks"
    "indexes_blocks (ly_entries LI) blks []" "ly_sorted LI" "sorted_wrt lt (map fst kvs)" "\<forall>k \<in> fst ` set kvs. good k"
    by (insert l, unfold table_layout_def) (elim conjE, assumption)+
qed

lemma blocks_sorted:
  assumes "opened rops block_cache t bytes kvs blks LI" and "(h, L) \<in> set blks"
  shows "ly_sorted L"
proof -
  obtain xs ys where "blks = xs @ (h, L) # ys" using assms(2) by (meson split_list)
  then show ?thesis using openedD(12,13) [OF assms(1)] unfolding openedD(7) [OF assms(1)] by (simp add: ly_sorted_def sorted_wrt_append)
qed

lemma index_decodes:
  assumes "opened rops block_cache t bytes kvs blks LI" and "i < length blks"
  shows "BlockHandle_DecodeFrom BlockHandle_new (snd (ly_entries LI ! i)) = Some (Status_OK, fst (blks ! i), [])"
    and "index_handle t (fst (blks ! i))"
proof -
  note o = openedD(1,2,6,8-11) [OF assms(1)]
  obtain h L where hL: "blks ! i = (h, L)" "(h, L) \<in> set blks" using assms(2) by (metis nth_mem surj_pair)
  have hb: "has_block bytes h (ly_data L)" using o(4) hL(2) by (auto simp: stored_def)
  have v: "snd (ly_entries LI ! i) = handle_enc h" using o(5,6) assms(2) hL(1) by (simp add: indexes_blocks_def)
  show dec: "BlockHandle_DecodeFrom BlockHandle_new (snd (ly_entries LI ! i)) = Some (Status_OK, fst (blks ! i), [])"
    unfolding v hL(1) fst_conv by (rule handle_coding(2) [OF has_block_sizes(1,2) [OF hb o(3)]])
  obtain it n where it: "Block_NewIterator (t_index_block t) = Some it" "bi_stands it (ly_entries LI) n"
    using o(2) by (auto simp: index_holds_def)
  let ?k = "fst (ly_entries LI ! i)"
  have i: "i < ly_size LI" using assms(2) o(5) by simp
  have g: "\<And>k. k \<in> fst ` set (ly_entries LI) \<Longrightarrow> good k" and s: "sorted_wrt lt (map fst (ly_entries LI))"
    using o(7) by (auto simp: ly_sorted_def)
  have gk: "good ?k" using g i by simp
  have own: "seek_pos lt (ly_entries LI) ?k = i" by (rule seek_own_key [OF s _ i]) (rule g)
  from entry.stands_seek [OF it(2) gk] obtain it' where it': "it_Seek (BI_ops cmp) ?k it = Some it'" "bi_stands it' (ly_entries LI) i"
    unfolding own by (elim exE conjE)
  have "it_Valid (BI_ops cmp) it'" "it_value (BI_ops cmp) it' = Some (snd (ly_entries LI ! i))"
    using entry.stands_valid [OF it'(2)] entry.stands_value [OF it'(2) i] i by simp_all
  then show "index_handle t (fst (blks ! i))" unfolding index_handle_def Let_def o(1) using it(1) it'(1) dec by blast
qed

lemma block_read:
  assumes "opened rops block_cache t bytes kvs blks LI" and "i < length blks"
  shows "\<exists>it ins. BlockReader rops block_cache t ro (snd (ly_entries LI ! i)) = Some (it, ins) \<and>
    bi_stands it (ly_entries (snd (blks ! i))) (ly_size (snd (blks ! i)))"
proof -
  note o = openedD(1,4-6,8) [OF assms(1)]
  obtain h L where hL: "blks ! i = (h, L)" "(h, L) \<in> set blks" using assms(2) by (metis nth_mem surj_pair)
  have hb: "has_block bytes h (ly_data L)" and ok: "ly_ok L" using o(5) hL(2) by (auto simp: stored_def)
  from open_layout [OF ok blocks_sorted [OF assms(1) hL(2)] has_block_sizes(4) [OF hb o(4)]] obtain b it where
    it: "Block_new (ly_data L) = Some b" "Block_NewIterator b = Some it" "bi_stands it (ly_entries L) (ly_size L)" by blast
  note dec = index_decodes [OF assms, unfolded hL(1) fst_conv]
  obtain z where rd: "ReadBlock rops (t_file t) (ro_verify_checksums ro) h = Some (Status_OK, \<lparr>bc_data = ly_data L, bc_cachable = z, bc_heap_allocated = z\<rparr>)"
    using read_block [OF hb o(3,4)] by blast
  let ?cached = "case block_cache of None \<Rightarrow> None | Some lookup \<Rightarrow> lookup (cache_key (t_cache_id t) (bh_offset h))"
  have cached: "b' = b" if c: "?cached = Some b'" for b'
  proof -
    obtain lookup where l: "block_cache = Some lookup" "lookup (cache_key (t_cache_id t) (bh_offset h)) = Some b'"
      using c by (auto split: option.splits)
    then have "Block_new (bc_data \<lparr>bc_data = ly_data L, bc_cachable = z, bc_heap_allocated = z\<rparr>) = Some b'"
      using o(2) dec(2) rd unfolding cache_coherent_def by blast
    then show ?thesis using it(1) by simp
  qed
  have "\<exists>ins. BlockReader rops block_cache t ro (snd (ly_entries LI ! i)) = Some (it, ins)"
  proof (cases "?cached")
    case None
    then show ?thesis by (simp add: BlockReader_def dec(1) rd it(1,2) Let_def)
  next
    case (Some b')
    then show ?thesis using cached [OF Some] by (simp add: BlockReader_def dec(1) it(2) Let_def)
  qed
  then show ?thesis using it(3) hL(1) by auto
qed

end

subsection \<open>The table as a two-level structure\<close>

locale table_reader = table_contract options good
  for options :: Options and good :: "slice \<Rightarrow> bool" +
  fixes rops :: "'r random_access_ops" and block_cache :: "(slice \<Rightarrow> Block option) option"
    and t :: "'r Table" and ro :: ReadOptions

sublocale table_reader \<subseteq> two_level "cp_Compare (op_comparator options)" good
  "BI_ops (cp_Compare (op_comparator options))" bi_stands "BI_ops (cp_Compare (op_comparator options))" bi_stands
  "block_function rops block_cache t ro"
  by unfold_locales

lemma FilterBlock_cong:
  assumes "\<forall>f. may k f = may k' f"
  shows "FilterBlock_KeyMayMatch may r off k = FilterBlock_KeyMayMatch may r off k'"
proof -
  have "may k = may k'" using assms by auto
  then show ?thesis by (simp only: FilterBlock_KeyMayMatch_def)
qed

context table_reader
begin

abbreviation data_blocks :: "(BlockHandle \<times> layout) list \<Rightarrow> (slice \<times> slice) list list" where
  "data_blocks blks \<equiv> map (\<lambda>(h, L). ly_entries L) blks"

lemma data_blocks_nth: "i < length blks \<Longrightarrow> data_blocks blks ! i = ly_entries (snd (blks ! i))"
  by (simp add: case_prod_beta)

lemma separates_nth:
  assumes "opened rops block_cache t bytes kvs blks LI" and "i < length blks"
  shows "separates (fst (ly_entries LI ! i)) (ly_keys (snd (blks ! i))) (following blks [] i)"
  using openedD(9,10) [OF assms(1)] assms(2) by (simp add: indexes_blocks_def)

lemma opened_indexed:
  assumes "opened rops block_cache t bytes kvs blks LI"
  shows "indexed (ly_entries LI) (data_blocks blks)"
  unfolding indexed_def indexes_def
proof (intro conjI allI impI ballI)
  note o = openedD [OF assms]
  have n: "i < length blks" if "i < ly_size LI" for i using that o(9) by simp
  show "length (data_blocks blks) = ly_size LI" using o(9) by simp
  show "sorted_wrt below (map fst (ly_entries LI))" "\<And>k. k \<in> fst ` set (ly_entries LI) \<Longrightarrow> good k" using o(11) by (auto simp: ly_sorted_def)
  fix i
  assume i: "i < ly_size LI"
  from block_read [OF assms n [OF i], of ro] obtain it ins where
    "BlockReader rops block_cache t ro (snd (ly_entries LI ! i)) = Some (it, ins)"
    "bi_stands it (ly_entries (snd (blks ! i))) (ly_size (snd (blks ! i)))" by (elim exE conjE)
  then show "\<exists>it p. block_function rops block_cache t ro (snd (ly_entries LI ! i)) = Some it \<and> bi_stands it (data_blocks blks ! i) p"
    unfolding data_blocks_nth [OF n [OF i]] block_function_def by auto
next
  note o = openedD [OF assms]
  fix i j
  assume i: "i < ly_size LI" and j: "j < ly_size LI" and e: "snd (ly_entries LI ! i) = snd (ly_entries LI ! j)"
  then have n: "i < length blks" "j < length blks" using o(9) by simp_all
  have "fst (blks ! i) = fst (blks ! j)" using index_decodes(1) [OF assms n(1)] index_decodes(1) [OF assms n(2)] e by simp
  moreover have "sorted_wrt (<) (map (\<lambda>(h, L). bh_offset h) blks)" using o(8) by (simp add: stored_def)
  then have "distinct (map (\<lambda>(h, L). bh_offset h) blks)" using strict_sorted_iff by blast
  ultimately have "i = j" using n unfolding distinct_conv_nth by (simp add: case_prod_beta) metis
  then show "data_blocks blks ! i = data_blocks blks ! j" by simp
next
  fix i k
  assume i: "i < ly_size LI" and k: "k \<in> fst ` set (data_blocks blks ! i)"
  then have n: "i < length blks" using openedD(9) [OF assms] by simp
  have k': "k \<in> set (ly_keys (snd (blks ! i)))" using k unfolding data_blocks_nth [OF n] by (simp add: ly_keys_def)
  have "ly_sorted (snd (blks ! i))" using blocks_sorted [OF assms, of "fst (blks ! i)" "snd (blks ! i)"] n by simp
  then have "good k" using k' by (auto simp: ly_sorted_def ly_keys_def)
  then show "\<not> below (fst (ly_entries LI ! i)) k"
    using separates_nth [OF assms n] k' le_not_lt by (auto simp: separates_def)
next
  fix j i k
  assume j: "j < ly_size LI" and i: "i < j" and k: "k \<in> fst ` set (data_blocks blks ! j)"
  then have n: "j < length blks" "i < length blks" using openedD(9) [OF assms] by simp_all
  have "blks ! j \<in> set (drop (Suc i) blks)" using n(1) i unfolding in_set_conv_nth
    by (intro exI [of _ "j - Suc i"]) auto
  then have "set (ly_entries (snd (blks ! j))) \<subseteq> set (block_entries (drop (Suc i) blks))"
    unfolding block_entries_def case_prod_beta set_concat set_map by blast
  then have "k \<in> set (following blks [] i)" using k unfolding data_blocks_nth [OF n(1)] by (auto simp: following_def)
  then show "below (fst (ly_entries LI ! i)) k" using separates_nth [OF assms n(2)] by (auto simp: separates_def)
qed

lemma data_blocks_concat: "concat (data_blocks blks) = block_entries blks"
  by (simp add: block_entries_def)

text \<open>The iterator of the table stands for the list of its entries.\<close>

lemma table_iterates:
  assumes "opened rops block_cache t bytes kvs blks LI"
  shows "\<exists>tl. Table_NewIterator t = Some tl \<and> two_stands tl kvs (length kvs)"
    and "simulates_cursor lt good (Table_iter_ops rops block_cache t ro) kvs (\<lambda>it i. two_stands it kvs i)"
proof -
  note o = openedD [OF assms]
  obtain it n where it: "Block_NewIterator (t_index_block t) = Some it" "bi_stands it (ly_entries LI) n"
    using o(2) by (auto simp: index_holds_def)
  from two_new [OF opened_indexed [OF assms] it(2)] show "\<exists>tl. Table_NewIterator t = Some tl \<and> two_stands tl kvs (length kvs)"
    by (simp add: Table_NewIterator_def it(1) o(1,7) data_blocks_concat)
  show "simulates_cursor lt good (Table_iter_ops rops block_cache t ro) kvs (\<lambda>it i. two_stands it kvs i)"
    unfolding Table_iter_ops_def Let_def o(1) by (rule two.stands_simulates)
qed

end

subsection \<open>Looking up a key\<close>

context table_contract
begin

text \<open>When the key that is looked up must be found: no separator of keys falls between it and the entry
  behind it, and the filter treats both alike.\<close>

definition same_block :: "slice \<Rightarrow> slice \<Rightarrow> bool" where
  "same_block k x \<longleftrightarrow> (\<forall>a c. good a \<and> lt a k \<and> sep a x = Some c \<longrightarrow> lt c k) \<and>
     (\<forall>p f. op_filter_policy options = Some p \<longrightarrow> fp_KeyMayMatch p k f = fp_KeyMayMatch p x f)"

lemma same_block_refl:
  assumes "good k"
  shows "same_block k k"
proof -
  have "lt c k" if "good a" "lt a k" "sep a k = Some c" for a c
    using sep_bounds [OF that(1) assms that(2)] that(3) by auto
  then show ?thesis unfolding same_block_def by blast
qed

end

context table_reader
begin

lemma excluded:
  assumes "opened rops block_cache t bytes kvs blks LI" and "i < length blks"
    and "\<forall>p f. op_filter_policy options = Some p \<longrightarrow> fp_KeyMayMatch p k f \<noteq> None"
  shows "\<exists>e. filter_excludes t (snd (ly_entries LI ! i)) k = Some e \<and>
    (e \<longrightarrow> (\<forall>x \<in> set (ly_keys (snd (blks ! i))). \<not> same_block k x))"
proof (cases "op_filter_policy options")
  case None
  then show ?thesis using openedD(3) [OF assms(1)] by (intro exI [of _ False]) (simp add: filter_holds_def filter_excludes_def)
next
  case (Some p)
  then obtain r where r: "t_filter t = Some r"
    "\<forall>(hB, L) \<in> set blks. \<forall>k \<in> set (ly_keys L). FilterBlock_KeyMayMatch (fp_KeyMayMatch p) r (bh_offset hB) k = Some True"
    "\<forall>off k. (\<forall>f. fp_KeyMayMatch p k f \<noteq> None) \<longrightarrow> FilterBlock_KeyMayMatch (fp_KeyMayMatch p) r off k \<noteq> None"
    using openedD(3) [OF assms(1)] by (auto simp: filter_holds_def)
  let ?h = "fst (blks ! i)"
  obtain m where m: "FilterBlock_KeyMayMatch (fp_KeyMayMatch p) r (bh_offset ?h) k = Some m" using r(3) assms(3) Some by blast
  have e: "filter_excludes t (snd (ly_entries LI ! i)) k = Some (\<not> m)"
    using Some openedD(1) [OF assms(1)] by (simp add: filter_excludes_def r(1) index_decodes(1) [OF assms(1,2)] m)
  have "m" if x: "x \<in> set (ly_keys (snd (blks ! i)))" "same_block k x" for x
  proof -
    have "(?h, snd (blks ! i)) \<in> set blks" using assms(2) by simp
    then have "FilterBlock_KeyMayMatch (fp_KeyMayMatch p) r (bh_offset ?h) x = Some True" using r(2) x(1) by blast
    moreover have "\<forall>f. fp_KeyMayMatch p k f = fp_KeyMayMatch p x f" using x(2) Some by (simp add: same_block_def)
    ultimately show ?thesis using FilterBlock_cong [of "fp_KeyMayMatch p" k x] m by simp
  qed
  then show ?thesis using e by auto
qed

lemma behind_block:
  assumes "opened rops block_cache t bytes kvs blks LI" and "good k" and "i < length blks"
    and "seek_pos lt kvs k = offset (data_blocks blks) (Suc i)" and "seek_pos lt kvs k < length kvs"
    and "\<not> lt (fst (ly_entries LI ! i)) k" and "\<forall>x \<in> set (ly_keys (snd (blks ! i))). lt x k"
  shows "\<not> same_block k (fst (kvs ! seek_pos lt kvs k))"
proof
  let ?x = "fst (kvs ! seek_pos lt kvs k)" and ?c = "fst (ly_entries LI ! i)"
  assume s: "same_block k ?x"
  note o = openedD [OF assms(1)]
  have split: "kvs = concat (take (Suc i) (data_blocks blks)) @ concat (drop (Suc i) (data_blocks blks))"
    unfolding o(7) data_blocks_concat [symmetric] by (metis append_take_drop_id concat_append)
  then have ne: "concat (drop (Suc i) (data_blocks blks)) \<noteq> []" and x: "kvs ! seek_pos lt kvs k = hd (concat (drop (Suc i) (data_blocks blks)))"
    using assms(4,5) by (auto simp: offset_def nth_append hd_conv_nth)
  have f: "following blks [] i = map fst (concat (drop (Suc i) (data_blocks blks)))"
    by (simp add: following_def block_entries_def drop_map)
  then have "following blks [] i \<noteq> []" "hd (following blks [] i) = ?x" using ne x by (simp_all add: hd_map)
  then obtain a where a: "a \<in> set (ly_keys (snd (blks ! i)))" "sep a ?x = Some ?c"
    using separates_nth [OF assms(1,3)] by (auto simp: separates_def)
  have "ly_sorted (snd (blks ! i))" using blocks_sorted [OF assms(1), of "fst (blks ! i)" "snd (blks ! i)"] assms(3) by simp
  then have "good a" using a(1) by (auto simp: ly_sorted_def ly_keys_def)
  then have "lt ?c k" using s a assms(7) by (auto simp: same_block_def)
  then show False using assms(6) by simp
qed

lemma table_get:
  assumes "opened rops block_cache t bytes kvs blks LI" and "good k"
    and "\<forall>p f. op_filter_policy options = Some p \<longrightarrow> fp_KeyMayMatch p k f \<noteq> None"
  defines "n \<equiv> seek_pos lt kvs k"
  shows "\<exists>saved. InternalGet rops block_cache t ro k = Some (Status_OK, saved) \<and>
    (saved = None \<or> n < length kvs \<and> saved = Some (kvs ! n)) \<and>
    (n < length kvs \<and> same_block k (fst (kvs ! n)) \<longrightarrow> saved = Some (kvs ! n))"
proof -
  note o = openedD [OF assms(1)] and ix = opened_indexed [OF assms(1)]
  let ?idx = "ly_entries LI" and ?ops = "BI_ops cmp" and ?bs = "data_blocks blks"
  define i where "i = seek_pos lt ?idx k"
  obtain it m where it: "Block_NewIterator (t_index_block t) = Some it" "bi_stands it ?idx m"
    using o(2) by (auto simp: index_holds_def)
  from entry.stands_seek [OF it(2) assms(2)] obtain it' where it': "it_Seek ?ops k it = Some it'" "bi_stands it' ?idx i"
    unfolding i_def by (elim exE conjE)
  have n: "(if i < length ?idx then offset ?bs i + seek_pos lt (?bs ! i) k else length kvs) = n"
    using seek_indexed [OF ix assms(2)] unfolding i_def n_def o(7) data_blocks_concat .
  have st: "it_status ?ops it' = Some Status_OK" by (rule entry.stands_status [OF it'(2)])
  show ?thesis
  proof (cases "i < length ?idx")
    case False
    then have "\<not> it_Valid ?ops it'" using entry.stands_valid [OF it'(2)] by simp
    then have "InternalGet rops block_cache t ro k = Some (Status_OK, None)"
      by (simp add: InternalGet_def o(1) it(1) it'(1) st Let_def)
    then show ?thesis using False n by auto
  next
    case True
    then have il: "i < length blks" using o(9) by simp
    have v: "it_Valid ?ops it'" "it_value ?ops it' = Some (snd (?idx ! i))"
      using entry.stands_valid [OF it'(2)] entry.stands_value [OF it'(2) True] True by simp_all
    have at: "\<not> lt (fst (?idx ! i)) k" using seek_pos_at [of lt ?idx k] True by (simp add: i_def)
    let ?es = "ly_entries (snd (blks ! i))"
    let ?j = "seek_pos lt ?es k"
    have bs: "?bs ! i = ?es" by (rule data_blocks_nth [OF il])
    have nj: "n = offset ?bs i + ?j" using n True by (simp add: bs)
    have il': "i < length ?bs" using il by simp
    have here: "n < length kvs \<and> kvs ! n = ?es ! ?j" if "?j < length ?es"
      using concat_nth [OF il', of ?j] that unfolding bs nj o(7) data_blocks_concat [symmetric] by simp
    have gone: "\<not> (n < length kvs \<and> same_block k (fst (kvs ! n)))" if j: "\<not> ?j < length ?es"
    proof -
      have jl: "?j = length ?es" using j seek_pos_le [of lt ?es k] by simp
      have "offset ?bs i + length (?bs ! i) = offset ?bs (Suc i)" by (rule offset_Suc [OF il', symmetric])
      then have "n = offset ?bs (Suc i)" unfolding nj jl bs by simp
      moreover have "\<forall>x \<in> set (ly_keys (snd (blks ! i))). lt x k"
      proof
        fix x
        assume "x \<in> set (ly_keys (snd (blks ! i)))"
        then obtain l where "l < length ?es" "x = fst (?es ! l)" by (auto simp: ly_keys_def in_set_conv_nth)
        then show "lt x k" using seek_pos_before [of l lt ?es k] jl by simp
      qed
      ultimately show ?thesis using behind_block [OF assms(1,2) il _ _ at] unfolding n_def by blast
    qed
    from excluded [OF assms(1) il assms(3)] obtain e where e: "filter_excludes t (snd (?idx ! i)) k = Some e"
      "e \<longrightarrow> (\<forall>x \<in> set (ly_keys (snd (blks ! i))). \<not> same_block k x)" by (elim exE conjE)
    show ?thesis
    proof (cases e)
      case True
      then have "InternalGet rops block_cache t ro k = Some (Status_OK, None)"
        by (simp add: InternalGet_def o(1) it(1) it'(1) v e(1) st Let_def)
      moreover have "\<not> (n < length kvs \<and> same_block k (fst (kvs ! n)))"
      proof (cases "?j < length ?es")
        case True
        then have "fst (kvs ! n) \<in> set (ly_keys (snd (blks ! i)))" using here by (simp add: ly_keys_def)
        then show ?thesis using e(2) \<open>e\<close> by blast
      qed (rule gone)
      ultimately show ?thesis by blast
    next
      case False
      from block_read [OF assms(1) il, of ro] obtain bi ins where
        bi: "BlockReader rops block_cache t ro (snd (?idx ! i)) = Some (bi, ins)" "bi_stands bi ?es (length ?es)" by (elim exE conjE)
      from entry.stands_seek [OF bi(2) assms(2)] obtain bi' where bi': "it_Seek ?ops k bi = Some bi'" "bi_stands bi' ?es ?j" by (elim exE conjE)
      have bst: "it_status ?ops bi' = Some Status_OK" by (rule entry.stands_status [OF bi'(2)])
      show ?thesis
      proof (cases "?j < length ?es")
        case True
        have "it_Valid ?ops bi'" "it_key ?ops bi' = Some (fst (?es ! ?j))" "it_value ?ops bi' = Some (snd (?es ! ?j))"
          using entry.stands_valid [OF bi'(2)] entry.stands_key [OF bi'(2) True] entry.stands_value [OF bi'(2) True] True by simp_all
        then have "InternalGet rops block_cache t ro k = Some (Status_OK, Some (?es ! ?j))"
          using False by (simp add: InternalGet_def o(1) it(1) it'(1) v e(1) st bst bi(1) bi'(1) Let_def)
        then show ?thesis using here [OF True] by simp
      next
        case j: False
        then have "\<not> it_Valid ?ops bi'" using entry.stands_valid [OF bi'(2)] by simp
        then have "InternalGet rops block_cache t ro k = Some (Status_OK, None)"
          using False by (simp add: InternalGet_def o(1) it(1) it'(1) v e(1) st bst bi(1) bi'(1) Let_def)
        then show ?thesis using gone [OF j] by blast
      qed
    qed
  qed
qed

end



end
