(* ===== verification/Ldb_Table_Demo.thy ===== *)
theory Ldb_Table_Demo
  imports Ldb_Table_Read
begin

text \<open>
  A file in memory, and tables of one entry written to it: the examples of the theorems about tables.
\<close>

subsection \<open>Files of at most a thousand bytes\<close>

definition small_file :: "byte list writable_ops" where
  "small_file = \<lparr>wf_Append = \<lambda>f d. if length f + length d < 1000 then (Status_OK, f @ d) else (Some [], f),
     wf_Flush = \<lambda>f. (Status_OK, f)\<rparr>"

definition memory_file :: "byte list random_access_ops" where
  "memory_file = \<lparr>rf_Read = \<lambda>f off n. (Status_OK, take n (drop (unat off) f), False)\<rparr>"

lemma small_file_appends: "appends_to small_file (\<lambda>f. f)"
  unfolding appends_to_def
proof (intro conjI allI impI)
  fix f d f' :: "byte list" and s :: Status
  assume "wf_Append small_file f d = (s, f')" and "Status_ok s"
  then show "f' = f @ d" and "length f' < 2 ^ 32" by (auto simp: small_file_def Status_ok_def split: if_splits)
next
  fix f f' :: "byte list" and s :: Status
  assume "wf_Flush small_file f = (s, f')"
  then show "f' = f" by (simp add: small_file_def)
qed

lemma memory_file_reads: "reads_as memory_file f f"
  unfolding reads_as_def memory_file_def random_access_ops.simps prod.inject by blast

lemma small_flush: "wf_Flush small_file f = (Status_OK, f)"
  by (simp add: small_file_def)

lemma write_raw_small:
  assumes "length (tb_file b) + length d + 5 < 1000"
  shows "WriteRawBlock small_file d kNoCompression b = Some (\<lparr>bh_offset = tb_offset b, bh_size = of_nat (length d)\<rparr>,
    b\<lparr>tb_file := tb_file b @ raw_block d, tb_status := Status_OK, tb_offset := tb_offset b + of_nat (length d) + 5\<rparr>)"
proof -
  have crc: "crc_Value 0 data = Some (crc32c 0 data)" "crc_Extend (crc32c 0 data) 0 x = Some (crc32c 0 (data @ x))" for data x
    by (simp_all add: crc_Value_def crc_Extend_eq crc32c_append)
  show ?thesis using assms by (simp add: WriteRawBlock_def small_file_def crc raw_block_def kBlockTrailerSize_def)
qed

definition empty_block :: BlockBuilder where
  "empty_block = \<lparr>bb_buffer = [], bb_restarts = [0], bb_counter = 0, bb_finished = False, bb_last_key = []\<rparr>"

lemma write_small:
  assumes "tb_ok b" and "fst (BlockBuilder_Finish block) = d" and "length (tb_file b) + length d + 5 < 1000"
  shows "WriteBlock small_file block b = Some (\<lparr>bh_offset = tb_offset b, bh_size = of_nat (length d)\<rparr>, empty_block,
      b\<lparr>tb_file := tb_file b @ raw_block d, tb_status := Status_OK, tb_offset := tb_offset b + of_nat (length d) + 5\<rparr>)"
proof -
  have c: "compress t d = (d, kNoCompression)" for t d by (cases t) (simp_all add: compress_def Snappy_Compress_def)
  have r: "BlockBuilder_Reset x = empty_block" for x by (simp add: BlockBuilder_Reset_def empty_block_def)
  show ?thesis using assms write_raw_small [OF assms(3)] by (simp add: WriteBlock_def c case_prod_beta r)
qed

lemma finish_length: "length (fst (BlockBuilder_Finish b)) = length (bb_buffer b) + 4 * length (bb_restarts b) + 4"
proof -
  have "length (fold (\<lambda>r buf. PutFixed32 kLittleEndian buf r) rs buf) = length buf + 4 * length rs" for rs buf
    by (induction rs arbitrary: buf) (simp_all add: PutFixed32_def)
  then show ?thesis by (simp add: BlockBuilder_Finish_def Let_def PutFixed32_def)
qed

subsection \<open>A table of one entry\<close>

text \<open>A block of one entry.\<close>

definition one_entry :: "slice \<Rightarrow> slice \<Rightarrow> BlockBuilder" where
  "one_entry k v = \<lparr>bb_buffer = EncodeVarint32 0 @ EncodeVarint32 (of_nat (length k)) @ EncodeVarint32 (of_nat (length v)) @ k @ v,
     bb_restarts = [0], bb_counter = 1, bb_finished = False, bb_last_key = k\<rparr>"

lemma add_one: "1 \<le> n \<Longrightarrow> BlockBuilder_Add cmp n k v empty_block = Some (one_entry k v)"
  by (simp add: BlockBuilder_Add_def empty_block_def one_entry_def PutVarint32_def)

lemma one_entry_size:
  assumes "length k \<le> 100" and "length v \<le> 100"
  shows "length (bb_buffer (one_entry k v)) \<le> 215" and "bb_buffer (one_entry k v) \<noteq> []" and "length (bb_restarts (one_entry k v)) = 1"
proof -
  have "length (EncodeVarint32 w) \<le> 5" for w using length_EncodeVarint32 [of w] by simp
  from this [of 0] this [of "of_nat (length k)"] this [of "of_nat (length v)"] assms
  show "length (bb_buffer (one_entry k v)) \<le> 215" by (simp add: one_entry_def)
  show "bb_buffer (one_entry k v) \<noteq> []" by (simp add: one_entry_def EncodeVarint32_def)
  show "length (bb_restarts (one_entry k v)) = 1" by (simp add: one_entry_def)
qed

lemma handle_size: "length (handle_enc h) \<le> 20"
  using length_handle_encoding [of "bh_offset h" "bh_size h"] by (simp add: handle_enc_def kMaxEncodedLength_def)

lemma meta_small:
  assumes "tb_ok b" and "length (tb_file b) < 500" and "tb_filter_block b = None" and "1 \<le> op_block_restart_interval (tb_options b)"
  shows "\<exists>d. length d = 8 \<and> finish_metaindex small_file h b = Some (\<lparr>bh_offset = tb_offset b, bh_size = 8\<rparr>,
    b\<lparr>tb_file := tb_file b @ raw_block d, tb_status := Status_OK, tb_offset := tb_offset b + 13\<rparr>)"
proof -
  have n: "BlockBuilder_new (op_block_restart_interval (tb_options b)) = Some empty_block"
    using assms(4) by (simp add: BlockBuilder_new_def empty_block_def)
  let ?d = "fst (BlockBuilder_Finish empty_block)"
  have l: "length ?d = 8" by (simp add: finish_length empty_block_def)
  have "WriteBlock small_file empty_block b = Some (\<lparr>bh_offset = tb_offset b, bh_size = 8\<rparr>, empty_block,
      b\<lparr>tb_file := tb_file b @ raw_block ?d, tb_status := Status_OK, tb_offset := tb_offset b + 13\<rparr>)"
    using write_small [of b empty_block ?d] assms(1,2) l by (simp add: add.assoc)
  then show ?thesis using assms l n by (intro exI [of _ ?d]) (simp add: finish_metaindex_def)
qed

lemma footer_small:
  assumes "unat (bh_offset h) < 1000" and "unat (bh_size h) < 1000" and "unat (bh_offset g) < 1000" and "unat (bh_size g) < 1000"
  shows "\<exists>e. Footer_EncodeTo \<lparr>ft_metaindex = h, ft_index = g\<rparr> [] = Some e \<and> length e = 48"
proof -
  have "unat (NOT 0 :: 64 word) = 2 ^ 64 - 1" by (simp add: unsigned_minus_1_eq_mask mask_eq_exp_minus_1)
  then have m: "unat w < 1000 \<Longrightarrow> w \<noteq> NOT 0" for w :: "64 word" by (rule contrapos_pn) simp
  show ?thesis using footer_roundtrip [of "\<lparr>ft_metaindex = h, ft_index = g\<rparr>"] m assms
    by (auto simp: kEncodedLength_def kMaxEncodedLength_def)
qed

definition fresh_table :: "Options \<Rightarrow> byte list TableBuilder" where
  "fresh_table options = \<lparr>tb_options = options, tb_index_block_options = options\<lparr>op_block_restart_interval := 1\<rparr>, tb_file = [],
     tb_offset = 0, tb_status = Status_OK, tb_data_block = empty_block, tb_index_block = empty_block, tb_last_key = [],
     tb_num_entries = 0, tb_closed = False, tb_filter_block = None, tb_filter_policy = None, tb_pending_index_entry = False,
     tb_pending_handle = BlockHandle_new\<rparr>"

lemma one_entry_table:
  assumes "op_filter_policy options = None" and "1 \<le> op_block_restart_interval options" and "1000 \<le> op_block_size options"
    and "length k \<le> 100" and "length v \<le> 100"
  shows "\<exists>b d. length d \<le> 223 \<and> b = (fresh_table options)\<lparr>tb_file := raw_block d, tb_offset := of_nat (length d) + 5, tb_last_key := k,
      tb_num_entries := 1, tb_pending_index_entry := True, tb_pending_handle := \<lparr>bh_offset = 0, bh_size = of_nat (length d)\<rparr>\<rparr> \<and>
    do { b0 \<leftarrow> TableBuilder_new options []; b1 \<leftarrow> TableBuilder_Add small_file k v b0; TableBuilder_Flush small_file b1 } = Some b"
proof -
  let ?d = "fst (BlockBuilder_Finish (one_entry k v))"
  have d: "length ?d \<le> 223" using one_entry_size [OF assms(4,5)] by (simp add: finish_length)
  have n: "TableBuilder_new options [] = Some (fresh_table options)"
    using assms(1,2) by (simp add: TableBuilder_new_def BlockBuilder_new_def fresh_table_def empty_block_def)
  let ?b1 = "(fresh_table options)\<lparr>tb_last_key := k, tb_num_entries := 1, tb_data_block := one_entry k v\<rparr>"
  have "CurrentSizeEstimate (one_entry k v) \<le> 223" using one_entry_size [OF assms(4,5)] by (simp add: CurrentSizeEstimate_def)
  then have a: "TableBuilder_Add small_file k v (fresh_table options) = Some ?b1"
    using assms(2,3) by (simp add: TableBuilder_Add_def fresh_table_def add_one)
  have w: "WriteBlock small_file (one_entry k v) ?b1 = Some (\<lparr>bh_offset = 0, bh_size = of_nat (length ?d)\<rparr>, empty_block,
      ?b1\<lparr>tb_file := raw_block ?d, tb_status := Status_OK, tb_offset := of_nat (length ?d) + 5\<rparr>)"
    using write_small [of ?b1 "one_entry k v" ?d] d by (simp add: fresh_table_def)
  have "TableBuilder_Flush small_file ?b1 = Some ((fresh_table options)\<lparr>tb_file := raw_block ?d, tb_offset := of_nat (length ?d) + 5,
      tb_last_key := k, tb_num_entries := 1, tb_pending_index_entry := True,
      tb_pending_handle := \<lparr>bh_offset = 0, bh_size = of_nat (length ?d)\<rparr>\<rparr>)"
    using w one_entry_size(2) [OF assms(4,5)] by (simp add: TableBuilder_Flush_def fresh_table_def BlockBuilder_empty_def small_flush start_filter_def)
  then show ?thesis using d n a by (intro exI conjI [OF d] conjI [OF refl]) simp
qed

lemma index_small:
  assumes "tb_ok b" and "length (tb_file b) < 500" and "tb_index_block b = empty_block" and "tb_pending_index_entry b"
    and "unat (bh_offset (tb_pending_handle b)) < 1000" and "unat (bh_size (tb_pending_handle b)) < 1000"
    and "cp_FindShortSuccessor (op_comparator (tb_options b)) (tb_last_key b) = Some c" and "length c \<le> 100"
    and "op_block_restart_interval (tb_index_block_options b) = 1"
  shows "\<exists>b' n. n < 500 \<and> finish_index small_file b = Some (\<lparr>bh_offset = tb_offset b, bh_size = of_nat n\<rparr>, b') \<and> tb_ok b' \<and>
    length (tb_file b') < 800"
proof -
  let ?h = "tb_pending_handle b"
  have "unat (NOT 0 :: 64 word) = 2 ^ 64 - 1" by (simp add: unsigned_minus_1_eq_mask mask_eq_exp_minus_1)
  then have m: "unat w < 1000 \<Longrightarrow> w \<noteq> NOT 0" for w :: "64 word" by (rule contrapos_pn) simp
  have e: "BlockHandle_EncodeTo ?h [] = Some (handle_enc ?h)" by (rule handle_coding(1) [OF m [OF assms(5)] m [OF assms(6)]])
  let ?i = "one_entry c (handle_enc ?h)"
  have s: "length (handle_enc ?h) \<le> 100" using handle_size [of ?h] by simp
  let ?d = "fst (BlockBuilder_Finish ?i)"
  have d: "length ?d \<le> 223" using one_entry_size [OF assms(8) s] by (simp add: finish_length)
  let ?b1 = "b\<lparr>tb_last_key := c, tb_index_block := ?i, tb_pending_index_entry := False\<rparr>"
  have a: "add_index_entry c b = Some ?b1" using assms(3,9) by (simp add: add_index_entry_def e add_one)
  have w: "WriteBlock small_file ?i ?b1 = Some (\<lparr>bh_offset = tb_offset b, bh_size = of_nat (length ?d)\<rparr>, empty_block,
      ?b1\<lparr>tb_file := tb_file b @ raw_block ?d, tb_status := Status_OK, tb_offset := tb_offset b + of_nat (length ?d) + 5\<rparr>)"
    using write_small [of ?b1 ?i ?d] assms(1,2) d by simp
  show ?thesis using assms(1,2,4,7) a w d
    by (intro exI [of _ "?b1\<lparr>tb_file := tb_file b @ raw_block ?d, tb_status := Status_OK,
        tb_offset := tb_offset b + of_nat (length ?d) + 5, tb_index_block := empty_block\<rparr>"] exI [of _ "length ?d"])
      (simp add: finish_index_def kBlockTrailerSize_def)
qed

lemma single_entry:
  assumes "op_filter_policy options = None" and "1 \<le> op_block_restart_interval options" and "1000 \<le> op_block_size options"
    and "length k \<le> 100" and "length v \<le> 100"
    and "cp_FindShortSuccessor (op_comparator options) k = Some c" and "length c \<le> 100"
  shows "\<exists>b. write_table small_file options [] [(k, v)] = Some (Status_OK, b)"
proof -
  from one_entry_table [OF assms(1-5)] obtain b d where d: "length d \<le> 223"
    and b: "b = (fresh_table options)\<lparr>tb_file := raw_block d, tb_offset := of_nat (length d) + 5, tb_last_key := k,
      tb_num_entries := 1, tb_pending_index_entry := True, tb_pending_handle := \<lparr>bh_offset = 0, bh_size = of_nat (length d)\<rparr>\<rparr>"
    and r: "do { b0 \<leftarrow> TableBuilder_new options []; b1 \<leftarrow> TableBuilder_Add small_file k v b0; TableBuilder_Flush small_file b1 } = Some b"
    by (elim exE conjE)
  from r obtain b0 b1 where r': "TableBuilder_new options [] = Some b0" "TableBuilder_Add small_file k v b0 = Some b1"
    "TableBuilder_Flush small_file b1 = Some b" by (auto split: bind_splits)
  have wt: "write_table small_file options [] [(k, v)] = TableBuilder_Finish small_file b1"
    by (simp add: write_table_def r')
  let ?b = "b\<lparr>tb_closed := True\<rparr>"
  have u: "unat (of_nat (length d) :: 64 word) = length d" using d by (simp only: unat_of_nat) simp
  have c: "\<not> tb_closed b" by (simp add: b fresh_table_def)
  have f: "finish_filter small_file ?b = Some (BlockHandle_new, ?b)" by (simp add: finish_filter_def b fresh_table_def)
  have st: "tb_ok ?b" "length (tb_file ?b) < 500" "tb_filter_block ?b = None" "1 \<le> op_block_restart_interval (tb_options ?b)"
    "tb_offset ?b = of_nat (length d + 5)"
    using d assms(2) by (simp_all add: b fresh_table_def kBlockTrailerSize_def)
  from meta_small [OF st(1-4), of BlockHandle_new] obtain m where m: "length m = 8" "finish_metaindex small_file BlockHandle_new ?b =
    Some (\<lparr>bh_offset = tb_offset ?b, bh_size = 8\<rparr>, ?b\<lparr>tb_file := tb_file ?b @ raw_block m, tb_status := Status_OK, tb_offset := tb_offset ?b + 13\<rparr>)"
    by (elim exE conjE)
  let ?b1 = "?b\<lparr>tb_file := tb_file ?b @ raw_block m, tb_status := Status_OK, tb_offset := tb_offset ?b + 13\<rparr>"
  have "length (tb_file ?b1) < 500" using d m(1) by (simp add: b fresh_table_def kBlockTrailerSize_def)
  then have "\<exists>b' n. n < 500 \<and> finish_index small_file ?b1 = Some (\<lparr>bh_offset = tb_offset ?b1, bh_size = of_nat n\<rparr>, b') \<and> tb_ok b' \<and>
    length (tb_file b') < 800"
    using u d assms(6,7) by (intro index_small [where c = c]) (simp_all add: b fresh_table_def)
  then obtain b2 n where i: "n < 500" "finish_index small_file ?b1 = Some (\<lparr>bh_offset = tb_offset ?b1, bh_size = of_nat n\<rparr>, b2)" "tb_ok b2"
    "length (tb_file b2) < 800" by (elim exE conjE)
  have o: "tb_offset ?b1 = of_nat (length d + 18)" using st(5) by simp
  have un: "unat (of_nat j :: 64 word) = j" if "j < 1000" for j using that by (simp only: unat_of_nat) simp
  have "18 + of_nat (length d) = (of_nat (length d + 18) :: 64 word)" by simp
  then have s18: "unat (18 + of_nat (length d) :: 64 word) = length d + 18" using un [of "length d + 18"] d by (simp only:)
  have "\<exists>e. Footer_EncodeTo \<lparr>ft_metaindex = \<lparr>bh_offset = tb_offset ?b, bh_size = 8\<rparr>, ft_index = \<lparr>bh_offset = tb_offset ?b1, bh_size = of_nat n\<rparr>\<rparr> [] = Some e \<and> length e = 48"
    unfolding st(5) o by (rule footer_small) (use d i(1) un [of "length d + 5"] un [of "length d + 18"] un [of n] s18 in simp_all)
  then obtain e where e: "Footer_EncodeTo \<lparr>ft_metaindex = \<lparr>bh_offset = tb_offset ?b, bh_size = 8\<rparr>, ft_index = \<lparr>bh_offset = tb_offset ?b1, bh_size = of_nat n\<rparr>\<rparr> [] = Some e" "length e = 48"
    by (elim exE conjE)
  have "wf_Append small_file (tb_file b2) e = (Status_OK, tb_file b2 @ e)" using i(4) e(2) by (simp add: small_file_def)
  then have "finish_footer small_file \<lparr>bh_offset = tb_offset ?b, bh_size = 8\<rparr> \<lparr>bh_offset = tb_offset ?b1, bh_size = of_nat n\<rparr> b2 =
      Some (b2\<lparr>tb_file := tb_file b2 @ e, tb_status := Status_OK, tb_offset := tb_offset b2 + 48\<rparr>)"
    using i(3) e by (simp add: finish_footer_def)
  then have "TableBuilder_Finish small_file b1 = Some (Status_OK, b2\<lparr>tb_file := tb_file b2 @ e, tb_status := Status_OK, tb_offset := tb_offset b2 + 48\<rparr>)"
    using c by (simp only: TableBuilder_Finish_def r'(3) bind.bind_lunit if_False Let_def f prod.case m(2) i(2)) simp
  then show ?thesis unfolding wt by blast
qed

end
