(* ===== verification/Ldb_Table_Correct.thy ===== *)
theory Ldb_Table_Correct
  imports Ldb_Table_Demo
begin

text \<open>
  The theorems about tables: what the builder writes is read back by the iterator and by the lookup of a
  key, for every comparator and filter policy that keep their contracts, and, for the options a database
  runs with, in terms of user keys.
\<close>

subsection \<open>Tables of internal keys\<close>

context user_filter_policy
begin

lemma internal_policy:
  assumes "\<And>u. good u \<Longrightarrow> admitted u"
  shows "filter_policy (InternalFilter_CreateFilter create) (InternalFilter_KeyMayMatch may_match) (internal_good good)"
proof
  fix keys :: "slice list" and dst
  assume n: "length keys < 2 ^ 31" and g: "\<forall>k \<in> set keys. internal_good good k"
  have "8 \<le> length k \<and> (\<forall>u. ExtractUserKey k = Some u \<longrightarrow> admitted u)" if "k \<in> set keys" for k
    using g that assms by (auto simp: internal_good_def ExtractUserKey_def ik_user_def)
  then show "\<exists>f. InternalFilter_CreateFilter create keys dst = Some (dst @ f) \<and>
      (\<forall>k \<in> set keys. InternalFilter_KeyMayMatch may_match k f = Some True)"
    using internal.no_false_negative [OF n] by blast
qed

end

context user_comparator
begin

lemma internal_sep_form:
  assumes "internal_good good a" and "internal_good good b" and "comparator.lt icmp a b"
    and "InternalKey_FindShortestSeparator cmp sep a b = Some c"
  shows "c = a \<or> internal_good good c \<and> lt (ik_user c) (ik_user b)"
proof -
  have G: "good (ik_user a)" "good (ik_user b)" "ExtractUserKey a = Some (ik_user a)" "ExtractUserKey b = Some (ik_user b)"
    using Extract_good assms(1,2) by auto
  have ab: "lt (ik_user a) (ik_user b) \<or> eqv (ik_user a) (ik_user b)" using icmp_lt [OF assms(1,2)] assms(3) by blast
  obtain d where d: "sep (ik_user a) (ik_user b) = Some d" "good d" "d = ik_user a \<or> lt d (ik_user b)"
    using ab sep_bounds [OF G(1,2)] sep_eqv [OF G(1,2)] G(1) by blast
  show ?thesis
  proof (cases "length d < length (ik_user a) \<and> (\<exists>r. cmp (ik_user a) d = Some r \<and> r < 0)")
    case True
    then have "c = mk_ikey d kMaxSequenceNumber kValueTypeForSeek"
      using assms(4) G d(1) by (auto simp: InternalKey_FindShortestSeparator_def Pack_max Put_mk Let_def split: bind_splits if_splits)
    moreover have "d \<noteq> ik_user a" using True by auto
    ultimately show ?thesis using d(2,3) by simp
  next
    case False
    then have "c = a" using assms(4) G d(1) by (auto simp: InternalKey_FindShortestSeparator_def split: bind_splits if_splits)
    then show ?thesis by blast
  qed
qed

end

locale user_table_contract =
  user_comparator "cp_Compare (op_comparator options)" good "cp_FindShortestSeparator (op_comparator options)"
    "cp_FindShortSuccessor (op_comparator options)"
  for options :: Options and good :: "slice \<Rightarrow> bool" +
  fixes address :: nat and upolicy :: policy_ops
  assumes user_interval: "1 \<le> op_block_restart_interval options"
    and user_policy: "op_filter_policy options = Some p \<Longrightarrow> p = upolicy \<and> filter_policy (fp_CreateFilter p) (fp_KeyMayMatch p) good"

text \<open>The options that the database hands to its tables.\<close>

definition db_options :: "nat \<Rightarrow> policy_ops \<Rightarrow> Options \<Rightarrow> Options" where
  "db_options address upolicy options =
     SanitizeOptions (InternalKeyComparator address (op_comparator options)) (InternalFilterPolicy upolicy) options"

sublocale user_table_contract \<subseteq> internal_table: table_contract "db_options address upolicy options" "internal_good good"
proof -
  have s: "separator (cp_Compare (op_comparator (db_options address upolicy options))) (internal_good good)
      (cp_FindShortestSeparator (op_comparator (db_options address upolicy options))) (cp_FindShortSuccessor (op_comparator (db_options address upolicy options)))"
    using internal.separator_axioms by (simp add: db_options_def SanitizeOptions_def InternalKeyComparator_def)
  have p: "filter_policy (fp_CreateFilter p) (fp_KeyMayMatch p) (internal_good good)" if o: "op_filter_policy (db_options address upolicy options) = Some p" for p
  proof -
    obtain q where q: "op_filter_policy options = Some q" "p = InternalFilterPolicy upolicy"
      using o by (auto simp: db_options_def SanitizeOptions_def split: if_splits)
    then have "filter_policy (fp_CreateFilter upolicy) (fp_KeyMayMatch upolicy) good" using user_policy by blast
    from user_filter_policy.internal_policy [OF user_filter_policy.intro [OF this]]
    show ?thesis by (simp add: q(2) InternalFilterPolicy_def)
  qed
  have "1 \<le> op_block_restart_interval (db_options address upolicy options)" using user_interval by (simp add: db_options_def SanitizeOptions_def)
  then show "table_contract (db_options address upolicy options) (internal_good good)"
    using s p by (simp add: table_contract_def table_contract_axioms_def)
qed

context user_table_contract
begin

lemma db_ops:
  "cp_Compare (op_comparator (db_options address upolicy options)) = InternalKeyCompare (cp_Compare (op_comparator options))"
  "cp_FindShortestSeparator (op_comparator (db_options address upolicy options)) =
     InternalKey_FindShortestSeparator (cp_Compare (op_comparator options)) (cp_FindShortestSeparator (op_comparator options))"
  "op_filter_policy (db_options address upolicy options) = (if op_filter_policy options \<noteq> None then Some (InternalFilterPolicy upolicy) else None)"
  by (simp_all add: db_options_def SanitizeOptions_def InternalKeyComparator_def)

text \<open>An internal key is in the same block as the entry behind it, if both have the same user key.\<close>

lemma same_user_key:
  assumes "internal_good good k" and "internal_good good x" and "\<not> internal.lt x k" and "ik_user x = ik_user k"
  shows "internal_table.same_block k x"
  unfolding internal_table.same_block_def db_ops
proof (intro conjI allI impI)
  fix a c
  assume h: "internal_good good a \<and> internal.lt a k \<and>
    InternalKey_FindShortestSeparator (cp_Compare (op_comparator options)) (cp_FindShortestSeparator (op_comparator options)) a x = Some c"
  have "internal.le k x" using internal.le_not_lt [OF assms(1,2)] assms(3) by simp
  then have "internal.lt a x" using internal.lt_le_trans [OF _ assms(1,2)] h by blast
  from internal_sep_form [OF _ assms(2) this, of c] h have "c = a \<or> internal_good good c \<and> lt (ik_user c) (ik_user k)"
    unfolding assms(4) by blast
  then show "internal.lt c k" using h icmp_lt [of c k] assms(1) by blast
next
  fix p f
  assume "(if op_filter_policy options \<noteq> None then Some (InternalFilterPolicy upolicy) else None) = Some p"
  then have "p = InternalFilterPolicy upolicy" by (simp split: if_splits)
  moreover have "ExtractUserKey k = ExtractUserKey x" using Extract_good assms(1,2,4) by simp
  ultimately show "fp_KeyMayMatch p k f = fp_KeyMayMatch p x f" by (simp add: InternalFilterPolicy_def InternalFilter_KeyMayMatch_def)
qed

lemma db_contract: "table_contract (db_options address upolicy options) (internal_good good)"
  by (rule internal_table.table_contract_axioms)

end

subsection \<open>What is written is read back\<close>

context table_contract
begin

lemma written_opens:
  assumes "written contents b kvs" and "reads_as rops file (contents (tb_file b))"
  shows "\<exists>t blks LI. Table_Open rops options new_id file (FileSize b) = Some (Status_OK, Some t) \<and>
    (\<forall>block_cache. cache_coherent rops block_cache t \<longrightarrow> opened rops block_cache t (contents (tb_file b)) kvs blks LI)"
proof -
  obtain blks LI LM hI hM hF where l: "table_layout (contents (tb_file b)) kvs blks LI LM hI hM hF"
    and s: "FileSize b = of_nat (length (contents (tb_file b)))"
    using assms(1) unfolding written_def table_of_def by blast
  from open_table [OF l assms(2), of new_id] obtain t where
    t: "Table_Open rops options new_id file (FileSize b) = Some (Status_OK, Some t)" "t_options t = options" "t_file t = file"
      "index_holds t LI" "filter_holds t blks" unfolding s by (elim exE conjE)
  have "opened rops block_cache t (contents (tb_file b)) kvs blks LI" if "cache_coherent rops block_cache t" for block_cache
    using that t(2,4,5) l assms(2) unfolding opened_def t(3) by blast
  then show ?thesis using t(1) by blast
qed

lemma table_reopened:
  assumes "appends_to wops contents" and "contents f = []" and "sorted_wrt lt (map fst kvs)"
    and "\<forall>k \<in> fst ` set kvs. good k" and "length kvs < 2 ^ 31"
    and P: "\<And>t block_cache bytes blks LI. opened rops block_cache t bytes kvs blks LI \<Longrightarrow> P t block_cache"
  shows "\<exists>s b. write_table wops options f kvs = Some (s, b) \<and> (Status_ok s \<longrightarrow>
    (\<forall>g. reads_as rops g (contents (tb_file b)) \<longrightarrow>
      (\<exists>t. Table_Open rops options new_id g (FileSize b) = Some (Status_OK, Some t) \<and>
        (\<forall>block_cache. cache_coherent rops block_cache t \<longrightarrow> P t block_cache))))"
proof -
  from table_written [OF assms(1-5)] obtain s b where
    w: "write_table wops options f kvs = Some (s, b)" "Status_ok s \<longrightarrow> written contents b kvs" by (elim exE conjE)
  show ?thesis
  proof (rule exI [of _ s], rule exI [of _ b], rule conjI [OF w(1)], intro impI allI)
    fix g
    assume "Status_ok s" and g: "reads_as rops g (contents (tb_file b))"
    with w(2) have "written contents b kvs" by blast
    from written_opens [OF this g, of new_id] obtain t blks LI where
      t: "Table_Open rops options new_id g (FileSize b) = Some (Status_OK, Some t)"
      "\<forall>block_cache. cache_coherent rops block_cache t \<longrightarrow> opened rops block_cache t (contents (tb_file b)) kvs blks LI"
      by (elim exE conjE)
    show "\<exists>t. Table_Open rops options new_id g (FileSize b) = Some (Status_OK, Some t) \<and>
        (\<forall>block_cache. cache_coherent rops block_cache t \<longrightarrow> P t block_cache)"
      by (intro exI [of _ t] conjI t(1) allI impI, rule P, drule t(2) [rule_format])
  qed
qed

end

context table_reader
begin

lemma reader_iterates:
  assumes "opened rops block_cache t bytes kvs blks LI"
  shows "\<exists>it stands. Table_NewIterator t = Some it \<and> stands it (length kvs) \<and>
    simulates_cursor lt good (Table_iter_ops rops block_cache t ro) kvs stands"
proof -
  obtain tl where "Table_NewIterator t = Some tl" "two_stands tl kvs (length kvs)" using table_iterates(1) [OF assms] by blast
  with table_iterates(2) [OF assms] show ?thesis by (intro exI [of _ tl] exI [of _ "\<lambda>it i. two_stands it kvs i"] conjI)
qed

end

context table_reader
begin

lemma stored_key_found:
  assumes "opened rops block_cache t bytes kvs blks LI" and "good k"
    and "\<forall>p f. op_filter_policy options = Some p \<longrightarrow> fp_KeyMayMatch p k f \<noteq> None"
  defines "n \<equiv> seek_pos lt kvs k"
  shows "\<exists>saved. InternalGet rops block_cache t ro k = Some (Status_OK, saved) \<and>
    (saved = None \<or> n < length kvs \<and> saved = Some (kvs ! n)) \<and> (\<forall>v. (k, v) \<in> set kvs \<longrightarrow> saved = Some (k, v))"
proof -
  obtain saved where s: "InternalGet rops block_cache t ro k = Some (Status_OK, saved)"
    "saved = None \<or> n < length kvs \<and> saved = Some (kvs ! n)"
    "n < length kvs \<and> same_block k (fst (kvs ! n)) \<longrightarrow> saved = Some (kvs ! n)"
    using table_get [OF assms(1-3)] unfolding n_def by blast
  have "saved = Some (k, v)" if "(k, v) \<in> set kvs" for v
  proof -
    obtain i where i: "i < length kvs" "kvs ! i = (k, v)" using \<open>(k, v) \<in> set kvs\<close> by (auto simp: in_set_conv_nth)
    then have "n = i" using seek_own_key [OF openedD(12) [OF assms(1)], of i] openedD(13) [OF assms(1)] by (simp add: n_def)
    then show ?thesis using s(3) i same_block_refl [OF assms(2)] by simp
  qed
  with s(1,2) show ?thesis by blast
qed

end

context user_table_contract
begin

lemma newest_entry_found:
  assumes "table_contract.opened (db_options address upolicy options) (internal_good good) rops block_cache t bytes kvs blks LI"
    and "internal_good good k" and "\<forall>p f. op_filter_policy options = Some p \<longrightarrow> fp_KeyMayMatch p (ik_user k) f \<noteq> None"
  defines "n \<equiv> seek_pos internal.lt kvs k"
  shows "\<exists>saved. InternalGet rops block_cache t ro k = Some (Status_OK, saved) \<and>
    (saved = None \<or> n < length kvs \<and> saved = Some (kvs ! n)) \<and>
    (n < length kvs \<and> ik_user (fst (kvs ! n)) = ik_user k \<longrightarrow> saved = Some (kvs ! n))"
proof -
  have f: "\<forall>p f. op_filter_policy (db_options address upolicy options) = Some p \<longrightarrow> fp_KeyMayMatch p k f \<noteq> None"
    using assms(2,3) user_policy Extract_good unfolding db_ops by (auto simp: InternalFilterPolicy_def InternalFilter_KeyMayMatch_def)
  obtain saved where s: "InternalGet rops block_cache t ro k = Some (Status_OK, saved)"
    "saved = None \<or> n < length kvs \<and> saved = Some (kvs ! n)"
    "n < length kvs \<and> internal_table.same_block k (fst (kvs ! n)) \<longrightarrow> saved = Some (kvs ! n)"
    using table_reader.table_get [OF table_reader.intro [OF db_contract] assms(1,2) f, unfolded db_ops] unfolding n_def by blast
  have "internal_table.same_block k (fst (kvs ! n))" if n: "n < length kvs" and u: "ik_user (fst (kvs ! n)) = ik_user k"
  proof (rule same_user_key [OF assms(2) _ _ u])
    show "internal_good good (fst (kvs ! n))" using table_contract.openedD(13) [OF db_contract assms(1)] n by simp
    show "\<not> internal.lt (fst (kvs ! n)) k" unfolding n_def by (rule seek_pos_at) (use n in \<open>simp add: n_def\<close>)
  qed
  with s show ?thesis by blast
qed

end

subsection \<open>The contracts hold for the default options\<close>

definition bloom_ops :: policy_ops where
  "bloom_ops = \<lparr>fp_Name = bytes_of_string ''leveldb.BuiltinBloomFilter2'', fp_CreateFilter = Bloom_CreateFilter bloom_10,
     fp_KeyMayMatch = Bloom_KeyMayMatch\<rparr>"

lemma NewBloom_10: "NewBloomFilterPolicy 10 = Some bloom_ops"
  by (simp add: NewBloomFilterPolicy_def bloom_10_new bloom_ops_def)

definition bloom_options :: Options where
  "bloom_options = (Options_new 0)\<lparr>op_filter_policy := NewBloomFilterPolicy 10\<rparr>"

lemma bytewise_ops:
  "cp_Compare (op_comparator (Options_new a)) = Bytewise_Compare"
  "cp_FindShortestSeparator (op_comparator (Options_new a)) = Bytewise_FindShortestSeparator"
  "cp_FindShortSuccessor (op_comparator (Options_new a)) = Bytewise_FindShortSuccessor"
  "op_filter_policy (Options_new a) = None" "op_block_restart_interval (Options_new a) = 16" "op_block_size (Options_new a) = 4096"
  by (simp_all add: Options_new_def BytewiseComparator_def)

interpretation default_table: table_contract "Options_new 0" "\<lambda>_. True"
  unfolding bytewise_ops by (intro table_contract.intro table_contract_axioms.intro) (simp_all add: bytewise_ops bytewise.separator_axioms)

interpretation bloom_table: table_contract bloom_options "\<lambda>_. True"
  by (intro table_contract.intro table_contract_axioms.intro)
    (simp_all add: bloom_options_def bytewise_ops bytewise.separator_axioms NewBloom_10 bloom_ops_def,
     use bloom_10.filter_policy_axioms in blast)

interpretation memory_table: table_reader "Options_new 0" "\<lambda>_. True" memory_file "None" t ro for t ro
  by unfold_locales

interpretation default_db: user_table_contract "Options_new 0" "\<lambda>_. True" 1 bloom_ops
  by (intro user_table_contract.intro user_table_contract_axioms.intro)
    (simp_all add: bytewise_ops bytewise.user_comparator_axioms)

interpretation bloom_db: user_table_contract bloom_options "\<lambda>_. True" 1 bloom_ops
  by (intro user_table_contract.intro user_table_contract_axioms.intro)
    (simp_all add: bloom_options_def bytewise_ops bytewise.user_comparator_axioms NewBloom_10 bloom_ops_def bloom_10.filter_policy_axioms)

subsection \<open>Tables are read back\<close>


text \<open>One entry, written to a file in memory and read back without a cache.\<close>

definition demo_kvs :: "(slice \<times> slice) list" where
  "demo_kvs = [([97], [1])]"

lemma demo_written: "\<exists>b. write_table small_file (Options_new 0) [] demo_kvs = Some (Status_OK, b)"
  unfolding demo_kvs_def by (rule single_entry [where c = "[98]"]) (simp_all add: bytewise_ops Bytewise_FindShortSuccessor_def)

lemma no_cache: "cache_coherent rops None t"
  by (simp add: cache_coherent_def)

lemma reopened_small:
  assumes "\<exists>s b. write_table small_file options [] kvs = Some (s, b) \<and> (Status_ok s \<longrightarrow>
     (\<forall>g. reads_as memory_file g (tb_file b) \<longrightarrow>
       (\<exists>t. Table_Open memory_file options None g (FileSize b) = Some (Status_OK, Some t) \<and>
         (\<forall>block_cache. cache_coherent memory_file block_cache t \<longrightarrow> P t block_cache))))"
    and "\<exists>b. write_table small_file options [] kvs = Some (Status_OK, b)"
  shows "\<exists>b t. write_table small_file options [] kvs = Some (Status_OK, b) \<and>
    Table_Open memory_file options None (tb_file b) (FileSize b) = Some (Status_OK, Some t) \<and> P t None"
proof -
  obtain b where b: "write_table small_file options [] kvs = Some (Status_OK, b)" using assms(2) by blast
  have "\<forall>g. reads_as memory_file g (tb_file b) \<longrightarrow>
       (\<exists>t. Table_Open memory_file options None g (FileSize b) = Some (Status_OK, Some t) \<and>
         (\<forall>block_cache. cache_coherent memory_file block_cache t \<longrightarrow> P t block_cache))"
    using assms(1) unfolding b by simp
  then obtain t where "Table_Open memory_file options None (tb_file b) (FileSize b) = Some (Status_OK, Some t)"
    "\<forall>block_cache. cache_coherent memory_file block_cache t \<longrightarrow> P t block_cache"
    using memory_file_reads [of "tb_file b"] by blast
  with b no_cache show ?thesis by blast
qed





definition demo_ikvs :: "(slice \<times> slice) list" where
  "demo_ikvs = [(mk_ikey [97] 5 kTypeValue, [1])]"

lemma demo_db_written: "\<exists>b. write_table small_file (db_options 1 bloom_ops (Options_new 0)) [] demo_ikvs = Some (Status_OK, b)"
  unfolding demo_ikvs_def
  by (rule single_entry [where c = "mk_ikey [97] 5 kTypeValue"])
    (simp_all add: db_options_def SanitizeOptions_def bytewise_ops InternalKeyComparator_def ClipSizeToRange_def
      InternalKey_FindShortSuccessor_def Bytewise_FindShortSuccessor_def)


end
