(* ===== verification/Ldb_Version_Edit.thy ===== *)
theory Ldb_Version_Edit
  imports Ldb_Dbformat Ldb_Status "HOL-Library.Product_Lexorder"
begin

text \<open>
  Changes of the set of files of a database (\<open>db/version_edit.h\<close>, \<open>db/version_edit.cc\<close>): the records of the
  manifest. An edit is encoded as a sequence of tagged fields and decoded by a loop over the tags. \<open>None\<close> is
  a failed assertion.
\<close>

subsection \<open>Files and edits\<close>

definition kNumLevels :: nat where
  "kNumLevels = 7"

record FileMetaData =
  f_refs :: int
  f_allowed_seeks :: int
  f_number :: "64 word"
  f_file_size :: "64 word"
  f_smallest :: slice
  f_largest :: slice

text \<open>The tags, with the numbers that are written to disk.\<close>

datatype EditTag = kComparator | kLogNumber | kNextFileNumber | kLastSequence | kCompactPointer | kDeletedFile | kNewFile
  | kPrevLogNumber

fun tag_code :: "EditTag \<Rightarrow> 32 word" where
  "tag_code kComparator = 1"
| "tag_code kLogNumber = 2"
| "tag_code kNextFileNumber = 3"
| "tag_code kLastSequence = 4"
| "tag_code kCompactPointer = 5"
| "tag_code kDeletedFile = 6"
| "tag_code kNewFile = 7"
| "tag_code kPrevLogNumber = 9"

text \<open>The set of deleted files is kept in the order of \<open>std::set\<close>, by level and number.\<close>

record VersionEdit =
  ve_comparator :: slice
  ve_log_number :: "64 word"
  ve_prev_log_number :: "64 word"
  ve_next_file_number :: "64 word"
  ve_last_sequence :: "64 word"
  ve_has_comparator :: bool
  ve_has_log_number :: bool
  ve_has_prev_log_number :: bool
  ve_has_next_file_number :: bool
  ve_has_last_sequence :: bool
  ve_compact_pointers :: "(int \<times> slice) list"
  ve_deleted_files :: "(int \<times> 64 word) list"
  ve_new_files :: "(int \<times> FileMetaData) list"

definition VersionEdit_Clear :: "VersionEdit \<Rightarrow> VersionEdit" where
  "VersionEdit_Clear e =
     e\<lparr>ve_comparator := [], ve_log_number := 0, ve_prev_log_number := 0, ve_last_sequence := 0, ve_next_file_number := 0,
       ve_has_comparator := False, ve_has_log_number := False, ve_has_prev_log_number := False,
       ve_has_next_file_number := False, ve_has_last_sequence := False, ve_deleted_files := [], ve_new_files := []\<rparr>"

definition VersionEdit_new :: VersionEdit where
  "VersionEdit_new =
     \<lparr>ve_comparator = [], ve_log_number = 0, ve_prev_log_number = 0, ve_next_file_number = 0, ve_last_sequence = 0,
      ve_has_comparator = False, ve_has_log_number = False, ve_has_prev_log_number = False,
      ve_has_next_file_number = False, ve_has_last_sequence = False,
      ve_compact_pointers = [], ve_deleted_files = [], ve_new_files = []\<rparr>"

definition SetComparatorName :: "slice \<Rightarrow> VersionEdit \<Rightarrow> VersionEdit" where
  "SetComparatorName name e = e\<lparr>ve_has_comparator := True, ve_comparator := name\<rparr>"

definition SetLogNumber :: "64 word \<Rightarrow> VersionEdit \<Rightarrow> VersionEdit" where
  "SetLogNumber num e = e\<lparr>ve_has_log_number := True, ve_log_number := num\<rparr>"

definition SetPrevLogNumber :: "64 word \<Rightarrow> VersionEdit \<Rightarrow> VersionEdit" where
  "SetPrevLogNumber num e = e\<lparr>ve_has_prev_log_number := True, ve_prev_log_number := num\<rparr>"

definition SetNextFile :: "64 word \<Rightarrow> VersionEdit \<Rightarrow> VersionEdit" where
  "SetNextFile num e = e\<lparr>ve_has_next_file_number := True, ve_next_file_number := num\<rparr>"

definition SetLastSequence :: "64 word \<Rightarrow> VersionEdit \<Rightarrow> VersionEdit" where
  "SetLastSequence seq e = e\<lparr>ve_has_last_sequence := True, ve_last_sequence := seq\<rparr>"

definition SetCompactPointer :: "int \<Rightarrow> slice \<Rightarrow> VersionEdit \<Rightarrow> VersionEdit" where
  "SetCompactPointer level key e = e\<lparr>ve_compact_pointers := ve_compact_pointers e @ [(level, key)]\<rparr>"

definition FileMetaData_new :: "64 word \<Rightarrow> 64 word \<Rightarrow> slice \<Rightarrow> slice \<Rightarrow> FileMetaData" where
  "FileMetaData_new number file_size smallest largest =
     \<lparr>f_refs = 0, f_allowed_seeks = 2 ^ 30, f_number = number, f_file_size = file_size, f_smallest = smallest, f_largest = largest\<rparr>"

definition AddFile :: "int \<Rightarrow> 64 word \<Rightarrow> 64 word \<Rightarrow> slice \<Rightarrow> slice \<Rightarrow> VersionEdit \<Rightarrow> VersionEdit" where
  "AddFile level number file_size smallest largest e =
     e\<lparr>ve_new_files := ve_new_files e @ [(level, FileMetaData_new number file_size smallest largest)]\<rparr>"

definition DeleteFile :: "int \<Rightarrow> 64 word \<Rightarrow> VersionEdit \<Rightarrow> VersionEdit" where
  "DeleteFile level number e = e\<lparr>ve_deleted_files := List.insort_insert (level, number) (ve_deleted_files e)\<rparr>"

subsection \<open>Encoding\<close>

definition put_tag :: "EditTag \<Rightarrow> byte list \<Rightarrow> byte list" where
  "put_tag t dst = PutVarint32 dst (tag_code t)"

primrec put_each :: "('a \<Rightarrow> byte list \<Rightarrow> byte list option) \<Rightarrow> 'a list \<Rightarrow> byte list \<Rightarrow> byte list option" where
  "put_each put [] dst = Some dst"
| "put_each put (x # xs) dst = do { dst \<leftarrow> put x dst; put_each put xs dst }"

definition put_compact_pointer :: "int \<times> slice \<Rightarrow> byte list \<Rightarrow> byte list option" where
  "put_compact_pointer p dst = do {
     key \<leftarrow> InternalKey_Encode (snd p);
     Some (PutLengthPrefixedSlice (PutVarint32 (put_tag kCompactPointer dst) (word_of_int (fst p))) key)
   }"

definition put_deleted_file :: "int \<times> 64 word \<Rightarrow> byte list \<Rightarrow> byte list option" where
  "put_deleted_file p dst = Some (PutVarint64 (PutVarint32 (put_tag kDeletedFile dst) (word_of_int (fst p))) (snd p))"

definition put_new_file :: "int \<times> FileMetaData \<Rightarrow> byte list \<Rightarrow> byte list option" where
  "put_new_file p dst = do {
     let f = snd p;
     smallest \<leftarrow> InternalKey_Encode (f_smallest f);
     largest \<leftarrow> InternalKey_Encode (f_largest f);
     let dst = PutVarint32 (put_tag kNewFile dst) (word_of_int (fst p));
     let dst = PutVarint64 (PutVarint64 dst (f_number f)) (f_file_size f);
     Some (PutLengthPrefixedSlice (PutLengthPrefixedSlice dst smallest) largest)
   }"

definition VersionEdit_EncodeTo :: "VersionEdit \<Rightarrow> byte list \<Rightarrow> byte list option" where
  "VersionEdit_EncodeTo e dst = do {
     let dst = (if ve_has_comparator e then PutLengthPrefixedSlice (put_tag kComparator dst) (ve_comparator e) else dst);
     let dst = (if ve_has_log_number e then PutVarint64 (put_tag kLogNumber dst) (ve_log_number e) else dst);
     let dst = (if ve_has_prev_log_number e then PutVarint64 (put_tag kPrevLogNumber dst) (ve_prev_log_number e) else dst);
     let dst = (if ve_has_next_file_number e then PutVarint64 (put_tag kNextFileNumber dst) (ve_next_file_number e) else dst);
     let dst = (if ve_has_last_sequence e then PutVarint64 (put_tag kLastSequence dst) (ve_last_sequence e) else dst);
     dst \<leftarrow> put_each put_compact_pointer (ve_compact_pointers e) dst;
     dst \<leftarrow> put_each put_deleted_file (ve_deleted_files e) dst;
     put_each put_new_file (ve_new_files e) dst
   }"

subsection \<open>Decoding\<close>

definition GetInternalKey :: "slice \<Rightarrow> (slice \<times> slice) option" where
  "GetInternalKey input = do { (str, input) \<leftarrow> GetLengthPrefixedSlice input; Some (InternalKey_DecodeFrom str, input) }"

definition GetLevel :: "slice \<Rightarrow> (int \<times> slice) option" where
  "GetLevel input = do {
     (v, input) \<leftarrow> GetVarint32 input;
     if v < of_nat kNumLevels then Some (uint v, input) else None
   }"

text \<open>One tag with its fields: the message of an error, or the rest of the input and the new edit.\<close>

definition decode_edit_field :: "32 word \<Rightarrow> slice \<Rightarrow> VersionEdit \<Rightarrow> string + slice \<times> VersionEdit" where
  "decode_edit_field tag input e =
     (if tag = tag_code kComparator then
        (case GetLengthPrefixedSlice input of
           Some (str, input) \<Rightarrow> Inr (input, e\<lparr>ve_comparator := str, ve_has_comparator := True\<rparr>)
         | None \<Rightarrow> Inl ''comparator name'')
      else if tag = tag_code kLogNumber then
        (case GetVarint64 input of
           Some (n, input) \<Rightarrow> Inr (input, e\<lparr>ve_log_number := n, ve_has_log_number := True\<rparr>)
         | None \<Rightarrow> Inl ''log number'')
      else if tag = tag_code kPrevLogNumber then
        (case GetVarint64 input of
           Some (n, input) \<Rightarrow> Inr (input, e\<lparr>ve_prev_log_number := n, ve_has_prev_log_number := True\<rparr>)
         | None \<Rightarrow> Inl ''previous log number'')
      else if tag = tag_code kNextFileNumber then
        (case GetVarint64 input of
           Some (n, input) \<Rightarrow> Inr (input, e\<lparr>ve_next_file_number := n, ve_has_next_file_number := True\<rparr>)
         | None \<Rightarrow> Inl ''next file number'')
      else if tag = tag_code kLastSequence then
        (case GetVarint64 input of
           Some (n, input) \<Rightarrow> Inr (input, e\<lparr>ve_last_sequence := n, ve_has_last_sequence := True\<rparr>)
         | None \<Rightarrow> Inl ''last sequence number'')
      else if tag = tag_code kCompactPointer then
        (case do { (level, input) \<leftarrow> GetLevel input; (key, input) \<leftarrow> GetInternalKey input; Some (level, key, input) } of
           Some (level, key, input) \<Rightarrow> Inr (input, e\<lparr>ve_compact_pointers := ve_compact_pointers e @ [(level, key)]\<rparr>)
         | None \<Rightarrow> Inl ''compaction pointer'')
      else if tag = tag_code kDeletedFile then
        (case do { (level, input) \<leftarrow> GetLevel input; (number, input) \<leftarrow> GetVarint64 input; Some (level, number, input) } of
           Some (level, number, input) \<Rightarrow>
             Inr (input, e\<lparr>ve_deleted_files := List.insort_insert (level, number) (ve_deleted_files e)\<rparr>)
         | None \<Rightarrow> Inl ''deleted file'')
      else if tag = tag_code kNewFile then
        (case do {
            (level, input) \<leftarrow> GetLevel input;
            (number, input) \<leftarrow> GetVarint64 input;
            (file_size, input) \<leftarrow> GetVarint64 input;
            (smallest, input) \<leftarrow> GetInternalKey input;
            (largest, input) \<leftarrow> GetInternalKey input;
            Some (level, FileMetaData_new number file_size smallest largest, input)
          } of
           Some (level, f, input) \<Rightarrow> Inr (input, e\<lparr>ve_new_files := ve_new_files e @ [(level, f)]\<rparr>)
         | None \<Rightarrow> Inl ''new-file entry'')
      else Inl ''unknown tag'')"

text \<open>What a parser leaves is not longer than its input.\<close>

lemma varint64_loop_length: "varint64_loop shift result p = Some (v, q) \<Longrightarrow> length q < length p"
  by (induction shift result p rule: varint64_loop.induct) (fastforce split: if_splits)+

lemma parsed_length:
  "GetVarint32 p = Some (n, q) \<Longrightarrow> length q < length p"
  "GetVarint64 p = Some (w, q) \<Longrightarrow> length q < length p"
  "GetLengthPrefixedSlice p = Some (s, q) \<Longrightarrow> length q < length p"
  "GetInternalKey p = Some (s, q) \<Longrightarrow> length q < length p"
  "GetLevel p = Some (l, q) \<Longrightarrow> length q < length p"
proof -
  show v32: "GetVarint32 p = Some (n, q) \<Longrightarrow> length q < length p" for p n q using GetVarint32_suffix [of p n q] by auto
  show "GetVarint64 p = Some (w, q) \<Longrightarrow> length q < length p" by (auto simp: GetVarint64_def GetVarint64Ptr_def dest: varint64_loop_length)
  show lp: "GetLengthPrefixedSlice p = Some (s, q) \<Longrightarrow> length q < length p" for s q
    by (auto simp: GetLengthPrefixedSlice_def remove_prefix_def split: bind_splits if_splits dest!: v32)
  show "GetInternalKey p = Some (s, q) \<Longrightarrow> length q < length p" by (auto simp: GetInternalKey_def split: bind_splits dest: lp)
  show "GetLevel p = Some (l, q) \<Longrightarrow> length q < length p" by (auto simp: GetLevel_def split: bind_splits if_splits dest: v32)
qed

lemma decode_edit_field_length: "decode_edit_field tag p e = Inr (q, e') \<Longrightarrow> length q < length p"
  unfolding decode_edit_field_def
  by (simp split: if_splits option.splits prod.splits bind_splits; (drule parsed_length | drule (1) less_trans)+; auto)

function (sequential) decode_edit_loop :: "slice \<Rightarrow> VersionEdit \<Rightarrow> string option \<times> slice \<times> VersionEdit" where
  "decode_edit_loop input e =
     (case GetVarint32 input of
        None \<Rightarrow> (None, input, e)
      | Some (tag, input) \<Rightarrow>
          (case decode_edit_field tag input e of
             Inl msg \<Rightarrow> (Some msg, input, e)
           | Inr (input, e) \<Rightarrow> decode_edit_loop input e))"
  by pat_completeness auto
termination
  by (relation "measure (\<lambda>(input, _). length input)") (auto dest!: parsed_length(1) decode_edit_field_length)

declare decode_edit_loop.simps [simp del]

definition VersionEdit_DecodeFrom :: "slice \<Rightarrow> VersionEdit \<Rightarrow> (Status \<times> VersionEdit) option" where
  "VersionEdit_DecodeFrom src e =
     (let (msg, input, e) = decode_edit_loop src (VersionEdit_Clear e);
          msg = (if msg = None \<and> \<not> slice_empty input then Some ''invalid tag'' else msg)
      in case msg of
           None \<Rightarrow> Some (Status_OK, e)
         | Some m \<Rightarrow> do { s \<leftarrow> Status_Corruption (bytes_of_string ''VersionEdit'') (bytes_of_string m); Some (s, e) })"

subsection \<open>What is decoded\<close>

text \<open>The edits that the database writes: levels exist, keys are not empty and their lengths fit the prefix.\<close>

definition key_fits :: "slice \<Rightarrow> bool" where
  "key_fits k \<longleftrightarrow> k \<noteq> [] \<and> length k < 2 ^ 32"

definition level_ok :: "int \<Rightarrow> bool" where
  "level_ok l \<longleftrightarrow> 0 \<le> l \<and> l < int kNumLevels"

definition edit_ok :: "VersionEdit \<Rightarrow> bool" where
  "edit_ok e \<longleftrightarrow> length (ve_comparator e) < 2 ^ 32 \<and>
     (\<forall>(l, k) \<in> set (ve_compact_pointers e). level_ok l \<and> key_fits k) \<and>
     (\<forall>(l, n) \<in> set (ve_deleted_files e). level_ok l) \<and> sorted (ve_deleted_files e) \<and> distinct (ve_deleted_files e) \<and>
     (\<forall>(l, f) \<in> set (ve_new_files e). level_ok l \<and> key_fits (f_smallest f) \<and> key_fits (f_largest f))"

text \<open>What is not written: fields that are not present, the reference count and the seeks of a file.\<close>

definition written_file :: "FileMetaData \<Rightarrow> FileMetaData" where
  "written_file f = FileMetaData_new (f_number f) (f_file_size f) (f_smallest f) (f_largest f)"

definition written_edit :: "VersionEdit \<Rightarrow> VersionEdit" where
  "written_edit e = e\<lparr>ve_comparator := (if ve_has_comparator e then ve_comparator e else []),
     ve_log_number := (if ve_has_log_number e then ve_log_number e else 0),
     ve_prev_log_number := (if ve_has_prev_log_number e then ve_prev_log_number e else 0),
     ve_next_file_number := (if ve_has_next_file_number e then ve_next_file_number e else 0),
     ve_last_sequence := (if ve_has_last_sequence e then ve_last_sequence e else 0),
     ve_new_files := map (\<lambda>(l, f). (l, written_file f)) (ve_new_files e)\<rparr>"

lemma PutPrefixed: "PutLengthPrefixedSlice dst s = dst @ PutLengthPrefixedSlice [] s"
  by (simp add: PutLengthPrefixedSlice_def PutVarint32_def)

lemma GetLevel_put: "level_ok l \<Longrightarrow> GetLevel (EncodeVarint32 (word_of_int l) @ rest) = Some (l, rest)"
proof -
  assume l: "level_ok l"
  then have u: "uint (word_of_int l :: 32 word) = l"
    by (simp add: level_ok_def kNumLevels_def unsigned_of_int take_bit_int_eq_self)
  then have "(word_of_int l :: 32 word) < of_nat kNumLevels" using l unfolding word_less_def by (simp add: level_ok_def kNumLevels_def)
  then show ?thesis by (simp add: GetLevel_def u)
qed

lemma GetInternalKey_put: "key_fits k \<Longrightarrow> GetInternalKey (PutLengthPrefixedSlice [] k @ rest) = Some (k, rest)"
  by (simp add: key_fits_def GetInternalKey_def InternalKey_DecodeFrom_def)

text \<open>Each written field is one turn of the loop.\<close>

lemma decode_turn:
  "decode_edit_field (tag_code t) p e = Inr (q, e') \<Longrightarrow> decode_edit_loop (EncodeVarint32 (tag_code t) @ p) e = decode_edit_loop q e'"
  by (subst decode_edit_loop.simps) simp

lemma decode_numbers:
  "decode_edit_loop (EncodeVarint32 (tag_code kLogNumber) @ EncodeVarint64 n @ p) e = decode_edit_loop p (e\<lparr>ve_log_number := n, ve_has_log_number := True\<rparr>)"
  "decode_edit_loop (EncodeVarint32 (tag_code kPrevLogNumber) @ EncodeVarint64 n @ p) e = decode_edit_loop p (e\<lparr>ve_prev_log_number := n, ve_has_prev_log_number := True\<rparr>)"
  "decode_edit_loop (EncodeVarint32 (tag_code kNextFileNumber) @ EncodeVarint64 n @ p) e = decode_edit_loop p (e\<lparr>ve_next_file_number := n, ve_has_next_file_number := True\<rparr>)"
  "decode_edit_loop (EncodeVarint32 (tag_code kLastSequence) @ EncodeVarint64 n @ p) e = decode_edit_loop p (e\<lparr>ve_last_sequence := n, ve_has_last_sequence := True\<rparr>)"
  by (rule decode_turn, simp add: decode_edit_field_def)+

lemma decode_comparator:
  "length s < 2 ^ 32 \<Longrightarrow> decode_edit_loop (EncodeVarint32 (tag_code kComparator) @ PutLengthPrefixedSlice [] s @ p) e =
     decode_edit_loop p (e\<lparr>ve_comparator := s, ve_has_comparator := True\<rparr>)"
  by (rule decode_turn) (simp add: decode_edit_field_def)

text \<open>A list of items is written and decoded item by item.\<close>

definition item_coded :: "('a \<Rightarrow> byte list \<Rightarrow> byte list option) \<Rightarrow> ('a \<Rightarrow> VersionEdit \<Rightarrow> VersionEdit) \<Rightarrow> 'a \<Rightarrow> bool" where
  "item_coded put upd x \<longleftrightarrow> (\<exists>b. (\<forall>dst. put x dst = Some (dst @ b)) \<and> (\<forall>p e. decode_edit_loop (b @ p) e = decode_edit_loop p (upd x e)))"

lemma items_coded:
  assumes "\<forall>x \<in> set xs. item_coded put upd x"
  shows "\<exists>b. (\<forall>dst. put_each put xs dst = Some (dst @ b)) \<and> (\<forall>p e. decode_edit_loop (b @ p) e = decode_edit_loop p (fold upd xs e))"
  using assms
proof (induction xs)
  case Nil
  show ?case by (intro exI [of _ "[]"]) simp
next
  case (Cons x xs)
  obtain b where "\<forall>dst. put_each put xs dst = Some (dst @ b)" "\<forall>p e. decode_edit_loop (b @ p) e = decode_edit_loop p (fold upd xs e)"
    using Cons by auto
  moreover obtain a where "\<forall>dst. put x dst = Some (dst @ a)" "\<forall>p e. decode_edit_loop (a @ p) e = decode_edit_loop p (upd x e)"
    using Cons.prems by (auto simp: item_coded_def)
  ultimately show ?case by (intro exI [of _ "a @ b"]) simp
qed

lemma compact_pointer_coded:
  assumes "level_ok l" and "key_fits k"
  shows "item_coded put_compact_pointer (\<lambda>x e. e\<lparr>ve_compact_pointers := ve_compact_pointers e @ [x]\<rparr>) (l, k)"
proof -
  let ?b = "EncodeVarint32 (tag_code kCompactPointer) @ EncodeVarint32 (word_of_int l) @ PutLengthPrefixedSlice [] k"
  have "put_compact_pointer (l, k) dst = Some (dst @ ?b)" for dst
    using assms PutPrefixed [of "dst @ EncodeVarint32 (tag_code kCompactPointer) @ EncodeVarint32 (word_of_int l)" k]
    by (simp add: put_compact_pointer_def InternalKey_Encode_def key_fits_def put_tag_def PutVarint32_def)
  moreover have "decode_edit_loop (?b @ p) e = decode_edit_loop p (e\<lparr>ve_compact_pointers := ve_compact_pointers e @ [(l, k)]\<rparr>)" for p e
    unfolding append_assoc by (rule decode_turn) (simp add: decode_edit_field_def GetLevel_put [OF assms(1)] GetInternalKey_put [OF assms(2)])
  ultimately show ?thesis unfolding item_coded_def by (intro exI [of _ ?b]) simp
qed

lemma deleted_file_coded:
  assumes "level_ok l"
  shows "item_coded put_deleted_file (\<lambda>x e. e\<lparr>ve_deleted_files := List.insort_insert x (ve_deleted_files e)\<rparr>) (l, n)"
proof -
  let ?b = "EncodeVarint32 (tag_code kDeletedFile) @ EncodeVarint32 (word_of_int l) @ EncodeVarint64 n"
  have "put_deleted_file (l, n) dst = Some (dst @ ?b)" for dst by (simp add: put_deleted_file_def put_tag_def PutVarint32_def PutVarint64_def)
  moreover have "decode_edit_loop (?b @ p) e = decode_edit_loop p (e\<lparr>ve_deleted_files := List.insort_insert (l, n) (ve_deleted_files e)\<rparr>)" for p e
    unfolding append_assoc by (rule decode_turn) (simp add: decode_edit_field_def GetLevel_put [OF assms])
  ultimately show ?thesis unfolding item_coded_def by (intro exI [of _ ?b]) simp
qed

lemma new_file_coded:
  assumes "level_ok l" and "key_fits (f_smallest f)" and "key_fits (f_largest f)"
  shows "item_coded put_new_file (\<lambda>(l, f) e. e\<lparr>ve_new_files := ve_new_files e @ [(l, written_file f)]\<rparr>) (l, f)"
proof -
  let ?b = "EncodeVarint32 (tag_code kNewFile) @ EncodeVarint32 (word_of_int l) @ EncodeVarint64 (f_number f) @
    EncodeVarint64 (f_file_size f) @ PutLengthPrefixedSlice [] (f_smallest f) @ PutLengthPrefixedSlice [] (f_largest f)"
  have P: "PutLengthPrefixedSlice (PutLengthPrefixedSlice dst x) y = dst @ PutLengthPrefixedSlice [] x @ PutLengthPrefixedSlice [] y" for dst x y
    by (subst (1 2) PutPrefixed) simp
  have "put_new_file (l, f) dst = Some (dst @ ?b)" for dst
    using assms by (simp add: put_new_file_def InternalKey_Encode_def key_fits_def put_tag_def PutVarint32_def PutVarint64_def P)
  moreover have "decode_edit_loop (?b @ p) e = decode_edit_loop p (e\<lparr>ve_new_files := ve_new_files e @ [(l, written_file f)]\<rparr>)" for p e
    unfolding append_assoc
    by (rule decode_turn) (simp add: decode_edit_field_def GetLevel_put [OF assms(1)] GetInternalKey_put [OF assms(2)]
        GetInternalKey_put [OF assms(3)] written_file_def)
  ultimately show ?thesis unfolding item_coded_def by (intro exI [of _ ?b]) simp
qed

text \<open>The sorted list of deleted files is rebuilt by inserting its elements.\<close>

lemma insort_insert_last: "sorted xs \<Longrightarrow> \<forall>y \<in> set xs. y < x \<Longrightarrow> List.insort_insert x xs = xs @ [x]"
proof -
  assume "sorted xs" "\<forall>y \<in> set xs. y < x"
  then have "insort x xs = xs @ [x]" "x \<notin> set xs" by (induction xs) auto
  then show ?thesis by (simp add: insort_insert_key_def)
qed

lemma fold_deleted:
  "sorted (ve_deleted_files e @ xs) \<Longrightarrow> distinct (ve_deleted_files e @ xs) \<Longrightarrow>
   fold (\<lambda>x e. e\<lparr>ve_deleted_files := List.insort_insert x (ve_deleted_files e)\<rparr>) xs e = e\<lparr>ve_deleted_files := ve_deleted_files e @ xs\<rparr>"
proof (induction xs arbitrary: e)
  case (Cons x xs)
  have "List.insort_insert x (ve_deleted_files e) = ve_deleted_files e @ [x]"
    using Cons.prems by (intro insort_insert_last) (auto simp: sorted_append less_le)
  then show ?case using Cons by simp
qed simp

lemma fold_new: "fold (\<lambda>(l, f) e. e\<lparr>ve_new_files := ve_new_files e @ [(l, written_file f)]\<rparr>) xs e =
   e\<lparr>ve_new_files := ve_new_files e @ map (\<lambda>(l, f). (l, written_file f)) xs\<rparr>"
  by (induction xs arbitrary: e) auto

lemma fold_pointers: "fold (\<lambda>x e. e\<lparr>ve_compact_pointers := ve_compact_pointers e @ [x]\<rparr>) xs e =
   e\<lparr>ve_compact_pointers := ve_compact_pointers e @ xs\<rparr>"
  by (induction xs arbitrary: e) auto

text \<open>The fields before the lists.\<close>

definition head_bytes :: "VersionEdit \<Rightarrow> byte list" where
  "head_bytes e =
     (if ve_has_comparator e then EncodeVarint32 (tag_code kComparator) @ PutLengthPrefixedSlice [] (ve_comparator e) else []) @
     (if ve_has_log_number e then EncodeVarint32 (tag_code kLogNumber) @ EncodeVarint64 (ve_log_number e) else []) @
     (if ve_has_prev_log_number e then EncodeVarint32 (tag_code kPrevLogNumber) @ EncodeVarint64 (ve_prev_log_number e) else []) @
     (if ve_has_next_file_number e then EncodeVarint32 (tag_code kNextFileNumber) @ EncodeVarint64 (ve_next_file_number e) else []) @
     (if ve_has_last_sequence e then EncodeVarint32 (tag_code kLastSequence) @ EncodeVarint64 (ve_last_sequence e) else [])"

lemma head_encoded: "VersionEdit_EncodeTo e dst = do {
     dst \<leftarrow> put_each put_compact_pointer (ve_compact_pointers e) (dst @ head_bytes e);
     dst \<leftarrow> put_each put_deleted_file (ve_deleted_files e) dst;
     put_each put_new_file (ve_new_files e) dst }"
  unfolding VersionEdit_EncodeTo_def head_bytes_def put_tag_def PutVarint32_def PutVarint64_def Let_def
  using PutPrefixed [of "dst @ EncodeVarint32 (tag_code kComparator)" "ve_comparator e"] by (simp del: tag_code.simps)

lemma head_decoded:
  assumes "length (ve_comparator e) < 2 ^ 32"
  shows "decode_edit_loop (head_bytes e @ p) (VersionEdit_Clear e0) =
    decode_edit_loop p ((written_edit e)\<lparr>ve_compact_pointers := ve_compact_pointers e0, ve_deleted_files := [], ve_new_files := []\<rparr>)"
proof (cases e; cases e0)
  fix c l pl n s hc hl hp hn hs cp d nf m c0 l0 pl0 n0 s0 hc0 hl0 hp0 hn0 hs0 cp0 d0 nf0
  assume "e = \<lparr>ve_comparator = c, ve_log_number = l, ve_prev_log_number = pl, ve_next_file_number = n, ve_last_sequence = s,
      ve_has_comparator = hc, ve_has_log_number = hl, ve_has_prev_log_number = hp, ve_has_next_file_number = hn, ve_has_last_sequence = hs,
      ve_compact_pointers = cp, ve_deleted_files = d, ve_new_files = nf\<rparr>"
    "e0 = \<lparr>ve_comparator = c0, ve_log_number = l0, ve_prev_log_number = pl0, ve_next_file_number = n0, ve_last_sequence = s0,
      ve_has_comparator = hc0, ve_has_log_number = hl0, ve_has_prev_log_number = hp0, ve_has_next_file_number = hn0,
      ve_has_last_sequence = hs0, ve_compact_pointers = cp0, ve_deleted_files = d0, ve_new_files = nf0\<rparr>"
  then show ?thesis using decode_comparator [OF assms]
    by (cases hc; cases hl; cases hp; cases hn; cases hs)
      (simp_all add: head_bytes_def decode_numbers VersionEdit_Clear_def written_edit_def del: tag_code.simps)
qed

lemma decode_edit_loop_Nil: "decode_edit_loop [] e = (None, [], e)"
  by (subst decode_edit_loop.simps) (simp add: GetVarint32_def GetVarint32Ptr_def GetVarint32PtrFallback_def)

text \<open>C35: the records of the manifest are read back. An edit whose levels exist and whose keys are not empty is
  encoded without a failed assertion, behind whatever is in the destination already, and decoding the bytes, into any
  edit, gives its written parts again: absent fields are zero, files have a fresh reference count. Compaction
  pointers of the edit that is decoded into stay in front, since \<open>Clear\<close> keeps them.\<close>

theorem version_edit_roundtrip:
  assumes "edit_ok e"
  shows "\<exists>b. (\<forall>dst. VersionEdit_EncodeTo e dst = Some (dst @ b)) \<and>
    (\<forall>e0. VersionEdit_DecodeFrom b e0 =
       Some (Status_OK, (written_edit e)\<lparr>ve_compact_pointers := ve_compact_pointers e0 @ ve_compact_pointers e\<rparr>))"
proof -
  note ok = assms [unfolded edit_ok_def]
  have "\<forall>x \<in> set (ve_compact_pointers e). item_coded put_compact_pointer (\<lambda>x e. e\<lparr>ve_compact_pointers := ve_compact_pointers e @ [x]\<rparr>) x"
    using ok compact_pointer_coded by fastforce
  from items_coded [OF this, unfolded fold_pointers] obtain b1 where
    b1: "\<forall>dst. put_each put_compact_pointer (ve_compact_pointers e) dst = Some (dst @ b1)"
      "\<forall>p d. decode_edit_loop (b1 @ p) d = decode_edit_loop p (d\<lparr>ve_compact_pointers := ve_compact_pointers d @ ve_compact_pointers e\<rparr>)"
    by (elim exE conjE)
  have "\<forall>x \<in> set (ve_deleted_files e). item_coded put_deleted_file (\<lambda>x e. e\<lparr>ve_deleted_files := List.insort_insert x (ve_deleted_files e)\<rparr>) x"
    using ok deleted_file_coded by fastforce
  from items_coded [OF this] obtain b2 where
    b2: "\<forall>dst. put_each put_deleted_file (ve_deleted_files e) dst = Some (dst @ b2)"
      "\<forall>p d. decode_edit_loop (b2 @ p) d = decode_edit_loop p (fold (\<lambda>x e. e\<lparr>ve_deleted_files := List.insort_insert x (ve_deleted_files e)\<rparr>) (ve_deleted_files e) d)"
    by (elim exE conjE)
  have "\<forall>x \<in> set (ve_new_files e). item_coded put_new_file (\<lambda>(l, f) e. e\<lparr>ve_new_files := ve_new_files e @ [(l, written_file f)]\<rparr>) x"
    using ok new_file_coded by fastforce
  from items_coded [OF this, unfolded fold_new] obtain b3 where
    b3: "\<forall>dst. put_each put_new_file (ve_new_files e) dst = Some (dst @ b3)"
      "\<forall>p d. decode_edit_loop (b3 @ p) d = decode_edit_loop p (d\<lparr>ve_new_files := ve_new_files d @ map (\<lambda>(l, f). (l, written_file f)) (ve_new_files e)\<rparr>)"
    by (elim exE conjE)
  let ?b = "head_bytes e @ b1 @ b2 @ b3"
  have "VersionEdit_EncodeTo e dst = Some (dst @ ?b)" for dst by (simp add: head_encoded b1(1) b2(1) b3(1))
  moreover have "VersionEdit_DecodeFrom ?b e0 =
      Some (Status_OK, (written_edit e)\<lparr>ve_compact_pointers := ve_compact_pointers e0 @ ve_compact_pointers e\<rparr>)" for e0
  proof -
    have "length (ve_comparator e) < 2 ^ 32" using ok by blast
    note h = head_decoded [OF this, of "b1 @ b2 @ b3" e0]
    have "decode_edit_loop ?b (VersionEdit_Clear e0) =
        (None, [], (written_edit e)\<lparr>ve_compact_pointers := ve_compact_pointers e0 @ ve_compact_pointers e\<rparr>)"
      using ok b3(2) [rule_format, of "[]"] by (simp add: h b1(2) b2(2) fold_deleted decode_edit_loop_Nil) (simp add: written_edit_def)
    then show ?thesis by (simp add: VersionEdit_DecodeFrom_def slice_empty_def)
  qed
  ultimately show ?thesis by (intro exI [of _ ?b]) simp
qed

definition demo_edit :: VersionEdit where
  "demo_edit = SetComparatorName [99] (SetLogNumber 9 (SetCompactPointer 3 [98] (DeleteFile 1 4 (DeleteFile 0 7
     (AddFile 2 5 100 [97] [98] VersionEdit_new)))))"

theorem version_edit_roundtrip_witness:
  "edit_ok demo_edit \<and> (\<exists>b. VersionEdit_EncodeTo demo_edit [] = Some b \<and>
     VersionEdit_DecodeFrom b VersionEdit_new = Some (Status_OK, demo_edit))"
proof -
  have "edit_ok demo_edit"
    by (simp add: demo_edit_def edit_ok_def SetComparatorName_def SetLogNumber_def SetCompactPointer_def DeleteFile_def AddFile_def
        VersionEdit_new_def FileMetaData_new_def level_ok_def kNumLevels_def key_fits_def insort_insert_key_def)
  from this version_edit_roundtrip [OF this] show ?thesis
    by (auto simp: demo_edit_def written_edit_def written_file_def SetComparatorName_def SetLogNumber_def SetCompactPointer_def DeleteFile_def
        AddFile_def VersionEdit_new_def FileMetaData_new_def)
qed

subsection \<open>Decoding arbitrary bytes\<close>

definition edit_typed :: "VersionEdit \<Rightarrow> bool" where
  "edit_typed e \<longleftrightarrow> (\<forall>(l, k) \<in> set (ve_compact_pointers e). level_ok l) \<and> (\<forall>(l, n) \<in> set (ve_deleted_files e). level_ok l) \<and>
     sorted (ve_deleted_files e) \<and> distinct (ve_deleted_files e) \<and> (\<forall>(l, f) \<in> set (ve_new_files e). level_ok l)"

lemma GetLevel_ok: "GetLevel p = Some (l, q) \<Longrightarrow> level_ok l"
proof -
  assume "GetLevel p = Some (l, q)"
  then obtain v :: "32 word" where "v < of_nat kNumLevels" "l = uint v" by (auto simp: GetLevel_def split: bind_splits if_splits)
  then show ?thesis unfolding word_less_def by (simp add: level_ok_def kNumLevels_def)
qed

lemma insort_typed:
  "sorted xs \<Longrightarrow> distinct xs \<Longrightarrow> sorted (List.insort_insert x xs) \<and> distinct (List.insort_insert x xs) \<and>
     set (List.insort_insert x xs) = insert x (set xs)"
  by (simp add: sorted_insort_insert distinct_insort_insert set_insort_insert)

lemma decode_edit_field_typed: "decode_edit_field tag p e = Inr (q, e') \<Longrightarrow> edit_typed e \<Longrightarrow> edit_typed e'"
  unfolding decode_edit_field_def
  by (auto simp: edit_typed_def insort_typed split: if_splits option.splits bind_splits dest!: GetLevel_ok) fastforce+

lemma decode_edit_loop_typed: "edit_typed e \<Longrightarrow> edit_typed (snd (snd (decode_edit_loop p e)))"
proof (induction p e rule: decode_edit_loop.induct)
  case (1 p e)
  then show ?case
    by (subst decode_edit_loop.simps) (fastforce split: option.splits sum.splits dest: decode_edit_field_typed)
qed

lemma VersionEdit_message: "\<exists>s. Status_Corruption (bytes_of_string ''VersionEdit'') (bytes_of_string m) = Some s" if "length m < 100"
proof -
  have "unat (of_nat (length m) :: 32 word) = length m" using that by (simp add: unat_of_nat)
  then show ?thesis using that by (simp add: Status_Corruption_def Status_new_def Let_def bytes_of_string_def unat_word_ariths)
qed

lemma decode_edit_loop_message: "fst (decode_edit_loop p e) = Some m \<Longrightarrow> length m < 100"
proof (induction p e rule: decode_edit_loop.induct)
  case (1 p e)
  have "decode_edit_field tag q e = Inl m \<Longrightarrow> length m < 100" for tag q
    by (auto simp: decode_edit_field_def split: if_splits option.splits)
  with 1 show ?case by (subst (asm) decode_edit_loop.simps) (auto split: option.splits sum.splits)
qed



end
