(* ===== verification/Ldb_Version.thy ===== *)
theory Ldb_Version
  imports Ldb_Version_Edit Ldb_Two_Level Ldb_Options
begin

text \<open>
  Versions of the set of files (\<open>db/version_set.cc\<close>, first part): searching the files of a level, lookups
  of a key over all levels, files that overlap a range, and the level a new file is put on. A file object is passed
  by value. The table cache is an argument: the entry that a lookup in a table passes to its saver, beside the status.
  \<open>None\<close> is a failed assertion, an access out of bounds or a loop that does not return.
\<close>

subsection \<open>Searching the files of a level\<close>

definition file_at :: "FileMetaData list \<Rightarrow> nat \<Rightarrow> FileMetaData option" where
  "file_at files i = (if i < length files then Some (files ! i) else None)"

partial_function (option) find_file_loop ::
  "(slice \<Rightarrow> slice \<Rightarrow> int option) \<Rightarrow> FileMetaData list \<Rightarrow> slice \<Rightarrow> 32 word \<Rightarrow> 32 word \<Rightarrow> 32 word option" where
  "find_file_loop ucmp files key left right =
     (if left < right then do {
        let mid = (left + right) div 2;
        f \<leftarrow> file_at files (unat mid);
        largest \<leftarrow> InternalKey_Encode (f_largest f);
        c \<leftarrow> InternalKeyCompare ucmp largest key;
        if c < 0 then find_file_loop ucmp files key (mid + 1) right else find_file_loop ucmp files key left mid
      }
      else Some right)"

declare find_file_loop.simps [code]

definition FindFile :: "(slice \<Rightarrow> slice \<Rightarrow> int option) \<Rightarrow> FileMetaData list \<Rightarrow> slice \<Rightarrow> 32 word option" where
  "FindFile ucmp files key = find_file_loop ucmp files key 0 (of_nat (length files))"

definition AfterFile :: "(slice \<Rightarrow> slice \<Rightarrow> int option) \<Rightarrow> slice option \<Rightarrow> FileMetaData \<Rightarrow> bool option" where
  "AfterFile ucmp user_key f =
     (case user_key of
        None \<Rightarrow> Some False
      | Some k \<Rightarrow> do { l \<leftarrow> InternalKey_user_key (f_largest f); c \<leftarrow> ucmp k l; Some (0 < c) })"

definition BeforeFile :: "(slice \<Rightarrow> slice \<Rightarrow> int option) \<Rightarrow> slice option \<Rightarrow> FileMetaData \<Rightarrow> bool option" where
  "BeforeFile ucmp user_key f =
     (case user_key of
        None \<Rightarrow> Some False
      | Some k \<Rightarrow> do { s \<leftarrow> InternalKey_user_key (f_smallest f); c \<leftarrow> ucmp k s; Some (c < 0) })"

text \<open>The linear search over files that may overlap each other.\<close>

fun any_overlap :: "(slice \<Rightarrow> slice \<Rightarrow> int option) \<Rightarrow> slice option \<Rightarrow> slice option \<Rightarrow> FileMetaData list \<Rightarrow> bool option" where
  "any_overlap ucmp smallest largest [] = Some False"
| "any_overlap ucmp smallest largest (f # files) = do {
     after \<leftarrow> AfterFile ucmp smallest f;
     outside \<leftarrow> (if after then Some True else BeforeFile ucmp largest f);
     if outside then any_overlap ucmp smallest largest files else Some True
   }"

definition SomeFileOverlapsRange ::
  "(slice \<Rightarrow> slice \<Rightarrow> int option) \<Rightarrow> bool \<Rightarrow> FileMetaData list \<Rightarrow> slice option \<Rightarrow> slice option \<Rightarrow> bool option" where
  "SomeFileOverlapsRange ucmp disjoint_sorted files smallest largest =
     (if \<not> disjoint_sorted then any_overlap ucmp smallest largest files
      else do {
        index \<leftarrow> (case smallest of
            None \<Rightarrow> Some 0
          | Some k \<Rightarrow> do { small \<leftarrow> InternalKey_new k kMaxSequenceNumber kValueTypeForSeek; e \<leftarrow> InternalKey_Encode small; FindFile ucmp files e });
        if length files \<le> unat index then Some False
        else do { b \<leftarrow> BeforeFile ucmp largest (files ! unat index); Some (\<not> b) }
      })"

subsection \<open>Lookups over all levels\<close>

text \<open>The files of one level in which a user key can be: on level 0, where files may overlap, from the newest to
  the oldest; on other levels at most one.\<close>

fun overlapping_files :: "(slice \<Rightarrow> slice \<Rightarrow> int option) \<Rightarrow> slice \<Rightarrow> FileMetaData list \<Rightarrow> FileMetaData list option" where
  "overlapping_files ucmp user_key [] = Some []"
| "overlapping_files ucmp user_key (f # files) = do {
     s \<leftarrow> InternalKey_user_key (f_smallest f);
     c \<leftarrow> ucmp user_key s;
     inside \<leftarrow> (if 0 \<le> c then do { l \<leftarrow> InternalKey_user_key (f_largest f); d \<leftarrow> ucmp user_key l; Some (d \<le> 0) } else Some False);
     fs \<leftarrow> overlapping_files ucmp user_key files;
     Some (if inside then f # fs else fs)
   }"

definition newest_first :: "FileMetaData list \<Rightarrow> FileMetaData list" where
  "newest_first files = sort_key (\<lambda>f. - int (unat (f_number f))) files"

definition level_candidates ::
  "(slice \<Rightarrow> slice \<Rightarrow> int option) \<Rightarrow> slice \<Rightarrow> slice \<Rightarrow> nat \<Rightarrow> FileMetaData list \<Rightarrow> FileMetaData list option" where
  "level_candidates ucmp user_key ikey level files =
     (if files = [] then Some []
      else if level = 0 then map_option newest_first (overlapping_files ucmp user_key files)
      else do {
        index \<leftarrow> FindFile ucmp files ikey;
        if length files \<le> unat index then Some []
        else do {
          let f = files ! unat index;
          s \<leftarrow> InternalKey_user_key (f_smallest f);
          c \<leftarrow> ucmp user_key s;
          Some (if c < 0 then [] else [f])
        }
      })"

text \<open>The function returns false to end the search.\<close>

fun for_each_file :: "('s \<Rightarrow> nat \<Rightarrow> FileMetaData \<Rightarrow> bool \<times> 's) \<Rightarrow> nat \<Rightarrow> FileMetaData list \<Rightarrow> 's \<Rightarrow> bool \<times> 's" where
  "for_each_file func level [] s = (True, s)"
| "for_each_file func level (f # files) s =
     (let (go, s) = func s level f in if go then for_each_file func level files s else (False, s))"

fun for_each_level ::
  "(slice \<Rightarrow> slice \<Rightarrow> int option) \<Rightarrow> slice \<Rightarrow> slice \<Rightarrow> ('s \<Rightarrow> nat \<Rightarrow> FileMetaData \<Rightarrow> bool \<times> 's) \<Rightarrow> nat \<Rightarrow>
     FileMetaData list list \<Rightarrow> 's \<Rightarrow> 's option" where
  "for_each_level ucmp user_key ikey func level [] s = Some s"
| "for_each_level ucmp user_key ikey func level (files # levels) s = do {
     fs \<leftarrow> level_candidates ucmp user_key ikey level files;
     let (go, s) = for_each_file func level fs s;
     if go then for_each_level ucmp user_key ikey func (Suc level) levels s else Some s
   }"

text \<open>A version holds the files of each level.\<close>

record Version =
  v_files :: "FileMetaData list list"
  v_refs :: int
  v_file_to_compact :: "FileMetaData option"
  v_file_to_compact_level :: int
  v_compaction_level :: int

definition Version_new :: Version where
  "Version_new = \<lparr>v_files = replicate kNumLevels [], v_refs = 0, v_file_to_compact = None, v_file_to_compact_level = - 1,
     v_compaction_level = - 1\<rparr>"

definition ForEachOverlapping ::
  "(slice \<Rightarrow> slice \<Rightarrow> int option) \<Rightarrow> slice \<Rightarrow> slice \<Rightarrow> ('s \<Rightarrow> nat \<Rightarrow> FileMetaData \<Rightarrow> bool \<times> 's) \<Rightarrow> Version \<Rightarrow> 's \<Rightarrow> 's option" where
  "ForEachOverlapping ucmp user_key internal_key func v s = for_each_level ucmp user_key internal_key func 0 (v_files v) s"

datatype SaverState = kSaverNotFound | kSaverFound | kSaverDeleted | kSaverCorrupt

definition SaveValue ::
  "(slice \<Rightarrow> slice \<Rightarrow> int option) \<Rightarrow> slice \<Rightarrow> slice \<Rightarrow> slice \<Rightarrow> SaverState \<times> slice \<Rightarrow> (SaverState \<times> slice) option" where
  "SaveValue ucmp user_key ikey v saver =
     (case ParseInternalKey ikey of
        None \<Rightarrow> Some (kSaverCorrupt, snd saver)
      | Some parsed_key \<Rightarrow> do {
          c \<leftarrow> ucmp (pk_user_key parsed_key) user_key;
          Some (if c = 0 then (if pk_type parsed_key = kTypeValue then (kSaverFound, v) else (kSaverDeleted, snd saver)) else saver)
        })"

record GetStats =
  seek_file :: "FileMetaData option"
  seek_file_level :: int

record get_state =
  gs_last_file_read :: "FileMetaData option"
  gs_last_file_read_level :: int
  gs_stats :: GetStats
  gs_value :: slice

text \<open>One file of a lookup: the status that ends it, or the state it goes on with.\<close>

definition get_in_file ::
  "(slice \<Rightarrow> slice \<Rightarrow> int option) \<Rightarrow> (64 word \<Rightarrow> 64 word \<Rightarrow> slice \<Rightarrow> (Status \<times> (slice \<times> slice) option) option) \<Rightarrow>
     slice \<Rightarrow> slice \<Rightarrow> nat \<Rightarrow> FileMetaData \<Rightarrow> get_state \<Rightarrow> (Status option \<times> get_state) option" where
  "get_in_file ucmp table_get user_key ikey level f st = do {
     let stats = (if gs_last_file_read st \<noteq> None \<and> seek_file (gs_stats st) = None
       then \<lparr>seek_file = gs_last_file_read st, seek_file_level = gs_last_file_read_level st\<rparr> else gs_stats st);
     let st = st\<lparr>gs_stats := stats, gs_last_file_read := Some f, gs_last_file_read_level := int level\<rparr>;
     (s, entry) \<leftarrow> table_get (f_number f) (f_file_size f) ikey;
     (state, val) \<leftarrow> (case entry of
         None \<Rightarrow> Some (kSaverNotFound, gs_value st)
       | Some (k, v) \<Rightarrow> SaveValue ucmp user_key k v (kSaverNotFound, gs_value st));
     let st = st\<lparr>gs_value := val\<rparr>;
     if \<not> Status_ok s then Some (Some s, st)
     else (case state of
         kSaverNotFound \<Rightarrow> Some (None, st)
       | kSaverFound \<Rightarrow> Some (Some s, st)
       | kSaverDeleted \<Rightarrow> do { s \<leftarrow> Status_NotFound [] []; Some (Some s, st) }
       | kSaverCorrupt \<Rightarrow> do { s \<leftarrow> Status_Corruption (bytes_of_string ''corrupted key for '') user_key; Some (Some s, st) })
   }"

fun get_in_files ::
  "(slice \<Rightarrow> slice \<Rightarrow> int option) \<Rightarrow> (64 word \<Rightarrow> 64 word \<Rightarrow> slice \<Rightarrow> (Status \<times> (slice \<times> slice) option) option) \<Rightarrow>
     slice \<Rightarrow> slice \<Rightarrow> nat \<Rightarrow> FileMetaData list \<Rightarrow> get_state \<Rightarrow> (Status option \<times> get_state) option" where
  "get_in_files ucmp table_get user_key ikey level [] st = Some (None, st)"
| "get_in_files ucmp table_get user_key ikey level (f # files) st = do {
     (r, st) \<leftarrow> get_in_file ucmp table_get user_key ikey level f st;
     case r of Some s \<Rightarrow> Some (Some s, st) | None \<Rightarrow> get_in_files ucmp table_get user_key ikey level files st
   }"

fun get_in_levels ::
  "(slice \<Rightarrow> slice \<Rightarrow> int option) \<Rightarrow> (64 word \<Rightarrow> 64 word \<Rightarrow> slice \<Rightarrow> (Status \<times> (slice \<times> slice) option) option) \<Rightarrow>
     slice \<Rightarrow> slice \<Rightarrow> nat \<Rightarrow> FileMetaData list list \<Rightarrow> get_state \<Rightarrow> (Status \<times> get_state) option" where
  "get_in_levels ucmp table_get user_key ikey level [] st = do { s \<leftarrow> Status_NotFound [] []; Some (s, st) }"
| "get_in_levels ucmp table_get user_key ikey level (files # levels) st = do {
     fs \<leftarrow> level_candidates ucmp user_key ikey level files;
     (r, st) \<leftarrow> get_in_files ucmp table_get user_key ikey level fs st;
     case r of Some s \<Rightarrow> Some (s, st) | None \<Rightarrow> get_in_levels ucmp table_get user_key ikey (Suc level) levels st
   }"

text \<open>The status, the value behind the pointer and the statistics.\<close>

definition Version_Get ::
  "(slice \<Rightarrow> slice \<Rightarrow> int option) \<Rightarrow> (64 word \<Rightarrow> 64 word \<Rightarrow> slice \<Rightarrow> (Status \<times> (slice \<times> slice) option) option) \<Rightarrow>
     LookupKey \<Rightarrow> slice \<Rightarrow> Version \<Rightarrow> (Status \<times> slice \<times> GetStats) option" where
  "Version_Get ucmp table_get k val v = do {
     (s, st) \<leftarrow> get_in_levels ucmp table_get (LookupKey_user_key k) (LookupKey_internal_key k) 0 (v_files v)
       \<lparr>gs_last_file_read = None, gs_last_file_read_level = - 1, gs_stats = \<lparr>seek_file = None, seek_file_level = - 1\<rparr>, gs_value = val\<rparr>;
     Some (s, gs_value st, gs_stats st)
   }"

text \<open>The file object that is charged is returned with its new count; \<open>int\<close> arithmetic is checked.\<close>

definition UpdateStats :: "GetStats \<Rightarrow> Version \<Rightarrow> (bool \<times> FileMetaData option \<times> Version) option" where
  "UpdateStats stats v =
     (case seek_file stats of
        None \<Rightarrow> Some (False, None, v)
      | Some f \<Rightarrow>
          if f_allowed_seeks f = - (2 ^ 31) then None
          else let f = f\<lparr>f_allowed_seeks := f_allowed_seeks f - 1\<rparr> in
            if f_allowed_seeks f \<le> 0 \<and> v_file_to_compact v = None
            then Some (True, Some f, v\<lparr>v_file_to_compact := Some f, v_file_to_compact_level := seek_file_level stats\<rparr>)
            else Some (False, Some f, v))"

definition sample_match :: "GetStats \<times> nat \<Rightarrow> nat \<Rightarrow> FileMetaData \<Rightarrow> bool \<times> (GetStats \<times> nat)" where
  "sample_match s level f =
     (let matches = snd s + 1;
          stats = (if matches = 1 then \<lparr>seek_file = Some f, seek_file_level = int level\<rparr> else fst s)
      in (matches < 2, (stats, matches)))"

definition Version_RecordReadSample ::
  "(slice \<Rightarrow> slice \<Rightarrow> int option) \<Rightarrow> slice \<Rightarrow> Version \<Rightarrow> (bool \<times> FileMetaData option \<times> Version) option" where
  "Version_RecordReadSample ucmp internal_key v =
     (case ParseInternalKey internal_key of
        None \<Rightarrow> Some (False, None, v)
      | Some ikey \<Rightarrow> do {
          (stats, matches) \<leftarrow> ForEachOverlapping ucmp (pk_user_key ikey) internal_key sample_match v
            (\<lparr>seek_file = None, seek_file_level = - 1\<rparr>, 0);
          if 2 \<le> matches then UpdateStats stats v else Some (False, None, v)
        })"

definition Version_Ref :: "Version \<Rightarrow> Version" where
  "Version_Ref v = v\<lparr>v_refs := v_refs v + 1\<rparr>"

text \<open>The flag tells that the version is deleted.\<close>

definition Version_Unref :: "Version \<Rightarrow> (bool \<times> Version) option" where
  "Version_Unref v = (if 1 \<le> v_refs v then Some (v_refs v - 1 = 0, v\<lparr>v_refs := v_refs v - 1\<rparr>) else None)"

subsection \<open>Files that overlap a range\<close>

definition OverlapInLevel ::
  "(slice \<Rightarrow> slice \<Rightarrow> int option) \<Rightarrow> nat \<Rightarrow> slice option \<Rightarrow> slice option \<Rightarrow> Version \<Rightarrow> bool option" where
  "OverlapInLevel ucmp level smallest largest v =
     (if level < length (v_files v) then SomeFileOverlapsRange ucmp (0 < level) (v_files v ! level) smallest largest else None)"

text \<open>A comparison of user keys against a bound that may be missing.\<close>

definition below_begin :: "(slice \<Rightarrow> slice \<Rightarrow> int option) \<Rightarrow> slice option \<Rightarrow> slice \<Rightarrow> bool option" where
  "below_begin ucmp b k = (case b of None \<Rightarrow> Some False | Some x \<Rightarrow> do { c \<leftarrow> ucmp k x; Some (c < 0) })"

definition above_end :: "(slice \<Rightarrow> slice \<Rightarrow> int option) \<Rightarrow> slice option \<Rightarrow> slice \<Rightarrow> bool option" where
  "above_end ucmp e k = (case e of None \<Rightarrow> Some False | Some x \<Rightarrow> do { c \<leftarrow> ucmp k x; Some (0 < c) })"

text \<open>The loop over the files of a level: the rest of the files, the bounds and what was collected. On level 0 a file that
  reaches beyond a bound moves the bound and starts the search again.\<close>

partial_function (option) overlap_loop ::
  "(slice \<Rightarrow> slice \<Rightarrow> int option) \<Rightarrow> bool \<Rightarrow> FileMetaData list \<Rightarrow> nat \<Rightarrow> slice option \<Rightarrow> slice option \<Rightarrow> FileMetaData list \<Rightarrow>
     FileMetaData list option" where
  "overlap_loop ucmp level0 files i b e inputs =
     (if length files \<le> i then Some inputs
      else do {
        let f = files ! i;
        file_start \<leftarrow> InternalKey_user_key (f_smallest f);
        file_limit \<leftarrow> InternalKey_user_key (f_largest f);
        before \<leftarrow> below_begin ucmp b file_limit;
        after \<leftarrow> (if before then Some False else above_end ucmp e file_start);
        if before \<or> after then overlap_loop ucmp level0 files (i + 1) b e inputs
        else if \<not> level0 then overlap_loop ucmp level0 files (i + 1) b e (inputs @ [f])
        else do {
          starts \<leftarrow> below_begin ucmp b file_start;
          if starts then overlap_loop ucmp level0 files 0 (Some file_start) e []
          else do {
            ends \<leftarrow> above_end ucmp e file_limit;
            if ends then overlap_loop ucmp level0 files 0 b (Some file_limit) []
            else overlap_loop ucmp level0 files (i + 1) b e (inputs @ [f])
          }
        }
      })"

declare overlap_loop.simps [code]

definition user_bound :: "slice option \<Rightarrow> slice option option" where
  "user_bound k = (case k of None \<Rightarrow> Some None | Some ik \<Rightarrow> map_option Some (InternalKey_user_key ik))"

definition GetOverlappingInputs ::
  "(slice \<Rightarrow> slice \<Rightarrow> int option) \<Rightarrow> nat \<Rightarrow> slice option \<Rightarrow> slice option \<Rightarrow> Version \<Rightarrow> FileMetaData list option" where
  "GetOverlappingInputs ucmp level b e v =
     (if level < length (v_files v) then do {
        user_begin \<leftarrow> user_bound b;
        user_end \<leftarrow> user_bound e;
        overlap_loop ucmp (level = 0) (v_files v ! level) 0 user_begin user_end []
      } else None)"

subsection \<open>Sizes\<close>

text \<open>\<open>int\<close> arithmetic: \<open>None\<close> is an overflow.\<close>

definition int_value :: "int \<Rightarrow> int option" where
  "int_value x = (if - (2 ^ 31) \<le> x \<and> x < 2 ^ 31 then Some x else None)"

definition TargetFileSize :: "Options \<Rightarrow> int" where
  "TargetFileSize options = sint (of_nat (op_max_file_size options) :: 32 word)"

definition MaxGrandParentOverlapBytes :: "Options \<Rightarrow> int option" where
  "MaxGrandParentOverlapBytes options = int_value (10 * TargetFileSize options)"

definition ExpandedCompactionByteSizeLimit :: "Options \<Rightarrow> int option" where
  "ExpandedCompactionByteSizeLimit options = int_value (25 * TargetFileSize options)"

definition MaxFileSizeForLevel :: "Options \<Rightarrow> 64 word" where
  "MaxFileSizeForLevel options = word_of_int (TargetFileSize options)"

definition TotalFileSize :: "FileMetaData list \<Rightarrow> int" where
  "TotalFileSize files = sint (sum_list (map f_file_size files))"

subsection \<open>The level of a new file\<close>

definition kMaxMemCompactLevel :: nat where
  "kMaxMemCompactLevel = 2"

text \<open>Whether the file can be pushed one level further down.\<close>

definition push_down :: "(slice \<Rightarrow> slice \<Rightarrow> int option) \<Rightarrow> Options \<Rightarrow> slice \<Rightarrow> slice \<Rightarrow> nat \<Rightarrow> Version \<Rightarrow> bool option" where
  "push_down ucmp options smallest largest level v = do {
     start \<leftarrow> InternalKey_new smallest kMaxSequenceNumber kValueTypeForSeek;
     limit \<leftarrow> InternalKey_new largest 0 kTypeDeletion;
     overlap \<leftarrow> OverlapInLevel ucmp (level + 1) (Some smallest) (Some largest) v;
     if overlap then Some False
     else if level + 2 < kNumLevels then do {
       overlaps \<leftarrow> GetOverlappingInputs ucmp (level + 2) (Some start) (Some limit) v;
       limit \<leftarrow> MaxGrandParentOverlapBytes options;
       Some (TotalFileSize overlaps \<le> limit)
     }
     else Some True
   }"

function pick_level_loop ::
  "(slice \<Rightarrow> slice \<Rightarrow> int option) \<Rightarrow> Options \<Rightarrow> slice \<Rightarrow> slice \<Rightarrow> nat \<Rightarrow> Version \<Rightarrow> nat option" where
  "pick_level_loop ucmp options smallest largest level v =
     (if level < kMaxMemCompactLevel then do {
        push \<leftarrow> push_down ucmp options smallest largest level v;
        if push then pick_level_loop ucmp options smallest largest (level + 1) v else Some level
      }
      else Some level)"
  by pat_completeness auto
termination
  by (relation "measure (\<lambda>(_, _, _, _, level, _). kMaxMemCompactLevel - level)") auto

declare pick_level_loop.simps [simp del]

definition PickLevelForMemTableOutput ::
  "(slice \<Rightarrow> slice \<Rightarrow> int option) \<Rightarrow> Options \<Rightarrow> slice \<Rightarrow> slice \<Rightarrow> Version \<Rightarrow> nat option" where
  "PickLevelForMemTableOutput ucmp options smallest largest v = do {
     overlap \<leftarrow> OverlapInLevel ucmp 0 (Some smallest) (Some largest) v;
     if overlap then Some 0 else pick_level_loop ucmp options smallest largest 0 v
   }"

subsection \<open>The files of a level as an iterator\<close>

text \<open>Keys are the largest keys of the files, values their numbers and sizes.\<close>

record LevelFileNumIterator =
  lf_flist :: "FileMetaData list"
  lf_index :: "32 word"

definition LevelFileNumIterator_new :: "FileMetaData list \<Rightarrow> LevelFileNumIterator" where
  "LevelFileNumIterator_new flist = \<lparr>lf_flist = flist, lf_index = of_nat (length flist)\<rparr>"

definition LevelFileNum_Valid :: "LevelFileNumIterator \<Rightarrow> bool" where
  "LevelFileNum_Valid it \<longleftrightarrow> unat (lf_index it) < length (lf_flist it)"

definition file_value :: "FileMetaData \<Rightarrow> slice" where
  "file_value f = EncodeFixed64 kLittleEndian (f_number f) @ EncodeFixed64 kLittleEndian (f_file_size f)"

definition LevelFileNum_ops :: "(slice \<Rightarrow> slice \<Rightarrow> int option) \<Rightarrow> LevelFileNumIterator iter_ops" where
  "LevelFileNum_ops ucmp =
     \<lparr>it_Valid = LevelFileNum_Valid,
      it_SeekToFirst = \<lambda>it. Some (it\<lparr>lf_index := 0\<rparr>),
      it_SeekToLast = \<lambda>it. Some (it\<lparr>lf_index := (if lf_flist it = [] then 0 else of_nat (length (lf_flist it) - 1))\<rparr>),
      it_Seek = \<lambda>target it. do { i \<leftarrow> FindFile ucmp (lf_flist it) target; Some (it\<lparr>lf_index := i\<rparr>) },
      it_Next = \<lambda>it. if LevelFileNum_Valid it then Some (it\<lparr>lf_index := lf_index it + 1\<rparr>) else None,
      it_Prev = \<lambda>it. if LevelFileNum_Valid it
        then Some (it\<lparr>lf_index := (if lf_index it = 0 then of_nat (length (lf_flist it)) else lf_index it - 1)\<rparr>) else None,
      it_key = \<lambda>it. if LevelFileNum_Valid it then InternalKey_Encode (f_largest (lf_flist it ! unat (lf_index it))) else None,
      it_value = \<lambda>it. if LevelFileNum_Valid it then Some (file_value (lf_flist it ! unat (lf_index it))) else None,
      it_status = \<lambda>_. Some Status_OK\<rparr>"

text \<open>The iterator over the table of a file, from the value of its entry; the table cache and the iterator that only
  reports an error are arguments.\<close>

definition GetFileIterator :: "(64 word \<Rightarrow> 64 word \<Rightarrow> 'i option) \<Rightarrow> (Status \<Rightarrow> 'i) \<Rightarrow> slice \<Rightarrow> 'i option" where
  "GetFileIterator new_iterator error_iterator val =
     (if length val \<noteq> 16 then
        map_option error_iterator (Status_Corruption (bytes_of_string ''FileReader invoked with unexpected value'') [])
      else do {
        number \<leftarrow> DecodeFixed64 kLittleEndian val;
        file_size \<leftarrow> DecodeFixed64 kLittleEndian (drop 8 val);
        new_iterator number file_size
      })"

end
