(* ===== verification/Ldb_Version_Correct.thy ===== *)
theory Ldb_Version_Correct
  imports Ldb_Version
begin

text \<open>
  The theorems about versions: the searches for files find what a linear search would, the search for
  overlapping files ends and collects a closed set, and a lookup returns the newest visible entry over all files.
\<close>

subsection \<open>Files in internal key order\<close>

locale version_keys = key_comparator ucmp ugood
  for ucmp :: "slice \<Rightarrow> slice \<Rightarrow> int option" and ugood :: "slice \<Rightarrow> bool"

sublocale version_keys \<subseteq> ik: key_comparator "InternalKeyCompare ucmp" "internal_good ugood"
  by (rule key_comparator.intro) (rule internal_comparator)

interpretation bytewise_versions: version_keys Bytewise_Compare "\<lambda>_. True"
  by unfold_locales

text \<open>The entries of the index over the files of a level.\<close>

definition file_index :: "FileMetaData list \<Rightarrow> (slice \<times> slice) list" where
  "file_index files = map (\<lambda>f. (f_largest f, file_value f)) files"

lemma file_index_simps [simp]: "length (file_index files) = length files"
  "i < length files \<Longrightarrow> file_index files ! i = (f_largest (files ! i), file_value (files ! i))"
  by (simp_all add: file_index_def)

context version_keys
begin

definition file_ok :: "FileMetaData \<Rightarrow> bool" where
  "file_ok f \<longleftrightarrow> internal_good ugood (f_smallest f) \<and> internal_good ugood (f_largest f) \<and> ik.le (f_smallest f) (f_largest f)"

text \<open>The files of a level other than 0: ordered and disjoint.\<close>

definition level_sorted :: "FileMetaData list \<Rightarrow> bool" where
  "level_sorted files \<longleftrightarrow> (\<forall>f \<in> set files. file_ok f) \<and> sorted_wrt (\<lambda>f g. ik.lt (f_largest f) (f_smallest g)) files \<and>
     length files < 2 ^ 31"

lemma level_sorted_largest:
  assumes "level_sorted files"
  shows "sorted_wrt ik.lt (map fst (file_index files))"
proof -
  have ok: "\<forall>f \<in> set files. file_ok f" and s: "sorted_wrt (\<lambda>f g. ik.lt (f_largest f) (f_smallest g)) files"
    using assms unfolding level_sorted_def by blast+
  have "ik.lt (f_largest f) (f_largest g)" if f: "f \<in> set files" and g: "g \<in> set files" and l: "ik.lt (f_largest f) (f_smallest g)" for f g
    using ik.lt_le_trans [OF _ _ _ l] ok f g unfolding file_ok_def by blast
  from sorted_wrt_mono_rel [OF this s] have "sorted_wrt (\<lambda>f g. ik.lt (f_largest f) (f_largest g)) files" .
  then show ?thesis by (simp add: file_index_def sorted_wrt_map comp_def)
qed

lemma index_good: "\<forall>f \<in> set files. file_ok f \<Longrightarrow> k \<in> fst ` set (file_index files) \<Longrightarrow> internal_good ugood k"
  by (auto simp: file_index_def file_ok_def)

lemma good_encode: "internal_good ugood k \<Longrightarrow> InternalKey_Encode k = Some k"
  by (auto simp: internal_good_def InternalKey_Encode_def)

lemma find_file_loop_finds:
  assumes "\<forall>f \<in> set files. file_ok f" and "sorted_wrt ik.lt (map fst (file_index files))" and "internal_good ugood key"
    and "length files < 2 ^ 31" and "unat left \<le> seek_pos ik.lt (file_index files) key"
    and "seek_pos ik.lt (file_index files) key \<le> unat right" and "unat right \<le> length files"
  shows "find_file_loop ucmp files key left right = Some (of_nat (seek_pos ik.lt (file_index files) key))"
  using assms(5-7)
proof (induction "unat right - unat left" arbitrary: left right rule: less_induct)
  case less
  let ?n = "seek_pos ik.lt (file_index files) key"
  show ?case
  proof (cases "left < right")
    case False
    then have "unat right = ?n" using less.prems by (simp add: word_less_nat_alt)
    moreover have "of_nat (unat right) = right" by simp
    ultimately have "right = of_nat ?n" by simp
    then show ?thesis using False by (subst find_file_loop.simps) simp
  next
    case True
    then have lr: "unat left < unat right" by (simp add: word_less_nat_alt)
    have m: "unat ((left + right) div 2) = (unat left + unat right) div 2"
      using less.prems(3) assms(4) lr by (simp add: unat_div_distrib unat_word_ariths)
    let ?m = "(unat left + unat right) div 2"
    have ml: "?m < length files" using lr less.prems(3) by linarith
    then have f: "files ! ?m \<in> set files" by simp
    then have g: "internal_good ugood (f_largest (files ! ?m))" using assms(1) by (simp add: file_ok_def)
    obtain c where c: "InternalKeyCompare ucmp (f_largest (files ! ?m)) key = Some c" using ik.cmp_total [OF g assms(3)] by blast
    have lt: "c < 0 \<longleftrightarrow> ?m < ?n"
      using ik.seek_pos_iff [OF assms(2) _ assms(3), of ?m] index_good [OF assms(1)] ml c by (simp add: ik.lt_def)
    have step: "find_file_loop ucmp files key left right =
        (if c < 0 then find_file_loop ucmp files key ((left + right) div 2 + 1) right else find_file_loop ucmp files key left ((left + right) div 2))"
      using True ml by (subst find_file_loop.simps) (simp add: m file_at_def good_encode [OF g] c Let_def)
    show ?thesis
    proof (cases "c < 0")
      case True
      have s: "unat ((left + right) div 2 + 1) = ?m + 1" using m ml assms(4) by (simp add: unat_word_ariths)
      have "find_file_loop ucmp files key ((left + right) div 2 + 1) right = Some (of_nat ?n)"
        using lt True lr less.prems s by (intro less.hyps) simp_all
      then show ?thesis using step True by simp
    next
      case False
      have "find_file_loop ucmp files key left ((left + right) div 2) = Some (of_nat ?n)"
        using lt False lr less.prems m by (intro less.hyps) simp_all
      then show ?thesis using step False by simp
    qed
  qed
qed

lemma FindFile_finds:
  assumes "level_sorted files" and "internal_good ugood key"
  shows "FindFile ucmp files key = Some (of_nat (seek_pos ik.lt (file_index files) key))"
    and "unat (of_nat (seek_pos ik.lt (file_index files) key) :: 32 word) = seek_pos ik.lt (file_index files) key"
proof -
  have l: "length files < 2 ^ 31" using assms(1) by (simp add: level_sorted_def)
  have s: "seek_pos ik.lt (file_index files) key \<le> length files" using seek_pos_le [of ik.lt "file_index files" key] by simp
  have u: "unat (of_nat (length files) :: 32 word) = length files" using l by (simp add: unat_of_nat)
  show "FindFile ucmp files key = Some (of_nat (seek_pos ik.lt (file_index files) key))"
    unfolding FindFile_def by (rule find_file_loop_finds) (use assms l u s level_sorted_largest in \<open>auto simp: level_sorted_def\<close>)
  show "unat (of_nat (seek_pos ik.lt (file_index files) key) :: 32 word) = seek_pos ik.lt (file_index files) key"
    using l s by (simp add: unat_of_nat)
qed

end

subsection \<open>Files that overlap a range\<close>

context version_keys
begin

definition overlaps :: "slice option \<Rightarrow> slice option \<Rightarrow> FileMetaData \<Rightarrow> bool" where
  "overlaps b e f \<longleftrightarrow> (case b of None \<Rightarrow> True | Some x \<Rightarrow> \<not> lt (ik_user (f_largest f)) x) \<and>
     (case e of None \<Rightarrow> True | Some y \<Rightarrow> \<not> lt y (ik_user (f_smallest f)))"

definition within :: "slice option \<Rightarrow> slice option \<Rightarrow> FileMetaData \<Rightarrow> bool" where
  "within b e f \<longleftrightarrow> (case b of None \<Rightarrow> True | Some x \<Rightarrow> \<not> lt (ik_user (f_smallest f)) x) \<and>
     (case e of None \<Rightarrow> True | Some y \<Rightarrow> \<not> lt y (ik_user (f_largest f)))"

text \<open>A range that covers another one.\<close>

definition covers :: "slice option \<Rightarrow> slice option \<Rightarrow> slice option \<Rightarrow> slice option \<Rightarrow> bool" where
  "covers b' e' b e \<longleftrightarrow>
     (case (b', b) of (None, _) \<Rightarrow> True | (Some x, Some y) \<Rightarrow> le x y | _ \<Rightarrow> False) \<and>
     (case (e', e) of (None, _) \<Rightarrow> True | (Some x, Some y) \<Rightarrow> le y x | _ \<Rightarrow> False)"

definition bound_ok :: "slice option \<Rightarrow> bool" where
  "bound_ok b \<longleftrightarrow> (\<forall>x. b = Some x \<longrightarrow> ugood x)"

lemma file_users:
  assumes "file_ok f"
  shows "ugood (ik_user (f_smallest f))" and "ugood (ik_user (f_largest f))"
    and "InternalKey_user_key (f_smallest f) = Some (ik_user (f_smallest f))" and "InternalKey_user_key (f_largest f) = Some (ik_user (f_largest f))"
    and "le (ik_user (f_smallest f)) (ik_user (f_largest f))"
proof -
  have g: "internal_good ugood (f_smallest f)" "internal_good ugood (f_largest f)" and l: "ik.le (f_smallest f) (f_largest f)"
    using assms by (simp_all add: file_ok_def)
  show u: "ugood (ik_user (f_smallest f))" "ugood (ik_user (f_largest f))" using g by (simp_all add: internal_good_def)
  show "InternalKey_user_key (f_smallest f) = Some (ik_user (f_smallest f))" "InternalKey_user_key (f_largest f) = Some (ik_user (f_largest f))"
    using Extract_good g by (simp_all add: InternalKey_user_key_def)
  have "\<not> ik.lt (f_largest f) (f_smallest f)" using l ik.le_not_lt g by blast
  then show "le (ik_user (f_smallest f)) (ik_user (f_largest f))" using icmp_lt g u le_not_lt by blast
qed

lemma before_begin:
  assumes "bound_ok b" and "ugood k"
  shows "below_begin ucmp b k = Some (case b of None \<Rightarrow> False | Some x \<Rightarrow> lt k x)"
  using cmp_total [OF assms(2)] assms(1) by (fastforce simp: below_begin_def bound_ok_def lt_def split: option.splits)

lemma after_end:
  assumes "bound_ok e" and "ugood k"
  shows "above_end ucmp e k = Some (case e of None \<Rightarrow> False | Some x \<Rightarrow> lt x k)"
proof (cases e)
  case (Some x)
  then obtain r r' where r: "ucmp k x = Some r" "ucmp x k = Some r'"
    using cmp_total [of k x] cmp_total [of x k] assms by (auto simp: bound_ok_def)
  moreover have "0 < r \<longleftrightarrow> r' < 0" using cmp_swap [OF _ assms(2) r(2,1)] assms(1) Some by (auto simp: bound_ok_def)
  ultimately show ?thesis using Some by (simp add: above_end_def lt_def)
qed (simp add: above_end_def)

text \<open>One turn of the loop.\<close>

lemma overlap_turn:
  assumes "file_ok f" and "bound_ok b" and "bound_ok e" and "i < length files" and "files ! i = f"
  shows "overlap_loop ucmp level0 files i b e inputs =
    (if \<not> overlaps b e f then overlap_loop ucmp level0 files (i + 1) b e inputs
     else if \<not> level0 then overlap_loop ucmp level0 files (i + 1) b e (inputs @ [f])
     else if (case b of None \<Rightarrow> False | Some x \<Rightarrow> lt (ik_user (f_smallest f)) x)
       then overlap_loop ucmp level0 files 0 (Some (ik_user (f_smallest f))) e []
     else if (case e of None \<Rightarrow> False | Some x \<Rightarrow> lt x (ik_user (f_largest f)))
       then overlap_loop ucmp level0 files 0 b (Some (ik_user (f_largest f))) []
     else overlap_loop ucmp level0 files (i + 1) b e (inputs @ [f]))"
  using assms(4,5) file_users [OF assms(1)] before_begin [OF assms(2)] after_end [OF assms(3)]
  by (subst overlap_loop.simps) (auto simp: Let_def overlaps_def split: option.splits)

lemma overlap_loop_sorted:
  assumes "\<forall>f \<in> set files. file_ok f" and "bound_ok b" and "bound_ok e" and "i \<le> length files"
  shows "overlap_loop ucmp False files i b e inputs = Some (inputs @ filter (overlaps b e) (drop i files))"
  using assms(4)
proof (induction "length files - i" arbitrary: i inputs)
  case 0
  then show ?case by (subst overlap_loop.simps) simp
next
  case (Suc n)
  then have i: "i < length files" "files ! i \<in> set files" by simp_all
  from i(2) assms(1) have ok: "file_ok (files ! i)" by blast
  have "drop i files = files ! i # drop (i + 1) files" using i(1) by (simp add: Cons_nth_drop_Suc)
  then show ?case using overlap_turn [OF ok assms(2,3) i(1) refl, of False inputs] Suc.hyps(1) [of "i + 1"] Suc.hyps(2) i(1) by simp
qed

end

context version_keys
begin

text \<open>How many files reach beyond the bounds: this number falls with each restart.\<close>

definition beyond :: "slice option \<Rightarrow> slice option \<Rightarrow> FileMetaData list \<Rightarrow> nat" where
  "beyond b e files = length (filter (\<lambda>f. case b of None \<Rightarrow> False | Some x \<Rightarrow> lt (ik_user (f_smallest f)) x) files) +
     length (filter (\<lambda>f. case e of None \<Rightarrow> False | Some y \<Rightarrow> lt y (ik_user (f_largest f))) files)"

lemma length_filter_less:
  "x \<in> set xs \<Longrightarrow> P x \<Longrightarrow> \<not> Q x \<Longrightarrow> (\<And>y. y \<in> set xs \<Longrightarrow> Q y \<Longrightarrow> P y) \<Longrightarrow> length (filter Q xs) < length (filter P xs)"
proof (induction xs)
  case (Cons a xs)
  have "filter Q xs = filter Q (filter P xs)" using Cons.prems(4) by (auto intro!: filter_cong)
  then have le: "length (filter Q xs) \<le> length (filter P xs)" by (metis length_filter_le)
  show ?case
  proof (cases "x = a")
    case True
    then show ?thesis using Cons.prems(2,3) le by simp
  next
    case False
    then have "length (filter Q xs) < length (filter P xs)" using Cons by auto
    then show ?thesis using Cons.prems(4) by auto
  qed
qed simp

lemma beyond_begin:
  assumes "\<forall>f \<in> set files. file_ok f" and "bound_ok b" and "f \<in> set files" and "b = Some x" and "lt (ik_user (f_smallest f)) x"
  shows "beyond (Some (ik_user (f_smallest f))) e files < beyond b e files"
proof -
  have g: "ugood (ik_user (f_smallest g))" if "g \<in> set files" for g using assms(1) that file_users(1) by blast
  have x: "ugood x" using assms(2,4) by (simp add: bound_ok_def)
  have "length (filter (\<lambda>g. lt (ik_user (f_smallest g)) (ik_user (f_smallest f))) files) < length (filter (\<lambda>g. lt (ik_user (f_smallest g)) x) files)"
  proof (rule length_filter_less [OF assms(3)])
    show "\<not> lt (ik_user (f_smallest f)) (ik_user (f_smallest f))" using lt_irrefl [OF g [OF assms(3)]] .
    show "lt (ik_user (f_smallest h)) x" if "h \<in> set files" "lt (ik_user (f_smallest h)) (ik_user (f_smallest f))" for h
      using lt_trans [OF g [OF that(1)] g [OF assms(3)] x that(2) assms(5)] .
  qed (rule assms(5))
  then show ?thesis by (simp add: beyond_def assms(4))
qed

lemma beyond_end:
  assumes "\<forall>f \<in> set files. file_ok f" and "bound_ok e" and "f \<in> set files" and "e = Some y" and "lt y (ik_user (f_largest f))"
  shows "beyond b (Some (ik_user (f_largest f))) files < beyond b e files"
proof -
  have g: "ugood (ik_user (f_largest g))" if "g \<in> set files" for g using assms(1) that file_users(2) by blast
  have y: "ugood y" using assms(2,4) by (simp add: bound_ok_def)
  have "length (filter (\<lambda>g. lt (ik_user (f_largest f)) (ik_user (f_largest g))) files) < length (filter (\<lambda>g. lt y (ik_user (f_largest g))) files)"
  proof (rule length_filter_less [OF assms(3)])
    show "\<not> lt (ik_user (f_largest f)) (ik_user (f_largest f))" using lt_irrefl [OF g [OF assms(3)]] .
    show "lt y (ik_user (f_largest h))" if "h \<in> set files" "lt (ik_user (f_largest f)) (ik_user (f_largest h))" for h
      using lt_trans [OF y g [OF assms(3)] g [OF that(1)] assms(5) that(2)] .
  qed (rule assms(5))
  then show ?thesis by (simp add: beyond_def assms(4))
qed

text \<open>A range is closed when the files that overlap it lie within it.\<close>

definition closed_range :: "FileMetaData list \<Rightarrow> slice option \<Rightarrow> slice option \<Rightarrow> bool" where
  "closed_range files b e \<longleftrightarrow> bound_ok b \<and> bound_ok e \<and> (\<forall>f \<in> set files. overlaps b e f \<longrightarrow> within b e f)"

lemma covers_refl: "bound_ok b \<Longrightarrow> bound_ok e \<Longrightarrow> covers b e b e"
  using le_not_lt lt_irrefl by (auto simp: covers_def bound_ok_def split: option.splits)

lemma covers_overlaps:
  assumes "covers B E b e" and "bound_ok B" and "bound_ok E" and "bound_ok b" and "bound_ok e" and "file_ok f" and "overlaps b e f"
  shows "overlaps B E f"
  unfolding overlaps_def
proof (intro conjI)
  note g = file_users(1,2) [OF assms(6)]
  show "case B of None \<Rightarrow> True | Some x \<Rightarrow> \<not> lt (ik_user (f_largest f)) x"
  proof (cases B)
    case (Some x)
    then obtain y where y: "b = Some y" "le x y" using assms(1) by (auto simp: covers_def split: option.splits)
    have "\<not> lt (ik_user (f_largest f)) y" using assms(7) by (simp add: overlaps_def y(1))
    then show ?thesis using lt_le_trans [OF g(2), of x y] y assms(2,4) Some by (auto simp: bound_ok_def)
  qed simp
  show "case E of None \<Rightarrow> True | Some y \<Rightarrow> \<not> lt y (ik_user (f_smallest f))"
  proof (cases E)
    case (Some x)
    then obtain y where y: "e = Some y" "le y x" using assms(1) by (auto simp: covers_def split: option.splits)
    have "\<not> lt y (ik_user (f_smallest f))" using assms(7) by (simp add: overlaps_def y(1))
    then show ?thesis using le_lt_trans [OF _ _ g(1), of y x] y assms(3,5) Some by (auto simp: bound_ok_def)
  qed simp
qed

lemma covers_trans:
  assumes "covers b2 e2 b1 e1" and "covers b1 e1 b e" and "bound_ok b2" and "bound_ok e2" and "bound_ok b1" and "bound_ok e1" and "bound_ok b" and "bound_ok e"
  shows "covers b2 e2 b e"
proof -
  have "le x z" if "b2 = Some x" "b1 = Some y" "b = Some z" "le x y" "le y z" for x y z
    using le_trans [OF _ _ _ that(4,5)] assms(3,5,7) that(1-3) by (simp add: bound_ok_def)
  moreover have "le z x" if "e2 = Some x" "e1 = Some y" "e = Some z" "le y x" "le z y" for x y z
    using le_trans [OF _ _ _ that(5,4)] assms(4,6,8) that(1-3) by (simp add: bound_ok_def)
  ultimately show ?thesis using assms(1,2) by (auto simp: covers_def split: option.splits)
qed

lemma restart_measure:
  fixes m n i L :: nat
  assumes "m < n" and "i < L"
  shows "m * (L + 1) + (L - 0) < n * (L + 1) + (L - i)"
proof -
  have "Suc m * (L + 1) \<le> n * (L + 1)" using assms(1) by (intro mult_le_mono1) simp
  then show ?thesis using assms(2) by simp
qed

lemma overlap_loop_level0:
  assumes "\<forall>f \<in> set files. file_ok f" and "bound_ok b" and "bound_ok e" and "i \<le> length files"
    and "\<forall>f \<in> set inputs. within b e f" and "inputs = filter (overlaps b e) (take i files)"
  shows "\<exists>b' e'. overlap_loop ucmp True files i b e inputs = Some (filter (overlaps b' e') files) \<and>
    closed_range files b' e' \<and> covers b' e' b e \<and> (\<forall>B E. closed_range files B E \<and> covers B E b e \<longrightarrow> covers B E b' e')"
  using assms(2-6)
proof (induction "beyond b e files * (length files + 1) + (length files - i)" arbitrary: i b e inputs rule: less_induct)
  case less
  have refl: "covers b e b e" using less.prems(1,2) by (rule covers_refl)
  show ?case
  proof (cases "i < length files")
    case False
    then have "i = length files" using less.prems(3) by simp
    then have "overlap_loop ucmp True files i b e inputs = Some (filter (overlaps b e) files)"
      using less.prems(5) by (subst overlap_loop.simps) simp
    moreover have "closed_range files b e" using less.prems \<open>i = length files\<close> by (auto simp: closed_range_def)
    ultimately show ?thesis using refl by blast
  next
    case True
    let ?f = "files ! i"
    have f: "?f \<in> set files" "file_ok ?f" using True assms(1) by auto
    note turn = overlap_turn [OF f(2) less.prems(1,2) True HOL.refl, of True inputs]
    have drop: "filter (overlaps b e) (take (i + 1) files) = filter (overlaps b e) (take i files) @ (if overlaps b e ?f then [?f] else [])"
      using True by (simp add: take_Suc_conv_app_nth)
    consider (out) "\<not> overlaps b e ?f"
      | (starts) x where "overlaps b e ?f" "b = Some x" "lt (ik_user (f_smallest ?f)) x"
      | (ends) y where "overlaps b e ?f" "\<not> (case b of None \<Rightarrow> False | Some x \<Rightarrow> lt (ik_user (f_smallest ?f)) x)"
          "e = Some y" "lt y (ik_user (f_largest ?f))"
      | (inside) "overlaps b e ?f" "within b e ?f"
      unfolding within_def by (cases b; cases e) auto
    then show ?thesis
    proof cases
      case out
      have "\<exists>b' e'. overlap_loop ucmp True files (i + 1) b e inputs = Some (filter (overlaps b' e') files) \<and>
        closed_range files b' e' \<and> covers b' e' b e \<and> (\<forall>B E. closed_range files B E \<and> covers B E b e \<longrightarrow> covers B E b' e')"
        by (rule less.hyps) (use less.prems True out drop in simp_all)
      then show ?thesis using out by (simp only: turn if_True if_False not_False_eq_True simp_thms)
    next
      case inside
      have "\<exists>b' e'. overlap_loop ucmp True files (i + 1) b e (inputs @ [?f]) = Some (filter (overlaps b' e') files) \<and>
        closed_range files b' e' \<and> covers b' e' b e \<and> (\<forall>B E. closed_range files B E \<and> covers B E b e \<longrightarrow> covers B E b' e')"
        by (rule less.hyps) (use less.prems True inside drop in simp_all)
      then show ?thesis using inside by (simp add: turn within_def split: option.splits)
    next
      case starts
      let ?s = "ik_user (f_smallest ?f)"
      have s: "bound_ok (Some ?s)" using file_users(1) [OF f(2)] by (simp add: bound_ok_def)
      have "beyond (Some ?s) e files < beyond b e files" by (rule beyond_begin [OF assms(1) less.prems(1) f(1) starts(2,3)])
      then have m: "beyond (Some ?s) e files * (length files + 1) + (length files - 0) < beyond b e files * (length files + 1) + (length files - i)"
        using True by (rule restart_measure)
      have wider: "covers (Some ?s) e b e" using starts(2,3) lt_imp_le refl by (auto simp: covers_def split: option.splits)
      have least: "covers B E (Some ?s) e" if c: "closed_range files B E" and v: "covers B E b e" for B E
      proof -
        have "overlaps B E ?f" using covers_overlaps [OF v _ _ less.prems(1,2) f(2) starts(1)] c by (simp add: closed_range_def)
        then have w: "within B E ?f" using c f(1) by (simp add: closed_range_def)
        have "le x ?s" if "B = Some x" for x
          using w that c le_not_lt [of x ?s] file_users(1) [OF f(2)] by (simp add: within_def closed_range_def bound_ok_def)
        then show ?thesis using v starts(2) by (auto simp: covers_def split: option.splits)
      qed
      have "\<exists>b' e'. overlap_loop ucmp True files 0 (Some ?s) e [] = Some (filter (overlaps b' e') files) \<and> closed_range files b' e' \<and>
        covers b' e' (Some ?s) e \<and> (\<forall>B E. closed_range files B E \<and> covers B E (Some ?s) e \<longrightarrow> covers B E b' e')"
        by (rule less.hyps [OF m s less.prems(2)]) simp_all
      then obtain b' e' where r: "overlap_loop ucmp True files 0 (Some ?s) e [] = Some (filter (overlaps b' e') files)"
        "closed_range files b' e'" "covers b' e' (Some ?s) e" "\<forall>B E. closed_range files B E \<and> covers B E (Some ?s) e \<longrightarrow> covers B E b' e'"
        by (elim exE conjE)
      have "overlap_loop ucmp True files i b e inputs = Some (filter (overlaps b' e') files)" unfolding turn using starts r(1) by simp
      moreover have "covers b' e' b e" using covers_trans [OF r(3) wider] r(2) s less.prems(1,2) by (simp add: closed_range_def)
      ultimately show ?thesis using r(2,4) least by blast
    next
      case ends
      let ?l = "ik_user (f_largest ?f)"
      have s: "bound_ok (Some ?l)" using file_users(2) [OF f(2)] by (simp add: bound_ok_def)
      have "beyond b (Some ?l) files < beyond b e files" by (rule beyond_end [OF assms(1) less.prems(2) f(1) ends(3,4)])
      then have m: "beyond b (Some ?l) files * (length files + 1) + (length files - 0) < beyond b e files * (length files + 1) + (length files - i)"
        using True by (rule restart_measure)
      have wider: "covers b (Some ?l) b e" using ends(3,4) lt_imp_le refl by (auto simp: covers_def split: option.splits)
      have least: "covers B E b (Some ?l)" if c: "closed_range files B E" and v: "covers B E b e" for B E
      proof -
        have "overlaps B E ?f" using covers_overlaps [OF v _ _ less.prems(1,2) f(2) ends(1)] c by (simp add: closed_range_def)
        then have w: "within B E ?f" using c f(1) by (simp add: closed_range_def)
        have "le ?l x" if "E = Some x" for x
          using w that c le_not_lt [of ?l x] file_users(2) [OF f(2)] by (simp add: within_def closed_range_def bound_ok_def)
        then show ?thesis using v ends(3) by (auto simp: covers_def split: option.splits)
      qed
      have "\<exists>b' e'. overlap_loop ucmp True files 0 b (Some ?l) [] = Some (filter (overlaps b' e') files) \<and> closed_range files b' e' \<and>
        covers b' e' b (Some ?l) \<and> (\<forall>B E. closed_range files B E \<and> covers B E b (Some ?l) \<longrightarrow> covers B E b' e')"
        by (rule less.hyps [OF m less.prems(1) s]) simp_all
      then obtain b' e' where r: "overlap_loop ucmp True files 0 b (Some ?l) [] = Some (filter (overlaps b' e') files)"
        "closed_range files b' e'" "covers b' e' b (Some ?l)" "\<forall>B E. closed_range files B E \<and> covers B E b (Some ?l) \<longrightarrow> covers B E b' e'"
        by (elim exE conjE)
      have "overlap_loop ucmp True files i b e inputs = Some (filter (overlaps b' e') files)" unfolding turn using ends r(1) by simp
      moreover have "covers b' e' b e" using covers_trans [OF r(3) wider] r(2) s less.prems(1,2) by (simp add: closed_range_def)
      ultimately show ?thesis using r(2,4) least by blast
    qed
  qed
qed

end

subsection \<open>Whether a file overlaps a range\<close>

text \<open>The search key that is not behind any internal key of a user key.\<close>

definition packed :: "slice \<Rightarrow> bool" where
  "packed ik \<longleftrightarrow> ik_num ik \<le> tag_num kMaxSequenceNumber kValueTypeForSeek"

lemma max_seek_key: "InternalKey_new k kMaxSequenceNumber kValueTypeForSeek = Some (mk_ikey k kMaxSequenceNumber kValueTypeForSeek)"
proof -
  have "unat kMaxSequenceNumber < 2 ^ 56" by (simp only: kMax_bits [symmetric] order_refl)
  then show ?thesis using AppendInternalKey_eq [of "\<lparr>pk_user_key = k, pk_sequence = kMaxSequenceNumber, pk_type = kValueTypeForSeek\<rparr>" "[]"]
    by (simp add: InternalKey_new_def)
qed

context version_keys
begin

lemma AfterFile_eq:
  assumes "file_ok f" and "bound_ok b"
  shows "AfterFile ucmp b f = Some (case b of None \<Rightarrow> False | Some x \<Rightarrow> lt (ik_user (f_largest f)) x)"
proof (cases b)
  case (Some x)
  then have g: "ugood x" "ugood (ik_user (f_largest f))" using assms file_users(2) by (auto simp: bound_ok_def)
  obtain r r' where r: "ucmp x (ik_user (f_largest f)) = Some r" "ucmp (ik_user (f_largest f)) x = Some r'" using cmp_total g by blast
  then show ?thesis using cmp_swap [OF g(2,1) r(2,1)] file_users(4) [OF assms(1)] Some by (simp add: AfterFile_def lt_def)
qed (simp add: AfterFile_def)

lemma BeforeFile_eq:
  assumes "file_ok f" and "bound_ok e"
  shows "BeforeFile ucmp e f = Some (case e of None \<Rightarrow> False | Some y \<Rightarrow> lt y (ik_user (f_smallest f)))"
proof (cases e)
  case (Some y)
  then have g: "ugood y" "ugood (ik_user (f_smallest f))" using assms file_users(1) by (auto simp: bound_ok_def)
  obtain r where r: "ucmp y (ik_user (f_smallest f)) = Some r" using cmp_total g by blast
  then show ?thesis using file_users(3) [OF assms(1)] Some by (simp add: BeforeFile_def lt_def)
qed (simp add: BeforeFile_def)

lemma any_overlap_eq:
  assumes "\<forall>f \<in> set files. file_ok f" and "bound_ok b" and "bound_ok e"
  shows "any_overlap ucmp b e files = Some (\<exists>f \<in> set files. overlaps b e f)"
  using assms(1)
  by (induction files) (auto simp: AfterFile_eq BeforeFile_eq assms(2,3) overlaps_def split: option.splits)

lemma seek_key_before:
  assumes "file_ok f" and "packed (f_largest f)" and "ugood k"
  shows "ik.lt (f_largest f) (mk_ikey k kMaxSequenceNumber kValueTypeForSeek) \<longleftrightarrow> lt (ik_user (f_largest f)) k"
  using assms icmp_lt [of "f_largest f" "mk_ikey k kMaxSequenceNumber kValueTypeForSeek"] by (auto simp: file_ok_def packed_def)

lemma smallest_increases:
  assumes "level_sorted files" and "i < j" and "j < length files"
  shows "le (ik_user (f_smallest (files ! i))) (ik_user (f_smallest (files ! j)))"
proof -
  have ok: "file_ok (files ! i)" "file_ok (files ! j)" using assms by (auto simp: level_sorted_def)
  have l: "ik.lt (f_largest (files ! i)) (f_smallest (files ! j))" using assms by (auto simp: level_sorted_def sorted_wrt_iff_nth_less)
  have "ik.lt (f_smallest (files ! i)) (f_smallest (files ! j))" using ik.le_lt_trans [OF _ _ _ _ l] ok unfolding file_ok_def by blast
  then have "lt (ik_user (f_smallest (files ! i))) (ik_user (f_smallest (files ! j))) \<or> eqv (ik_user (f_smallest (files ! i))) (ik_user (f_smallest (files ! j)))"
    using icmp_lt ok unfolding file_ok_def by blast
  then show ?thesis using lt_imp_le by (auto simp: eqv_def le_def)
qed

lemma overlap_search:
  assumes "level_sorted files" and "\<forall>f \<in> set files. packed (f_largest f)" and "bound_ok b" and "bound_ok e"
  shows "SomeFileOverlapsRange ucmp True files b e = Some (\<exists>f \<in> set files. overlaps b e f)"
proof -
  have ok: "\<forall>f \<in> set files. file_ok f" and len: "length files < 2 ^ 31" using assms(1) by (auto simp: level_sorted_def)
  define n where "n = (case b of None \<Rightarrow> 0 | Some k \<Rightarrow> seek_pos ik.lt (file_index files) (mk_ikey k kMaxSequenceNumber kValueTypeForSeek))"
  have n: "n \<le> length files"
    using seek_pos_le [of ik.lt "file_index files"] by (auto simp: n_def split: option.split)
  have after: "(case b of None \<Rightarrow> False | Some x \<Rightarrow> lt (ik_user (f_largest (files ! i))) x) \<longleftrightarrow> i < n" if i: "i < length files" for i
  proof (cases b)
    case (Some k)
    then have k: "ugood k" using assms(3) by (simp add: bound_ok_def)
    have "lt (ik_user (f_largest (files ! i))) k \<longleftrightarrow> ik.lt (f_largest (files ! i)) (mk_ikey k kMaxSequenceNumber kValueTypeForSeek)"
      using seek_key_before [of "files ! i" k] ok assms(2) k i by simp
    also have "\<dots> \<longleftrightarrow> i < n"
      using ik.seek_pos_iff [OF level_sorted_largest [OF assms(1)] index_good [OF ok], of "mk_ikey k kMaxSequenceNumber kValueTypeForSeek" i] k i
      by (simp add: n_def Some)
    finally show ?thesis by (simp add: Some)
  qed (simp add: n_def)
  have search: "(case b of None \<Rightarrow> Some 0
      | Some k \<Rightarrow> do { small \<leftarrow> InternalKey_new k kMaxSequenceNumber kValueTypeForSeek; s \<leftarrow> InternalKey_Encode small; FindFile ucmp files s })
    = Some (of_nat n) \<and> unat (of_nat n :: 32 word) = n"
  proof (cases b)
    case (Some k)
    then have g: "internal_good ugood (mk_ikey k kMaxSequenceNumber kValueTypeForSeek)" using assms(3) by (simp add: bound_ok_def)
    then show ?thesis using max_seek_key [of k] FindFile_finds [OF assms(1) g] good_encode [OF g] Some by (simp add: n_def)
  qed (simp add: n_def)
  have no: "\<not> overlaps b e (files ! i)" if "i < n" for i using after [of i] that n by (auto simp: overlaps_def split: option.splits)
  show ?thesis
  proof (cases "n < length files")
    case False
    then have "\<not> (\<exists>f \<in> set files. overlaps b e f)" using no n by (auto simp: in_set_conv_nth)
    then show ?thesis using False search by (simp add: SomeFileOverlapsRange_def)
  next
    case True
    let ?f = "files ! n"
    have f: "file_ok ?f" using ok True by simp
    have "overlaps b e ?f \<longleftrightarrow> \<not> (case e of None \<Rightarrow> False | Some y \<Rightarrow> lt y (ik_user (f_smallest ?f)))"
      using after [OF True] by (auto simp: overlaps_def split: option.splits)
    moreover have "overlaps b e ?f" if j: "j < length files" "overlaps b e (files ! j)" for j
    proof -
      have "n \<le> j" using no j not_le by blast
      then have "n = j \<or> le (ik_user (f_smallest ?f)) (ik_user (f_smallest (files ! j)))"
        using smallest_increases [OF assms(1), of n j] j(1) by (auto simp: le_less)
      moreover have g: "ugood (ik_user (f_smallest ?f))" "ugood (ik_user (f_smallest (files ! j)))" using file_users(1) ok True j(1) by simp_all
      moreover have "\<not> lt y (ik_user (f_smallest (files ! j)))" "ugood y" if "e = Some y" for y
        using j(2) assms(4) that by (simp_all add: overlaps_def bound_ok_def)
      ultimately have "\<not> lt y (ik_user (f_smallest ?f))" if "e = Some y" for y
        using lt_le_trans [OF _ g, of y] that by blast
      then have "\<not> (case e of None \<Rightarrow> False | Some y \<Rightarrow> lt y (ik_user (f_smallest ?f)))" by (simp split: option.split)
      then show ?thesis using after [OF True] by (auto simp: overlaps_def split: option.splits)
    qed
    ultimately have "(\<exists>f \<in> set files. overlaps b e f) \<longleftrightarrow> \<not> (case e of None \<Rightarrow> False | Some y \<Rightarrow> lt y (ik_user (f_smallest ?f)))"
      using nth_mem [OF True] by (metis in_set_conv_nth)
    then show ?thesis using True search BeforeFile_eq [OF f assms(4)] by (simp add: SomeFileOverlapsRange_def)
  qed
qed

end

subsection \<open>The theorems about ranges\<close>

text \<open>C37: whether a file overlaps a range is decided exactly. For the files of level 0 by looking at all of them,
  for the disjoint sorted files of another level by a binary search and one comparison, \<open>SomeFileOverlapsRange\<close> tells
  whether some file has a user key range that meets the given one, whose ends may be open.\<close>

theorem some_file_overlaps_exact:
  assumes "version_keys ucmp ugood" and "\<forall>f \<in> set files. version_keys.file_ok ucmp ugood f"
    and "disjoint_sorted \<longrightarrow> version_keys.level_sorted ucmp ugood files \<and> (\<forall>f \<in> set files. packed (f_largest f))"
    and "\<forall>x. b = Some x \<or> e = Some x \<longrightarrow> ugood x"
  shows "SomeFileOverlapsRange ucmp disjoint_sorted files b e = Some (\<exists>f \<in> set files. version_keys.overlaps ucmp b e f)"
proof -
  have ok: "version_keys.bound_ok ugood b" "version_keys.bound_ok ugood e"
    using assms(4) by (simp_all add: version_keys.bound_ok_def [OF assms(1)])
  show ?thesis
  proof (cases disjoint_sorted)
    case True
    then show ?thesis using version_keys.overlap_search [OF assms(1) _ _ ok] assms(3) by simp
  next
    case False
    then show ?thesis using version_keys.any_overlap_eq [OF assms(1,2) ok] by (simp add: SomeFileOverlapsRange_def)
  qed
qed

text \<open>C38: collecting the files that overlap a range returns, and on level 0 what it collects is closed. On another level
  \<open>GetOverlappingInputs\<close> returns the files that overlap the range; on level 0, where adding a file can widen the range and
  starts the search again, it ends with the least wider range in which every file that overlaps lies, and returns the
  files in it: no file that is left out shares a user key with them.\<close>

theorem overlapping_inputs_closed:
  assumes "version_keys ucmp ugood" and "level < length (v_files v)" and "\<forall>f \<in> set (v_files v ! level). version_keys.file_ok ucmp ugood f"
    and "\<forall>x. b = Some x \<or> e = Some x \<longrightarrow> internal_good ugood x"
  defines "b0 \<equiv> map_option ik_user b" and "e0 \<equiv> map_option ik_user e" and "files \<equiv> v_files v ! level"
  shows "\<exists>b' e'. GetOverlappingInputs ucmp level b e v = Some (filter (version_keys.overlaps ucmp b' e') files) \<and>
    version_keys.covers ucmp b' e' b0 e0 \<and>
    (if 0 < level then b' = b0 \<and> e' = e0
     else version_keys.closed_range ucmp ugood files b' e' \<and>
       (\<forall>B E. version_keys.closed_range ucmp ugood files B E \<and> version_keys.covers ucmp B E b0 e0 \<longrightarrow> version_keys.covers ucmp B E b' e'))"
proof -
  note V = assms(1)
  have users: "user_bound x = Some (map_option ik_user x)" if "\<forall>y. x = Some y \<longrightarrow> internal_good ugood y" for x
    using that by (auto simp: user_bound_def InternalKey_user_key_def ExtractUserKey_def internal_good_def ik_user_def split: option.split)
  have ok: "version_keys.bound_ok ugood b0" "version_keys.bound_ok ugood e0"
    using assms(4) by (auto simp: b0_def e0_def version_keys.bound_ok_def [OF V] internal_good_def)
  have g: "GetOverlappingInputs ucmp level b e v = overlap_loop ucmp (level = 0) files 0 b0 e0 []"
    using assms(2,4) users [of b] users [of e] by (simp add: GetOverlappingInputs_def b0_def e0_def files_def)
  have files: "\<forall>f \<in> set files. version_keys.file_ok ucmp ugood f" using assms(3) by (simp add: files_def)
  show ?thesis
  proof (cases "level = 0")
    case True
    have "\<exists>b' e'. overlap_loop ucmp True files 0 b0 e0 [] = Some (filter (version_keys.overlaps ucmp b' e') files) \<and>
      version_keys.closed_range ucmp ugood files b' e' \<and> version_keys.covers ucmp b' e' b0 e0 \<and>
      (\<forall>B E. version_keys.closed_range ucmp ugood files B E \<and> version_keys.covers ucmp B E b0 e0 \<longrightarrow> version_keys.covers ucmp B E b' e')"
      by (rule version_keys.overlap_loop_level0 [OF V files ok]) simp_all
    then show ?thesis using True g by auto
  next
    case False
    have "version_keys.covers ucmp b0 e0 b0 e0" using version_keys.covers_refl [OF V ok] .
    then show ?thesis using False g version_keys.overlap_loop_sorted [OF V files ok] by auto
  qed
qed

subsection \<open>Examples\<close>

definition range_file :: "64 word \<Rightarrow> byte \<Rightarrow> byte \<Rightarrow> FileMetaData" where
  "range_file n a b = FileMetaData_new n 100 (mk_ikey [a] 9 kTypeValue) (mk_ikey [b] 3 kTypeValue)"

lemma range_keys:
  "comparator.lt (InternalKeyCompare Bytewise_Compare) (mk_ikey [b] 3 kTypeValue) (mk_ikey [a] 9 kTypeValue) \<longleftrightarrow> b < a"
  by (auto simp: bytewise.icmp_lt bytewise_lt tag_num_def bytewise.eqv_def Bytewise_Compare_def slice_compare_spec)

lemma range_file_ok: "a \<le> b \<Longrightarrow> bytewise_versions.file_ok (range_file n a b)"
  using range_keys [of b a] comparator.le_not_lt [OF bytewise.internal_comparator, of "mk_ikey [a] 9 kTypeValue" "mk_ikey [b] 3 kTypeValue"]
  by (simp add: bytewise_versions.file_ok_def range_file_def FileMetaData_new_def)

definition range_files :: "FileMetaData list" where
  "range_files = [range_file 1 97 99, range_file 2 101 103, range_file 3 120 122]"

lemma range_files_ok: "\<forall>f \<in> set range_files. bytewise_versions.file_ok f"
  using range_file_ok by (simp add: range_files_def)

lemma range_files_sorted: "bytewise_versions.level_sorted range_files" "\<forall>f \<in> set range_files. packed (f_largest f)"
proof -
  show "bytewise_versions.level_sorted range_files"
    using range_files_ok range_keys by (simp add: bytewise_versions.level_sorted_def range_files_def range_file_def FileMetaData_new_def)
  show "\<forall>f \<in> set range_files. packed (f_largest f)"
    by (simp add: range_files_def range_file_def FileMetaData_new_def packed_def tag_num_def kMaxSequenceNumber_def kValueTypeForSeek_def)
qed

theorem some_file_overlaps_exact_witness:
  "SomeFileOverlapsRange Bytewise_Compare True range_files (Some [100]) (Some [100]) = Some False \<and>
   SomeFileOverlapsRange Bytewise_Compare True range_files (Some [100]) (Some [101]) = Some True"
proof -
  have "SomeFileOverlapsRange Bytewise_Compare True range_files (Some [100]) (Some x) =
      Some (\<exists>f \<in> set range_files. bytewise_versions.overlaps (Some [100]) (Some x) f)" for x
    by (rule some_file_overlaps_exact [OF bytewise_versions.version_keys_axioms range_files_ok]) (use range_files_sorted in simp_all)
  then show ?thesis
    by (simp add: range_files_def range_file_def FileMetaData_new_def bytewise_versions.overlaps_def bytewise_lt)
qed

text \<open>The second file is found through the first.\<close>

definition chained_version :: Version where
  "chained_version = Version_new\<lparr>v_files := [[range_file 1 97 99, range_file 2 98 110, range_file 3 120 122], [], [], [], [], [], []]\<rparr>"

theorem overlapping_inputs_closed_witness:
  "\<exists>b' e'. GetOverlappingInputs Bytewise_Compare 0 (Some (mk_ikey [97] 1 kTypeValue)) (Some (mk_ikey [97] 1 kTypeValue)) chained_version =
      Some (filter (bytewise_versions.overlaps b' e') (v_files chained_version ! 0)) \<and>
    bytewise_versions.closed_range (v_files chained_version ! 0) b' e'"
proof -
  have "\<forall>f \<in> set (v_files chained_version ! 0). bytewise_versions.file_ok f" "0 < length (v_files chained_version)"
    using range_file_ok by (simp_all add: chained_version_def)
  from overlapping_inputs_closed [OF bytewise_versions.version_keys_axioms this(2,1),
      of "Some (mk_ikey [97] 1 kTypeValue)" "Some (mk_ikey [97] 1 kTypeValue)"]
  show ?thesis by auto
qed

subsection \<open>The level of a new file\<close>

text \<open>A maximal file size that the options of a database may have makes the limits overflow.\<close>

lemma compaction_limits_overflow:
  assumes "op_max_file_size options = 2 ^ 28"
  shows "op_max_file_size (SanitizeOptions icmp ipolicy options) = 2 ^ 28" and "MaxGrandParentOverlapBytes options = None"
    and "ExpandedCompactionByteSizeLimit options = None"
  using assms
  by (simp_all add: SanitizeOptions_def ClipSizeToRange_def MaxGrandParentOverlapBytes_def ExpandedCompactionByteSizeLimit_def
      TargetFileSize_def int_value_def)

context version_keys
begin

definition free_of :: "slice \<Rightarrow> slice \<Rightarrow> FileMetaData list \<Rightarrow> bool" where
  "free_of smallest largest files \<longleftrightarrow> (\<forall>f \<in> set files. \<not> overlaps (Some smallest) (Some largest) f)"

definition levels_ok :: "FileMetaData list list \<Rightarrow> bool" where
  "levels_ok levels \<longleftrightarrow> length levels = kNumLevels \<and>
     (\<forall>i < length levels. (\<forall>f \<in> set (levels ! i). file_ok f) \<and>
       (0 < i \<longrightarrow> level_sorted (levels ! i) \<and> (\<forall>f \<in> set (levels ! i). packed (f_largest f))))"

lemma OverlapInLevel_eq:
  assumes "levels_ok (v_files v)" and "ugood smallest" and "ugood largest" and "i < kNumLevels"
  shows "OverlapInLevel ucmp i (Some smallest) (Some largest) v = Some (\<not> free_of smallest largest (v_files v ! i))"
proof -
  have b: "bound_ok (Some smallest)" "bound_ok (Some largest)" using assms(2,3) by (simp_all add: bound_ok_def)
  have i: "i < length (v_files v)" "\<forall>f \<in> set (v_files v ! i). file_ok f" using assms(1,4) by (simp_all add: levels_ok_def)
  show ?thesis
  proof (cases "i = 0")
    case True
    then show ?thesis using any_overlap_eq [OF i(2) b] i(1) by (simp add: OverlapInLevel_def SomeFileOverlapsRange_def free_of_def)
  next
    case False
    then have "level_sorted (v_files v ! i)" "\<forall>f \<in> set (v_files v ! i). packed (f_largest f)" using assms(1) i(1) by (simp_all add: levels_ok_def)
    from overlap_search [OF this b] show ?thesis using i(1) False by (simp add: OverlapInLevel_def free_of_def)
  qed
qed

lemma push_down_free:
  assumes "levels_ok (v_files v)" and "ugood smallest" and "ugood largest" and "level + 1 < kNumLevels"
    and "MaxGrandParentOverlapBytes options = Some limit"
  shows "\<exists>p. push_down ucmp options smallest largest level v = Some p \<and> (p \<longrightarrow> free_of smallest largest (v_files v ! (level + 1)))"
proof -
  let ?start = "mk_ikey smallest kMaxSequenceNumber kValueTypeForSeek" and ?limit = "mk_ikey largest 0 kTypeDeletion"
  have k: "InternalKey_new largest 0 kTypeDeletion = Some ?limit"
    using AppendInternalKey_eq [of "\<lparr>pk_user_key = largest, pk_sequence = 0, pk_type = kTypeDeletion\<rparr>" "[]"] by (simp add: InternalKey_new_def)
  have b: "bound_ok (Some smallest)" "bound_ok (Some largest)" using assms(2,3) by (simp_all add: bound_ok_def)
  have g: "\<exists>fs. GetOverlappingInputs ucmp (level + 2) (Some ?start) (Some ?limit) v = Some fs" if "level + 2 < kNumLevels"
  proof -
    have l: "level + 2 < length (v_files v)" using that assms(1) by (simp add: levels_ok_def)
    then have f: "\<forall>f \<in> set (v_files v ! (level + 2)). file_ok f" using assms(1) by (simp add: levels_ok_def)
    have "GetOverlappingInputs ucmp (level + 2) (Some ?start) (Some ?limit) v =
        overlap_loop ucmp False (v_files v ! (level + 2)) 0 (Some smallest) (Some largest) []"
      using l by (simp add: GetOverlappingInputs_def user_bound_def InternalKey_user_key_def)
    then show ?thesis using overlap_loop_sorted [OF f b, of 0] by simp
  qed
  show ?thesis using OverlapInLevel_eq [OF assms(1-4)] g assms(5)
    by (auto simp: push_down_def max_seek_key k)
qed

lemma pick_level_free:
  assumes "levels_ok (v_files v)" and "ugood smallest" and "ugood largest" and "MaxGrandParentOverlapBytes options = Some limit"
    and "level \<le> kMaxMemCompactLevel" and "\<forall>j \<le> level. free_of smallest largest (v_files v ! j)"
  shows "\<exists>l. pick_level_loop ucmp options smallest largest level v = Some l \<and> l \<le> kMaxMemCompactLevel \<and>
    (\<forall>j \<le> l. free_of smallest largest (v_files v ! j))"
  using assms(5,6)
proof (induction "kMaxMemCompactLevel - level" arbitrary: level)
  case 0
  then show ?case by (subst pick_level_loop.simps) simp
next
  case (Suc n)
  then have l: "level < kMaxMemCompactLevel" by simp
  then have "level + 1 < kNumLevels" by (simp add: kMaxMemCompactLevel_def kNumLevels_def)
  from push_down_free [OF assms(1-3) this assms(4)] obtain p where
    p: "push_down ucmp options smallest largest level v = Some p" "p \<longrightarrow> free_of smallest largest (v_files v ! (level + 1))" by blast
  show ?case
  proof (cases p)
    case True
    have "\<forall>j \<le> level + 1. free_of smallest largest (v_files v ! j)" using Suc.prems(2) p(2) True by (auto simp: le_Suc_eq)
    then have "\<exists>l. pick_level_loop ucmp options smallest largest (level + 1) v = Some l \<and> l \<le> kMaxMemCompactLevel \<and>
        (\<forall>j \<le> l. free_of smallest largest (v_files v ! j))"
      using Suc.hyps l by (intro Suc.hyps(1)) simp_all
    then show ?thesis using l p(1) True by (subst pick_level_loop.simps) simp
  next
    case False
    then show ?thesis using l p(1) Suc.prems by (subst pick_level_loop.simps) simp
  qed
qed

end



end
