(* ===== verification/Ldb_Version_Get.thy ===== *)
theory Ldb_Version_Get
  imports Ldb_Version_Correct Ldb_Table_Correct
begin

text \<open>
  Lookups in a version. The files of a version hold sorted entries, newer entries of a user key are in files
  that are searched earlier, and the table cache answers as tables do; then \<open>Version::Get\<close> returns the newest
  entry of the user key that the lookup may see.
\<close>

locale version_lookup = version_keys +
  assumes exact: "ugood a \<Longrightarrow> ugood b \<Longrightarrow> eqv a b \<Longrightarrow> a = b"

interpretation bytewise_versions: version_lookup Bytewise_Compare "\<lambda>_. True"
  by unfold_locales (auto simp: bytewise.eqv_def Bytewise_Compare_def slice_compare_spec split: if_splits)

subsection \<open>What the files hold\<close>

definition visible :: "slice \<Rightarrow> (slice \<times> slice) set \<Rightarrow> (slice \<times> slice) set" where
  "visible ikey E = {e \<in> E. ik_user (fst e) = ik_user ikey \<and> ik_num (fst e) \<le> ik_num ikey}"

definition newest :: "(slice \<times> slice) \<Rightarrow> (slice \<times> slice) set \<Rightarrow> bool" where
  "newest e V \<longleftrightarrow> e \<in> V \<and> (\<forall>e' \<in> V. ik_num (fst e') \<le> ik_num (fst e))"

definition NotFound_status :: Status where
  "NotFound_status = the (Status_NotFound [] [])"

lemma NotFound_some: "Status_NotFound [] [] = Some NotFound_status"
  unfolding NotFound_status_def by (simp add: Status_NotFound_def Status_new_def Let_def)

text \<open>The status and the value that an entry stands for.\<close>

definition entry_answer :: "slice \<Rightarrow> slice \<times> slice \<Rightarrow> Status \<times> slice" where
  "entry_answer val e = (case ParseInternalKey (fst e) of
     Some p \<Rightarrow> if pk_type p = kTypeValue then (Status_OK, snd e) else (NotFound_status, val)
   | None \<Rightarrow> (NotFound_status, val))"

text \<open>The answer to a lookup among the visible entries.\<close>

definition answers :: "slice \<Rightarrow> (slice \<times> slice) set \<Rightarrow> Status \<Rightarrow> slice \<Rightarrow> bool" where
  "answers val V s val' \<longleftrightarrow>
     (if V = {} then (s, val') = (NotFound_status, val) else \<exists>e. newest e V \<and> (s, val') = entry_answer val e)"

text \<open>The entries of the first list are newer than those of the second.\<close>

definition newer :: "(slice \<times> slice) list \<Rightarrow> (slice \<times> slice) list \<Rightarrow> bool" where
  "newer es es' \<longleftrightarrow> (\<forall>e \<in> set es. \<forall>e' \<in> set es'. ik_user (fst e) = ik_user (fst e') \<longrightarrow> ik_num (fst e') < ik_num (fst e))"

context version_lookup
begin

definition holds_entries :: "(64 word \<Rightarrow> (slice \<times> slice) list) \<Rightarrow> FileMetaData \<Rightarrow> bool" where
  "holds_entries contents f \<longleftrightarrow> (let es = contents (f_number f) in
     es \<noteq> [] \<and> sorted_wrt ik.lt (map fst es) \<and> (\<forall>e \<in> set es. internal_good ugood (fst e) \<and> ParseInternalKey (fst e) \<noteq> None) \<and>
     f_smallest f = fst (hd es) \<and> f_largest f = fst (last es))"

text \<open>What a lookup in a table is known to do.\<close>

definition table_reads ::
  "(64 word \<Rightarrow> 64 word \<Rightarrow> slice \<Rightarrow> (Status \<times> (slice \<times> slice) option) option) \<Rightarrow> (64 word \<Rightarrow> (slice \<times> slice) list) \<Rightarrow>
     FileMetaData \<Rightarrow> bool" where
  "table_reads table_get contents f \<longleftrightarrow> (\<forall>ikey. internal_good ugood ikey \<longrightarrow>
     (\<exists>saved. table_get (f_number f) (f_file_size f) ikey = Some (Status_OK, saved) \<and>
       (let es = contents (f_number f); n = seek_pos ik.lt es ikey in
         (saved = None \<or> n < length es \<and> saved = Some (es ! n)) \<and>
         (n < length es \<and> ik_user (fst (es ! n)) = ik_user ikey \<longrightarrow> saved = Some (es ! n)))))"

lemma ik_lt_iff:
  assumes "internal_good ugood a" and "internal_good ugood b"
  shows "ik.lt a b \<longleftrightarrow> lt (ik_user a) (ik_user b) \<or> ik_user a = ik_user b \<and> ik_num b < ik_num a"
proof -
  have g: "ugood (ik_user a)" "ugood (ik_user b)" using assms by (simp_all add: internal_good_def)
  have "eqv (ik_user a) (ik_user b) \<longleftrightarrow> ik_user a = ik_user b" using exact [OF g] eqv_refl [OF g(1)] by metis
  then show ?thesis using icmp_lt [OF assms] by simp
qed

lemma entries:
  assumes "holds_entries contents f"
  shows "contents (f_number f) \<noteq> []" "sorted_wrt ik.lt (map fst (contents (f_number f)))"
    "\<forall>e \<in> set (contents (f_number f)). internal_good ugood (fst e)" "\<forall>e \<in> set (contents (f_number f)). ParseInternalKey (fst e) \<noteq> None"
    "f_smallest f = fst (hd (contents (f_number f)))" "f_largest f = fst (last (contents (f_number f)))"
  using assms unfolding holds_entries_def Let_def by blast+

text \<open>The first entry that is not before the search key is the newest visible one, if there is any.\<close>

lemma first_is_newest:
  assumes "sorted_wrt ik.lt (map fst es)" and "\<forall>e \<in> set es. internal_good ugood (fst e)" and "internal_good ugood ikey"
  defines "n \<equiv> seek_pos ik.lt es ikey"
  shows "if n < length es \<and> ik_user (fst (es ! n)) = ik_user ikey then newest (es ! n) (visible ikey (set es)) else visible ikey (set es) = {}"
proof -
  have gi: "internal_good ugood (fst (es ! i))" if "i < length es" for i using assms(2) that by simp
  have U: "ugood (ik_user ikey)" using assms(3) by (simp add: internal_good_def)
  have at: "n < length es \<and> ik_user (fst (es ! n)) = ik_user ikey \<and> ik_num (fst e) \<le> ik_num (fst (es ! n))" if e: "e \<in> visible ikey (set es)" for e
  proof -
    obtain i where i: "i < length es" "es ! i = e" using e by (auto simp: visible_def in_set_conv_nth)
    have eu: "ik_user (fst e) = ik_user ikey" "ik_num (fst e) \<le> ik_num ikey" using e by (simp_all add: visible_def)
    have "\<not> ik.lt (fst (es ! i)) ikey" using ik_lt_iff [OF gi [OF i(1)] assms(3)] lt_irrefl [OF U] eu i(2) by auto
    then have ni: "n \<le> i" using ik.seek_pos_iff [OF assms(1) _ assms(3) i(1)] assms(2) unfolding n_def by force
    then have nl: "n < length es" using i(1) by simp
    have ge: "\<not> ik.lt (fst (es ! n)) ikey" unfolding n_def by (rule seek_pos_at) (use nl in \<open>simp add: n_def\<close>)
    have "n = i \<or> ik.lt (fst (es ! n)) (fst (es ! i))" using assms(1) ni i(1) by (auto simp: sorted_wrt_iff_nth_less le_less)
    then have le: "n = i \<or> lt (ik_user (fst (es ! n))) (ik_user (fst e)) \<or> ik_user (fst (es ! n)) = ik_user (fst e) \<and> ik_num (fst e) < ik_num (fst (es ! n))"
      using ik_lt_iff [OF gi [OF nl] gi [OF i(1)]] i(2) by simp
    moreover have "\<not> lt (ik_user (fst (es ! n))) (ik_user ikey)" using ge ik_lt_iff [OF gi [OF nl] assms(3)] by blast
    ultimately show ?thesis using nl i(2) eu(1) by auto
  qed
  show ?thesis
  proof (cases "n < length es \<and> ik_user (fst (es ! n)) = ik_user ikey")
    case True
    have "\<not> ik.lt (fst (es ! n)) ikey" unfolding n_def by (rule seek_pos_at) (use True in \<open>simp add: n_def\<close>)
    then have "ik_num (fst (es ! n)) \<le> ik_num ikey" using ik_lt_iff [OF gi assms(3), of n] True by auto
    then have "es ! n \<in> visible ikey (set es)" using True by (simp add: visible_def)
    then show ?thesis using True at by (auto simp: newest_def)
  next
    case False
    then have "visible ikey (set es) = {}" using at by blast
    then show ?thesis unfolding if_not_P [OF False] .
  qed
qed

lemma Parse_user: "ParseInternalKey k = Some p \<Longrightarrow> pk_user_key p = ik_user k"
  by (auto simp: ParseInternalKey_def ik_user_def Let_def split: if_splits bind_splits)

text \<open>One file.\<close>

lemma get_in_file_answers:
  assumes "holds_entries contents f" and "table_reads table_get contents f" and "internal_good ugood ikey"
  defines "V \<equiv> visible ikey (set (contents (f_number f)))"
  shows "\<exists>r st'. get_in_file ucmp table_get (ik_user ikey) ikey level f st = Some (r, st') \<and>
    (if V = {} then r = None \<and> gs_value st' = gs_value st
     else \<exists>e. newest e V \<and> r = Some (fst (entry_answer (gs_value st) e)) \<and> gs_value st' = snd (entry_answer (gs_value st) e))"
proof -
  let ?es = "contents (f_number f)"
  define n where "n = seek_pos ik.lt ?es ikey"
  obtain saved where saved: "table_get (f_number f) (f_file_size f) ikey = Some (Status_OK, saved)"
    "saved = None \<or> n < length ?es \<and> saved = Some (?es ! n)"
    "n < length ?es \<and> ik_user (fst (?es ! n)) = ik_user ikey \<longrightarrow> saved = Some (?es ! n)"
    using assms(2,3) unfolding table_reads_def Let_def n_def by blast
  note first = first_is_newest [OF entries(2,3) [OF assms(1)] assms(3), folded n_def V_def]
  have U: "ugood (ik_user ikey)" using assms(3) by (simp add: internal_good_def)
  show ?thesis
  proof (cases "n < length ?es \<and> ik_user (fst (?es ! n)) = ik_user ikey")
    case True
    then have s: "saved = Some (?es ! n)" and e: "newest (?es ! n) V" "?es ! n \<in> set ?es" using saved(3) first by simp_all
    obtain p where p: "ParseInternalKey (fst (?es ! n)) = Some p" using entries(4) [OF assms(1)] e(2) by auto
    have "ucmp (pk_user_key p) (ik_user ikey) = Some 0" using Parse_user [OF p] True eqv_refl [OF U] by (simp add: eqv_def)
    moreover have "V \<noteq> {}" using e(1) by (auto simp: newest_def)
    moreover have "\<exists>st'. get_in_file ucmp table_get (ik_user ikey) ikey level f st = Some (Some (fst (entry_answer (gs_value st) (?es ! n))), st') \<and>
        gs_value st' = snd (entry_answer (gs_value st) (?es ! n))"
      using p calculation(1)
      by (cases "?es ! n"; cases "pk_type p") (simp_all add: get_in_file_def saved(1) s SaveValue_def entry_answer_def NotFound_some Let_def)
    ultimately show ?thesis using e(1) by (auto simp del: split_paired_Ex split_paired_All)
  next
    case False
    then have V: "V = {}" using first by simp
    show ?thesis
    proof (cases saved)
      case None
      then show ?thesis using V by (simp add: get_in_file_def saved(1) Let_def)
    next
      case (Some e)
      then have e: "n < length ?es" "e = ?es ! n" using saved(2) by auto
      then have m: "e \<in> set ?es" by simp
      obtain p where p: "ParseInternalKey (fst e) = Some p" using entries(4) [OF assms(1)] m by auto
      have G: "ugood (ik_user (fst e))" using entries(3) [OF assms(1)] m by (simp add: internal_good_def)
      obtain c where c: "ucmp (ik_user (fst e)) (ik_user ikey) = Some c" using cmp_total [OF G U] by blast
      have "c \<noteq> 0" using exact [OF G U] c False e by (auto simp: eqv_def)
      then show ?thesis using V p c Parse_user [OF p]
        by (cases e) (simp add: get_in_file_def saved(1) Some SaveValue_def Let_def)
    qed
  qed
qed

end

subsection \<open>The files of a level\<close>

definition shown :: "(64 word \<Rightarrow> (slice \<times> slice) list) \<Rightarrow> slice \<Rightarrow> FileMetaData \<Rightarrow> (slice \<times> slice) set" where
  "shown contents ikey f = visible ikey (set (contents (f_number f)))"

lemma set_newest_first [simp]: "set (newest_first files) = set files"
  by (simp add: newest_first_def)

context version_lookup
begin

lemma ik_not_lt:
  assumes "internal_good ugood a" and "internal_good ugood b" and "\<not> ik.lt b a"
  shows "lt (ik_user a) (ik_user b) \<or> ik_user a = ik_user b \<and> ik_num b \<le> ik_num a"
proof -
  have g: "ugood (ik_user a)" "ugood (ik_user b)" using assms(1,2) by (simp_all add: internal_good_def)
  show ?thesis using assms(3) ik_lt_iff [OF assms(2,1)] cmp_cases [OF g] exact [OF g] by auto
qed

lemma entry_between:
  assumes "holds_entries contents f" and "e \<in> set (contents (f_number f))"
  shows "internal_good ugood (fst e)" and "\<not> ik.lt (fst e) (f_smallest f)" and "\<not> ik.lt (f_largest f) (fst e)"
proof -
  let ?es = "contents (f_number f)"
  note h = entries [OF assms(1)]
  obtain i where i: "i < length ?es" "?es ! i = e" using assms(2) by (auto simp: in_set_conv_nth)
  have ends: "f_smallest f = fst (?es ! 0)" "f_largest f = fst (?es ! (length ?es - 1))"
    using h(1,5,6) by (simp_all add: hd_conv_nth last_conv_nth)
  have g: "internal_good ugood (fst (?es ! j))" if "j < length ?es" for j using h(3) that by simp
  have lt: "ik.lt (fst (?es ! a)) (fst (?es ! b))" if "a < b" "b < length ?es" for a b
    using h(2) that by (auto simp: sorted_wrt_iff_nth_less)
  have le: "\<not> ik.lt (fst (?es ! b)) (fst (?es ! a))" if "a \<le> b" "b < length ?es" for a b
  proof (cases "a = b")
    case True
    then show ?thesis using ik.lt_irrefl [OF g] that by simp
  next
    case False
    then have "ik.lt (fst (?es ! a)) (fst (?es ! b))" using lt that by simp
    then show ?thesis using ik.lt_trans [of "fst (?es ! a)" "fst (?es ! b)" "fst (?es ! a)"] ik.lt_irrefl g that by force
  qed
  show "internal_good ugood (fst e)" using g [OF i(1)] i(2) by simp
  show "\<not> ik.lt (fst e) (f_smallest f)" using le [of 0 i] i ends(1) by simp
  show "\<not> ik.lt (f_largest f) (fst e)" using le [of i "length ?es - 1"] i ends(2) by simp
qed

lemma bounds_are_entries:
  assumes "holds_entries contents f"
  shows "hd (contents (f_number f)) \<in> set (contents (f_number f))" and "last (contents (f_number f)) \<in> set (contents (f_number f))"
  using entries(1) [OF assms] by simp_all

lemma holds_file_ok: "holds_entries contents f \<Longrightarrow> file_ok f"
proof -
  assume h: "holds_entries contents f"
  note b = bounds_are_entries [OF h]
  have g: "internal_good ugood (f_smallest f)" "internal_good ugood (f_largest f)" "\<not> ik.lt (f_largest f) (f_smallest f)"
    using entry_between [OF h b(1)] entry_between [OF h b(2)] entries(5,6) [OF h] by simp_all
  then show ?thesis using ik.le_not_lt [OF g(1,2)] by (simp add: file_ok_def)
qed

lemma shown_range:
  assumes "holds_entries contents f" and "internal_good ugood ikey" and "shown contents ikey f \<noteq> {}"
  shows "\<not> lt (ik_user ikey) (ik_user (f_smallest f))" and "\<not> lt (ik_user (f_largest f)) (ik_user ikey)" and "\<not> ik.lt (f_largest f) ikey"
proof -
  obtain e where e: "e \<in> set (contents (f_number f))" "ik_user (fst e) = ik_user ikey" "ik_num (fst e) \<le> ik_num ikey"
    using assms(3) by (auto simp: shown_def visible_def)
  note b = entry_between [OF assms(1) e(1)] and ok = holds_file_ok [OF assms(1)]
  have g: "internal_good ugood (f_smallest f)" "internal_good ugood (f_largest f)" using ok by (simp_all add: file_ok_def)
  have U: "ugood (ik_user ikey)" "ugood (ik_user (f_smallest f))" "ugood (ik_user (f_largest f))" using g assms(2) by (simp_all add: internal_good_def)
  have s: "lt (ik_user (f_smallest f)) (ik_user ikey) \<or> ik_user (f_smallest f) = ik_user ikey" using ik_not_lt [OF g(1) b(1,2)] e(2) by auto
  show "\<not> lt (ik_user ikey) (ik_user (f_smallest f))"
  proof
    assume "lt (ik_user ikey) (ik_user (f_smallest f))"
    then show False using s lt_trans [OF U(2,1,2)] lt_irrefl [OF U(2)] by metis
  qed
  have l: "lt (ik_user ikey) (ik_user (f_largest f)) \<or> ik_user ikey = ik_user (f_largest f) \<and> ik_num (f_largest f) \<le> ik_num ikey"
    using ik_not_lt [OF b(1) g(2) b(3)] e(2,3) by auto
  show n: "\<not> lt (ik_user (f_largest f)) (ik_user ikey)"
  proof
    assume "lt (ik_user (f_largest f)) (ik_user ikey)"
    then show False using l lt_trans [OF U(3,1,3)] lt_irrefl [OF U(3)] by metis
  qed
  show "\<not> ik.lt (f_largest f) ikey"
  proof
    assume "ik.lt (f_largest f) ikey"
    then have "ik_user (f_largest f) = ik_user ikey" "ik_num ikey < ik_num (f_largest f)" using n ik_lt_iff [OF g(2) assms(2)] by blast+
    then show False using l lt_irrefl [OF U(1)] by auto
  qed
qed

lemma overlapping_files_eq:
  assumes "\<forall>f \<in> set files. file_ok f" and "ugood u"
  shows "overlapping_files ucmp u files =
    Some (filter (\<lambda>f. \<not> lt u (ik_user (f_smallest f)) \<and> \<not> lt (ik_user (f_largest f)) u) files)"
  using assms(1)
proof (induction files)
  case (Cons f files)
  then have ok: "file_ok f" by simp
  note g = file_users [OF ok]
  obtain c where c1: "ucmp u (ik_user (f_smallest f)) = Some c" using cmp_total [OF assms(2) g(1)] by blast
  obtain d where c2: "ucmp u (ik_user (f_largest f)) = Some d" using cmp_total [OF assms(2) g(2)] by blast
  obtain d' where c3: "ucmp (ik_user (f_largest f)) u = Some d'" using cmp_total [OF g(2) assms(2)] by blast
  note c = c1 c2 c3
  have "0 \<le> c \<longleftrightarrow> \<not> lt u (ik_user (f_smallest f))" using c(1) by (auto simp: lt_def)
  moreover have "d \<le> 0 \<longleftrightarrow> \<not> lt (ik_user (f_largest f)) u" using c(2,3) cmp_swap [OF g(2) assms(2) c(3,2)] by (auto simp: lt_def)
  ultimately show ?case using Cons c by (simp add: g(3,4))
qed simp

text \<open>What the lookup needs of a level: the entries of the files, and that files searched earlier are newer.\<close>

definition level_holds :: "(64 word \<Rightarrow> (slice \<times> slice) list) \<Rightarrow> nat \<Rightarrow> FileMetaData list \<Rightarrow> bool" where
  "level_holds contents level files \<longleftrightarrow> (\<forall>f \<in> set files. holds_entries contents f) \<and>
     (if level = 0 then \<forall>f \<in> set files. \<forall>g \<in> set files. f = g \<or> f_number g \<noteq> f_number f \<and>
          (f_number g < f_number f \<longrightarrow> newer (contents (f_number f)) (contents (f_number g)))
      else level_sorted files)"

text \<open>The first candidate with a visible entry has the newest one of the level.\<close>

definition finds_newest :: "(64 word \<Rightarrow> (slice \<times> slice) list) \<Rightarrow> slice \<Rightarrow> FileMetaData list \<Rightarrow> FileMetaData list \<Rightarrow> bool" where
  "finds_newest contents ikey fs files \<longleftrightarrow> set fs \<subseteq> set files \<and>
     (case find (\<lambda>f. shown contents ikey f \<noteq> {}) fs of
        None \<Rightarrow> \<forall>f \<in> set files. shown contents ikey f = {}
      | Some f \<Rightarrow> \<forall>g \<in> set files. \<forall>e \<in> shown contents ikey g. \<exists>e' \<in> shown contents ikey f. ik_num (fst e) \<le> ik_num (fst e'))"

lemma level0_candidates:
  assumes "level_holds contents 0 files" and "internal_good ugood ikey" and "files \<noteq> []"
  shows "\<exists>fs. level_candidates ucmp (ik_user ikey) ikey 0 files = Some fs \<and> finds_newest contents ikey fs files"
proof -
  let ?inside = "\<lambda>f. \<not> lt (ik_user ikey) (ik_user (f_smallest f)) \<and> \<not> lt (ik_user (f_largest f)) (ik_user ikey)"
  let ?key = "\<lambda>f. - int (unat (f_number f))" and ?fs = "newest_first (filter ?inside files)"
  have h: "\<forall>f \<in> set files. holds_entries contents f" using assms(1) by (simp add: level_holds_def)
  have U: "ugood (ik_user ikey)" using assms(2) by (simp add: internal_good_def)
  have c: "level_candidates ucmp (ik_user ikey) ikey 0 files = Some ?fs"
    using overlapping_files_eq [OF _ U, of files] h holds_file_ok assms(3) unfolding level_candidates_def by auto
  have mem: "f \<in> set ?fs" if "f \<in> set files" "shown contents ikey f \<noteq> {}" for f
    using shown_range(1,2) [OF _ assms(2) that(2)] h that(1) by simp
  have "finds_newest contents ikey ?fs files"
  proof (cases "find (\<lambda>f. shown contents ikey f \<noteq> {}) ?fs")
    case None
    then have "\<forall>f \<in> set files. shown contents ikey f = {}" using mem unfolding find_None_iff by blast
    then show ?thesis using None by (auto simp: finds_newest_def)
  next
    case (Some f)
    then obtain i where i: "i < length ?fs" "shown contents ikey (?fs ! i) \<noteq> {}" "f = ?fs ! i" "\<forall>j < i. shown contents ikey (?fs ! j) = {}"
      by (auto simp: find_Some_iff)
    have fm: "f \<in> set files" using i(1,3) nth_mem [OF i(1)] by simp
    have "\<exists>e' \<in> shown contents ikey f. ik_num (fst e) \<le> ik_num (fst e')" if g: "g \<in> set files" and e: "e \<in> shown contents ikey g" for g e
    proof (cases "g = f")
      case False
      have "g \<in> set ?fs" using mem [OF g] e by blast
      then obtain j where j: "j < length ?fs" "?fs ! j = g" unfolding in_set_conv_nth by blast
      have ij: "i \<le> j" using i(4) j e not_le by blast
      have "sorted (map ?key ?fs)" by (simp add: newest_first_def)
      then have "?key (?fs ! i) \<le> ?key (?fs ! j)" using ij j(1) by (simp add: sorted_iff_nth_mono)
      then have "f_number g \<le> f_number f" using i(3) j(2) by (simp add: word_le_def)
      then have n: "newer (contents (f_number f)) (contents (f_number g))"
        using assms(1) fm g False by (auto simp: level_holds_def less_le)
      obtain e' where e': "e' \<in> shown contents ikey f" using i(2,3) by blast
      have "ik_num (fst e) < ik_num (fst e')" using n e e' by (auto simp: newer_def shown_def visible_def)
      then show ?thesis using e' less_imp_le by blast
    qed (use e in blast)
    then show ?thesis using Some by (auto simp: finds_newest_def)
  qed
  then show ?thesis using c by blast
qed

end

context version_lookup
begin

lemma level_candidates_sorted:
  assumes "level_holds contents level files" and "0 < level" and "internal_good ugood ikey" and "files \<noteq> []"
  shows "\<exists>fs. level_candidates ucmp (ik_user ikey) ikey level files = Some fs \<and> finds_newest contents ikey fs files"
proof -
  define n where "n = seek_pos ik.lt (file_index files) ikey"
  have h: "\<forall>f \<in> set files. holds_entries contents f" and s: "level_sorted files" using assms(1,2) by (simp_all add: level_holds_def)
  have ok: "\<forall>f \<in> set files. file_ok f" using h holds_file_ok by blast
  have U: "ugood (ik_user ikey)" using assms(3) by (simp add: internal_good_def)
  note find = FindFile_finds [OF s assms(3), folded n_def]
  have at: "ik.lt (f_largest (files ! i)) ikey \<longleftrightarrow> i < n" if "i < length files" for i
    using ik.seek_pos_iff [OF level_sorted_largest [OF s] index_good [OF ok] assms(3), of i] that by (simp add: n_def)
  have behind: "n \<le> i" if "i < length files" "shown contents ikey (files ! i) \<noteq> {}" for i
    using shown_range(3) [OF _ assms(3) that(2)] h at [OF that(1)] that(1) by simp
  show ?thesis
  proof (cases "n < length files")
    case False
    then have "\<forall>f \<in> set files. shown contents ikey f = {}" using behind by (fastforce simp: in_set_conv_nth)
    then show ?thesis using False find assms(2,4) by (simp add: level_candidates_def finds_newest_def)
  next
    case True
    let ?f = "files ! n"
    have f: "?f \<in> set files" "file_ok ?f" "holds_entries contents ?f" using True ok h by simp_all
    have gf: "internal_good ugood (f_smallest ?f)" "internal_good ugood (f_largest ?f)" using f(2) by (simp_all add: file_ok_def)
    have Uf: "ugood (ik_user (f_smallest ?f))" using file_users(1) [OF f(2)] .
    obtain c where c: "ucmp (ik_user ikey) (ik_user (f_smallest ?f)) = Some c" using cmp_total [OF U Uf] by blast
    have lt: "c < 0 \<longleftrightarrow> lt (ik_user ikey) (ik_user (f_smallest ?f))" using c by (simp add: lt_def)
    let ?fs = "if c < 0 then [] else [?f]"
    have cand: "level_candidates ucmp (ik_user ikey) ikey level files = Some ?fs"
      using True find assms(2,4) c file_users(3) [OF f(2)] by (simp add: level_candidates_def)
    have last: "\<not> ik.lt (f_largest ?f) ikey" using at [OF True] by simp
    have here: "\<not> c < 0 \<and> (\<exists>e' \<in> shown contents ikey ?f. ik_num (fst e) \<le> ik_num (fst e'))"
      if g: "g \<in> set files" and e: "e \<in> shown contents ikey g" for g e
    proof -
      obtain i where i: "i < length files" "files ! i = g" using g by (auto simp: in_set_conv_nth)
      have ni: "n \<le> i" using behind [OF i(1)] i(2) e by blast
      show ?thesis
      proof (cases "n = i")
        case True
        then show ?thesis using shown_range(1) [OF f(3) assms(3)] e i(2) lt by auto
      next
        case False
        have hg: "holds_entries contents g" using h g by blast
        have em: "e \<in> set (contents (f_number g))" "ik_user (fst e) = ik_user ikey" using e by (simp_all add: shown_def visible_def)
        note eb = entry_between [OF hg em(1)] and gg = holds_file_ok [OF hg]
        have l1: "ik.lt (f_largest ?f) (f_smallest g)" using s ni False i by (auto simp: level_sorted_def sorted_wrt_iff_nth_less)
        have "ik.le (f_smallest g) (fst e)" using eb(1,2) ik.le_not_lt gg unfolding file_ok_def by blast
        from ik.lt_le_trans [OF gf(2) _ eb(1) l1 this] have "ik.lt (f_largest ?f) (fst e)" using gg unfolding file_ok_def by blast
        then have lf: "lt (ik_user (f_largest ?f)) (ik_user ikey) \<or> ik_user (f_largest ?f) = ik_user ikey \<and> ik_num (fst e) < ik_num (f_largest ?f)"
          using ik_lt_iff [OF gf(2) eb(1)] em(2) by simp
        have nl: "\<not> lt (ik_user (f_largest ?f)) (ik_user ikey)" using last ik_lt_iff [OF gf(2) assms(3)] by blast
        then have u: "ik_user (f_largest ?f) = ik_user ikey" "ik_num (fst e) < ik_num (f_largest ?f)" using lf by auto
        moreover have "ik_num (f_largest ?f) \<le> ik_num ikey" using last ik_lt_iff [OF gf(2) assms(3)] u(1) by auto
        ultimately have m: "last (contents (f_number ?f)) \<in> shown contents ikey ?f"
          using bounds_are_entries(2) [OF f(3)] entries(6) [OF f(3)] by (simp add: shown_def visible_def)
        then have "\<not> c < 0" using shown_range(1) [OF f(3) assms(3)] lt by blast
        then show ?thesis using m u(2) entries(6) [OF f(3)] by (auto intro!: bexI [OF _ m])
      qed
    qed
    have "finds_newest contents ikey ?fs files"
    proof (cases "\<exists>g \<in> set files. shown contents ikey g \<noteq> {}")
      case True
      then obtain g e where "g \<in> set files" "e \<in> shown contents ikey g" by blast
      from here [OF this] have "\<not> c < 0" "shown contents ikey ?f \<noteq> {}" by blast+
      then show ?thesis using f(1) here by (simp add: finds_newest_def)
    next
      case False
      then show ?thesis using f(1) by (auto simp: finds_newest_def)
    qed
    then show ?thesis using cand by blast
  qed
qed

lemma candidates_find_newest:
  assumes "level_holds contents level files" and "internal_good ugood ikey"
  shows "\<exists>fs. level_candidates ucmp (ik_user ikey) ikey level files = Some fs \<and> finds_newest contents ikey fs files"
proof (cases "files = []")
  case True
  then show ?thesis by (simp add: level_candidates_def finds_newest_def)
next
  case False
  then show ?thesis using level0_candidates [OF _ assms(2)] level_candidates_sorted [OF assms(1) _ assms(2)] assms(1) by (cases "level = 0") auto
qed

end

subsection \<open>All levels\<close>

text \<open>The newer entries of a user key are on lower levels.\<close>

fun levels_hold :: "(nat \<Rightarrow> FileMetaData list \<Rightarrow> bool) \<Rightarrow> (64 word \<Rightarrow> (slice \<times> slice) list) \<Rightarrow> nat \<Rightarrow> FileMetaData list list \<Rightarrow> bool" where
  "levels_hold holds contents level [] \<longleftrightarrow> True"
| "levels_hold holds contents level (files # levels) \<longleftrightarrow> holds level files \<and>
     (\<forall>f \<in> set files. \<forall>gs \<in> set levels. \<forall>g \<in> set gs. newer (contents (f_number f)) (contents (f_number g))) \<and>
     levels_hold holds contents (Suc level) levels"

definition all_entries :: "(64 word \<Rightarrow> (slice \<times> slice) list) \<Rightarrow> FileMetaData list list \<Rightarrow> (slice \<times> slice) set" where
  "all_entries contents levels = (\<Union>files \<in> set levels. \<Union>f \<in> set files. set (contents (f_number f)))"

lemma visible_all: "visible ikey (all_entries contents levels) = (\<Union>files \<in> set levels. \<Union>f \<in> set files. shown contents ikey f)"
  by (auto simp: visible_def all_entries_def shown_def)

context version_lookup
begin

lemma get_in_files_answers:
  assumes "\<forall>f \<in> set fs. holds_entries contents f \<and> table_reads table_get contents f" and "internal_good ugood ikey"
  shows "\<exists>r st'. get_in_files ucmp table_get (ik_user ikey) ikey level fs st = Some (r, st') \<and>
    (case find (\<lambda>f. shown contents ikey f \<noteq> {}) fs of
       None \<Rightarrow> r = None \<and> gs_value st' = gs_value st
     | Some f \<Rightarrow> \<exists>e. newest e (shown contents ikey f) \<and> r = Some (fst (entry_answer (gs_value st) e)) \<and>
         gs_value st' = snd (entry_answer (gs_value st) e))"
  using assms(1)
proof (induction fs arbitrary: st)
  case (Cons f fs)
  obtain r st1 where r: "get_in_file ucmp table_get (ik_user ikey) ikey level f st = Some (r, st1)"
    "if shown contents ikey f = {} then r = None \<and> gs_value st1 = gs_value st
     else \<exists>e. newest e (shown contents ikey f) \<and> r = Some (fst (entry_answer (gs_value st) e)) \<and> gs_value st1 = snd (entry_answer (gs_value st) e)"
    using get_in_file_answers [of contents f table_get ikey level st] Cons.prems assms(2) unfolding shown_def by (simp del: split_paired_Ex split_paired_All) blast
  show ?case
  proof (cases "shown contents ikey f = {}")
    case True
    then have st: "r = None" "gs_value st1 = gs_value st" using r(2) by simp_all
    show ?thesis using Cons.IH [of st1, unfolded st(2)] Cons.prems r(1) True by (simp add: st(1))
  next
    case False
    then show ?thesis using r by (auto simp del: split_paired_Ex split_paired_All)
  qed
qed simp

lemma get_in_levels_answers:
  assumes "levels_hold (level_holds contents) contents level levels" and "\<forall>files \<in> set levels. \<forall>f \<in> set files. table_reads table_get contents f"
    and "internal_good ugood ikey"
  shows "\<exists>s st'. get_in_levels ucmp table_get (ik_user ikey) ikey level levels st = Some (s, st') \<and>
    answers (gs_value st) (visible ikey (all_entries contents levels)) s (gs_value st')"
  using assms(1,2)
proof (induction levels arbitrary: level st)
  case Nil
  then show ?case by (simp add: NotFound_some answers_def all_entries_def visible_def)
next
  case (Cons files levels)
  have h: "level_holds contents level files" "levels_hold (level_holds contents) contents (Suc level) levels"
    "\<forall>f \<in> set files. \<forall>gs \<in> set levels. \<forall>g \<in> set gs. newer (contents (f_number f)) (contents (f_number g))" using Cons.prems(1) by simp_all
  obtain fs where fs: "level_candidates ucmp (ik_user ikey) ikey level files = Some fs" "finds_newest contents ikey fs files"
    using candidates_find_newest [OF h(1) assms(3)] by blast
  have sub: "set fs \<subseteq> set files" using fs(2) by (simp add: finds_newest_def)
  then have "\<forall>f \<in> set fs. holds_entries contents f \<and> table_reads table_get contents f"
    using h(1) Cons.prems(2) by (auto simp: level_holds_def)
  from get_in_files_answers [OF this assms(3), of level st] obtain r st1 where
    r: "get_in_files ucmp table_get (ik_user ikey) ikey level fs st = Some (r, st1)"
    "case find (\<lambda>f. shown contents ikey f \<noteq> {}) fs of
       None \<Rightarrow> r = None \<and> gs_value st1 = gs_value st
     | Some f \<Rightarrow> \<exists>e. newest e (shown contents ikey f) \<and> r = Some (fst (entry_answer (gs_value st) e)) \<and> gs_value st1 = snd (entry_answer (gs_value st) e)"
    by blast
  let ?V = "visible ikey (all_entries contents (files # levels))" and ?W = "visible ikey (all_entries contents levels)"
  show ?case
  proof (cases "find (\<lambda>f. shown contents ikey f \<noteq> {}) fs")
    case None
    then have "\<forall>f \<in> set files. shown contents ikey f = {}" using fs(2) by (simp add: finds_newest_def)
    then have "?V = ?W" by (auto simp: visible_all)
    moreover have "r = None" "gs_value st1 = gs_value st" using r(2) None by simp_all
    ultimately show ?thesis using Cons.IH [OF h(2), of st1] Cons.prems(2) fs(1) r(1) by simp
  next
    case (Some f)
    then obtain e where e: "newest e (shown contents ikey f)" "r = Some (fst (entry_answer (gs_value st) e))"
      "gs_value st1 = snd (entry_answer (gs_value st) e)" using r(2) by auto
    have "f \<in> set fs" using Some by (auto simp: find_Some_iff)
    with sub have f: "f \<in> set files" by blast
    have best: "\<forall>g \<in> set files. \<forall>e' \<in> shown contents ikey g. \<exists>e'' \<in> shown contents ikey f. ik_num (fst e') \<le> ik_num (fst e'')"
      using fs(2) Some by (simp add: finds_newest_def)
    have ef: "e \<in> shown contents ikey f" "\<forall>e' \<in> shown contents ikey f. ik_num (fst e') \<le> ik_num (fst e)" using e(1) by (simp_all add: newest_def)
    have "ik_num (fst e') \<le> ik_num (fst e)" if e': "e' \<in> ?V" for e'
    proof -
      obtain gs g where g: "gs \<in> set (files # levels)" "g \<in> set gs" "e' \<in> shown contents ikey g" using e' by (auto simp: visible_all)
      show ?thesis
      proof (cases "gs = files")
        case True
        then obtain e'' where "e'' \<in> shown contents ikey f" "ik_num (fst e') \<le> ik_num (fst e'')" using best g(2,3) by blast
        then show ?thesis using ef(2) order_trans by blast
      next
        case False
        then have "newer (contents (f_number f)) (contents (f_number g))" using h(3) f g by auto
        then show ?thesis using ef(1) g(3) by (auto simp: newer_def shown_def visible_def less_imp_le)
      qed
    qed
    moreover have "e \<in> ?V" using ef(1) f by (auto simp: visible_all)
    ultimately have "newest e ?V" by (simp add: newest_def)
    then have "answers (gs_value st) ?V (fst (entry_answer (gs_value st) e)) (gs_value st1)" using e(3) by (auto simp: answers_def newest_def simp del: split_paired_Ex split_paired_All)
    then show ?thesis using fs(1) r(1) e(2) by simp
  qed
qed

end

subsection \<open>Tables answer as the lookup needs\<close>

text \<open>The cache of tables, when every file is a table that was opened on what was written.\<close>

lemma opened_table_reads:
  assumes "version_lookup ucmp ugood" and "user_table_contract options ugood upolicy" and "cp_Compare (op_comparator options) = ucmp"
    and "table_contract.opened (db_options address upolicy options) (internal_good ugood) rops block_cache t bytes (contents (f_number f)) blks LI"
    and "\<And>ikey. table_get (f_number f) (f_file_size f) ikey = InternalGet rops block_cache t ro ikey"
    and "\<forall>p k g. op_filter_policy options = Some p \<longrightarrow> ugood k \<longrightarrow> fp_KeyMayMatch p k g \<noteq> None"
  shows "version_lookup.table_reads ucmp ugood table_get contents f"
  unfolding version_lookup.table_reads_def [OF assms(1)] Let_def
proof (intro allI impI)
  fix ikey
  assume g: "internal_good ugood ikey"
  then have "\<forall>p g. op_filter_policy options = Some p \<longrightarrow> fp_KeyMayMatch p (ik_user ikey) g \<noteq> None"
    using assms(6) by (simp add: internal_good_def)
  from user_table_contract.newest_entry_found [OF assms(2,4) g this, of ro]
  show "\<exists>saved. table_get (f_number f) (f_file_size f) ikey = Some (Status_OK, saved) \<and>
      (saved = None \<or> seek_pos (comparator.lt (InternalKeyCompare ucmp)) (contents (f_number f)) ikey < length (contents (f_number f)) \<and>
         saved = Some (contents (f_number f) ! seek_pos (comparator.lt (InternalKeyCompare ucmp)) (contents (f_number f)) ikey)) \<and>
      (seek_pos (comparator.lt (InternalKeyCompare ucmp)) (contents (f_number f)) ikey < length (contents (f_number f)) \<and>
         ik_user (fst (contents (f_number f) ! seek_pos (comparator.lt (InternalKeyCompare ucmp)) (contents (f_number f)) ikey)) = ik_user ikey \<longrightarrow>
       saved = Some (contents (f_number f) ! seek_pos (comparator.lt (InternalKeyCompare ucmp)) (contents (f_number f)) ikey))"
    unfolding assms(3,5) .
qed

subsection \<open>The newest visible entry is found\<close>

lemma lookup_key_views:
  assumes "unat s < 2 ^ 56"
  shows "\<exists>k. LookupKey_new u s = Some k \<and> LookupKey_user_key k = u \<and> LookupKey_internal_key k = mk_ikey u s kTypeValue"
proof -
  have "take (length u) (mk_ikey u s kTypeValue) = u" by (simp add: mk_ikey_def)
  then show ?thesis using LookupKey_new_eq [OF assms, of u] by (simp add: LookupKey_user_key_def LookupKey_internal_key_def)
qed

text \<open>C40: a lookup in a version returns the newest entry that it may see. Over all levels, whose files hold sorted
  entries with newer ones in files that are searched earlier, \<open>Version::Get\<close> finds among the entries of the user key
  with a sequence number up to that of the lookup the one with the largest number: it returns its value, or not-found if
  it is a deletion or there is none. No search runs outside a list of files and no assertion fails.\<close>

theorem version_get_newest:
  assumes "version_lookup ucmp ugood" and "levels_hold (version_lookup.level_holds ucmp ugood contents) contents 0 (v_files v)"
    and "\<forall>files \<in> set (v_files v). \<forall>f \<in> set files. version_lookup.table_reads ucmp ugood table_get contents f"
    and "ugood u" and "s \<le> kMaxSequenceNumber"
  shows "\<exists>k st val' stats. LookupKey_new u s = Some k \<and> Version_Get ucmp table_get k val v = Some (st, val', stats) \<and>
    answers val (visible (mk_ikey u s kTypeValue) (all_entries contents (v_files v))) st val'"
proof -
  have S: "unat s < 2 ^ 56" using assms(5) by (simp only: kMax_bits)
  obtain k where k: "LookupKey_new u s = Some k" "LookupKey_user_key k = u" "LookupKey_internal_key k = mk_ikey u s kTypeValue"
    using lookup_key_views [OF S] by blast
  have g: "internal_good ugood (mk_ikey u s kTypeValue)" using assms(4) by simp
  let ?st = "\<lparr>gs_last_file_read = None, gs_last_file_read_level = - 1, gs_stats = \<lparr>seek_file = None, seek_file_level = - 1\<rparr>, gs_value = val\<rparr>"
  obtain r st' where "get_in_levels ucmp table_get u (mk_ikey u s kTypeValue) 0 (v_files v) ?st = Some (r, st')"
    "answers val (visible (mk_ikey u s kTypeValue) (all_entries contents (v_files v))) r (gs_value st')"
    using version_lookup.get_in_levels_answers [OF assms(1,2,3) g, of ?st] by auto
  then show ?thesis using k by (simp add: Version_Get_def)
qed

subsection \<open>An example\<close>

text \<open>A key was written with number 5, the file moved to level 1, and was deleted with number 7.\<close>

definition demo_contents :: "64 word \<Rightarrow> (slice \<times> slice) list" where
  "demo_contents n = (if n = 1 then [(mk_ikey [97] 5 kTypeValue, [1])] else [(mk_ikey [97] 7 kTypeDeletion, [])])"

definition demo_file :: "64 word \<Rightarrow> FileMetaData" where
  "demo_file n = FileMetaData_new n 100 (fst (hd (demo_contents n))) (fst (hd (demo_contents n)))"

definition demo_version :: Version where
  "demo_version = Version_new\<lparr>v_files := [[demo_file 2], [demo_file 1], [], [], [], [], []]\<rparr>"

definition demo_table_get :: "64 word \<Rightarrow> 64 word \<Rightarrow> slice \<Rightarrow> (Status \<times> (slice \<times> slice) option) option" where
  "demo_table_get number size' ikey =
     (let es = demo_contents number; n = seek_pos (comparator.lt (InternalKeyCompare Bytewise_Compare)) es ikey
      in Some (Status_OK, if n < length es then Some (es ! n) else None))"

lemma demo_numbers: "tag_num 5 kTypeValue = 1281" "tag_num 7 kTypeDeletion = 1792" "tag_num 6 kTypeValue = 1537"
  by (simp_all add: tag_num_def)

lemma demo_parse: "ParseInternalKey (mk_ikey [97] 5 kTypeValue) = Some \<lparr>pk_user_key = [97], pk_sequence = 5, pk_type = kTypeValue\<rparr>"
  "ParseInternalKey (mk_ikey [97] 7 kTypeDeletion) = Some \<lparr>pk_user_key = [97], pk_sequence = 7, pk_type = kTypeDeletion\<rparr>"
  by (rule Parse_mk_ikey, simp)+

lemma demo_reads: "version_lookup.table_reads Bytewise_Compare (\<lambda>_. True) demo_table_get demo_contents (demo_file n)"
  unfolding version_lookup.table_reads_def [OF bytewise_versions.version_lookup_axioms] demo_table_get_def Let_def by auto

lemma demo_holds: "version_lookup.holds_entries Bytewise_Compare (\<lambda>_. True) demo_contents (demo_file n)" if "n = 1 \<or> n = 2"
  using that by (auto simp: version_lookup.holds_entries_def [OF bytewise_versions.version_lookup_axioms] demo_file_def demo_contents_def
      FileMetaData_new_def demo_parse)

lemma demo_levels:
  "levels_hold (version_lookup.level_holds Bytewise_Compare (\<lambda>_. True) demo_contents) demo_contents 0 (v_files demo_version)"
proof -
  note d = version_lookup.level_holds_def [OF bytewise_versions.version_lookup_axioms]
  have "bytewise_versions.level_sorted [demo_file 1]" "bytewise_versions.level_sorted []"
    using bytewise_versions.holds_file_ok [OF demo_holds [of 1]] by (simp_all add: bytewise_versions.level_sorted_def)
  moreover have "newer (demo_contents (f_number (demo_file 2))) (demo_contents (f_number (demo_file 1)))"
    by (simp add: newer_def demo_file_def FileMetaData_new_def demo_contents_def demo_numbers)
  ultimately show ?thesis using demo_holds [of 1] demo_holds [of 2] by (simp add: demo_version_def d)
qed

theorem version_get_newest_witness:
  "\<exists>k stats. LookupKey_new [97] 6 = Some k \<and> Version_Get Bytewise_Compare demo_table_get k [] demo_version = Some (Status_OK, [1], stats)"
proof -
  have "\<forall>files \<in> set (v_files demo_version). \<forall>f \<in> set files. version_lookup.table_reads Bytewise_Compare (\<lambda>_. True) demo_table_get demo_contents f"
    using demo_reads by (simp add: demo_version_def)
  from version_get_newest [OF bytewise_versions.version_lookup_axioms demo_levels this TrueI, of 6 "[97]" "[]"] obtain k st val' stats where
    k: "LookupKey_new [97] 6 = Some k" "Version_Get Bytewise_Compare demo_table_get k [] demo_version = Some (st, val', stats)"
      "answers [] (visible (mk_ikey [97] 6 kTypeValue) (all_entries demo_contents (v_files demo_version))) st val'"
    by (auto simp: kMaxSequenceNumber_def)
  have "visible (mk_ikey [97] 6 kTypeValue) (all_entries demo_contents (v_files demo_version)) = {(mk_ikey [97] 5 kTypeValue, [1])}"
    by (auto simp: visible_def all_entries_def demo_version_def demo_file_def FileMetaData_new_def demo_contents_def demo_numbers)
  then have "st = Status_OK" "val' = [1]" using k(3) by (auto simp: answers_def newest_def entry_answer_def demo_parse)
  then show ?thesis using k(1,2) by blast
qed

end
