(* ===== verification/Spec2Isabelle.thy ===== *)
theory Spec2Isabelle
  imports Pb_Presence Pb_Wire Pb_Fields Ldb_Write_Batch Ldb_Log_Read Ldb_Filter Ldb_Db_Iter Ldb_Table_Correct Ldb_Version_Get
begin

text \<open>
  Verification of the C and C++ code bundled with the project: the protocol-buffer library nanopb
  and parts of the storage library leveldb.
\<close>

end
